(* ===== verification/Drevo_Prelude.thy ===== *)
theory Drevo_Prelude
  imports
    Main
    "HOL-Library.Word"
    "HOL-Library.Finite_Map"
begin

text \<open>
  Shared ground of the development: names for the machine types of the Rust sources, the result
  type of fallible operations, and the generic facts on words, lists and finite maps that the
  component theories rest on.

  Conventions used by every component:
  \<^item> \<open>u64\<close>, \<open>u32\<close> are \<open>HOL-Library\<close> words (arithmetic wraps, as in a Rust release build);
    \<open>i64\<close> timestamps are \<open>int\<close> with saturation and wrap-around written out where the code computes
    with them;
  \<^item> \<open>HashMap\<close>, \<open>BTreeMap\<close> are finite maps \<open>('k, 'v) fmap\<close>, \<open>HashSet\<close> and \<open>BTreeSet\<close>
    are \<open>'a fset\<close>; both stay executable;
  \<^item> a \<open>Result\<close> is \<open>'e + 'a\<close>, with \<open>Inl\<close> the error;
  \<^item> \<open>&mut self\<close> becomes a state argument that is returned updated.
\<close>

type_synonym u64 = "64 word"
type_synonym u32 = "32 word"
type_synonym ('e, 'a) result = "'e + 'a"

named_theorems chain_simps \<open>rewriting of version chains\<close>
named_theorems step_later \<open>every registry operation only moves the registry forward\<close>
named_theorems wf_intros \<open>preservation of a component's well-formedness\<close>

section \<open>Machine words\<close>

abbreviation u64_max :: u64 where
  "u64_max \<equiv> - 1"

abbreviation i64_max :: int where "i64_max \<equiv> 9223372036854775807"
abbreviation i64_min :: int where "i64_min \<equiv> -9223372036854775808"

definition in_i64 :: "int \<Rightarrow> bool" where
  "in_i64 n \<longleftrightarrow> i64_min \<le> n \<and> n \<le> i64_max"

definition i64_wrap :: "int \<Rightarrow> int" where
  "i64_wrap n = (n + 9223372036854775808) mod 18446744073709551616 - 9223372036854775808"

lemma i64_wrap_id: "in_i64 n \<Longrightarrow> i64_wrap n = n"
  by (simp add: i64_wrap_def in_i64_def)

lemma word_less_plus_one:
  fixes x y :: "'a::len word"
  assumes "y \<noteq> - 1"
  shows "x < y + 1 \<longleftrightarrow> x \<le> y"
proof -
  from assms have "1 + y \<noteq> 0"
    by (metis add_eq_0_iff)
  then have "unat (y + 1) = Suc (unat y)"
    by (metis unatSuc add.commute)
  then show ?thesis
    by (simp add: word_less_nat_alt word_le_nat_alt less_Suc_eq_le)
qed

lemma word_plus_one_gt [simp]:
  fixes y :: "'a::len word"
  assumes "y \<noteq> - 1"
  shows "y < y + 1"
  using assms by (simp add: word_less_plus_one)

lemma word_plus_one_neq_0:
  fixes y :: "'a::len word"
  assumes "y \<noteq> - 1"
  shows "y + 1 \<noteq> 0"
  using assms by (metis add.commute add_eq_0_iff)

lemma word_one_le_iff: "(1::'a::len word) \<le> y \<longleftrightarrow> y \<noteq> 0"
  by (auto simp: word_le_nat_alt Suc_le_eq unat_gt_0)

section \<open>The last element that satisfies a predicate\<close>

text \<open>
  \<open>iter_mut().rev().find(p)\<close> followed by a write through the reference changes the last
  element that satisfies the predicate and no other.
\<close>

fun modify_first :: "('a \<Rightarrow> bool) \<Rightarrow> ('a \<Rightarrow> 'a) \<Rightarrow> 'a list \<Rightarrow> 'a list" where
  "modify_first P f [] = []"
| "modify_first P f (x # xs) = (if P x then f x # xs else x # modify_first P f xs)"

definition modify_last :: "('a \<Rightarrow> bool) \<Rightarrow> ('a \<Rightarrow> 'a) \<Rightarrow> 'a list \<Rightarrow> 'a list" where
  "modify_last P f xs = rev (modify_first P f (rev xs))"

lemma modify_first_all2:
  assumes "\<And>x. x \<in> set xs \<Longrightarrow> R x x" and "\<And>x. x \<in> set xs \<Longrightarrow> P x \<Longrightarrow> R x (f x)"
  shows "list_all2 R xs (modify_first P f xs)"
  using assms by (induction xs) (auto simp: list_all2_same)

lemma modify_last_all2:
  assumes "\<And>x. x \<in> set xs \<Longrightarrow> R x x" and "\<And>x. x \<in> set xs \<Longrightarrow> P x \<Longrightarrow> R x (f x)"
  shows "list_all2 R xs (modify_last P f xs)"
proof -
  have "list_all2 R (rev xs) (modify_first P f (rev xs))"
    using assms by (intro modify_first_all2) auto
  then show ?thesis
    by (simp add: modify_last_def list_all2_rev1)
qed

lemma modify_first_id: "\<forall>x \<in> set xs. \<not> P x \<Longrightarrow> modify_first P f xs = xs"
  by (induction xs) auto

lemma modify_last_id: "\<forall>x \<in> set xs. \<not> P x \<Longrightarrow> modify_last P f xs = xs"
  by (simp add: modify_last_def modify_first_id)

lemma length_modify_first [simp]: "length (modify_first P f xs) = length xs"
  by (induction xs) auto

lemma length_modify_last [simp]: "length (modify_last P f xs) = length xs"
  by (simp add: modify_last_def)

lemma modify_last_Nil [simp]: "modify_last P f [] = []"
  by (simp add: modify_last_def)

lemma modify_last_snoc [simp]:
  "modify_last P f (xs @ [x]) = (if P x then xs @ [f x] else modify_last P f xs @ [x])"
  by (simp add: modify_last_def)

lemma set_modify_first: "set (modify_first P f xs) \<subseteq> set xs \<union> f ` {x \<in> set xs. P x}"
  by (induction xs) auto

lemma set_modify_last: "set (modify_last P f xs) \<subseteq> set xs \<union> f ` {x \<in> set xs. P x}"
  using set_modify_first [of P f "rev xs"] by (simp add: modify_last_def)

section \<open>Newest-first search\<close>

text \<open>
  A reader walks a chain newest-first and takes the first hit. Two chains that agree pointwise on
  what is a hit and what a hit yields give the same answer; elements that are no hit may be dropped.
\<close>

definition newest :: "('a \<Rightarrow> bool) \<Rightarrow> 'a list \<Rightarrow> 'a option" where
  "newest P xs = List.find P (rev xs)"

lemma newest_Nil [simp]: "newest P [] = None"
  by (simp add: newest_def)

lemma newest_snoc [simp]: "newest P (xs @ [x]) = (if P x then Some x else newest P xs)"
  by (simp add: newest_def)

lemma newest_None_iff: "newest P xs = None \<longleftrightarrow> (\<forall>x \<in> set xs. \<not> P x)"
  by (auto simp: newest_def find_None_iff)

lemma newest_Some_in: "newest P xs = Some x \<Longrightarrow> x \<in> set xs \<and> P x"
  by (induction xs rule: rev_induct) (auto split: if_splits)

lemma find_all2_cong:
  assumes "list_all2 (\<lambda>x y. P x = Q y \<and> f x = g y) xs ys"
  shows "map_option f (List.find P xs) = map_option g (List.find Q ys)"
  using assms by (induction rule: list_all2_induct) auto

lemma newest_all2_cong:
  assumes "list_all2 (\<lambda>x y. P x = Q y \<and> f x = g y) xs ys"
  shows "map_option f (newest P xs) = map_option g (newest Q ys)"
  unfolding newest_def using assms by (intro find_all2_cong) (simp add: list_all2_rev)

lemma newest_filter:
  assumes "\<forall>x \<in> set xs. P x \<longrightarrow> keep x"
  shows "newest P (filter keep xs) = newest P xs"
  using assms by (induction xs rule: rev_induct) auto

lemma newest_cong:
  assumes "\<And>x. x \<in> set xs \<Longrightarrow> P x = Q x"
  shows "newest P xs = newest Q xs"
  using assms by (induction xs rule: rev_induct) auto

section \<open>Finite sets and maps\<close>

text \<open>\<open>iter().min()\<close>, or the first element of a \<open>BTreeSet\<close>: \<open>None\<close> when there is none.\<close>

definition fset_min :: "'a::linorder fset \<Rightarrow> 'a option" where
  "fset_min S = (if S = {||} then None else Some (fMin S))"

lemma fset_min_None_iff: "fset_min S = None \<longleftrightarrow> (\<forall>x. x |\<notin>| S)"
  by (auto simp: fset_min_def)

lemma fset_min_SomeD: "fset_min S = Some x \<Longrightarrow> x |\<in>| S \<and> (\<forall>y. y |\<in>| S \<longrightarrow> x \<le> y)"
  by (metis fMin_in fMin_le fset_min_def option.distinct(1) option.inject)

lemma fset_minI: "x |\<in>| S \<Longrightarrow> (\<And>y. y |\<in>| S \<Longrightarrow> x \<le> y) \<Longrightarrow> fset_min S = Some x"
  by (metis fset_min_None_iff fset_min_SomeD not_None_eq order_antisym)

lemma fmupd_same: "fmlookup m k = Some v \<Longrightarrow> fmupd k v m = m"
  by (rule fmap_ext) auto

lemma unat_of_nat_small: "n < 2 ^ LENGTH('a) \<Longrightarrow> unat (of_nat n :: 'a::len word) = n"
  by (simp add: unsigned_of_nat take_bit_nat_eq_self)

lemma of_nat_word_0_iff:
  "n < 2 ^ LENGTH('a) \<Longrightarrow> (of_nat n :: 'a::len word) = 0 \<longleftrightarrow> n = 0"
  by (auto simp: word_of_nat_eq_0_iff dest: dvd_imp_le)

section \<open>Searching sorted slices\<close>

text \<open>
  \<open>slice::partition_point\<close> of the standard library: a binary search for the first element that does
  not satisfy the predicate, on a slice whose satisfying elements all come first; and
  \<open>slice::binary_search\<close>, which gives the position of an equal element of a sorted slice.
\<close>

function pp_loop :: "('a \<Rightarrow> bool) \<Rightarrow> 'a list \<Rightarrow> nat \<Rightarrow> nat \<Rightarrow> nat" where
  "pp_loop P xs lo hi =
     (if lo < hi
      then let mid = (lo + hi) div 2 in
        if P (xs ! mid) then pp_loop P xs (mid + 1) hi else pp_loop P xs lo mid
      else lo)"
  by pat_completeness auto
termination
  by (relation "measure (\<lambda>(P, xs, lo, hi). hi - lo)") auto

declare pp_loop.simps [simp del]

definition partition_point :: "('a \<Rightarrow> bool) \<Rightarrow> 'a list \<Rightarrow> nat" where
  "partition_point P xs = pp_loop P xs 0 (length xs)"

definition partitioned :: "('a \<Rightarrow> bool) \<Rightarrow> 'a list \<Rightarrow> bool" where
  "partitioned P xs \<longleftrightarrow> sorted_wrt (\<lambda>x y. P y \<longrightarrow> P x) xs"

definition binary_search :: "'a::linorder list \<Rightarrow> 'a \<Rightarrow> nat option" where
  "binary_search xs x =
     (let i = partition_point (\<lambda>y. y < x) xs in if i < length xs \<and> xs ! i = x then Some i else None)"

lemma pp_loop_correct:
  assumes "partitioned P xs" and "lo \<le> hi" and "hi \<le> length xs"
    and "\<forall>i < lo. P (xs ! i)" and "\<forall>i < length xs. hi \<le> i \<longrightarrow> \<not> P (xs ! i)"
  shows "(\<forall>i < pp_loop P xs lo hi. P (xs ! i)) \<and>
    (\<forall>i < length xs. pp_loop P xs lo hi \<le> i \<longrightarrow> \<not> P (xs ! i)) \<and> pp_loop P xs lo hi \<le> length xs"
  using assms
proof (induction P xs lo hi rule: pp_loop.induct)
  case (1 P xs lo hi)
  let ?mid = "(lo + hi) div 2"
  note part = 1(3) [unfolded partitioned_def sorted_wrt_iff_nth_less, rule_format]
  consider (stop) "\<not> lo < hi" | (up) "lo < hi" "P (xs ! ?mid)" | (down) "lo < hi" "\<not> P (xs ! ?mid)"
    by blast
  then show ?case
  proof cases
    case stop
    then have "pp_loop P xs lo hi = lo"
      by (simp add: pp_loop.simps [of P xs lo hi])
    with stop 1(4-7) show ?thesis by simp
  next
    case up
    then have mid: "?mid < length xs" "?mid < hi"
      using 1(4,5) by auto
    have "P (xs ! i)" if "i < ?mid + 1" for i
      using that mid up(2) part [of i ?mid] by (cases "i = ?mid") auto
    moreover have eq: "pp_loop P xs lo hi = pp_loop P xs (?mid + 1) hi"
      using up by (subst pp_loop.simps) (simp add: Let_def)
    ultimately show ?thesis
      unfolding eq using mid(2) by (intro 1(1) [OF up(1) refl up(2) 1(3) _ 1(5) _ 1(7)]) auto
  next
    case down
    then have mid: "?mid < length xs" "lo \<le> ?mid"
      using 1(4,5) by auto
    have "\<not> P (xs ! i)" if "?mid \<le> i" "i < length xs" for i
      using that mid down(2) part [of ?mid i] by (cases "i = ?mid") auto
    moreover have eq: "pp_loop P xs lo hi = pp_loop P xs lo ?mid"
      using down by (subst pp_loop.simps) (simp add: Let_def)
    ultimately show ?thesis
      unfolding eq using mid by (intro 1(2) [OF down(1) refl down(2) 1(3) _ _ 1(6)]) auto
  qed
qed

lemma partition_point_takeWhile:
  assumes "partitioned P xs"
  shows "takeWhile P xs = take (partition_point P xs) xs" and "dropWhile P xs = drop (partition_point P xs) xs"
    and "partition_point P xs \<le> length xs"
proof -
  note c = pp_loop_correct [OF assms, of 0 "length xs", folded partition_point_def, simplified]
  then show *: "takeWhile P xs = take (partition_point P xs) xs"
    by (intro takeWhile_eq_take_P_nth) auto
  from c show "partition_point P xs \<le> length xs" by simp
  then show "dropWhile P xs = drop (partition_point P xs) xs"
    by (simp add: dropWhile_eq_drop *)
qed

lemma partitioned_less:
  assumes "sorted (map f xs)"
  shows "partitioned (\<lambda>y. f y < (x :: 'a::linorder)) xs" "partitioned (\<lambda>y. f y \<le> x) xs"
  using assms unfolding partitioned_def sorted_map
  by (auto elim!: sorted_wrt_mono_rel [rotated])

lemma binary_search_SomeD:
  "binary_search xs x = Some i \<Longrightarrow> i < length xs \<and> xs ! i = x"
  by (auto simp: binary_search_def Let_def split: if_splits)

lemma binary_search_None:
  assumes "sorted xs" and "binary_search xs x = None"
  shows "x \<notin> set xs"
proof
  assume "x \<in> set xs"
  let ?i = "partition_point (\<lambda>y. y < x) xs"
  have part: "partitioned (\<lambda>y. y < x) xs"
    using partitioned_less(1) [of "\<lambda>y. y" xs x] assms(1) by simp
  note c = pp_loop_correct [OF part, of 0 "length xs", folded partition_point_def, simplified]
  obtain j where j: "j < length xs" "xs ! j = x"
    using \<open>x \<in> set xs\<close> by (auto simp: in_set_conv_nth)
  then have "?i \<le> j"
    using c by (metis leI order_less_irrefl)
  then have "?i < length xs" and "xs ! ?i \<le> x" and "\<not> xs ! ?i < x"
    using c j assms(1) sorted_nth_mono by fastforce+
  with assms(2) show False
    by (simp add: binary_search_def Let_def)
qed

lemma binary_search_iff:
  assumes "sorted xs" and "distinct xs"
  shows "binary_search xs x = Some i \<longleftrightarrow> i < length xs \<and> xs ! i = x"
proof
  assume i: "i < length xs \<and> xs ! i = x"
  then have "x \<in> set xs" by auto
  then obtain j where j: "binary_search xs x = Some j"
    using binary_search_None [OF assms(1)] by blast
  with i assms(2) binary_search_SomeD [OF j] show "binary_search xs x = Some i"
    by (auto simp: nth_eq_iff_index_eq)
qed (rule binary_search_SomeD)

section \<open>Maps collected from pairs\<close>

text \<open>Collecting pairs into a map; of two pairs with the same key the later one counts.\<close>

definition collect_map :: "('k \<times> 'v) list \<Rightarrow> ('k, 'v) fmap" where
  "collect_map kvs = foldl (\<lambda>m (k, v). fmupd k v m) fmempty kvs"

lemma collect_map_map_of: "fmlookup (collect_map kvs) k = map_of (rev kvs) k"
proof -
  have "fmlookup (foldl (\<lambda>m (k, v). fmupd k v m) m0 kvs) k = (case map_of (rev kvs) k of None \<Rightarrow> fmlookup m0 k | Some v \<Rightarrow> Some v)" for m0
    by (induction kvs arbitrary: m0) (auto simp: map_add_def split: option.splits)
  then show ?thesis
    by (simp add: collect_map_def split: option.splits)
qed

end
