(* ===== verification/Mvcc_Txn.thy ===== *)
theory Mvcc_Txn
  imports Drevo_Prelude
begin

text \<open>
  Transaction ids, the commit log and snapshots: \<^verbatim>\<open>src/src/mvcc/transaction.rs\<close> and the
  error type of \<^verbatim>\<open>src/src/mvcc/error.rs\<close>.

  The registry behind the manager's lock is the record \<open>registry\<close>; one operation of the manager,
  which runs under one acquisition of that lock, is one function on it. A poisoned lock (a panic of
  another thread inside a critical section) is outside the model, so operations whose only error is
  \<open>LockPoisoned\<close> are total here.

  The theory ends with the interface \<open>snapshot_visibility\<close> that the version store relies on, and its
  interpretation on the definitions below.
\<close>

section \<open>The model\<close>

type_synonym xid = u64

definition INVALID_XID :: xid where
  "INVALID_XID = 0"

datatype mvcc_error =
    LockPoisoned
  | NotInProgress xid
  | WriteConflict xid
  | SerializationFailure xid
  | RetriesExhausted nat

datatype xid_status = InProgress | Committed | Aborted

record registry =
  reg_next :: xid
  reg_status :: "(xid, xid_status) fmap"
  reg_active_snaps :: "(xid, u64) fmap"

record snapshot =
  s_xmin :: xid
  s_xmax :: xid
  s_active :: "xid fset"
  s_my_xid :: xid

definition mgr_new :: registry where
  "mgr_new = \<lparr>reg_next = 1, reg_status = fmempty, reg_active_snaps = fmempty\<rparr>"

definition mgr_begin :: "registry \<Rightarrow> xid \<times> registry" where
  "mgr_begin m =
     (let xid = reg_next m in
      (xid, m\<lparr>reg_next := xid + 1, reg_status := fmupd xid InProgress (reg_status m)\<rparr>))"

definition mgr_finish :: "registry \<Rightarrow> xid \<Rightarrow> xid_status \<Rightarrow> (mvcc_error, registry) result" where
  "mgr_finish m xid to =
     (case fmlookup (reg_status m) xid of
        Some InProgress \<Rightarrow> Inr (m\<lparr>reg_status := fmupd xid to (reg_status m)\<rparr>)
      | _ \<Rightarrow> Inl (NotInProgress xid))"

definition mgr_commit :: "registry \<Rightarrow> xid \<Rightarrow> (mvcc_error, registry) result" where
  "mgr_commit m xid = mgr_finish m xid Committed"

definition mgr_abort :: "registry \<Rightarrow> xid \<Rightarrow> (mvcc_error, registry) result" where
  "mgr_abort m xid = mgr_finish m xid Aborted"

definition mgr_status :: "registry \<Rightarrow> xid \<Rightarrow> xid_status" where
  "mgr_status m xid =
     (if xid = INVALID_XID then Aborted
      else (case fmlookup (reg_status m) xid of Some s \<Rightarrow> s | None \<Rightarrow> Aborted))"

definition in_progress_ids :: "registry \<Rightarrow> xid fset" where
  "in_progress_ids m =
     ffilter (\<lambda>x. fmlookup (reg_status m) x = Some InProgress) (fmdom (reg_status m))"

definition snapshot_locked :: "registry \<Rightarrow> xid \<Rightarrow> snapshot" where
  "snapshot_locked m my_xid =
     (let xmax = reg_next m;
          active = in_progress_ids m;
          xmin = (case fset_min active of Some x \<Rightarrow> x | None \<Rightarrow> xmax)
      in \<lparr>s_xmin = xmin, s_xmax = xmax, s_active = active, s_my_xid = my_xid\<rparr>)"

definition mgr_snapshot :: "registry \<Rightarrow> xid \<Rightarrow> snapshot" where
  "mgr_snapshot m my_xid = snapshot_locked m my_xid"

text \<open>
  \<open>begin_snapshot\<close> returns the guard's snapshot and the registry in which its \<open>xmin\<close> is pinned;
  dropping the guard runs \<open>release_snapshot\<close> with that \<open>xmin\<close>.
\<close>

definition begin_snapshot :: "registry \<Rightarrow> xid \<Rightarrow> snapshot \<times> registry" where
  "begin_snapshot m my_xid =
     (let snap = snapshot_locked m my_xid;
          count = (case fmlookup (reg_active_snaps m) (s_xmin snap) of Some c \<Rightarrow> c | None \<Rightarrow> 0)
      in (snap, m\<lparr>reg_active_snaps := fmupd (s_xmin snap) (count + 1) (reg_active_snaps m)\<rparr>))"

definition release_snapshot :: "registry \<Rightarrow> xid \<Rightarrow> registry" where
  "release_snapshot m xmin =
     (case fmlookup (reg_active_snaps m) xmin of
        None \<Rightarrow> m
      | Some count \<Rightarrow>
          (if count - 1 = 0
           then m\<lparr>reg_active_snaps := fmdrop xmin (reg_active_snaps m)\<rparr>
           else m\<lparr>reg_active_snaps := fmupd xmin (count - 1) (reg_active_snaps m)\<rparr>))"

definition gc_horizon :: "registry \<Rightarrow> xid" where
  "gc_horizon m =
     (let oldest_reader = fset_min (fmdom (reg_active_snaps m));
          oldest_in_progress = fset_min (in_progress_ids m)
      in case (oldest_reader, oldest_in_progress) of
           (None, None) \<Rightarrow> reg_next m
         | (Some r, None) \<Rightarrow> r
         | (None, Some t) \<Rightarrow> t
         | (Some r, Some t) \<Rightarrow> min r t)"

definition sees_effect :: "snapshot \<Rightarrow> xid \<Rightarrow> registry \<Rightarrow> bool" where
  "sees_effect s xid m =
     (if xid = INVALID_XID then False
      else if xid = s_my_xid s then True
      else if xid \<ge> s_xmax s then False
      else if xid |\<in>| s_active s then False
      else mgr_status m xid = Committed)"

section \<open>The registry invariant\<close>

text \<open>
  Every id below the counter has a status, and no id at or above it: ids are handed out in order,
  start at 1 and are never forgotten.
\<close>

definition reg_inv :: "registry \<Rightarrow> bool" where
  "reg_inv m \<longleftrightarrow> 1 \<le> reg_next m \<and> (\<forall>x. x |\<in>| fmdom (reg_status m) \<longleftrightarrow> 1 \<le> x \<and> x < reg_next m)"

definition running :: "registry \<Rightarrow> xid \<Rightarrow> bool" where
  "running m x \<longleftrightarrow> fmlookup (reg_status m) x = Some InProgress"

text \<open>\<open>later m m'\<close>: the registry moved from \<open>m\<close> to \<open>m'\<close>; a finished status is final and an id that
  is in progress in \<open>m'\<close> was in progress in \<open>m\<close> or begun since.\<close>

definition later :: "registry \<Rightarrow> registry \<Rightarrow> bool" where
  "later m m' \<longleftrightarrow> reg_inv m \<and> reg_inv m' \<and> reg_next m \<le> reg_next m' \<and>
     (\<forall>x < reg_next m. running m x \<or> fmlookup (reg_status m') x = fmlookup (reg_status m) x)"

text \<open>\<open>snap_ok m s\<close>: what stays true of a snapshot for the rest of its life.\<close>

definition snap_ok :: "registry \<Rightarrow> snapshot \<Rightarrow> bool" where
  "snap_ok m s \<longleftrightarrow> reg_inv m \<and> s_xmin s \<le> s_xmax s \<and> s_xmax s \<le> reg_next m \<and>
     (\<forall>x. x |\<in>| s_active s \<longrightarrow> s_xmin s \<le> x \<and> x < s_xmax s) \<and>
     (\<forall>x < s_xmax s. running m x \<longrightarrow> x |\<in>| s_active s)"

lemma in_progress_ids_iff [simp]: "x |\<in>| in_progress_ids m \<longleftrightarrow> running m x"
  by (auto simp: in_progress_ids_def running_def intro: fmdomI)

lemma running_bounds: "reg_inv m \<Longrightarrow> running m x \<Longrightarrow> 1 \<le> x \<and> x < reg_next m"
  by (auto simp: reg_inv_def running_def intro: fmdomI)

lemma running_status: "running m x \<Longrightarrow> x \<noteq> INVALID_XID \<Longrightarrow> mgr_status m x = InProgress"
  by (simp add: running_def mgr_status_def)

lemma later_refl: "reg_inv m \<Longrightarrow> later m m"
  by (simp add: later_def)

lemma later_running: "later m m' \<Longrightarrow> running m' x \<Longrightarrow> x < reg_next m \<Longrightarrow> running m x"
  by (auto simp: later_def running_def)

lemma later_trans: "later m m' \<Longrightarrow> later m' m'' \<Longrightarrow> later m m''"
  unfolding later_def running_def by (metis order_less_le_trans order_trans)

section \<open>Every operation moves the registry forward\<close>

lemma reg_inv_new [wf_intros]: "reg_inv mgr_new"
  by (auto simp: reg_inv_def mgr_new_def)

lemma reg_inv_begin [wf_intros]:
  assumes "reg_inv m" and "reg_next m \<noteq> u64_max"
  shows "reg_inv (snd (mgr_begin m))"
proof -
  have step: "x < reg_next m + 1 \<longleftrightarrow> x \<le> reg_next m" for x
    using assms(2) by (rule word_less_plus_one)
  have "1 \<le> reg_next m"
    using assms(1) by (simp add: reg_inv_def)
  then have "1 \<le> reg_next m + 1"
    using assms(2) by (metis word_plus_one_gt order_less_imp_le order_trans)
  with assms(1) \<open>1 \<le> reg_next m\<close> show ?thesis
    by (auto simp: reg_inv_def mgr_begin_def Let_def step order_le_less)
qed

lemma later_begin [step_later]:
  assumes "reg_inv m" and "reg_next m \<noteq> u64_max"
  shows "later m (snd (mgr_begin m))"
  using assms reg_inv_begin [OF assms]
  by (auto simp: later_def mgr_begin_def Let_def intro: order_less_imp_le)

lemma mgr_status_upd:
  "mgr_status (m\<lparr>reg_status := fmupd x st (reg_status m)\<rparr>) y =
     (if y = x \<and> y \<noteq> INVALID_XID then st else mgr_status m y)"
  by (simp add: mgr_status_def)

lemma mgr_status_begin:
  "mgr_status (snd (mgr_begin m)) y =
     (if y = reg_next m \<and> y \<noteq> INVALID_XID then InProgress else mgr_status m y)"
  by (simp add: mgr_status_def mgr_begin_def Let_def)

lemma mgr_finish_Inr_iff:
  "mgr_finish m x to = Inr m' \<longleftrightarrow>
     running m x \<and> m' = m\<lparr>reg_status := fmupd x to (reg_status m)\<rparr>"
  by (auto simp: mgr_finish_def running_def split: option.splits xid_status.splits)

lemma mgr_finish_Inl_iff:
  "mgr_finish m x to = Inl e \<longleftrightarrow> \<not> running m x \<and> e = NotInProgress x"
  by (auto simp: mgr_finish_def running_def split: option.splits xid_status.splits)

lemma reg_inv_upd_status:
  assumes "reg_inv m" and "running m x"
  shows "reg_inv (m\<lparr>reg_status := fmupd x to (reg_status m)\<rparr>)"
  using assms by (auto simp: reg_inv_def running_def intro: fmdomI)

lemma later_finish [step_later]:
  assumes "reg_inv m" and "mgr_finish m x to = Inr m'"
  shows "later m m'"
  using assms reg_inv_upd_status [OF assms(1)]
  by (auto simp: mgr_finish_Inr_iff later_def)

lemma later_active_snaps [step_later]:
  "reg_inv m \<Longrightarrow> later m (m\<lparr>reg_active_snaps := a\<rparr>)"
  by (simp add: later_def reg_inv_def)

lemma later_begin_snapshot [step_later]: "reg_inv m \<Longrightarrow> later m (snd (begin_snapshot m x))"
  by (simp add: begin_snapshot_def Let_def later_active_snaps)

lemma later_release [step_later]: "reg_inv m \<Longrightarrow> later m (release_snapshot m x)"
  by (auto simp: release_snapshot_def later_refl later_active_snaps split: option.splits)

section \<open>Snapshots\<close>

lemma snapshot_fields [simp]:
  "s_xmax (snapshot_locked m x) = reg_next m"
  "s_active (snapshot_locked m x) = in_progress_ids m"
  "s_my_xid (snapshot_locked m x) = x"
  by (simp_all add: snapshot_locked_def Let_def)

lemma snapshot_xmin_le:
  "running m y \<Longrightarrow> s_xmin (snapshot_locked m x) \<le> y"
  by (auto simp: snapshot_locked_def Let_def fset_min_None_iff dest: fset_min_SomeD split: option.split)

lemma snapshot_xmin_cases:
  "s_xmin (snapshot_locked m x) = reg_next m \<or> running m (s_xmin (snapshot_locked m x))"
  by (auto simp: snapshot_locked_def Let_def dest: fset_min_SomeD split: option.split)

lemma snapshot_xmin_le_next:
  "reg_inv m \<Longrightarrow> s_xmin (snapshot_locked m x) \<le> reg_next m"
  using snapshot_xmin_cases [of m x] running_bounds by fastforce

lemma snap_ok_snapshot:
  assumes "reg_inv m"
  shows "snap_ok m (snapshot_locked m x)"
  using assms running_bounds [OF assms]
  by (simp add: snap_ok_def snapshot_xmin_le snapshot_xmin_le_next)

lemma snap_ok_later:
  assumes "snap_ok m s" and "later m m'"
  shows "snap_ok m' s"
  using assms later_running [OF assms(2)] unfolding snap_ok_def later_def
  by (meson order_less_le_trans order_trans)

lemma sees_effect_later:
  assumes ok: "snap_ok m s" and l: "later m m'"
  shows "sees_effect s x m' = sees_effect s x m"
proof (cases "x \<noteq> s_my_xid s \<and> x < s_xmax s \<and> x |\<notin>| s_active s")
  case True
  with ok have "\<not> running m x" and "x < reg_next m"
    by (auto simp: snap_ok_def)
  with l have "fmlookup (reg_status m') x = fmlookup (reg_status m) x"
    by (auto simp: later_def)
  then show ?thesis
    by (simp add: sees_effect_def mgr_status_def)
next
  case False
  then show ?thesis
    by (auto simp: sees_effect_def)
qed

lemma sees_effect_running:
  assumes "snap_ok m s" and "running m x" and "x \<noteq> s_my_xid s"
  shows "\<not> sees_effect s x m"
  using assms by (auto simp: snap_ok_def sees_effect_def)

section \<open>The interface the version store relies on\<close>

text \<open>
  What a store of versions needs of a transaction manager: a verdict on the effect of an id under a
  snapshot that later manager states never change, that is negative for foreign running transactions
  and for the id that marks a live version, and positive for the snapshot's own.
\<close>

locale snapshot_visibility =
  fixes sees :: "'m \<Rightarrow> 's \<Rightarrow> xid \<Rightarrow> bool"
    and run :: "'m \<Rightarrow> xid \<Rightarrow> bool"
    and ok :: "'m \<Rightarrow> 's \<Rightarrow> bool"
    and fwd :: "'m \<Rightarrow> 'm \<Rightarrow> bool"
    and own :: "'s \<Rightarrow> xid"
  assumes sees_stable: "ok m s \<Longrightarrow> fwd m m' \<Longrightarrow> sees m' s x = sees m s x"
    and ok_fwd: "ok m s \<Longrightarrow> fwd m m' \<Longrightarrow> ok m' s"
    and fwd_trans: "fwd m m' \<Longrightarrow> fwd m' m'' \<Longrightarrow> fwd m m''"
    and running_unseen: "ok m s \<Longrightarrow> run m x \<Longrightarrow> x \<noteq> own s \<Longrightarrow> \<not> sees m s x"
    and own_seen: "own s \<noteq> INVALID_XID \<Longrightarrow> sees m s (own s)"
    and invalid_unseen: "\<not> sees m s INVALID_XID"

interpretation txn_vis: snapshot_visibility
  "\<lambda>m s x. sees_effect s x m" running snap_ok later s_my_xid
proof unfold_locales
  fix m s m' x
  assume "snap_ok m s" and "later m m'"
  then show "sees_effect s x m' = sees_effect s x m" and "snap_ok m' s"
    by (rule sees_effect_later, rule snap_ok_later)
next
  fix m s x
  assume "snap_ok m s" and "running m x" and "x \<noteq> s_my_xid s"
  then show "\<not> sees_effect s x m"
    by (rule sees_effect_running)
qed (auto intro: later_trans simp: sees_effect_def)

end
