(* ===== verification/Mvcc_Store.thy ===== *)
theory Mvcc_Store
  imports Mvcc_Txn
begin

text \<open>
  Tuple versions and the multi-version store: \<^verbatim>\<open>src/src/mvcc/version.rs\<close> and
  \<^verbatim>\<open>src/src/mvcc/store.rs\<close>.

  A store is the record \<open>vstore\<close>: the shared transaction manager and, for every key, its chain of
  versions, oldest first. One public operation, which runs under one acquisition of the store's lock,
  is one function. Iteration over a hash map or hash set has no fixed order in the code, so
  \<open>store_scan_visible\<close> and \<open>commit_serializable\<close> take the order as a list.
\<close>

section \<open>Versions\<close>

record 'v version =
  v_xmin :: xid
  v_xmax :: xid
  v_value :: 'v

definition version_new :: "xid \<Rightarrow> 'v \<Rightarrow> 'v version" where
  "version_new xmin value = \<lparr>v_xmin = xmin, v_xmax = INVALID_XID, v_value = value\<rparr>"

definition is_live :: "'v version \<Rightarrow> bool" where
  "is_live v \<longleftrightarrow> v_xmax v = INVALID_XID"

definition mark_deleted :: "xid \<Rightarrow> 'v version \<Rightarrow> 'v version" where
  "mark_deleted xid v = v\<lparr>v_xmax := xid\<rparr>"

definition is_visible :: "'v version \<Rightarrow> snapshot \<Rightarrow> registry \<Rightarrow> bool" where
  "is_visible v s m =
     (if \<not> sees_effect s (v_xmin v) m then False else \<not> sees_effect s (v_xmax v) m)"

definition is_reclaimable :: "'v version \<Rightarrow> xid \<Rightarrow> registry \<Rightarrow> bool" where
  "is_reclaimable v horizon m =
     (if v_xmax v \<noteq> INVALID_XID \<and> v_xmax v < horizon \<and> mgr_status m (v_xmax v) = Committed
      then True
      else if v_xmin v < horizon \<and> mgr_status m (v_xmin v) = Aborted
      then True
      else False)"

section \<open>The store\<close>

record vacuum_report =
  reclaimed_versions :: nat
  emptied_keys :: nat

record ('k, 'v) vstore =
  st_mgr :: registry
  st_chains :: "('k, 'v version list) fmap"

definition store_new :: "registry \<Rightarrow> ('k, 'v) vstore" where
  "store_new m = \<lparr>st_mgr = m, st_chains = fmempty\<rparr>"

definition retire_live :: "xid \<Rightarrow> 'v version list \<Rightarrow> 'v version list" where
  "retire_live xid chain = modify_last is_live (mark_deleted xid) chain"

definition chain_put :: "xid \<Rightarrow> 'v \<Rightarrow> 'v version list \<Rightarrow> 'v version list" where
  "chain_put xid value chain = retire_live xid chain @ [version_new xid value]"

definition entry_or_default :: "('k, 'v version list) fmap \<Rightarrow> 'k \<Rightarrow> 'v version list" where
  "entry_or_default cs key = (case fmlookup cs key of None \<Rightarrow> [] | Some chain \<Rightarrow> chain)"

definition store_put :: "('k, 'v) vstore \<Rightarrow> xid \<Rightarrow> 'k \<Rightarrow> 'v \<Rightarrow> ('k, 'v) vstore" where
  "store_put st xid key value =
     st\<lparr>st_chains :=
          fmupd key (chain_put xid value (entry_or_default (st_chains st) key)) (st_chains st)\<rparr>"

definition store_delete :: "('k, 'v) vstore \<Rightarrow> xid \<Rightarrow> 'k \<Rightarrow> bool \<times> ('k, 'v) vstore" where
  "store_delete st xid key =
     (case fmlookup (st_chains st) key of
        None \<Rightarrow> (False, st)
      | Some chain \<Rightarrow>
          (case newest is_live chain of
             Some _ \<Rightarrow> (True, st\<lparr>st_chains := fmupd key (retire_live xid chain) (st_chains st)\<rparr>)
           | None \<Rightarrow> (False, st)))"

definition decider :: "'v version \<Rightarrow> xid" where
  "decider head = (if is_live head then v_xmin head else v_xmax head)"

definition conflicting_writer ::
    "registry \<Rightarrow> 'v version list \<Rightarrow> xid \<Rightarrow> snapshot \<Rightarrow> xid option" where
  "conflicting_writer m chain writer s =
     (if chain = [] then None
      else let d = decider (last chain) in
        if d = INVALID_XID \<or> d = writer then None
        else if sees_effect s d m then None
        else if mgr_status m d = Aborted then None
        else Some d)"

definition store_put_checked ::
    "('k, 'v) vstore \<Rightarrow> xid \<Rightarrow> snapshot \<Rightarrow> 'k \<Rightarrow> 'v \<Rightarrow> (mvcc_error, unit) result \<times> ('k, 'v) vstore" where
  "store_put_checked st xid s key value =
     (let chain = entry_or_default (st_chains st) key;
          st1 = st\<lparr>st_chains := fmupd key chain (st_chains st)\<rparr>
      in case conflicting_writer (st_mgr st) chain xid s of
           Some winner \<Rightarrow> (Inl (WriteConflict winner), st1)
         | None \<Rightarrow> (Inr (), st1\<lparr>st_chains := fmupd key (chain_put xid value chain) (st_chains st1)\<rparr>))"

definition store_delete_checked ::
    "('k, 'v) vstore \<Rightarrow> xid \<Rightarrow> snapshot \<Rightarrow> 'k \<Rightarrow> (mvcc_error, bool) result \<times> ('k, 'v) vstore" where
  "store_delete_checked st xid s key =
     (case fmlookup (st_chains st) key of
        None \<Rightarrow> (Inr False, st)
      | Some chain \<Rightarrow>
          (case conflicting_writer (st_mgr st) chain xid s of
             Some winner \<Rightarrow> (Inl (WriteConflict winner), st)
           | None \<Rightarrow>
               (case newest is_live chain of
                  Some _ \<Rightarrow>
                    (Inr True, st\<lparr>st_chains := fmupd key (retire_live xid chain) (st_chains st)\<rparr>)
                | None \<Rightarrow> (Inr False, st))))"

definition read_conflict ::
    "registry \<Rightarrow> 'v version list \<Rightarrow> xid \<Rightarrow> snapshot \<Rightarrow> xid option" where
  "read_conflict m chain reader s =
     (if chain = [] then None
      else let d = decider (last chain) in
        if d = INVALID_XID \<or> d = reader then None
        else if sees_effect s d m then None
        else if mgr_status m d = Committed then Some d
        else None)"

fun first_read_conflict ::
    "('k, 'v) vstore \<Rightarrow> xid \<Rightarrow> snapshot \<Rightarrow> 'k list \<Rightarrow> xid option" where
  "first_read_conflict st xid s [] = None"
| "first_read_conflict st xid s (key # reads) =
     (case fmlookup (st_chains st) key of
        None \<Rightarrow> first_read_conflict st xid s reads
      | Some chain \<Rightarrow>
          (case read_conflict (st_mgr st) chain xid s of
             Some winner \<Rightarrow> Some winner
           | None \<Rightarrow> first_read_conflict st xid s reads))"

definition commit_serializable ::
    "('k, 'v) vstore \<Rightarrow> xid \<Rightarrow> snapshot \<Rightarrow> 'k list \<Rightarrow> (mvcc_error, unit) result \<times> ('k, 'v) vstore" where
  "commit_serializable st xid s reads =
     (case first_read_conflict st xid s reads of
        Some winner \<Rightarrow>
          (Inl (SerializationFailure winner),
           (case mgr_abort (st_mgr st) xid of Inl _ \<Rightarrow> st | Inr m \<Rightarrow> st\<lparr>st_mgr := m\<rparr>))
      | None \<Rightarrow>
          (case mgr_commit (st_mgr st) xid of
             Inl e \<Rightarrow> (Inl e, st)
           | Inr m \<Rightarrow> (Inr (), st\<lparr>st_mgr := m\<rparr>)))"

definition store_get :: "('k, 'v) vstore \<Rightarrow> 'k \<Rightarrow> snapshot \<Rightarrow> 'v option" where
  "store_get st key s =
     (case fmlookup (st_chains st) key of
        None \<Rightarrow> None
      | Some chain \<Rightarrow> map_option v_value (newest (\<lambda>v. is_visible v s (st_mgr st)) chain))"

definition store_scan_visible :: "('k, 'v) vstore \<Rightarrow> snapshot \<Rightarrow> 'k list \<Rightarrow> ('k \<times> 'v) list" where
  "store_scan_visible st s order =
     List.map_filter (\<lambda>key. map_option (Pair key) (store_get st key s)) order"

definition version_count :: "('k, 'v) vstore \<Rightarrow> 'k \<Rightarrow> nat" where
  "version_count st key = (case fmlookup (st_chains st) key of None \<Rightarrow> 0 | Some chain \<Rightarrow> length chain)"

definition kept_versions :: "registry \<Rightarrow> xid \<Rightarrow> 'v version list \<Rightarrow> 'v version list" where
  "kept_versions m horizon chain = filter (\<lambda>v. \<not> is_reclaimable v horizon m) chain"

definition store_vacuum :: "('k, 'v) vstore \<Rightarrow> xid \<Rightarrow> vacuum_report \<times> ('k, 'v) vstore" where
  "store_vacuum st horizon =
     (let m = st_mgr st;
          cs = st_chains st;
          kept = fmmap (kept_versions m horizon) cs;
          emptied = ffilter (\<lambda>k. fmlookup kept k = Some []) (fmdom kept);
          reclaimed = (\<Sum>k \<in> fset (fmdom cs).
             (case fmlookup cs k of
                None \<Rightarrow> 0
              | Some chain \<Rightarrow> length (filter (\<lambda>v. is_reclaimable v horizon m) chain)))
      in (\<lparr>reclaimed_versions = reclaimed, emptied_keys = fcard emptied\<rparr>,
          st\<lparr>st_chains := fmdrop_fset emptied kept\<rparr>))"

definition vacuum_to_horizon :: "('k, 'v) vstore \<Rightarrow> vacuum_report \<times> ('k, 'v) vstore" where
  "vacuum_to_horizon st = store_vacuum st (gc_horizon (st_mgr st))"

section \<open>Chains under an abstract visibility verdict\<close>

definition version_visible :: "(xid \<Rightarrow> bool) \<Rightarrow> 'v version \<Rightarrow> bool" where
  "version_visible see v \<longleftrightarrow> see (v_xmin v) \<and> \<not> see (v_xmax v)"

definition chain_get :: "(xid \<Rightarrow> bool) \<Rightarrow> 'v version list \<Rightarrow> 'v option" where
  "chain_get see chain = map_option v_value (newest (version_visible see) chain)"

lemma is_visible_eq: "is_visible v s m = version_visible (\<lambda>x. sees_effect s x m) v"
  by (simp add: is_visible_def version_visible_def)

lemma store_get_chain:
  "store_get st key s =
     chain_get (\<lambda>x. sees_effect s x (st_mgr st)) (entry_or_default (st_chains st) key)"
  by (simp add: store_get_def chain_get_def entry_or_default_def is_visible_eq split: option.split)

lemma version_new_simps [chain_simps]:
  "v_xmin (version_new x a) = x" "v_xmax (version_new x a) = INVALID_XID"
  "v_value (version_new x a) = a" "is_live (version_new x a)"
  by (simp_all add: version_new_def is_live_def)

lemma mark_deleted_simps [chain_simps]:
  "v_xmin (mark_deleted x v) = v_xmin v" "v_xmax (mark_deleted x v) = x"
  "v_value (mark_deleted x v) = v_value v"
  by (simp_all add: mark_deleted_def)

lemma retire_live_get:
  assumes "\<not> see x" and "\<not> see INVALID_XID"
  shows "chain_get see (retire_live x c) = chain_get see c"
proof -
  have "list_all2 (\<lambda>v w. version_visible see v = version_visible see w \<and> v_value v = v_value w)
          c (retire_live x c)"
    unfolding retire_live_def
    by (rule modify_last_all2) (auto simp: version_visible_def is_live_def chain_simps assms)
  then show ?thesis
    by (simp add: chain_get_def newest_all2_cong)
qed

lemma chain_put_get_unseen:
  assumes "\<not> see x" and "\<not> see INVALID_XID"
  shows "chain_get see (chain_put x a c) = chain_get see c"
  using retire_live_get [OF assms, of c] assms
  by (simp add: chain_put_def chain_get_def version_visible_def chain_simps)

lemma chain_put_get_seen:
  assumes "see x" and "\<not> see INVALID_XID"
  shows "chain_get see (chain_put x a c) = Some a"
  using assms by (simp add: chain_put_def chain_get_def version_visible_def chain_simps)

lemma chain_get_filter:
  assumes "\<And>v. v \<in> set c \<Longrightarrow> version_visible see v \<Longrightarrow> keep v"
  shows "chain_get see (filter keep c) = chain_get see c"
  using assms by (simp add: chain_get_def newest_filter)

context snapshot_visibility
begin

lemma get_stable: "ok m s \<Longrightarrow> fwd m m' \<Longrightarrow> chain_get (sees m' s) c = chain_get (sees m s) c"
proof -
  assume "ok m s" and "fwd m m'"
  then have "sees m' s = sees m s"
    by (intro ext) (rule sees_stable)
  then show ?thesis by simp
qed

lemma get_put_foreign:
  "ok m s \<Longrightarrow> run m x \<Longrightarrow> x \<noteq> own s \<Longrightarrow> chain_get (sees m s) (chain_put x a c) = chain_get (sees m s) c"
  by (intro chain_put_get_unseen running_unseen invalid_unseen)

lemma get_retire_foreign:
  "ok m s \<Longrightarrow> run m x \<Longrightarrow> x \<noteq> own s \<Longrightarrow> chain_get (sees m s) (retire_live x c) = chain_get (sees m s) c"
  by (intro retire_live_get running_unseen invalid_unseen)

lemma get_put_own:
  "own s \<noteq> INVALID_XID \<Longrightarrow> chain_get (sees m s) (chain_put (own s) a c) = Some a"
  by (intro chain_put_get_seen own_seen invalid_unseen)

end

section \<open>The store operations on one key\<close>

lemma entry_or_default_upd [simp]:
  "entry_or_default (fmupd k c cs) k' = (if k = k' then c else entry_or_default cs k')"
  by (simp add: entry_or_default_def)

lemma store_put_simps [simp]:
  "st_mgr (store_put st x k a) = st_mgr st"
  "entry_or_default (st_chains (store_put st x k a)) k' =
     (if k = k' then chain_put x a (entry_or_default (st_chains st) k)
      else entry_or_default (st_chains st) k')"
  by (simp_all add: store_put_def)

lemma newest_live_None_retire: "newest is_live c = None \<Longrightarrow> retire_live x c = c"
  by (simp add: retire_live_def newest_None_iff modify_last_id)

lemma retire_live_Nil [simp]: "retire_live x [] = []"
  by (simp add: retire_live_def)

lemma store_delete_simps [simp]:
  "st_mgr (snd (store_delete st x k)) = st_mgr st"
  "entry_or_default (st_chains (snd (store_delete st x k))) k' =
     (if k = k' then retire_live x (entry_or_default (st_chains st) k)
      else entry_or_default (st_chains st) k')"
  by (auto simp: store_delete_def entry_or_default_def newest_live_None_retire split: option.splits)

lemma store_delete_fst:
  "fst (store_delete st x k) \<longleftrightarrow> (\<exists>v \<in> set (entry_or_default (st_chains st) k). is_live v)"
  by (auto simp: store_delete_def entry_or_default_def newest_None_iff split: option.splits
      dest: newest_Some_in)

lemma conflicting_writer_Nil [simp]: "conflicting_writer m [] x s = None"
  by (simp add: conflicting_writer_def)

text \<open>A checked write either conflicts and leaves the store as it was, or is the unchecked write.\<close>

lemma store_put_checked_cases:
  "store_put_checked st x s k a =
     (case conflicting_writer (st_mgr st) (entry_or_default (st_chains st) k) x s of
        Some w \<Rightarrow> (Inl (WriteConflict w), st)
      | None \<Rightarrow> (Inr (), store_put st x k a))"
proof -
  have same: "fmupd k (entry_or_default (st_chains st) k) (st_chains st) = st_chains st"
    if "conflicting_writer (st_mgr st) (entry_or_default (st_chains st) k) x s = Some w" for w
    using that by (auto simp: entry_or_default_def fmupd_same split: option.splits)
  have twice: "fmupd k c' (fmupd k c cs) = fmupd k c' cs" for c c' :: "'b version list" and cs
    by (rule fmap_ext) simp
  show ?thesis
    by (auto simp: store_put_checked_def store_put_def Let_def same twice split: option.split)
qed

lemma store_delete_checked_cases:
  "store_delete_checked st x s k =
     (case conflicting_writer (st_mgr st) (entry_or_default (st_chains st) k) x s of
        Some w \<Rightarrow> (Inl (WriteConflict w), st)
      | None \<Rightarrow> (Inr (fst (store_delete st x k)), snd (store_delete st x k)))"
  by (auto simp: store_delete_checked_def store_delete_def entry_or_default_def split: option.split)

lemma store_vacuum_mgr [simp]: "st_mgr (snd (store_vacuum st h)) = st_mgr st"
  by (simp add: store_vacuum_def Let_def)

lemma store_vacuum_chain [simp]:
  "entry_or_default (st_chains (snd (store_vacuum st h))) k =
     kept_versions (st_mgr st) h (entry_or_default (st_chains st) k)"
  by (auto simp: store_vacuum_def Let_def entry_or_default_def kept_versions_def
      fmlookup_dom_iff split: option.splits)

section \<open>Vacuum keeps what a respected snapshot sees\<close>

text \<open>
  A snapshot is respected by a horizon when its \<open>xmin\<close> is at or above it and its own transaction has
  not aborted: a reclaimable version is then invisible to it.
\<close>

lemma reclaimable_cases:
  assumes "is_reclaimable v h m"
  obtains "v_xmax v \<noteq> INVALID_XID" "v_xmax v < h" "mgr_status m (v_xmax v) = Committed"
    | "v_xmin v < h" "mgr_status m (v_xmin v) = Aborted"
  using assms by (auto simp: is_reclaimable_def split: if_splits)

lemma reclaimable_invisible:
  assumes "snap_ok m s" and "h \<le> s_xmin s" and "mgr_status m (s_my_xid s) \<noteq> Aborted \<or> s_my_xid s = INVALID_XID"
    and "is_reclaimable v h m"
  shows "\<not> is_visible v s m"
proof (cases "v_xmax v \<noteq> INVALID_XID \<and> v_xmax v < h \<and> mgr_status m (v_xmax v) = Committed")
  case True
  then have "v_xmax v < s_xmin s"
    using assms(2) by (meson order_less_le_trans)
  moreover from this assms(1) have "v_xmax v < s_xmax s" and "v_xmax v |\<notin>| s_active s"
    unfolding snap_ok_def by (meson order_less_le_trans, meson leD)
  ultimately have "sees_effect s (v_xmax v) m"
    using True by (auto simp: sees_effect_def dest: leD)
  then show ?thesis by (simp add: is_visible_def)
next
  case False
  with assms(4) have "mgr_status m (v_xmin v) = Aborted"
    by (auto simp: is_reclaimable_def split: if_splits)
  with assms(3) have "\<not> sees_effect s (v_xmin v) m"
    by (auto simp: sees_effect_def)
  then show ?thesis by (simp add: is_visible_def)
qed

lemma store_vacuum_get:
  assumes "snap_ok (st_mgr st) s" and "h \<le> s_xmin s"
    and "mgr_status (st_mgr st) (s_my_xid s) \<noteq> Aborted \<or> s_my_xid s = INVALID_XID"
  shows "store_get (snd (store_vacuum st h)) k s = store_get st k s"
  unfolding store_get_chain store_vacuum_mgr store_vacuum_chain kept_versions_def
  using reclaimable_invisible [OF assms]
  by (intro chain_get_filter) (auto simp: is_visible_eq)

end
