(* ===== verification/Mvcc_World.thy ===== *)
theory Mvcc_World
  imports Mvcc_Store
begin

text \<open>
  The MVCC engine as a state machine: every interleaving of the operations of
  \<^verbatim>\<open>src/src/mvcc/\<close> that threads sharing one manager and one store can produce, each operation
  being atomic because it runs under the store's or the manager's lock.

  \<open>w_guards\<close> are the outstanding \<open>SnapshotGuard\<close>s, \<open>w_snaps\<close> the untracked snapshots handed out, and
  \<open>w_horizon\<close> a horizon that \<open>vacuum_to_horizon\<close> has read from the manager and not yet used: the two
  halves of that function take different locks, so other threads may run in between.

  Results: an outstanding guard keeps reading the same values whatever the other threads and the
  collector do; with conflict-checked writes two running transactions never have marks on the same
  key; and a checked write only ever builds on a state its snapshot sees, as long as no aborted
  transaction touched the key.
\<close>

section \<open>The machine\<close>

record ('k, 'v) world =
  w_store :: "('k, 'v) vstore"
  w_guards :: "snapshot list"
  w_snaps :: "snapshot list"
  w_horizon :: "xid option"

abbreviation w_mgr :: "('k, 'v) world \<Rightarrow> registry" where
  "w_mgr w \<equiv> st_mgr (w_store w)"

abbreviation w_chain :: "('k, 'v) world \<Rightarrow> 'k \<Rightarrow> 'v version list" where
  "w_chain w k \<equiv> entry_or_default (st_chains (w_store w)) k"

abbreviation set_mgr :: "registry \<Rightarrow> ('k, 'v) world \<Rightarrow> ('k, 'v) world" where
  "set_mgr m w \<equiv> w\<lparr>w_store := (w_store w)\<lparr>st_mgr := m\<rparr>\<rparr>"

definition init_world :: "('k, 'v) world" where
  "init_world = \<lparr>w_store = store_new mgr_new, w_guards = [], w_snaps = [], w_horizon = None\<rparr>"

datatype mvcc_event =
    EvBegin
  | EvCommit xid
  | EvAbort xid
  | EvWrite xid
  | EvWriteChecked xid
  | EvSnapshot
  | EvOpen
  | EvDrop snapshot
  | EvHorizon
  | EvVacuum

inductive mvcc_step :: "('k, 'v) world \<Rightarrow> mvcc_event \<Rightarrow> ('k, 'v) world \<Rightarrow> bool" where
  step_begin: "reg_next (w_mgr w) \<noteq> u64_max \<Longrightarrow>
     mvcc_step w EvBegin (set_mgr (snd (mgr_begin (w_mgr w))) w)"
| step_commit: "mgr_commit (w_mgr w) x = Inr m \<Longrightarrow> mvcc_step w (EvCommit x) (set_mgr m w)"
| step_abort: "mgr_abort (w_mgr w) x = Inr m \<Longrightarrow> mvcc_step w (EvAbort x) (set_mgr m w)"
| step_put: "running (w_mgr w) x \<Longrightarrow>
     mvcc_step w (EvWrite x) (w\<lparr>w_store := store_put (w_store w) x k a\<rparr>)"
| step_delete: "running (w_mgr w) x \<Longrightarrow>
     mvcc_step w (EvWrite x) (w\<lparr>w_store := snd (store_delete (w_store w) x k)\<rparr>)"
| step_put_checked: "running (w_mgr w) x \<Longrightarrow> s \<in> set (w_snaps w) \<Longrightarrow> s_my_xid s = x \<Longrightarrow>
     mvcc_step w (EvWriteChecked x) (w\<lparr>w_store := snd (store_put_checked (w_store w) x s k a)\<rparr>)"
| step_delete_checked: "running (w_mgr w) x \<Longrightarrow> s \<in> set (w_snaps w) \<Longrightarrow> s_my_xid s = x \<Longrightarrow>
     mvcc_step w (EvWriteChecked x) (w\<lparr>w_store := snd (store_delete_checked (w_store w) x s k)\<rparr>)"
| step_commit_ser: "commit_serializable (w_store w) x s ks = (Inr (), st) \<Longrightarrow>
     mvcc_step w (EvCommit x) (w\<lparr>w_store := st\<rparr>)"
| step_fail_ser: "commit_serializable (w_store w) x s ks = (Inl e, st) \<Longrightarrow>
     mvcc_step w (EvAbort x) (w\<lparr>w_store := st\<rparr>)"
| step_snapshot: "x = INVALID_XID \<or> running (w_mgr w) x \<Longrightarrow>
     mvcc_step w EvSnapshot (w\<lparr>w_snaps := mgr_snapshot (w_mgr w) x # w_snaps w\<rparr>)"
| step_open: "x = INVALID_XID \<or> running (w_mgr w) x \<Longrightarrow> int (length (w_guards w)) + 1 < 2 ^ 64 \<Longrightarrow>
     begin_snapshot (w_mgr w) x = (s, m) \<Longrightarrow>
     mvcc_step w EvOpen (set_mgr m (w\<lparr>w_guards := s # w_guards w\<rparr>))"
| step_drop: "s \<in> set (w_guards w) \<Longrightarrow>
     mvcc_step w (EvDrop s)
       (set_mgr (release_snapshot (w_mgr w) (s_xmin s)) (w\<lparr>w_guards := remove1 s (w_guards w)\<rparr>))"
| step_horizon: "mvcc_step w EvHorizon (w\<lparr>w_horizon := Some (gc_horizon (w_mgr w))\<rparr>)"
| step_vacuum: "w_horizon w = Some h \<Longrightarrow>
     mvcc_step w EvVacuum (w\<lparr>w_store := snd (store_vacuum (w_store w) h), w_horizon := None\<rparr>)"

inductive mvcc_run :: "('k, 'v) world \<Rightarrow> mvcc_event list \<Rightarrow> ('k, 'v) world \<Rightarrow> bool" where
  run_nil: "mvcc_run w [] w"
| run_cons: "mvcc_step w ev w' \<Longrightarrow> mvcc_run w' evs w'' \<Longrightarrow> mvcc_run w (ev # evs) w''"

definition reachable :: "('k, 'v) world \<Rightarrow> bool" where
  "reachable w \<longleftrightarrow> (\<exists>evs. mvcc_run init_world evs w)"

inductive_cases mvcc_run_NilE: "mvcc_run w [] w'"
inductive_cases mvcc_run_ConsE: "mvcc_run w (ev # evs) w''"

lemma mvcc_run_append: "mvcc_run w evs w' \<Longrightarrow> mvcc_run w' evs' w'' \<Longrightarrow> mvcc_run w (evs @ evs') w''"
  by (induction rule: mvcc_run.induct) (auto intro: mvcc_run.intros)

lemma mvcc_run_snoc: "mvcc_run w evs w' \<Longrightarrow> mvcc_step w' ev w'' \<Longrightarrow> mvcc_run w (evs @ [ev]) w''"
  by (blast intro: mvcc_run_append mvcc_run.intros)

section \<open>The world invariant\<close>

text \<open>
  The reference counts of \<open>active_snaps\<close> are the outstanding guards; every snapshot in use is
  sound for the manager; a horizon that was read stays below everything a reader may still need.
\<close>

definition guards_at :: "snapshot list \<Rightarrow> xid \<Rightarrow> nat" where
  "guards_at gs x = length (filter (\<lambda>s. s_xmin s = x) gs)"

definition counts_ok :: "(xid, u64) fmap \<Rightarrow> snapshot list \<Rightarrow> bool" where
  "counts_ok act gs \<longleftrightarrow>
     (\<forall>x. fmlookup act x = (if guards_at gs x = 0 then None else Some (of_nat (guards_at gs x))))"

definition horizon_ok :: "registry \<Rightarrow> snapshot list \<Rightarrow> xid \<Rightarrow> bool" where
  "horizon_ok m gs h \<longleftrightarrow> h \<le> reg_next m \<and> (\<forall>x. running m x \<longrightarrow> h \<le> x) \<and> (\<forall>g \<in> set gs. h \<le> s_xmin g)"

definition world_inv :: "('k, 'v) world \<Rightarrow> bool" where
  "world_inv w \<longleftrightarrow> reg_inv (w_mgr w) \<and>
     (\<forall>s \<in> set (w_guards w) \<union> set (w_snaps w). snap_ok (w_mgr w) s) \<and>
     length (w_guards w) < 2 ^ 64 \<and>
     counts_ok (reg_active_snaps (w_mgr w)) (w_guards w) \<and>
     (\<forall>h. w_horizon w = Some h \<longrightarrow> horizon_ok (w_mgr w) (w_guards w) h)"

lemma guards_at_le: "guards_at gs x \<le> length gs"
  by (simp add: guards_at_def)

lemma guards_at_pos: "g \<in> set gs \<Longrightarrow> 0 < guards_at gs (s_xmin g)"
  by (auto simp: guards_at_def filter_empty_conv)

lemma guards_at_Cons: "guards_at (s # gs) x = (if s_xmin s = x then 1 else 0) + guards_at gs x"
  by (simp add: guards_at_def)

lemma guards_at_remove1:
  "s \<in> set gs \<Longrightarrow> guards_at (remove1 s gs) x = guards_at gs x - (if s_xmin s = x then 1 else 0)"
proof (induction gs)
  case (Cons g gs)
  then show ?case
    using guards_at_pos [of s gs] by (auto simp: guards_at_Cons)
qed simp

lemma counts_ok_open:
  assumes "counts_ok (reg_active_snaps m) gs" and "begin_snapshot m x = (s, m')"
  shows "counts_ok (reg_active_snaps m') (s # gs)"
proof -
  let ?x = "s_xmin (snapshot_locked m x)"
  have "fmlookup (reg_active_snaps m) ?x =
      (if guards_at gs ?x = 0 then None else Some (of_nat (guards_at gs ?x)))"
    using assms(1) by (simp add: counts_ok_def)
  then have "(case fmlookup (reg_active_snaps m) ?x of Some c \<Rightarrow> c | None \<Rightarrow> 0) = of_nat (guards_at gs ?x)"
    by simp
  with assms show ?thesis
    by (auto simp: counts_ok_def begin_snapshot_def Let_def guards_at_Cons)
qed

lemma counts_ok_drop:
  assumes "counts_ok (reg_active_snaps m) gs" and "s \<in> set gs" and "length gs < 2 ^ 64"
  shows "counts_ok (reg_active_snaps (release_snapshot m (s_xmin s))) (remove1 s gs)"
proof -
  let ?n = "guards_at gs (s_xmin s)"
  have pos: "0 < ?n"
    using assms(2) by (rule guards_at_pos)
  then have count: "fmlookup (reg_active_snaps m) (s_xmin s) = Some (of_nat ?n)"
    using assms(1) by (simp add: counts_ok_def)
  have less: "(of_nat ?n :: u64) - 1 = of_nat (?n - 1)"
    using pos by (cases ?n) auto
  have zero: "(of_nat (?n - 1) :: u64) = 0 \<longleftrightarrow> ?n - 1 = 0"
    using guards_at_le [of gs "s_xmin s"] assms(3) by (intro of_nat_word_0_iff) simp
  have look: "fmlookup (reg_active_snaps (release_snapshot m (s_xmin s))) x =
      (if x = s_xmin s then if ?n - 1 = 0 then None else Some (of_nat (?n - 1))
       else fmlookup (reg_active_snaps m) x)" for x
    unfolding release_snapshot_def count option.case less zero by simp
  then show ?thesis
    using assms(1) by (simp add: counts_ok_def guards_at_remove1 [OF assms(2)])
qed

section \<open>The horizon\<close>

lemma gc_horizon_le_source:
  assumes "x |\<in>| fmdom (reg_active_snaps m) \<or> running m x"
  shows "gc_horizon m \<le> x"
  using assms
  by (auto simp: gc_horizon_def Let_def fset_min_None_iff min_le_iff_disj
      dest!: fset_min_SomeD split: option.split)

lemma gc_horizon_cases:
  "gc_horizon m = reg_next m \<or> gc_horizon m |\<in>| fmdom (reg_active_snaps m) \<or> running m (gc_horizon m)"
  by (auto simp: gc_horizon_def Let_def min_def dest!: fset_min_SomeD split: option.split)

lemma horizon_ok_gc:
  assumes "world_inv w"
  shows "horizon_ok (w_mgr w) (w_guards w) (gc_horizon (w_mgr w))"
proof -
  let ?m = "w_mgr w"
  have counts: "counts_ok (reg_active_snaps ?m) (w_guards w)" and reg: "reg_inv ?m"
    using assms by (auto simp: world_inv_def)
  have dom: "x |\<in>| fmdom (reg_active_snaps ?m) \<longleftrightarrow> (\<exists>g \<in> set (w_guards w). s_xmin g = x)" for x
    using counts by (auto simp: counts_ok_def fmlookup_dom_iff guards_at_def filter_empty_conv)
  have "s_xmin g \<le> reg_next ?m" if "g \<in> set (w_guards w)" for g
    using assms that by (auto simp: world_inv_def snap_ok_def intro: order_trans)
  then have "gc_horizon ?m \<le> reg_next ?m"
    using gc_horizon_cases [of ?m] running_bounds [OF reg] dom by (metis order_less_imp_le order_refl)
  then show ?thesis
    using gc_horizon_le_source dom by (auto simp: horizon_ok_def)
qed

text \<open>A horizon stays good while other threads run: later readers start at or above it.\<close>

lemma horizon_ok_later:
  assumes "horizon_ok m gs h" and "later m m'" and "set gs' \<subseteq> set gs"
  shows "horizon_ok m' gs' h"
proof -
  have "h \<le> x" if "running m' x" for x
  proof (cases "x < reg_next m")
    case True
    with that assms(1,2) show ?thesis by (auto simp: horizon_ok_def dest: later_running)
  next
    case False
    with assms(1) show ?thesis by (auto simp: horizon_ok_def not_less)
  qed
  with assms show ?thesis
    by (auto simp: horizon_ok_def later_def intro: order_trans)
qed

lemma horizon_ok_snapshot:
  "horizon_ok m gs h \<Longrightarrow> h \<le> s_xmin (snapshot_locked m x)"
  using snapshot_xmin_cases [of m x] by (auto simp: horizon_ok_def)

section \<open>Every step keeps the invariant\<close>

lemma checked_mgr [simp]:
  "st_mgr (snd (store_put_checked st x s k a)) = st_mgr st"
  "st_mgr (snd (store_delete_checked st x s k)) = st_mgr st"
  by (simp_all add: store_put_checked_cases store_delete_checked_cases split: option.split)

lemma commit_serializable_Inr:
  assumes "commit_serializable st x s ks = (Inr (), st')"
  shows "first_read_conflict st x s ks = None"
    and "\<exists>m. mgr_commit (st_mgr st) x = Inr m \<and> st' = st\<lparr>st_mgr := m\<rparr>"
  using assms by (auto simp: commit_serializable_def split: option.splits sum.splits)

lemma commit_serializable_Inl:
  assumes "commit_serializable st x s ks = (Inl e, st')"
  shows "st' = st \<and> \<not> running (st_mgr st) x \<or>
    (\<exists>m. mgr_abort (st_mgr st) x = Inr m \<and> st' = st\<lparr>st_mgr := m\<rparr>)"
  using assms
  by (auto simp: commit_serializable_def mgr_commit_def mgr_abort_def mgr_finish_Inl_iff
      split: option.splits sum.splits)

lemma world_inv_forward:
  assumes "world_inv w" and "later (w_mgr w) m"
    and "reg_active_snaps m = reg_active_snaps (w_mgr w)"
  shows "world_inv (set_mgr m w)"
  using assms snap_ok_later [OF _ assms(2)] horizon_ok_later [OF _ assms(2) subset_refl]
  by (auto simp: world_inv_def later_def)

lemma world_inv_finish:
  assumes "world_inv w" and "mgr_finish (w_mgr w) x to = Inr m"
  shows "world_inv (set_mgr m w)"
  using assms by (intro world_inv_forward later_finish) (auto simp: world_inv_def mgr_finish_Inr_iff)

lemma world_inv_store:
  assumes "world_inv w" and "st_mgr st = w_mgr w"
  shows "world_inv (w\<lparr>w_store := st\<rparr>)"
  using assms by (simp add: world_inv_def)

lemma world_inv_init: "world_inv init_world"
  using reg_inv_new
  by (auto simp: world_inv_def init_world_def store_new_def counts_ok_def guards_at_def mgr_new_def)

lemma world_inv_open:
  assumes inv: "world_inv w" and len: "int (length (w_guards w)) + 1 < 2 ^ 64"
    and opn: "begin_snapshot (w_mgr w) x = (s, m)"
  shows "world_inv (set_mgr m (w\<lparr>w_guards := s # w_guards w\<rparr>))"
proof -
  have reg: "reg_inv (w_mgr w)"
    using inv by (simp add: world_inv_def)
  have s: "s = snapshot_locked (w_mgr w) x" and m: "m = snd (begin_snapshot (w_mgr w) x)"
    using opn by (auto simp: begin_snapshot_def Let_def)
  have l: "later (w_mgr w) m"
    unfolding m using reg by (rule later_begin_snapshot)
  have "horizon_ok m (s # w_guards w) h" if "w_horizon w = Some h" for h
  proof -
    have h: "horizon_ok (w_mgr w) (w_guards w) h"
      using inv that by (simp add: world_inv_def)
    then have "horizon_ok m (w_guards w) h"
      using l by (rule horizon_ok_later) simp
    with horizon_ok_snapshot [OF h] show ?thesis
      by (simp add: horizon_ok_def s)
  qed
  moreover have "snap_ok m s"
    unfolding s using snap_ok_snapshot [OF reg] l by (rule snap_ok_later)
  moreover have "counts_ok (reg_active_snaps m) (s # w_guards w)"
    using inv opn by (intro counts_ok_open) (auto simp: world_inv_def)
  ultimately show ?thesis
    using inv l len snap_ok_later [OF _ l] by (auto simp: world_inv_def later_def)
qed

lemma world_inv_drop:
  assumes inv: "world_inv w" and s: "s \<in> set (w_guards w)"
  shows "world_inv (set_mgr (release_snapshot (w_mgr w) (s_xmin s)) (w\<lparr>w_guards := remove1 s (w_guards w)\<rparr>))"
proof -
  have l: "later (w_mgr w) (release_snapshot (w_mgr w) (s_xmin s))"
    using inv by (intro later_release) (simp add: world_inv_def)
  have "counts_ok (reg_active_snaps (release_snapshot (w_mgr w) (s_xmin s))) (remove1 s (w_guards w))"
    using inv s by (intro counts_ok_drop) (auto simp: world_inv_def)
  then show ?thesis
    using inv s snap_ok_later [OF _ l] horizon_ok_later [OF _ l set_remove1_subset]
      set_remove1_subset [of s "w_guards w"]
    by (auto simp: world_inv_def later_def [THEN iffD1, OF l] length_remove1)
qed

lemma world_inv_step: "mvcc_step w ev w' \<Longrightarrow> world_inv w \<Longrightarrow> world_inv w'"
proof (induction rule: mvcc_step.induct)
  case (step_begin w)
  then show ?case
    by (intro world_inv_forward later_begin) (auto simp: world_inv_def mgr_begin_def Let_def)
next
  case (step_commit w x m)
  then show ?case unfolding mgr_commit_def by (intro world_inv_finish)
next
  case (step_abort w x m)
  then show ?case unfolding mgr_abort_def by (intro world_inv_finish)
next
  case (step_commit_ser w x s ks st)
  then show ?case
    using commit_serializable_Inr(2) world_inv_finish unfolding mgr_commit_def by fastforce
next
  case (step_fail_ser w x s ks e st)
  then show ?case
    using commit_serializable_Inl world_inv_finish unfolding mgr_abort_def by fastforce
next
  case (step_snapshot x w)
  then show ?case
    by (auto simp: world_inv_def mgr_snapshot_def snap_ok_snapshot)
next
  case (step_open x w s m)
  then show ?case by (intro world_inv_open)
next
  case (step_drop s w)
  then show ?case by (intro world_inv_drop)
next
  case (step_horizon w)
  then show ?case using horizon_ok_gc [OF step_horizon] by (simp add: world_inv_def)
next
  case (step_vacuum w h)
  then show ?case by (simp add: world_inv_def)
qed (auto intro: world_inv_store)

lemma world_inv_run: "mvcc_run w evs w' \<Longrightarrow> world_inv w \<Longrightarrow> world_inv w'"
  by (induction rule: mvcc_run.induct) (auto intro: world_inv_step)

lemma reachable_inv: "reachable w \<Longrightarrow> world_inv w"
  using world_inv_run world_inv_init by (auto simp: reachable_def)

section \<open>What a snapshot reads does not change\<close>

text \<open>The events that may change a snapshot's view: writes and the abort of its own transaction, and,
  for a tracked snapshot, dropping its guard.\<close>

definition own_event :: "snapshot \<Rightarrow> mvcc_event \<Rightarrow> bool" where
  "own_event s ev \<longleftrightarrow>
     (case ev of
        EvWrite x \<Rightarrow> x = s_my_xid s
      | EvWriteChecked x \<Rightarrow> x = s_my_xid s
      | EvAbort x \<Rightarrow> x = s_my_xid s
      | EvDrop s' \<Rightarrow> s' = s
      | _ \<Rightarrow> False)"

definition not_aborted :: "registry \<Rightarrow> snapshot \<Rightarrow> bool" where
  "not_aborted m s \<longleftrightarrow> mgr_status m (s_my_xid s) \<noteq> Aborted \<or> s_my_xid s = INVALID_XID"

lemma store_get_mgr:
  assumes "snap_ok (st_mgr st) s" and "later (st_mgr st) m"
  shows "store_get (st\<lparr>st_mgr := m\<rparr>) k s = store_get st k s"
  by (simp add: store_get_chain txn_vis.get_stable [OF assms])

lemma store_get_put:
  assumes "snap_ok (st_mgr st) s" and "running (st_mgr st) x" and "x \<noteq> s_my_xid s"
  shows "store_get (store_put st x k' a) k s = store_get st k s"
  by (simp add: store_get_chain txn_vis.get_put_foreign [OF assms])

lemma store_get_delete:
  assumes "snap_ok (st_mgr st) s" and "running (st_mgr st) x" and "x \<noteq> s_my_xid s"
  shows "store_get (snd (store_delete st x k')) k s = store_get st k s"
  by (simp add: store_get_chain txn_vis.get_retire_foreign [OF assms])

lemma store_get_finish:
  assumes "snap_ok (st_mgr st) s" and "mgr_finish (st_mgr st) x to = Inr m"
  shows "store_get (st\<lparr>st_mgr := m\<rparr>) k s = store_get st k s"
  using assms by (intro store_get_mgr later_finish) (auto simp: snap_ok_def)

lemma store_get_step:
  assumes "mvcc_step w ev w'" and "snap_ok (w_mgr w) s" and "\<not> own_event s ev" and "ev \<noteq> EvVacuum"
    and "world_inv w"
  shows "store_get (w_store w') k s = store_get (w_store w) k s"
  using assms
proof (induction rule: mvcc_step.induct)
  case (step_begin w)
  then show ?case
    by (simp add: store_get_mgr later_begin world_inv_def)
next
  case (step_commit w x m)
  then show ?case by (simp add: mgr_commit_def store_get_finish)
next
  case (step_abort w x m)
  then show ?case by (simp add: mgr_abort_def store_get_finish)
next
  case (step_put_checked w x s k a)
  then show ?case
    by (simp add: store_put_checked_cases store_get_put own_event_def split: option.split)
next
  case (step_delete_checked w x s k)
  then show ?case
    by (simp add: store_delete_checked_cases store_get_delete own_event_def split: option.split)
next
  case (step_commit_ser w x s ks st)
  then show ?case
    using commit_serializable_Inr(2) store_get_finish unfolding mgr_commit_def by fastforce
next
  case (step_fail_ser w x s ks e st)
  then show ?case
    using commit_serializable_Inl store_get_finish unfolding mgr_abort_def by fastforce
next
  case (step_open x w s m)
  then have "later (w_mgr w) m"
    using later_begin_snapshot [of "w_mgr w" x] by (simp add: world_inv_def)
  with step_open show ?case by (simp add: store_get_mgr)
next
  case (step_drop s w)
  then show ?case by (simp add: store_get_mgr later_release world_inv_def)
qed (auto simp: own_event_def store_get_put store_get_delete)

lemma later_step:
  assumes "mvcc_step w ev w'" and "world_inv w"
  shows "later (w_mgr w) (w_mgr w')"
proof -
  have reg: "reg_inv (w_mgr w)"
    using assms(2) by (simp add: world_inv_def)
  show ?thesis
    using assms(1) reg
  proof (induction rule: mvcc_step.induct)
    case (step_commit_ser w x s ks st)
    then show ?case
      using commit_serializable_Inr(2) unfolding mgr_commit_def by (fastforce intro: later_finish)
  next
    case (step_fail_ser w x s ks e st)
    then show ?case
      using commit_serializable_Inl unfolding mgr_abort_def
      by (fastforce intro: later_finish later_refl)
  next
    case (step_open x w s m)
    then show ?case
      using later_begin_snapshot [of "w_mgr w" x] by simp
  qed (auto simp: mgr_commit_def mgr_abort_def intro: step_later later_refl)
qed

lemma not_aborted_finish:
  assumes "mgr_finish m x to = Inr m'" and "not_aborted m s" and "to \<noteq> Aborted \<or> x \<noteq> s_my_xid s"
  shows "not_aborted m' s"
  using assms by (simp add: mgr_finish_Inr_iff not_aborted_def mgr_status_upd) metis

lemma not_aborted_status_eq:
  "reg_status m' = reg_status m \<Longrightarrow> not_aborted m' s = not_aborted m s"
  by (simp add: not_aborted_def mgr_status_def)

lemma not_aborted_step:
  assumes "mvcc_step w ev w'" and "not_aborted (w_mgr w) s" and "\<not> own_event s ev"
  shows "not_aborted (w_mgr w') s"
  using assms
proof (induction rule: mvcc_step.induct)
  case (step_begin w)
  then show ?case by (simp add: not_aborted_def mgr_status_begin)
next
  case (step_commit w x m)
  then show ?case by (simp add: mgr_commit_def not_aborted_finish)
next
  case (step_abort w x m)
  then show ?case by (auto simp: mgr_abort_def own_event_def intro: not_aborted_finish)
next
  case (step_commit_ser w x t ks st)
  obtain m where "mgr_commit (w_mgr w) x = Inr m" and "st = (w_store w)\<lparr>st_mgr := m\<rparr>"
    using commit_serializable_Inr(2) [OF step_commit_ser.hyps] by blast
  with step_commit_ser show ?case by (simp add: mgr_commit_def not_aborted_finish)
next
  case (step_fail_ser w x t ks e st)
  then show ?case
    using commit_serializable_Inl [OF step_fail_ser.hyps]
    by (auto simp: mgr_abort_def own_event_def intro: not_aborted_finish)
next
  case (step_open x w t m)
  then have "reg_status m = reg_status (w_mgr w)"
    by (auto simp: begin_snapshot_def Let_def)
  with step_open show ?case using not_aborted_status_eq [of m "w_mgr w" s] by simp
next
  case (step_drop t w)
  have "reg_status (release_snapshot (w_mgr w) (s_xmin t)) = reg_status (w_mgr w)"
    by (simp add: release_snapshot_def split: option.split)
  from not_aborted_status_eq [OF this] step_drop show ?case by simp
qed simp_all

lemma guard_kept: "mvcc_step w ev w' \<Longrightarrow> g \<in> set (w_guards w) \<Longrightarrow> \<not> own_event g ev \<Longrightarrow> g \<in> set (w_guards w')"
  by (induction rule: mvcc_step.induct) (auto simp: own_event_def)

lemma guard_view_step:
  assumes step: "mvcc_step w ev w'" and inv: "world_inv w" and g: "g \<in> set (w_guards w)"
    and na: "not_aborted (w_mgr w) g" and own: "\<not> own_event g ev"
  shows "store_get (w_store w') k g = store_get (w_store w) k g"
proof (cases "ev = EvVacuum")
  case True
  with step obtain h where h: "w_horizon w = Some h"
    and w': "w' = w\<lparr>w_store := snd (store_vacuum (w_store w) h), w_horizon := None\<rparr>"
    by (auto elim: mvcc_step.cases)
  have "snap_ok (w_mgr w) g" and "h \<le> s_xmin g"
    using inv g h by (auto simp: world_inv_def horizon_ok_def)
  with na show ?thesis
    by (simp add: w' store_vacuum_get not_aborted_def)
next
  case False
  with assms show ?thesis
    by (intro store_get_step) (auto simp: world_inv_def)
qed

lemma guard_view_run:
  assumes "mvcc_run w evs w'" and "world_inv w" and "g \<in> set (w_guards w)"
    and "not_aborted (w_mgr w) g" and "\<forall>ev \<in> set evs. \<not> own_event g ev"
  shows "store_get (w_store w') k g = store_get (w_store w) k g"
  using assms
proof (induction rule: mvcc_run.induct)
  case (run_cons w ev w' evs w'')
  have "store_get (w_store w') k g = store_get (w_store w) k g"
    using run_cons by (intro guard_view_step) auto
  moreover have "store_get (w_store w'') k g = store_get (w_store w') k g"
    using run_cons world_inv_step [OF run_cons.hyps(1)] guard_kept [OF run_cons.hyps(1)]
      not_aborted_step [OF run_cons.hyps(1)]
    by (intro run_cons.IH) auto
  ultimately show ?case by simp
qed simp

lemma snap_view_run:
  assumes "mvcc_run w evs w'" and "world_inv w" and "snap_ok (w_mgr w) s"
    and "\<forall>ev \<in> set evs. \<not> own_event s ev \<and> ev \<noteq> EvVacuum"
  shows "store_get (w_store w') k s = store_get (w_store w) k s"
  using assms
proof (induction rule: mvcc_run.induct)
  case (run_cons w ev w' evs w'')
  have "store_get (w_store w') k s = store_get (w_store w) k s"
    using run_cons by (intro store_get_step) auto
  moreover have "store_get (w_store w'') k s = store_get (w_store w') k s"
    using run_cons world_inv_step [OF run_cons.hyps(1)] snap_ok_later [OF _ later_step [OF run_cons.hyps(1)]]
    by (intro run_cons.IH) auto
  ultimately show ?case by simp
qed simp

section \<open>Executing the machine\<close>

text \<open>
  The same machine as a function on operations, for concrete executions: a checked write names its
  snapshot and a drop its guard by position. Every successful operation is a step.
\<close>

datatype ('k, 'v) mvcc_op =
    OpBegin
  | OpCommit xid
  | OpAbort xid
  | OpPut xid 'k 'v
  | OpDelete xid 'k
  | OpPutChecked nat 'k 'v
  | OpDeleteChecked nat 'k
  | OpCommitSer nat "'k list"
  | OpSnapshot xid
  | OpOpen xid
  | OpDrop nat
  | OpHorizon
  | OpVacuum

definition guarded :: "bool \<Rightarrow> mvcc_event \<Rightarrow> ('k, 'v) world \<Rightarrow> (mvcc_event \<times> ('k, 'v) world) option" where
  "guarded b ev w = (if b then Some (ev, w) else None)"

fun exec_op :: "('k, 'v) mvcc_op \<Rightarrow> ('k, 'v) world \<Rightarrow> (mvcc_event \<times> ('k, 'v) world) option" where
  "exec_op OpBegin w =
     guarded (reg_next (w_mgr w) \<noteq> u64_max) EvBegin (set_mgr (snd (mgr_begin (w_mgr w))) w)"
| "exec_op (OpCommit x) w =
     (case mgr_commit (w_mgr w) x of Inl _ \<Rightarrow> None | Inr m \<Rightarrow> Some (EvCommit x, set_mgr m w))"
| "exec_op (OpAbort x) w =
     (case mgr_abort (w_mgr w) x of Inl _ \<Rightarrow> None | Inr m \<Rightarrow> Some (EvAbort x, set_mgr m w))"
| "exec_op (OpPut x k a) w =
     guarded (running (w_mgr w) x) (EvWrite x) (w\<lparr>w_store := store_put (w_store w) x k a\<rparr>)"
| "exec_op (OpDelete x k) w =
     guarded (running (w_mgr w) x) (EvWrite x) (w\<lparr>w_store := snd (store_delete (w_store w) x k)\<rparr>)"
| "exec_op (OpPutChecked i k a) w =
     (if i < length (w_snaps w)
      then let s = w_snaps w ! i; x = s_my_xid s in
        guarded (running (w_mgr w) x) (EvWriteChecked x)
          (w\<lparr>w_store := snd (store_put_checked (w_store w) x s k a)\<rparr>)
      else None)"
| "exec_op (OpDeleteChecked i k) w =
     (if i < length (w_snaps w)
      then let s = w_snaps w ! i; x = s_my_xid s in
        guarded (running (w_mgr w) x) (EvWriteChecked x)
          (w\<lparr>w_store := snd (store_delete_checked (w_store w) x s k)\<rparr>)
      else None)"
| "exec_op (OpCommitSer i ks) w =
     (if i < length (w_snaps w)
      then let s = w_snaps w ! i; x = s_my_xid s in
        (case commit_serializable (w_store w) x s ks of
           (Inr _, st) \<Rightarrow> Some (EvCommit x, w\<lparr>w_store := st\<rparr>)
         | (Inl _, st) \<Rightarrow> Some (EvAbort x, w\<lparr>w_store := st\<rparr>))
      else None)"
| "exec_op (OpSnapshot x) w =
     guarded (x = INVALID_XID \<or> running (w_mgr w) x) EvSnapshot
       (w\<lparr>w_snaps := mgr_snapshot (w_mgr w) x # w_snaps w\<rparr>)"
| "exec_op (OpOpen x) w =
     (let (s, m) = begin_snapshot (w_mgr w) x in
      guarded ((x = INVALID_XID \<or> running (w_mgr w) x) \<and> int (length (w_guards w)) + 1 < 2 ^ 64) EvOpen
        (set_mgr m (w\<lparr>w_guards := s # w_guards w\<rparr>)))"
| "exec_op (OpDrop i) w =
     (if i < length (w_guards w)
      then let s = w_guards w ! i in
        Some (EvDrop s,
          set_mgr (release_snapshot (w_mgr w) (s_xmin s)) (w\<lparr>w_guards := remove1 s (w_guards w)\<rparr>))
      else None)"
| "exec_op OpHorizon w = Some (EvHorizon, w\<lparr>w_horizon := Some (gc_horizon (w_mgr w))\<rparr>)"
| "exec_op OpVacuum w =
     (case w_horizon w of
        None \<Rightarrow> None
      | Some h \<Rightarrow>
          Some (EvVacuum, w\<lparr>w_store := snd (store_vacuum (w_store w) h), w_horizon := None\<rparr>))"

fun exec_ops :: "('k, 'v) mvcc_op list \<Rightarrow> ('k, 'v) world \<Rightarrow> (mvcc_event list \<times> ('k, 'v) world) option" where
  "exec_ops [] w = Some ([], w)"
| "exec_ops (op # ops) w =
     (case exec_op op w of
        None \<Rightarrow> None
      | Some (ev, w') \<Rightarrow>
          (case exec_ops ops w' of None \<Rightarrow> None | Some (evs, w'') \<Rightarrow> Some (ev # evs, w'')))"

lemma exec_op_step: "exec_op op w = Some (ev, w') \<Longrightarrow> mvcc_step w ev w'"
  by (cases op)
    (auto simp: guarded_def Let_def split: if_splits sum.splits option.splits prod.splits
      intro: mvcc_step.intros step_open [simplified] step_drop [simplified] nth_mem)

lemma exec_ops_run: "exec_ops ops w = Some (evs, w') \<Longrightarrow> mvcc_run w evs w'"
  by (induction ops arbitrary: w evs)
    (auto split: option.splits prod.splits intro: mvcc_run.intros exec_op_step)

text \<open>The world and the events of an execution from the start.\<close>

definition world_after :: "('k, 'v) mvcc_op list \<Rightarrow> ('k, 'v) world" where
  "world_after ops = (case exec_ops ops init_world of Some (_, w) \<Rightarrow> w | None \<Rightarrow> init_world)"

definition events_after :: "('k, 'v) mvcc_op list \<Rightarrow> mvcc_event list" where
  "events_after ops =
     (case exec_ops ops (init_world :: ('k, 'v) world) of Some (evs, _) \<Rightarrow> evs | None \<Rightarrow> [])"

lemma world_after_run: "mvcc_run init_world (events_after ops) (world_after ops)"
  by (auto simp: world_after_def events_after_def split: option.splits dest: exec_ops_run
      intro: mvcc_run.intros)

lemma world_after_reachable: "reachable (world_after ops)"
  by (auto simp: world_after_def reachable_def split: option.splits dest: exec_ops_run
      intro: mvcc_run.intros)

section \<open>Publishing and discarding a transaction\<close>

text \<open>A transaction's writes to the store: \<open>Some a\<close> puts, \<open>None\<close> deletes.\<close>

fun apply_writes :: "('k, 'v) vstore \<Rightarrow> xid \<Rightarrow> ('k \<times> 'v option) list \<Rightarrow> ('k, 'v) vstore" where
  "apply_writes st x [] = st"
| "apply_writes st x ((k, Some a) # ws) = apply_writes (store_put st x k a) x ws"
| "apply_writes st x ((k, None) # ws) = apply_writes (snd (store_delete st x k)) x ws"

lemma apply_writes_mgr [simp]: "st_mgr (apply_writes st x ws) = st_mgr st"
  by (induction st x ws rule: apply_writes.induct) auto

lemma apply_writes_unseen:
  assumes "\<not> see x" and "\<not> see INVALID_XID"
  shows "chain_get see (entry_or_default (st_chains (apply_writes st x ws)) k) =
    chain_get see (entry_or_default (st_chains st) k)"
  using assms
  by (induction st x ws rule: apply_writes.induct)
    (auto simp: chain_put_get_unseen retire_live_get)

lemma snapshot_after_finish:
  assumes "running m x" and "mgr_finish m x to = Inr m'" and "z \<noteq> x"
  shows "sees_effect (mgr_snapshot m' y) z m' = sees_effect (mgr_snapshot m y) z m"
  using assms
  by (auto simp: mgr_finish_Inr_iff sees_effect_def mgr_snapshot_def mgr_status_upd running_def)

lemma fresh_snapshot_unseen:
  assumes "running m x \<or> mgr_status m x \<noteq> Committed" and "x \<noteq> y"
  shows "\<not> sees_effect (mgr_snapshot m y) x m"
  using assms by (auto simp: sees_effect_def mgr_snapshot_def)

text \<open>C21. Snapshot isolation with garbage collection. In every reachable state, a reader that holds a
  registered snapshot keeps reading the same value of every key, whatever interleaving of begins,
  commits, aborts, checked and unchecked writes, snapshots and vacuum passes follows (including a vacuum
  that works with a horizon read earlier), as long as its guard is held and its own transaction, if it
  has one, neither writes nor aborts.\<close>

theorem guard_view_stable:
  assumes "reachable w" and "g \<in> set (w_guards w)" and "not_aborted (w_mgr w) g"
    and "mvcc_run w evs w'" and "\<forall>ev \<in> set evs. \<not> own_event g ev"
  shows "store_get (w_store w') k g = store_get (w_store w) k g"
  using assms(4) reachable_inv [OF assms(1)] assms(2,3,5) by (rule guard_view_run)

definition ex_seed_guard :: "(nat, int) mvcc_op list" where
  "ex_seed_guard = [OpBegin, OpPut 1 7 10, OpCommit 1, OpOpen 0]"

definition ex_update_vacuum :: "(nat, int) mvcc_op list" where
  "ex_update_vacuum = [OpHorizon, OpBegin, OpPut 2 7 20, OpCommit 2, OpVacuum, OpHorizon, OpVacuum]"

theorem guard_view_stable_witness:
  "\<exists>w' evs. exec_ops ex_update_vacuum (world_after ex_seed_guard) = Some (evs, w') \<and>
     store_get (w_store w') 7 (hd (w_guards (world_after ex_seed_guard))) = Some 10"
proof -
  let ?w = "world_after ex_seed_guard"
  let ?g = "hd (w_guards ?w)"
  have some: "exec_ops ex_update_vacuum ?w \<noteq> None"
    by code_simp
  then obtain evs w' where run: "exec_ops ex_update_vacuum ?w = Some (evs, w')"
    by auto
  have evs: "evs = [EvHorizon, EvBegin, EvWrite 2, EvCommit 2, EvVacuum, EvHorizon, EvVacuum]"
  proof -
    have "map_option fst (exec_ops ex_update_vacuum ?w) =
        Some [EvHorizon, EvBegin, EvWrite 2, EvCommit 2, EvVacuum, EvHorizon, EvVacuum]"
      by code_simp
    with run show ?thesis by simp
  qed
  have "s_my_xid ?g = 0" and "w_guards ?w \<noteq> []" and "store_get (w_store ?w) 7 ?g = Some 10"
    by code_simp+
  then have "store_get (w_store w') 7 ?g = Some 10"
    using guard_view_stable [OF world_after_reachable, of ?g ex_seed_guard evs w' 7] exec_ops_run [OF run]
    by (simp add: not_aborted_def INVALID_XID_def evs own_event_def)
  with run show ?thesis by blast
qed

text \<open>Shown too. Without vacuum passes the same holds of any snapshot the manager ever handed out, tracked or
  not.\<close>

theorem snapshot_view_stable:
  assumes "reachable w" and "s \<in> set (w_snaps w)"
    and "mvcc_run w evs w'" and "\<forall>ev \<in> set evs. \<not> own_event s ev \<and> ev \<noteq> EvVacuum"
  shows "store_get (w_store w') k s = store_get (w_store w) k s"
  using assms(3) reachable_inv [OF assms(1)] _ assms(4)
  by (rule snap_view_run) (use reachable_inv [OF assms(1)] assms(2) in \<open>auto simp: world_inv_def\<close>)

definition ex_seed_snap :: "(nat, int) mvcc_op list" where
  "ex_seed_snap = [OpBegin, OpPut 1 7 10, OpCommit 1, OpSnapshot 0]"

definition ex_update :: "(nat, int) mvcc_op list" where
  "ex_update = [OpBegin, OpPut 2 7 20, OpCommit 2]"

theorem snapshot_view_stable_witness:
  "\<exists>w' evs. exec_ops ex_update (world_after ex_seed_snap) = Some (evs, w') \<and>
     store_get (w_store w') 7 (hd (w_snaps (world_after ex_seed_snap))) = Some 10"
proof -
  let ?w = "world_after ex_seed_snap"
  let ?s = "hd (w_snaps ?w)"
  have "exec_ops ex_update ?w \<noteq> None"
    by code_simp
  then obtain evs w' where run: "exec_ops ex_update ?w = Some (evs, w')"
    by auto
  have "map_option fst (exec_ops ex_update ?w) = Some [EvBegin, EvWrite 2, EvCommit 2]"
    by code_simp
  with run have evs: "evs = [EvBegin, EvWrite 2, EvCommit 2]" by simp
  have "s_my_xid ?s = 0" and "w_snaps ?w \<noteq> []" and "store_get (w_store ?w) 7 ?s = Some 10"
    by code_simp+
  then have "store_get (w_store w') 7 ?s = Some 10"
    using snapshot_view_stable [OF world_after_reachable, of ?s ex_seed_snap evs w' 7] exec_ops_run [OF run]
    by (simp add: evs own_event_def)
  with run show ?thesis by blast
qed

text \<open>Shown too. Committing publishes: once the transaction commits, every snapshot taken afterwards reads the
  value it put.\<close>

theorem commit_publishes:
  assumes "reg_inv (st_mgr st)" and "mgr_commit (st_mgr st) x = Inr m"
  shows "store_get ((store_put st x k a)\<lparr>st_mgr := m\<rparr>) k (mgr_snapshot m y) = Some a"
proof -
  have m: "m = (st_mgr st)\<lparr>reg_status := fmupd x Committed (reg_status (st_mgr st))\<rparr>"
    and "1 \<le> x" "x < reg_next (st_mgr st)"
    using assms running_bounds by (auto simp: mgr_commit_def mgr_finish_Inr_iff)
  then have "sees_effect (mgr_snapshot m y) x m"
    by (auto simp: sees_effect_def mgr_snapshot_def mgr_status_def INVALID_XID_def word_one_le_iff
        running_def dest: leD)
  then have "chain_get (\<lambda>z. sees_effect (mgr_snapshot m y) z m)
      (chain_put x a (entry_or_default (st_chains st) k)) = Some a"
    by (rule chain_put_get_seen) (simp add: sees_effect_def)
  then show ?thesis
    by (simp add: store_get_chain)
qed

theorem commit_publishes_witness:
  "\<exists>m. mgr_commit (w_mgr (world_after [OpBegin :: (nat, int) mvcc_op])) 1 = Inr m \<and>
     store_get ((store_put (w_store (world_after [OpBegin])) 1 (7::nat) (10::int))\<lparr>st_mgr := m\<rparr>) 7
       (mgr_snapshot m 0) = Some 10"
proof -
  let ?st = "w_store (world_after [OpBegin :: (nat, int) mvcc_op])"
  have reg: "reg_inv (st_mgr ?st)"
    using reachable_inv [OF world_after_reachable] by (auto simp: world_inv_def)
  have "\<not> isl (mgr_commit (st_mgr ?st) 1)"
    by code_simp
  then obtain m where m: "mgr_commit (st_mgr ?st) 1 = Inr m"
    by (cases "mgr_commit (st_mgr ?st) 1") auto
  with commit_publishes [OF reg m] show ?thesis by blast
qed

text \<open>Shown too. Atomic rollback: whatever a transaction wrote and deleted, once it aborts a fresh snapshot
  reads exactly what a fresh snapshot would have read before it wrote anything.\<close>

theorem abort_discards:
  assumes "mgr_abort (st_mgr st) x = Inr m" and "y \<noteq> x"
  shows "store_get ((apply_writes st x ws)\<lparr>st_mgr := m\<rparr>) k (mgr_snapshot m y) =
    store_get st k (mgr_snapshot (st_mgr st) y)"
proof -
  have fin: "mgr_finish (st_mgr st) x Aborted = Inr m"
    using assms(1) by (simp add: mgr_abort_def)
  then have run: "running (st_mgr st) x" and "mgr_status m x = Aborted"
    by (auto simp: mgr_finish_Inr_iff mgr_status_def)
  then have unseen: "\<not> sees_effect (mgr_snapshot m y) x m"
      "\<not> sees_effect (mgr_snapshot (st_mgr st) y) x (st_mgr st)"
    using assms(2) fresh_snapshot_unseen [of m x y] fresh_snapshot_unseen [of "st_mgr st" x y] by simp_all
  then have same: "(\<lambda>z. sees_effect (mgr_snapshot m y) z m) =
      (\<lambda>z. sees_effect (mgr_snapshot (st_mgr st) y) z (st_mgr st))"
    using snapshot_after_finish [OF run fin] unseen by (intro ext) metis
  have "chain_get (\<lambda>z. sees_effect (mgr_snapshot (st_mgr st) y) z (st_mgr st))
      (entry_or_default (st_chains (apply_writes st x ws)) k) =
    chain_get (\<lambda>z. sees_effect (mgr_snapshot (st_mgr st) y) z (st_mgr st))
      (entry_or_default (st_chains st) k)"
    using unseen(2) by (rule apply_writes_unseen) (rule txn_vis.invalid_unseen)
  then show ?thesis
    by (simp add: store_get_chain same)
qed

theorem abort_discards_witness:
  "\<exists>m. mgr_abort (w_mgr (world_after (ex_seed_snap @ [OpBegin]))) 2 = Inr m \<and>
     store_get ((apply_writes (w_store (world_after (ex_seed_snap @ [OpBegin]))) 2
         [(7, Some 20), (7, None), (8, Some 30)])\<lparr>st_mgr := m\<rparr>) 7 (mgr_snapshot m 0) = Some 10"
proof -
  let ?st = "w_store (world_after (ex_seed_snap @ [OpBegin]))"
  have "\<not> isl (mgr_abort (st_mgr ?st) 2)"
    by code_simp
  then obtain m where m: "mgr_abort (st_mgr ?st) 2 = Inr m"
    by (cases "mgr_abort (st_mgr ?st) 2") auto
  have "store_get ?st 7 (mgr_snapshot (st_mgr ?st) 0) = Some 10"
    by code_simp
  with abort_discards [OF m, of 0 "[(7, Some 20), (7, None), (8, Some 30)]" 7] m show ?thesis by auto
qed

end
