(* ===== verification/Mvcc_Writers.thy ===== *)
theory Mvcc_Writers
  imports Mvcc_World
begin

text \<open>
  Conflict detection of \<^verbatim>\<open>src/src/mvcc/store.rs\<close> (\<open>conflicting_writer\<close>, \<open>put_checked\<close>,
  \<open>delete_checked\<close>, \<open>read_conflict\<close>) over whole executions: the shape every version chain keeps, the
  exclusion of two running writers on one key, and what a successful checked write has seen.
\<close>

definition marks_of :: "'v version \<Rightarrow> xid set" where
  "marks_of v = {v_xmin v, v_xmax v} - {INVALID_XID}"

definition marks :: "'v version list \<Rightarrow> xid set" where
  "marks c = (\<Union>v \<in> set c. marks_of v)"

text \<open>Only the newest version of a chain may be live, and every id on the chain was allocated.\<close>

definition chain_shape :: "registry \<Rightarrow> 'v version list \<Rightarrow> bool" where
  "chain_shape m c \<longleftrightarrow> sorted_wrt (\<lambda>v u. \<not> is_live v) c \<and>
     (\<forall>v \<in> set c. v_xmin v \<noteq> INVALID_XID) \<and> (\<forall>x \<in> marks c. x < reg_next m)"

text \<open>
  A running transaction with a mark on the chain decides the newest version, and created every
  version above the one it marked.
\<close>

definition single_writer :: "registry \<Rightarrow> 'v version list \<Rightarrow> bool" where
  "single_writer m c \<longleftrightarrow>
     (\<forall>x \<in> marks c. running m x \<longrightarrow> x = decider (last c)) \<and>
     sorted_wrt (\<lambda>v u. \<forall>x \<in> marks_of v. running m x \<longrightarrow> v_xmin u = x) c"

lemma marks_simps [chain_simps]:
  "marks [] = {}" "marks (c @ [v]) = marks c \<union> marks_of v" "marks (v # c) = marks_of v \<union> marks c"
  "marks_of (version_new x a) = {x} - {INVALID_XID}"
  "marks_of (mark_deleted x v) = ({v_xmin v, x}) - {INVALID_XID}"
  by (auto simp: marks_def marks_of_def version_new_simps mark_deleted_simps)

lemma marks_filter: "marks (filter P c) \<subseteq> marks c"
  by (auto simp: marks_def)

lemma retire_live_snoc:
  assumes "sorted_wrt (\<lambda>v u. \<not> is_live v) (c @ [v])"
  shows "retire_live x (c @ [v]) = c @ [if is_live v then mark_deleted x v else v]"
  using assms by (auto simp: retire_live_def sorted_wrt_append modify_last_id)

lemma decider_simps [chain_simps]:
  "decider (version_new x a) = x"
  "x \<noteq> INVALID_XID \<Longrightarrow> decider (mark_deleted x v) = x"
  by (simp_all add: decider_def version_new_simps mark_deleted_simps is_live_def)

lemma decider_in_marks:
  "chain_shape m c \<Longrightarrow> c \<noteq> [] \<Longrightarrow> decider (last c) \<in> marks c"
  by (cases c rule: rev_cases)
    (auto simp: chain_shape_def decider_def marks_def marks_of_def is_live_def)

section \<open>The shape of chains\<close>

lemma chain_shape_mono:
  assumes "chain_shape m c" and "reg_next m \<le> reg_next m'"
  shows "chain_shape m' c"
  using assms by (auto simp: chain_shape_def intro: order_less_le_trans)

lemma chain_shape_filter: "chain_shape m c \<Longrightarrow> chain_shape m (filter P c)"
  using marks_filter [of P c] by (auto simp: chain_shape_def sorted_wrt_filter)

lemma chain_shape_retire:
  assumes "chain_shape m c" and "x < reg_next m" and "x \<noteq> INVALID_XID"
  shows "chain_shape m (retire_live x c) \<and> (\<forall>v \<in> set (retire_live x c). \<not> is_live v)"
proof (cases c rule: rev_cases)
  case Nil
  with assms show ?thesis by (simp add: retire_live_def chain_shape_def)
next
  case (snoc ys v)
  with assms(1) have s: "sorted_wrt (\<lambda>v u. \<not> is_live v) (ys @ [v])"
    by (simp add: chain_shape_def)
  show ?thesis
    using assms s unfolding snoc retire_live_snoc [OF s]
    by (auto simp: chain_shape_def sorted_wrt_append chain_simps marks_of_def is_live_def)
qed

lemma chain_shape_put:
  assumes "chain_shape m c" and "x < reg_next m" and "x \<noteq> INVALID_XID"
  shows "chain_shape m (chain_put x a c)"
  using chain_shape_retire [OF assms] assms
  by (auto simp: chain_put_def chain_shape_def sorted_wrt_append chain_simps)

lemma marks_retire: "chain_shape m c \<Longrightarrow> marks (retire_live x c) \<subseteq> insert x (marks c)"
  by (cases c rule: rev_cases)
    (auto simp: chain_shape_def retire_live_snoc chain_simps marks_of_def retire_live_def [of _ "[]"])

section \<open>One running writer per key\<close>

lemma single_writer_mono:
  assumes "single_writer m c" and "chain_shape m c"
    and "\<And>x. x < reg_next m \<Longrightarrow> running m' x \<Longrightarrow> running m x"
  shows "single_writer m' c"
proof -
  have run: "running m x" if "x \<in> marks c" "running m' x" for x
    using assms(2,3) that by (auto simp: chain_shape_def)
  have run': "running m x" if "v \<in> set c" "x \<in> marks_of v" "running m' x" for v x
    using that run [of x] by (auto simp: marks_def)
  have "sorted_wrt (\<lambda>v u. \<forall>x \<in> marks_of v. running m' x \<longrightarrow> v_xmin u = x) c"
    using assms(1) unfolding single_writer_def
    by (elim conjE sorted_wrt_mono_rel [rotated]) (blast intro: run')
  with assms(1) run show ?thesis
    by (auto simp: single_writer_def)
qed

lemma single_writer_put:
  assumes "single_writer m c" and "chain_shape m c" and x: "x \<noteq> INVALID_XID"
    and only: "\<And>y. y \<in> marks c \<Longrightarrow> running m y \<Longrightarrow> y = x"
  shows "single_writer m (chain_put x a c)"
proof (cases c rule: rev_cases)
  case Nil
  then show ?thesis
    by (simp add: chain_put_def retire_live_def single_writer_def chain_simps)
next
  case (snoc ys v)
  with assms(2) have s: "sorted_wrt (\<lambda>v u. \<not> is_live v) (ys @ [v])"
    by (simp add: chain_shape_def)
  show ?thesis
    using assms(1,2) x only unfolding snoc chain_put_def retire_live_snoc [OF s]
    by (auto simp: single_writer_def sorted_wrt_append chain_simps marks_of_def marks_def)
qed

lemma single_writer_retire:
  assumes "single_writer m c" and "chain_shape m c" and x: "x \<noteq> INVALID_XID"
    and only: "\<And>y. y \<in> marks c \<Longrightarrow> running m y \<Longrightarrow> y = x"
  shows "single_writer m (retire_live x c)"
proof (cases c rule: rev_cases)
  case Nil
  with assms(1) show ?thesis by (simp add: retire_live_def)
next
  case (snoc ys v)
  with assms(2) have s: "sorted_wrt (\<lambda>v u. \<not> is_live v) (ys @ [v])"
    by (simp add: chain_shape_def)
  show ?thesis
  proof (cases "is_live v")
    case True
    then show ?thesis
      using assms(1) x only unfolding snoc retire_live_snoc [OF s]
      by (auto simp: single_writer_def sorted_wrt_append chain_simps marks_of_def marks_def
          mark_deleted_simps)
  next
    case False
    with assms(1) snoc show ?thesis by (simp add: retire_live_snoc [OF s])
  qed
qed

lemma single_writer_kept:
  assumes sw: "single_writer m c" and shape: "chain_shape m c"
  shows "single_writer m (kept_versions m h c)"
proof -
  let ?keep = "\<lambda>v. \<not> is_reclaimable v h m"
  have "x = decider (last (filter ?keep c))" if x: "x \<in> marks (filter ?keep c)" "running m x" for x
  proof (cases c rule: rev_cases)
    case (snoc ys v)
    have x_head: "x = decider v"
      using sw x marks_filter [of ?keep c] by (auto simp: single_writer_def snoc)
    show ?thesis
    proof (cases "?keep v")
      case True
      with x_head snoc show ?thesis by simp
    next
      case False
      with x obtain u where u: "u \<in> set ys" "x \<in> marks_of u"
        by (auto simp: snoc marks_def)
      with sw x(2) have "v_xmin v = x"
        by (auto simp: single_writer_def snoc sorted_wrt_append)
      moreover have "mgr_status m x = InProgress"
        using x(2) u by (intro running_status) (auto simp: marks_of_def)
      ultimately show ?thesis
        using False x_head by (auto simp: decider_def is_live_def elim!: reclaimable_cases split: if_splits)
    qed
  qed (use x in \<open>simp add: marks_def\<close>)
  then show ?thesis
    using sw by (simp add: single_writer_def kept_versions_def sorted_wrt_filter)
qed

text \<open>A write that passes the check finds no other running writer on the key.\<close>

lemma no_conflict_only_writer:
  assumes "conflicting_writer m c x s = None" and "snap_ok m s" and "s_my_xid s = x"
    and "single_writer m c" and "y \<in> marks c" and "running m y"
  shows "y = x"
proof (rule ccontr)
  assume "y \<noteq> x"
  have "y = decider (last c)" and "c \<noteq> []"
    using assms(4-6) by (auto simp: single_writer_def marks_def)
  moreover have "\<not> sees_effect s y m"
    using sees_effect_running assms(2,3,6) \<open>y \<noteq> x\<close> by blast
  moreover have "mgr_status m y \<noteq> Aborted" and "y \<noteq> INVALID_XID"
    using assms(5,6) by (auto simp: mgr_status_def running_def marks_def marks_of_def)
  ultimately show False
    using assms(1) \<open>y \<noteq> x\<close> by (simp add: conflicting_writer_def Let_def)
qed

section \<open>Over whole executions\<close>

lemma running_alloc: "reg_inv m \<Longrightarrow> running m x \<Longrightarrow> x < reg_next m \<and> x \<noteq> INVALID_XID"
  using running_bounds [of m x] by (auto simp: INVALID_XID_def)

text \<open>What a step may do to one chain, by event.\<close>

lemma step_chain_cases:
  assumes "mvcc_step w ev w'"
  obtains (same) "w_chain w' k = w_chain w k"
    | (put) x a where "ev = EvWrite x" "running (w_mgr w) x" "w_mgr w' = w_mgr w"
        "w_chain w' k = chain_put x a (w_chain w k)"
    | (del) x where "ev = EvWrite x" "running (w_mgr w) x" "w_mgr w' = w_mgr w"
        "w_chain w' k = retire_live x (w_chain w k)"
    | (cput) x s a where "ev = EvWriteChecked x" "running (w_mgr w) x" "w_mgr w' = w_mgr w"
        "s \<in> set (w_snaps w)" "s_my_xid s = x"
        "conflicting_writer (w_mgr w) (w_chain w k) x s = None"
        "w_chain w' k = chain_put x a (w_chain w k)" "w_snaps w' = w_snaps w"
    | (cdel) x s where "ev = EvWriteChecked x" "running (w_mgr w) x" "w_mgr w' = w_mgr w"
        "s \<in> set (w_snaps w)" "s_my_xid s = x"
        "conflicting_writer (w_mgr w) (w_chain w k) x s = None"
        "w_chain w' k = retire_live x (w_chain w k)" "w_snaps w' = w_snaps w"
    | (vac) h where "ev = EvVacuum" "w_mgr w' = w_mgr w"
        "w_chain w' k = kept_versions (w_mgr w) h (w_chain w k)"
  using assms
proof (cases rule: mvcc_step.cases)
  case (step_put x k' a)
  then show ?thesis using same put by (cases "k' = k") auto
next
  case (step_delete x k')
  then show ?thesis using same del by (cases "k' = k") auto
next
  case (step_put_checked x s k' a)
  then show ?thesis
    using same cput by (cases "k' = k") (auto simp: store_put_checked_cases split: option.splits)
next
  case (step_delete_checked x s k')
  then show ?thesis
    using same cdel by (cases "k' = k") (auto simp: store_delete_checked_cases split: option.splits)
next
  case (step_commit_ser x s ks st)
  then show ?thesis
    using same commit_serializable_Inr(2) by fastforce
next
  case (step_fail_ser x s ks e st)
  then show ?thesis
    using same commit_serializable_Inl by fastforce
next
  case (step_vacuum h)
  then show ?thesis using vac by auto
qed (use same in auto)

lemma chain_shape_step:
  assumes step: "mvcc_step w ev w'" and inv: "world_inv w" and shape: "chain_shape (w_mgr w) (w_chain w k)"
  shows "chain_shape (w_mgr w') (w_chain w' k)"
proof -
  have reg: "reg_inv (w_mgr w)"
    using inv by (simp add: world_inv_def)
  have "reg_next (w_mgr w) \<le> reg_next (w_mgr w')"
    using later_step [OF step inv] by (simp add: later_def)
  note mono = chain_shape_mono [OF _ this]
  show ?thesis
    using step
  proof (cases rule: step_chain_cases [where k = k])
    case same
    with shape mono show ?thesis by simp
  next
    case (vac h)
    with shape show ?thesis by (simp add: kept_versions_def chain_shape_filter)
  qed (use running_alloc [OF reg] chain_shape_put [OF shape] chain_shape_retire [OF shape] in auto)
qed

lemma chain_shape_run:
  "mvcc_run w evs w' \<Longrightarrow> world_inv w \<Longrightarrow> chain_shape (w_mgr w) (w_chain w k) \<Longrightarrow>
     chain_shape (w_mgr w') (w_chain w' k)"
  by (induction rule: mvcc_run.induct) (auto intro: world_inv_step chain_shape_step)

lemma init_chain [simp]: "w_chain init_world k = []"
  by (simp add: init_world_def store_new_def entry_or_default_def)

lemma reachable_chain_shape: "reachable w \<Longrightarrow> chain_shape (w_mgr w) (w_chain w k)"
  using chain_shape_run [OF _ world_inv_init, of _ w k]
  by (auto simp: reachable_def chain_shape_def marks_def)

lemma single_writer_step:
  assumes step: "mvcc_step w ev w'" and inv: "world_inv w" and shape: "chain_shape (w_mgr w) (w_chain w k)"
    and sw: "single_writer (w_mgr w) (w_chain w k)" and checked: "\<And>x. ev \<noteq> EvWrite x"
  shows "single_writer (w_mgr w') (w_chain w' k)"
proof -
  have reg: "reg_inv (w_mgr w)" and ok: "\<And>s. s \<in> set (w_snaps w) \<Longrightarrow> snap_ok (w_mgr w) s"
    using inv by (auto simp: world_inv_def)
  have later: "later (w_mgr w) (w_mgr w')"
    using step inv by (rule later_step)
  show ?thesis
    using step
  proof (cases rule: step_chain_cases [where k = k])
    case same
    then show ?thesis
      using single_writer_mono [OF sw shape] later_running [OF later] by simp
  next
    case (cput x s a)
    then show ?thesis
      using single_writer_put [OF sw shape] running_alloc [OF reg] ok
        no_conflict_only_writer [OF _ _ _ sw, of x s] by auto
  next
    case (cdel x s)
    then show ?thesis
      using single_writer_retire [OF sw shape] running_alloc [OF reg] ok
        no_conflict_only_writer [OF _ _ _ sw, of x s] by auto
  next
    case (vac h)
    then show ?thesis using single_writer_kept [OF sw shape] by simp
  qed (use checked in auto)
qed

definition checked_only :: "mvcc_event list \<Rightarrow> bool" where
  "checked_only evs \<longleftrightarrow> (\<forall>ev \<in> set evs. case ev of EvWrite _ \<Rightarrow> False | _ \<Rightarrow> True)"

lemma single_writer_run:
  assumes "mvcc_run w evs w'" and "world_inv w" and "chain_shape (w_mgr w) (w_chain w k)"
    and "single_writer (w_mgr w) (w_chain w k)" and "checked_only evs"
  shows "single_writer (w_mgr w') (w_chain w' k)"
  using assms
proof (induction rule: mvcc_run.induct)
  case (run_cons w ev w' evs w'')
  have "single_writer (w_mgr w') (w_chain w' k)"
    using run_cons by (intro single_writer_step [OF run_cons.hyps(1)]) (auto simp: checked_only_def)
  with run_cons show ?case
    using world_inv_step [OF run_cons.hyps(1)] chain_shape_step [OF run_cons.hyps(1)]
    by (auto simp: checked_only_def)
qed simp

lemma checked_run_single_writer:
  assumes "mvcc_run init_world evs w" and "checked_only evs"
  shows "single_writer (w_mgr w) (w_chain w k)"
  using assms world_inv_init
  by (intro single_writer_run [OF assms(1)]) (auto simp: chain_shape_def single_writer_def marks_def)

section \<open>What a successful checked write has seen\<close>

definition no_aborted_marks :: "registry \<Rightarrow> 'v version list \<Rightarrow> bool" where
  "no_aborted_marks m c \<longleftrightarrow> (\<forall>x \<in> marks c. mgr_status m x \<noteq> Aborted)"

text \<open>A snapshot that sees the newest change of a key, made by another transaction, sees every
  change of it.\<close>

definition seen_closed :: "registry \<Rightarrow> snapshot \<Rightarrow> 'v version list \<Rightarrow> bool" where
  "seen_closed m s c \<longleftrightarrow>
     no_aborted_marks m c \<and> c \<noteq> [] \<and> decider (last c) \<noteq> s_my_xid s \<and> sees_effect s (decider (last c)) m
     \<longrightarrow> (\<forall>x \<in> marks c. sees_effect s x m)"

lemma seen_closed_fresh:
  assumes "reg_inv m" and "single_writer m c" and "chain_shape m c"
  shows "seen_closed m (mgr_snapshot m x) c"
  unfolding seen_closed_def
proof (intro impI ballI)
  fix y
  let ?s = "mgr_snapshot m x" and ?d = "decider (last c)"
  assume h: "no_aborted_marks m c \<and> c \<noteq> [] \<and> ?d \<noteq> s_my_xid ?s \<and> sees_effect ?s ?d m" and y: "y \<in> marks c"
  have nr: "\<not> running m y"
  proof
    assume r: "running m y"
    with assms(2) y have "y = ?d" by (auto simp: single_writer_def)
    with h r show False
      by (auto simp: sees_effect_def mgr_snapshot_def split: if_splits)
  qed
  have y0: "y \<noteq> INVALID_XID" and alloc: "y < reg_next m"
    using y assms(3) by (auto simp: marks_def marks_of_def chain_shape_def)
  with assms(1) obtain st where st: "fmlookup (reg_status m) y = Some st"
    by (auto simp: reg_inv_def INVALID_XID_def word_one_le_iff fmlookup_dom_iff)
  moreover from this y0 have "mgr_status m y = st"
    by (simp add: mgr_status_def)
  ultimately have "mgr_status m y = Committed"
    using nr h y by (cases st) (auto simp: no_aborted_marks_def running_def)
  then show "sees_effect ?s y m"
    using y0 alloc nr by (auto simp: sees_effect_def mgr_snapshot_def dest: leD)
qed

lemma aborted_final:
  assumes "later m m'" and "x < reg_next m" and "mgr_status m x = Aborted"
  shows "mgr_status m' x = Aborted"
proof -
  have "\<not> running m x \<or> x = INVALID_XID"
    using assms(3) running_status by force
  with assms show ?thesis
    by (auto simp: later_def mgr_status_def)
qed

lemma seen_closed_later:
  assumes "seen_closed m s c" and "snap_ok m s" and "later m m'" and "chain_shape m c"
  shows "seen_closed m' s c"
proof -
  have "no_aborted_marks m c" if "no_aborted_marks m' c"
    using that aborted_final [OF assms(3)] assms(4) by (auto simp: no_aborted_marks_def chain_shape_def)
  with assms(1) show ?thesis
    unfolding seen_closed_def sees_effect_later [OF assms(2,3)] by blast
qed

lemma seen_closed_foreign_head:
  assumes "snap_ok m s" and "running m x" and "decider (last c) = x"
  shows "seen_closed m s c"
  using assms sees_effect_running by (auto simp: seen_closed_def)

lemma seen_closed_retire:
  assumes "seen_closed m s c" and "snap_ok m s" and "running m x" and "x \<noteq> INVALID_XID" and "chain_shape m c"
  shows "seen_closed m s (retire_live x c)"
proof (cases c rule: rev_cases)
  case (snoc ys v)
  with assms(5) have s: "sorted_wrt (\<lambda>v u. \<not> is_live v) (ys @ [v])"
    by (simp add: chain_shape_def)
  show ?thesis
  proof (cases "is_live v")
    case True
    then show ?thesis
      using assms(2-4)
      by (intro seen_closed_foreign_head) (auto simp: snoc retire_live_snoc [OF s] chain_simps)
  qed (use assms(1) snoc in \<open>simp add: retire_live_snoc [OF s]\<close>)
qed (simp add: seen_closed_def)

definition writers_ok :: "('k, 'v) world \<Rightarrow> bool" where
  "writers_ok w \<longleftrightarrow> world_inv w \<and>
     (\<forall>k. chain_shape (w_mgr w) (w_chain w k) \<and> single_writer (w_mgr w) (w_chain w k)) \<and>
     (\<forall>s \<in> set (w_snaps w). \<forall>k. seen_closed (w_mgr w) s (w_chain w k))"

lemma step_snaps_cases:
  assumes "mvcc_step w ev w'"
  obtains "w_snaps w' = w_snaps w"
    | x where "w_snaps w' = mgr_snapshot (w_mgr w) x # w_snaps w" and "w_store w' = w_store w"
  using assms by (cases rule: mvcc_step.cases) auto

lemma seen_closed_step:
  assumes step: "mvcc_step w ev w'" and ok: "writers_ok w" and s: "s \<in> set (w_snaps w)"
    and checked: "\<And>x. ev \<noteq> EvWrite x" and no_vac: "ev \<noteq> EvVacuum"
  shows "seen_closed (w_mgr w') s (w_chain w' k)"
proof -
  have inv: "world_inv w" and so: "snap_ok (w_mgr w) s" and shape: "chain_shape (w_mgr w) (w_chain w k)"
    and sc: "seen_closed (w_mgr w) s (w_chain w k)"
    using ok s by (auto simp: writers_ok_def world_inv_def)
  then have reg: "reg_inv (w_mgr w)" by (simp add: world_inv_def)
  show ?thesis
    using step
  proof (cases rule: step_chain_cases [where k = k])
    case same
    then show ?thesis
      using seen_closed_later [OF sc so later_step [OF step inv] shape] by simp
  next
    case (cput x t a)
    then show ?thesis
      using so by (intro seen_closed_foreign_head) (auto simp: chain_put_def chain_simps)
  next
    case (cdel x t)
    then show ?thesis
      using seen_closed_retire [OF sc so _ _ shape] running_alloc [OF reg] by auto
  qed (use checked no_vac in auto)
qed

lemma writers_ok_step:
  assumes step: "mvcc_step w ev w'" and ok: "writers_ok w"
    and checked: "\<And>x. ev \<noteq> EvWrite x" and no_vac: "ev \<noteq> EvVacuum"
  shows "writers_ok w'"
proof -
  have base: "world_inv w'" "chain_shape (w_mgr w') (w_chain w' k)" "single_writer (w_mgr w') (w_chain w' k)" for k
    using ok checked world_inv_step [OF step] chain_shape_step [OF step] single_writer_step [OF step]
    by (auto simp: writers_ok_def)
  have old: "seen_closed (w_mgr w') s (w_chain w' k)" if "s \<in> set (w_snaps w)" for s k
    using step ok that checked no_vac by (rule seen_closed_step)
  show ?thesis
    using step
  proof (cases rule: step_snaps_cases)
    case 1
    with base old show ?thesis by (simp add: writers_ok_def)
  next
    case (2 x)
    then have "seen_closed (w_mgr w') (mgr_snapshot (w_mgr w) x) (w_chain w' k)" for k
      using ok seen_closed_fresh [of "w_mgr w" "w_chain w k" x] by (simp add: writers_ok_def world_inv_def)
    with 2 base old show ?thesis by (auto simp: writers_ok_def)
  qed
qed

lemma writers_ok_run:
  assumes "mvcc_run w evs w'" and "writers_ok w" and "checked_only evs" and "EvVacuum \<notin> set evs"
  shows "writers_ok w'"
  using assms
proof (induction rule: mvcc_run.induct)
  case (run_cons w ev w' evs w'')
  have "writers_ok w'"
    using run_cons by (intro writers_ok_step [OF run_cons.hyps(1)]) (auto simp: checked_only_def)
  with run_cons show ?case by (auto simp: checked_only_def)
qed simp

lemma writers_ok_init: "writers_ok init_world"
  using world_inv_init
  by (auto simp: writers_ok_def chain_shape_def single_writer_def marks_def seen_closed_def)

section \<open>Properties\<close>

text \<open>C22. First-updater-wins: in an execution in which every write is conflict-checked, two running
  transactions never both have a mark (a created or a retired version) on the same key, whatever the
  interleaving of transactions, snapshots and vacuum passes.\<close>

theorem one_running_writer:
  assumes "mvcc_run init_world evs w" and "checked_only evs"
    and "x \<in> marks (w_chain w k)" and "running (w_mgr w) x"
    and "y \<in> marks (w_chain w k)" and "running (w_mgr w) y"
  shows "x = y"
  using checked_run_single_writer [OF assms(1,2), of k] assms(3-) by (auto simp: single_writer_def)

definition ex_two_writers :: "(nat, int) mvcc_op list" where
  "ex_two_writers =
     [OpBegin, OpSnapshot 1, OpBegin, OpSnapshot 2, OpPutChecked 1 7 10, OpPutChecked 0 7 20]"

theorem one_running_writer_witness:
  "running (w_mgr (world_after ex_two_writers)) 2 \<and> 2 \<notin> marks (w_chain (world_after ex_two_writers) 7)"
proof -
  let ?w = "world_after ex_two_writers"
  have evs: "events_after ex_two_writers =
      [EvBegin, EvSnapshot, EvBegin, EvSnapshot, EvWriteChecked 1, EvWriteChecked 2]"
    by code_simp
  have facts: "1 \<in> marks (w_chain ?w 7)" "running (w_mgr ?w) 1" "running (w_mgr ?w) 2"
    by (simp add: marks_def, code_simp) code_simp+
  have "2 \<notin> marks (w_chain ?w 7)"
    using one_running_writer [OF world_after_run _ facts(1,2), of 2] facts(3)
    by (auto simp: checked_only_def evs)
  with facts show ?thesis by simp
qed

text \<open>Shown too. The live version of a key is its newest one: in every reachable state no older version of a
  chain is live, so a put or a delete retires at most one version and never leaves two live.\<close>

theorem live_only_newest:
  assumes "reachable w" and "Suc i < length (w_chain w k)"
  shows "\<not> is_live (w_chain w k ! i)"
  using reachable_chain_shape [OF assms(1), of k] assms(2)
  by (auto simp: chain_shape_def sorted_wrt_iff_nth_less)

theorem live_only_newest_witness:
  "length (w_chain (world_after (ex_seed_snap @ ex_update)) 7) = 2 \<and>
   \<not> is_live (w_chain (world_after (ex_seed_snap @ ex_update)) 7 ! 0)"
proof -
  have "length (w_chain (world_after (ex_seed_snap @ ex_update)) 7) = 2"
    by code_simp
  with live_only_newest [OF world_after_reachable, of 0 "ex_seed_snap @ ex_update" 7] show ?thesis
    by simp
qed

text \<open>Shown too. No lost update: in an execution of checked writes without vacuum, when a put passes the
  conflict check on a key that no aborted transaction touched, then either the newest change of the
  key is the writer's own or the writer's snapshot sees every change ever made to the key.\<close>

theorem checked_put_no_lost_update:
  assumes "mvcc_run init_world evs w" and "checked_only evs" and "EvVacuum \<notin> set evs"
    and "s \<in> set (w_snaps w)" and "no_aborted_marks (w_mgr w) (w_chain w k)"
    and "store_put_checked (w_store w) (s_my_xid s) s k a = (Inr (), st')"
    and "x \<in> marks (w_chain w k)"
  shows "decider (last (w_chain w k)) = s_my_xid s \<or> sees_effect s x (w_mgr w)"
proof -
  let ?c = "w_chain w k"
  have ok: "writers_ok w"
    using assms(1) writers_ok_init assms(2,3) by (rule writers_ok_run)
  then have shape: "chain_shape (w_mgr w) ?c" and closed: "seen_closed (w_mgr w) s ?c"
    using assms(4) by (auto simp: writers_ok_def)
  have "?c \<noteq> []"
    using assms(7) by (auto simp: marks_def)
  then have d: "decider (last ?c) \<in> marks ?c"
    using shape by (rule decider_in_marks [rotated])
  then have "decider (last ?c) \<noteq> INVALID_XID"
    by (auto simp: marks_def marks_of_def)
  moreover have "conflicting_writer (w_mgr w) ?c (s_my_xid s) s = None"
    using assms(6) by (auto simp: store_put_checked_cases split: option.splits)
  ultimately have "decider (last ?c) = s_my_xid s \<or> sees_effect s (decider (last ?c)) (w_mgr w)"
    using assms(5) d \<open>?c \<noteq> []\<close>
    by (auto simp: conflicting_writer_def no_aborted_marks_def Let_def split: if_splits)
  then show ?thesis
    using closed assms(5,7) \<open>?c \<noteq> []\<close> by (auto simp: seen_closed_def)
qed

definition ex_seed_checked :: "(nat, int) mvcc_op list" where
  "ex_seed_checked =
     [OpBegin, OpSnapshot 1, OpPutChecked 0 7 10, OpCommit 1, OpBegin, OpSnapshot 2]"

theorem checked_put_no_lost_update_witness:
  "fst (store_put_checked (w_store (world_after ex_seed_checked)) 2
      (hd (w_snaps (world_after ex_seed_checked))) 7 20) = Inr () \<and>
   sees_effect (hd (w_snaps (world_after ex_seed_checked))) 1 (w_mgr (world_after ex_seed_checked))"
proof -
  let ?w = "world_after ex_seed_checked"
  let ?s = "hd (w_snaps ?w)"
  have evs: "events_after ex_seed_checked =
      [EvBegin, EvSnapshot, EvWriteChecked 1, EvCommit 1, EvBegin, EvSnapshot]"
    by code_simp
  have facts: "w_snaps ?w \<noteq> []" "s_my_xid ?s = 2" "decider (last (w_chain ?w 7)) \<noteq> 2"
    by code_simp+
  have m: "1 \<in> marks (w_chain ?w 7)" "no_aborted_marks (w_mgr ?w) (w_chain ?w 7)"
    by (simp add: marks_def, code_simp) (simp add: marks_def no_aborted_marks_def, code_simp)
  have put: "fst (store_put_checked (w_store ?w) 2 ?s 7 20) = Inr ()"
    by code_simp
  then obtain st' where "store_put_checked (w_store ?w) (s_my_xid ?s) ?s 7 20 = (Inr (), st')"
    using facts(2) by (metis prod.collapse)
  then have "decider (last (w_chain ?w 7)) = s_my_xid ?s \<or> sees_effect ?s 1 (w_mgr ?w)"
    using facts(1) m
    by (intro checked_put_no_lost_update [OF world_after_run]) (auto simp: evs checked_only_def)
  with facts put show ?thesis by simp
qed

text \<open>Shown too. A rejected checked put is harmless and justified: the store is unchanged and the error names
  a transaction that changed the key, is neither the writer nor visible to its snapshot, and has not
  aborted.\<close>

theorem checked_put_conflict:
  assumes "reachable w" and "store_put_checked (w_store w) x s k a = (Inl e, st')"
  shows "st' = w_store w \<and> (\<exists>y. e = WriteConflict y \<and> y \<in> marks (w_chain w k) \<and> y \<noteq> x \<and>
    \<not> sees_effect s y (w_mgr w) \<and> mgr_status (w_mgr w) y \<noteq> Aborted)"
proof -
  obtain y where y: "conflicting_writer (w_mgr w) (w_chain w k) x s = Some y"
    and "e = WriteConflict y" and "st' = w_store w"
    using assms(2) by (auto simp: store_put_checked_cases split: option.splits)
  moreover have "y = decider (last (w_chain w k))" and "w_chain w k \<noteq> []" and "y \<noteq> x"
      and "\<not> sees_effect s y (w_mgr w)" and "mgr_status (w_mgr w) y \<noteq> Aborted"
    using y by (auto simp: conflicting_writer_def Let_def split: if_splits)
  ultimately show ?thesis
    using decider_in_marks [OF reachable_chain_shape [OF assms(1)]] by blast
qed

theorem checked_put_conflict_witness:
  "store_put_checked (w_store (world_after ex_two_writers)) 2 (hd (w_snaps (world_after ex_two_writers))) 7 20
     = (Inl (WriteConflict 1), w_store (world_after ex_two_writers))"
proof -
  let ?w = "world_after ex_two_writers"
  have err: "fst (store_put_checked (w_store ?w) 2 (hd (w_snaps ?w)) 7 20) = Inl (WriteConflict 1)"
    by code_simp
  then obtain st' where st': "store_put_checked (w_store ?w) 2 (hd (w_snaps ?w)) 7 20 = (Inl (WriteConflict 1), st')"
    by (metis prod.collapse)
  with checked_put_conflict [OF world_after_reachable st'] show ?thesis by simp
qed

text \<open>The first conflict that validation reports is one of a key of the read set.\<close>

lemma first_read_conflict_Cons:
  "first_read_conflict st x s (k # ks) =
     (case read_conflict (st_mgr st) (entry_or_default (st_chains st) k) x s of
        Some y \<Rightarrow> Some y | None \<Rightarrow> first_read_conflict st x s ks)"
  by (simp add: entry_or_default_def read_conflict_def split: option.split)

declare first_read_conflict.simps(2) [simp del] first_read_conflict_Cons [simp]

lemma first_read_conflict_None_iff:
  "first_read_conflict st x s ks = None \<longleftrightarrow>
     (\<forall>k \<in> set ks. read_conflict (st_mgr st) (entry_or_default (st_chains st) k) x s = None)"
  by (induction ks) (auto split: option.splits)

lemma first_read_conflict_SomeD:
  "first_read_conflict st x s ks = Some y \<Longrightarrow>
     \<exists>k \<in> set ks. read_conflict (st_mgr st) (entry_or_default (st_chains st) k) x s = Some y"
  by (induction ks) (auto split: option.splits)

lemma finished_committed:
  assumes "reg_inv m" and "x < reg_next m" and "x \<noteq> INVALID_XID" and "\<not> running m x"
    and "mgr_status m x \<noteq> Aborted"
  shows "mgr_status m x = Committed"
proof -
  have "x |\<in>| fmdom (reg_status m)"
    using assms(1-3) by (auto simp: reg_inv_def INVALID_XID_def word_one_le_iff)
  then obtain st where "fmlookup (reg_status m) x = Some st"
    by (auto simp: fmlookup_dom_iff)
  with assms show ?thesis
    by (cases st) (auto simp: mgr_status_def running_def)
qed


definition ex_stale_read :: "(nat, int) mvcc_op list" where
  "ex_stale_read = ex_seed_checked @ [OpBegin, OpSnapshot 3, OpPutChecked 0 7 30, OpCommit 3]"


text \<open>Shown too. Validation never refuses without cause: a serialization failure names a committed
  transaction, other than the one committing and not visible to its snapshot, that decides the newest
  version of one of the keys read.\<close>

theorem serialization_failure_justified:
  assumes "commit_serializable st x s ks = (Inl (SerializationFailure y), st')"
  shows "y \<noteq> x \<and> mgr_status (st_mgr st) y = Committed \<and> \<not> sees_effect s y (st_mgr st) \<and>
    (\<exists>k \<in> set ks. entry_or_default (st_chains st) k \<noteq> [] \<and>
       y = decider (last (entry_or_default (st_chains st) k))) \<and> st_chains st' = st_chains st"
proof -
  have y: "first_read_conflict st x s ks = Some y" and st': "st_chains st' = st_chains st"
    using assms
    by (auto simp: commit_serializable_def mgr_commit_def mgr_finish_Inl_iff split: option.splits sum.splits)
  then show ?thesis
    using first_read_conflict_SomeD [OF y]
    by (auto simp: read_conflict_def Let_def split: if_splits)
qed

theorem serialization_failure_justified_witness:
  "mgr_status (w_mgr (world_after ex_stale_read)) 3 = Committed \<and>
   \<not> sees_effect (w_snaps (world_after ex_stale_read) ! 1) 3 (w_mgr (world_after ex_stale_read))"
proof -
  let ?w = "world_after ex_stale_read"
  have "fst (commit_serializable (w_store ?w) 2 (w_snaps ?w ! 1) [7]) = Inl (SerializationFailure 3)"
    by code_simp
  then obtain st' where
    "commit_serializable (w_store ?w) 2 (w_snaps ?w ! 1) [7] = (Inl (SerializationFailure 3), st')"
    by (metis prod.collapse)
  from serialization_failure_justified [OF this] show ?thesis by blast
qed

end
