(* ===== verification/Mvcc_Isolation.thy ===== *)
theory Mvcc_Isolation
  imports Mvcc_Writers
begin

text \<open>
  The retry loop of \<^verbatim>\<open>src/src/mvcc/occ.rs\<close> and the isolation levels of
  \<^verbatim>\<open>src/src/mvcc/isolation.rs\<close>.

  A transaction body is a closure; it is a parameter that maps its arguments, its own state \<open>'c\<close> and
  the store to a result and the new states, so it may stand for the body together with whatever other
  threads do to the store while it runs. The loops stop after \<open>max_retries + 1\<close> attempts, which is
  their termination measure.
\<close>

section \<open>The retry loop\<close>

type_synonym ('k, 'v, 'c, 'a) occ_body =
  "xid \<Rightarrow> snapshot \<Rightarrow> 'c \<Rightarrow> ('k, 'v) vstore \<Rightarrow> (mvcc_error, 'a) result \<times> 'c \<times> ('k, 'v) vstore"

definition is_conflict :: "mvcc_error \<Rightarrow> bool" where
  "is_conflict e = (case e of WriteConflict _ \<Rightarrow> True | SerializationFailure _ \<Rightarrow> True | _ \<Rightarrow> False)"

definition best_effort_abort :: "('k, 'v) vstore \<Rightarrow> xid \<Rightarrow> ('k, 'v) vstore" where
  "best_effort_abort st xid =
     (case mgr_abort (st_mgr st) xid of Inl _ \<Rightarrow> st | Inr m \<Rightarrow> st\<lparr>st_mgr := m\<rparr>)"

function retry_loop ::
    "('k, 'v, 'c, 'a) occ_body \<Rightarrow> nat \<Rightarrow> nat \<Rightarrow> 'c \<Rightarrow> ('k, 'v) vstore \<Rightarrow>
       (mvcc_error, 'a) result \<times> 'c \<times> ('k, 'v) vstore" where
  "retry_loop body max_retries attempts c st =
     (let attempts = attempts + 1;
          (xid, m) = mgr_begin (st_mgr st);
          snapshot = mgr_snapshot m xid
      in case body xid snapshot c (st\<lparr>st_mgr := m\<rparr>) of
           (Inr value, c, st) \<Rightarrow>
             (case mgr_commit (st_mgr st) xid of
                Inl e \<Rightarrow> (Inl e, c, st)
              | Inr m \<Rightarrow> (Inr value, c, st\<lparr>st_mgr := m\<rparr>))
         | (Inl e, c, st) \<Rightarrow>
             (if is_conflict e then
                (case mgr_abort (st_mgr st) xid of
                   Inl e' \<Rightarrow> (Inl e', c, st)
                 | Inr m \<Rightarrow>
                     (if attempts > max_retries
                      then (Inl (RetriesExhausted attempts), c, st\<lparr>st_mgr := m\<rparr>)
                      else retry_loop body max_retries attempts c (st\<lparr>st_mgr := m\<rparr>)))
              else (Inl e, c, best_effort_abort st xid)))"
  by pat_completeness auto
termination
  by (relation "measure (\<lambda>(body, max_retries, attempts, c, st). max_retries + 1 - attempts)") auto

declare retry_loop.simps [simp del]

definition run_with_retry ::
    "nat \<Rightarrow> ('k, 'v, 'c, 'a) occ_body \<Rightarrow> 'c \<Rightarrow> ('k, 'v) vstore \<Rightarrow>
       (mvcc_error, 'a) result \<times> 'c \<times> ('k, 'v) vstore" where
  "run_with_retry max_retries body c st = retry_loop body max_retries 0 c st"

section \<open>Isolation levels\<close>

datatype isolation_level = ReadCommitted | SnapshotIsolation | Serializable

definition default_level :: isolation_level where
  "default_level = SnapshotIsolation"

definition refreshes_snapshot_per_statement :: "isolation_level \<Rightarrow> bool" where
  "refreshes_snapshot_per_statement l \<longleftrightarrow> l = ReadCommitted"

definition validates_read_set :: "isolation_level \<Rightarrow> bool" where
  "validates_read_set l \<longleftrightarrow> l = Serializable"

record 'k txn =
  t_xid :: xid
  t_level :: isolation_level
  t_snapshot :: snapshot
  t_reads :: "'k list"
  t_done :: bool

definition begin_transaction ::
    "('k, 'v) vstore \<Rightarrow> isolation_level \<Rightarrow> 'k txn \<times> ('k, 'v) vstore" where
  "begin_transaction st level =
     (let (xid, m) = mgr_begin (st_mgr st) in
      (\<lparr>t_xid = xid, t_level = level, t_snapshot = mgr_snapshot m xid, t_reads = [], t_done = False\<rparr>,
       st\<lparr>st_mgr := m\<rparr>))"

definition before_statement :: "('k, 'v) vstore \<Rightarrow> 'k txn \<Rightarrow> 'k txn" where
  "before_statement st tx =
     (if refreshes_snapshot_per_statement (t_level tx)
      then tx\<lparr>t_snapshot := mgr_snapshot (st_mgr st) (t_xid tx)\<rparr> else tx)"

definition txn_get :: "('k, 'v) vstore \<Rightarrow> 'k txn \<Rightarrow> 'k \<Rightarrow> 'v option \<times> 'k txn" where
  "txn_get st tx key =
     (let tx1 = before_statement st tx;
          tx2 = (if validates_read_set (t_level tx1)
                 then tx1\<lparr>t_reads := List.insert key (t_reads tx1)\<rparr> else tx1)
      in (store_get st key (t_snapshot tx2), tx2))"

definition txn_put ::
    "('k, 'v) vstore \<Rightarrow> 'k txn \<Rightarrow> 'k \<Rightarrow> 'v \<Rightarrow> (mvcc_error, unit) result \<times> 'k txn \<times> ('k, 'v) vstore" where
  "txn_put st tx key value =
     (let tx1 = before_statement st tx;
          (r, st1) = store_put_checked st (t_xid tx1) (t_snapshot tx1) key value
      in (r, tx1, st1))"

definition txn_delete ::
    "('k, 'v) vstore \<Rightarrow> 'k txn \<Rightarrow> 'k \<Rightarrow> (mvcc_error, bool) result \<times> 'k txn \<times> ('k, 'v) vstore" where
  "txn_delete st tx key =
     (let tx1 = before_statement st tx;
          (r, st1) = store_delete_checked st (t_xid tx1) (t_snapshot tx1) key
      in (r, tx1, st1))"

text \<open>\<open>commit\<close> and \<open>abort\<close> consume the handle, so they return the store only; \<open>done\<close> is set first,
  which is why the drop that follows does nothing.\<close>

definition txn_commit :: "('k, 'v) vstore \<Rightarrow> 'k txn \<Rightarrow> (mvcc_error, unit) result \<times> ('k, 'v) vstore" where
  "txn_commit st tx =
     (if validates_read_set (t_level tx)
      then commit_serializable st (t_xid tx) (t_snapshot tx) (t_reads tx)
      else (case mgr_commit (st_mgr st) (t_xid tx) of
              Inl e \<Rightarrow> (Inl e, st)
            | Inr m \<Rightarrow> (Inr (), st\<lparr>st_mgr := m\<rparr>)))"

definition txn_abort :: "('k, 'v) vstore \<Rightarrow> 'k txn \<Rightarrow> (mvcc_error, unit) result \<times> ('k, 'v) vstore" where
  "txn_abort st tx =
     (case mgr_abort (st_mgr st) (t_xid tx) of
        Inl e \<Rightarrow> (Inl e, st)
      | Inr m \<Rightarrow> (Inr (), st\<lparr>st_mgr := m\<rparr>))"

definition txn_drop :: "('k, 'v) vstore \<Rightarrow> 'k txn \<Rightarrow> ('k, 'v) vstore" where
  "txn_drop st tx = (if t_done tx then st else best_effort_abort st (t_xid tx))"

type_synonym ('k, 'v, 'c, 'a) txn_body =
  "'k txn \<Rightarrow> 'c \<Rightarrow> ('k, 'v) vstore \<Rightarrow> (mvcc_error, 'a) result \<times> 'k txn \<times> 'c \<times> ('k, 'v) vstore"

definition txn_attempt ::
    "('k, 'v, 'c, 'a) txn_body \<Rightarrow> isolation_level \<Rightarrow> 'c \<Rightarrow> ('k, 'v) vstore \<Rightarrow>
       (mvcc_error, 'a) result \<times> 'c \<times> ('k, 'v) vstore" where
  "txn_attempt body level c st =
     (let (tx, st1) = begin_transaction st level in
      case body tx c st1 of
        (Inr value, tx, c, st) \<Rightarrow>
          (case txn_commit st tx of
             (Inl e, st) \<Rightarrow> (Inl e, c, st)
           | (Inr _, st) \<Rightarrow> (Inr value, c, st))
      | (Inl e, tx, c, st) \<Rightarrow> (Inl e, c, txn_drop st tx))"

function txn_loop ::
    "('k, 'v, 'c, 'a) txn_body \<Rightarrow> isolation_level \<Rightarrow> nat \<Rightarrow> nat \<Rightarrow> 'c \<Rightarrow> ('k, 'v) vstore \<Rightarrow>
       (mvcc_error, 'a) result \<times> 'c \<times> ('k, 'v) vstore" where
  "txn_loop body level max_retries attempts c st =
     (let attempts = attempts + 1 in
      case txn_attempt body level c st of
        (Inr value, c, st) \<Rightarrow> (Inr value, c, st)
      | (Inl e, c, st) \<Rightarrow>
          (if is_conflict e then
             (if attempts > max_retries then (Inl (RetriesExhausted attempts), c, st)
              else txn_loop body level max_retries attempts c st)
           else (Inl e, c, st)))"
  by pat_completeness auto
termination
  by (relation "measure (\<lambda>(body, level, max_retries, attempts, c, st). max_retries + 1 - attempts)") auto

declare txn_loop.simps [simp del]

definition run_transaction ::
    "('k, 'v) vstore \<Rightarrow> isolation_level \<Rightarrow> nat \<Rightarrow> ('k, 'v, 'c, 'a) txn_body \<Rightarrow> 'c \<Rightarrow>
       (mvcc_error, 'a) result \<times> 'c \<times> ('k, 'v) vstore" where
  "run_transaction st level max_retries body c = txn_loop body level max_retries 0 c st"

section \<open>What the retry loop leaves behind\<close>

text \<open>The bodies the loop is meant for read and write the store and leave the manager alone.\<close>

definition keeps_mgr :: "('k, 'v, 'c, 'a) occ_body \<Rightarrow> bool" where
  "keeps_mgr body \<longleftrightarrow> (\<forall>x s c st. st_mgr (snd (snd (body x s c st))) = st_mgr st)"

text \<open>
  \<open>settled m r m'\<close>: from \<open>m\<close> to \<open>m'\<close> the loop allocated ids, touched no older one, and finished all
  of its own; exactly one of them is committed if the result \<open>r\<close> is a success, none otherwise.
\<close>

definition settled :: "registry \<Rightarrow> (mvcc_error, 'a) result \<Rightarrow> registry \<Rightarrow> bool" where
  "settled m r m' \<longleftrightarrow> reg_inv m' \<and> reg_next m < reg_next m' \<and>
     (\<forall>x < reg_next m. fmlookup (reg_status m') x = fmlookup (reg_status m) x) \<and>
     (\<forall>x. reg_next m \<le> x \<and> x < reg_next m' \<longrightarrow>
        fmlookup (reg_status m') x =
          Some (if isl r \<or> x + 1 \<noteq> reg_next m' then Aborted else Committed))"

abbreviation one_more :: "registry \<Rightarrow> xid_status \<Rightarrow> registry" where
  "one_more m to \<equiv> m\<lparr>reg_next := reg_next m + 1, reg_status := fmupd (reg_next m) to (reg_status m)\<rparr>"

lemma begin_then_finish: "mgr_finish (snd (mgr_begin m)) (reg_next m) to = Inr (one_more m to)"
proof -
  have "fmupd k v (fmupd k v' f) = fmupd k v f" for k :: xid and v v' and f :: "(xid, xid_status) fmap"
    by (rule fmap_ext) simp
  then show ?thesis
    by (simp add: mgr_finish_def mgr_begin_def Let_def)
qed

lemma reg_inv_one_more:
  assumes "reg_inv m" and "reg_next m \<noteq> u64_max"
  shows "reg_inv (one_more m to)"
  using later_finish [OF reg_inv_begin [OF assms] begin_then_finish] by (simp add: later_def)

lemma settled_one:
  assumes "reg_inv m" and "reg_next m \<noteq> u64_max"
  shows "settled m r (one_more m (if isl r then Aborted else Committed))"
  using reg_inv_one_more [OF assms, of "if isl r then Aborted else Committed"] assms(2)
  by (auto simp: settled_def word_less_plus_one)

lemma settled_trans:
  assumes "settled m (Inl e) m'" and "settled m' r m''"
  shows "settled m r m''"
  unfolding settled_def
proof (intro conjI allI impI)
  have lt: "reg_next m < reg_next m'" "reg_next m' < reg_next m''"
    using assms by (auto simp: settled_def)
  then show "reg_next m < reg_next m''" by (rule order_less_trans)
  fix x assume x: "reg_next m \<le> x \<and> x < reg_next m''"
  show "fmlookup (reg_status m'') x = Some (if isl r \<or> x + 1 \<noteq> reg_next m'' then Aborted else Committed)"
  proof (cases "x < reg_next m'")
    case True
    then have "x + 1 \<noteq> reg_next m''"
      using lt(2) by (metis inc_le leD)
    with True x assms show ?thesis by (auto simp: settled_def)
  next
    case False
    with x assms show ?thesis by (auto simp: settled_def)
  qed
qed (use assms in \<open>auto simp: settled_def\<close>)

text \<open>One attempt of the loop, for a body that leaves the manager alone.\<close>

lemma retry_attempt:
  fixes body :: "('k, 'v, 'c, 'a) occ_body"
  assumes keep: "keeps_mgr body" and reg: "reg_inv (st_mgr st)" and room: "reg_next (st_mgr st) \<noteq> u64_max"
    and run: "retry_loop body n a c st = (r, c', st')"
  shows "settled (st_mgr st) r (st_mgr st') \<and> reg_next (st_mgr st') = reg_next (st_mgr st) + 1 \<or>
    (\<exists>e c1 st1. settled (st_mgr st) (Inl e :: (mvcc_error, 'a) result) (st_mgr st1) \<and> Suc a \<le> n \<and>
       reg_next (st_mgr st1) = reg_next (st_mgr st) + 1 \<and> retry_loop body n (Suc a) c1 st1 = (r, c', st'))"
proof -
  let ?m = "st_mgr st" and ?x = "reg_next (st_mgr st)"
  obtain m1 where bgn: "mgr_begin ?m = (?x, m1)" and m1: "m1 = snd (mgr_begin ?m)"
    by (simp add: mgr_begin_def Let_def)
  obtain r1 c1 st1 where b: "body ?x (mgr_snapshot m1 ?x) c (st\<lparr>st_mgr := m1\<rparr>) = (r1, c1, st1)"
    using prod_cases3 by blast
  have mgr1: "st_mgr st1 = m1"
    using keep [unfolded keeps_mgr_def, rule_format, of ?x "mgr_snapshot m1 ?x" c "st\<lparr>st_mgr := m1\<rparr>"]
    by (simp add: b)
  note fin = begin_then_finish [of ?m, folded m1] and one = settled_one [OF reg room]
  show ?thesis
  proof (cases r1)
    case (Inr v)
    then have "r = Inr v" and "st_mgr st' = one_more ?m Committed"
      using run b unfolding retry_loop.simps [of body n a c st]
      by (auto simp: bgn mgr1 mgr_commit_def fin)
    with one [of r] show ?thesis by simp
  next
    case (Inl e)
    let ?ma = "one_more ?m Aborted"
    have sa: "settled ?m (Inl e' :: (mvcc_error, 'a) result) ?ma" for e'
      using one [of "Inl e' :: (mvcc_error, 'a) result"] by simp
    show ?thesis
    proof (cases "is_conflict e \<and> Suc a \<le> n")
      case True
      then have "retry_loop body n (Suc a) c1 (st1\<lparr>st_mgr := ?ma\<rparr>) = (r, c', st')"
        using run b Inl unfolding retry_loop.simps [of body n a c st]
        by (simp add: bgn mgr1 mgr_abort_def fin)
      with True sa [of e] show ?thesis
        by (intro disjI2 exI [of _ e] exI [of _ c1] exI [of _ "st1\<lparr>st_mgr := ?ma\<rparr>"]) simp
    next
      case False
      then have "isl r" and "st_mgr st' = ?ma"
        using run b Inl unfolding retry_loop.simps [of body n a c st]
        by (auto simp: bgn mgr1 mgr_abort_def fin best_effort_abort_def split: if_splits)
      with sa show ?thesis by (cases r) auto
    qed
  qed
qed

lemma unat_plus_one: "unat (x :: u64) + 1 < 2 ^ 64 \<Longrightarrow> x \<noteq> u64_max \<and> unat (x + 1) = unat x + 1"
proof -
  assume less: "unat x + 1 < 2 ^ 64"
  have "unat (u64_max) = 2 ^ 64 - 1"
    by (simp add: unsigned_minus_1_eq_mask mask_eq_exp_minus_1)
  with less have "x \<noteq> u64_max" by auto
  then show ?thesis
    by (metis add.commute unatSuc word_plus_one_neq_0 Suc_eq_plus1)
qed

lemma retry_loop_settled:
  fixes body :: "('k, 'v, 'c, 'a) occ_body"
  assumes "keeps_mgr body" and "reg_inv (st_mgr st)" and "a \<le> n"
    and "unat (reg_next (st_mgr st)) + (n + 1 - a) < 2 ^ 64"
    and "retry_loop body n a c st = (r, c', st')"
  shows "settled (st_mgr st) r (st_mgr st') \<and>
     unat (reg_next (st_mgr st')) \<le> unat (reg_next (st_mgr st)) + (n + 1 - a)"
  using assms(2-)
proof (induction "n - a" arbitrary: a c st rule: less_induct)
  case less
  let ?x = "reg_next (st_mgr st)"
  have x: "?x \<noteq> u64_max" "unat (?x + 1) = unat ?x + 1"
    using less.prems unat_plus_one [of ?x] by auto
  from retry_attempt [OF assms(1) less.prems(1) x(1) less.prems(4)] show ?case
  proof (elim disjE exE conjE)
    assume "settled (st_mgr st) r (st_mgr st')" and "reg_next (st_mgr st') = ?x + 1"
    with less.prems(2) x show ?thesis by simp
  next
    fix e c1 st1
    assume s1: "settled (st_mgr st) (Inl e :: (mvcc_error, 'a) result) (st_mgr st1)"
      and a: "Suc a \<le> n" and nxt: "reg_next (st_mgr st1) = ?x + 1"
      and rest: "retry_loop body n (Suc a) c1 st1 = (r, c', st')"
    have "settled (st_mgr st1) r (st_mgr st') \<and>
        unat (reg_next (st_mgr st')) \<le> unat (reg_next (st_mgr st1)) + (n + 1 - Suc a)"
      using less.hyps [of "Suc a" st1 c1] less.prems a s1 nxt x rest by (auto simp: settled_def)
    with settled_trans [OF s1] nxt x a show ?thesis by (auto simp: Suc_diff_le)
  qed
qed

section \<open>Properties\<close>

text \<open>Shown too. The optimistic retry loop cleans up after itself. For every body that leaves the manager
  alone, however its attempts end: the loop returns, uses at most \<open>max_retries + 1\<close> transaction ids,
  leaves no transaction of its own in progress and touches no older one; every attempt but a
  successful last one is aborted.\<close>

theorem run_with_retry_settles:
  assumes "keeps_mgr body" and "reg_inv (st_mgr st)"
    and "unat (reg_next (st_mgr st)) + max_retries + 1 < 2 ^ 64"
  shows "\<exists>r c' st'. run_with_retry max_retries body c st = (r, c', st') \<and>
    settled (st_mgr st) r (st_mgr st') \<and>
    unat (reg_next (st_mgr st')) \<le> unat (reg_next (st_mgr st)) + max_retries + 1"
proof -
  obtain r c' st' where run: "retry_loop body max_retries 0 c st = (r, c', st')"
    using prod_cases3 by blast
  from retry_loop_settled [OF assms(1,2) _ _ run] assms(3) run show ?thesis
    by (auto simp: run_with_retry_def)
qed

definition ex_body :: "(nat, int, nat, unit) occ_body" where
  "ex_body x s n st =
     (if n < 2 then (Inl (WriteConflict 1), n + 1, st) else (Inr (), n, store_put st x 7 10))"

theorem run_with_retry_settles_witness:
  "\<exists>r c' st'. run_with_retry 5 ex_body 0 (w_store init_world) = (r, c', st') \<and>
     settled mgr_new r (st_mgr st') \<and> unat (reg_next (st_mgr st')) \<le> 7"
proof -
  have "keeps_mgr ex_body"
    by (simp add: keeps_mgr_def ex_body_def)
  from run_with_retry_settles [OF this, of "w_store init_world" 5 0] show ?thesis
    using reg_inv_new by (simp add: init_world_def store_new_def mgr_new_def)
qed

lemma retry_loop_exhausts:
  assumes keep: "keeps_mgr body"
    and conf: "\<And>x s c st. \<exists>e. fst (body x s c st) = Inl e \<and> is_conflict e"
    and "a \<le> n"
  shows "fst (retry_loop body n a c st) = Inl (RetriesExhausted (n + 1))"
  using assms(3)
proof (induction "n - a" arbitrary: a c st rule: less_induct)
  case less
  let ?x = "reg_next (st_mgr st)"
  obtain m1 where bgn: "mgr_begin (st_mgr st) = (?x, m1)" and m1: "m1 = snd (mgr_begin (st_mgr st))"
    by (simp add: mgr_begin_def Let_def)
  obtain e c1 st1 where b: "body ?x (mgr_snapshot m1 ?x) c (st\<lparr>st_mgr := m1\<rparr>) = (Inl e, c1, st1)"
    and e: "is_conflict e"
    using conf [of ?x "mgr_snapshot m1 ?x" c "st\<lparr>st_mgr := m1\<rparr>"] by (metis prod.collapse)
  have mgr1: "st_mgr st1 = m1"
    using keep [unfolded keeps_mgr_def, rule_format, of ?x "mgr_snapshot m1 ?x" c "st\<lparr>st_mgr := m1\<rparr>"]
    by (simp add: b)
  note fin = begin_then_finish [of "st_mgr st", folded m1]
  show ?case
    unfolding retry_loop.simps [of body n a c st]
    using less.hyps [of "Suc a"] less.prems e
    by (auto simp: bgn b mgr1 mgr_abort_def fin)
qed

text \<open>Shown too. Contention is reported as such: when every attempt of the body ends in a conflict, the loop
  fails with \<open>RetriesExhausted\<close> after exactly \<open>max_retries + 1\<close> attempts, for any body whatever its
  conflicts.\<close>

theorem run_with_retry_exhausts:
  assumes "keeps_mgr body"
    and "\<And>x s c st. \<exists>e. fst (body x s c st) = Inl e \<and> is_conflict e"
  shows "fst (run_with_retry max_retries body c st) = Inl (RetriesExhausted (max_retries + 1))"
  using retry_loop_exhausts [OF assms] by (simp add: run_with_retry_def)

definition ex_conflict_body :: "(nat, int, unit, unit) occ_body" where
  "ex_conflict_body x s c st = (Inl (SerializationFailure (x - 1)), c, store_put st x 7 10)"

theorem run_with_retry_exhausts_witness:
  "fst (run_with_retry 3 ex_conflict_body () (w_store init_world)) = Inl (RetriesExhausted 4)"
  using run_with_retry_exhausts [of ex_conflict_body 3 "()" "w_store init_world"]
  by (simp add: keeps_mgr_def ex_conflict_body_def is_conflict_def)

text \<open>A body that works through its handle: it leaves the manager, the handle's id and level alone and
  does not finish the transaction itself.\<close>

definition works_through_handle :: "('k, 'v, 'c, 'a) txn_body \<Rightarrow> bool" where
  "works_through_handle body \<longleftrightarrow> (\<forall>tx c st.
     (case body tx c st of (r, tx', c', st') \<Rightarrow>
        st_mgr st' = st_mgr st \<and> t_xid tx' = t_xid tx \<and> t_level tx' = t_level tx \<and> t_done tx' = t_done tx))"

lemma txn_attempt_settled:
  assumes keep: "works_through_handle body" and reg: "reg_inv (st_mgr st)" and room: "reg_next (st_mgr st) \<noteq> u64_max"
    and run: "txn_attempt body level c st = (r, c', st')"
  shows "settled (st_mgr st) r (st_mgr st') \<and> reg_next (st_mgr st') = reg_next (st_mgr st) + 1"
proof -
  let ?m = "st_mgr st" and ?x = "reg_next (st_mgr st)"
  obtain m1 where bgn: "mgr_begin ?m = (?x, m1)" and m1: "m1 = snd (mgr_begin ?m)"
    by (simp add: mgr_begin_def Let_def)
  note fin = begin_then_finish [of ?m, folded m1] and one = settled_one [OF reg room, of r]
  obtain tx where tx: "begin_transaction st level = (tx, st\<lparr>st_mgr := m1\<rparr>)"
    and tx_x: "t_xid tx = ?x" and tx_done: "\<not> t_done tx"
    by (simp add: begin_transaction_def bgn)
  obtain r1 tx1 c1 st1 where b: "body tx c (st\<lparr>st_mgr := m1\<rparr>) = (r1, tx1, c1, st1)"
    using prod_cases4 by blast
  have k: "st_mgr st1 = m1" "t_xid tx1 = ?x" "\<not> t_done tx1"
    using keep [unfolded works_through_handle_def, rule_format, of "st\<lparr>st_mgr := m1\<rparr>" tx c] b tx_x tx_done
    by auto
  have commit: "st_mgr (snd (txn_commit st1 tx1)) =
      one_more ?m (if isl (fst (txn_commit st1 tx1)) then Aborted else Committed)"
    by (auto simp: txn_commit_def commit_serializable_def mgr_commit_def mgr_abort_def k fin
        split: option.split)
  have "st_mgr st' = one_more ?m (if isl r then Aborted else Committed)"
    using run commit
    by (cases r1)
      (auto simp: txn_attempt_def tx b k fin txn_drop_def best_effort_abort_def mgr_abort_def
        split: sum.splits prod.splits)
  with one show ?thesis by simp
qed

lemma settled_Inl: "isl r \<Longrightarrow> isl r' \<Longrightarrow> settled m r m' = settled m r' m'"
  by (simp add: settled_def)

lemma txn_loop_settled:
  fixes body :: "('k, 'v, 'c, 'a) txn_body"
  assumes "works_through_handle body" and "reg_inv (st_mgr st)" and "a \<le> n"
    and "unat (reg_next (st_mgr st)) + (n + 1 - a) < 2 ^ 64"
    and "txn_loop body level n a c st = (r, c', st')"
  shows "settled (st_mgr st) r (st_mgr st') \<and>
     unat (reg_next (st_mgr st')) \<le> unat (reg_next (st_mgr st)) + (n + 1 - a)"
  using assms(2-)
proof (induction "n - a" arbitrary: a c st rule: less_induct)
  case less
  let ?x = "reg_next (st_mgr st)"
  have x: "?x \<noteq> u64_max" "unat (?x + 1) = unat ?x + 1"
    using less.prems unat_plus_one [of ?x] by auto
  obtain r1 c1 st1 where att: "txn_attempt body level c st = (r1, c1, st1)"
    using prod_cases3 by blast
  note s1 = txn_attempt_settled [OF assms(1) less.prems(1) x(1) att]
  show ?case
  proof (cases "\<exists>e. r1 = Inl e \<and> is_conflict e \<and> Suc a \<le> n")
    case True
    then obtain e where e: "r1 = Inl e" "is_conflict e" "Suc a \<le> n" by blast
    then have rest: "txn_loop body level n (Suc a) c1 st1 = (r, c', st')"
      using less.prems(4) unfolding txn_loop.simps [of body level n a c st] by (simp add: att)
    have "settled (st_mgr st1) r (st_mgr st') \<and>
        unat (reg_next (st_mgr st')) \<le> unat (reg_next (st_mgr st1)) + (n + 1 - Suc a)"
      using less.hyps [of "Suc a" st1 c1] less.prems e s1 x rest by (auto simp: settled_def)
    with settled_trans [of _ e] s1 e x show ?thesis by (auto simp: Suc_diff_le)
  next
    case False
    then have "st' = st1" and "isl r = isl r1 \<and> (\<not> isl r1 \<longrightarrow> r = r1)"
      using less.prems(4) unfolding txn_loop.simps [of body level n a c st]
      by (auto simp: att split: sum.splits if_splits)
    with s1 x less.prems(2) show ?thesis
      by (auto simp: settled_def)
  qed
qed

text \<open>C24. The same for \<open>run_transaction\<close>, at every isolation level: the loop returns, uses at most
  \<open>max_retries + 1\<close> ids, commits exactly one transaction when it succeeds and none when it fails, and
  leaves none of its transactions in progress, whether an attempt ended by a conflict, by a refused
  serializable commit or by an error of the body.\<close>

theorem run_transaction_settles:
  assumes "works_through_handle body" and "reg_inv (st_mgr st)"
    and "unat (reg_next (st_mgr st)) + max_retries + 1 < 2 ^ 64"
  shows "\<exists>r c' st'. run_transaction st level max_retries body c = (r, c', st') \<and>
    settled (st_mgr st) r (st_mgr st') \<and>
    unat (reg_next (st_mgr st')) \<le> unat (reg_next (st_mgr st)) + max_retries + 1"
proof -
  obtain r c' st' where run: "txn_loop body level max_retries 0 c st = (r, c', st')"
    using prod_cases3 by blast
  from txn_loop_settled [OF assms(1,2) _ _ run] assms(3) run show ?thesis
    by (auto simp: run_transaction_def)
qed

definition ex_txn_body :: "(nat, int, unit, int option) txn_body" where
  "ex_txn_body tx c st =
     (let (v, tx1) = txn_get st tx 7; (r, tx2, st2) = txn_put st tx1 7 10 in
      case r of Inl e \<Rightarrow> (Inl e, tx2, c, st2) | Inr _ \<Rightarrow> (Inr v, tx2, c, st2))"

lemma handle_ops_keep [simp]:
  "t_xid (before_statement st tx) = t_xid tx" "t_level (before_statement st tx) = t_level tx"
  "t_done (before_statement st tx) = t_done tx"
  by (simp_all add: before_statement_def)

theorem run_transaction_settles_witness:
  "\<exists>r c' st'. run_transaction (w_store init_world) Serializable 5 ex_txn_body () = (r, c', st') \<and>
     settled mgr_new r (st_mgr st') \<and> unat (reg_next (st_mgr st')) \<le> 7"
proof -
  have "works_through_handle ex_txn_body"
    unfolding works_through_handle_def
    by (auto simp: ex_txn_body_def txn_get_def txn_put_def Let_def store_put_checked_cases
        split: option.splits sum.splits prod.splits)
  from run_transaction_settles [OF this, of "w_store init_world" 5 Serializable "()"] show ?thesis
    using reg_inv_new by (simp add: init_world_def store_new_def mgr_new_def)
qed

text \<open>Shown too. Under Read Committed a write conflicts only with a transaction in flight: its snapshot is
  taken afresh, so no committed transaction can be the reported winner.\<close>

theorem read_committed_conflict_in_flight:
  assumes "reachable w" and "t_level tx = ReadCommitted"
    and "txn_put (w_store w) tx k a = (Inl e, tx', st')"
  shows "\<exists>y. e = WriteConflict y \<and> running (w_mgr w) y \<and> y \<noteq> t_xid tx \<and> st' = w_store w"
proof -
  let ?m = "w_mgr w" and ?c = "w_chain w k" and ?s = "mgr_snapshot (w_mgr w) (t_xid tx)"
  have reg: "reg_inv ?m" and shape: "chain_shape ?m ?c"
    using reachable_inv [OF assms(1)] reachable_chain_shape [OF assms(1)] by (auto simp: world_inv_def)
  obtain y where y: "conflicting_writer ?m ?c (t_xid tx) ?s = Some y"
    and e: "e = WriteConflict y" and st': "st' = w_store w"
    using assms(2,3)
    by (auto simp: txn_put_def Let_def before_statement_def refreshes_snapshot_per_statement_def
        store_put_checked_cases split: option.splits)
  have d: "y = decider (last ?c)" "?c \<noteq> []" "y \<noteq> t_xid tx" "\<not> sees_effect ?s y ?m" "mgr_status ?m y \<noteq> Aborted"
    using y by (auto simp: conflicting_writer_def Let_def split: if_splits)
  then have "y < reg_next ?m" and y0: "y \<noteq> INVALID_XID"
    using decider_in_marks [OF shape] shape by (auto simp: chain_shape_def marks_def marks_of_def)
  have "running ?m y"
  proof (rule ccontr)
    assume nr: "\<not> running ?m y"
    then have "mgr_status ?m y = Committed"
      using reg \<open>y < reg_next ?m\<close> y0 d(5) by (intro finished_committed)
    then show False
      using d(4) nr y0 \<open>y < reg_next ?m\<close> by (auto simp: sees_effect_def mgr_snapshot_def split: if_splits)
  qed
  with d e st' show ?thesis by blast
qed

definition ex_rc_txn :: "nat txn" where
  "ex_rc_txn =
     \<lparr>t_xid = 2, t_level = ReadCommitted, t_snapshot = mgr_snapshot mgr_new 2, t_reads = [], t_done = False\<rparr>"

theorem read_committed_conflict_in_flight_witness:
  "\<exists>y. fst (txn_put (w_store (world_after ex_two_writers)) ex_rc_txn 7 20) = Inl (WriteConflict y) \<and>
     running (w_mgr (world_after ex_two_writers)) y"
proof -
  let ?st = "w_store (world_after ex_two_writers)"
  have err: "fst (txn_put ?st ex_rc_txn 7 20) = Inl (WriteConflict 1)"
    by code_simp
  then obtain tx' st' where put: "txn_put ?st ex_rc_txn 7 20 = (Inl (WriteConflict 1), tx', st')"
    by (metis prod.collapse)
  have "t_level ex_rc_txn = ReadCommitted"
    by (simp add: ex_rc_txn_def)
  from read_committed_conflict_in_flight [OF world_after_reachable this put] err show ?thesis by auto
qed

text \<open>Shown too. A transaction reads its own writes at every isolation level: after a put that succeeded, a get
  of the same key through the handle returns the value put, whether the level takes a fresh snapshot
  for the read or keeps the first one.\<close>

theorem read_your_writes:
  assumes "t_xid tx \<noteq> INVALID_XID" and "s_my_xid (t_snapshot tx) = t_xid tx"
    and "txn_put st tx k a = (Inr (), tx', st')"
  shows "fst (txn_get st' tx' k) = Some a"
proof -
  have tx': "tx' = before_statement st tx" and st': "st' = store_put st (t_xid tx) k a"
    using assms(3) by (auto simp: txn_put_def Let_def store_put_checked_cases split: option.splits)
  let ?s = "t_snapshot (snd (txn_get st' tx' k))"
  have "s_my_xid ?s = t_xid tx"
    using assms(2)
    by (simp add: tx' txn_get_def Let_def before_statement_def mgr_snapshot_def)
  then have "chain_get (\<lambda>x. sees_effect ?s x (st_mgr st)) (chain_put (t_xid tx) a (entry_or_default (st_chains st) k)) = Some a"
    using txn_vis.get_put_own [of ?s "st_mgr st" a] assms(1) by simp
  then have "store_get st' k ?s = Some a"
    by (simp add: st' store_get_chain)
  then show ?thesis
    by (simp add: txn_get_def Let_def)
qed

theorem read_your_writes_witness:
  "fst (txn_put (w_store (world_after ex_seed_checked)) (ex_rc_txn\<lparr>t_level := Serializable\<rparr>) 8 20) = Inr () \<and>
   fst (txn_get (snd (snd (txn_put (w_store (world_after ex_seed_checked)) (ex_rc_txn\<lparr>t_level := Serializable\<rparr>) 8 20)))
     (fst (snd (txn_put (w_store (world_after ex_seed_checked)) (ex_rc_txn\<lparr>t_level := Serializable\<rparr>) 8 20))) 8) = Some 20"
proof -
  let ?p = "txn_put (w_store (world_after ex_seed_checked)) (ex_rc_txn\<lparr>t_level := Serializable\<rparr>) 8 20"
  have ok: "fst ?p = Inr ()"
    by code_simp
  then have p: "?p = (Inr (), fst (snd ?p), snd (snd ?p))"
    by (metis prod.collapse)
  from read_your_writes [OF _ _ p] ok show ?thesis
    by (simp add: ex_rc_txn_def INVALID_XID_def mgr_snapshot_def)
qed

section \<open>What the checks let through\<close>

definition ex_delete_after_abort :: "(nat, int) mvcc_op list" where
  "ex_delete_after_abort =
     [OpBegin, OpPut 1 7 10, OpCommit 1, OpBegin, OpPut 2 7 20, OpAbort 2, OpBegin]"

text \<open>Shown too. A delete that follows an aborted update does not delete. Transaction 1 commits the value 10
  for key 7, transaction 2 updates it to 20 and aborts, transaction 3 deletes the key and commits: the
  delete reports success, but it only retired the aborted version, and a fresh snapshot still reads 10.
  (The aborted update left its id as the \<open>xmax\<close> of the old version, so no later write can retire
  it.)\<close>

theorem delete_after_abort_ineffective:
  "fst (store_delete (w_store (world_after ex_delete_after_abort)) 3 7) \<and>
   (let w = world_after (ex_delete_after_abort @ [OpDelete 3 7, OpCommit 3]) in
      mgr_status (w_mgr w) 3 = Committed \<and> store_get (w_store w) 7 (mgr_snapshot (w_mgr w) 0) = Some 10)"
  by code_simp

definition ex_aborted_head :: "(nat, int) mvcc_op list" where
  "ex_aborted_head =
     [OpBegin, OpPut 1 7 10, OpCommit 1, OpBegin, OpSnapshot 2, OpBegin, OpSnapshot 3,
      OpPutChecked 0 7 30, OpCommit 3, OpBegin, OpSnapshot 4, OpPutChecked 0 7 40, OpAbort 4]"

text \<open>Shown too. A lost update through an aborted head. Transactions 2 and 3 start from the same state of key 7;
  3 updates it with a checked put and commits; 4 updates it and aborts. The checked put of 2 then
  succeeds although its snapshot still reads the old value 10: only the newest version is inspected, and
  an aborted decider there hides the committed, unseen update below it.\<close>

theorem aborted_head_lost_update:
  "let w = world_after ex_aborted_head; s = w_snaps w ! 2 in
     s_my_xid s = 2 \<and> running (w_mgr w) 2 \<and> store_get (w_store w) 7 s = Some 10 \<and>
     store_get (w_store w) 7 (mgr_snapshot (w_mgr w) 0) = Some 30 \<and>
     fst (store_put_checked (w_store w) 2 s 7 20) = Inr ()"
  by code_simp

definition ex_hidden_commit :: "(nat, int) mvcc_op list" where
  "ex_hidden_commit =
     [OpBegin, OpPut 1 7 10, OpCommit 1, OpBegin, OpSnapshot 2, OpBegin, OpSnapshot 3,
      OpPutChecked 0 7 30, OpCommit 3, OpBegin, OpSnapshot 4, OpPutChecked 0 7 40]"

text \<open>Shown too. A serializable commit with a stale read. Transaction 2 reads key 7, transaction 3 updates it
  and commits, transaction 4 then updates it and is still running when 2 commits: validation looks at
  the newest version only, whose decider is not committed, and accepts the commit although the value 2
  read was overwritten by a committed transaction it does not see.\<close>

theorem in_flight_head_stale_commit:
  "let w = world_after ex_hidden_commit; s = w_snaps w ! 2 in
     s_my_xid s = 2 \<and> store_get (w_store w) 7 s = Some 10 \<and>
     mgr_status (w_mgr w) 3 = Committed \<and> \<not> sees_effect s 3 (w_mgr w) \<and>
     fst (commit_serializable (w_store w) 2 s [7]) = Inr ()"
  by code_simp

definition ex_untracked :: "(nat, int) mvcc_op list" where
  "ex_untracked = [OpBegin, OpPut 1 7 10, OpCommit 1, OpBegin]"

text \<open>Shown too. A snapshot-isolation transaction is not protected from the collector: its snapshot is not
  registered with the manager, so the horizon may pass its \<open>xmin\<close>. Transaction 2 is running when 3
  takes its snapshot; 2 updates key 7 and commits, a vacuum pass at the horizon the manager gives then
  removes the version 3 has been reading, and the value changes from 10 to nothing.\<close>

theorem vacuum_breaks_untracked_transaction:
  "let (tx, st) = begin_transaction (w_store (world_after ex_untracked)) SnapshotIsolation;
       st2 = store_put st 2 7 20 in
     fst (txn_get st2 tx 7) = Some 10 \<and> running (st_mgr st2) (t_xid tx) \<and>
     (case mgr_commit (st_mgr st2) 2 of
        Inl _ \<Rightarrow> False
      | Inr m \<Rightarrow> fst (txn_get (snd (vacuum_to_horizon (st2\<lparr>st_mgr := m\<rparr>))) tx 7) = None)"
  by code_simp

end
