(* ===== verification/Mvcc_Gc.thy ===== *)
theory Mvcc_Gc
  imports Mvcc_World
begin

text \<open>
  The vacuum worker of \<^verbatim>\<open>src/src/mvcc/gc.rs\<close> and the bookkeeping of a vacuum pass.

  The worker's loop is a function of what each iteration observes: the stop flag after the timed wait,
  and the store as the other threads have left it by then. Thread start, the condition variable and the
  join are not modelled.
\<close>

section \<open>The worker\<close>

record gc_shared =
  gc_stop :: bool
  gc_reclaimed_total :: u64
  gc_cycles :: u64

definition gc_spawn :: gc_shared where
  "gc_spawn = \<lparr>gc_stop = False, gc_reclaimed_total = 0, gc_cycles = 0\<rparr>"

definition gc_shutdown :: "gc_shared \<Rightarrow> gc_shared" where
  "gc_shutdown sh = sh\<lparr>gc_stop := True\<rparr>"

definition gc_cycle :: "gc_shared \<Rightarrow> ('k, 'v) vstore \<Rightarrow> gc_shared \<times> ('k, 'v) vstore" where
  "gc_cycle sh st =
     (let (report, st') = vacuum_to_horizon st in
      (sh\<lparr>gc_reclaimed_total := gc_reclaimed_total sh + of_nat (reclaimed_versions report),
          gc_cycles := gc_cycles sh + 1\<rparr>, st'))"

text \<open>\<open>gc_run sh obs\<close>: one observation per iteration; \<open>(True, _)\<close> is a shutdown seen before or
  during the wait. The result is the counters and the stores the vacuum passes left.\<close>

fun gc_run :: "gc_shared \<Rightarrow> (bool \<times> ('k, 'v) vstore) list \<Rightarrow> gc_shared \<times> ('k, 'v) vstore list" where
  "gc_run sh [] = (sh, [])"
| "gc_run sh ((stopped, st) # obs) =
     (if stopped then (sh, [])
      else let (sh1, st1) = gc_cycle sh st;
               (sh2, sts) = gc_run sh1 obs
           in (sh2, st1 # sts))"

section \<open>What a vacuum pass does\<close>

definition stored_versions :: "('k, 'v) vstore \<Rightarrow> nat" where
  "stored_versions st = (\<Sum>k \<in> fset (fmdom (st_chains st)). version_count st k)"

abbreviation emptied_by :: "('k, 'v) vstore \<Rightarrow> xid \<Rightarrow> 'k fset" where
  "emptied_by st h \<equiv>
     ffilter (\<lambda>k. kept_versions (st_mgr st) h (entry_or_default (st_chains st) k) = []) (fmdom (st_chains st))"

lemma vacuum_lookup:
  "fmlookup (st_chains (snd (store_vacuum st h))) k =
     (if k |\<in>| fmdom (st_chains st) |-| emptied_by st h
      then Some (kept_versions (st_mgr st) h (entry_or_default (st_chains st) k)) else None)"
  by (auto simp: store_vacuum_def Let_def entry_or_default_def fmlookup_dom_iff)

lemma vacuum_dom: "fmdom (st_chains (snd (store_vacuum st h))) = fmdom (st_chains st) |-| emptied_by st h"
  by (rule fset_eqI) (auto simp: fmlookup_dom_iff vacuum_lookup)

lemma version_count_entry: "version_count st k = length (entry_or_default (st_chains st) k)"
  by (simp add: version_count_def entry_or_default_def split: option.split)

lemma stored_versions_superset:
  assumes "fmdom (st_chains st) |\<subseteq>| K"
  shows "stored_versions st = (\<Sum>k \<in> fset K. version_count st k)"
  unfolding stored_versions_def using assms
  by (intro sum.mono_neutral_left)
    (auto simp: version_count_def fmlookup_dom_iff less_eq_fset.rep_eq split: option.split)

lemma reclaimed_split:
  "length (filter (\<lambda>v. is_reclaimable v h m) c) + length (kept_versions m h c) = length c"
  by (simp add: kept_versions_def sum_length_filter_compl)

lemma reclaimed_versions_sum:
  "reclaimed_versions (fst (store_vacuum st h)) =
     (\<Sum>k \<in> fset (fmdom (st_chains st)).
        length (filter (\<lambda>v. is_reclaimable v h (st_mgr st)) (entry_or_default (st_chains st) k)))"
  by (simp add: store_vacuum_def Let_def entry_or_default_def)
    (intro sum.cong; force simp: fmlookup_dom_iff split: option.split)

text \<open>Shown too. The report of a vacuum pass is exact: the versions it says it reclaimed and the versions left
  add up to the versions there were, and the keys it says it emptied are those it removed.\<close>

theorem vacuum_report_exact:
  "reclaimed_versions (fst (store_vacuum st h)) + stored_versions (snd (store_vacuum st h)) = stored_versions st \<and>
   emptied_keys (fst (store_vacuum st h)) + fcard (fmdom (st_chains (snd (store_vacuum st h)))) =
     fcard (fmdom (st_chains st))"
proof
  let ?st' = "snd (store_vacuum st h)" and ?K = "fmdom (st_chains st)"
  have "stored_versions ?st' = (\<Sum>k \<in> fset ?K. version_count ?st' k)"
    by (rule stored_versions_superset) (auto simp: vacuum_dom)
  then show "reclaimed_versions (fst (store_vacuum st h)) + stored_versions ?st' = stored_versions st"
    by (simp add: reclaimed_versions_sum stored_versions_def version_count_entry
        sum.distrib [symmetric] reclaimed_split)
  have "emptied_keys (fst (store_vacuum st h)) = fcard (emptied_by st h)"
    by (auto simp: store_vacuum_def Let_def entry_or_default_def fmlookup_dom_iff
        intro!: arg_cong [where f = fcard])
  moreover have "fcard (?K |-| emptied_by st h) = fcard ?K - fcard (emptied_by st h)"
    by (rule fcard_funion_fsubset) auto
  moreover have "fcard (emptied_by st h) \<le> fcard ?K"
    by (rule fcard_mono) auto
  ultimately show "emptied_keys (fst (store_vacuum st h)) + fcard (fmdom (st_chains ?st')) = fcard ?K"
    by (simp add: vacuum_dom)
qed

lemma kept_versions_twice: "kept_versions m h (kept_versions m h c) = kept_versions m h c"
  by (simp add: kept_versions_def)

text \<open>Shown too. A second pass at the same horizon finds nothing: it reclaims no version, empties no key and
  leaves the store as it is.\<close>

theorem vacuum_idempotent:
  "store_vacuum (snd (store_vacuum st h)) h =
     (\<lparr>reclaimed_versions = 0, emptied_keys = 0\<rparr>, snd (store_vacuum st h))"
proof -
  let ?st' = "snd (store_vacuum st h)"
  have chains: "st_chains (snd (store_vacuum ?st' h)) = st_chains ?st'"
    by (rule fmap_ext) (auto simp: vacuum_lookup vacuum_dom kept_versions_twice)
  then have same: "snd (store_vacuum ?st' h) = ?st'"
    by (intro vstore.equality) auto
  have "reclaimed_versions (fst (store_vacuum ?st' h)) = 0"
    by (auto simp: reclaimed_versions_sum kept_versions_def filter_empty_conv)
  moreover have "emptied_keys (fst (store_vacuum ?st' h)) = 0"
    by (auto simp: store_vacuum_def [of ?st'] Let_def vacuum_lookup vacuum_dom kept_versions_twice)
  ultimately show ?thesis
    using same by (intro prod_eqI) (auto intro: vacuum_report.equality)
qed

definition passes_of :: "(bool \<times> ('k, 'v) vstore) list \<Rightarrow> ('k, 'v) vstore list" where
  "passes_of obs = map snd (takeWhile (Not \<circ> fst) obs)"

lemma gc_run_from:
  "gc_run sh obs =
    (sh\<lparr>gc_reclaimed_total := gc_reclaimed_total sh +
           of_nat (\<Sum>st \<leftarrow> passes_of obs. reclaimed_versions (fst (vacuum_to_horizon st))),
         gc_cycles := gc_cycles sh + of_nat (length (passes_of obs))\<rparr>,
     map (snd \<circ> vacuum_to_horizon) (passes_of obs))"
proof (induction sh obs rule: gc_run.induct)
  case (2 sh stopped st obs)
  then show ?case
    by (auto simp: passes_of_def gc_cycle_def Let_def case_prod_beta ac_simps)
qed (simp add: passes_of_def)

text \<open>Shown too. The worker's counters are the history of its passes: after any number of iterations, up to
  the first that sees the stop flag, \<open>cycles\<close> counts the passes and \<open>reclaimed_total\<close> is the sum of
  their reports, both modulo \<open>2^64\<close>, and no pass follows the stop.\<close>

theorem gc_worker_counts:
  "gc_run gc_spawn obs =
    (\<lparr>gc_stop = False,
      gc_reclaimed_total = of_nat (\<Sum>st \<leftarrow> passes_of obs. reclaimed_versions (fst (vacuum_to_horizon st))),
      gc_cycles = of_nat (length (passes_of obs))\<rparr>,
     map (snd \<circ> vacuum_to_horizon) (passes_of obs))"
  by (simp add: gc_run_from gc_spawn_def)

end
