(* ===== verification/Hlc.thy ===== *)
theory Hlc
  imports Drevo_Prelude
begin

text \<open>
  The hybrid logical clock of \<^verbatim>\<open>src/drevo-core/src/hlc.rs\<close> and the write stamps of
  \<^verbatim>\<open>src/drevo-core/src/lww.rs\<close> (\<open>OriginId\<close>, \<open>Stamp\<close>).

  \<open>i64\<close> milliseconds are integers; the one place where the code does arithmetic on them saturates, which
  is written out. The counter is a 32-bit word. The derived \<open>Ord\<close> of both structs is the lexicographic
  order of their fields, given here as \<open>linorder\<close> instances. The wall clock is an argument of every step.

  Results: when a step issues a strictly greater timestamp (always, except from the greatest timestamp
  there is), that timestamps respect causality over any exchange of messages between any number of
  peers, and that no two writes carry the same stamp.
\<close>

section \<open>Timestamps\<close>

abbreviation u32_max :: u32 where "u32_max \<equiv> - 1"

definition i64_saturating_add :: "int \<Rightarrow> int \<Rightarrow> int" where
  "i64_saturating_add a b = max i64_min (min i64_max (a + b))"

definition u32_checked_add :: "u32 \<Rightarrow> u32 \<Rightarrow> u32 option" where
  "u32_checked_add a b = (if a + b < a then None else Some (a + b))"

datatype hlc = Hlc (wall_ms: int) (counter: u32)

instantiation hlc :: linorder
begin

definition less_eq_hlc :: "hlc \<Rightarrow> hlc \<Rightarrow> bool" where
  "less_eq_hlc a b \<longleftrightarrow> wall_ms a < wall_ms b \<or> wall_ms a = wall_ms b \<and> counter a \<le> counter b"

definition less_hlc :: "hlc \<Rightarrow> hlc \<Rightarrow> bool" where
  "less_hlc a b \<longleftrightarrow> wall_ms a < wall_ms b \<or> wall_ms a = wall_ms b \<and> counter a < counter b"

instance
  by standard (auto simp: less_eq_hlc_def less_hlc_def hlc.expand)

end

definition hlc_default :: hlc where
  "hlc_default = Hlc 0 0"

definition bump_same_wall :: "int \<Rightarrow> u32 \<Rightarrow> hlc" where
  "bump_same_wall wall base_counter =
     (case u32_checked_add base_counter 1 of
        Some c \<Rightarrow> Hlc wall c
      | None \<Rightarrow> Hlc (i64_saturating_add wall 1) 0)"

section \<open>The clock\<close>

record hlc_clock =
  last_hlc :: hlc

definition clock_new :: hlc_clock where
  "clock_new = \<lparr>last_hlc = hlc_default\<rparr>"

definition clock_from_last :: "hlc \<Rightarrow> hlc_clock" where
  "clock_from_last l = \<lparr>last_hlc = l\<rparr>"

definition clock_tick :: "hlc_clock \<Rightarrow> int \<Rightarrow> hlc \<times> hlc_clock" where
  "clock_tick c physical_ms =
     (let prev = last_hlc c;
          wall = max (wall_ms prev) physical_ms;
          l = (if wall = wall_ms prev then bump_same_wall wall (counter prev) else Hlc wall 0)
      in (l, c\<lparr>last_hlc := l\<rparr>))"

definition clock_update :: "hlc_clock \<Rightarrow> hlc \<Rightarrow> int \<Rightarrow> hlc \<times> hlc_clock" where
  "clock_update c remote physical_ms =
     (let prev = last_hlc c;
          wall = max (max (wall_ms prev) (wall_ms remote)) physical_ms;
          l = (if wall = wall_ms prev \<and> wall = wall_ms remote
               then bump_same_wall wall (max (counter prev) (counter remote))
               else if wall = wall_ms prev then bump_same_wall wall (counter prev)
               else if wall = wall_ms remote then bump_same_wall wall (counter remote)
               else Hlc wall 0)
      in (l, c\<lparr>last_hlc := l\<rparr>))"

section \<open>Stamps\<close>

type_synonym origin_id = u64

datatype stamp = Stamp (stamp_hlc: hlc) (stamp_origin: origin_id)

instantiation stamp :: linorder
begin

definition less_eq_stamp :: "stamp \<Rightarrow> stamp \<Rightarrow> bool" where
  "less_eq_stamp a b \<longleftrightarrow>
     stamp_hlc a < stamp_hlc b \<or> stamp_hlc a = stamp_hlc b \<and> stamp_origin a \<le> stamp_origin b"

definition less_stamp :: "stamp \<Rightarrow> stamp \<Rightarrow> bool" where
  "less_stamp a b \<longleftrightarrow>
     stamp_hlc a < stamp_hlc b \<or> stamp_hlc a = stamp_hlc b \<and> stamp_origin a < stamp_origin b"

instance
  by standard (auto simp: less_eq_stamp_def less_stamp_def stamp.expand)

end

section \<open>A step issues a greater timestamp\<close>

text \<open>The greatest timestamp, after which the clock has nothing to issue.\<close>

definition hlc_top :: hlc where
  "hlc_top = Hlc i64_max u32_max"

definition hlc_ok :: "hlc \<Rightarrow> bool" where
  "hlc_ok t \<longleftrightarrow> in_i64 (wall_ms t)"

lemma u32_checked_add_one: "u32_checked_add c 1 = (if c = u32_max then None else Some (c + 1))"
proof (cases "c = u32_max")
  case True
  have "(0::u32) < u32_max"
    by (simp add: word_gt_0)
  with True show ?thesis by (simp add: u32_checked_add_def)
next
  case False
  with word_plus_one_gt [OF False] show ?thesis
    by (simp add: u32_checked_add_def order_less_not_sym)
qed

lemma bump_gt_iff:
  assumes "hlc_ok (Hlc w c)"
  shows "Hlc w c < bump_same_wall w c \<longleftrightarrow> Hlc w c \<noteq> hlc_top"
  using assms
  by (auto simp: bump_same_wall_def u32_checked_add_one less_hlc_def hlc_top_def hlc_ok_def in_i64_def
      i64_saturating_add_def)

lemma bump_ok: "hlc_ok (Hlc w c) \<Longrightarrow> hlc_ok (bump_same_wall w c)"
  by (auto simp: bump_same_wall_def hlc_ok_def in_i64_def i64_saturating_add_def split: option.split)

text \<open>A local event is the receipt of the clock's own last timestamp, and a receipt bumps the greater of
  the two timestamps when physical time is not ahead of both.\<close>

lemma update_cases:
  "fst (clock_update c r p) =
     (let m = max (last_hlc c) r in if p \<le> wall_ms m then bump_same_wall (wall_ms m) (counter m) else Hlc p 0)"
proof (cases "last_hlc c"; cases r)
  fix w1 c1 w2 c2
  assume "last_hlc c = Hlc w1 c1" and "r = Hlc w2 c2"
  then show ?thesis
    by (cases w1 w2 rule: linorder_cases; cases c1 c2 rule: linorder_cases)
      (auto simp: clock_update_def Let_def max_def less_eq_hlc_def)
qed

lemma tick_update: "fst (clock_tick c p) = fst (clock_update c (last_hlc c) p)"
  by (auto simp: clock_tick_def clock_update_def Let_def)

lemma clock_last:
  "last_hlc (snd (clock_tick c p)) = fst (clock_tick c p)"
  "last_hlc (snd (clock_update c r p)) = fst (clock_update c r p)"
  by (simp_all add: clock_tick_def clock_update_def Let_def)

lemma hlc_ok_max: "hlc_ok a \<Longrightarrow> hlc_ok b \<Longrightarrow> hlc_ok (max a b)"
  by (simp add: max_def)

lemma update_ok: "hlc_ok (last_hlc c) \<Longrightarrow> hlc_ok r \<Longrightarrow> in_i64 p \<Longrightarrow> hlc_ok (fst (clock_update c r p))"
  using bump_ok [of "wall_ms (max (last_hlc c) r)" "counter (max (last_hlc c) r)"]
  by (auto simp: update_cases Let_def hlc_ok_max) (simp add: hlc_ok_def)

lemma update_gt_iff:
  assumes "hlc_ok (last_hlc c)" and "hlc_ok r" and "in_i64 p"
  shows "max (last_hlc c) r < fst (clock_update c r p) \<longleftrightarrow> max (last_hlc c) r \<noteq> hlc_top"
proof -
  let ?m = "max (last_hlc c) r"
  have "hlc_ok ?m"
    using assms by (intro hlc_ok_max)
  then show ?thesis
    using bump_gt_iff [of "wall_ms ?m" "counter ?m"] assms(3)
    by (auto simp: update_cases Let_def less_hlc_def hlc_top_def in_i64_def)
qed

section \<open>Peers that exchange messages\<close>

text \<open>
  A network of peers, each with its own clock, as the replicas of the database are: a peer stamps a
  local write, or observes a stamp it has received, that is, one of the log of all stamped events. For
  every event the log keeps its stamp and its causal past: the stamps of the events before it at the
  same peer and of those a received event depended on.
\<close>

record peers =
  p_clock :: "origin_id \<Rightarrow> hlc_clock"
  p_past :: "origin_id \<Rightarrow> stamp list"
  p_log :: "(stamp \<times> stamp list) list"

datatype peer_event =
    LocalWrite origin_id int
  | Receive origin_id nat int

definition peers_new :: peers where
  "peers_new = \<lparr>p_clock = (\<lambda>_. clock_new), p_past = (\<lambda>_. []), p_log = []\<rparr>"

definition log_event :: "peers \<Rightarrow> origin_id \<Rightarrow> hlc \<times> hlc_clock \<Rightarrow> stamp list \<Rightarrow> peers" where
  "log_event ps p issued past =
     (let s = Stamp (fst issued) p in
      ps\<lparr>p_clock := (p_clock ps)(p := snd issued),
         p_past := (p_past ps)(p := s # past),
         p_log := p_log ps @ [(s, past)]\<rparr>)"

fun peer_step :: "peers \<Rightarrow> peer_event \<Rightarrow> peers" where
  "peer_step ps (LocalWrite p phys) =
     log_event ps p (clock_tick (p_clock ps p) phys) (p_past ps p)"
| "peer_step ps (Receive p i phys) =
     (if i < length (p_log ps)
      then let (s, past) = p_log ps ! i in
        log_event ps p (clock_update (p_clock ps p) (stamp_hlc s) phys) (s # past @ p_past ps p)
      else ps)"

definition peer_run :: "peer_event list \<Rightarrow> peers" where
  "peer_run evs = foldl peer_step peers_new evs"

fun physical_time :: "peer_event \<Rightarrow> int" where
  "physical_time (LocalWrite p phys) = phys"
| "physical_time (Receive p i phys) = phys"

abbreviation below_top :: "peers \<Rightarrow> bool" where
  "below_top ps \<equiv> (\<forall>(s, past) \<in> set (p_log ps). stamp_hlc s \<noteq> hlc_top)"

text \<open>A clock is at or above everything its peer knows of, and every event is above its past.\<close>

definition entry_ok :: "(origin_id \<Rightarrow> hlc_clock) \<Rightarrow> stamp \<times> stamp list \<Rightarrow> bool" where
  "entry_ok ck e \<longleftrightarrow> hlc_ok (stamp_hlc (fst e)) \<and> stamp_hlc (fst e) \<noteq> hlc_top \<and>
     stamp_hlc (fst e) \<le> last_hlc (ck (stamp_origin (fst e))) \<and>
     (\<forall>x \<in> set (snd e). stamp_hlc x < stamp_hlc (fst e))"

definition peers_inv :: "peers \<Rightarrow> bool" where
  "peers_inv ps \<longleftrightarrow>
     (\<forall>p. hlc_ok (last_hlc (p_clock ps p)) \<and> last_hlc (p_clock ps p) \<noteq> hlc_top) \<and>
     (\<forall>p. \<forall>s \<in> set (p_past ps p). stamp_hlc s \<le> last_hlc (p_clock ps p)) \<and>
     (\<forall>e \<in> set (p_log ps). entry_ok (p_clock ps) e) \<and>
     distinct (map fst (p_log ps))"

lemma peers_inv_new: "peers_inv peers_new"
  by (simp add: peers_inv_def peers_new_def clock_new_def hlc_default_def hlc_ok_def in_i64_def hlc_top_def)

lemma entry_ok_advance:
  "entry_ok ck e \<Longrightarrow> last_hlc (ck p) \<le> last_hlc c \<Longrightarrow> entry_ok (ck(p := c)) e"
  by (auto simp: entry_ok_def)

lemma peers_inv_log_event:
  assumes inv: "peers_inv ps" and c: "last_hlc c = t"
    and gt: "last_hlc (p_clock ps p) < t" and past: "\<forall>x \<in> set past. stamp_hlc x < t"
    and ok: "hlc_ok t" and top: "t \<noteq> hlc_top"
  shows "peers_inv (log_event ps p (t, c) past)"
proof -
  have entries: "entry_ok (p_clock ps) e" if "e \<in> set (p_log ps)" for e
    using inv that by (simp add: peers_inv_def)
  have "Stamp t p \<notin> fst ` set (p_log ps)"
  proof
    assume "Stamp t p \<in> fst ` set (p_log ps)"
    then obtain e where "e \<in> set (p_log ps)" and "fst e = Stamp t p"
      by force
    with entries [of e] gt show False by (auto simp: entry_ok_def dest: leD)
  qed
  moreover have "entry_ok ((p_clock ps)(p := c)) e" if "e \<in> set (p_log ps)" for e
    using entries [OF that] gt c by (intro entry_ok_advance) auto
  moreover have "entry_ok ((p_clock ps)(p := c)) (Stamp t p, past)"
    using ok top past c by (simp add: entry_ok_def)
  ultimately show ?thesis
    using inv past ok top c
    by (auto simp: peers_inv_def log_event_def Let_def intro: order_less_imp_le)
qed

lemma peer_step_inv:
  assumes inv: "peers_inv ps" and phys: "in_i64 (physical_time ev)" and top: "below_top (peer_step ps ev)"
  shows "peers_inv (peer_step ps ev)"
proof (cases ev)
  case (LocalWrite p phys)
  let ?c = "p_clock ps p"
  have c: "hlc_ok (last_hlc ?c)" "last_hlc ?c \<noteq> hlc_top" "\<forall>s \<in> set (p_past ps p). stamp_hlc s \<le> last_hlc ?c"
    using inv by (auto simp: peers_inv_def)
  have p: "in_i64 phys"
    using phys LocalWrite by simp
  have "last_hlc ?c < fst (clock_tick ?c phys)" and "hlc_ok (fst (clock_tick ?c phys))"
    using update_gt_iff [OF c(1) c(1) p] update_ok [OF c(1) c(1) p] c(2) by (simp_all add: tick_update)
  moreover have "fst (clock_tick ?c phys) \<noteq> hlc_top"
    using top LocalWrite by (simp add: log_event_def Let_def)
  ultimately show ?thesis
    using inv LocalWrite c(3)
      peers_inv_log_event [of ps "snd (clock_tick ?c phys)" "fst (clock_tick ?c phys)" p "p_past ps p"]
    by (auto simp: clock_last intro: order_le_less_trans)
next
  case (Receive p i phys)
  show ?thesis
  proof (cases "i < length (p_log ps)")
    case True
    let ?c = "p_clock ps p" and ?s = "fst (p_log ps ! i)" and ?past = "snd (p_log ps ! i)"
    let ?u = "clock_update ?c (stamp_hlc ?s) phys"
    have c: "hlc_ok (last_hlc ?c)" "last_hlc ?c \<noteq> hlc_top" "\<forall>s \<in> set (p_past ps p). stamp_hlc s \<le> last_hlc ?c"
      and e: "entry_ok (p_clock ps) (p_log ps ! i)"
      using inv True by (auto simp: peers_inv_def)
    have p: "in_i64 phys" and s: "hlc_ok (stamp_hlc ?s)" "stamp_hlc ?s \<noteq> hlc_top"
      using phys Receive e by (auto simp: entry_ok_def)
    have gt: "max (last_hlc ?c) (stamp_hlc ?s) < fst ?u" and ok: "hlc_ok (fst ?u)"
      using update_gt_iff [OF c(1) s(1) p] update_ok [OF c(1) s(1) p] c(2) s(2) by (simp_all add: max_def)
    have "\<forall>x \<in> set (?s # ?past @ p_past ps p). stamp_hlc x < fst ?u"
      using gt c(3) e by (auto simp: entry_ok_def intro: order_less_trans order_le_less_trans)
    moreover have "fst ?u \<noteq> hlc_top"
      using top Receive True by (simp add: log_event_def Let_def case_prod_beta)
    ultimately show ?thesis
      using inv Receive True gt ok
        peers_inv_log_event [of ps "snd ?u" "fst ?u" p "?s # ?past @ p_past ps p"]
      by (simp add: clock_last case_prod_beta)
  qed (use inv Receive in simp)
qed

lemma p_log_step: "set (p_log ps) \<subseteq> set (p_log (peer_step ps ev))"
  by (cases ev) (auto simp: log_event_def Let_def case_prod_beta)

lemma peer_run_inv:
  assumes "\<forall>ev \<in> set evs. in_i64 (physical_time ev)" and "below_top (peer_run evs)"
  shows "peers_inv (peer_run evs)"
  using assms
proof (induction evs rule: rev_induct)
  case Nil
  then show ?case using peers_inv_new by (simp add: peer_run_def)
next
  case (snoc ev evs)
  have "below_top (peer_run evs)"
    using snoc.prems(2) p_log_step [of "peer_run evs" ev] by (auto simp: peer_run_def)
  with snoc show ?case
    using peer_step_inv [of "peer_run evs" ev] by (simp add: peer_run_def)
qed

section \<open>Properties\<close>

text \<open>Shown too. A clock step issues a timestamp above everything it has seen, whatever physical time does (it
  may stall or run backwards), in every state but one: receiving, or continuing from, the greatest
  timestamp the types can hold. There the saturated step falls back to a smaller timestamp.\<close>

theorem clock_step_monotonic:
  assumes "hlc_ok (last_hlc c)" and "hlc_ok remote" and "in_i64 physical_ms"
  shows "(last_hlc c < fst (clock_tick c physical_ms) \<longleftrightarrow> last_hlc c \<noteq> hlc_top) \<and>
    (last_hlc c < fst (clock_update c remote physical_ms) \<and> remote < fst (clock_update c remote physical_ms) \<longleftrightarrow>
       last_hlc c \<noteq> hlc_top \<and> remote \<noteq> hlc_top)"
proof -
  have le_top: "t \<le> hlc_top" if "hlc_ok t" for t
    using that word_n1_ge [of "counter t"] by (auto simp: less_eq_hlc_def hlc_top_def hlc_ok_def in_i64_def)
  have "max (last_hlc c) remote \<noteq> hlc_top \<longleftrightarrow> last_hlc c \<noteq> hlc_top \<and> remote \<noteq> hlc_top"
    using le_top [OF assms(1)] le_top [OF assms(2)] by (auto simp: max_def)
  then show ?thesis
    using update_gt_iff [OF assms] update_gt_iff [OF assms(1,1,3)] by (simp add: tick_update)
qed

theorem clock_step_monotonic_witness:
  "Hlc 5 u32_max < fst (clock_tick (clock_from_last (Hlc 5 u32_max)) 3) \<and>
   Hlc 7 2 < fst (clock_update (clock_from_last (Hlc 5 u32_max)) (Hlc 7 2) 3)"
  using clock_step_monotonic [of "clock_from_last (Hlc 5 u32_max)" "Hlc 7 2" 3]
  by (simp add: clock_from_last_def hlc_ok_def in_i64_def hlc_top_def)

text \<open>C35. Timestamps respect causality: for any number of peers with arbitrary, arbitrarily skewed
  physical clocks and any exchange of messages, every event is stamped strictly above every event of
  its causal past, and no two events of the network carry the same stamp.\<close>

theorem stamps_causal_and_unique:
  assumes "\<forall>ev \<in> set evs. in_i64 (physical_time ev)" and "below_top (peer_run evs)"
  shows "(\<forall>(s, past) \<in> set (p_log (peer_run evs)). \<forall>x \<in> set past. stamp_hlc x < stamp_hlc s) \<and>
    distinct (map fst (p_log (peer_run evs)))"
  using peer_run_inv [OF assms] by (auto simp: peers_inv_def entry_ok_def)

definition ex_peers :: "peer_event list" where
  "ex_peers = [LocalWrite 1 100, LocalWrite 2 40, Receive 2 0 41, LocalWrite 2 42, Receive 1 3 90]"

theorem stamps_causal_and_unique_witness:
  "p_log (peer_run ex_peers) \<noteq> [] \<and> distinct (map fst (p_log (peer_run ex_peers)))"
proof -
  have "below_top (peer_run ex_peers)" and "p_log (peer_run ex_peers) \<noteq> []"
    by code_simp+
  moreover have "\<forall>ev \<in> set ex_peers. in_i64 (physical_time ev)"
    by (simp add: ex_peers_def in_i64_def)
  ultimately show ?thesis
    using stamps_causal_and_unique [of ex_peers] by blast
qed

end
