(* ===== verification/Lww.thy ===== *)
theory Lww
  imports Hlc
begin

text \<open>
  The last-writer-wins register, map and set of \<^verbatim>\<open>src/drevo-core/src/lww.rs\<close>.

  A \<open>BTreeMap\<close> is a finite map; where the code iterates over one, the loop is a fold over its entries
  in key order. The mutating methods return the flag the code returns and the new value.

  The interface \<open>crdt_merge\<close> states what convergence needs of a merge and derives it once; it is
  interpreted on the register, the map and the set. Its carrier is relative to a function that says
  which value was written at which stamp: the uniqueness of stamps, which holds of the stamps the clocks
  issue (theory \<open>Hlc\<close>).
\<close>

section \<open>Registers\<close>

record 'v lww_register =
  reg_value :: 'v
  reg_stamp :: stamp

definition register_new :: "'v \<Rightarrow> stamp \<Rightarrow> 'v lww_register" where
  "register_new v s = \<lparr>reg_value = v, reg_stamp = s\<rparr>"

definition register_set :: "'v lww_register \<Rightarrow> 'v \<Rightarrow> stamp \<Rightarrow> bool \<times> 'v lww_register" where
  "register_set r v s =
     (if s > reg_stamp r then (True, r\<lparr>reg_value := v, reg_stamp := s\<rparr>) else (False, r))"

definition register_merge :: "'v lww_register \<Rightarrow> 'v lww_register \<Rightarrow> bool \<times> 'v lww_register" where
  "register_merge r other =
     (if reg_stamp other > reg_stamp r
      then (True, r\<lparr>reg_value := reg_value other, reg_stamp := reg_stamp other\<rparr>) else (False, r))"

section \<open>Maps\<close>

record ('k, 'v) lww_map =
  lm_entries :: "('k, 'v lww_register) fmap"

definition lww_map_new :: "('k, 'v) lww_map" where
  "lww_map_new = \<lparr>lm_entries = fmempty\<rparr>"

text \<open>The two loops of the file, over the entries of a map of registers.\<close>

definition entries_write ::
    "('k, 'v lww_register) fmap \<Rightarrow> 'k \<Rightarrow> 'v \<Rightarrow> stamp \<Rightarrow> bool \<times> ('k, 'v lww_register) fmap" where
  "entries_write es k v s =
     (case fmlookup es k of
        Some r \<Rightarrow> (let (changed, r') = register_set r v s in (changed, fmupd k r' es))
      | None \<Rightarrow> (True, fmupd k (register_new v s) es))"

definition merge_entry ::
    "'k \<times> 'v lww_register \<Rightarrow> bool \<times> ('k, 'v lww_register) fmap \<Rightarrow> bool \<times> ('k, 'v lww_register) fmap" where
  "merge_entry kr st =
     (case kr of (k, r) \<Rightarrow> case st of (changed, es) \<Rightarrow>
        (case fmlookup es k of
           Some l \<Rightarrow> (let (c, l') = register_merge l r in (changed \<or> c, fmupd k l' es))
         | None \<Rightarrow> (True, fmupd k r es)))"

definition entries_merge ::
    "('k::linorder, 'v lww_register) fmap \<Rightarrow> ('k, 'v lww_register) fmap \<Rightarrow> bool \<times> ('k, 'v lww_register) fmap" where
  "entries_merge es other = fold merge_entry (sorted_list_of_fmap other) (False, es)"

definition lww_map_set :: "('k, 'v) lww_map \<Rightarrow> 'k \<Rightarrow> 'v \<Rightarrow> stamp \<Rightarrow> bool \<times> ('k, 'v) lww_map" where
  "lww_map_set m k v s = (let (c, es) = entries_write (lm_entries m) k v s in (c, m\<lparr>lm_entries := es\<rparr>))"

definition lww_map_get :: "('k, 'v) lww_map \<Rightarrow> 'k \<Rightarrow> 'v option" where
  "lww_map_get m k = map_option reg_value (fmlookup (lm_entries m) k)"

definition lww_map_register :: "('k, 'v) lww_map \<Rightarrow> 'k \<Rightarrow> 'v lww_register option" where
  "lww_map_register m k = fmlookup (lm_entries m) k"

definition lww_map_len :: "('k, 'v) lww_map \<Rightarrow> nat" where
  "lww_map_len m = fcard (fmdom (lm_entries m))"

definition lww_map_iter :: "('k::linorder, 'v) lww_map \<Rightarrow> ('k \<times> 'v) list" where
  "lww_map_iter m = map (\<lambda>(k, r). (k, reg_value r)) (sorted_list_of_fmap (lm_entries m))"

definition lww_map_merge :: "('k::linorder, 'v) lww_map \<Rightarrow> ('k, 'v) lww_map \<Rightarrow> bool \<times> ('k, 'v) lww_map" where
  "lww_map_merge m other =
     (let (c, es) = entries_merge (lm_entries m) (lm_entries other) in (c, m\<lparr>lm_entries := es\<rparr>))"

section \<open>Sets with causal tombstones\<close>

record 'a lww_set =
  ls_members :: "('a, bool lww_register) fmap"

definition lww_set_new :: "'a lww_set" where
  "lww_set_new = \<lparr>ls_members = fmempty\<rparr>"

definition lww_set_write :: "'a lww_set \<Rightarrow> 'a \<Rightarrow> bool \<Rightarrow> stamp \<Rightarrow> bool \<times> 'a lww_set" where
  "lww_set_write S x present s =
     (let (c, ms) = entries_write (ls_members S) x present s in (c, S\<lparr>ls_members := ms\<rparr>))"

definition lww_set_add :: "'a lww_set \<Rightarrow> 'a \<Rightarrow> stamp \<Rightarrow> bool \<times> 'a lww_set" where
  "lww_set_add S x s = lww_set_write S x True s"

definition lww_set_remove :: "'a lww_set \<Rightarrow> 'a \<Rightarrow> stamp \<Rightarrow> bool \<times> 'a lww_set" where
  "lww_set_remove S x s = lww_set_write S x False s"

definition lww_set_contains :: "'a lww_set \<Rightarrow> 'a \<Rightarrow> bool" where
  "lww_set_contains S x = (case fmlookup (ls_members S) x of Some r \<Rightarrow> reg_value r | None \<Rightarrow> False)"

definition lww_set_iter :: "'a::linorder lww_set \<Rightarrow> 'a list" where
  "lww_set_iter S = map fst (filter (\<lambda>(x, r). reg_value r) (sorted_list_of_fmap (ls_members S)))"

definition lww_set_len :: "'a::linorder lww_set \<Rightarrow> nat" where
  "lww_set_len S = length (filter (\<lambda>(x, r). reg_value r) (sorted_list_of_fmap (ls_members S)))"

definition lww_set_merge :: "'a::linorder lww_set \<Rightarrow> 'a lww_set \<Rightarrow> bool \<times> 'a lww_set" where
  "lww_set_merge S other =
     (let (c, ms) = entries_merge (ls_members S) (ls_members other) in (c, S\<lparr>ls_members := ms\<rparr>))"

section \<open>The contract of a merge\<close>

locale crdt_merge =
  fixes merge :: "'s \<Rightarrow> 's \<Rightarrow> 's" and ok :: "'s \<Rightarrow> bool"
  assumes merge_ok: "ok a \<Longrightarrow> ok b \<Longrightarrow> ok (merge a b)"
    and merge_commute: "ok a \<Longrightarrow> ok b \<Longrightarrow> merge a b = merge b a"
    and merge_assoc: "ok a \<Longrightarrow> ok b \<Longrightarrow> ok c \<Longrightarrow> merge (merge a b) c = merge a (merge b c)"
    and merge_idem: "ok a \<Longrightarrow> merge a a = a"
begin

definition below :: "'s \<Rightarrow> 's \<Rightarrow> bool" where
  "below a b \<longleftrightarrow> merge a b = b"

lemma below_antisym: "ok a \<Longrightarrow> ok b \<Longrightarrow> below a b \<Longrightarrow> below b a \<Longrightarrow> a = b"
  by (metis below_def merge_commute)

lemma below_merge: "ok a \<Longrightarrow> ok b \<Longrightarrow> below a (merge a b) \<and> below b (merge a b)"
  by (metis below_def merge_assoc merge_commute merge_idem)

lemma below_trans: "ok a \<Longrightarrow> ok b \<Longrightarrow> ok c \<Longrightarrow> below a b \<Longrightarrow> below b c \<Longrightarrow> below a c"
  by (metis below_def merge_assoc)

lemma merge_least: "ok a \<Longrightarrow> ok b \<Longrightarrow> ok c \<Longrightarrow> below a c \<Longrightarrow> below b c \<Longrightarrow> below (merge a b) c"
  by (metis below_def merge_assoc)

lemma foldl_ok: "ok a \<Longrightarrow> \<forall>x \<in> set xs. ok x \<Longrightarrow> ok (foldl merge a xs)"
  by (induction xs arbitrary: a) (auto simp: merge_ok)

lemma foldl_least:
  "ok a \<Longrightarrow> \<forall>x \<in> set xs. ok x \<and> below x u \<Longrightarrow> ok u \<Longrightarrow> below a u \<Longrightarrow> below (foldl merge a xs) u"
  by (induction xs arbitrary: a) (auto simp: merge_ok merge_least)

lemma foldl_upper:
  "ok a \<Longrightarrow> \<forall>x \<in> set xs. ok x \<Longrightarrow> y \<in> insert a (set xs) \<Longrightarrow> below y (foldl merge a xs)"
proof (induction xs arbitrary: a y)
  case Nil
  then show ?case by (auto simp: below_def merge_idem)
next
  case (Cons x xs)
  have ok: "ok (merge a x)" "ok (foldl merge (merge a x) xs)"
    using Cons.prems by (auto simp: merge_ok foldl_ok)
  have up: "below (merge a x) (foldl merge (merge a x) xs)"
    using Cons.IH [of "merge a x" "merge a x"] Cons.prems ok by auto
  show ?case
  proof (cases "y \<in> {a, x}")
    case True
    then have "ok y" and "below y (merge a x)"
      using Cons.prems below_merge [of a x] by auto
    with up ok show ?thesis by (auto intro: below_trans)
  next
    case False
    then show ?thesis
      using Cons.IH [of "merge a x"] Cons.prems ok by auto
  qed
qed

lemma foldl_mono:
  assumes "ok a" and "\<forall>x \<in> set xs. ok x" and "ok b" and "\<forall>x \<in> set ys. ok x"
    and "insert a (set xs) \<subseteq> insert b (set ys)"
  shows "below (foldl merge a xs) (foldl merge b ys)"
proof -
  have "below x (foldl merge b ys)" if "x \<in> insert a (set xs)" for x
    using foldl_upper [OF assms(3,4)] assms(5) that by blast
  then show ?thesis
    using assms foldl_ok [OF assms(3,4)] by (intro foldl_least) auto
qed

text \<open>Replicas that have merged the same states, in whatever order and however often, are equal.\<close>

lemma convergence:
  assumes "\<forall>x \<in> insert a (set xs). ok x" and "insert a (set xs) = insert b (set ys)"
  shows "foldl merge a xs = foldl merge b ys"
proof -
  have ok: "ok a" "\<forall>x \<in> set xs. ok x" "ok b" "\<forall>x \<in> set ys. ok x"
    using assms(1) assms(1) [unfolded assms(2)] by auto
  show ?thesis
    using foldl_mono [OF ok] foldl_mono [OF ok(3,4,1,2)] foldl_ok [OF ok(1,2)] foldl_ok [OF ok(3,4)] assms(2)
    by (intro below_antisym) auto
qed

end

section \<open>The merge loop, key by key\<close>

abbreviation newer :: "'v lww_register \<Rightarrow> 'v lww_register \<Rightarrow> 'v lww_register" where
  "newer r other \<equiv> snd (register_merge r other)"

definition merge_option :: "'v lww_register option \<Rightarrow> 'v lww_register option \<Rightarrow> 'v lww_register option" where
  "merge_option a b =
     (case a of None \<Rightarrow> b | Some r \<Rightarrow> (case b of None \<Rightarrow> Some r | Some r' \<Rightarrow> Some (newer r r')))"

lemma merge_option_simps [simp]:
  "merge_option None b = b" "merge_option a None = a" "merge_option (Some r) (Some r') = Some (newer r r')"
  by (simp_all add: merge_option_def split: option.split)

lemma register_merge_changed: "fst (register_merge r r') \<longleftrightarrow> newer r r' \<noteq> r"
  by (cases r) (auto simp: register_merge_def)

lemma merge_entry_lookup:
  "fmlookup (snd (merge_entry (k, r) st)) k' =
     (if k' = k then merge_option (fmlookup (snd st) k) (Some r) else fmlookup (snd st) k')"
  by (cases st) (auto simp: merge_entry_def Let_def case_prod_beta split: option.split)

lemma merge_entry_changed:
  "fst (merge_entry (k, r) st) \<longleftrightarrow>
     fst st \<or> merge_option (fmlookup (snd st) k) (Some r) \<noteq> fmlookup (snd st) k"
  by (cases st)
    (auto simp: merge_entry_def Let_def case_prod_beta register_merge_changed split: option.split)

lemma merge_entry_then:
  assumes "map_of xs k0 = None"
  shows "merge_option (fmlookup (snd (merge_entry (k0, r) st)) k) (map_of xs k) =
      merge_option (fmlookup (snd st) k) (map_of ((k0, r) # xs) k)"
  using assms by (simp add: merge_entry_lookup)

lemma fold_merge_lookup:
  "distinct (map fst xs) \<Longrightarrow>
     fmlookup (snd (fold merge_entry xs st)) k = merge_option (fmlookup (snd st) k) (map_of xs k)"
proof (induction xs arbitrary: st)
  case (Cons x xs)
  obtain k0 r where x: "x = (k0, r)" by fastforce
  have "map_of xs k0 = None"
    using Cons.prems x by (simp add: map_of_eq_None_iff)
  note merge_entry_then [OF this, of r st k]
  with Cons show ?case by (simp add: x)
qed simp

lemma fold_merge_changed:
  "distinct (map fst xs) \<Longrightarrow>
     fst (fold merge_entry xs st) \<longleftrightarrow>
       fst st \<or> (\<exists>k. merge_option (fmlookup (snd st) k) (map_of xs k) \<noteq> fmlookup (snd st) k)"
proof (induction xs arbitrary: st)
  case (Cons x xs)
  obtain k0 r where x: "x = (k0, r)" by fastforce
  let ?a = "snd st" and ?b = "snd (merge_entry (k0, r) st)"
  have none: "map_of xs k0 = None"
    using Cons.prems x by (simp add: map_of_eq_None_iff)
  have same: "fmlookup ?b k = fmlookup ?a k" if "k \<noteq> k0" for k
    using that by (simp add: merge_entry_lookup)
  have at: "merge_option (fmlookup ?a k0) (map_of ((k0, r) # xs) k0) = merge_option (fmlookup ?a k0) (Some r)"
    by simp
  have "(\<exists>k. merge_option (fmlookup ?b k) (map_of xs k) \<noteq> fmlookup ?b k) \<longleftrightarrow>
      (\<exists>k. k \<noteq> k0 \<and> merge_option (fmlookup ?a k) (map_of ((k0, r) # xs) k) \<noteq> fmlookup ?a k)"
    using none same by (metis (no_types, lifting) map_of_Cons_code(2) merge_option_simps(2))
  then show ?case
    using Cons.IH [of "merge_entry (k0, r) st"] Cons.prems at
    by (simp only: x fold_simps list.map distinct.simps merge_entry_changed fst_conv) metis
qed simp

lemma sorted_list_distinct: "distinct (map fst (sorted_list_of_fmap m))"
  by (simp add: sorted_list_of_fmap_def comp_def sorted_list_of_fset.rep_eq)

lemma entries_merge_lookup:
  "fmlookup (snd (entries_merge es other)) k = merge_option (fmlookup es k) (fmlookup other k)"
  by (simp add: entries_merge_def fold_merge_lookup [OF sorted_list_distinct])

lemma entries_merge_changed: "fst (entries_merge es other) \<longleftrightarrow> snd (entries_merge es other) \<noteq> es"
proof -
  have "fst (entries_merge es other) \<longleftrightarrow> (\<exists>k. fmlookup (snd (entries_merge es other)) k \<noteq> fmlookup es k)"
    by (simp add: entries_merge_def fold_merge_lookup fold_merge_changed sorted_list_distinct)
  then show ?thesis
    by (metis fmap_ext)
qed

text \<open>A local write is the merge of a single entry.\<close>

lemma entries_write_lookup:
  "fmlookup (snd (entries_write es k v s)) k' =
     merge_option (fmlookup es k') (if k' = k then Some (register_new v s) else None)"
  by (auto simp: entries_write_def register_set_def register_merge_def register_new_def Let_def split: option.split)

section \<open>Interpretations\<close>

text \<open>\<open>written w r\<close>: the register holds what \<open>w\<close> says was written at its stamp.\<close>

definition written :: "(stamp \<Rightarrow> 'v) \<Rightarrow> 'v lww_register \<Rightarrow> bool" where
  "written w r \<longleftrightarrow> reg_value r = w (reg_stamp r)"

lemma newer_simps: "newer a b = (if reg_stamp a < reg_stamp b then b else a)"
  by (cases a; cases b) (simp add: register_merge_def)

lemma written_unique: "written w a \<Longrightarrow> written w b \<Longrightarrow> reg_stamp a = reg_stamp b \<Longrightarrow> a = b"
  by (simp add: written_def)

interpretation lww_reg: crdt_merge newer "written w" for w
  by unfold_locales (auto simp: newer_simps intro: written_unique)

definition opt_written :: "(stamp \<Rightarrow> 'v) \<Rightarrow> 'v lww_register option \<Rightarrow> bool" where
  "opt_written w a \<longleftrightarrow> (\<forall>r. a = Some r \<longrightarrow> written w r)"

interpretation lww_opt: crdt_merge merge_option "opt_written w" for w
  by unfold_locales
    (auto simp: opt_written_def merge_option_def newer_simps split: option.splits intro: written_unique)

definition map_written :: "('k \<Rightarrow> stamp \<Rightarrow> 'v) \<Rightarrow> ('k, 'v) lww_map \<Rightarrow> bool" where
  "map_written w m \<longleftrightarrow> (\<forall>k. opt_written (w k) (fmlookup (lm_entries m) k))"

definition set_written :: "('a \<Rightarrow> stamp \<Rightarrow> bool) \<Rightarrow> 'a lww_set \<Rightarrow> bool" where
  "set_written w S \<longleftrightarrow> (\<forall>x. opt_written (w x) (fmlookup (ls_members S) x))"

lemma lww_map_merge_lookup:
  "fmlookup (lm_entries (snd (lww_map_merge a b))) k =
     merge_option (fmlookup (lm_entries a) k) (fmlookup (lm_entries b) k)"
  by (simp add: lww_map_merge_def case_prod_beta entries_merge_lookup)

lemma lww_set_merge_lookup:
  "fmlookup (ls_members (snd (lww_set_merge a b))) k =
     merge_option (fmlookup (ls_members a) k) (fmlookup (ls_members b) k)"
  by (simp add: lww_set_merge_def case_prod_beta entries_merge_lookup)

lemma lww_map_eqI: "(\<And>k. fmlookup (lm_entries a) k = fmlookup (lm_entries b) k) \<Longrightarrow> a = (b :: ('k, 'v) lww_map)"
  by (rule lww_map.equality) (auto intro: fmap_ext)

lemma lww_set_eqI: "(\<And>k. fmlookup (ls_members a) k = fmlookup (ls_members b) k) \<Longrightarrow> a = (b :: 'a lww_set)"
  by (rule lww_set.equality) (auto intro: fmap_ext)

interpretation lww_maps: crdt_merge "\<lambda>a b. snd (lww_map_merge a b)" "map_written w" for w
proof unfold_locales
  show "map_written w a \<Longrightarrow> map_written w b \<Longrightarrow> map_written w (snd (lww_map_merge a b))" for a b
    by (simp add: map_written_def lww_map_merge_lookup lww_opt.merge_ok)
  show "map_written w a \<Longrightarrow> map_written w b \<Longrightarrow> snd (lww_map_merge a b) = snd (lww_map_merge b a)" for a b
    by (rule lww_map_eqI) (auto simp: map_written_def lww_map_merge_lookup intro: lww_opt.merge_commute)
  show "map_written w a \<Longrightarrow> map_written w b \<Longrightarrow> map_written w c \<Longrightarrow>
      snd (lww_map_merge (snd (lww_map_merge a b)) c) = snd (lww_map_merge a (snd (lww_map_merge b c)))" for a b c
    by (rule lww_map_eqI) (auto simp: map_written_def lww_map_merge_lookup intro: lww_opt.merge_assoc)
  show "map_written w a \<Longrightarrow> snd (lww_map_merge a a) = a" for a
    by (rule lww_map_eqI) (auto simp: map_written_def lww_map_merge_lookup intro: lww_opt.merge_idem)
qed

interpretation lww_sets: crdt_merge "\<lambda>a b. snd (lww_set_merge a b)" "set_written w" for w
proof unfold_locales
  show "set_written w a \<Longrightarrow> set_written w b \<Longrightarrow> set_written w (snd (lww_set_merge a b))" for a b
    by (simp add: set_written_def lww_set_merge_lookup lww_opt.merge_ok)
  show "set_written w a \<Longrightarrow> set_written w b \<Longrightarrow> snd (lww_set_merge a b) = snd (lww_set_merge b a)" for a b
    by (rule lww_set_eqI) (auto simp: set_written_def lww_set_merge_lookup intro: lww_opt.merge_commute)
  show "set_written w a \<Longrightarrow> set_written w b \<Longrightarrow> set_written w c \<Longrightarrow>
      snd (lww_set_merge (snd (lww_set_merge a b)) c) = snd (lww_set_merge a (snd (lww_set_merge b c)))" for a b c
    by (rule lww_set_eqI) (auto simp: set_written_def lww_set_merge_lookup intro: lww_opt.merge_assoc)
  show "set_written w a \<Longrightarrow> snd (lww_set_merge a a) = a" for a
    by (rule lww_set_eqI) (auto simp: set_written_def lww_set_merge_lookup intro: lww_opt.merge_idem)
qed

section \<open>Sequences of writes\<close>

text \<open>A replica of the set that applies adds and removes, its own and others', in the order in which it
  learns of them.\<close>

type_synonym 'a set_write = "'a \<times> bool \<times> stamp"

definition apply_set_write :: "'a lww_set \<Rightarrow> 'a set_write \<Rightarrow> 'a lww_set" where
  "apply_set_write S u =
     (case u of (x, present, s) \<Rightarrow> snd (if present then lww_set_add S x s else lww_set_remove S x s))"

definition set_replica :: "'a set_write list \<Rightarrow> 'a lww_set" where
  "set_replica us = foldl apply_set_write lww_set_new us"

text \<open>The write that decides \<open>x\<close>: the one with the greatest stamp among those to \<open>x\<close>.\<close>

definition decides :: "'a set_write set \<Rightarrow> 'a \<Rightarrow> bool \<Rightarrow> stamp \<Rightarrow> bool" where
  "decides U x b s \<longleftrightarrow> (x, b, s) \<in> U \<and> (\<forall>b' s'. (x, b', s') \<in> U \<longrightarrow> s' \<le> s)"

lemma apply_set_write_lookup:
  "fmlookup (ls_members (apply_set_write S (x, b, s))) y =
     merge_option (fmlookup (ls_members S) y) (if y = x then Some (register_new b s) else None)"
  by (simp add: apply_set_write_def lww_set_add_def lww_set_remove_def lww_set_write_def case_prod_beta
      entries_write_lookup)

lemma set_replica_lookup:
  assumes "\<forall>x b b' s. (x, b, s) \<in> set us \<and> (x, b', s) \<in> set us \<longrightarrow> b = b'"
  shows "case fmlookup (ls_members (set_replica us)) x of
      None \<Rightarrow> (\<forall>b s. (x, b, s) \<notin> set us)
    | Some r \<Rightarrow> decides (set us) x (reg_value r) (reg_stamp r)"
  using assms
proof (induction us rule: rev_induct)
  case Nil
  then show ?case by (simp add: set_replica_def lww_set_new_def)
next
  case (snoc u us)
  obtain y b s where u: "u = (y, b, s)" by (cases u)
  have IH: "case fmlookup (ls_members (set_replica us)) x of
      None \<Rightarrow> (\<forall>b s. (x, b, s) \<notin> set us)
    | Some r \<Rightarrow> decides (set us) x (reg_value r) (reg_stamp r)"
    using snoc.prems by (intro snoc.IH) auto
  have step: "set_replica (us @ [(y, b, s)]) = apply_set_write (set_replica us) (y, b, s)"
    by (simp add: set_replica_def)
  show ?case
  proof (cases "x = y")
    case True
    then show ?thesis
      using IH
      by (auto simp: step apply_set_write_lookup u newer_simps register_new_def decides_def
          not_less split: option.splits) (meson order_less_imp_le order_trans)
  next
    case False
    then show ?thesis
      using IH by (auto simp: step apply_set_write_lookup u decides_def split: option.splits)
  qed
qed

section \<open>Properties\<close>

text \<open>C36. Replicas of the map converge: two replicas that have merged the same states, in any order, any
  number of times and with any grouping, hold the same map, provided no two different values were ever
  written to a key at the same stamp.\<close>

theorem lww_map_converges:
  assumes "\<forall>m \<in> insert a (set ms). map_written w m" and "insert a (set ms) = insert b (set ns)"
  shows "foldl (\<lambda>x y. snd (lww_map_merge x y)) a ms = foldl (\<lambda>x y. snd (lww_map_merge x y)) b ns"
  using assms by (rule lww_maps.convergence)

definition ex_map1 :: "(nat, int) lww_map" where
  "ex_map1 = snd (lww_map_set lww_map_new 1 10 (Stamp (Hlc 5 0) 1))"

definition ex_map2 :: "(nat, int) lww_map" where
  "ex_map2 = snd (lww_map_set (snd (lww_map_set lww_map_new 1 20 (Stamp (Hlc 5 0) 2))) 2 30 (Stamp (Hlc 5 1) 2))"

definition ex_writes :: "nat \<Rightarrow> stamp \<Rightarrow> int" where
  "ex_writes k s = (if k = 2 then 30 else if stamp_origin s = 1 then 10 else 20)"

theorem lww_map_converges_witness:
  "snd (lww_map_merge ex_map1 ex_map2) = snd (lww_map_merge (snd (lww_map_merge ex_map2 ex_map1)) ex_map2) \<and>
   lww_map_get (snd (lww_map_merge ex_map1 ex_map2)) 1 = Some 20"
proof -
  have "\<forall>m \<in> insert ex_map1 (set [ex_map2]). map_written ex_writes m"
    by (auto simp: map_written_def opt_written_def written_def ex_map1_def ex_map2_def ex_writes_def
        lww_map_set_def lww_map_new_def entries_write_def register_new_def split: if_splits)
  moreover have "insert ex_map1 (set [ex_map2]) = insert ex_map2 (set [ex_map1, ex_map2])"
    by auto
  ultimately have "foldl (\<lambda>x y. snd (lww_map_merge x y)) ex_map1 [ex_map2] =
      foldl (\<lambda>x y. snd (lww_map_merge x y)) ex_map2 [ex_map1, ex_map2]"
    by (rule lww_map_converges)
  moreover have "lww_map_get (snd (lww_map_merge ex_map1 ex_map2)) 1 = Some 20"
    by code_simp
  ultimately show ?thesis by simp
qed

text \<open>Shown too. The set is last-writer-wins: a replica that applied any sequence of adds and removes contains
  an element exactly if the write to it with the greatest stamp is an add. In particular, replicas that
  learn of the same writes in different orders agree on membership, and a tombstone converges against
  a concurrent add.\<close>

theorem lww_set_last_writer:
  assumes "\<forall>x b b' s. (x, b, s) \<in> set us \<and> (x, b', s) \<in> set us \<longrightarrow> b = b'"
  shows "lww_set_contains (set_replica us) x \<longleftrightarrow> (\<exists>s. decides (set us) x True s)"
proof (cases "fmlookup (ls_members (set_replica us)) x")
  case None
  with set_replica_lookup [OF assms, of x] show ?thesis
    by (auto simp: lww_set_contains_def decides_def)
next
  case (Some r)
  with set_replica_lookup [OF assms, of x] have d: "decides (set us) x (reg_value r) (reg_stamp r)"
    by simp
  have "reg_value r = b" if "decides (set us) x b s" for b s
    using d that assms unfolding decides_def by (metis order_antisym)
  with d Some show ?thesis
    by (cases "reg_value r") (auto simp: lww_set_contains_def)
qed

definition ex_set_writes :: "nat set_write list" where
  "ex_set_writes = [(1, True, Stamp (Hlc 5 0) 1), (1, False, Stamp (Hlc 5 0) 2), (2, False, Stamp (Hlc 4 0) 2),
     (2, True, Stamp (Hlc 6 0) 1)]"

theorem lww_set_last_writer_witness:
  "lww_set_contains (set_replica (rev ex_set_writes)) 2 = (\<exists>s. decides (set ex_set_writes) 2 True s)"
proof -
  have "\<forall>x b b' s. (x, b, s) \<in> set (rev ex_set_writes) \<and> (x, b', s) \<in> set (rev ex_set_writes) \<longrightarrow> b = b'"
    by (auto simp: ex_set_writes_def)
  from lww_set_last_writer [OF this, of 2] show ?thesis by simp
qed

text \<open>Shown too. The flag a merge returns is exact: it is true if and only if the map, or the set, changed.\<close>

theorem lww_merge_changed_exact:
  "(fst (lww_map_merge m n) \<longleftrightarrow> snd (lww_map_merge m n) \<noteq> m) \<and>
   (fst (lww_set_merge S T) \<longleftrightarrow> snd (lww_set_merge S T) \<noteq> S)"
  by (cases m; cases S) (auto simp: lww_map_merge_def lww_set_merge_def case_prod_beta entries_merge_changed)

end
