(* ===== verification/Key_Map.thy ===== *)
theory Key_Map
  imports Drevo_Prelude
begin

text \<open>
  The interface of the maps the graph engine is built from, as laws over \<open>get\<close>, \<open>insert\<close>, \<open>remove\<close> and
  \<open>len\<close>, with what follows for a history of changes. It is interpreted on finite maps here, on the
  chunked vector of \<open>Dense_Map\<close> and on the sorted vector of \<open>Properties\<close>.
\<close>

text \<open>What the engine relies on of a map, whatever its representation. A change is \<open>(key, Some v)\<close> for an
  insert and \<open>(key, None)\<close> for a removal.\<close>

locale key_map =
  fixes emp :: 'm
    and get :: "'m \<Rightarrow> 'k \<Rightarrow> 'v option"
    and ins :: "'m \<Rightarrow> 'k \<Rightarrow> 'v \<Rightarrow> 'v option \<times> 'm"
    and rem :: "'m \<Rightarrow> 'k \<Rightarrow> 'v option \<times> 'm"
    and size_of :: "'m \<Rightarrow> nat"
    and inv :: "'m \<Rightarrow> bool"
  assumes inv_emp: "inv emp" and get_emp: "get emp i = None"
    and inv_ins: "inv m \<Longrightarrow> inv (snd (ins m i v))"
    and old_ins: "inv m \<Longrightarrow> fst (ins m i v) = get m i"
    and get_ins: "inv m \<Longrightarrow> get (snd (ins m i v)) j = (if j = i then Some v else get m j)"
    and inv_rem: "inv m \<Longrightarrow> inv (snd (rem m i))"
    and old_rem: "inv m \<Longrightarrow> fst (rem m i) = get m i"
    and get_rem: "inv m \<Longrightarrow> get (snd (rem m i)) j = (if j = i then None else get m j)"
    and size_card: "inv m \<Longrightarrow> size_of m = card {i. get m i \<noteq> None}"
begin

definition change :: "'m \<Rightarrow> 'k \<times> 'v option \<Rightarrow> 'm" where
  "change m c = (case snd c of Some v \<Rightarrow> snd (ins m (fst c) v) | None \<Rightarrow> snd (rem m (fst c)))"

lemma change_facts:
  "inv m \<Longrightarrow> inv (change m c)" "inv m \<Longrightarrow> get (change m c) j = (if j = fst c then snd c else get m j)"
  by (auto simp: change_def inv_ins inv_rem get_ins get_rem split: option.split)

lemma history_inv: "inv m \<Longrightarrow> inv (foldl change m cs)"
  by (induction cs arbitrary: m) (auto simp: change_facts)

text \<open>The map holds the last change of every key.\<close>

lemma history: "get (foldl change emp cs) i = (case newest (\<lambda>c. fst c = i) cs of Some c \<Rightarrow> snd c | None \<Rightarrow> None)"
proof (induction cs rule: rev_induct)
  case (snoc c cs)
  have "inv (foldl change emp cs)"
    by (rule history_inv) (rule inv_emp)
  with snoc change_facts(2) [of "foldl change emp cs" c i] show ?case by auto
qed (simp add: get_emp)

end

interpretation finite_map: key_map fmempty fmlookup "\<lambda>m i v. (fmlookup m i, fmupd i v m)"
    "\<lambda>m i. (fmlookup m i, fmdrop i m)" "\<lambda>m. fcard (fmdom m)" "\<lambda>_. True"
proof unfold_locales
  show "fcard (fmdom m) = card {i. fmlookup m i \<noteq> None}" for m :: "('a, 'b) fmap"
    by (simp add: fcard.rep_eq fmdom.rep_eq dom_def)
qed auto

end
