(* ===== verification/Dense_Map.thy ===== *)
theory Dense_Map
  imports Key_Map
begin

text \<open>
  The id-indexed map of \<^verbatim>\<open>src/drevo-core/src/dense_map.rs\<close>: a vector of shared chunks for dense
  ids and a hash table for outliers that move into the vector once it reaches them.

  \<open>usize\<close> is 64 bits, so every id converts; sizes are natural numbers. Copy-on-write of a shared chunk is
  invisible in a value model. The map is shown to satisfy the interface \<open>key_map\<close>, as finite maps do, which
  is what the graph engine's model uses for it.
\<close>

section \<open>The model\<close>

abbreviation CHUNK :: nat where "CHUNK \<equiv> 64"
abbreviation GROWTH_SLACK :: int where "GROWTH_SLACK \<equiv> 4096"
abbreviation u64_top :: int where "u64_top \<equiv> 18446744073709551615"

record 'v dense_map =
  dm_chunks :: "'v option list list"
  dm_sparse :: "(u64, 'v) fmap"
  dm_sparse_min :: u64
  dm_len :: nat

definition dm_default :: "'v dense_map" where
  "dm_default = \<lparr>dm_chunks = [], dm_sparse = fmempty, dm_sparse_min = u64_max, dm_len = 0\<rparr>"

definition dm_end :: "'v dense_map \<Rightarrow> nat" where
  "dm_end d = length (dm_chunks d) * CHUNK"

definition dm_slot :: "'v dense_map \<Rightarrow> u64 \<Rightarrow> nat option" where
  "dm_slot d i = (if uint i < int (dm_end d) then Some (unat i) else None)"

definition read_slot :: "'v option list list \<Rightarrow> nat \<Rightarrow> 'v option" where
  "read_slot cs i = cs ! (i div CHUNK) ! (i mod CHUNK)"

definition write_slot :: "nat \<Rightarrow> 'v option \<Rightarrow> 'v option list list \<Rightarrow> 'v option list list" where
  "write_slot i v cs = cs[i div CHUNK := (cs ! (i div CHUNK))[i mod CHUNK := v]]"

definition u64_saturate :: "int \<Rightarrow> int" where
  "u64_saturate n = min n u64_top"

text \<open>The growth loop of \<open>dense_slot\<close>.\<close>

function grow_chunks :: "nat \<Rightarrow> 'v option list list \<Rightarrow> 'v option list list" where
  "grow_chunks i cs =
     (if length cs * CHUNK \<le> i then grow_chunks i (cs @ [replicate CHUNK None]) else cs)"
  by pat_completeness auto
termination
  by (relation "measure (\<lambda>(i, cs). Suc i - length cs * CHUNK)") auto

declare grow_chunks.simps [simp del]

definition move_outlier :: "'v dense_map \<Rightarrow> u64 \<Rightarrow> 'v dense_map" where
  "move_outlier d k =
     (case fmlookup (dm_sparse d) k of
        Some v \<Rightarrow>
          d\<lparr>dm_sparse := fmdrop k (dm_sparse d), dm_chunks := write_slot (unat k) (Some v) (dm_chunks d)\<rparr>
      | None \<Rightarrow> d)"

definition least_key :: "(u64, 'v) fmap \<Rightarrow> u64" where
  "least_key m = (case fset_min (fmdom m) of Some k \<Rightarrow> k | None \<Rightarrow> u64_max)"

definition absorb_outliers :: "'v dense_map \<Rightarrow> 'v dense_map" where
  "absorb_outliers d =
     (if uint (dm_sparse_min d) < int (dm_end d)
      then let reached = sorted_list_of_fset
                 (ffilter (\<lambda>k. uint k < int (dm_end d)) (fmdom (dm_sparse d)));
               d' = foldl move_outlier d reached
           in d'\<lparr>dm_sparse_min := least_key (dm_sparse d')\<rparr>
      else d)"

definition dm_dense_slot :: "'v dense_map \<Rightarrow> u64 \<Rightarrow> nat option \<times> 'v dense_map" where
  "dm_dense_slot d i =
     (case dm_slot d i of
        Some n \<Rightarrow> (Some n, d)
      | None \<Rightarrow>
          (let reach = u64_saturate (u64_saturate (int (dm_end d) * 2) + GROWTH_SLACK) in
           if uint i > reach then (None, d)
           else (Some (unat i),
                 absorb_outliers (d\<lparr>dm_chunks := grow_chunks (unat i) (dm_chunks d)\<rparr>))))"

definition dm_get :: "'v dense_map \<Rightarrow> u64 \<Rightarrow> 'v option" where
  "dm_get d i =
     (case dm_slot d i of Some n \<Rightarrow> read_slot (dm_chunks d) n | None \<Rightarrow> fmlookup (dm_sparse d) i)"

definition dm_contains_key :: "'v dense_map \<Rightarrow> u64 \<Rightarrow> bool" where
  "dm_contains_key d i \<longleftrightarrow> dm_get d i \<noteq> None"

definition dm_insert :: "'v dense_map \<Rightarrow> u64 \<Rightarrow> 'v \<Rightarrow> 'v option \<times> 'v dense_map" where
  "dm_insert d i v =
     (let (old, d1) =
        (case dm_dense_slot d i of
           (Some n, d') \<Rightarrow>
             (read_slot (dm_chunks d') n, d'\<lparr>dm_chunks := write_slot n (Some v) (dm_chunks d')\<rparr>)
         | (None, d') \<Rightarrow>
             (fmlookup (dm_sparse d') i,
              d'\<lparr>dm_sparse_min := min (dm_sparse_min d') i, dm_sparse := fmupd i v (dm_sparse d')\<rparr>))
      in (old, if old = None then d1\<lparr>dm_len := dm_len d1 + 1\<rparr> else d1))"

definition dm_remove :: "'v dense_map \<Rightarrow> u64 \<Rightarrow> 'v option \<times> 'v dense_map" where
  "dm_remove d i =
     (case dm_slot d i of
        Some n \<Rightarrow>
          (case read_slot (dm_chunks d) n of
             None \<Rightarrow> (None, d)
           | Some v \<Rightarrow>
               (Some v, d\<lparr>dm_chunks := write_slot n None (dm_chunks d), dm_len := dm_len d - 1\<rparr>))
      | None \<Rightarrow>
          (let old = fmlookup (dm_sparse d) i;
               sp = fmdrop i (dm_sparse d);
               d1 = d\<lparr>dm_sparse := sp,
                      dm_sparse_min := (if i = dm_sparse_min d then least_key sp else dm_sparse_min d)\<rparr>
           in (old, if old \<noteq> None then d1\<lparr>dm_len := dm_len d1 - 1\<rparr> else d1)))"

text \<open>\<open>get_mut\<close> and \<open>entry_or_default\<close> return a reference; the model takes the update that the caller
  makes through it.\<close>

definition dm_get_mut :: "'v dense_map \<Rightarrow> u64 \<Rightarrow> ('v \<Rightarrow> 'v) \<Rightarrow> 'v dense_map" where
  "dm_get_mut d i f =
     (case dm_slot d i of
        Some n \<Rightarrow>
          (case read_slot (dm_chunks d) n of
             None \<Rightarrow> d
           | Some v \<Rightarrow> d\<lparr>dm_chunks := write_slot n (Some (f v)) (dm_chunks d)\<rparr>)
      | None \<Rightarrow>
          (case fmlookup (dm_sparse d) i of
             None \<Rightarrow> d
           | Some v \<Rightarrow> d\<lparr>dm_sparse := fmupd i (f v) (dm_sparse d)\<rparr>))"

definition dm_entry_or_default :: "'v dense_map \<Rightarrow> u64 \<Rightarrow> 'v \<Rightarrow> ('v \<Rightarrow> 'v) \<Rightarrow> 'v dense_map" where
  "dm_entry_or_default d i dflt f =
     (let d1 = (if dm_contains_key d i then d else snd (dm_insert d i dflt)) in
      case dm_slot d1 i of
        Some n \<Rightarrow>
          (let v = (case read_slot (dm_chunks d1) n of Some v \<Rightarrow> v | None \<Rightarrow> dflt)
           in d1\<lparr>dm_chunks := write_slot n (Some (f v)) (dm_chunks d1)\<rparr>)
      | None \<Rightarrow>
          (let v = (case fmlookup (dm_sparse d1) i of Some v \<Rightarrow> v | None \<Rightarrow> dflt)
           in d1\<lparr>dm_sparse := fmupd i (f v) (dm_sparse d1)\<rparr>))"

text \<open>Iteration: the vector's entries ascending, then the outliers; the code leaves their order open, and
  the model lists them ascending.\<close>

definition dm_iter :: "'v dense_map \<Rightarrow> (u64 \<times> 'v) list" where
  "dm_iter d =
     List.map_filter (\<lambda>(i, v). map_option (Pair (of_nat i)) v) (enumerate 0 (concat (dm_chunks d)))
     @ sorted_list_of_fmap (dm_sparse d)"

section \<open>Chunks\<close>

definition chunks_ok :: "'v option list list \<Rightarrow> bool" where
  "chunks_ok cs \<longleftrightarrow> (\<forall>c \<in> set cs. length c = CHUNK)"

lemma div_chunk_less: "i < n * CHUNK \<Longrightarrow> i div CHUNK < n"
  by (simp add: less_mult_imp_div_less)

lemma length_write_slot [simp]: "length (write_slot i v cs) = length cs"
  by (simp add: write_slot_def)

lemma chunks_ok_nth: "chunks_ok cs \<Longrightarrow> i < length cs * CHUNK \<Longrightarrow> length (cs ! (i div CHUNK)) = CHUNK"
  using div_chunk_less [of i "length cs"] by (simp add: chunks_ok_def)

lemma chunks_ok_write: "chunks_ok cs \<Longrightarrow> i < length cs * CHUNK \<Longrightarrow> chunks_ok (write_slot i v cs)"
  using chunks_ok_nth [of cs i] by (auto simp: chunks_ok_def write_slot_def dest!: set_update_subset_insert [THEN subsetD])

lemma read_write_slot:
  assumes "chunks_ok cs" and "i < length cs * CHUNK" and "j < length cs * CHUNK"
  shows "read_slot (write_slot i v cs) j = (if i = j then v else read_slot cs j)"
proof -
  have "i = j \<longleftrightarrow> i div CHUNK = j div CHUNK \<and> i mod CHUNK = j mod CHUNK"
    by (metis div_mult_mod_eq)
  then show ?thesis
    using div_chunk_less [OF assms(2)] div_chunk_less [OF assms(3)] chunks_ok_nth [OF assms(1,2)]
    by (auto simp: read_slot_def write_slot_def nth_list_update)
qed

lemma grow_chunks_append:
  "\<exists>n. grow_chunks i cs = cs @ replicate n (replicate CHUNK None)"
proof (induction i cs rule: grow_chunks.induct)
  case (1 i cs)
  show ?case
  proof (cases "length cs * CHUNK \<le> i")
    case True
    with 1 obtain n where "grow_chunks i (cs @ [replicate CHUNK None]) =
        (cs @ [replicate CHUNK None]) @ replicate n (replicate CHUNK None)"
      by blast
    then have "grow_chunks i cs = cs @ replicate (Suc n) (replicate CHUNK None)"
      using True by (subst grow_chunks.simps) simp
    then show ?thesis by blast
  next
    case False
    then have "grow_chunks i cs = cs @ replicate 0 (replicate CHUNK None)"
      by (subst grow_chunks.simps) simp
    then show ?thesis by blast
  qed
qed

lemma grow_chunks_reaches: "i < length (grow_chunks i cs) * CHUNK"
proof (induction i cs rule: grow_chunks.induct)
  case (1 i cs)
  then show ?case
    by (cases "length cs * CHUNK \<le> i") (subst grow_chunks.simps, simp)+
qed

lemma chunks_ok_grow: "chunks_ok cs \<Longrightarrow> chunks_ok (grow_chunks i cs)"
  using grow_chunks_append [of i cs] by (auto simp: chunks_ok_def)

lemma grow_chunks_length: "length cs \<le> length (grow_chunks i cs)"
  using grow_chunks_append [of i cs] by auto

lemma read_slot_grow:
  assumes "j < length (grow_chunks i cs) * CHUNK"
  shows "read_slot (grow_chunks i cs) j = (if j < length cs * CHUNK then read_slot cs j else None)"
proof -
  obtain n where n: "grow_chunks i cs = cs @ replicate n (replicate CHUNK None)"
    using grow_chunks_append [of i cs] by blast
  have "j div CHUNK < length cs + n" and "j div CHUNK < length cs \<longleftrightarrow> j < length cs * CHUNK"
    using assms div_chunk_less [of j "length cs + n"] by (auto simp: n div_less_iff_less_mult)
  then show ?thesis
    by (auto simp: n read_slot_def nth_append)
qed

section \<open>The invariant\<close>

lemma uint_less_int: "uint (i :: u64) < int n \<longleftrightarrow> unat i < n"
  by (simp only: uint_nat of_nat_less_iff)

lemma dm_slot_eq: "dm_slot d i = (if unat i < dm_end d then Some (unat i) else None)"
  by (simp only: dm_slot_def uint_less_int)

lemma unat_inj [simp]: "unat (i :: u64) = unat j \<longleftrightarrow> i = j"
  by (simp add: word_unat_eq_iff)

lemma u64_max_le [simp]: "u64_max \<le> i \<longleftrightarrow> i = u64_max"
  by (metis order_antisym order_refl word_n1_ge)

definition dm_count :: "'v dense_map \<Rightarrow> nat" where
  "dm_count d = card {i. dm_get d i \<noteq> None}"

definition dm_base :: "'v dense_map \<Rightarrow> bool" where
  "dm_base d \<longleftrightarrow> chunks_ok (dm_chunks d) \<and> dm_sparse_min d = least_key (dm_sparse d) \<and>
     (\<forall>k. k |\<in>| fmdom (dm_sparse d) \<longrightarrow> dm_end d \<le> unat k)"

definition dm_inv :: "'v dense_map \<Rightarrow> bool" where
  "dm_inv d \<longleftrightarrow> dm_base d \<and> dm_len d = dm_count d"

lemma least_key_le: "k |\<in>| fmdom m \<Longrightarrow> least_key m \<le> k"
  by (auto simp: least_key_def fset_min_None_iff dest: fset_min_SomeD split: option.splits)

lemma least_key_upd: "least_key (fmupd i v m) = min (least_key m) i"
proof -
  have "fset_min (finsert i (fmdom m)) = Some (min (least_key m) i)"
  proof (rule fset_minI)
    show "min (least_key m) i |\<in>| finsert i (fmdom m)"
      by (auto simp: least_key_def min_def dest: fset_min_SomeD split: option.splits)
    show "min (least_key m) i \<le> y" if "y |\<in>| finsert i (fmdom m)" for y
      using that least_key_le [of y m] by (auto simp: min_le_iff_disj)
  qed
  then show ?thesis by (simp add: least_key_def)
qed

lemma least_key_drop: "i \<noteq> least_key m \<Longrightarrow> least_key (fmdrop i m) = least_key m"
proof (cases "fmdom m = {||}")
  case False
  assume i: "i \<noteq> least_key m"
  obtain k where k: "fset_min (fmdom m) = Some k"
    using False by (auto simp: fset_min_def)
  then have "fset_min (fmdom m |-| {|i|}) = Some k"
    using i fset_min_SomeD [OF k] by (intro fset_minI) (auto simp: least_key_def)
  with k show ?thesis by (simp add: least_key_def fmdom_drop)
qed (simp add: least_key_def fmdom_drop)

section \<open>Growing the vector\<close>

text \<open>Reading the vector first and the outliers second, which agrees with \<open>get\<close> when no outlier is below
  the vector's end. Moving an outlier into its empty slot does not change it.\<close>

definition lenient_get :: "'v dense_map \<Rightarrow> u64 \<Rightarrow> 'v option" where
  "lenient_get d i =
     (if unat i < dm_end d \<and> read_slot (dm_chunks d) (unat i) \<noteq> None
      then read_slot (dm_chunks d) (unat i) else fmlookup (dm_sparse d) i)"

definition slots_free :: "'v dense_map \<Rightarrow> bool" where
  "slots_free d \<longleftrightarrow> chunks_ok (dm_chunks d) \<and>
     (\<forall>k. k |\<in>| fmdom (dm_sparse d) \<and> unat k < dm_end d \<longrightarrow> read_slot (dm_chunks d) (unat k) = None)"

lemma no_outlier_below: "dm_base d \<Longrightarrow> unat i < dm_end d \<Longrightarrow> fmlookup (dm_sparse d) i = None"
  by (auto simp: dm_base_def intro!: fmdom_notD dest: leD)

lemma dm_get_lenient: "dm_base d \<Longrightarrow> dm_get d i = lenient_get d i"
  by (auto simp: dm_get_def dm_slot_eq lenient_get_def no_outlier_below)

lemma move_outlier:
  assumes "slots_free d" and "unat k < dm_end d"
  shows "slots_free (move_outlier d k)" "lenient_get (move_outlier d k) i = lenient_get d i"
    "dm_end (move_outlier d k) = dm_end d" "fmdom (dm_sparse (move_outlier d k)) = fmdom (dm_sparse d) |-| {|k|}"
    "dm_len (move_outlier d k) = dm_len d"
proof -
  have rw: "read_slot (write_slot (unat k) v (dm_chunks d)) (unat j) =
      (if k = j then v else read_slot (dm_chunks d) (unat j))" if "unat j < dm_end d" for j v
    using assms that by (simp add: read_write_slot slots_free_def dm_end_def)
  have ok: "chunks_ok (write_slot (unat k) v (dm_chunks d))" for v
    using assms by (simp add: slots_free_def dm_end_def chunks_ok_write)
  show e: "dm_end (move_outlier d k) = dm_end d"
    by (simp add: move_outlier_def dm_end_def split: option.split)
  show "fmdom (dm_sparse (move_outlier d k)) = fmdom (dm_sparse d) |-| {|k|}"
    by (auto simp: move_outlier_def fmdom_drop fmlookup_dom_iff split: option.split)
  show "slots_free (move_outlier d k)"
    using assms rw ok
    by (auto simp: slots_free_def move_outlier_def fmdom_drop dm_end_def split: option.split)
  show "lenient_get (move_outlier d k) i = lenient_get d i"
  proof (cases "fmlookup (dm_sparse d) k")
    case (Some v)
    then have free: "read_slot (dm_chunks d) (unat k) = None"
      using assms by (auto simp: slots_free_def intro: fmdomI)
    show ?thesis
      using Some free assms(2) rw [of i "Some v"]
      by (cases "i = k") (auto simp: lenient_get_def move_outlier_def dm_end_def)
  qed (simp add: move_outlier_def)
  show "dm_len (move_outlier d k) = dm_len d"
    by (simp add: move_outlier_def split: option.split)
qed

lemma move_outliers:
  assumes "slots_free d" and "\<forall>k \<in> set ks. unat k < dm_end d"
  shows "slots_free (foldl move_outlier d ks) \<and> lenient_get (foldl move_outlier d ks) i = lenient_get d i \<and>
    dm_end (foldl move_outlier d ks) = dm_end d \<and>
    fmdom (dm_sparse (foldl move_outlier d ks)) = fmdom (dm_sparse d) |-| fset_of_list ks \<and>
    dm_len (foldl move_outlier d ks) = dm_len d"
  using assms
proof (induction ks arbitrary: d)
  case (Cons k ks)
  have k: "unat k < dm_end d" using Cons.prems by simp
  note m = move_outlier [OF Cons.prems(1) k]
  from Cons.IH [OF m(1)] Cons.prems(2) m show ?case by auto
qed simp

lemma sparse_min_irrelevant [simp]:
  "dm_end (d\<lparr>dm_sparse_min := x\<rparr>) = dm_end d" "lenient_get (d\<lparr>dm_sparse_min := x\<rparr>) i = lenient_get d i"
  by (auto simp: dm_end_def lenient_get_def)

lemma absorb_outliers:
  assumes free: "slots_free d" and least: "dm_sparse_min d = least_key (dm_sparse d)"
  shows "dm_base (absorb_outliers d) \<and> lenient_get (absorb_outliers d) i = lenient_get d i \<and>
    dm_end (absorb_outliers d) = dm_end d \<and> dm_len (absorb_outliers d) = dm_len d"
proof (cases "unat (dm_sparse_min d) < dm_end d")
  case True
  let ?ks = "sorted_list_of_fset (ffilter (\<lambda>k. uint k < int (dm_end d)) (fmdom (dm_sparse d)))"
  define d' where "d' = foldl move_outlier d ?ks"
  have ks: "\<forall>k \<in> set ?ks. unat k < dm_end d"
    by (simp add: uint_less_int)
  have eq: "absorb_outliers d = d'\<lparr>dm_sparse_min := least_key (dm_sparse d')\<rparr>"
    using True by (simp add: absorb_outliers_def Let_def d'_def uint_less_int)
  note m = move_outliers [OF free ks, folded d'_def]
  have "dm_end d' \<le> unat k" if "k |\<in>| fmdom (dm_sparse d')" for k
    using that m by (auto simp: uint_less_int)
  with m show ?thesis
    by (auto simp: eq dm_base_def slots_free_def)
next
  case False
  have "dm_end d \<le> unat k" if "k |\<in>| fmdom (dm_sparse d)" for k
    using False least_key_le [OF that] least by (simp add: word_le_nat_alt not_less)
  with False free least show ?thesis
    by (simp add: absorb_outliers_def uint_less_int dm_base_def slots_free_def)
qed

text \<open>After asking for the slot of an id the map holds what it held, and the id is in the vector exactly
  if a slot was given.\<close>

lemma dense_slot_facts:
  assumes base: "dm_base d"
  shows "case dm_dense_slot d i of
      (None, d') \<Rightarrow> d' = d \<and> dm_slot d i = None
    | (Some n, d') \<Rightarrow> n = unat i \<and> unat i < dm_end d' \<and> dm_base d' \<and> dm_len d' = dm_len d \<and>
        (\<forall>j. dm_get d' j = dm_get d j)"
proof (cases "dm_slot d i")
  case None
  let ?d1 = "d\<lparr>dm_chunks := grow_chunks (unat i) (dm_chunks d)\<rparr>"
  have old_end: "dm_end d \<le> dm_end ?d1"
    using grow_chunks_length [of "dm_chunks d" "unat i"] by (simp add: dm_end_def)
  have rd: "read_slot (dm_chunks ?d1) j = (if j < dm_end d then read_slot (dm_chunks d) j else None)"
    if "j < dm_end ?d1" for j
    using that read_slot_grow [of j "unat i" "dm_chunks d"] by (simp add: dm_end_def)
  have free: "slots_free ?d1"
    using base rd by (auto simp: slots_free_def dm_base_def chunks_ok_grow dest: leD)
  have get: "lenient_get ?d1 j = dm_get d j" for j
    using rd [of "unat j"] old_end no_outlier_below [OF base, of j]
    by (auto simp: lenient_get_def dm_get_def dm_slot_eq)
  have least: "dm_sparse_min ?d1 = least_key (dm_sparse ?d1)"
    using base by (simp add: dm_base_def)
  note ab = absorb_outliers [OF free least]
  have "unat i < dm_end ?d1"
    using grow_chunks_reaches [of "unat i" "dm_chunks d"] by (simp add: dm_end_def)
  then show ?thesis
    using None ab dm_get_lenient [of "absorb_outliers ?d1"] get
    by (simp add: dm_dense_slot_def Let_def)
next
  case (Some n)
  with base show ?thesis
    by (auto simp: dm_dense_slot_def dm_slot_eq split: if_splits)
qed

section \<open>The operations as map updates\<close>

lemma write_chunk_facts:
  assumes "dm_base d" and "unat i < dm_end d"
  shows "dm_get (d\<lparr>dm_chunks := write_slot (unat i) v (dm_chunks d)\<rparr>) j = (if j = i then v else dm_get d j)"
    and "dm_base (d\<lparr>dm_chunks := write_slot (unat i) v (dm_chunks d)\<rparr>)"
  using assms read_write_slot [of "dm_chunks d" "unat i" "unat j" v]
  by (auto simp: dm_base_def dm_get_def dm_slot_eq dm_end_def chunks_ok_write)

lemma write_sparse_facts:
  assumes "dm_base d" and "\<not> unat i < dm_end d"
  shows "dm_get (d\<lparr>dm_sparse_min := x, dm_sparse := fmupd i v (dm_sparse d)\<rparr>) j =
      (if j = i then Some v else dm_get d j)"
    and "x = min (dm_sparse_min d) i \<Longrightarrow>
      dm_base (d\<lparr>dm_sparse_min := x, dm_sparse := fmupd i v (dm_sparse d)\<rparr>)"
  using assms by (auto simp: dm_base_def dm_get_def dm_slot_eq dm_end_def least_key_upd)

lemma drop_sparse_facts:
  assumes "dm_base d" and "\<not> unat i < dm_end d"
  shows "dm_get (d\<lparr>dm_sparse := fmdrop i (dm_sparse d), dm_sparse_min := x\<rparr>) j =
      (if j = i then None else dm_get d j)"
    and "x = (if i = dm_sparse_min d then least_key (fmdrop i (dm_sparse d)) else dm_sparse_min d) \<Longrightarrow>
      dm_base (d\<lparr>dm_sparse := fmdrop i (dm_sparse d), dm_sparse_min := x\<rparr>)"
  using assms by (auto simp: dm_base_def dm_get_def dm_slot_eq dm_end_def least_key_drop fmdom_drop)

lemma len_irrelevant [simp]: "dm_get (d\<lparr>dm_len := n\<rparr>) i = dm_get d i" "dm_base (d\<lparr>dm_len := n\<rparr>) = dm_base d"
  by (simp_all add: dm_get_def dm_slot_eq dm_end_def dm_base_def)

lemma dm_insert_base:
  assumes base: "dm_base d"
  shows "fst (dm_insert d i v) = dm_get d i \<and> dm_base (snd (dm_insert d i v)) \<and>
    dm_len (snd (dm_insert d i v)) = (if dm_get d i = None then dm_len d + 1 else dm_len d) \<and>
    (\<forall>j. dm_get (snd (dm_insert d i v)) j = (if j = i then Some v else dm_get d j))"
proof -
  obtain so d' where ds: "dm_dense_slot d i = (so, d')" by fastforce
  note f = dense_slot_facts [OF base, of i, unfolded ds]
  show ?thesis
  proof (cases so)
    case None
    with f have d': "d' = d" and i: "\<not> unat i < dm_end d"
      by (auto simp: dm_slot_eq split: if_splits)
    then have "dm_get d i = fmlookup (dm_sparse d) i"
      by (simp add: dm_get_def dm_slot_eq)
    then show ?thesis
      using write_sparse_facts [OF base i, where x = "min (dm_sparse_min d) i"]
      by (simp add: dm_insert_def ds None d' Let_def)
  next
    case (Some n)
    with f have n: "n = unat i" and i: "unat i < dm_end d'" and base': "dm_base d'"
      and len: "dm_len d' = dm_len d" and get: "\<And>j. dm_get d' j = dm_get d j"
      by auto
    have "dm_get d' i = read_slot (dm_chunks d') n"
      using n i by (simp add: dm_get_def dm_slot_eq)
    then have "dm_get d i = read_slot (dm_chunks d') n"
      by (simp add: get)
    then show ?thesis
      using write_chunk_facts [OF base' i, where v = "Some v"]
      by (simp add: dm_insert_def ds Some n Let_def len get)
  qed
qed

lemma dm_remove_base:
  assumes base: "dm_base d"
  shows "fst (dm_remove d i) = dm_get d i \<and> dm_base (snd (dm_remove d i)) \<and>
    dm_len (snd (dm_remove d i)) = (if dm_get d i = None then dm_len d else dm_len d - 1) \<and>
    (\<forall>j. dm_get (snd (dm_remove d i)) j = (if j = i then None else dm_get d j))"
proof (cases "unat i < dm_end d")
  case True
  have "d\<lparr>dm_chunks := c, dm_len := l\<rparr> = (d\<lparr>dm_chunks := c\<rparr>)\<lparr>dm_len := l\<rparr>" for c l
    by simp
  then show ?thesis
    using True base write_chunk_facts [OF base True, where v = None]
    by (cases "read_slot (dm_chunks d) (unat i)")
      (auto simp: dm_remove_def dm_slot_eq dm_get_def [of d i])
next
  case False
  then show ?thesis
    using drop_sparse_facts [OF base False,
        where x = "if i = dm_sparse_min d then least_key (fmdrop i (dm_sparse d)) else dm_sparse_min d"]
    by (simp add: dm_remove_def dm_slot_eq dm_get_def [of d i] Let_def)
qed

lemma count_upd: "card {j. (if j = i then Some v else f j) \<noteq> None} =
    (if f i = None then card {j :: u64. f j \<noteq> None} + 1 else card {j. f j \<noteq> None})"
proof -
  have "{j. (if j = i then Some v else f j) \<noteq> None} = insert i {j. f j \<noteq> None}"
    by auto
  then show ?thesis by (auto simp: card_insert_if)
qed

lemma count_drop: "card {j. (if j = i then None else f j) \<noteq> None} =
    (if f i = None then card {j :: u64. f j \<noteq> None} else card {j. f j \<noteq> None} - 1)"
proof -
  have "{j. (if j = i then None else f j) \<noteq> None} = {j. f j \<noteq> None} - {i}"
    by auto
  then show ?thesis by (auto simp: card_Diff_singleton_if)
qed

lemma dm_insert_facts:
  assumes "dm_inv d"
  shows "fst (dm_insert d i v) = dm_get d i" "dm_inv (snd (dm_insert d i v))"
    "dm_get (snd (dm_insert d i v)) j = (if j = i then Some v else dm_get d j)"
  using assms dm_insert_base [of d i v] count_upd [of i v "dm_get d"] by (auto simp: dm_inv_def dm_count_def)

lemma dm_remove_facts:
  assumes "dm_inv d"
  shows "fst (dm_remove d i) = dm_get d i" "dm_inv (snd (dm_remove d i))"
    "dm_get (snd (dm_remove d i)) j = (if j = i then None else dm_get d j)"
  using assms dm_remove_base [of d i] count_drop [of i "dm_get d"] by (auto simp: dm_inv_def dm_count_def)

lemma dm_get_mut_facts:
  assumes "dm_inv d"
  shows "dm_inv (dm_get_mut d i f)"
    "dm_get (dm_get_mut d i f) j = (if j = i then map_option f (dm_get d i) else dm_get d j)"
proof -
  have base: "dm_base d" using assms by (simp add: dm_inv_def)
  have get: "dm_get (dm_get_mut d i f) j = (if j = i then map_option f (dm_get d i) else dm_get d j)" for j
  proof (cases "unat i < dm_end d")
    case True
    then show ?thesis
      using write_chunk_facts(1) [OF base True]
      by (cases "read_slot (dm_chunks d) (unat i)") (auto simp: dm_get_mut_def dm_slot_eq dm_get_def [of d i])
  next
    case False
    then show ?thesis
      using write_sparse_facts(1) [OF base False, where x = "dm_sparse_min d"]
      by (cases "fmlookup (dm_sparse d) i") (auto simp: dm_get_mut_def dm_slot_eq dm_get_def [of d i])
  qed
  then show "dm_get (dm_get_mut d i f) j = (if j = i then map_option f (dm_get d i) else dm_get d j)" .
  have "dm_base (dm_get_mut d i f)"
  proof (cases "unat i < dm_end d")
    case True
    then show ?thesis
      using base write_chunk_facts(2) [OF base True] by (simp add: dm_get_mut_def dm_slot_eq split: option.split)
  next
    case False
    have "fmlookup (dm_sparse d) i = Some v \<Longrightarrow> min (dm_sparse_min d) i = dm_sparse_min d" for v
      using base least_key_le [of i "dm_sparse d"] by (auto simp: dm_base_def min_def intro: fmdomI)
    then show ?thesis
      using False base write_sparse_facts(2) [OF base False, where x = "dm_sparse_min d"]
      by (auto simp: dm_get_mut_def dm_slot_eq split: option.split)
  qed
  moreover have "{j. dm_get (dm_get_mut d i f) j \<noteq> None} = {j. dm_get d j \<noteq> None}"
    using get by auto
  moreover have "dm_len (dm_get_mut d i f) = dm_len d"
    by (simp add: dm_get_mut_def split: option.split)
  ultimately show "dm_inv (dm_get_mut d i f)"
    using assms by (simp add: dm_inv_def dm_count_def)
qed

lemma entry_or_default_get_mut:
  assumes "dm_inv d"
  shows "dm_entry_or_default d i dflt f =
    dm_get_mut (if dm_contains_key d i then d else snd (dm_insert d i dflt)) i f"
proof -
  let ?d1 = "if dm_contains_key d i then d else snd (dm_insert d i dflt)"
  have "dm_get ?d1 i \<noteq> None"
    using dm_insert_facts(3) [OF assms, of i dflt i] by (simp add: dm_contains_key_def)
  then show ?thesis
    by (auto simp: dm_entry_or_default_def dm_get_mut_def Let_def dm_get_def split: option.splits)
qed

section \<open>Interpretation\<close>

lemma dm_default_inv: "dm_inv dm_default"
  by (simp add: dm_inv_def dm_base_def dm_default_def chunks_ok_def least_key_def fset_min_def dm_count_def
      dm_get_def dm_slot_def dm_end_def)

interpretation dense: key_map dm_default dm_get dm_insert dm_remove dm_len dm_inv
proof unfold_locales
  show "dm_get dm_default i = None" for i
    by (simp add: dm_default_def dm_get_def dm_slot_def dm_end_def)
  show "dm_inv m \<Longrightarrow> dm_len m = card {i. dm_get m i \<noteq> None}" for m :: "'a dense_map"
    by (simp add: dm_inv_def dm_count_def)
qed (auto simp: dm_default_inv dm_insert_facts dm_remove_facts)

section \<open>Iteration\<close>

lemma concat_chunks:
  assumes "chunks_ok cs"
  shows "length (concat cs) = length cs * CHUNK \<and> (\<forall>i < length cs * CHUNK. concat cs ! i = read_slot cs i)"
  using assms
proof (induction cs)
  case (Cons c cs)
  have c: "length c = CHUNK" and cs: "chunks_ok cs"
    using Cons.prems by (auto simp: chunks_ok_def)
  have "concat (c # cs) ! i = read_slot (c # cs) i" if i: "i < length (c # cs) * CHUNK" for i
  proof (cases "i < CHUNK")
    case False
    then obtain j where j: "i = j + CHUNK"
      by (metis add.commute le_Suc_ex not_less)
    with Cons.IH [OF cs] i c show ?thesis
      by (simp add: nth_append read_slot_def)
  qed (use c in \<open>simp add: nth_append read_slot_def\<close>)
  with Cons.IH [OF cs] c show ?case by simp
qed simp

lemma dm_iter_mem:
  assumes inv: "dm_inv d" and fits: "dm_end d \<le> 2 ^ 64"
  shows "(i, v) \<in> set (dm_iter d) \<longleftrightarrow> dm_get d i = Some v"
proof -
  have ok: "chunks_ok (dm_chunks d)"
    using inv by (simp add: dm_inv_def dm_base_def)
  note cc = concat_chunks [OF ok]
  have len: "length (concat (dm_chunks d)) = dm_end d"
    using cc by (simp add: dm_end_def)
  have "(i, v) \<in> set (List.map_filter (\<lambda>(i, v). map_option (Pair (of_nat i)) v) (enumerate 0 (concat (dm_chunks d))))
      \<longleftrightarrow> (\<exists>n < dm_end d. i = of_nat n \<and> read_slot (dm_chunks d) n = Some v)"
    using cc unfolding len [symmetric]
    by (fastforce simp: List.map_filter_def in_set_enumerate_eq image_iff dm_end_def)
  also have "\<dots> \<longleftrightarrow> unat i < dm_end d \<and> read_slot (dm_chunks d) (unat i) = Some v"
  proof
    assume "\<exists>n < dm_end d. i = of_nat n \<and> read_slot (dm_chunks d) n = Some v"
    then obtain n where n: "n < dm_end d" "i = of_nat n" "read_slot (dm_chunks d) n = Some v" by blast
    have "n < 2 ^ LENGTH(64)" using n(1) fits by simp
    then have "unat i = n" by (simp only: n(2) unat_of_nat_small)
    with n show "unat i < dm_end d \<and> read_slot (dm_chunks d) (unat i) = Some v" by simp
  next
    assume "unat i < dm_end d \<and> read_slot (dm_chunks d) (unat i) = Some v"
    then show "\<exists>n < dm_end d. i = of_nat n \<and> read_slot (dm_chunks d) n = Some v"
      by (intro exI [of _ "unat i"]) simp
  qed
  finally have dense: "(i, v) \<in> set (List.map_filter (\<lambda>(i, v). map_option (Pair (of_nat i)) v) (enumerate 0 (concat (dm_chunks d))))
      \<longleftrightarrow> unat i < dm_end d \<and> read_slot (dm_chunks d) (unat i) = Some v" .
  have sparse: "(i, v) \<in> set (sorted_list_of_fmap (dm_sparse d)) \<longleftrightarrow> fmlookup (dm_sparse d) i = Some v"
    by (auto simp: sorted_list_of_fmap_def image_iff fmlookup_dom_iff)
  show ?thesis
    using dense sparse no_outlier_below [of d i] inv
    by (auto simp: dm_iter_def dm_get_def dm_slot_eq dm_inv_def)
qed

section \<open>Properties\<close>

text \<open>C33. The dense map is a map: after any sequence of inserts and removals from the empty map, whatever
  the ids (dense, outliers, outliers that the vector later reaches), \<open>get\<close> returns the last value set
  for every id, \<open>len\<close> counts the ids with a value, and the next insert or removal returns the value it
  replaces.\<close>

theorem dense_map_history:
  fixes cs :: "(u64 \<times> 'v option) list"
  shows "let d = foldl (\<lambda>d (i, c). case c of Some v \<Rightarrow> snd (dm_insert d i v) | None \<Rightarrow> snd (dm_remove d i))
           dm_default cs in
    (\<forall>i. dm_get d i = (case newest (\<lambda>c. fst c = i) cs of Some c \<Rightarrow> snd c | None \<Rightarrow> None)) \<and>
    dm_len d = card {i. dm_get d i \<noteq> None} \<and>
    (\<forall>i v. fst (dm_insert d i v) = dm_get d i \<and> fst (dm_remove d i) = dm_get d i)"
proof -
  have fold: "foldl (\<lambda>d (i, c). case c of Some v \<Rightarrow> snd (dm_insert d i v) | None \<Rightarrow> snd (dm_remove d i))
      dm_default cs = foldl dense.change dm_default cs"
    by (intro foldl_cong) (auto simp: dense.change_def split: prod.split option.split)
  have inv: "dm_inv (foldl dense.change dm_default cs)"
    by (rule dense.history_inv) (rule dense.inv_emp)
  show ?thesis
    unfolding fold Let_def
    using dense.history [of cs] dense.size_card [OF inv] dense.old_ins [OF inv] dense.old_rem [OF inv] by blast
qed

text \<open>Shown too. A mutable borrow changes what it should: \<open>get_mut\<close> updates the value of a present id and
  nothing else, and \<open>entry_or_default\<close> does so after inserting the default where there is none; both keep
  the invariant, so the map's count and its outlier bound stay exact.\<close>

theorem dense_map_mutation:
  assumes "dm_inv d"
  shows "dm_inv (dm_get_mut d i f) \<and> dm_inv (dm_entry_or_default d i dflt f) \<and>
    dm_get (dm_get_mut d i f) j = (if j = i then map_option f (dm_get d i) else dm_get d j) \<and>
    dm_get (dm_entry_or_default d i dflt f) j =
      (if j = i then Some (f (case dm_get d i of Some v \<Rightarrow> v | None \<Rightarrow> dflt)) else dm_get d j)"
  using dm_get_mut_facts [OF assms, of i f] entry_or_default_get_mut [OF assms, of i dflt f]
    dm_get_mut_facts [OF dm_insert_facts(2) [OF assms, of i dflt], of i f] dm_insert_facts(3) [OF assms, of i dflt]
  by (auto simp: dm_contains_key_def split: option.split)

definition ex_dense :: "int dense_map" where
  "ex_dense = snd (dm_insert (snd (dm_insert dm_default 5000 1)) 3 2)"

theorem dense_map_mutation_witness:
  "dm_get (dm_get_mut ex_dense 5000 (\<lambda>v. v + 10)) 5000 = Some 11 \<and>
   dm_get (dm_entry_or_default ex_dense 4 0 (\<lambda>v. v - 1)) 4 = Some (- 1)"
proof -
  have inv: "dm_inv ex_dense"
    unfolding ex_dense_def by (intro dense.inv_ins dense.inv_emp)
  have get: "dm_get ex_dense j = (if j = 3 then Some 2 else if j = 5000 then Some 1 else None)" for j
    by (simp add: ex_dense_def dense.get_ins dense.inv_ins dense.inv_emp dense.get_emp)
  show ?thesis
    using dense_map_mutation [OF inv, of 5000 "\<lambda>v. v + 10" 0 5000]
      dense_map_mutation [OF inv, of 4 "\<lambda>v. v - 1" 0 4]
    by (simp add: get)
qed

text \<open>Shown too. Iteration yields exactly the entries of the map, those of the vector and the outliers, while the
  vector stays within the range of ids.\<close>

theorem dense_map_iter_exact:
  assumes "dm_inv d" and "dm_end d \<le> 2 ^ 64"
  shows "set (dm_iter d) = {(i, v). dm_get d i = Some v}"
  using dm_iter_mem [OF assms] by auto

theorem dense_map_iter_exact_witness:
  "(5000, 1) \<in> set (dm_iter (snd (dm_insert dm_default 5000 (1::int))))"
proof -
  let ?d = "snd (dm_insert dm_default 5000 (1::int))"
  have "dm_inv ?d"
    by (intro dense.inv_ins dense.inv_emp)
  moreover have "dm_end ?d \<le> 2 ^ 64"
    by (simp add: dm_insert_def dm_dense_slot_def dm_slot_def dm_end_def dm_default_def u64_saturate_def)
  ultimately show ?thesis
    using dense_map_iter_exact [of ?d] by (simp add: dense.get_ins dense.inv_emp)
qed

end
