(* ===== verification/Csr.thy ===== *)
theory Csr
  imports Drevo_Prelude
begin

text \<open>
  The compressed-sparse-row adjacency of \<^verbatim>\<open>src/drevo-core/src/csr.rs\<close>.

  Positions and lengths are natural numbers; the casts \<open>as u32\<close> wrap, so the two index arrays hold
  32-bit words. Slicing out of range panics in the code: \<open>neighbors_of\<close> is \<open>None\<close> then. The worker
  threads of \<open>par_map\<close> write disjoint slices, so each is the list it computes for its slice.
\<close>

section \<open>The model\<close>

record csr =
  csr_vertices :: "u64 list"
  csr_offsets :: "u32 list"
  csr_neighbors :: "u32 list"

definition csr_row :: "u64 list \<Rightarrow> (u64 \<Rightarrow> u64 list) \<Rightarrow> u64 \<Rightarrow> u32 list" where
  "csr_row vertices out_neighbors i =
     sort (List.map_filter (\<lambda>n. map_option of_nat (binary_search vertices n)) (out_neighbors i))"

fun csr_rows ::
    "u64 list \<Rightarrow> (u64 \<Rightarrow> u64 list) \<Rightarrow> u64 list \<Rightarrow> u32 list \<Rightarrow> u32 list \<Rightarrow> u32 list \<times> u32 list" where
  "csr_rows vertices out_neighbors [] offsets neighbors = (offsets, neighbors)"
| "csr_rows vertices out_neighbors (i # todo) offsets neighbors =
     (let ns = neighbors @ csr_row vertices out_neighbors i in
      csr_rows vertices out_neighbors todo (offsets @ [of_nat (length ns)]) ns)"

definition from_out_neighbors :: "u64 list \<Rightarrow> (u64 \<Rightarrow> u64 list) \<Rightarrow> csr" where
  "from_out_neighbors vertices out_neighbors =
     (let (offsets, neighbors) = csr_rows vertices out_neighbors vertices [0] []
      in \<lparr>csr_vertices = vertices, csr_offsets = offsets, csr_neighbors = neighbors\<rparr>)"

definition vertex_count :: "csr \<Rightarrow> nat" where
  "vertex_count c = length (csr_vertices c)"

definition edge_count :: "csr \<Rightarrow> nat" where
  "edge_count c = length (csr_neighbors c)"

definition csr_node_id :: "csr \<Rightarrow> nat \<Rightarrow> u64 option" where
  "csr_node_id c i = (if i < length (csr_vertices c) then Some (csr_vertices c ! i) else None)"

definition csr_index_of :: "csr \<Rightarrow> u64 \<Rightarrow> nat option" where
  "csr_index_of c n = binary_search (csr_vertices c) n"

definition neighbors_of :: "csr \<Rightarrow> nat \<Rightarrow> u32 list option" where
  "neighbors_of c i =
     (if i + 1 < length (csr_offsets c)
      then let start = unat (csr_offsets c ! i); stop = unat (csr_offsets c ! (i + 1)) in
        (if start \<le> stop \<and> stop \<le> length (csr_neighbors c)
         then Some (take (stop - start) (drop start (csr_neighbors c))) else None)
      else Some [])"

definition out_degree :: "csr \<Rightarrow> nat \<Rightarrow> nat option" where
  "out_degree c i = map_option length (neighbors_of c i)"

definition div_ceil :: "nat \<Rightarrow> nat \<Rightarrow> nat" where
  "div_ceil a b = (if a mod b = 0 then a div b else a div b + 1)"

text \<open>The slices of \<open>chunks_mut\<close>, each with its base index, as the lists their workers compute.\<close>

function par_slices :: "nat \<Rightarrow> nat \<Rightarrow> nat \<Rightarrow> (nat \<Rightarrow> 'a) \<Rightarrow> 'a list list" where
  "par_slices chunk base remaining f =
     (if remaining = 0 \<or> chunk = 0 then []
      else let len = min chunk remaining in
        map (\<lambda>off. f (base + off)) [0..<len] # par_slices chunk (base + len) (remaining - len) f)"
  by pat_completeness auto
termination
  by (relation "measure (\<lambda>(chunk, base, remaining, f). remaining)") auto

declare par_slices.simps [simp del]

definition par_map :: "csr \<Rightarrow> nat \<Rightarrow> (nat \<Rightarrow> 'a) \<Rightarrow> 'a list" where
  "par_map c threads f =
     (let n = vertex_count c in
      if n = 0 then []
      else let threads = max 1 (min threads n); chunk = div_ceil n threads in
        concat (par_slices chunk 0 n f))"

section \<open>Building\<close>

text \<open>What the loop leaves: the concatenated rows, and the running lengths.\<close>

lemma csr_rows_eq:
  "csr_rows vs out todo os ns =
     (os @ map (\<lambda>k. of_nat (length ns + length (concat (map (csr_row vs out) (take (Suc k) todo))))) [0..<length todo],
      ns @ concat (map (csr_row vs out) todo))"
proof (induction todo arbitrary: os ns)
  case (Cons i todo)
  show ?case
    by (simp add: Cons.IH Let_def upt_conv_Cons map_Suc_upt [symmetric] add.assoc del: upt_Suc)
qed simp

abbreviation csr_all_rows :: "u64 list \<Rightarrow> (u64 \<Rightarrow> u64 list) \<Rightarrow> u32 list list" where
  "csr_all_rows vs out \<equiv> map (csr_row vs out) vs"

lemma csr_offsets_nth:
  assumes "i \<le> length vs"
  shows "csr_offsets (from_out_neighbors vs out) ! i = of_nat (length (concat (take i (csr_all_rows vs out))))"
  using assms
  by (cases i) (simp_all add: from_out_neighbors_def csr_rows_eq take_map nth_append Suc_le_eq)

lemma csr_offsets_length: "length (csr_offsets (from_out_neighbors vs out)) = length vs + 1"
  by (simp add: from_out_neighbors_def csr_rows_eq)

lemma csr_neighbors_eq: "csr_neighbors (from_out_neighbors vs out) = concat (csr_all_rows vs out)"
  by (simp add: from_out_neighbors_def csr_rows_eq)

lemma length_concat_take_le: "length (concat (take i xss)) \<le> length (concat xss)"
  by (metis append_take_drop_id concat_append le_add1 length_append)

lemma csr_neighbors_of_row:
  assumes "i < length vs" and "length (concat (csr_all_rows vs out)) < 2 ^ 32"
  shows "neighbors_of (from_out_neighbors vs out) i = Some (csr_row vs out (vs ! i))"
proof -
  let ?rows = "csr_all_rows vs out" and ?c = "from_out_neighbors vs out"
  have off: "unat (csr_offsets ?c ! j) = length (concat (take j ?rows))" if "j \<le> length vs" for j
    using that length_concat_take_le [of j ?rows] assms(2)
    by (simp add: csr_offsets_nth unat_of_nat_small)
  have split: "concat ?rows = concat (take i ?rows) @ csr_row vs out (vs ! i) @ concat (drop (Suc i) ?rows)"
    using assms(1) by (metis append_take_drop_id concat.simps(2) concat_append id_take_nth_drop length_map nth_map)
  have step: "length (concat (take (Suc i) ?rows)) = length (concat (take i ?rows)) + length (csr_row vs out (vs ! i))"
    using assms(1) by (simp add: take_Suc_conv_app_nth)
  have "take (length (concat (take (Suc i) ?rows)) - length (concat (take i ?rows)))
      (drop (length (concat (take i ?rows))) (concat ?rows)) = csr_row vs out (vs ! i)"
    unfolding step by (subst split) simp
  then show ?thesis
    using assms(1) off [of i] off [of "Suc i"] step length_concat_take_le [of "Suc i" ?rows]
    by (simp add: neighbors_of_def csr_offsets_length csr_neighbors_eq Let_def)
qed

section \<open>Properties\<close>

lemma set_map_filter: "set (List.map_filter f xs) = {y. \<exists>x \<in> set xs. f x = Some y}"
  by (induction xs) (auto simp: map_filter_simps split: option.splits)

text \<open>C34. The flattened adjacency is the graph's: for a sorted list of distinct vertices, the slice of
  vertex \<open>i\<close> lists, in ascending order, exactly the dense indices of its out-neighbours that are
  vertices (dangling ids are skipped), as long as the vertices and the entries can be counted in 32
  bits, as the arrays of the code can index.\<close>

theorem csr_neighbors_exact:
  assumes "sorted vs" and "distinct vs" and "length vs < 2 ^ 32"
    and "length (concat (map (csr_row vs out) vs)) < 2 ^ 32" and "i < length vs"
  shows "\<exists>row. neighbors_of (from_out_neighbors vs out) i = Some row \<and> sorted row \<and>
    set row = {of_nat j |j. j < length vs \<and> vs ! j \<in> set (out (vs ! i))} \<and>
    (\<forall>j. j < length vs \<and> vs ! j \<in> set (out (vs ! i)) \<longleftrightarrow> j < length vs \<and> of_nat j \<in> set row)"
proof -
  let ?row = "csr_row vs out (vs ! i)"
  have set: "set ?row = {of_nat j |j. j < length vs \<and> vs ! j \<in> set (out (vs ! i))}"
    by (auto simp: csr_row_def set_map_filter binary_search_iff [OF assms(1,2)])
  have inj: "of_nat j = (of_nat k :: u32) \<longleftrightarrow> j = k" if "j < length vs" "k < length vs" for j k
  proof -
    have "unat (of_nat j :: u32) = j" and "unat (of_nat k :: u32) = k"
      using that assms(3) by (simp_all add: unat_of_nat_small)
    then show ?thesis by metis
  qed
  show ?thesis
    using csr_neighbors_of_row [OF assms(5,4)] set inj
    by (intro exI [of _ ?row]) (auto simp: csr_row_def)
qed

definition ex_out :: "u64 \<Rightarrow> u64 list" where
  "ex_out n = (if n = 1 then [9, 5, 77] else if n = 9 then [1] else [])"

theorem csr_neighbors_exact_witness:
  "\<exists>row. neighbors_of (from_out_neighbors [1, 5, 9] ex_out) 0 = Some row \<and> sorted row \<and> 2 \<in> set row"
proof -
  have len: "length (concat (map (csr_row [1, 5, 9] ex_out) [1, 5, 9])) = 3"
    by code_simp
  have "sorted [1, 5, 9 :: u64]" "distinct [1, 5, 9 :: u64]" "length [1, 5, 9 :: u64] < 2 ^ 32" "0 < length [1, 5, 9 :: u64]"
    and "length (concat (map (csr_row [1, 5, 9] ex_out) [1, 5, 9])) < 2 ^ 32"
    unfolding len by simp_all
  from csr_neighbors_exact [OF this(1-3,5,4)]
  obtain row where row: "neighbors_of (from_out_neighbors [1, 5, 9] ex_out) 0 = Some row" "sorted row"
    and mem: "\<forall>j. j < length [1, 5, 9 :: u64] \<and> [1, 5, 9] ! j \<in> set (ex_out ([1, 5, 9] ! 0)) \<longleftrightarrow>
      j < length [1, 5, 9 :: u64] \<and> of_nat j \<in> set row"
    by blast
  have "(2 :: u32) \<in> set row"
    using mem [rule_format, of 2] by (simp add: ex_out_def)
  with row show ?thesis by blast
qed

lemma par_slices_concat:
  "0 < chunk \<Longrightarrow> concat (par_slices chunk base n f) = map f [base..<base + n]"
proof (induction chunk base n f rule: par_slices.induct)
  case (1 chunk base n f)
  let ?len = "min chunk n"
  show ?case
  proof (cases "n = 0")
    case False
    then have "concat (par_slices chunk base n f) =
        map (\<lambda>off. f (base + off)) [0..<?len] @ map f [base + ?len..<base + ?len + (n - ?len)]"
      using 1 by (subst par_slices.simps) (simp add: Let_def)
    also have "map (\<lambda>off. f (base + off)) [0..<?len] = map f [base..<base + ?len]"
      by (rule nth_equalityI) auto
    also have "map f [base..<base + ?len] @ map f [base + ?len..<base + ?len + (n - ?len)] = map f [base..<base + n]"
      using upt_add_eq_append [of base "base + ?len" "n - ?len"] by simp
    finally show ?thesis .
  qed (subst par_slices.simps, simp)
qed

text \<open>Shown too. The parallel scan computes what the sequential one does: for every number of threads, the slices
  cover every vertex once and in order, so the result is \<open>f\<close> at \<open>0, 1, ..., vertex_count - 1\<close>.\<close>

theorem par_map_sequential:
  "par_map c threads f = map f [0..<vertex_count c]"
proof (cases "vertex_count c = 0")
  case False
  let ?t = "max 1 (min threads (vertex_count c))"
  have "0 < div_ceil (vertex_count c) ?t"
    using False by (auto simp: div_ceil_def div_greater_zero_iff)
  from par_slices_concat [OF this, of 0 "vertex_count c" f] False show ?thesis
    by (simp add: par_map_def Let_def)
qed (simp add: par_map_def)

end
