(* ===== verification/Properties.thy ===== *)
theory Properties
  imports Key_Map "HOL-Library.Char_ord" "HOL-Library.List_Lexorder"
begin

text \<open>
  The property maps of \<^verbatim>\<open>src/drevo-core/src/properties.rs\<close>: a vector of name/value pairs sorted by
  name, searched by bisection. Names compare by their bytes, the lexicographic order on strings. The
  pool of shared names is invisible in a value model (an interned name is the name), and the serde
  implementations are not modelled; values are a type parameter.
\<close>

section \<open>The model\<close>

record 'j properties =
  p_entries :: "(string \<times> 'j) list"

definition props_new :: "'j properties" where
  "props_new = \<lparr>p_entries = []\<rparr>"

text \<open>\<open>binary_search_by\<close>: \<open>Inr\<close> the position of the key, or \<open>Inl\<close> where it would be inserted.\<close>

definition props_find :: "'j properties \<Rightarrow> string \<Rightarrow> nat + nat" where
  "props_find p key =
     (let es = p_entries p; i = partition_point (\<lambda>e. fst e < key) es in
      if i < length es \<and> fst (es ! i) = key then Inr i else Inl i)"

definition props_len :: "'j properties \<Rightarrow> nat" where
  "props_len p = length (p_entries p)"

definition props_is_empty :: "'j properties \<Rightarrow> bool" where
  "props_is_empty p \<longleftrightarrow> p_entries p = []"

definition props_get :: "'j properties \<Rightarrow> string \<Rightarrow> 'j option" where
  "props_get p key = (case props_find p key of Inr i \<Rightarrow> Some (snd (p_entries p ! i)) | Inl _ \<Rightarrow> None)"

definition props_get_mut :: "'j properties \<Rightarrow> string \<Rightarrow> ('j \<Rightarrow> 'j) \<Rightarrow> 'j properties" where
  "props_get_mut p key f =
     (case props_find p key of
        Inr i \<Rightarrow> p\<lparr>p_entries := (p_entries p)[i := (fst (p_entries p ! i), f (snd (p_entries p ! i)))]\<rparr>
      | Inl _ \<Rightarrow> p)"

definition props_contains_key :: "'j properties \<Rightarrow> string \<Rightarrow> bool" where
  "props_contains_key p key = (case props_find p key of Inr _ \<Rightarrow> True | Inl _ \<Rightarrow> False)"

definition props_insert :: "'j properties \<Rightarrow> string \<Rightarrow> 'j \<Rightarrow> 'j option \<times> 'j properties" where
  "props_insert p key v =
     (case props_find p key of
        Inr i \<Rightarrow>
          (Some (snd (p_entries p ! i)), p\<lparr>p_entries := (p_entries p)[i := (fst (p_entries p ! i), v)]\<rparr>)
      | Inl i \<Rightarrow>
          (None, p\<lparr>p_entries := take i (p_entries p) @ (key, v) # drop i (p_entries p)\<rparr>))"

definition props_remove :: "'j properties \<Rightarrow> string \<Rightarrow> 'j option \<times> 'j properties" where
  "props_remove p key =
     (case props_find p key of
        Inr i \<Rightarrow>
          (Some (snd (p_entries p ! i)), p\<lparr>p_entries := take i (p_entries p) @ drop (Suc i) (p_entries p)\<rparr>)
      | Inl _ \<Rightarrow> (None, p))"

text \<open>\<open>retain_mut\<close> with a callback that may change the value it looks at.\<close>

definition props_retain :: "'j properties \<Rightarrow> (string \<Rightarrow> 'j \<Rightarrow> bool \<times> 'j) \<Rightarrow> 'j properties" where
  "props_retain p keep =
     p\<lparr>p_entries :=
        List.map_filter (\<lambda>(k, v). case keep k v of (b, v') \<Rightarrow> if b then Some (k, v') else None) (p_entries p)\<rparr>"

definition props_clear :: "'j properties \<Rightarrow> 'j properties" where
  "props_clear p = p\<lparr>p_entries := []\<rparr>"

definition props_iter :: "'j properties \<Rightarrow> (string \<times> 'j) list" where
  "props_iter p = p_entries p"

definition props_keys :: "'j properties \<Rightarrow> string list" where
  "props_keys p = map fst (p_entries p)"

definition props_values :: "'j properties \<Rightarrow> 'j list" where
  "props_values p = map snd (p_entries p)"

definition props_extend :: "'j properties \<Rightarrow> (string \<times> 'j) list \<Rightarrow> 'j properties" where
  "props_extend p kvs = foldl (\<lambda>p (k, v). snd (props_insert p k v)) p kvs"

definition props_from_iter :: "(string \<times> 'j) list \<Rightarrow> 'j properties" where
  "props_from_iter kvs = props_extend props_new kvs"

definition props_index :: "'j \<Rightarrow> 'j properties \<Rightarrow> string \<Rightarrow> 'j" where
  "props_index null p key = (case props_get p key of Some v \<Rightarrow> v | None \<Rightarrow> null)"

section \<open>The sorted vector as a map\<close>

definition props_inv :: "'j properties \<Rightarrow> bool" where
  "props_inv p \<longleftrightarrow> sorted_wrt (<) (map fst (p_entries p))"

lemma sorted_wrt_less_sorted: "sorted_wrt (<) xs \<longleftrightarrow> sorted (xs :: 'a::linorder list) \<and> distinct xs"
  using strict_sorted_iff by blast

lemma drop_above:
  fixes key :: "'a::linorder"
  assumes "sorted_wrt (<) (map fst es)" and "key \<le> fst (es ! i)" and "fst (es ! i) \<noteq> key" and "e \<in> set (drop i es)"
  shows "key < fst e"
proof -
  obtain j where j: "i + j < length es" "e = es ! (i + j)"
    using assms(4) by (auto simp: in_set_conv_nth less_diff_conv2 add.commute) (metis add.commute less_diff_conv)
  have "fst (es ! i) \<le> fst (es ! (i + j))"
    using assms(1) j by (cases j) (auto simp: sorted_wrt_iff_nth_less intro: order_less_imp_le)
  moreover have "key < fst (es ! i)"
    using assms(2,3) by simp
  ultimately show ?thesis
    unfolding j(2) by simp
qed

text \<open>Bisection splits the vector at the key.\<close>

lemma props_split:
  assumes "props_inv p"
  shows "case props_find p key of
      Inr i \<Rightarrow> i < length (p_entries p) \<and> fst (p_entries p ! i) = key
    | Inl i \<Rightarrow> i \<le> length (p_entries p) \<and> (\<forall>e \<in> set (take i (p_entries p)). fst e < key) \<and>
        (\<forall>e \<in> set (drop i (p_entries p)). key < fst e)"
proof -
  let ?es = "p_entries p" and ?P = "\<lambda>e :: string \<times> 'a. fst e < key"
  let ?i = "partition_point ?P ?es"
  have sorted: "sorted (map fst ?es)"
    using assms by (simp add: props_inv_def sorted_wrt_less_sorted)
  note pp = partition_point_takeWhile [OF partitioned_less(1) [OF sorted, of key]]
  have low: "\<forall>e \<in> set (take ?i ?es). fst e < key"
    unfolding pp(1) [symmetric] by (auto dest: set_takeWhileD)
  have high: "\<forall>e \<in> set (drop ?i ?es). key \<le> fst e"
  proof (cases "drop ?i ?es")
    case (Cons e es)
    then have "\<not> fst e < key"
      using pp(2) hd_dropWhile [of ?P ?es] by simp
    moreover have "sorted (map fst (drop ?i ?es))"
      using sorted by (simp add: drop_map [symmetric] sorted_wrt_drop)
    ultimately show ?thesis
      using Cons by auto
  qed simp
  have "key < fst e" if no: "\<not> (?i < length ?es \<and> fst (?es ! ?i) = key)" and e: "e \<in> set (drop ?i ?es)" for e
  proof (rule drop_above [OF _ _ _ e])
    have i: "?i < length ?es"
      using e by (cases "?i < length ?es") auto
    then have "?es ! ?i \<in> set (drop ?i ?es)"
      by (metis Cons_nth_drop_Suc list.set_intros(1))
    then show "key \<le> fst (?es ! ?i)"
      using high by blast
    show "fst (?es ! ?i) \<noteq> key"
      using no i by blast
    show "sorted_wrt (<) (map fst ?es)"
      using assms by (simp add: props_inv_def)
  qed
  then have high': "\<not> (?i < length ?es \<and> fst (?es ! ?i) = key) \<Longrightarrow> \<forall>e \<in> set (drop ?i ?es). key < fst e"
    by blast
  show ?thesis
  proof (cases "?i < length ?es \<and> fst (?es ! ?i) = key")
    case True
    then have "props_find p key = Inr ?i"
      by (simp only: props_find_def Let_def if_True simp_thms)
    with True show ?thesis by (simp only: sum.case simp_thms)
  next
    case False
    then have "props_find p key = Inl ?i"
      by (simp only: props_find_def Let_def if_False)
    with low pp(3) high' [OF False] show ?thesis by (simp only: sum.case simp_thms)
  qed
qed

lemma props_get_map_of:
  assumes "props_inv p"
  shows "props_get p key = map_of (p_entries p) key"
proof (cases "props_find p key")
  case (Inr i)
  with props_split [OF assms, of key] have i: "i < length (p_entries p)" "fst (p_entries p ! i) = key"
    by auto
  have "distinct (map fst (p_entries p))"
    using assms by (simp add: props_inv_def sorted_wrt_less_sorted)
  then have "map_of (p_entries p) key = Some (snd (p_entries p ! i))"
    using i by (metis map_of_eq_Some_iff nth_mem prod.collapse)
  with Inr show ?thesis by (simp add: props_get_def)
next
  case (Inl i)
  with props_split [OF assms, of key]
  have "\<forall>e \<in> set (take i (p_entries p) @ drop i (p_entries p)). fst e \<noteq> key"
    unfolding set_append by auto
  then have "key \<notin> fst ` set (p_entries p)"
    by auto
  then have "map_of (p_entries p) key = None"
    by (simp only: map_of_eq_None_iff not_False_eq_True)
  with Inl show ?thesis
    by (simp add: props_get_def)
qed

lemma props_inv_Inl:
  assumes "props_inv p" and "props_find p key = Inl i"
  shows "props_inv (p\<lparr>p_entries := take i (p_entries p) @ (key, v) # drop i (p_entries p)\<rparr>)"
proof -
  let ?es = "p_entries p"
  have sorted: "sorted_wrt (<) (map fst (take i ?es @ drop i ?es))"
    using assms(1) by (simp add: props_inv_def)
  have "\<forall>e \<in> set (take i ?es). fst e < key" "\<forall>e \<in> set (drop i ?es). key < fst e"
    using props_split [OF assms(1), of key] assms(2) by auto
  with sorted show ?thesis
    unfolding props_inv_def map_append sorted_wrt_append by (auto simp: sorted_wrt_append)
qed

lemma map_fst_update: "i < length es \<Longrightarrow> map fst (es[i := (fst (es ! i), v)]) = map fst es"
  by (rule nth_equalityI) (auto simp: nth_list_update)

lemma map_of_mid:
  "a \<notin> fst ` set xs \<Longrightarrow> map_of (xs @ (a, v) # ys) k = (if k = a then Some v else map_of (xs @ ys) k)"
  by (induction xs) auto

text \<open>A vector seen from one of its positions.\<close>

lemma map_of_at:
  assumes "distinct (map fst es)" and "i < length es"
  shows "map_of es k = (if k = fst (es ! i) then Some (snd (es ! i)) else map_of (take i es @ drop (Suc i) es) k)"
    and "fst (es ! i) \<notin> fst ` set (take i es @ drop (Suc i) es)"
proof -
  have es: "es = take i es @ (fst (es ! i), snd (es ! i)) # drop (Suc i) es"
    using assms(2) by (simp add: id_take_nth_drop)
  have "distinct (map fst (take i es @ (fst (es ! i), snd (es ! i)) # drop (Suc i) es))"
    using assms(1) es by simp
  then show no: "fst (es ! i) \<notin> fst ` set (take i es @ drop (Suc i) es)"
    by auto
  then have "fst (es ! i) \<notin> fst ` set (take i es)"
    by auto
  from map_of_mid [OF this, of "snd (es ! i)" "drop (Suc i) es" k]
  show "map_of es k = (if k = fst (es ! i) then Some (snd (es ! i)) else map_of (take i es @ drop (Suc i) es) k)"
    unfolding es [symmetric] .
qed

lemma map_of_update:
  assumes "distinct (map fst es)" and "i < length es"
  shows "map_of (es[i := (fst (es ! i), v)]) k = (if k = fst (es ! i) then Some v else map_of es k)"
proof -
  have "es[i := (fst (es ! i), v)] = take i es @ (fst (es ! i), v) # drop (Suc i) es"
    using assms(2) by (simp add: upd_conv_take_nth_drop)
  moreover have "fst (es ! i) \<notin> fst ` set (take i es)"
    using map_of_at(2) [OF assms] by auto
  ultimately show ?thesis
    using map_of_at(1) [OF assms, of k] by (simp add: map_of_mid del: map_of_append)
qed

lemma map_of_remove:
  assumes "distinct (map fst es)" and "i < length es"
  shows "map_of (take i es @ drop (Suc i) es) k = (if k = fst (es ! i) then None else map_of es k)"
  using map_of_at(1) [OF assms, of k] map_of_at(2) [OF assms]
    map_of_eq_None_iff [of "take i es @ drop (Suc i) es" k]
  by (cases "k = fst (es ! i)") (simp_all del: map_of_append)

lemma props_distinct: "props_inv p \<Longrightarrow> distinct (map fst (p_entries p))"
  by (simp add: props_inv_def sorted_wrt_less_sorted)

lemma props_insert_facts:
  assumes inv: "props_inv p"
  shows "fst (props_insert p k v) = props_get p k" "props_inv (snd (props_insert p k v))"
    "map_of (p_entries (snd (props_insert p k v))) j = (if j = k then Some v else map_of (p_entries p) j)"
proof -
  show "fst (props_insert p k v) = props_get p k"
    by (simp add: props_insert_def props_get_def split: sum.split)
  show "props_inv (snd (props_insert p k v))"
    using props_split [OF inv, of k] props_inv_Inl [OF inv, of k] inv
    by (auto simp: props_insert_def props_inv_def map_fst_update split: sum.splits)
  show "map_of (p_entries (snd (props_insert p k v))) j = (if j = k then Some v else map_of (p_entries p) j)"
  proof (cases "props_find p k")
    case (Inr i)
    with props_split [OF inv, of k] have i: "i < length (p_entries p)" "fst (p_entries p ! i) = k"
      by auto
    with map_of_update [OF props_distinct [OF inv] i(1), of v j] Inr show ?thesis
      by (simp add: props_insert_def)
  next
    case (Inl i)
    with props_split [OF inv, of k] have "k \<notin> fst ` set (take i (p_entries p))"
      by auto
    from map_of_mid [OF this, of v "drop i (p_entries p)" j] Inl show ?thesis
      by (simp add: props_insert_def del: map_of_append)
  qed
qed

lemma props_remove_facts:
  assumes inv: "props_inv p"
  shows "fst (props_remove p k) = props_get p k" "props_inv (snd (props_remove p k))"
    "map_of (p_entries (snd (props_remove p k))) j = (if j = k then None else map_of (p_entries p) j)"
proof -
  show "fst (props_remove p k) = props_get p k"
    by (simp add: props_remove_def props_get_def split: sum.split)
  have sorted: "sorted_wrt (<) (map fst (take i (p_entries p)) @ map fst (drop (Suc i) (p_entries p)))" for i
  proof -
    have "sorted_wrt (<) (map fst (take i (p_entries p)) @ map fst (drop i (p_entries p)))"
      using inv by (simp add: props_inv_def map_append [symmetric])
    moreover have "set (drop (Suc i) (p_entries p)) \<subseteq> set (drop i (p_entries p))"
      by (rule set_drop_subset_set_drop) simp
    moreover have "sorted_wrt (<) (map fst (drop (Suc i) (p_entries p)))"
      using inv by (simp add: props_inv_def drop_map [symmetric] sorted_wrt_drop)
    ultimately show ?thesis
      unfolding sorted_wrt_append by auto
  qed
  then show "props_inv (snd (props_remove p k))"
    using inv by (simp add: props_remove_def props_inv_def split: sum.split)
  show "map_of (p_entries (snd (props_remove p k))) j = (if j = k then None else map_of (p_entries p) j)"
  proof (cases "props_find p k")
    case (Inr i)
    with props_split [OF inv, of k] have i: "i < length (p_entries p)" "fst (p_entries p ! i) = k"
      by auto
    with map_of_remove [OF props_distinct [OF inv] i(1), of j] Inr show ?thesis
      by (simp add: props_remove_def del: map_of_append)
  next
    case (Inl i)
    then have "map_of (p_entries p) k = None"
      using props_get_map_of [OF inv, of k] by (simp add: props_get_def)
    with Inl show ?thesis by (simp add: props_remove_def)
  qed
qed

interpretation props: key_map props_new props_get props_insert props_remove props_len props_inv
proof unfold_locales
  show "props_inv props_new"
    by (simp add: props_inv_def props_new_def)
  then show "props_get props_new i = None" for i
    using props_get_map_of [of props_new i] by (simp add: props_new_def)
  fix m :: "'a properties" and i v j
  assume inv: "props_inv m"
  note ins = props_insert_facts [OF inv] and rem = props_remove_facts [OF inv]
  show "props_inv (snd (props_insert m i v))" "fst (props_insert m i v) = props_get m i"
    "props_inv (snd (props_remove m i))" "fst (props_remove m i) = props_get m i"
    by (rule ins rem)+
  show "props_get (snd (props_insert m i v)) j = (if j = i then Some v else props_get m j)"
    by (simp add: props_get_map_of ins inv)
  show "props_get (snd (props_remove m i)) j = (if j = i then None else props_get m j)"
    by (simp add: props_get_map_of rem inv)
  have "{i. props_get m i \<noteq> None} = fst ` set (p_entries m)"
    using dom_map_of_conv_image_fst [of "p_entries m"] by (auto simp: props_get_map_of [OF inv] dom_def)
  then show "props_len m = card {i. props_get m i \<noteq> None}"
    using distinct_card [OF props_distinct [OF inv]] by (simp add: props_len_def)
qed

section \<open>Properties\<close>

lemma map_of_tabulate: "distinct (map fst xs) \<Longrightarrow> map (\<lambda>k. (k, the (map_of xs k))) (map fst xs) = xs"
  by (auto intro!: map_idI)

lemma sorted_map_of_unique:
  assumes "sorted_wrt (<) (map fst (xs :: ('a::linorder \<times> 'b) list))" and "sorted_wrt (<) (map fst ys)"
    and "map_of xs = map_of ys"
  shows "xs = ys"
proof -
  have d: "distinct (map fst xs)" "distinct (map fst ys)"
    using assms(1,2) by (simp_all add: sorted_wrt_less_sorted)
  have "set (map fst xs) = set (map fst ys)"
    using assms(3) by (metis dom_map_of_conv_image_fst list.set_map)
  then have "map fst xs = map fst ys"
    using assms(1,2) by (metis sorted_distinct_set_unique sorted_wrt_less_sorted)
  then show ?thesis
    using map_of_tabulate [OF d(1)] map_of_tabulate [OF d(2)] assms(3) by simp
qed

text \<open>Shown too. A property map is a map, and a canonical one: built from any list of entries and changed by any
  sequence of inserts and removals it returns the last value set for a name, lists its names in strictly
  ascending order, and has as many entries as names with a value.\<close>

theorem properties_history:
  fixes kvs :: "(string \<times> 'j) list" and cs :: "(string \<times> 'j option) list"
  shows "let p = foldl (\<lambda>p (k, c). case c of Some v \<Rightarrow> snd (props_insert p k v) | None \<Rightarrow> snd (props_remove p k))
           (props_from_iter kvs) cs in
    (\<forall>k. props_get p k =
       (case newest (\<lambda>c. fst c = k) (map (\<lambda>(k, v). (k, Some v)) kvs @ cs) of Some c \<Rightarrow> snd c | None \<Rightarrow> None)) \<and>
    sorted_wrt (<) (props_keys p) \<and> props_len p = card {k. props_get p k \<noteq> None}"
proof -
  let ?all = "map (\<lambda>(k, v). (k, Some v)) kvs @ cs"
  have "foldl (\<lambda>p (k, v). snd (props_insert p k v)) p kvs = foldl props.change p (map (\<lambda>(k, v). (k, Some v)) kvs)" for p
    by (induction kvs arbitrary: p) (auto simp: props.change_def)
  then have fold: "foldl (\<lambda>p (k, c). case c of Some v \<Rightarrow> snd (props_insert p k v) | None \<Rightarrow> snd (props_remove p k))
      (props_from_iter kvs) cs = foldl props.change props_new ?all"
    by (auto simp: props_from_iter_def props_extend_def props.change_def case_prod_beta intro!: foldl_cong
        split: option.split)
  have inv: "props_inv (foldl props.change props_new ?all)"
    by (rule props.history_inv) (rule props.inv_emp)
  show ?thesis
    unfolding fold Let_def
    using props.history [of ?all] props.size_card [OF inv] inv by (simp add: props_keys_def props_inv_def)
qed

text \<open>Shown too. Two property maps that hold the same values are equal, so the derived equality of records compares
  contents and not the order of insertion.\<close>

theorem properties_canonical:
  assumes "props_inv p" and "props_inv q" and "\<And>k. props_get p k = props_get q k"
  shows "p = (q :: 'j properties)"
proof (rule properties.equality)
  have "map_of (p_entries p) = map_of (p_entries q)"
    using assms by (intro ext) (simp add: props_get_map_of)
  with assms(1,2) show "p_entries p = p_entries q"
    by (auto simp: props_inv_def intro: sorted_map_of_unique)
qed simp

theorem properties_canonical_witness:
  "props_from_iter [(''b'', 1), (''a'', 2 :: int)] = props_from_iter [(''a'', 3), (''b'', 1), (''a'', 2)]"
proof (rule properties_canonical)
  have inv: "props_inv (props_from_iter kvs)" for kvs :: "(string \<times> int) list"
  proof -
    have "props_inv p \<Longrightarrow> props_inv (props_extend p kvs)" for p :: "int properties"
      unfolding props_extend_def by (induction kvs arbitrary: p) (auto simp: props.inv_ins)
    then show ?thesis by (simp add: props_from_iter_def props.inv_emp)
  qed
  show "props_inv (props_from_iter [(''b'', 1), (''a'', 2 :: int)])"
    and "props_inv (props_from_iter [(''a'', 3), (''b'', 1), (''a'', 2 :: int)])"
    by (rule inv)+
  show "props_get (props_from_iter [(''b'', 1), (''a'', 2 :: int)]) k =
      props_get (props_from_iter [(''a'', 3), (''b'', 1), (''a'', 2)]) k" for k
    by (simp add: props_from_iter_def props_extend_def props.get_ins props.inv_ins props.inv_emp)
qed

end
