(* ===== verification/Id_Set.thy ===== *)
theory Id_Set
  imports Drevo_Prelude
begin

text \<open>
  The posting sets of \<^verbatim>\<open>src/drevo-core/src/id_set.rs\<close>: a set of entity ids that keeps a single id
  inline. The interface \<open>posting_set\<close> states what the indexes of the graph rely on; it is interpreted
  on \<open>IdSet\<close> and on the plain ordered set that \<open>Many\<close> holds.
\<close>

section \<open>The model\<close>

datatype id_set =
    EmptyIds
  | OneId u64
  | ManyIds "u64 fset"

definition id_set_insert :: "id_set \<Rightarrow> u64 \<Rightarrow> bool \<times> id_set" where
  "id_set_insert s i =
     (case s of
        EmptyIds \<Rightarrow> (True, OneId i)
      | OneId existing \<Rightarrow>
          (if existing = i then (False, s) else (True, ManyIds {|existing, i|}))
      | ManyIds S \<Rightarrow> (i |\<notin>| S, ManyIds (finsert i S)))"

definition id_set_remove :: "id_set \<Rightarrow> u64 \<Rightarrow> bool \<times> id_set" where
  "id_set_remove s i =
     (case s of
        EmptyIds \<Rightarrow> (False, s)
      | OneId existing \<Rightarrow> (if existing = i then (True, EmptyIds) else (False, s))
      | ManyIds S \<Rightarrow>
          (let S' = S |-| {|i|} in
           (i |\<in>| S,
            if fcard S' = 1
            then (case fset_min S' of Some l \<Rightarrow> OneId l | None \<Rightarrow> ManyIds S')
            else ManyIds S')))"

definition id_set_is_empty :: "id_set \<Rightarrow> bool" where
  "id_set_is_empty s = (case s of EmptyIds \<Rightarrow> True | OneId _ \<Rightarrow> False | ManyIds S \<Rightarrow> S = {||})"

definition id_set_len :: "id_set \<Rightarrow> nat" where
  "id_set_len s = (case s of EmptyIds \<Rightarrow> 0 | OneId _ \<Rightarrow> 1 | ManyIds S \<Rightarrow> fcard S)"

definition id_set_first :: "id_set \<Rightarrow> u64 option" where
  "id_set_first s = (case s of EmptyIds \<Rightarrow> None | OneId i \<Rightarrow> Some i | ManyIds S \<Rightarrow> fset_min S)"

definition id_set_iter :: "id_set \<Rightarrow> u64 list" where
  "id_set_iter s = (case s of EmptyIds \<Rightarrow> [] | OneId i \<Rightarrow> [i] | ManyIds S \<Rightarrow> sorted_list_of_fset S)"

section \<open>The interface\<close>

text \<open>
  A set of ids with change flags, seen through its abstraction to a finite set. What an index does with
  it is a sequence of adds and removes; the flags say which of them changed it.
\<close>

locale posting_set =
  fixes emp :: 's
    and ins :: "'s \<Rightarrow> u64 \<Rightarrow> bool \<times> 's"
    and rem :: "'s \<Rightarrow> u64 \<Rightarrow> bool \<times> 's"
    and ids :: "'s \<Rightarrow> u64 fset"
    and inv :: "'s \<Rightarrow> bool"
  assumes inv_emp: "inv emp" and ids_emp: "ids emp = {||}"
    and inv_ins: "inv s \<Longrightarrow> inv (snd (ins s i))"
    and ids_ins: "inv s \<Longrightarrow> ids (snd (ins s i)) = finsert i (ids s)"
    and flag_ins: "inv s \<Longrightarrow> fst (ins s i) \<longleftrightarrow> i |\<notin>| ids s"
    and inv_rem: "inv s \<Longrightarrow> inv (snd (rem s i))"
    and ids_rem: "inv s \<Longrightarrow> ids (snd (rem s i)) = ids s |-| {|i|}"
    and flag_rem: "inv s \<Longrightarrow> fst (rem s i) \<longleftrightarrow> i |\<in>| ids s"
begin

definition apply_change :: "'s \<Rightarrow> bool \<times> u64 \<Rightarrow> 's" where
  "apply_change s c = (if fst c then snd (ins s (snd c)) else snd (rem s (snd c)))"

lemma apply_change:
  "inv s \<Longrightarrow> inv (apply_change s (b, i)) \<and>
     ids (apply_change s (b, i)) = (if b then finsert i (ids s) else ids s |-| {|i|})"
  by (simp add: apply_change_def inv_ins ids_ins inv_rem ids_rem)

lemma changes:
  "inv s \<Longrightarrow> inv (foldl apply_change s cs) \<and>
     ids (foldl apply_change s cs) =
       foldl (\<lambda>S c. if fst c then finsert (snd c) S else S |-| {|snd c|}) (ids s) cs"
proof (induction cs arbitrary: s)
  case (Cons c cs)
  with apply_change [of s "fst c" "snd c"] show ?case by simp
qed simp

text \<open>An id is in the set exactly if the last change of it was an add.\<close>

lemma last_change_wins:
  assumes "inv s"
  shows "i |\<in>| ids (foldl apply_change s cs) \<longleftrightarrow>
    (case newest (\<lambda>c. snd c = i) cs of Some c \<Rightarrow> fst c | None \<Rightarrow> i |\<in>| ids s)"
proof (induction cs rule: rev_induct)
  case (snoc c cs)
  have "inv (foldl apply_change s cs)"
    using changes [OF assms] by blast
  from apply_change [OF this, of "fst c" "snd c"] snoc show ?case
    by (auto split: if_splits)
qed simp

end

section \<open>Interpretations\<close>

fun ids_of :: "id_set \<Rightarrow> u64 fset" where
  "ids_of EmptyIds = {||}"
| "ids_of (OneId i) = {|i|}"
| "ids_of (ManyIds S) = S"

text \<open>\<open>Many\<close> is only used from two ids on.\<close>

fun id_set_inv :: "id_set \<Rightarrow> bool" where
  "id_set_inv (ManyIds S) \<longleftrightarrow> 2 \<le> fcard S"
| "id_set_inv _ \<longleftrightarrow> True"

lemma fcard_1_min:
  assumes "fcard S = Suc 0"
  shows "\<exists>x. S = {|x|} \<and> fset_min S = Some x"
proof -
  obtain x where "fset S = {x}"
    using assms by (auto simp: fcard.rep_eq card_1_singleton_iff)
  then have "S = {|x|}"
    by (metis bot_fset.rep_eq finsert.rep_eq fset_inject)
  then show ?thesis by (simp add: fset_min_def)
qed

lemma shrink_ids:
  "ids_of (if fcard S = 1 then (case fset_min S of Some l \<Rightarrow> OneId l | None \<Rightarrow> ManyIds S) else ManyIds S) = S"
  using fcard_1_min [of S] by (cases "fcard S = 1") auto

lemma shrink_inv:
  "1 \<le> fcard S \<Longrightarrow>
     id_set_inv (if fcard S = 1 then (case fset_min S of Some l \<Rightarrow> OneId l | None \<Rightarrow> ManyIds S) else ManyIds S)"
  using fcard_1_min [of S] by (cases "fcard S = 1") auto

lemma remove_many:
  "snd (id_set_remove (ManyIds S) i) =
     (let S' = S |-| {|i|} in
      if fcard S' = 1 then (case fset_min S' of Some l \<Rightarrow> OneId l | None \<Rightarrow> ManyIds S') else ManyIds S')"
  by (simp add: id_set_remove_def Let_def)

interpretation id_sets: posting_set EmptyIds id_set_insert id_set_remove ids_of id_set_inv
proof unfold_locales
  fix s i
  show "id_set_inv s \<Longrightarrow> id_set_inv (snd (id_set_insert s i))"
    by (cases s) (auto simp: id_set_insert_def fcard_finsert_if)
next
  fix s i
  assume inv: "id_set_inv s"
  show "id_set_inv (snd (id_set_remove s i))"
  proof (cases s)
    case (ManyIds S)
    with inv have "1 \<le> fcard (S |-| {|i|})"
      by (cases "i |\<in>| S") (auto simp: fcard_fminus_fsingleton)
    then show ?thesis
      unfolding ManyIds remove_many Let_def by (rule shrink_inv)
  qed (auto simp: id_set_remove_def)
  show "ids_of (snd (id_set_remove s i)) = ids_of s |-| {|i|}"
  proof (cases s)
    case (ManyIds S)
    then show ?thesis
      by (simp only: remove_many Let_def shrink_ids ids_of.simps)
  qed (auto simp: id_set_remove_def)
qed (auto simp: id_set_insert_def id_set_remove_def Let_def split: id_set.split)

interpretation btree_sets: posting_set "{||}" "\<lambda>S i. (i |\<notin>| S, finsert i S)" "\<lambda>S i. (i |\<in>| S, S |-| {|i|})"
    "\<lambda>S. S" "\<lambda>_. True"
  by unfold_locales auto

section \<open>Reading a set\<close>

lemma sorted_list_fset_facts [simp]:
  "sorted (sorted_list_of_fset S)" "distinct (sorted_list_of_fset S)"
  "length (sorted_list_of_fset S) = fcard S"
  by (simp_all add: sorted_list_of_fset.rep_eq fcard.rep_eq)

lemma id_set_iter_facts:
  "sorted (id_set_iter s)" "distinct (id_set_iter s)" "set (id_set_iter s) = fset (ids_of s)"
  by (cases s; simp add: id_set_iter_def)+

lemma id_set_len_iter: "id_set_len s = length (id_set_iter s)"
  by (cases s) (simp_all add: id_set_len_def id_set_iter_def)

lemma id_set_is_empty_iff: "id_set_inv s \<Longrightarrow> id_set_is_empty s \<longleftrightarrow> ids_of s = {||}"
  by (cases s) (auto simp: id_set_is_empty_def)

lemma id_set_first_min: "id_set_first s = fset_min (ids_of s)"
  by (cases s) (auto simp: id_set_first_def fset_min_def)

lemma id_set_first_iter: "id_set_first s = (case id_set_iter s of [] \<Rightarrow> None | i # _ \<Rightarrow> Some i)"
proof (cases s)
  case (ManyIds S)
  have "fset_min S = (case sorted_list_of_fset S of [] \<Rightarrow> None | i # _ \<Rightarrow> Some i)"
  proof (cases "sorted_list_of_fset S")
    case (Cons i js)
    have "y |\<in>| S \<longleftrightarrow> y = i \<or> y \<in> set js" for y
      using sorted_list_of_fset_simps(1) [of S] Cons by auto
    moreover have "\<forall>y \<in> set js. i \<le> y"
      using sorted_list_fset_facts(1) [of S] Cons by simp
    ultimately show ?thesis
      using fset_minI [of i S] Cons by auto
  next
    case Nil
    then have "S = {||}"
      using sorted_list_of_fset_simps(2) [of S] by simp
    with Nil show ?thesis by (simp add: fset_min_def)
  qed
  with ManyIds show ?thesis by (simp add: id_set_first_def id_set_iter_def)
qed (simp_all add: id_set_first_def id_set_iter_def)

section \<open>Properties\<close>

text \<open>Shown too. An id set behaves as the set it stands for under any sequence of inserts and removes from the
  empty set: an id is a member exactly if its last change was an insert, the ids are listed in
  ascending order without repetition, the length is their number, the set js empty exactly when there
  are none and its first id is the least; and a single id is always stored inline.\<close>

theorem id_set_correct:
  fixes cs :: "(bool \<times> u64) list"
  shows "let s = foldl (\<lambda>s (add, i). snd (if add then id_set_insert s i else id_set_remove s i)) EmptyIds cs in
    (\<forall>i. i \<in> set (id_set_iter s) \<longleftrightarrow> (\<exists>c. newest (\<lambda>c. snd c = i) cs = Some c \<and> fst c)) \<and>
    sorted (id_set_iter s) \<and> distinct (id_set_iter s) \<and> id_set_len s = length (id_set_iter s) \<and>
    (id_set_is_empty s \<longleftrightarrow> id_set_iter s = []) \<and>
    id_set_first s = (case id_set_iter s of [] \<Rightarrow> None | i # _ \<Rightarrow> Some i) \<and>
    (id_set_len s = 1 \<longleftrightarrow> (\<exists>i. s = OneId i))"
proof -
  define s where "s = foldl id_sets.apply_change EmptyIds cs"
  have fold: "foldl (\<lambda>s (add, i). snd (if add then id_set_insert s i else id_set_remove s i)) EmptyIds cs = s"
    unfolding s_def by (intro foldl_cong) (auto simp: id_sets.apply_change_def)
  have inv: "id_set_inv s"
    using id_sets.changes [OF id_sets.inv_emp] by (simp add: s_def)
  have mem: "i \<in> set (id_set_iter s) \<longleftrightarrow> (\<exists>c. newest (\<lambda>c. snd c = i) cs = Some c \<and> fst c)" for i
    using id_sets.last_change_wins [OF id_sets.inv_emp, of i cs]
    by (auto simp: id_set_iter_facts s_def split: option.splits)
  have "id_set_is_empty s \<longleftrightarrow> id_set_iter s = []"
    using id_set_is_empty_iff [OF inv] id_set_iter_facts(3) [of s] by (metis bot_fset.rep_eq fset_inject set_empty)
  moreover note id_set_first_iter [of s]
  moreover have "id_set_len s = 1 \<longleftrightarrow> (\<exists>i. s = OneId i)"
    using inv by (cases s) (auto simp: id_set_len_def)
  ultimately show ?thesis
    using mem by (simp add: fold id_set_iter_facts id_set_len_iter)
qed

end
