(* ===== verification/Native_Model.thy ===== *)
theory Native_Model
  imports Properties Id_Set "HOL-Library.Product_Lexorder"
begin

text \<open>
  The records of the graph and the state of the engine: \<^verbatim>\<open>src/drevo-core/src/model.rs\<close>,
  \<^verbatim>\<open>src/drevo-core/src/labels.rs\<close> and the types of \<^verbatim>\<open>src/drevo-core/src/native.rs\<close>
  (\<open>AdjEntry\<close>, \<open>Inner\<close>, \<open>IdCounters\<close>, \<open>Constraint\<close>, \<open>WalOp\<close>), with the sorted adjacency lists.

  JSON values belong to the \<open>serde_json\<close> package: they are a type parameter \<open>'j\<close>, and what the engine uses
  of the package is the record \<open>json_lib\<close> that every definition reading a property takes. An \<open>f32\<close> is its 32-bit
  encoding. The id-indexed tables are finite maps, by the interface \<open>key_map\<close> (theory \<open>Dense_Map\<close>).
\<close>

section \<open>Records\<close>

record 'j json_lib =
  json_is_null :: "'j \<Rightarrow> bool"
  json_array :: "'j \<Rightarrow> 'j list option"
  json_string :: "'j \<Rightarrow> string option"
  json_of_string :: "string \<Rightarrow> 'j"
  json_text :: "'j \<Rightarrow> string"

type_synonym f32 = "32 word"

definition f32_is_finite :: "f32 \<Rightarrow> bool" where
  "f32_is_finite w \<longleftrightarrow> take_bit 8 (drop_bit 23 w) \<noteq> 255"

record 'j node =
  n_id :: u64
  n_uuid :: "8 word list"
  n_kind :: string
  n_title :: string
  n_body :: string
  n_body_html :: string
  n_created_at :: int
  n_updated_at :: int
  n_properties :: "'j properties"

record 'j new_node =
  nn_kind :: string
  nn_title :: string
  nn_body :: string
  nn_body_html :: string
  nn_properties :: "'j properties"

record 'j node_patch =
  np_kind :: "string option"
  np_title :: "string option"
  np_body :: "string option"
  np_body_html :: "string option"
  np_properties :: "'j properties option"

record 'j edge =
  e_id :: u64
  e_uuid :: "8 word list"
  e_from :: u64
  e_to :: u64
  e_kind :: string
  e_weight :: f32
  e_created_at :: int
  e_properties :: "'j properties"

record 'j new_edge =
  ne_from :: u64
  ne_to :: u64
  ne_kind :: string
  ne_weight :: f32
  ne_properties :: "'j properties"

record 'j edge_patch =
  ep_kind :: "string option"
  ep_weight :: "f32 option"
  ep_properties :: "'j properties option"

datatype direction = Outgoing | Incoming | Both

text \<open>The wall clock and the UUID generator are inputs of the operation that reads them.\<close>

record env =
  now_ms :: int
  new_uuid :: "8 word list"

definition into_node :: "env \<Rightarrow> 'j new_node \<Rightarrow> u64 \<Rightarrow> 'j node" where
  "into_node env nn i =
     \<lparr>n_id = i, n_uuid = new_uuid env, n_kind = nn_kind nn, n_title = nn_title nn, n_body = nn_body nn,
      n_body_html = nn_body_html nn, n_created_at = now_ms env, n_updated_at = now_ms env,
      n_properties = nn_properties nn\<rparr>"

definition into_edge :: "env \<Rightarrow> 'j new_edge \<Rightarrow> u64 \<Rightarrow> 'j edge" where
  "into_edge env ne i =
     \<lparr>e_id = i, e_uuid = new_uuid env, e_from = ne_from ne, e_to = ne_to ne, e_kind = ne_kind ne,
      e_weight = ne_weight ne, e_created_at = now_ms env, e_properties = ne_properties ne\<rparr>"

section \<open>Labels and unique keys\<close>

definition SECONDARY_LABELS_KEY :: string where
  "SECONDARY_LABELS_KEY = ''_labels''"

definition secondary_labels :: "'j json_lib \<Rightarrow> 'j node \<Rightarrow> string list" where
  "secondary_labels J n =
     (case props_get (n_properties n) SECONDARY_LABELS_KEY of
        Some v \<Rightarrow> (case json_array J v of Some arr \<Rightarrow> List.map_filter (json_string J) arr | None \<Rightarrow> [])
      | None \<Rightarrow> [])"

definition has_label :: "'j json_lib \<Rightarrow> 'j node \<Rightarrow> string \<Rightarrow> bool" where
  "has_label J n label \<longleftrightarrow> n_kind n = label \<or> List.member (secondary_labels J n) label"

definition unique_key :: "'j json_lib \<Rightarrow> 'j node \<Rightarrow> string \<Rightarrow> string option" where
  "unique_key J n prop =
     (case props_get (n_properties n) prop of
        Some v \<Rightarrow> if json_is_null J v then None else Some (json_text J v)
      | None \<Rightarrow>
          (let field = (if prop = ''title'' then Some (n_title n)
                        else if prop = ''body'' then Some (n_body n) else None)
           in case field of
                None \<Rightarrow> None
              | Some f \<Rightarrow> if f = [] then None else Some (json_text J (json_of_string J f))))"

definition TUPLE_SEPARATOR :: char where
  "TUPLE_SEPARATOR = CHR 0x1F"

fun tuple_key_from :: "'j json_lib \<Rightarrow> 'j node \<Rightarrow> bool \<Rightarrow> string list \<Rightarrow> string \<Rightarrow> string option" where
  "tuple_key_from J n first [] key = Some key"
| "tuple_key_from J n first (p # ps) key =
     (case unique_key J n p of
        None \<Rightarrow> None
      | Some k \<Rightarrow> tuple_key_from J n False ps (key @ (if first then [] else [TUPLE_SEPARATOR]) @ k))"

definition tuple_key :: "'j json_lib \<Rightarrow> 'j node \<Rightarrow> string list \<Rightarrow> string option" where
  "tuple_key J n ps = tuple_key_from J n True ps []"

section \<open>Constraints and errors\<close>

datatype schema_constraint =
    UniqueNodeProperty string string
  | UniqueNodeProperties string "string list"
  | PropertyExists string string
  | NodeKey string "string list"

definition unique_tuple :: "schema_constraint \<Rightarrow> (string \<times> string list) option" where
  "unique_tuple c =
     (case c of
        UniqueNodeProperty kind p \<Rightarrow> Some (kind, [p])
      | UniqueNodeProperties kind ps \<Rightarrow> Some (kind, ps)
      | NodeKey kind ps \<Rightarrow> Some (kind, ps)
      | PropertyExists _ _ \<Rightarrow> None)"

definition requires_presence :: "schema_constraint \<Rightarrow> bool" where
  "requires_presence c =
     (case c of PropertyExists _ _ \<Rightarrow> True | NodeKey _ _ \<Rightarrow> True | _ \<Rightarrow> False)"

text \<open>A violation is its kind and its message, kept as the data the message is formatted from.\<close>

datatype violation_message =
    AlreadyHas u64 "string list" string
  | MissingProperty u64 string
  | DuplicateValue string "string list"

record constraint_violation =
  cv_kind :: string
  cv_message :: violation_message

text \<open>What an I/O error reports: the step of the log append that failed, or an earlier failure that broke the log.\<close>

datatype io_error = EncodeError | WriteError | SyncError | WalBroken

datatype core_error =
    NodeNotFound u64
  | EdgeNotFound u64
  | InvalidWeight f32
  | Io io_error
  | ReadOnly
  | Backend string
  | PreparedTransactionPending "string list"
  | TransactionTooLarge nat
  | ConstraintViolation constraint_violation

section \<open>The write-ahead log and the engine's state\<close>

datatype 'j wal_op =
    UpsertNode "'j node"
  | DeleteNode u64
  | UpsertEdge "'j edge"
  | DeleteEdge u64
  | SetEmbedding u64 "f32 list"
  | DeleteEmbedding u64
  | Prepare string int "'j wal_op list"
  | CommitPrepared string
  | RollbackPrepared string bool

record 'j prepared_entry =
  pe_prepared_at_ms :: int
  pe_ops :: "'j wal_op list"

record adj_entry =
  a_edge_id :: u64
  a_neighbor_id :: u64
  a_kind_id :: u32

record id_counters =
  last_node :: u64
  last_edge :: u64

record 'j inner =
  nodes :: "(u64, 'j node) fmap"
  edges :: "(u64, 'j edge) fmap"
  out_adj :: "(u64, adj_entry list) fmap"
  in_adj :: "(u64, adj_entry list) fmap"
  titles :: "(string, id_set) fmap"
  kind_index :: "(string, u64 fset) fmap"
  kind_ids :: "(string, u32) fmap"
  embeddings :: "(u64, f32 list) fmap"
  constraints :: "schema_constraint list"
  unique :: "(string \<times> string list, (string, u64 fset) fmap) fmap"
  ids :: id_counters
  last_updated_at :: int
  prepared :: "(string, 'j prepared_entry) fmap"
  heuristic :: "string fset"
  commit_seq :: u64

definition inner_default :: "'j inner" where
  "inner_default =
     \<lparr>nodes = fmempty, edges = fmempty, out_adj = fmempty, in_adj = fmempty, titles = fmempty,
      kind_index = fmempty, kind_ids = fmempty, embeddings = fmempty, constraints = [], unique = fmempty,
      ids = \<lparr>last_node = 0, last_edge = 0\<rparr>, last_updated_at = 0, prepared = fmempty,
      heuristic = {||}, commit_seq = 0\<rparr>"

section \<open>Sorted adjacency lists\<close>

definition adj_sort_key :: "adj_entry \<Rightarrow> u32 \<times> u64 \<times> u64" where
  "adj_sort_key e = (a_kind_id e, a_neighbor_id e, a_edge_id e)"

definition insert_adj_sorted :: "adj_entry \<Rightarrow> adj_entry list \<Rightarrow> adj_entry list" where
  "insert_adj_sorted entry v =
     (let key = adj_sort_key entry; pos = partition_point (\<lambda>e. adj_sort_key e < key) v in
      take pos v @ entry # drop pos v)"

definition kind_run :: "adj_entry list \<Rightarrow> u32 \<Rightarrow> adj_entry list" where
  "kind_run v kind =
     (let start = partition_point (\<lambda>e. a_kind_id e < kind) v;
          stop = partition_point (\<lambda>e. a_kind_id e \<le> kind) v
      in take (stop - start) (drop start v))"

abbreviation adj_sorted :: "adj_entry list \<Rightarrow> bool" where
  "adj_sorted v \<equiv> sorted (map adj_sort_key v)"

lemma set_insert_adj [simp]: "set (insert_adj_sorted a v) = insert a (set v)"
proof -
  have "set (take n v) \<union> set (drop n v) = set v" for n
    by (metis append_take_drop_id set_append)
  then show ?thesis
    by (auto simp: insert_adj_sorted_def Let_def)
qed

lemma distinct_insert_adj:
  assumes "distinct (map f v)" and "f a \<notin> f ` set v"
  shows "distinct (map f (insert_adj_sorted a v))"
proof -
  let ?n = "partition_point (\<lambda>e. adj_sort_key e < adj_sort_key a) v"
  have "distinct (map f (take ?n v) @ map f (drop ?n v))"
    using assms(1) by (simp add: map_append [symmetric])
  moreover have "f ` set v = f ` set (take ?n v) \<union> f ` set (drop ?n v)"
    by (metis append_take_drop_id image_Un set_append)
  ultimately show ?thesis
    using assms(2) by (simp add: insert_adj_sorted_def Let_def)
qed

lemma sorted_insert_adj:
  assumes "adj_sorted v"
  shows "adj_sorted (insert_adj_sorted a v)"
proof -
  let ?P = "\<lambda>e. adj_sort_key e < adj_sort_key a"
  note pp = partition_point_takeWhile [OF partitioned_less(1) [OF assms, of "adj_sort_key a"]]
  have eq: "insert_adj_sorted a v = takeWhile ?P v @ a # dropWhile ?P v"
    by (simp add: insert_adj_sorted_def Let_def pp(1,2))
  have "sorted (map adj_sort_key (takeWhile ?P v @ dropWhile ?P v))"
    using assms by simp
  then have sort: "sorted (map adj_sort_key (takeWhile ?P v))" "sorted (map adj_sort_key (dropWhile ?P v))"
      "\<forall>x \<in> set (takeWhile ?P v). \<forall>y \<in> set (dropWhile ?P v). adj_sort_key x \<le> adj_sort_key y"
    unfolding map_append sorted_append by auto
  have low: "\<forall>x \<in> set (takeWhile ?P v). adj_sort_key x \<le> adj_sort_key a"
    by (auto dest!: set_takeWhileD intro: order_less_imp_le)
  have high: "\<forall>y \<in> set (dropWhile ?P v). adj_sort_key a \<le> adj_sort_key y"
  proof (cases "dropWhile ?P v")
    case (Cons y ys)
    then have "adj_sort_key a \<le> adj_sort_key y"
      using hd_dropWhile [of ?P v] by (simp add: not_less)
    with Cons sort(2) show ?thesis by (auto intro: order_trans)
  next
    case Nil
    then show ?thesis by (simp only: list.set ball_empty)
  qed
  show ?thesis
    unfolding eq using sort low high by (auto simp: sorted_append)
qed

lemma sorted_run:
  assumes "sorted (map f v)"
  shows "take (length (takeWhile (\<lambda>e. f e \<le> k) v) - length (takeWhile (\<lambda>e. f e < k) v)) (dropWhile (\<lambda>e. f e < k) v) =
    filter (\<lambda>e. f e = (k :: 'a::linorder)) v"
  using assms
proof (induction v)
  case (Cons e v)
  have le: "takeWhile (\<lambda>e. f e < k) v = []" "dropWhile (\<lambda>e. f e < k) v = v" if "k \<le> f e"
    using Cons.prems that by (cases v; force)+
  have "filter (\<lambda>e. f e = k) v = []" if "k < f e"
    using Cons.prems that by (auto simp: filter_empty_conv)
  with Cons le show ?case
    by (cases "f e" k rule: linorder_cases) auto
qed simp

lemma kind_run_filter:
  assumes "adj_sorted v"
  shows "kind_run v k = filter (\<lambda>e. a_kind_id e = k) v"
proof -
  have sorted: "sorted (map a_kind_id v)"
    using assms unfolding sorted_map
    by (rule sorted_wrt_mono_rel [rotated]) (auto simp: adj_sort_key_def)
  have len: "length (takeWhile P v) = partition_point P v" if "partitioned P v" for P
    using partition_point_takeWhile [OF that] by simp
  note lt = partitioned_less(1) [OF sorted, of k] and le = partitioned_less(2) [OF sorted, of k]
  show ?thesis
    using sorted_run [OF sorted, of k]
    by (simp add: kind_run_def Let_def len [OF lt] len [OF le] partition_point_takeWhile(2) [OF lt])
qed

end
