(* ===== verification/Native_Inner.thy ===== *)
theory Native_Inner
  imports Native_Model
begin

text \<open>
  The operations of the graph state: \<open>impl Inner\<close> of \<^verbatim>\<open>src/drevo-core/src/native.rs\<close>, in the
  order of the file.

  Where the code iterates over a hash map and only the order of visits depends on it, the model visits the
  keys in ascending order. A callback-driven visit is the list of what it visits. Operations return the
  result and the new state; an operation that fails after taking an id keeps the advanced counter, as the
  shared atomic does.
\<close>

section \<open>Counters and clocks\<close>

definition next_node :: "'j inner \<Rightarrow> u64 \<times> 'j inner" where
  "next_node g =
     (let i = last_node (ids g) + 1 in (i, g\<lparr>ids := (ids g)\<lparr>last_node := i\<rparr>\<rparr>))"

definition next_edge :: "'j inner \<Rightarrow> u64 \<times> 'j inner" where
  "next_edge g =
     (let i = last_edge (ids g) + 1 in (i, g\<lparr>ids := (ids g)\<lparr>last_edge := i\<rparr>\<rparr>))"

definition observe_node :: "u64 \<Rightarrow> 'j inner \<Rightarrow> 'j inner" where
  "observe_node i g = g\<lparr>ids := (ids g)\<lparr>last_node := max (last_node (ids g)) i\<rparr>\<rparr>"

definition observe_edge :: "u64 \<Rightarrow> 'j inner \<Rightarrow> 'j inner" where
  "observe_edge i g = g\<lparr>ids := (ids g)\<lparr>last_edge := max (last_edge (ids g)) i\<rparr>\<rparr>"

definition observe_updated_at :: "int \<Rightarrow> 'j inner \<Rightarrow> 'j inner" where
  "observe_updated_at ts g = g\<lparr>last_updated_at := max (last_updated_at g) ts\<rparr>"

definition next_updated_at :: "env \<Rightarrow> 'j inner \<Rightarrow> int \<times> 'j inner" where
  "next_updated_at env g =
     (let ts = max (now_ms env) (i64_wrap (last_updated_at g + 1)) in (ts, g\<lparr>last_updated_at := ts\<rparr>))"

section \<open>Kinds and the kind index\<close>

definition intern_kind :: "string \<Rightarrow> 'j inner \<Rightarrow> u32 \<times> 'j inner" where
  "intern_kind kind g =
     (case fmlookup (kind_ids g) kind of
        Some i \<Rightarrow> (i, g)
      | None \<Rightarrow>
          (let i = of_nat (fcard (fmdom (kind_ids g))) in (i, g\<lparr>kind_ids := fmupd kind i (kind_ids g)\<rparr>)))"

definition kind_id_of :: "'j inner \<Rightarrow> string \<Rightarrow> u32 option" where
  "kind_id_of g kind = fmlookup (kind_ids g) kind"

definition index_node_kind :: "u64 \<Rightarrow> string \<Rightarrow> 'j inner \<Rightarrow> 'j inner" where
  "index_node_kind i kind g =
     (let s = (case fmlookup (kind_index g) kind of Some s \<Rightarrow> s | None \<Rightarrow> {||})
      in g\<lparr>kind_index := fmupd kind (finsert i s) (kind_index g)\<rparr>)"

definition unindex_node_kind :: "u64 \<Rightarrow> string \<Rightarrow> 'j inner \<Rightarrow> 'j inner" where
  "unindex_node_kind i kind g =
     (case fmlookup (kind_index g) kind of
        None \<Rightarrow> g
      | Some s \<Rightarrow>
          (let s' = s |-| {|i|} in
           if s' = {||} then g\<lparr>kind_index := fmdrop kind (kind_index g)\<rparr>
           else g\<lparr>kind_index := fmupd kind s' (kind_index g)\<rparr>))"

section \<open>Adjacency\<close>

abbreviation adj_of :: "(u64, adj_entry list) fmap \<Rightarrow> u64 \<Rightarrow> adj_entry list" where
  "adj_of m i \<equiv> (case fmlookup m i of Some v \<Rightarrow> v | None \<Rightarrow> [])"

definition for_each_incident :: "'j inner \<Rightarrow> u64 \<Rightarrow> direction \<Rightarrow> adj_entry list" where
  "for_each_incident g node_id dir =
     (if dir = Outgoing \<or> dir = Both then adj_of (out_adj g) node_id else [])
     @ (if dir = Incoming \<or> dir = Both
        then filter (\<lambda>e. \<not> (dir = Both \<and> a_neighbor_id e = node_id)) (adj_of (in_adj g) node_id) else [])"

definition for_each_incident_of_kind :: "'j inner \<Rightarrow> u64 \<Rightarrow> direction \<Rightarrow> u32 \<Rightarrow> adj_entry list" where
  "for_each_incident_of_kind g node_id dir kind_id =
     (if dir = Outgoing \<or> dir = Both then kind_run (adj_of (out_adj g) node_id) kind_id else [])
     @ (if dir = Incoming \<or> dir = Both
        then filter (\<lambda>e. \<not> (dir = Both \<and> a_neighbor_id e = node_id)) (kind_run (adj_of (in_adj g) node_id) kind_id)
        else [])"

definition incident_entries :: "'j inner \<Rightarrow> u64 \<Rightarrow> direction \<Rightarrow> adj_entry list" where
  "incident_entries g node_id dir = for_each_incident g node_id dir"

section \<open>Reads\<close>

definition get_node :: "'j inner \<Rightarrow> u64 \<Rightarrow> 'j node option" where
  "get_node g i = fmlookup (nodes g) i"

definition get_edge :: "'j inner \<Rightarrow> u64 \<Rightarrow> 'j edge option" where
  "get_edge g i = fmlookup (edges g) i"

definition push_neighbor :: "adj_entry \<Rightarrow> u64 fset \<times> u64 list \<Rightarrow> u64 fset \<times> u64 list" where
  "push_neighbor e st =
     (case st of (seen, out) \<Rightarrow>
        if a_neighbor_id e |\<in>| seen then (seen, out)
        else (finsert (a_neighbor_id e) seen, out @ [a_neighbor_id e]))"

definition neighbor_ids :: "'j inner \<Rightarrow> u64 \<Rightarrow> direction \<Rightarrow> string option \<Rightarrow> u64 list" where
  "neighbor_ids g node_id dir kind =
     (case kind of
        Some k \<Rightarrow>
          (case kind_id_of g k of
             None \<Rightarrow> []
           | Some i \<Rightarrow> snd (fold push_neighbor (for_each_incident_of_kind g node_id dir i) ({|node_id|}, [])))
      | None \<Rightarrow> snd (fold push_neighbor (for_each_incident g node_id dir) ({|node_id|}, [])))"

definition neighbors :: "'j inner \<Rightarrow> u64 \<Rightarrow> direction \<Rightarrow> string option \<Rightarrow> 'j node list" where
  "neighbors g node_id dir kind = List.map_filter (\<lambda>i. fmlookup (nodes g) i) (neighbor_ids g node_id dir kind)"

definition edges_of :: "'j inner \<Rightarrow> u64 \<Rightarrow> direction \<Rightarrow> 'j edge list" where
  "edges_of g node_id dir =
     List.map_filter (\<lambda>e. fmlookup (edges g) (a_edge_id e)) (for_each_incident g node_id dir)"

abbreviation fm_values :: "('k::linorder, 'v) fmap \<Rightarrow> 'v list" where
  "fm_values m \<equiv> map snd (sorted_list_of_fmap m)"

definition all_nodes :: "'j inner \<Rightarrow> 'j node list" where
  "all_nodes g = sort_key n_id (fm_values (nodes g))"

definition all_edges :: "'j inner \<Rightarrow> 'j edge list" where
  "all_edges g = sort_key e_id (fm_values (edges g))"

definition nodes_by_kind :: "'j inner \<Rightarrow> string \<Rightarrow> nat \<Rightarrow> nat \<Rightarrow> 'j node list" where
  "nodes_by_kind g kind limit offset =
     (case fmlookup (kind_index g) kind of
        None \<Rightarrow> []
      | Some s \<Rightarrow>
          List.map_filter (\<lambda>i. fmlookup (nodes g) i) (take limit (drop offset (sorted_list_of_fset s))))"

definition get_node_by_title :: "'j inner \<Rightarrow> string \<Rightarrow> 'j node option" where
  "get_node_by_title g title =
     Option.bind (Option.bind (fmlookup (titles g) title) id_set_first) (\<lambda>i. fmlookup (nodes g) i)"

definition nodes_by_title :: "'j inner \<Rightarrow> string \<Rightarrow> 'j node list" where
  "nodes_by_title g title =
     (case fmlookup (titles g) title of
        None \<Rightarrow> []
      | Some s \<Rightarrow> List.map_filter (\<lambda>i. fmlookup (nodes g) i) (id_set_iter s))"

definition index_title :: "u64 \<Rightarrow> string \<Rightarrow> 'j inner \<Rightarrow> 'j inner" where
  "index_title i title g =
     (let s = (case fmlookup (titles g) title of Some s \<Rightarrow> s | None \<Rightarrow> EmptyIds)
      in g\<lparr>titles := fmupd title (snd (id_set_insert s i)) (titles g)\<rparr>)"

definition unindex_title :: "u64 \<Rightarrow> string \<Rightarrow> 'j inner \<Rightarrow> 'j inner" where
  "unindex_title i title g =
     (case fmlookup (titles g) title of
        None \<Rightarrow> g
      | Some s \<Rightarrow>
          (let s' = snd (id_set_remove s i) in
           if id_set_is_empty s' then g\<lparr>titles := fmdrop title (titles g)\<rparr>
           else g\<lparr>titles := fmupd title s' (titles g)\<rparr>))"

section \<open>Constraints\<close>

fun first_unique_violation ::
    "'j json_lib \<Rightarrow> 'j node \<Rightarrow> ((string \<times> string list) \<times> (string, u64 fset) fmap) list \<Rightarrow>
       constraint_violation option" where
  "first_unique_violation J n [] = None"
| "first_unique_violation J n (((label, ps), vals) # rest) =
     (if \<not> has_label J n label then first_unique_violation J n rest
      else case tuple_key J n ps of
        None \<Rightarrow> first_unique_violation J n rest
      | Some key \<Rightarrow>
          (case (case fmlookup vals key of
                   None \<Rightarrow> None
                 | Some s \<Rightarrow> List.find (\<lambda>other. other \<noteq> n_id n) (sorted_list_of_fset s)) of
             Some other \<Rightarrow> Some \<lparr>cv_kind = label, cv_message = AlreadyHas other ps key\<rparr>
           | None \<Rightarrow> first_unique_violation J n rest))"

definition check_unique :: "'j json_lib \<Rightarrow> 'j inner \<Rightarrow> 'j node \<Rightarrow> (constraint_violation, unit) result" where
  "check_unique J g n =
     (case first_unique_violation J n (sorted_list_of_fmap (unique g)) of Some v \<Rightarrow> Inl v | None \<Rightarrow> Inr ())"

fun first_missing :: "'j json_lib \<Rightarrow> 'j node \<Rightarrow> schema_constraint list \<Rightarrow> constraint_violation option" where
  "first_missing J n [] = None"
| "first_missing J n (c # cs) =
     (case (case c of
              PropertyExists kind p \<Rightarrow> Some (kind, [p])
            | NodeKey kind ps \<Rightarrow> Some (kind, ps)
            | _ \<Rightarrow> None) of
        None \<Rightarrow> first_missing J n cs
      | Some (kind, required) \<Rightarrow>
          (if \<not> has_label J n kind then first_missing J n cs
           else case List.find (\<lambda>p. unique_key J n p = None) required of
                  Some missing \<Rightarrow> Some \<lparr>cv_kind = kind, cv_message = MissingProperty (n_id n) missing\<rparr>
                | None \<Rightarrow> first_missing J n cs))"

definition check_exists :: "'j json_lib \<Rightarrow> 'j inner \<Rightarrow> 'j node \<Rightarrow> (constraint_violation, unit) result" where
  "check_exists J g n =
     (case first_missing J n (constraints g) of Some v \<Rightarrow> Inl v | None \<Rightarrow> Inr ())"

definition add_id :: "string \<Rightarrow> u64 \<Rightarrow> (string, u64 fset) fmap \<Rightarrow> (string, u64 fset) fmap" where
  "add_id key i vals =
     fmupd key (finsert i (case fmlookup vals key of Some s \<Rightarrow> s | None \<Rightarrow> {||})) vals"

definition drop_id :: "string \<Rightarrow> u64 \<Rightarrow> (string, u64 fset) fmap \<Rightarrow> (string, u64 fset) fmap" where
  "drop_id key i vals =
     (case fmlookup vals key of
        None \<Rightarrow> vals
      | Some s \<Rightarrow> if s |-| {|i|} = {||} then fmdrop key vals else fmupd key (s |-| {|i|}) vals)"

definition index_unique :: "'j json_lib \<Rightarrow> 'j node \<Rightarrow> 'j inner \<Rightarrow> 'j inner" where
  "index_unique J n g =
     g\<lparr>unique := fmmap_keys (\<lambda>(label, ps) vals.
         if has_label J n label
         then (case tuple_key J n ps of Some key \<Rightarrow> add_id key (n_id n) vals | None \<Rightarrow> vals)
         else vals) (unique g)\<rparr>"

definition unindex_unique :: "'j json_lib \<Rightarrow> 'j node \<Rightarrow> 'j inner \<Rightarrow> 'j inner" where
  "unindex_unique J n g =
     g\<lparr>unique := fmmap_keys (\<lambda>(label, ps) vals.
         if \<not> has_label J n label then vals
         else (case tuple_key J n ps of None \<Rightarrow> vals | Some key \<Rightarrow> drop_id key (n_id n) vals)) (unique g)\<rparr>"

definition build_unique :: "'j json_lib \<Rightarrow> 'j inner \<Rightarrow> string \<Rightarrow> string list \<Rightarrow> (string, u64 fset) fmap" where
  "build_unique J g label ps =
     fold (\<lambda>n vals. case tuple_key J n ps of Some key \<Rightarrow> add_id key (n_id n) vals | None \<Rightarrow> vals)
       (filter (\<lambda>n. has_label J n label) (fm_values (nodes g))) fmempty"

definition sync_unique :: "'j json_lib \<Rightarrow> 'j inner \<Rightarrow> 'j inner" where
  "sync_unique J g =
     (let needed = List.map_filter unique_tuple (constraints g);
          g1 = g\<lparr>unique := fmfilter (\<lambda>key. List.member needed key) (unique g)\<rparr>
      in foldl (\<lambda>g (label, ps).
            if (label, ps) |\<in>| fmdom (unique g) then g
            else g\<lparr>unique := fmupd (label, ps) (build_unique J g label ps) (unique g)\<rparr>) g1 needed)"

fun duplicate_in :: "'j json_lib \<Rightarrow> string list \<Rightarrow> string fset \<Rightarrow> 'j node list \<Rightarrow> string option" where
  "duplicate_in J ps seen [] = None"
| "duplicate_in J ps seen (n # ns) =
     (case tuple_key J n ps of
        None \<Rightarrow> duplicate_in J ps seen ns
      | Some key \<Rightarrow> if key |\<in>| seen then Some key else duplicate_in J ps (finsert key seen) ns)"

fun first_duplicate :: "'j json_lib \<Rightarrow> 'j node list \<Rightarrow> schema_constraint list \<Rightarrow> constraint_violation option" where
  "first_duplicate J ns [] = None"
| "first_duplicate J ns (c # cs) =
     (case unique_tuple c of
        None \<Rightarrow> first_duplicate J ns cs
      | Some (kind, ps) \<Rightarrow>
          (case duplicate_in J ps {||} (filter (\<lambda>n. has_label J n kind) ns) of
             Some key \<Rightarrow> Some \<lparr>cv_kind = kind, cv_message = DuplicateValue key ps\<rparr>
           | None \<Rightarrow> first_duplicate J ns cs))"

fun first_unmet :: "'j json_lib \<Rightarrow> 'j inner \<Rightarrow> 'j node list \<Rightarrow> constraint_violation option" where
  "first_unmet J g [] = None"
| "first_unmet J g (n # ns) =
     (case check_exists J g n of Inl v \<Rightarrow> Some v | Inr _ \<Rightarrow> first_unmet J g ns)"

definition validate_constraints :: "'j json_lib \<Rightarrow> 'j inner \<Rightarrow> (constraint_violation, unit) result" where
  "validate_constraints J g =
     (case first_unmet J g (fm_values (nodes g)) of
        Some v \<Rightarrow> Inl v
      | None \<Rightarrow>
          (case first_duplicate J (fm_values (nodes g)) (constraints g) of Some v \<Rightarrow> Inl v | None \<Rightarrow> Inr ()))"

section \<open>Listings\<close>

definition list_recent :: "'j inner \<Rightarrow> nat \<Rightarrow> 'j node list" where
  "list_recent g limit =
     (if limit = 0 then []
      else take limit (rev (sort_key (\<lambda>n. (n_updated_at n, n_id n)) (fm_values (nodes g)))))"

definition list_edges_by_kind :: "'j inner \<Rightarrow> string \<Rightarrow> nat \<Rightarrow> nat \<Rightarrow> 'j edge list" where
  "list_edges_by_kind g kind limit offset =
     take limit (drop offset (sort_key e_id (filter (\<lambda>e. e_kind e = kind) (fm_values (edges g)))))"

section \<open>Writes\<close>

definition create_node_checked ::
    "'j json_lib \<Rightarrow> env \<Rightarrow> 'j inner \<Rightarrow> 'j new_node \<Rightarrow> bool \<Rightarrow> (core_error, 'j node) result \<times> 'j inner" where
  "create_node_checked J env g new_node require =
     (let (i, g) = next_node g; n = into_node env new_node i in
      case check_unique J g n of
        Inl v \<Rightarrow> (Inl (ConstraintViolation v), g)
      | Inr _ \<Rightarrow>
          (case (if require then check_exists J g n else Inr ()) of
             Inl v \<Rightarrow> (Inl (ConstraintViolation v), g)
           | Inr _ \<Rightarrow>
               (let g = observe_updated_at (n_updated_at n) g;
                    g = index_title i (n_title n) g;
                    g = index_node_kind i (n_kind n) g;
                    g = index_unique J n g
                in (Inr n, g\<lparr>nodes := fmupd i n (nodes g)\<rparr>))))"

definition patch_node :: "'j node_patch \<Rightarrow> 'j node \<Rightarrow> 'j node" where
  "patch_node patch n =
     (let n = (case np_title patch of Some t \<Rightarrow> n\<lparr>n_title := t\<rparr> | None \<Rightarrow> n);
          n = (case np_kind patch of Some k \<Rightarrow> n\<lparr>n_kind := k\<rparr> | None \<Rightarrow> n);
          n = (case np_body patch of Some b \<Rightarrow> n\<lparr>n_body := b\<rparr> | None \<Rightarrow> n);
          n = (case np_body_html patch of Some b \<Rightarrow> n\<lparr>n_body_html := b\<rparr> | None \<Rightarrow> n)
      in (case np_properties patch of Some ps \<Rightarrow> n\<lparr>n_properties := ps\<rparr> | None \<Rightarrow> n))"

definition update_node_checked ::
    "'j json_lib \<Rightarrow> env \<Rightarrow> 'j inner \<Rightarrow> u64 \<Rightarrow> 'j node_patch \<Rightarrow> bool \<Rightarrow> (core_error, 'j node) result \<times> 'j inner" where
  "update_node_checked J env g i patch require =
     (case fmlookup (nodes g) i of
        None \<Rightarrow> (Inl (NodeNotFound i), g)
      | Some old \<Rightarrow>
          (let n = patch_node patch old in
           case check_unique J g n of
             Inl v \<Rightarrow> (Inl (ConstraintViolation v), g)
           | Inr _ \<Rightarrow>
               (case (if require then check_exists J g n else Inr ()) of
                  Inl v \<Rightarrow> (Inl (ConstraintViolation v), g)
                | Inr _ \<Rightarrow>
                    (let g = (if n_title old \<noteq> n_title n
                              then index_title i (n_title n) (unindex_title i (n_title old) g) else g);
                         g = (if n_kind old \<noteq> n_kind n
                              then index_node_kind i (n_kind n) (unindex_node_kind i (n_kind old) g) else g);
                         g = unindex_unique J old g;
                         g = index_unique J n g;
                         (ts, g) = next_updated_at env g;
                         n = n\<lparr>n_updated_at := ts\<rparr>
                     in (Inr n, g\<lparr>nodes := fmupd i n (nodes g)\<rparr>)))))"

definition retain_other :: "u64 \<Rightarrow> u64 \<Rightarrow> (u64, adj_entry list) fmap \<Rightarrow> (u64, adj_entry list) fmap" where
  "retain_other node_id i m =
     (case fmlookup m node_id of
        None \<Rightarrow> m
      | Some v \<Rightarrow> fmupd node_id (filter (\<lambda>e. a_edge_id e \<noteq> i) v) m)"

definition remove_edge :: "'j inner \<Rightarrow> u64 \<Rightarrow> 'j inner" where
  "remove_edge g i =
     (case fmlookup (edges g) i of
        None \<Rightarrow> g
      | Some e \<Rightarrow>
          g\<lparr>edges := fmdrop i (edges g),
            out_adj := retain_other (e_from e) i (out_adj g),
            in_adj := retain_other (e_to e) i (in_adj g)\<rparr>)"

definition drop_node :: "'j json_lib \<Rightarrow> 'j inner \<Rightarrow> 'j node \<Rightarrow> u64 \<Rightarrow> 'j inner" where
  "drop_node J g n i =
     (let g = foldl remove_edge g (map a_edge_id (incident_entries g i Both));
          g = unindex_title i (n_title n) g;
          g = unindex_node_kind i (n_kind n) g;
          g = unindex_unique J n g
      in g\<lparr>nodes := fmdrop i (nodes g), embeddings := fmdrop i (embeddings g)\<rparr>)"

definition delete_node :: "'j json_lib \<Rightarrow> 'j inner \<Rightarrow> u64 \<Rightarrow> (core_error, unit) result \<times> 'j inner" where
  "delete_node J g i =
     (case fmlookup (nodes g) i of
        None \<Rightarrow> (Inl (NodeNotFound i), g)
      | Some n \<Rightarrow> (Inr (), drop_node J g n i))"

definition link_edge :: "'j edge \<Rightarrow> 'j inner \<Rightarrow> 'j inner" where
  "link_edge e g =
     (let (kind_id, g) = intern_kind (e_kind e) g in
      g\<lparr>out_adj := fmupd (e_from e)
           (insert_adj_sorted \<lparr>a_edge_id = e_id e, a_neighbor_id = e_to e, a_kind_id = kind_id\<rparr>
              (adj_of (out_adj g) (e_from e))) (out_adj g),
        in_adj := fmupd (e_to e)
           (insert_adj_sorted \<lparr>a_edge_id = e_id e, a_neighbor_id = e_from e, a_kind_id = kind_id\<rparr>
              (adj_of (in_adj g) (e_to e))) (in_adj g)\<rparr>)"

definition create_edge :: "env \<Rightarrow> 'j inner \<Rightarrow> 'j new_edge \<Rightarrow> (core_error, 'j edge) result \<times> 'j inner" where
  "create_edge env g new_edge =
     (if \<not> f32_is_finite (ne_weight new_edge) then (Inl (InvalidWeight (ne_weight new_edge)), g)
      else if ne_from new_edge |\<notin>| fmdom (nodes g) then (Inl (NodeNotFound (ne_from new_edge)), g)
      else if ne_to new_edge |\<notin>| fmdom (nodes g) then (Inl (NodeNotFound (ne_to new_edge)), g)
      else
        (let (i, g) = next_edge g;
             e = into_edge env new_edge i;
             g = link_edge e g
         in (Inr e, g\<lparr>edges := fmupd i e (edges g)\<rparr>)))"

definition patch_edge :: "'j edge_patch \<Rightarrow> 'j edge \<Rightarrow> 'j edge" where
  "patch_edge patch e =
     (let e = (case ep_kind patch of Some k \<Rightarrow> e\<lparr>e_kind := k\<rparr> | None \<Rightarrow> e);
          e = (case ep_weight patch of Some w \<Rightarrow> e\<lparr>e_weight := w\<rparr> | None \<Rightarrow> e)
      in (case ep_properties patch of Some ps \<Rightarrow> e\<lparr>e_properties := ps\<rparr> | None \<Rightarrow> e))"

definition rekind :: "u64 \<Rightarrow> u32 \<Rightarrow> u64 \<Rightarrow> (u64, adj_entry list) fmap \<Rightarrow> (u64, adj_entry list) fmap" where
  "rekind i new_kind_id node_id m =
     (case fmlookup m node_id of
        None \<Rightarrow> m
      | Some v \<Rightarrow>
          fmupd node_id
            (sort_key adj_sort_key (map (\<lambda>e. if a_edge_id e = i then e\<lparr>a_kind_id := new_kind_id\<rparr> else e) v)) m)"

definition update_edge :: "'j inner \<Rightarrow> u64 \<Rightarrow> 'j edge_patch \<Rightarrow> (core_error, 'j edge) result \<times> 'j inner" where
  "update_edge g i patch =
     (case (case ep_weight patch of Some w \<Rightarrow> (if f32_is_finite w then None else Some w) | None \<Rightarrow> None) of
        Some w \<Rightarrow> (Inl (InvalidWeight w), g)
      | None \<Rightarrow>
          (case fmlookup (edges g) i of
             None \<Rightarrow> (Inl (EdgeNotFound i), g)
           | Some old \<Rightarrow>
               (let e = patch_edge patch old;
                    g = (if ep_kind patch \<noteq> None
                         then let (new_kind_id, g) = intern_kind (e_kind e) g in
                           g\<lparr>out_adj := rekind i new_kind_id (e_from e) (out_adj g),
                             in_adj := rekind i new_kind_id (e_to e) (in_adj g)\<rparr>
                         else g)
                in (Inr e, g\<lparr>edges := fmupd i e (edges g)\<rparr>))))"

definition delete_edge :: "'j inner \<Rightarrow> u64 \<Rightarrow> (core_error, unit) result \<times> 'j inner" where
  "delete_edge g i =
     (if i |\<notin>| fmdom (edges g) then (Inl (EdgeNotFound i), g) else (Inr (), remove_edge g i))"

section \<open>The write-ahead log\<close>

text \<open>The snapshot form: \<open>for_each_wal_op\<close> as the list of what it hands out.\<close>

definition to_wal_ops :: "'j inner \<Rightarrow> 'j wal_op list" where
  "to_wal_ops g =
     map UpsertNode (sort_key n_id (fm_values (nodes g)))
     @ map UpsertEdge (sort_key e_id (fm_values (edges g)))
     @ map (\<lambda>(i, v). SetEmbedding i v) (sorted_list_of_fmap (embeddings g))
     @ map (\<lambda>(gid, entry). Prepare gid (pe_prepared_at_ms entry) (pe_ops entry)) (sorted_list_of_fmap (prepared g))
     @ map (\<lambda>gid. RollbackPrepared gid True) (sorted_list_of_fset (heuristic g))"

definition upsert_node :: "'j json_lib \<Rightarrow> 'j node \<Rightarrow> 'j inner \<Rightarrow> 'j inner" where
  "upsert_node J n g =
     (let g = (case fmlookup (nodes g) (n_id n) of
                 Some old \<Rightarrow>
                   unindex_unique J old
                     (unindex_node_kind (n_id n) (n_kind old) (unindex_title (n_id n) (n_title old) g))
               | None \<Rightarrow> g);
          g = index_title (n_id n) (n_title n) g;
          g = index_unique J n g;
          g = index_node_kind (n_id n) (n_kind n) g;
          g = observe_node (n_id n) g;
          g = observe_updated_at (n_updated_at n) g
      in g\<lparr>nodes := fmupd (n_id n) n (nodes g)\<rparr>)"

definition upsert_edge :: "'j edge \<Rightarrow> 'j inner \<Rightarrow> 'j inner" where
  "upsert_edge e g =
     (let g = (if e_id e |\<in>| fmdom (edges g) then remove_edge g (e_id e) else g);
          g = link_edge e g;
          g = observe_edge (e_id e) g
      in g\<lparr>edges := fmupd (e_id e) e (edges g)\<rparr>)"

text \<open>
  \<open>apply_wal_op\<close> recurses into the operations of a prepared transaction at its commit. Here the recursion is
  a worklist: those operations go in front of the rest. It ends because every step takes an operation off
  the worklist, and what a commit puts back was taken out of the prepared table.
\<close>

definition prepared_weight :: "(string, 'j prepared_entry) fmap \<Rightarrow> nat" where
  "prepared_weight p = (\<Sum>gid \<in> fset (fmdom p). size_list size (pe_ops (the (fmlookup p gid))))"

lemma prepared_weight_drop:
  assumes "fmlookup p gid = Some entry"
  shows "prepared_weight p = prepared_weight (fmdrop gid p) + size_list size (pe_ops entry)"
proof -
  have dom: "gid |\<in>| fmdom p"
    using assms by (rule fmdomI)
  have "prepared_weight p = size_list size (pe_ops (the (fmlookup p gid))) +
      (\<Sum>x \<in> fset (fmdom p) - {gid}. size_list size (pe_ops (the (fmlookup p x))))"
    unfolding prepared_weight_def using dom by (intro sum.remove) auto
  moreover have "prepared_weight (fmdrop gid p) =
      (\<Sum>x \<in> fset (fmdom p) - {gid}. size_list size (pe_ops (the (fmlookup p x))))"
    unfolding prepared_weight_def by (intro sum.cong) (auto simp: fmdom_drop)
  ultimately show ?thesis
    using assms by simp
qed

lemma prepared_weight_drop_le: "prepared_weight (fmdrop gid p) \<le> prepared_weight p"
proof (cases "fmlookup p gid")
  case None
  then have "fmdrop gid p = p"
    by (intro fmap_ext) auto
  then show ?thesis by simp
qed (use prepared_weight_drop [of p gid] in auto)

lemma prepared_weight_upd:
  "prepared_weight (fmupd gid entry p) \<le> prepared_weight p + size_list size (pe_ops entry)"
proof -
  have "fmdrop gid (fmupd gid entry p) = fmdrop gid p"
    by (rule fmap_ext) simp
  then show ?thesis
    using prepared_weight_drop [of "fmupd gid entry p" gid entry] prepared_weight_drop_le [of gid p] by simp
qed

lemma size_list_append: "size_list f (xs @ ys) = size_list f xs + size_list f ys"
  by (induction xs) auto

lemma index_prepared [simp]:
  "prepared (index_title i t g) = prepared g" "prepared (unindex_title i t g) = prepared g"
  "prepared (index_node_kind i t g) = prepared g" "prepared (unindex_node_kind i t g) = prepared g"
  "prepared (index_unique J n g) = prepared g" "prepared (unindex_unique J n g) = prepared g"
  "prepared (observe_node i g) = prepared g" "prepared (observe_edge i g) = prepared g"
  "prepared (observe_updated_at ts g) = prepared g" "prepared (remove_edge g i) = prepared g"
  "prepared (snd (intern_kind k g)) = prepared g"
  by (simp_all add: index_title_def unindex_title_def index_node_kind_def unindex_node_kind_def index_unique_def
      unindex_unique_def observe_node_def observe_edge_def observe_updated_at_def remove_edge_def intern_kind_def
      Let_def split: option.split)

lemma remove_edges_prepared [simp]: "prepared (foldl remove_edge g is) = prepared g"
  by (induction "is" arbitrary: g) auto

lemma link_edge_prepared [simp]: "prepared (link_edge e g) = prepared g"
  by (simp add: link_edge_def case_prod_beta)

lemma wal_step_prepared [simp]:
  "prepared (upsert_node J n g) = prepared g" "prepared (upsert_edge e g) = prepared g"
  "prepared (drop_node J g n i) = prepared g"
  by (simp_all add: upsert_node_def upsert_edge_def drop_node_def Let_def split: option.split)

function apply_wal_ops :: "'j json_lib \<Rightarrow> 'j inner \<Rightarrow> 'j wal_op list \<Rightarrow> 'j inner" where
  "apply_wal_ops J g [] = g"
| "apply_wal_ops J g (UpsertNode n # ops) = apply_wal_ops J (upsert_node J n g) ops"
| "apply_wal_ops J g (DeleteNode i # ops) =
     apply_wal_ops J (case fmlookup (nodes g) i of Some n \<Rightarrow> drop_node J g n i | None \<Rightarrow> g) ops"
| "apply_wal_ops J g (UpsertEdge e # ops) = apply_wal_ops J (upsert_edge e g) ops"
| "apply_wal_ops J g (DeleteEdge i # ops) = apply_wal_ops J (remove_edge g i) ops"
| "apply_wal_ops J g (SetEmbedding i v # ops) =
     apply_wal_ops J (g\<lparr>embeddings := fmupd i v (embeddings g)\<rparr>) ops"
| "apply_wal_ops J g (DeleteEmbedding i # ops) =
     apply_wal_ops J (g\<lparr>embeddings := fmdrop i (embeddings g)\<rparr>) ops"
| "apply_wal_ops J g (Prepare gid at pops # ops) =
     apply_wal_ops J
       (g\<lparr>heuristic := heuristic g |-| {|gid|},
          prepared := fmupd gid \<lparr>pe_prepared_at_ms = at, pe_ops = pops\<rparr> (prepared g)\<rparr>) ops"
| "apply_wal_ops J g (CommitPrepared gid # ops) =
     (case fmlookup (prepared g) gid of
        None \<Rightarrow> apply_wal_ops J g ops
      | Some entry \<Rightarrow>
          apply_wal_ops J (g\<lparr>prepared := fmdrop gid (prepared g)\<rparr>) (pe_ops entry @ ops))"
| "apply_wal_ops J g (RollbackPrepared gid h # ops) =
     apply_wal_ops J
       (let g = g\<lparr>prepared := fmdrop gid (prepared g)\<rparr>
        in if h then g\<lparr>heuristic := finsert gid (heuristic g)\<rparr> else g) ops"
  by pat_completeness auto
termination
proof (relation "measure (\<lambda>(J, g, ops). size_list size ops + prepared_weight (prepared g))", goal_cases)
  case (8 J g gid at pops ops)
  show ?case
    using prepared_weight_upd [of gid "\<lparr>pe_prepared_at_ms = at, pe_ops = pops\<rparr>" "prepared g"] by simp
next
  case (10 J g gid ops entry)
  then show ?case
    using prepared_weight_drop [of "prepared g" gid entry] by (simp add: size_list_append)
next
  case (11 J g gid h ops)
  show ?case
    using prepared_weight_drop_le [of gid "prepared g"] by (simp add: Let_def)
qed (auto split: option.split)

definition apply_wal_op :: "'j json_lib \<Rightarrow> 'j inner \<Rightarrow> 'j wal_op \<Rightarrow> 'j inner" where
  "apply_wal_op J g op = apply_wal_ops J g [op]"

lemma apply_wal_ops_append:
  "apply_wal_ops J g (ops @ ops') = apply_wal_ops J (apply_wal_ops J g ops) ops'"
  by (induction J g ops rule: apply_wal_ops.induct) (auto split: option.split)

lemma apply_wal_ops_foldl: "apply_wal_ops J g ops = foldl (apply_wal_op J) g ops"
proof (induction ops arbitrary: g)
  case (Cons op ops)
  have "apply_wal_ops J g (op # ops) = apply_wal_ops J (apply_wal_op J g op) ops"
    using apply_wal_ops_append [of J g "[op]" ops] by (simp add: apply_wal_op_def)
  with Cons show ?case by simp
qed simp

end
