(* ===== verification/Native_Index.thy ===== *)
theory Native_Index
  imports Native_Inner
begin

text \<open>
  What the derived structures of the engine's state say of its tables: the title and kind indexes and the
  uniqueness lookups list exactly the nodes with a value, and the adjacency lists hold exactly the
  relationships of a node, sorted. Each structure is treated on its own, as a function of the table it
  describes, with one lemma for every way the code changes it.
\<close>

section \<open>Postings\<close>

text \<open>\<open>postings L val\<close>: the lookup \<open>L\<close> has, for every value, the non-empty set of ids that \<open>val\<close> gives it.\<close>

definition postings :: "('k \<Rightarrow> u64 fset option) \<Rightarrow> (u64 \<Rightarrow> 'k option) \<Rightarrow> bool" where
  "postings L val \<longleftrightarrow>
     (\<forall>k. case L k of None \<Rightarrow> (\<forall>i. val i \<noteq> Some k) | Some s \<Rightarrow> s \<noteq> {||} \<and> (\<forall>i. i |\<in>| s \<longleftrightarrow> val i = Some k))"

lemma postings_mem: "postings L val \<Longrightarrow> (case L k of None \<Rightarrow> False | Some s \<Rightarrow> i |\<in>| s) \<longleftrightarrow> val i = Some k"
  by (auto simp: postings_def split: option.splits dest: spec [of _ k])

lemma postings_add:
  assumes "postings L val" and "val i = None"
    and "L' = L(k \<mapsto> finsert i (case L k of Some s \<Rightarrow> s | None \<Rightarrow> {||}))"
  shows "postings L' (val(i \<mapsto> k))"
  unfolding postings_def
proof
  fix j
  have j: "case L j of None \<Rightarrow> (\<forall>i. val i \<noteq> Some j) | Some s \<Rightarrow> s \<noteq> {||} \<and> (\<forall>i. i |\<in>| s \<longleftrightarrow> val i = Some j)"
    using assms(1) by (simp add: postings_def)
  show "case L' j of None \<Rightarrow> (\<forall>i'. (val(i \<mapsto> k)) i' \<noteq> Some j)
      | Some s \<Rightarrow> s \<noteq> {||} \<and> (\<forall>i'. i' |\<in>| s \<longleftrightarrow> (val(i \<mapsto> k)) i' = Some j)"
    using j assms(2,3) by (cases "j = k") (auto split: option.splits)
qed

lemma postings_remove:
  assumes "postings L val" and "val i = Some k"
    and "L' = (case L k of None \<Rightarrow> L | Some s \<Rightarrow> if s |-| {|i|} = {||} then L(k := None) else L(k \<mapsto> s |-| {|i|}))"
  shows "postings L' (val(i := None))"
  unfolding postings_def
proof
  fix j
  have at: "case L j of None \<Rightarrow> (\<forall>i. val i \<noteq> Some j) | Some s \<Rightarrow> s \<noteq> {||} \<and> (\<forall>i. i |\<in>| s \<longleftrightarrow> val i = Some j)" for j
    using assms(1) by (simp add: postings_def)
  obtain s where s: "L k = Some s" "\<forall>i. i |\<in>| s \<longleftrightarrow> val i = Some k"
    using at [of k] assms(2) by (cases "L k") auto
  show "case L' j of None \<Rightarrow> (\<forall>i'. (val(i := None)) i' \<noteq> Some j)
      | Some s \<Rightarrow> s \<noteq> {||} \<and> (\<forall>i'. i' |\<in>| s \<longleftrightarrow> (val(i := None)) i' = Some j)"
  proof (cases "j = k")
    case True
    have "x |\<in>| s |-| {|i|} \<longleftrightarrow> (val(i := None)) x = Some k" for x
      using s(2) by auto
    then show ?thesis
      using True s(1) assms(3) by (auto simp: fset_eq_iff)
  next
    case False
    then have "L' j = L j"
      using s(1) assms(3) by auto
    with at [of j] False assms(2) show ?thesis
      by (auto split: option.splits)
  qed
qed

section \<open>The indexes over nodes\<close>

definition titles_ok :: "(string, id_set) fmap \<Rightarrow> (u64 \<Rightarrow> 'j node option) \<Rightarrow> bool" where
  "titles_ok T N \<longleftrightarrow> (\<forall>t s. fmlookup T t = Some s \<longrightarrow> id_set_inv s) \<and>
     postings (\<lambda>t. map_option ids_of (fmlookup T t)) (\<lambda>i. map_option n_title (N i))"

definition kinds_ok :: "(string, u64 fset) fmap \<Rightarrow> (u64 \<Rightarrow> 'j node option) \<Rightarrow> bool" where
  "kinds_ok K N \<longleftrightarrow> postings (fmlookup K) (\<lambda>i. map_option n_kind (N i))"

definition tuple_val :: "'j json_lib \<Rightarrow> string \<times> string list \<Rightarrow> 'j node \<Rightarrow> string option" where
  "tuple_val J key n = (if has_label J n (fst key) then tuple_key J n (snd key) else None)"

definition unique_ok ::
    "'j json_lib \<Rightarrow> (string \<times> string list, (string, u64 fset) fmap) fmap \<Rightarrow> (u64 \<Rightarrow> 'j node option) \<Rightarrow> bool" where
  "unique_ok J U N \<longleftrightarrow>
     (\<forall>key vals. fmlookup U key = Some vals \<longrightarrow> postings (fmlookup vals) (\<lambda>i. Option.bind (N i) (tuple_val J key)))"

lemma upd_map_option: "(\<lambda>j. map_option f ((N(i \<mapsto> n)) j)) = (\<lambda>j. map_option f (N j))(i \<mapsto> f n)"
  "(\<lambda>j. map_option f ((N(i := None)) j)) = (\<lambda>j. map_option f (N j))(i := None)"
  by (auto simp: fun_eq_iff)

lemma titles_ok_index:
  assumes "titles_ok (titles g) N" and "N i = None"
  shows "titles_ok (titles (index_title i (n_title n) g)) (N(i \<mapsto> n))"
proof -
  let ?s = "case fmlookup (titles g) (n_title n) of Some s \<Rightarrow> s | None \<Rightarrow> EmptyIds"
  have inv: "id_set_inv ?s" and post: "postings (\<lambda>t. map_option ids_of (fmlookup (titles g) t)) (\<lambda>i. map_option n_title (N i))"
    using assms(1) by (auto simp: titles_ok_def split: option.split)
  have "postings (\<lambda>t. map_option ids_of (fmlookup (titles (index_title i (n_title n) g)) t))
      ((\<lambda>i. map_option n_title (N i))(i \<mapsto> n_title n))"
    by (rule postings_add [OF post])
      (auto simp: assms(2) index_title_def Let_def fun_eq_iff id_sets.ids_ins [OF inv] split: option.split)
  then show ?thesis
    using assms(1) id_sets.inv_ins [OF inv]
    unfolding titles_ok_def upd_map_option by (auto simp: index_title_def Let_def)
qed

lemma titles_ok_unindex:
  assumes "titles_ok (titles g) N" and "N i = Some n"
  shows "titles_ok (titles (unindex_title i (n_title n) g)) (N(i := None))"
proof -
  let ?t = "n_title n"
  have post: "postings (\<lambda>t. map_option ids_of (fmlookup (titles g) t)) (\<lambda>i. map_option n_title (N i))"
    and inv: "\<And>t s. fmlookup (titles g) t = Some s \<Longrightarrow> id_set_inv s"
    using assms(1) by (auto simp: titles_ok_def)
  obtain s where s: "fmlookup (titles g) ?t = Some s"
    using postings_mem [OF post, of i ?t] assms(2) by (auto split: option.splits)
  note rem = id_sets.ids_rem [OF inv [OF s], of i] id_sets.inv_rem [OF inv [OF s], of i]
  have empty: "id_set_is_empty (snd (id_set_remove s i)) \<longleftrightarrow> ids_of s |-| {|i|} = {||}"
    using id_set_is_empty_iff [OF rem(2)] rem(1) by simp
  have "postings (\<lambda>t. map_option ids_of (fmlookup (titles (unindex_title i ?t g)) t))
      ((\<lambda>i. map_option n_title (N i))(i := None))"
    by (rule postings_remove [OF post, of i ?t])
      (auto simp: assms(2) unindex_title_def s Let_def fun_eq_iff rem(1) empty)
  then show ?thesis
    using inv rem(2) unfolding titles_ok_def upd_map_option
    by (auto simp: unindex_title_def s Let_def split: if_splits)
qed

lemma kinds_ok_index:
  assumes "kinds_ok (kind_index g) N" and "N i = None"
  shows "kinds_ok (kind_index (index_node_kind i (n_kind n) g)) (N(i \<mapsto> n))"
  unfolding kinds_ok_def upd_map_option
  by (rule postings_add [OF assms(1) [unfolded kinds_ok_def]])
    (auto simp: assms(2) index_node_kind_def Let_def fun_eq_iff split: option.split)

lemma kinds_ok_unindex:
  assumes "kinds_ok (kind_index g) N" and "N i = Some n"
  shows "kinds_ok (kind_index (unindex_node_kind i (n_kind n) g)) (N(i := None))"
  unfolding kinds_ok_def upd_map_option
  by (rule postings_remove [OF assms(1) [unfolded kinds_ok_def], of i "n_kind n"])
    (auto simp: assms(2) unindex_node_kind_def Let_def fun_eq_iff split: option.split)

lemma index_unique_lookup:
  "fmlookup (unique (index_unique J n g)) key =
     map_option (\<lambda>vals. case tuple_val J key n of Some k \<Rightarrow> add_id k (n_id n) vals | None \<Rightarrow> vals) (fmlookup (unique g) key)"
  "fmlookup (unique (unindex_unique J n g)) key =
     map_option (\<lambda>vals. case tuple_val J key n of Some k \<Rightarrow> drop_id k (n_id n) vals | None \<Rightarrow> vals) (fmlookup (unique g) key)"
  by (cases key; cases "fmlookup (unique g) key"; simp add: index_unique_def unindex_unique_def tuple_val_def)+

lemma unique_ok_index:
  assumes "unique_ok J (unique g) N" and "N i = None" and "n_id n = i"
  shows "unique_ok J (unique (index_unique J n g)) (N(i \<mapsto> n))"
  unfolding unique_ok_def
proof (intro allI impI)
  fix key vals'
  assume "fmlookup (unique (index_unique J n g)) key = Some vals'"
  then obtain vals where vals: "fmlookup (unique g) key = Some vals"
    and vals': "vals' = (case tuple_val J key n of Some k \<Rightarrow> add_id k i vals | None \<Rightarrow> vals)"
    using assms(3) by (cases "tuple_val J key n") (auto simp: index_unique_lookup)
  let ?val = "\<lambda>i. Option.bind (N i) (tuple_val J key)"
  have post: "postings (fmlookup vals) ?val"
    using assms(1) vals unfolding unique_ok_def by blast
  have val: "(\<lambda>j. Option.bind ((N(i \<mapsto> n)) j) (tuple_val J key)) = ?val(i := tuple_val J key n)"
    by (auto simp: fun_eq_iff)
  show "postings (fmlookup vals') (\<lambda>j. Option.bind ((N(i \<mapsto> n)) j) (tuple_val J key))"
  proof (cases "tuple_val J key n")
    case None
    have "?val(i := None) = ?val"
      using assms(2) by (simp add: fun_eq_iff)
    with None post show ?thesis by (simp only: val vals' option.case)
  next
    case (Some k)
    show ?thesis
      unfolding val Some
      by (rule postings_add [OF post]) (auto simp: assms(2) vals' Some add_id_def fun_eq_iff)
  qed
qed

lemma unique_ok_unindex:
  assumes "unique_ok J (unique g) N" and "N i = Some n" and "n_id n = i"
  shows "unique_ok J (unique (unindex_unique J n g)) (N(i := None))"
  unfolding unique_ok_def
proof (intro allI impI)
  fix key vals'
  assume "fmlookup (unique (unindex_unique J n g)) key = Some vals'"
  then obtain vals where vals: "fmlookup (unique g) key = Some vals"
    and vals': "vals' = (case tuple_val J key n of Some k \<Rightarrow> drop_id k i vals | None \<Rightarrow> vals)"
    using assms(3) by (cases "tuple_val J key n") (auto simp: index_unique_lookup)
  let ?val = "\<lambda>i. Option.bind (N i) (tuple_val J key)"
  have post: "postings (fmlookup vals) ?val"
    using assms(1) vals unfolding unique_ok_def by blast
  have val: "(\<lambda>j. Option.bind ((N(i := None)) j) (tuple_val J key)) = ?val(i := None)"
    by (auto simp: fun_eq_iff)
  show "postings (fmlookup vals') (\<lambda>j. Option.bind ((N(i := None)) j) (tuple_val J key))"
  proof (cases "tuple_val J key n")
    case None
    then have "?val(i := None) = ?val"
      using assms(2) by (simp add: fun_eq_iff)
    with None post show ?thesis by (simp only: val vals' option.case)
  next
    case (Some k)
    show ?thesis
      unfolding val
      by (rule postings_remove [OF post, of i k])
        (auto simp: assms(2) vals' Some drop_id_def fun_eq_iff split: option.split)
  qed
qed

text \<open>Touching a node without changing what an index looks at.\<close>

lemma index_ok_touch:
  assumes "N i = Some old"
  shows "n_title n = n_title old \<Longrightarrow> titles_ok T N \<Longrightarrow> titles_ok T (N(i \<mapsto> n))"
    and "n_kind n = n_kind old \<Longrightarrow> kinds_ok K N \<Longrightarrow> kinds_ok K (N(i \<mapsto> n))"
    and "(\<And>key. tuple_val J key n = tuple_val J key old) \<Longrightarrow> unique_ok J U N \<Longrightarrow> unique_ok J U (N(i \<mapsto> n))"
proof -
  have eq: "(\<lambda>j. map_option f ((N(i \<mapsto> n)) j)) = (\<lambda>j. map_option f (N j))" if "f n = f old" for f :: "'a node \<Rightarrow> 'x"
    using that assms by (auto simp: fun_eq_iff)
  show "titles_ok T (N(i \<mapsto> n))" if "n_title n = n_title old" and "titles_ok T N"
    using that(2) unfolding titles_ok_def eq [of n_title, OF that(1)] .
  show "kinds_ok K (N(i \<mapsto> n))" if "n_kind n = n_kind old" and "kinds_ok K N"
    using that(2) unfolding kinds_ok_def eq [of n_kind, OF that(1)] .
  assume t: "\<And>key. tuple_val J key n = tuple_val J key old" and "unique_ok J U N"
  have "(\<lambda>j. Option.bind ((N(i \<mapsto> n)) j) (tuple_val J key)) = (\<lambda>j. Option.bind (N j) (tuple_val J key))" for key
    using t assms by (auto simp: fun_eq_iff)
  with \<open>unique_ok J U N\<close> show "unique_ok J U (N(i \<mapsto> n))"
    by (simp only: unique_ok_def)
qed

lemma tuple_val_updated_at [simp]: "tuple_val J key (n\<lparr>n_updated_at := ts\<rparr>) = tuple_val J key n"
proof -
  have u: "unique_key J (n\<lparr>n_updated_at := ts\<rparr>) = unique_key J n"
    by (intro ext) (simp add: unique_key_def Let_def split: option.split)
  have "tuple_key_from J (n\<lparr>n_updated_at := ts\<rparr>) first ps acc = tuple_key_from J n first ps acc" for first ps acc
    by (induction ps arbitrary: first acc) (auto simp: u split: option.split)
  moreover have "has_label J (n\<lparr>n_updated_at := ts\<rparr>) l = has_label J n l" for l
    by (simp add: has_label_def secondary_labels_def)
  ultimately show ?thesis
    by (simp add: tuple_val_def tuple_key_def)
qed

section \<open>Adjacency lists\<close>

text \<open>
  \<open>adj_ok A E src ent\<close>: the list of every node holds exactly the entries \<open>ent e\<close> of the relationships \<open>e\<close>
  with \<open>src e\<close> that node, sorted and without repetition. It is used once for the outgoing lists and once
  for the incoming ones.
\<close>

definition adj_ok ::
    "(u64, adj_entry list) fmap \<Rightarrow> (u64 \<Rightarrow> 'j edge option) \<Rightarrow> ('j edge \<Rightarrow> u64) \<Rightarrow> ('j edge \<Rightarrow> adj_entry) \<Rightarrow> bool" where
  "adj_ok A E src ent \<longleftrightarrow>
     (\<forall>x. adj_sorted (adj_of A x) \<and> distinct (map a_edge_id (adj_of A x)) \<and>
        set (adj_of A x) = ent ` {e. E (e_id e) = Some e \<and> src e = x})"

definition keyed :: "(u64 \<Rightarrow> 'j edge option) \<Rightarrow> bool" where
  "keyed E \<longleftrightarrow> (\<forall>i e. E i = Some e \<longrightarrow> e_id e = i)"

lemma adj_okD:
  "adj_ok A E src ent \<Longrightarrow> adj_sorted (adj_of A x)"
  "adj_ok A E src ent \<Longrightarrow> distinct (map a_edge_id (adj_of A x))"
  "adj_ok A E src ent \<Longrightarrow> set (adj_of A x) = ent ` {e. E (e_id e) = Some e \<and> src e = x}"
  by (simp_all add: adj_ok_def)

lemma adj_of_upd [simp]: "adj_of (fmupd y v A) x = (if x = y then v else adj_of A x)"
  by simp

lemma adj_ok_add:
  assumes ok: "adj_ok A E src ent" and new: "E (e_id e) = None" and id: "\<And>e. a_edge_id (ent e) = e_id e"
  shows "adj_ok (fmupd (src e) (insert_adj_sorted (ent e) (adj_of A (src e))) A) (E(e_id e \<mapsto> e)) src ent"
  unfolding adj_ok_def
proof
  fix x
  have edges: "{e'. (E(e_id e \<mapsto> e)) (e_id e') = Some e' \<and> src e' = x} =
      {e'. E (e_id e') = Some e' \<and> src e' = x} \<union> (if src e = x then {e} else {})"
    using new by auto
  have fresh: "a_edge_id (ent e) \<notin> a_edge_id ` set (adj_of A (src e))"
    using new by (auto simp: adj_okD(3) [OF ok] id)
  show "adj_sorted (adj_of (fmupd (src e) (insert_adj_sorted (ent e) (adj_of A (src e))) A) x) \<and>
      distinct (map a_edge_id (adj_of (fmupd (src e) (insert_adj_sorted (ent e) (adj_of A (src e))) A) x)) \<and>
      set (adj_of (fmupd (src e) (insert_adj_sorted (ent e) (adj_of A (src e))) A) x) =
        ent ` {e'. (E(e_id e \<mapsto> e)) (e_id e') = Some e' \<and> src e' = x}"
  proof (cases "x = src e")
    case True
    then show ?thesis
      unfolding edges adj_of_upd
      using adj_okD [OF ok, of "src e"] fresh by (simp add: sorted_insert_adj distinct_insert_adj)
  next
    case False
    then show ?thesis
      unfolding edges adj_of_upd using adj_okD [OF ok, of x] by simp
  qed
qed

lemma adj_ok_remove:
  assumes ok: "adj_ok A E src ent" and old: "E i = Some e" and keyed: "keyed E" and id: "\<And>e. a_edge_id (ent e) = e_id e"
  shows "adj_ok (retain_other (src e) i A) (E(i := None)) src ent"
  unfolding adj_ok_def
proof
  fix x
  have i: "e_id e = i"
    using old keyed by (simp add: keyed_def)
  let ?B = "retain_other (src e) i A"
  have adj: "adj_of ?B x = (if x = src e then filter (\<lambda>a. a_edge_id a \<noteq> i) (adj_of A x) else adj_of A x)"
    by (simp add: retain_other_def split: option.split)
  have edges: "{e'. (E(i := None)) (e_id e') = Some e' \<and> src e' = x} =
      {e'. E (e_id e') = Some e' \<and> src e' = x} - {e'. e_id e' = i}"
    by auto
  show "adj_sorted (adj_of ?B x) \<and> distinct (map a_edge_id (adj_of ?B x)) \<and>
      set (adj_of ?B x) = ent ` {e'. (E(i := None)) (e_id e') = Some e' \<and> src e' = x}"
  proof (cases "x = src e")
    case True
    have "adj_sorted (filter P (adj_of A x))" for P
      using adj_okD(1) [OF ok, of x] by (simp add: sorted_map sorted_wrt_filter)
    moreover have "distinct (map a_edge_id (filter P (adj_of A x)))" for P
      using adj_okD(2) [OF ok, of x] by (rule distinct_map_filter)
    moreover have "set (filter (\<lambda>a. a_edge_id a \<noteq> i) (adj_of A x)) =
        ent ` ({e'. E (e_id e') = Some e' \<and> src e' = x} - {e'. e_id e' = i})"
      unfolding set_filter adj_okD(3) [OF ok, of x] by (auto simp: id)
    ultimately show ?thesis
      unfolding adj edges using True by simp
  next
    case False
    have "e' = e" if "E (e_id e') = Some e'" "e_id e' = i" for e'
      using that old by simp
    then have "{e'. E (e_id e') = Some e' \<and> src e' = x} - {e'. e_id e' = i} = {e'. E (e_id e') = Some e' \<and> src e' = x}"
      using False by auto
    then show ?thesis
      unfolding adj edges using False adj_okD [OF ok, of x] by simp
  qed
qed

lemma adj_ok_cong:
  assumes "adj_ok A E src ent" and "\<And>i e. E i = Some e \<Longrightarrow> ent' e = ent e"
  shows "adj_ok A E src ent'"
proof -
  have "ent' ` {e. E (e_id e) = Some e \<and> src e = x} = ent ` {e. E (e_id e) = Some e \<and> src e = x}" for x
    using assms(2) by (intro image_cong) auto
  with assms(1) show ?thesis by (simp add: adj_ok_def)
qed

lemma distinct_map_sort: "distinct (map f (sort_key h xs)) = distinct (map f xs)"
  by (simp add: distinct_map)

text \<open>A changed relationship with the same ends: its entry is rewritten in place and the list sorted.\<close>

lemma adj_ok_rekind:
  assumes ok: "adj_ok A E src ent" and old: "E i = Some old" and keyed: "keyed E"
    and id: "\<And>e. a_edge_id (ent e) = e_id e" and e: "e_id e = i" "src e = src old"
    and same: "\<And>e'. e_id e' \<noteq> i \<Longrightarrow> E (e_id e') = Some e' \<Longrightarrow> ent' e' = ent e'"
    and new: "ent' e = (ent old)\<lparr>a_kind_id := k\<rparr>"
  shows "adj_ok (rekind i k (src e) A) (E(i \<mapsto> e)) src ent'"
  unfolding adj_ok_def
proof
  fix x
  let ?f = "\<lambda>a. if a_edge_id a = i then a\<lparr>a_kind_id := k\<rparr> else a"
  let ?B = "rekind i k (src e) A"
  have i: "e_id old = i"
    using old keyed by (simp add: keyed_def)
  have adj: "set (adj_of ?B x) = (if x = src e then ?f ` set (adj_of A x) else set (adj_of A x))"
    "map a_edge_id (adj_of ?B x) = (if x = src e then map a_edge_id (sort_key adj_sort_key (map ?f (adj_of A x))) else map a_edge_id (adj_of A x))"
    by (auto simp: rekind_def split: option.split)
  have sorted: "adj_sorted (adj_of ?B x)"
    using adj_okD(1) [OF ok, of x] by (auto simp: rekind_def split: option.splits)
  have ids: "map a_edge_id (map ?f v) = map a_edge_id v" for v
    by simp
  have "distinct (map a_edge_id (sort_key adj_sort_key (map ?f (adj_of A x))))"
    unfolding distinct_map_sort ids by (rule adj_okD(2) [OF ok])
  then have dist: "distinct (map a_edge_id (adj_of ?B x))"
    unfolding adj(2) using adj_okD(2) [OF ok, of x] by presburger
  have edges: "{e'. (E(i \<mapsto> e)) (e_id e') = Some e' \<and> src e' = x} =
      {e'. E (e_id e') = Some e' \<and> src e' = x \<and> e_id e' \<noteq> i} \<union> (if src e = x then {e} else {})"
    using e(1) by auto
  have split: "{e'. E (e_id e') = Some e' \<and> src e' = x} =
      {e'. E (e_id e') = Some e' \<and> src e' = x \<and> e_id e' \<noteq> i} \<union> (if src e = x then {old} else {})"
    using old i e(2) by auto
  let ?S = "{e'. E (e_id e') = Some e' \<and> src e' = x \<and> e_id e' \<noteq> i}"
  have S: "ent' ` ?S = ent ` ?S" "?f ` ent ` ?S = ent ` ?S"
    using same id by (auto simp: image_image intro!: image_cong)
  have "set (adj_of ?B x) = ent' ` {e'. (E(i \<mapsto> e)) (e_id e') = Some e' \<and> src e' = x}"
    unfolding adj(1) edges adj_okD(3) [OF ok, of x] split
    using S new id i by (auto simp: image_Un)
  with sorted dist show "adj_sorted (adj_of ?B x) \<and> distinct (map a_edge_id (adj_of ?B x)) \<and>
      set (adj_of ?B x) = ent' ` {e'. (E(i \<mapsto> e)) (e_id e') = Some e' \<and> src e' = x}"
    by blast
qed

end
