(* ===== verification/Native_Graph.thy ===== *)
theory Native_Graph
  imports Native_Index
begin

text \<open>
  The invariant of the graph state and its preservation by every operation of \<open>impl Inner\<close>, live writes
  and log replay alike, with what follows for readers: adjacency answers, cascading deletes, uniqueness.
\<close>

section \<open>What each step leaves alone\<close>

lemma index_title_frame [simp]:
  "nodes (index_title i t g) = nodes g" "edges (index_title i t g) = edges g" "out_adj (index_title i t g) = out_adj g"
  "in_adj (index_title i t g) = in_adj g" "kind_index (index_title i t g) = kind_index g" "kind_ids (index_title i t g) = kind_ids g"
  "embeddings (index_title i t g) = embeddings g" "constraints (index_title i t g) = constraints g" "unique (index_title i t g) = unique g"
  "ids (index_title i t g) = ids g" "last_updated_at (index_title i t g) = last_updated_at g" "prepared (index_title i t g) = prepared g"
  "heuristic (index_title i t g) = heuristic g" "commit_seq (index_title i t g) = commit_seq g"
  by (simp_all add: index_title_def Let_def split: option.split)

lemma unindex_title_frame [simp]:
  "nodes (unindex_title i t g) = nodes g" "edges (unindex_title i t g) = edges g" "out_adj (unindex_title i t g) = out_adj g"
  "in_adj (unindex_title i t g) = in_adj g" "kind_index (unindex_title i t g) = kind_index g" "kind_ids (unindex_title i t g) = kind_ids g"
  "embeddings (unindex_title i t g) = embeddings g" "constraints (unindex_title i t g) = constraints g" "unique (unindex_title i t g) = unique g"
  "ids (unindex_title i t g) = ids g" "last_updated_at (unindex_title i t g) = last_updated_at g" "prepared (unindex_title i t g) = prepared g"
  "heuristic (unindex_title i t g) = heuristic g" "commit_seq (unindex_title i t g) = commit_seq g"
  by (simp_all add: unindex_title_def Let_def split: option.split)

lemma index_node_kind_frame [simp]:
  "nodes (index_node_kind i k g) = nodes g" "edges (index_node_kind i k g) = edges g" "out_adj (index_node_kind i k g) = out_adj g"
  "in_adj (index_node_kind i k g) = in_adj g" "titles (index_node_kind i k g) = titles g" "kind_ids (index_node_kind i k g) = kind_ids g"
  "embeddings (index_node_kind i k g) = embeddings g" "constraints (index_node_kind i k g) = constraints g" "unique (index_node_kind i k g) = unique g"
  "ids (index_node_kind i k g) = ids g" "last_updated_at (index_node_kind i k g) = last_updated_at g" "prepared (index_node_kind i k g) = prepared g"
  "heuristic (index_node_kind i k g) = heuristic g" "commit_seq (index_node_kind i k g) = commit_seq g"
  by (simp_all add: index_node_kind_def Let_def split: option.split)

lemma unindex_node_kind_frame [simp]:
  "nodes (unindex_node_kind i k g) = nodes g" "edges (unindex_node_kind i k g) = edges g" "out_adj (unindex_node_kind i k g) = out_adj g"
  "in_adj (unindex_node_kind i k g) = in_adj g" "titles (unindex_node_kind i k g) = titles g" "kind_ids (unindex_node_kind i k g) = kind_ids g"
  "embeddings (unindex_node_kind i k g) = embeddings g" "constraints (unindex_node_kind i k g) = constraints g" "unique (unindex_node_kind i k g) = unique g"
  "ids (unindex_node_kind i k g) = ids g" "last_updated_at (unindex_node_kind i k g) = last_updated_at g" "prepared (unindex_node_kind i k g) = prepared g"
  "heuristic (unindex_node_kind i k g) = heuristic g" "commit_seq (unindex_node_kind i k g) = commit_seq g"
  by (simp_all add: unindex_node_kind_def Let_def split: option.split)

lemma index_unique_frame [simp]:
  "nodes (index_unique J n g) = nodes g" "edges (index_unique J n g) = edges g" "out_adj (index_unique J n g) = out_adj g"
  "in_adj (index_unique J n g) = in_adj g" "titles (index_unique J n g) = titles g" "kind_index (index_unique J n g) = kind_index g"
  "kind_ids (index_unique J n g) = kind_ids g" "embeddings (index_unique J n g) = embeddings g" "constraints (index_unique J n g) = constraints g"
  "ids (index_unique J n g) = ids g" "last_updated_at (index_unique J n g) = last_updated_at g" "prepared (index_unique J n g) = prepared g"
  "heuristic (index_unique J n g) = heuristic g" "commit_seq (index_unique J n g) = commit_seq g"
  by (simp_all add: index_unique_def Let_def split: option.split)

lemma unindex_unique_frame [simp]:
  "nodes (unindex_unique J n g) = nodes g" "edges (unindex_unique J n g) = edges g" "out_adj (unindex_unique J n g) = out_adj g"
  "in_adj (unindex_unique J n g) = in_adj g" "titles (unindex_unique J n g) = titles g" "kind_index (unindex_unique J n g) = kind_index g"
  "kind_ids (unindex_unique J n g) = kind_ids g" "embeddings (unindex_unique J n g) = embeddings g" "constraints (unindex_unique J n g) = constraints g"
  "ids (unindex_unique J n g) = ids g" "last_updated_at (unindex_unique J n g) = last_updated_at g" "prepared (unindex_unique J n g) = prepared g"
  "heuristic (unindex_unique J n g) = heuristic g" "commit_seq (unindex_unique J n g) = commit_seq g"
  by (simp_all add: unindex_unique_def Let_def split: option.split)

lemma observe_node_frame [simp]:
  "nodes (observe_node i g) = nodes g" "edges (observe_node i g) = edges g" "out_adj (observe_node i g) = out_adj g"
  "in_adj (observe_node i g) = in_adj g" "titles (observe_node i g) = titles g" "kind_index (observe_node i g) = kind_index g"
  "kind_ids (observe_node i g) = kind_ids g" "embeddings (observe_node i g) = embeddings g" "constraints (observe_node i g) = constraints g"
  "unique (observe_node i g) = unique g" "last_updated_at (observe_node i g) = last_updated_at g" "prepared (observe_node i g) = prepared g"
  "heuristic (observe_node i g) = heuristic g" "commit_seq (observe_node i g) = commit_seq g"
  by (simp_all add: observe_node_def Let_def split: option.split)

lemma observe_edge_frame [simp]:
  "nodes (observe_edge i g) = nodes g" "edges (observe_edge i g) = edges g" "out_adj (observe_edge i g) = out_adj g"
  "in_adj (observe_edge i g) = in_adj g" "titles (observe_edge i g) = titles g" "kind_index (observe_edge i g) = kind_index g"
  "kind_ids (observe_edge i g) = kind_ids g" "embeddings (observe_edge i g) = embeddings g" "constraints (observe_edge i g) = constraints g"
  "unique (observe_edge i g) = unique g" "last_updated_at (observe_edge i g) = last_updated_at g" "prepared (observe_edge i g) = prepared g"
  "heuristic (observe_edge i g) = heuristic g" "commit_seq (observe_edge i g) = commit_seq g"
  by (simp_all add: observe_edge_def Let_def split: option.split)

lemma observe_updated_at_frame [simp]:
  "nodes (observe_updated_at ts g) = nodes g" "edges (observe_updated_at ts g) = edges g" "out_adj (observe_updated_at ts g) = out_adj g"
  "in_adj (observe_updated_at ts g) = in_adj g" "titles (observe_updated_at ts g) = titles g" "kind_index (observe_updated_at ts g) = kind_index g"
  "kind_ids (observe_updated_at ts g) = kind_ids g" "embeddings (observe_updated_at ts g) = embeddings g" "constraints (observe_updated_at ts g) = constraints g"
  "unique (observe_updated_at ts g) = unique g" "ids (observe_updated_at ts g) = ids g" "prepared (observe_updated_at ts g) = prepared g"
  "heuristic (observe_updated_at ts g) = heuristic g" "commit_seq (observe_updated_at ts g) = commit_seq g"
  by (simp_all add: observe_updated_at_def Let_def split: option.split)

lemma next_node_frame [simp]:
  "nodes (snd (next_node g)) = nodes g" "edges (snd (next_node g)) = edges g" "out_adj (snd (next_node g)) = out_adj g"
  "in_adj (snd (next_node g)) = in_adj g" "titles (snd (next_node g)) = titles g" "kind_index (snd (next_node g)) = kind_index g"
  "kind_ids (snd (next_node g)) = kind_ids g" "embeddings (snd (next_node g)) = embeddings g" "constraints (snd (next_node g)) = constraints g"
  "unique (snd (next_node g)) = unique g" "last_updated_at (snd (next_node g)) = last_updated_at g" "prepared (snd (next_node g)) = prepared g"
  "heuristic (snd (next_node g)) = heuristic g" "commit_seq (snd (next_node g)) = commit_seq g"
  by (simp_all add: next_node_def Let_def split: option.split)

lemma next_edge_frame [simp]:
  "nodes (snd (next_edge g)) = nodes g" "edges (snd (next_edge g)) = edges g" "out_adj (snd (next_edge g)) = out_adj g"
  "in_adj (snd (next_edge g)) = in_adj g" "titles (snd (next_edge g)) = titles g" "kind_index (snd (next_edge g)) = kind_index g"
  "kind_ids (snd (next_edge g)) = kind_ids g" "embeddings (snd (next_edge g)) = embeddings g" "constraints (snd (next_edge g)) = constraints g"
  "unique (snd (next_edge g)) = unique g" "last_updated_at (snd (next_edge g)) = last_updated_at g" "prepared (snd (next_edge g)) = prepared g"
  "heuristic (snd (next_edge g)) = heuristic g" "commit_seq (snd (next_edge g)) = commit_seq g"
  by (simp_all add: next_edge_def Let_def split: option.split)

lemma next_updated_at_frame [simp]:
  "nodes (snd (next_updated_at env g)) = nodes g" "edges (snd (next_updated_at env g)) = edges g" "out_adj (snd (next_updated_at env g)) = out_adj g"
  "in_adj (snd (next_updated_at env g)) = in_adj g" "titles (snd (next_updated_at env g)) = titles g" "kind_index (snd (next_updated_at env g)) = kind_index g"
  "kind_ids (snd (next_updated_at env g)) = kind_ids g" "embeddings (snd (next_updated_at env g)) = embeddings g" "constraints (snd (next_updated_at env g)) = constraints g"
  "unique (snd (next_updated_at env g)) = unique g" "ids (snd (next_updated_at env g)) = ids g" "prepared (snd (next_updated_at env g)) = prepared g"
  "heuristic (snd (next_updated_at env g)) = heuristic g" "commit_seq (snd (next_updated_at env g)) = commit_seq g"
  by (simp_all add: next_updated_at_def Let_def split: option.split)

lemma intern_kind_frame [simp]:
  "nodes (snd (intern_kind k g)) = nodes g" "edges (snd (intern_kind k g)) = edges g" "out_adj (snd (intern_kind k g)) = out_adj g"
  "in_adj (snd (intern_kind k g)) = in_adj g" "titles (snd (intern_kind k g)) = titles g" "kind_index (snd (intern_kind k g)) = kind_index g"
  "embeddings (snd (intern_kind k g)) = embeddings g" "constraints (snd (intern_kind k g)) = constraints g" "unique (snd (intern_kind k g)) = unique g"
  "ids (snd (intern_kind k g)) = ids g" "last_updated_at (snd (intern_kind k g)) = last_updated_at g" "prepared (snd (intern_kind k g)) = prepared g"
  "heuristic (snd (intern_kind k g)) = heuristic g" "commit_seq (snd (intern_kind k g)) = commit_seq g"
  by (simp_all add: intern_kind_def Let_def split: option.split)

lemma remove_edge_frame [simp]:
  "nodes (remove_edge g i) = nodes g" "titles (remove_edge g i) = titles g" "kind_index (remove_edge g i) = kind_index g"
  "kind_ids (remove_edge g i) = kind_ids g" "embeddings (remove_edge g i) = embeddings g" "constraints (remove_edge g i) = constraints g"
  "unique (remove_edge g i) = unique g" "ids (remove_edge g i) = ids g" "last_updated_at (remove_edge g i) = last_updated_at g"
  "prepared (remove_edge g i) = prepared g" "heuristic (remove_edge g i) = heuristic g" "commit_seq (remove_edge g i) = commit_seq g"
  by (simp_all add: remove_edge_def Let_def split: option.split)

lemma link_edge_frame [simp]:
  "nodes (link_edge e g) = nodes g" "edges (link_edge e g) = edges g" "titles (link_edge e g) = titles g"
  "kind_index (link_edge e g) = kind_index g" "embeddings (link_edge e g) = embeddings g"
  "constraints (link_edge e g) = constraints g" "unique (link_edge e g) = unique g" "ids (link_edge e g) = ids g"
  "last_updated_at (link_edge e g) = last_updated_at g" "heuristic (link_edge e g) = heuristic g"
  "kind_ids (link_edge e g) = kind_ids (snd (intern_kind (e_kind e) g))"
  by (simp_all add: link_edge_def case_prod_beta)

section \<open>The invariant\<close>

definition out_entry :: "(string, u32) fmap \<Rightarrow> 'j edge \<Rightarrow> adj_entry" where
  "out_entry K e = \<lparr>a_edge_id = e_id e, a_neighbor_id = e_to e, a_kind_id = the (fmlookup K (e_kind e))\<rparr>"

definition in_entry :: "(string, u32) fmap \<Rightarrow> 'j edge \<Rightarrow> adj_entry" where
  "in_entry K e = \<lparr>a_edge_id = e_id e, a_neighbor_id = e_from e, a_kind_id = the (fmlookup K (e_kind e))\<rparr>"

text \<open>Interned kinds are numbered without repetition, below their count.\<close>

definition interned :: "(string, u32) fmap \<Rightarrow> bool" where
  "interned K \<longleftrightarrow> (\<forall>a b i. fmlookup K a = Some i \<and> fmlookup K b = Some i \<longrightarrow> a = b) \<and>
     (\<forall>a i. fmlookup K a = Some i \<longrightarrow> unat i < fcard (fmdom K))"

definition nodes_inv :: "'j json_lib \<Rightarrow> 'j inner \<Rightarrow> bool" where
  "nodes_inv J g \<longleftrightarrow> (\<forall>i n. fmlookup (nodes g) i = Some n \<longrightarrow> n_id n = i \<and> i \<le> last_node (ids g) \<and>
        n_updated_at n \<le> last_updated_at g) \<and>
     titles_ok (titles g) (fmlookup (nodes g)) \<and> kinds_ok (kind_index g) (fmlookup (nodes g)) \<and>
     unique_ok J (unique g) (fmlookup (nodes g))"

definition edges_inv :: "'j inner \<Rightarrow> bool" where
  "edges_inv g \<longleftrightarrow> keyed (fmlookup (edges g)) \<and> interned (kind_ids g) \<and>
     (\<forall>i e. fmlookup (edges g) i = Some e \<longrightarrow> i \<le> last_edge (ids g) \<and> e_kind e |\<in>| fmdom (kind_ids g)) \<and>
     adj_ok (out_adj g) (fmlookup (edges g)) e_from (out_entry (kind_ids g)) \<and>
     adj_ok (in_adj g) (fmlookup (edges g)) e_to (in_entry (kind_ids g))"

definition graph_inv :: "'j json_lib \<Rightarrow> 'j inner \<Rightarrow> bool" where
  "graph_inv J g \<longleftrightarrow> nodes_inv J g \<and> edges_inv g"

text \<open>Referential integrity, which live writes keep; a replayed log is only as good as what it says.\<close>

definition endpoints_ok :: "'j inner \<Rightarrow> bool" where
  "endpoints_ok g \<longleftrightarrow>
     (\<forall>i e. fmlookup (edges g) i = Some e \<longrightarrow> e_from e |\<in>| fmdom (nodes g) \<and> e_to e |\<in>| fmdom (nodes g))"

lemma entry_ids [simp]: "a_edge_id (out_entry K e) = e_id e" "a_edge_id (in_entry K e) = e_id e"
  by (simp_all add: out_entry_def in_entry_def)

text \<open>The two halves of the invariant look at different fields.\<close>

lemma nodes_inv_cong:
  assumes "nodes g' = nodes g" "titles g' = titles g" "kind_index g' = kind_index g" "unique g' = unique g"
    "last_node (ids g') = last_node (ids g)" "last_updated_at g' = last_updated_at g"
  shows "nodes_inv J g' = nodes_inv J g"
  using assms by (simp add: nodes_inv_def)

lemma edges_inv_cong:
  assumes "edges g' = edges g" "out_adj g' = out_adj g" "in_adj g' = in_adj g" "kind_ids g' = kind_ids g"
    "last_edge (ids g') = last_edge (ids g)"
  shows "edges_inv g' = edges_inv g"
  using assms by (simp add: edges_inv_def)

lemma graph_inv_default: "graph_inv J inner_default"
  by (auto simp: graph_inv_def nodes_inv_def edges_inv_def inner_default_def titles_ok_def kinds_ok_def unique_ok_def
      postings_def keyed_def interned_def adj_ok_def)

lemma fmlookup_fun: "fmlookup (fmupd i v m) = (fmlookup m)(i \<mapsto> v)" "fmlookup (fmdrop i m) = (fmlookup m)(i := None)"
  by (auto simp: fun_eq_iff)

section \<open>Node writes\<close>

definition node_tables :: "'j json_lib \<Rightarrow> 'j inner \<Rightarrow> (u64 \<Rightarrow> 'j node option) \<Rightarrow> bool" where
  "node_tables J g N \<longleftrightarrow> titles_ok (titles g) N \<and> kinds_ok (kind_index g) N \<and> unique_ok J (unique g) N"

lemma node_tables_frame [simp]:
  "node_tables J (g\<lparr>nodes := x\<rparr>) N = node_tables J g N" "node_tables J (observe_node i g) N = node_tables J g N"
  "node_tables J (observe_updated_at ts g) N = node_tables J g N"
  "node_tables J (snd (next_node g)) N = node_tables J g N"
  "node_tables J (snd (next_updated_at env g)) N = node_tables J g N"
  by (simp_all add: node_tables_def)

lemma tables_index:
  assumes "node_tables J g N" and "N i = None" and "n_id n = i"
  shows "node_tables J (index_unique J n (index_node_kind i (n_kind n) (index_title i (n_title n) g))) (N(i \<mapsto> n))"
    and "node_tables J (index_node_kind i (n_kind n) (index_unique J n (index_title i (n_title n) g))) (N(i \<mapsto> n))"
proof -
  note t = titles_ok_index [of g N i n] and k = kinds_ok_index [of _ N i n] and u = unique_ok_index [of J _ N i n]
  show "node_tables J (index_unique J n (index_node_kind i (n_kind n) (index_title i (n_title n) g))) (N(i \<mapsto> n))"
    using assms t k [of "index_title i (n_title n) g"] u [of "index_node_kind i (n_kind n) (index_title i (n_title n) g)"]
    by (simp add: node_tables_def)
  show "node_tables J (index_node_kind i (n_kind n) (index_unique J n (index_title i (n_title n) g))) (N(i \<mapsto> n))"
    using assms t k [of "index_unique J n (index_title i (n_title n) g)"] u [of "index_title i (n_title n) g"]
    by (simp add: node_tables_def)
qed

lemma tables_unindex:
  assumes "node_tables J g N" and "N i = Some n" and "n_id n = i"
  shows "node_tables J (unindex_unique J n (unindex_node_kind i (n_kind n) (unindex_title i (n_title n) g))) (N(i := None))"
  using assms titles_ok_unindex [of g N i n] kinds_ok_unindex [of "unindex_title i (n_title n) g" N i n]
    unique_ok_unindex [of J "unindex_node_kind i (n_kind n) (unindex_title i (n_title n) g)" N i n]
  by (simp add: node_tables_def)

text \<open>The update path of \<open>update_node\<close>: the title and kind indexes only move when the value changes.\<close>

definition reindex :: "'j json_lib \<Rightarrow> u64 \<Rightarrow> 'j node \<Rightarrow> 'j node \<Rightarrow> 'j inner \<Rightarrow> 'j inner" where
  "reindex J i old n g =
     (let g = (if n_title old \<noteq> n_title n
               then index_title i (n_title n) (unindex_title i (n_title old) g) else g);
          g = (if n_kind old \<noteq> n_kind n
               then index_node_kind i (n_kind n) (unindex_node_kind i (n_kind old) g) else g)
      in index_unique J n (unindex_unique J old g))"

lemma reindex_frame [simp]:
  "nodes (reindex J i old n g) = nodes g" "edges (reindex J i old n g) = edges g"
  "out_adj (reindex J i old n g) = out_adj g" "in_adj (reindex J i old n g) = in_adj g"
  "kind_ids (reindex J i old n g) = kind_ids g" "embeddings (reindex J i old n g) = embeddings g"
  "constraints (reindex J i old n g) = constraints g" "ids (reindex J i old n g) = ids g"
  "last_updated_at (reindex J i old n g) = last_updated_at g" "prepared (reindex J i old n g) = prepared g"
  "heuristic (reindex J i old n g) = heuristic g"
  by (simp_all add: reindex_def Let_def)

lemma tables_reindex:
  assumes "node_tables J g N" and "N i = Some old" and "n_id old = i" and "n_id n = i"
  shows "node_tables J (reindex J i old n g) (N(i \<mapsto> n))"
proof -
  have upd: "N(i := None, i \<mapsto> n) = N(i \<mapsto> n)" and none: "(N(i := None)) i = None"
    by simp_all
  let ?g1 = "if n_title old \<noteq> n_title n then index_title i (n_title n) (unindex_title i (n_title old) g) else g"
  let ?g2 = "if n_kind old \<noteq> n_kind n then index_node_kind i (n_kind n) (unindex_node_kind i (n_kind old) ?g1) else ?g1"
  have t: "titles_ok (titles ?g1) (N(i \<mapsto> n))"
  proof (cases "n_title old = n_title n")
    case True
    then show ?thesis
      using assms(1) index_ok_touch(1) [of N i old n "titles g"] assms(2) by (simp add: node_tables_def)
  next
    case False
    have "titles_ok (titles (unindex_title i (n_title old) g)) (N(i := None))"
      using assms(1,2) titles_ok_unindex [of g N i old] by (simp add: node_tables_def)
    from titles_ok_index [of _ "N(i := None)", OF this none] show ?thesis
      using False by (simp add: upd)
  qed
  have k1: "kinds_ok (kind_index ?g1) N"
    using assms(1) by (simp add: node_tables_def)
  have k: "kinds_ok (kind_index ?g2) (N(i \<mapsto> n))"
  proof (cases "n_kind old = n_kind n")
    case True
    then show ?thesis
      using k1 index_ok_touch(2) [of N i old n "kind_index ?g1"] assms(2) by simp
  next
    case False
    have "kinds_ok (kind_index (unindex_node_kind i (n_kind old) ?g1)) (N(i := None))"
      using k1 assms(2) kinds_ok_unindex [of ?g1 N i old] by blast
    from kinds_ok_index [of _ "N(i := None)", OF this none] show ?thesis
      using False by (simp add: upd)
  qed
  have "unique_ok J (unique (unindex_unique J old ?g2)) (N(i := None))"
    using assms by (intro unique_ok_unindex) (auto simp: node_tables_def)
  from unique_ok_index [of J _ "N(i := None)", OF this none assms(4)] t k show ?thesis
    by (simp add: node_tables_def reindex_def Let_def upd)
qed

lemma update_node_reindex:
  "update_node_checked J env g i patch require =
     (case fmlookup (nodes g) i of
        None \<Rightarrow> (Inl (NodeNotFound i), g)
      | Some old \<Rightarrow>
          (let n = patch_node patch old in
           case check_unique J g n of
             Inl v \<Rightarrow> (Inl (ConstraintViolation v), g)
           | Inr _ \<Rightarrow>
               (case (if require then check_exists J g n else Inr ()) of
                  Inl v \<Rightarrow> (Inl (ConstraintViolation v), g)
                | Inr _ \<Rightarrow>
                    (let (ts, g) = next_updated_at env (reindex J i old n g); n = n\<lparr>n_updated_at := ts\<rparr>
                     in (Inr n, g\<lparr>nodes := fmupd i n (nodes g)\<rparr>)))))"
  by (simp add: update_node_checked_def reindex_def Let_def split: option.split sum.split)

text \<open>
  The counters are finite: \<open>room k g\<close> leaves space for \<open>k\<close> more operations on every one of them (node and
  relationship ids, interned kinds, timestamps).
\<close>

definition room :: "nat \<Rightarrow> 'j inner \<Rightarrow> bool" where
  "room k g \<longleftrightarrow> uint (last_node (ids g)) + int k < 2 ^ 64 \<and> uint (last_edge (ids g)) + int k < 2 ^ 64 \<and>
     int (fcard (fmdom (kind_ids g))) + int k < 2 ^ 32 \<and> i64_min \<le> last_updated_at g \<and>
     last_updated_at g + int k \<le> i64_max"

lemma uint_succ:
  fixes w :: u64
  assumes "uint w + int (Suc k) < 2 ^ 64"
  shows "uint (w + 1) = uint w + 1" and "w \<noteq> u64_max"
proof -
  show "uint (w + 1) = uint w + 1"
    using assms by (simp add: uint_plus_if')
  show "w \<noteq> u64_max"
    using assms by (auto simp: uint_word_ariths)
qed

lemma room_mono: "room (Suc k) g \<Longrightarrow> room k g"
  by (simp add: room_def)

lemma room_succ:
  assumes "room (Suc k) g"
  shows "last_node (ids g) \<noteq> u64_max" "last_edge (ids g) \<noteq> u64_max"
    "uint (last_node (ids g) + 1) = uint (last_node (ids g)) + 1" "uint (last_edge (ids g) + 1) = uint (last_edge (ids g)) + 1"
    "i64_wrap (last_updated_at g + 1) = last_updated_at g + 1"
    "fcard (fmdom (kind_ids g)) < 2 ^ 32"
proof -
  show "last_node (ids g) \<noteq> u64_max" "uint (last_node (ids g) + 1) = uint (last_node (ids g)) + 1"
    using assms uint_succ [of "last_node (ids g)" k] by (simp_all add: room_def)
  show "last_edge (ids g) \<noteq> u64_max" "uint (last_edge (ids g) + 1) = uint (last_edge (ids g)) + 1"
    using assms uint_succ [of "last_edge (ids g)" k] by (simp_all add: room_def)
  show "i64_wrap (last_updated_at g + 1) = last_updated_at g + 1"
    using assms by (intro i64_wrap_id) (simp add: room_def in_i64_def)
  show "fcard (fmdom (kind_ids g)) < 2 ^ 32"
    using assms by (simp add: room_def)
qed

lemma nodes_invD:
  assumes "nodes_inv J g"
  shows "fmlookup (nodes g) i = Some n \<Longrightarrow> n_id n = i \<and> i \<le> last_node (ids g) \<and> n_updated_at n \<le> last_updated_at g"
    and "node_tables J g (fmlookup (nodes g))"
  using assms by (auto simp: nodes_inv_def node_tables_def)

lemma nodes_invI:
  assumes "\<And>i n. fmlookup (nodes g) i = Some n \<Longrightarrow> n_id n = i \<and> i \<le> last_node (ids g) \<and> n_updated_at n \<le> last_updated_at g"
    and "node_tables J g (fmlookup (nodes g))"
  shows "nodes_inv J g"
  using assms by (auto simp: nodes_inv_def node_tables_def)

lemma next_node_eq [simp]:
  "fst (next_node g) = last_node (ids g) + 1" "ids (snd (next_node g)) = (ids g)\<lparr>last_node := last_node (ids g) + 1\<rparr>"
  "fst (next_edge g) = last_edge (ids g) + 1" "ids (snd (next_edge g)) = (ids g)\<lparr>last_edge := last_edge (ids g) + 1\<rparr>"
  "fst (next_updated_at env g) = max (now_ms env) (i64_wrap (last_updated_at g + 1))"
  "last_updated_at (snd (next_updated_at env g)) = max (now_ms env) (i64_wrap (last_updated_at g + 1))"
  by (simp_all add: next_node_def next_edge_def next_updated_at_def Let_def)

lemma observe_eq [simp]:
  "ids (observe_node i g) = (ids g)\<lparr>last_node := max (last_node (ids g)) i\<rparr>"
  "ids (observe_edge i g) = (ids g)\<lparr>last_edge := max (last_edge (ids g)) i\<rparr>"
  "last_updated_at (observe_updated_at ts g) = max (last_updated_at g) ts"
  by (simp_all add: observe_node_def observe_edge_def observe_updated_at_def)

text \<open>The state a successful \<open>create_node\<close> leaves, and what every outcome of it leaves.\<close>

definition with_node :: "'j json_lib \<Rightarrow> 'j node \<Rightarrow> 'j inner \<Rightarrow> 'j inner" where
  "with_node J n g =
     (let g' = index_unique J n (index_node_kind (n_id n) (n_kind n)
                (index_title (n_id n) (n_title n) (observe_updated_at (n_updated_at n) g)))
      in g'\<lparr>nodes := fmupd (n_id n) n (nodes g')\<rparr>)"

lemma create_node_cases:
  obtains (created) n where "create_node_checked J env g nn require = (Inr n, with_node J n (snd (next_node g)))"
      "n = into_node env nn (last_node (ids g) + 1)" "check_unique J (snd (next_node g)) n = Inr ()"
      "require \<Longrightarrow> check_exists J (snd (next_node g)) n = Inr ()"
  | (refused) v where "create_node_checked J env g nn require = (Inl (ConstraintViolation v), snd (next_node g))"
proof -
  let ?n = "into_node env nn (last_node (ids g) + 1)" and ?g = "snd (next_node g)"
  have n: "n_id ?n = last_node (ids g) + 1"
    by (simp add: into_node_def)
  have eq: "create_node_checked J env g nn require =
     (case check_unique J ?g ?n of
        Inl v \<Rightarrow> (Inl (ConstraintViolation v), ?g)
      | Inr _ \<Rightarrow> (case (if require then check_exists J ?g ?n else Inr ()) of
             Inl v \<Rightarrow> (Inl (ConstraintViolation v), ?g) | Inr _ \<Rightarrow> (Inr ?n, with_node J ?n ?g)))"
    by (simp add: create_node_checked_def case_prod_beta with_node_def Let_def n split: sum.split)
  show thesis
  proof (cases "check_unique J ?g ?n")
    case (Inl v)
    then show thesis by (intro refused [of v]) (simp add: eq)
  next
    case (Inr u)
    then have ok: "check_unique J ?g ?n = Inr ()" by simp
    show thesis
    proof (cases "if require then check_exists J ?g ?n else Inr ()")
      case (Inl v)
      then show thesis by (intro refused [of v]) (simp add: eq ok)
    next
      case (Inr u)
      then show thesis by (intro created [of ?n]) (auto simp: eq ok split: if_splits)
    qed
  qed
qed

lemma with_node_inv:
  assumes "nodes_inv J g" and "fmlookup (nodes g) (n_id n) = None" and "n_id n \<le> last_node (ids g)"
  shows "nodes_inv J (with_node J n g)"
proof (rule nodes_invI)
  show "node_tables J (with_node J n g) (fmlookup (nodes (with_node J n g)))"
    using tables_index(1) [of J "observe_updated_at (n_updated_at n) g" "fmlookup (nodes g)" "n_id n" n] assms
      nodes_invD(2) [OF assms(1)]
    by (simp add: with_node_def Let_def fmlookup_fun)
  show "n_id n' = i \<and> i \<le> last_node (ids (with_node J n g)) \<and> n_updated_at n' \<le> last_updated_at (with_node J n g)"
    if "fmlookup (nodes (with_node J n g)) i = Some n'" for i n'
    using that nodes_invD(1) [OF assms(1), of i n'] assms(3)
    by (auto simp: with_node_def Let_def split: if_splits)
qed

lemma next_node_inv:
  assumes "nodes_inv J g" and "last_node (ids g) \<noteq> u64_max"
  shows "nodes_inv J (snd (next_node g))" and "fmlookup (nodes g) (last_node (ids g) + 1) = None"
proof -
  have lt: "last_node (ids g) < last_node (ids g) + 1"
    using assms(2) by simp
  show "nodes_inv J (snd (next_node g))"
    using nodes_invD [OF assms(1)] lt by (intro nodes_invI) (auto dest: order_le_less_trans less_imp_le)
  show "fmlookup (nodes g) (last_node (ids g) + 1) = None"
    using nodes_invD(1) [OF assms(1), of "last_node (ids g) + 1"] lt by (cases "fmlookup (nodes g) (last_node (ids g) + 1)") auto
qed

lemma create_node_inv:
  assumes "graph_inv J g" and "room (Suc k) g"
  shows "graph_inv J (snd (create_node_checked J env g nn require))"
proof -
  note next1 = next_node_inv [of J g] and succ = room_succ [OF assms(2)]
  have e: "edges_inv (snd (next_node g))" "edges_inv (with_node J n (snd (next_node g)))" for n
    using assms(1) unfolding graph_inv_def by (simp_all add: edges_inv_def with_node_def Let_def)
  show ?thesis
  proof (cases rule: create_node_cases [of J env g nn require])
    case (created n)
    have "nodes_inv J (with_node J n (snd (next_node g)))"
      using next1 assms(1) succ(1) created(2) by (intro with_node_inv) (auto simp: graph_inv_def into_node_def)
    with created(1) e show ?thesis by (simp add: graph_inv_def)
  next
    case (refused v)
    with next1 assms(1) succ(1) e show ?thesis by (simp add: graph_inv_def)
  qed
qed

lemma patch_node_id [simp]: "n_id (patch_node patch n) = n_id n" "n_created_at (patch_node patch n) = n_created_at n"
    "n_uuid (patch_node patch n) = n_uuid n"
  by (simp_all add: patch_node_def Let_def split: option.split)

lemma update_node_cases:
  obtains (missing) "fmlookup (nodes g) i = None" "update_node_checked J env g i patch require = (Inl (NodeNotFound i), g)"
  | (refused) v where "update_node_checked J env g i patch require = (Inl (ConstraintViolation v), g)"
  | (updated) old n where "fmlookup (nodes g) i = Some old"
      "n = (patch_node patch old)\<lparr>n_updated_at := max (now_ms env) (i64_wrap (last_updated_at g + 1))\<rparr>"
      "check_unique J g (patch_node patch old) = Inr ()"
      "require \<Longrightarrow> check_exists J g (patch_node patch old) = Inr ()"
      "update_node_checked J env g i patch require =
         (Inr n, snd (next_updated_at env (reindex J i old (patch_node patch old) g))\<lparr>nodes := fmupd i n (nodes g)\<rparr>)"
proof (cases "fmlookup (nodes g) i")
  case None
  then show thesis by (intro missing) (simp_all add: update_node_reindex)
next
  case (Some old)
  let ?n = "patch_node patch old"
  show thesis
  proof (cases "check_unique J g ?n")
    case (Inl v)
    then show thesis by (intro refused [of v]) (simp add: update_node_reindex Some Let_def)
  next
    case (Inr u)
    then have ok: "check_unique J g ?n = Inr ()" by simp
    show thesis
    proof (cases "if require then check_exists J g ?n else Inr ()")
      case (Inl v)
      then show thesis by (intro refused [of v]) (simp add: update_node_reindex Some Let_def ok)
    next
      case (Inr u)
      then show thesis
        by (intro updated [OF Some refl ok]) (auto simp: update_node_reindex Some Let_def ok case_prod_beta split: if_splits)
    qed
  qed
qed

lemma tables_touch:
  assumes "node_tables J g (N(i \<mapsto> n))"
  shows "node_tables J g (N(i \<mapsto> n\<lparr>n_updated_at := ts\<rparr>))"
proof -
  let ?N = "N(i \<mapsto> n)" and ?n = "n\<lparr>n_updated_at := ts\<rparr>"
  have upd: "?N(i \<mapsto> ?n) = N(i \<mapsto> ?n)"
    by simp
  have at: "?N i = Some n"
    by simp
  note touch = index_ok_touch [where N = ?N and i = i and old = n and n = ?n, OF at, unfolded upd]
  show ?thesis
    using assms touch(1) [of "titles g"] touch(2) [of "kind_index g"] touch(3) [of J "unique g"]
    by (simp add: node_tables_def)
qed

lemma update_node_inv:
  assumes "graph_inv J g" and "room (Suc k) g"
  shows "graph_inv J (snd (update_node_checked J env g i patch require))"
proof (cases rule: update_node_cases [of g i J env patch require])
  case (updated old n)
  let ?p = "patch_node patch old"
  let ?g = "snd (next_updated_at env (reindex J i old ?p g))"
  have inv: "nodes_inv J g" and old: "n_id old = i"
    using assms(1) updated(1) nodes_invD(1) [of J g i old] by (auto simp: graph_inv_def)
  have "node_tables J ?g ((fmlookup (nodes g))(i \<mapsto> ?p))"
    using tables_reindex [OF nodes_invD(2) [OF inv] updated(1) old, of ?p] old by simp
  then have "node_tables J (?g\<lparr>nodes := fmupd i n (nodes g)\<rparr>) (fmlookup (fmupd i n (nodes g)))"
    using tables_touch [of J ?g "fmlookup (nodes g)" i ?p] by (simp only: updated(2) fmlookup_fun node_tables_frame)
  moreover have "n_id m = j \<and> j \<le> last_node (ids g) \<and> n_updated_at m \<le> max (now_ms env) (i64_wrap (last_updated_at g + 1))"
    if "fmlookup (fmupd i n (nodes g)) j = Some m" for j m
  proof (cases "j = i")
    case True
    with that updated(2) old nodes_invD(1) [OF inv updated(1)] show ?thesis by auto
  next
    case False
    with that nodes_invD(1) [OF inv, of j m] room_succ(5) [OF assms(2)] show ?thesis by (simp add: le_max_iff_disj)
  qed
  ultimately have "nodes_inv J (?g\<lparr>nodes := fmupd i n (nodes g)\<rparr>)"
    by (intro nodes_invI) simp_all
  moreover have "edges_inv (?g\<lparr>nodes := fmupd i n (nodes g)\<rparr>)"
    using assms(1) by (simp add: graph_inv_def edges_inv_def)
  ultimately show ?thesis
    by (simp add: updated(5) graph_inv_def)
qed (use assms(1) in auto)

end
