(* ===== verification/Native_Ops.thy ===== *)
theory Native_Ops
  imports Native_Graph
begin

text \<open>
  Relationship writes, the cascading delete and log replay keep the invariant of the graph state; with the
  node writes of theory \<open>Native_Graph\<close> this covers every operation of \<open>impl Inner\<close>.
\<close>

section \<open>Interned kinds\<close>

lemma intern_kind_lookup:
  "fmlookup (kind_ids (snd (intern_kind k g))) k = Some (fst (intern_kind k g))"
  "l |\<in>| fmdom (kind_ids g) \<Longrightarrow> fmlookup (kind_ids (snd (intern_kind k g))) l = fmlookup (kind_ids g) l"
  by (auto simp: intern_kind_def Let_def fmdom_notD split: option.split)

lemma intern_kind_dom: "fmdom (kind_ids (snd (intern_kind k g))) = finsert k (fmdom (kind_ids g))"
  by (auto simp: intern_kind_def Let_def fmdomI finsert_absorb split: option.split)

lemma intern_kind_interned:
  assumes "interned (kind_ids g)" and "fcard (fmdom (kind_ids g)) < 2 ^ 32"
  shows "interned (kind_ids (snd (intern_kind k g)))"
proof (cases "fmlookup (kind_ids g) k")
  case None
  let ?K = "kind_ids g" and ?i = "of_nat (fcard (fmdom (kind_ids g))) :: u32"
  have i: "unat ?i = fcard (fmdom ?K)"
    using assms(2) by (intro unat_of_nat_small) simp
  have low: "unat j < fcard (fmdom ?K)" if "fmlookup ?K a = Some j" for a j
    using assms(1) that by (simp add: interned_def)
  have fresh: "fmlookup ?K a \<noteq> Some ?i" for a
    using low [of a ?i] i by auto
  have inj: "a = b" if "fmlookup ?K a = Some j" "fmlookup ?K b = Some j" for a b j
    using assms(1) that by (auto simp: interned_def)
  have dom: "fcard (finsert k (fmdom ?K)) = Suc (fcard (fmdom ?K))"
    using None by (intro fcard_finsert_disjoint) (simp add: fmdom_notI)
  have "interned (fmupd k ?i ?K)"
    unfolding interned_def fmdom_fmupd dom
    using i low inj fresh by (auto simp: less_Suc_eq split: if_splits)
  then show ?thesis
    by (simp add: intern_kind_def None Let_def)
qed (use assms(1) in \<open>simp add: intern_kind_def\<close>)

lemma edges_invD:
  assumes "edges_inv g"
  shows "keyed (fmlookup (edges g))" "interned (kind_ids g)"
    "fmlookup (edges g) i = Some e \<Longrightarrow> e_id e = i \<and> i \<le> last_edge (ids g) \<and> e_kind e |\<in>| fmdom (kind_ids g)"
    "adj_ok (out_adj g) (fmlookup (edges g)) e_from (out_entry (kind_ids g))"
    "adj_ok (in_adj g) (fmlookup (edges g)) e_to (in_entry (kind_ids g))"
  using assms by (auto simp: edges_inv_def keyed_def)

lemma edges_invI:
  assumes "interned (kind_ids g)"
    "\<And>i e. fmlookup (edges g) i = Some e \<Longrightarrow> e_id e = i \<and> i \<le> last_edge (ids g) \<and> e_kind e |\<in>| fmdom (kind_ids g)"
    "adj_ok (out_adj g) (fmlookup (edges g)) e_from (out_entry (kind_ids g))"
    "adj_ok (in_adj g) (fmlookup (edges g)) e_to (in_entry (kind_ids g))"
  shows "edges_inv g"
  using assms by (auto simp: edges_inv_def keyed_def)

text \<open>Interning one more kind changes no entry of a relationship that is stored.\<close>

lemma intern_kind_adj:
  assumes "edges_inv g" and "K = kind_ids (snd (intern_kind k g))"
  shows "adj_ok (out_adj g) (fmlookup (edges g)) e_from (out_entry K)"
    and "adj_ok (in_adj g) (fmlookup (edges g)) e_to (in_entry K)"
proof -
  have same: "fmlookup K (e_kind e) = fmlookup (kind_ids g) (e_kind e)" if "fmlookup (edges g) i = Some e" for i e
    unfolding assms(2) using edges_invD(3) [OF assms(1) that] by (intro intern_kind_lookup(2)) simp
  show "adj_ok (out_adj g) (fmlookup (edges g)) e_from (out_entry K)"
    by (rule adj_ok_cong [OF edges_invD(4) [OF assms(1)]]) (simp add: out_entry_def same)
  show "adj_ok (in_adj g) (fmlookup (edges g)) e_to (in_entry K)"
    by (rule adj_ok_cong [OF edges_invD(5) [OF assms(1)]]) (simp add: in_entry_def same)
qed

section \<open>Relationship writes\<close>

lemma link_edge_adj:
  assumes "K = kind_ids (snd (intern_kind (e_kind e) g))"
  shows "out_adj (link_edge e g) =
      fmupd (e_from e) (insert_adj_sorted (out_entry K e) (adj_of (out_adj g) (e_from e))) (out_adj g)"
    and "in_adj (link_edge e g) =
      fmupd (e_to e) (insert_adj_sorted (in_entry K e) (adj_of (in_adj g) (e_to e))) (in_adj g)"
  by (simp_all add: link_edge_def case_prod_beta out_entry_def in_entry_def assms intern_kind_lookup(1))

lemma link_edge_inv:
  assumes inv: "edges_inv g" and new: "fmlookup (edges g) (e_id e) = None" and card: "fcard (fmdom (kind_ids g)) < 2 ^ 32"
    and le: "e_id e \<le> last_edge (ids g)"
  shows "edges_inv ((link_edge e g)\<lparr>edges := fmupd (e_id e) e (edges g)\<rparr>)"
proof (rule edges_invI)
  let ?K = "kind_ids (snd (intern_kind (e_kind e) g))"
  show "interned (kind_ids ((link_edge e g)\<lparr>edges := fmupd (e_id e) e (edges g)\<rparr>))"
    using intern_kind_interned [OF edges_invD(2) [OF inv] card] by simp
  show "e_id e' = i \<and> i \<le> last_edge (ids ((link_edge e g)\<lparr>edges := fmupd (e_id e) e (edges g)\<rparr>)) \<and>
      e_kind e' |\<in>| fmdom (kind_ids ((link_edge e g)\<lparr>edges := fmupd (e_id e) e (edges g)\<rparr>))"
    if "fmlookup (edges ((link_edge e g)\<lparr>edges := fmupd (e_id e) e (edges g)\<rparr>)) i = Some e'" for i e'
    using that le edges_invD(3) [OF inv, of i e'] by (auto simp: intern_kind_dom split: if_splits)
  show "adj_ok (out_adj ((link_edge e g)\<lparr>edges := fmupd (e_id e) e (edges g)\<rparr>))
      (fmlookup (edges ((link_edge e g)\<lparr>edges := fmupd (e_id e) e (edges g)\<rparr>))) e_from
      (out_entry (kind_ids ((link_edge e g)\<lparr>edges := fmupd (e_id e) e (edges g)\<rparr>)))"
    using adj_ok_add [OF intern_kind_adj(1) [OF inv refl, of "e_kind e"] new]
    by (simp add: link_edge_adj(1) [OF refl] fmlookup_fun)
  show "adj_ok (in_adj ((link_edge e g)\<lparr>edges := fmupd (e_id e) e (edges g)\<rparr>))
      (fmlookup (edges ((link_edge e g)\<lparr>edges := fmupd (e_id e) e (edges g)\<rparr>))) e_to
      (in_entry (kind_ids ((link_edge e g)\<lparr>edges := fmupd (e_id e) e (edges g)\<rparr>)))"
    using adj_ok_add [OF intern_kind_adj(2) [OF inv refl, of "e_kind e"] new]
    by (simp add: link_edge_adj(2) [OF refl] fmlookup_fun)
qed

lemma remove_edge_inv:
  assumes "edges_inv g"
  shows "edges_inv (remove_edge g i)"
proof (cases "fmlookup (edges g) i")
  case (Some e)
  note D = edges_invD [OF assms]
  show ?thesis
    using D adj_ok_remove [OF D(4) Some D(1)] adj_ok_remove [OF D(5) Some D(1)]
    by (intro edges_invI) (auto simp: remove_edge_def Some fmlookup_fun split: if_splits)
qed (use assms in \<open>simp add: remove_edge_def\<close>)

lemma remove_edge_edges [simp]: "edges (remove_edge g i) = fmdrop i (edges g)"
  by (auto simp: remove_edge_def intro!: fmap_ext split: option.split)

lemma graph_inv_edges:
  assumes "graph_inv J g" and "edges_inv g'" and "nodes_inv J g' = nodes_inv J g"
  shows "graph_inv J g'"
  using assms by (simp add: graph_inv_def)

lemma create_edge_cases:
  obtains (refused) err where "create_edge env g ne = (Inl err, g)"
  | (created) e where "e = into_edge env ne (last_edge (ids g) + 1)" "f32_is_finite (e_weight e)"
      "e_from e |\<in>| fmdom (nodes g)" "e_to e |\<in>| fmdom (nodes g)"
      "create_edge env g ne = (Inr e, (link_edge e (snd (next_edge g)))\<lparr>edges := fmupd (e_id e) e (edges g)\<rparr>)"
proof (cases "fst (create_edge env g ne)")
  case (Inl err)
  then show thesis
    by (intro refused [of err]) (auto simp: create_edge_def case_prod_beta Let_def split: if_splits)
next
  case (Inr e)
  then show thesis
    by (intro created [of e]) (auto simp: create_edge_def case_prod_beta Let_def into_edge_def split: if_splits)
qed

lemma create_edge_inv:
  assumes "graph_inv J g" and "room (Suc k) g"
  shows "graph_inv J (snd (create_edge env g ne))"
proof (cases rule: create_edge_cases [of env g ne])
  case (created e)
  note succ = room_succ [OF assms(2)]
  let ?g = "snd (next_edge g)"
  have inv: "edges_inv g"
    using assms(1) by (simp add: graph_inv_def)
  have lt: "last_edge (ids g) < last_edge (ids g) + 1"
    using succ(2) by simp
  have "edges_inv ?g"
    using edges_invD [OF inv] lt by (intro edges_invI) (auto dest: order_le_less_trans less_imp_le)
  moreover have "fmlookup (edges g) (e_id e) = None"
    using edges_invD(3) [OF inv, of "e_id e"] lt created(1)
    by (cases "fmlookup (edges g) (e_id e)") (auto simp: into_edge_def)
  ultimately have "edges_inv ((link_edge e ?g)\<lparr>edges := fmupd (e_id e) e (edges g)\<rparr>)"
    using link_edge_inv [of ?g e] succ(6) created(1) by (simp add: into_edge_def)
  then show ?thesis
    unfolding created(5) snd_conv by (rule graph_inv_edges [OF assms(1)]) (rule nodes_inv_cong, simp_all)
qed (use assms in auto)

lemma adj_ok_touch:
  assumes ok: "adj_ok A E src ent" and old: "E i = Some old" and keyed: "keyed E"
    and e: "e_id e = i" "src e = src old" "ent e = ent old"
  shows "adj_ok A (E(i \<mapsto> e)) src ent"
proof -
  have i: "e_id old = i"
    using old keyed by (simp add: keyed_def)
  have "ent ` {e'. (E(i \<mapsto> e)) (e_id e') = Some e' \<and> src e' = x} = ent ` {e'. E (e_id e') = Some e' \<and> src e' = x}" for x
  proof -
    let ?S = "{e'. E (e_id e') = Some e' \<and> src e' = x \<and> e_id e' \<noteq> i}"
    have "{e'. (E(i \<mapsto> e)) (e_id e') = Some e' \<and> src e' = x} = ?S \<union> (if src e = x then {e} else {})"
      using e(1) by auto
    moreover have "{e'. E (e_id e') = Some e' \<and> src e' = x} = ?S \<union> (if src e = x then {old} else {})"
      using old i e(2) by auto
    ultimately show ?thesis
      using e(3) by (simp add: image_Un)
  qed
  with ok show ?thesis by (simp add: adj_ok_def)
qed

lemma patch_edge_ends [simp]: "e_id (patch_edge patch e) = e_id e" "e_from (patch_edge patch e) = e_from e"
  "e_to (patch_edge patch e) = e_to e"
  by (simp_all add: patch_edge_def Let_def split: option.split)

lemma patch_edge_kind: "e_kind (patch_edge patch e) = (case ep_kind patch of Some k \<Rightarrow> k | None \<Rightarrow> e_kind e)"
  by (simp add: patch_edge_def Let_def split: option.split)

text \<open>The state \<open>update_edge\<close> leaves, with and without a new kind.\<close>

definition relink :: "u64 \<Rightarrow> 'j edge \<Rightarrow> 'j inner \<Rightarrow> 'j inner" where
  "relink i e g =
     (let (k, g) = intern_kind (e_kind e) g in
      g\<lparr>out_adj := rekind i k (e_from e) (out_adj g), in_adj := rekind i k (e_to e) (in_adj g)\<rparr>)"

lemma relink_frame [simp]:
  "nodes (relink i e g) = nodes g" "edges (relink i e g) = edges g" "titles (relink i e g) = titles g"
  "kind_index (relink i e g) = kind_index g" "embeddings (relink i e g) = embeddings g" "prepared (relink i e g) = prepared g"
  "constraints (relink i e g) = constraints g" "unique (relink i e g) = unique g" "ids (relink i e g) = ids g"
  "last_updated_at (relink i e g) = last_updated_at g" "heuristic (relink i e g) = heuristic g"
  "kind_ids (relink i e g) = kind_ids (snd (intern_kind (e_kind e) g))"
  by (simp_all add: relink_def case_prod_beta)

lemma update_edge_cases:
  obtains (refused) err where "update_edge g i patch = (Inl err, g)"
  | (updated) old e where "fmlookup (edges g) i = Some old" "e = patch_edge patch old"
      "update_edge g i patch =
         (Inr e, (if ep_kind patch = None then g else relink i e g)\<lparr>edges := fmupd i e (edges g)\<rparr>)"
proof (cases "fst (update_edge g i patch)")
  case (Inl err)
  then show thesis
    by (intro refused [of err]) (auto simp: update_edge_def case_prod_beta Let_def split: option.splits if_splits)
next
  case (Inr e)
  then obtain old where old: "fmlookup (edges g) i = Some old"
    by (auto simp: update_edge_def split: option.splits if_splits)
  with Inr show thesis
    by (intro updated [OF old refl])
      (auto simp: update_edge_def relink_def case_prod_beta Let_def split: option.splits if_splits)
qed

lemma relink_inv:
  assumes inv: "edges_inv g" and old: "fmlookup (edges g) i = Some old" and card: "fcard (fmdom (kind_ids g)) < 2 ^ 32"
    and e: "e_id e = i" "e_from e = e_from old" "e_to e = e_to old"
  shows "edges_inv ((relink i e g)\<lparr>edges := fmupd i e (edges g)\<rparr>)"
proof -
  note D = edges_invD [OF inv]
  let ?K = "kind_ids (snd (intern_kind (e_kind e) g))" and ?k = "fst (intern_kind (e_kind e) g)"
  have id: "e_id old = i"
    using D(3) [OF old] by simp
  have new: "out_entry ?K e = (out_entry ?K old)\<lparr>a_kind_id := ?k\<rparr>" "in_entry ?K e = (in_entry ?K old)\<lparr>a_kind_id := ?k\<rparr>"
    by (simp_all add: out_entry_def in_entry_def e id intern_kind_lookup(1))
  have "adj_ok (rekind i ?k (e_from e) (out_adj g)) (fmlookup (fmupd i e (edges g))) e_from (out_entry ?K)"
    unfolding fmlookup_fun
    by (rule adj_ok_rekind [OF intern_kind_adj(1) [OF inv refl, of "e_kind e"] old D(1) _ e(1,2)]) (simp_all add: new)
  moreover have "adj_ok (rekind i ?k (e_to e) (in_adj g)) (fmlookup (fmupd i e (edges g))) e_to (in_entry ?K)"
    unfolding fmlookup_fun
    by (rule adj_ok_rekind [OF intern_kind_adj(2) [OF inv refl, of "e_kind e"] old D(1) _ e(1,3)]) (simp_all add: new)
  moreover have "out_adj (relink i e g) = rekind i ?k (e_from e) (out_adj g)" "in_adj (relink i e g) = rekind i ?k (e_to e) (in_adj g)"
    by (simp_all add: relink_def case_prod_beta)
  moreover have "e_id e' = j \<and> j \<le> last_edge (ids g) \<and> e_kind e' |\<in>| fmdom ?K" if "fmlookup (fmupd i e (edges g)) j = Some e'" for j e'
    using that D(3) [of j e'] D(3) [OF old] e(1) by (auto simp: intern_kind_dom split: if_splits)
  ultimately show ?thesis
    using intern_kind_interned [OF D(2) card, of "e_kind e"] by (intro edges_invI) simp_all
qed

lemma update_edge_inv:
  assumes "graph_inv J g" and "room (Suc k) g"
  shows "graph_inv J (snd (update_edge g i patch))"
proof (cases rule: update_edge_cases [of g i patch])
  case (updated old e)
  have inv: "edges_inv g"
    using assms(1) by (simp add: graph_inv_def)
  note D = edges_invD [OF inv]
  have "edges_inv ((if ep_kind patch = None then g else relink i e g)\<lparr>edges := fmupd i e (edges g)\<rparr>)"
  proof (cases "ep_kind patch")
    case None
    have same: "e_id e = i" "e_kind e = e_kind old" "e_from e = e_from old" "e_to e = e_to old"
      using D(3) [OF updated(1)] by (simp_all add: updated(2) patch_edge_kind None)
    have "out_entry (kind_ids g) e = out_entry (kind_ids g) old" "in_entry (kind_ids g) e = in_entry (kind_ids g) old"
      using same D(3) [OF updated(1)] by (simp_all add: out_entry_def in_entry_def)
    then show ?thesis
      using same D(2,3) D(3) [OF updated(1)] adj_ok_touch [OF D(4) updated(1) D(1) same(1,3)]
        adj_ok_touch [OF D(5) updated(1) D(1) same(1,4)]
      by (intro edges_invI) (auto simp: None fmlookup_fun split: if_splits)
  next
    case (Some kd)
    with relink_inv [OF inv updated(1) room_succ(6) [OF assms(2)], of e] D(3) [OF updated(1)] updated(2)
    show ?thesis by simp
  qed
  then show ?thesis
    unfolding updated(3) snd_conv by (rule graph_inv_edges [OF assms(1)]) (rule nodes_inv_cong, simp_all)
qed (use assms in auto)

lemma remove_edge_graph_inv:
  assumes "graph_inv J g"
  shows "graph_inv J (remove_edge g i)"
proof (rule graph_inv_edges [OF assms])
  show "edges_inv (remove_edge g i)"
    using assms by (intro remove_edge_inv) (simp add: graph_inv_def)
qed (rule nodes_inv_cong, simp_all)

lemma delete_edge_inv: "graph_inv J g \<Longrightarrow> graph_inv J (snd (delete_edge g i))"
  by (simp add: delete_edge_def remove_edge_graph_inv)

section \<open>The cascading delete\<close>

lemma remove_edges_frame [simp]:
  "nodes (foldl remove_edge g is) = nodes g" "titles (foldl remove_edge g is) = titles g"
  "kind_index (foldl remove_edge g is) = kind_index g" "kind_ids (foldl remove_edge g is) = kind_ids g"
  "embeddings (foldl remove_edge g is) = embeddings g" "constraints (foldl remove_edge g is) = constraints g"
  "unique (foldl remove_edge g is) = unique g" "ids (foldl remove_edge g is) = ids g"
  "last_updated_at (foldl remove_edge g is) = last_updated_at g" "heuristic (foldl remove_edge g is) = heuristic g"
  by (induction "is" arbitrary: g) auto

lemma remove_edges_edges: "fmlookup (edges (foldl remove_edge g is)) i = (if i \<in> set is then None else fmlookup (edges g) i)"
  by (induction "is" arbitrary: g) auto

lemma remove_edges_inv: "edges_inv g \<Longrightarrow> edges_inv (foldl remove_edge g is)"
  by (induction "is" arbitrary: g) (auto intro: remove_edge_inv)

text \<open>The visit of a node in both directions names exactly the relationships with an end there, loops once.\<close>

lemma incident_both:
  assumes "edges_inv g"
  shows "a_edge_id ` set (for_each_incident g i Both) = {j. \<exists>e. fmlookup (edges g) j = Some e \<and> (e_from e = i \<or> e_to e = i)}"
proof -
  note D = edges_invD [OF assms]
  let ?K = "kind_ids g"
  have mem: "a \<in> set (for_each_incident g i Both) \<longleftrightarrow>
      (\<exists>e. fmlookup (edges g) (e_id e) = Some e \<and>
        (e_from e = i \<and> a = out_entry ?K e \<or> e_to e = i \<and> e_from e \<noteq> i \<and> a = in_entry ?K e))" for a
    using adj_okD(3) [OF D(4), of i] adj_okD(3) [OF D(5), of i]
    by (auto simp: for_each_incident_def in_entry_def)
  show ?thesis
  proof (intro set_eqI iffI)
    fix j
    assume "j \<in> {j. \<exists>e. fmlookup (edges g) j = Some e \<and> (e_from e = i \<or> e_to e = i)}"
    then obtain e where e: "fmlookup (edges g) j = Some e" "e_from e = i \<or> e_to e = i" by blast
    then have "e_id e = j" using D(3) by blast
    with e have "\<exists>a. a \<in> set (for_each_incident g i Both) \<and> a_edge_id a = j"
      by (cases "e_from e = i") (auto simp: mem)
    then show "j \<in> a_edge_id ` set (for_each_incident g i Both)" by blast
  qed (auto simp: mem)
qed

lemma drop_node_edges:
  assumes "edges_inv g"
  shows "fmlookup (edges (drop_node J g n i)) j =
    (case fmlookup (edges g) j of None \<Rightarrow> None | Some e \<Rightarrow> if e_from e = i \<or> e_to e = i then None else Some e)"
  using incident_both [OF assms, of i]
  by (auto simp: drop_node_def Let_def remove_edges_edges incident_entries_def split: option.split)

lemma drop_node_inv:
  assumes "graph_inv J g" and "fmlookup (nodes g) i = Some n"
  shows "graph_inv J (drop_node J g n i)"
proof -
  let ?g = "foldl remove_edge g (map a_edge_id (incident_entries g i Both))"
  have inv: "nodes_inv J g" "edges_inv g"
    using assms(1) by (simp_all add: graph_inv_def)
  have id: "n_id n = i"
    using nodes_invD(1) [OF inv(1) assms(2)] by simp
  have "node_tables J ?g (fmlookup (nodes g))"
    using nodes_invD(2) [OF inv(1)] by (simp add: node_tables_def)
  note tables = tables_unindex [OF this assms(2) id]
  have "nodes_inv J (drop_node J g n i)"
  proof (rule nodes_invI)
    show "node_tables J (drop_node J g n i) (fmlookup (nodes (drop_node J g n i)))"
      using tables by (simp add: drop_node_def Let_def node_tables_def fmlookup_fun)
  qed (use nodes_invD(1) [OF inv(1)] in \<open>auto simp: drop_node_def Let_def split: if_splits\<close>)
  moreover have "edges_inv (drop_node J g n i) = edges_inv ?g"
    by (rule edges_inv_cong) (simp_all add: drop_node_def Let_def)
  ultimately show ?thesis
    using remove_edges_inv [OF inv(2)] by (simp add: graph_inv_def)
qed

lemma delete_node_inv: "graph_inv J g \<Longrightarrow> graph_inv J (snd (delete_node J g i))"
  by (auto simp: delete_node_def drop_node_inv split: option.split)

section \<open>Building the uniqueness lookups\<close>

abbreviation by_id :: "'j node list \<Rightarrow> u64 \<Rightarrow> 'j node option" where
  "by_id ns \<equiv> map_of (map (\<lambda>n. (n_id n, n)) ns)"

lemma build_postings:
  assumes "distinct (map n_id ns)"
  shows "postings
     (fmlookup (fold (\<lambda>n vals. case tuple_val J key n of Some k \<Rightarrow> add_id k (n_id n) vals | None \<Rightarrow> vals) ns fmempty))
     (\<lambda>i. Option.bind (by_id ns i) (tuple_val J key))"
  using assms
proof (induction ns rule: rev_induct)
  case Nil
  show ?case by (simp add: postings_def)
next
  case (snoc n ns)
  let ?vals = "fold (\<lambda>n vals. case tuple_val J key n of Some k \<Rightarrow> add_id k (n_id n) vals | None \<Rightarrow> vals) ns fmempty"
  let ?val = "\<lambda>i. Option.bind (by_id ns i) (tuple_val J key)"
  have new: "by_id ns (n_id n) = None"
    using snoc.prems by (auto simp: map_of_eq_None_iff)
  have val: "(\<lambda>i. Option.bind (by_id (ns @ [n]) i) (tuple_val J key)) = ?val(n_id n := tuple_val J key n)"
    using new by (auto simp: fun_eq_iff map_add_def split: option.split)
  have post: "postings (fmlookup ?vals) ?val"
    using snoc by simp
  show ?case
  proof (cases "tuple_val J key n")
    case None
    have "?val(n_id n := None) = ?val"
      using new by (auto simp: fun_eq_iff)
    then show ?thesis
      using post unfolding val by (simp add: None)
  next
    case (Some k)
    show ?thesis
      unfolding val Some
      by (rule postings_add [OF post]) (auto simp: new Some add_id_def fun_eq_iff)
  qed
qed

lemma fm_values_keyed:
  assumes "\<And>i v. fmlookup m i = Some v \<Longrightarrow> f v = i"
  shows "map_of (map (\<lambda>v. (f v, v)) (fm_values m)) = fmlookup m" and "distinct (map f (fm_values m))"
    and "sort_key f (fm_values m) = fm_values m"
proof -
  have eq: "map (\<lambda>v. (f v, v)) (fm_values m) = sorted_list_of_fmap m"
    using assms by (auto simp: sorted_list_of_fmap_def fmlookup_dom_iff)
  then show "map_of (map (\<lambda>v. (f v, v)) (fm_values m)) = fmlookup m"
    by (simp only: map_of_sorted_list)
  have "map f (fm_values m) = map fst (map (\<lambda>v. (f v, v)) (fm_values m))"
    by simp
  also have "\<dots> = sorted_list_of_fset (fmdom m)"
    unfolding eq by (simp add: sorted_list_of_fmap_def comp_def)
  finally have keys: "map f (fm_values m) = sorted_list_of_fset (fmdom m)" .
  then show "distinct (map f (fm_values m))"
    by simp
  from keys show "sort_key f (fm_values m) = fm_values m"
    by (intro sort_key_id_if_sorted) simp
qed

lemma build_unique_postings:
  assumes "\<And>i n. fmlookup (nodes g) i = Some n \<Longrightarrow> n_id n = i"
  shows "postings (fmlookup (build_unique J g label ps)) (\<lambda>i. Option.bind (fmlookup (nodes g) i) (tuple_val J (label, ps)))"
proof -
  have "fold (\<lambda>n vals. case tuple_key J n ps of Some key \<Rightarrow> add_id key (n_id n) vals | None \<Rightarrow> vals)
       (filter (\<lambda>n. has_label J n label) ns) vals =
     fold (\<lambda>n vals. case tuple_val J (label, ps) n of Some k \<Rightarrow> add_id k (n_id n) vals | None \<Rightarrow> vals) ns vals" for ns vals
    by (induction ns arbitrary: vals) (auto simp: tuple_val_def)
  then have eq: "build_unique J g label ps =
      fold (\<lambda>n vals. case tuple_val J (label, ps) n of Some k \<Rightarrow> add_id k (n_id n) vals | None \<Rightarrow> vals) (fm_values (nodes g)) fmempty"
    by (simp add: build_unique_def)
  have d: "distinct (map n_id (fm_values (nodes g)))" and f: "by_id (fm_values (nodes g)) = fmlookup (nodes g)"
    using fm_values_keyed(1,2) [of "nodes g" n_id] assms by blast+
  show ?thesis
    using build_postings [OF d, of J "(label, ps)"] unfolding eq f .
qed

abbreviation needed_tuples :: "'j inner \<Rightarrow> (string \<times> string list) list" where
  "needed_tuples g \<equiv> List.map_filter unique_tuple (constraints g)"

lemma sync_fold:
  assumes "\<And>i n. fmlookup (nodes g) i = Some n \<Longrightarrow> n_id n = i" and "unique_ok J (unique g) (fmlookup (nodes g))"
    and "g' = foldl (\<lambda>g (label, ps). if (label, ps) |\<in>| fmdom (unique g) then g
            else g\<lparr>unique := fmupd (label, ps) (build_unique J g label ps) (unique g)\<rparr>) g ts"
  shows "unique_ok J (unique g') (fmlookup (nodes g))" "fset (fmdom (unique g')) = fset (fmdom (unique g)) \<union> set ts"
    "\<exists>u. g' = g\<lparr>unique := u\<rparr>"
proof -
  have "unique_ok J (unique g') (fmlookup (nodes g)) \<and> fset (fmdom (unique g')) = fset (fmdom (unique g)) \<union> set ts \<and>
      (\<exists>u. g' = g\<lparr>unique := u\<rparr>)"
    using assms
  proof (induction ts arbitrary: g)
    case Nil
    then show ?case by (auto intro: exI [of _ "unique g"])
  next
    case (Cons t ts)
    obtain label ps where t: "t = (label, ps)" by (cases t)
    let ?g = "if (label, ps) |\<in>| fmdom (unique g) then g
            else g\<lparr>unique := fmupd (label, ps) (build_unique J g label ps) (unique g)\<rparr>"
    have ok: "unique_ok J (unique ?g) (fmlookup (nodes ?g))" "nodes ?g = nodes g" "\<exists>u. ?g = g\<lparr>unique := u\<rparr>"
      using Cons.prems(2) build_unique_postings [OF Cons.prems(1), of g J label ps]
      by (auto simp: unique_ok_def intro: exI [of _ "unique g"])
    from Cons.IH [of ?g] ok Cons.prems(1,3) show ?case
      by (auto simp: t split: if_splits)
  qed
  then show "unique_ok J (unique g') (fmlookup (nodes g))" "fset (fmdom (unique g')) = fset (fmdom (unique g)) \<union> set ts"
    "\<exists>u. g' = g\<lparr>unique := u\<rparr>" by auto
qed

lemma sync_unique_ok:
  assumes "nodes_inv J g"
  shows "unique_ok J (unique (sync_unique J g)) (fmlookup (nodes g))"
    and "fset (fmdom (unique (sync_unique J g))) = set (needed_tuples g)"
    and "\<exists>u. sync_unique J g = g\<lparr>unique := u\<rparr>"
proof -
  let ?g = "g\<lparr>unique := fmfilter (\<lambda>key. List.member (needed_tuples g) key) (unique g)\<rparr>"
  have keyed: "n_id n = i" if "fmlookup (nodes ?g) i = Some n" for i n
    using nodes_invD(1) [OF assms, of i n] that by simp
  have ok: "unique_ok J (unique ?g) (fmlookup (nodes ?g))"
    using assms by (auto simp: nodes_inv_def unique_ok_def split: if_splits)
  note fold = sync_fold [OF keyed ok refl, of "needed_tuples g"]
  have eq: "sync_unique J g = foldl (\<lambda>g (label, ps). if (label, ps) |\<in>| fmdom (unique g) then g
            else g\<lparr>unique := fmupd (label, ps) (build_unique J g label ps) (unique g)\<rparr>) ?g (needed_tuples g)"
    by (simp add: sync_unique_def Let_def)
  show "unique_ok J (unique (sync_unique J g)) (fmlookup (nodes g))"
    using fold(1) unfolding eq by simp
  have "fset (fmdom (unique ?g)) \<subseteq> set (needed_tuples g)"
    by (auto simp: fmlookup_dom_iff split: if_splits)
  then show "fset (fmdom (unique (sync_unique J g))) = set (needed_tuples g)"
    using fold(2) unfolding eq by auto
  show "\<exists>u. sync_unique J g = g\<lparr>unique := u\<rparr>"
    using fold(3) unfolding eq by auto
qed

section \<open>Log replay\<close>

lemma upsert_node_inv:
  assumes "graph_inv J g"
  shows "graph_inv J (upsert_node J n g)"
proof -
  let ?i = "n_id n" and ?N = "fmlookup (nodes g)"
  let ?g = "case ?N ?i of
      Some old \<Rightarrow> unindex_unique J old (unindex_node_kind ?i (n_kind old) (unindex_title ?i (n_title old) g))
    | None \<Rightarrow> g"
  have inv: "nodes_inv J g"
    using assms by (simp add: graph_inv_def)
  have frame: "nodes ?g = nodes g" "edges ?g = edges g" "out_adj ?g = out_adj g" "in_adj ?g = in_adj g"
    "kind_ids ?g = kind_ids g" "ids ?g = ids g" "last_updated_at ?g = last_updated_at g"
    by (simp_all split: option.split)
  have "node_tables J ?g (?N(?i := None))"
  proof (cases "?N ?i")
    case None
    then have "?N(?i := None) = ?N" by (auto simp: fun_eq_iff)
    with None nodes_invD(2) [OF inv] show ?thesis by simp
  next
    case (Some old)
    with tables_unindex [OF nodes_invD(2) [OF inv] Some] nodes_invD(1) [OF inv Some] show ?thesis by simp
  qed
  from tables_index(2) [of J ?g "?N(?i := None)" ?i n, OF this] have
    "node_tables J (index_node_kind ?i (n_kind n) (index_unique J n (index_title ?i (n_title n) ?g))) (?N(?i \<mapsto> n))"
    by simp
  then have "nodes_inv J (upsert_node J n g)"
    using nodes_invD(1) [OF inv]
    by (intro nodes_invI) (auto simp: upsert_node_def Let_def fmlookup_fun frame le_max_iff_disj node_tables_def split: if_splits)
  moreover have "edges_inv (upsert_node J n g) = edges_inv g"
    by (rule edges_inv_cong) (simp_all add: upsert_node_def Let_def frame)
  ultimately show ?thesis
    using assms by (simp add: graph_inv_def)
qed

lemma observe_edge_inv:
  assumes "edges_inv g"
  shows "edges_inv (observe_edge i g)"
  by (rule edges_invI) (use edges_invD [OF assms] in \<open>auto simp: le_max_iff_disj\<close>)

lemma link_observe: "link_edge e (observe_edge i g) = observe_edge i (link_edge e g)"
  by (cases "fmlookup (kind_ids g) (e_kind e)")
    (simp_all add: link_edge_def intern_kind_def observe_edge_def Let_def)

lemma upsert_edge_inv:
  assumes "graph_inv J g" and "fcard (fmdom (kind_ids g)) < 2 ^ 32"
  shows "graph_inv J (upsert_edge e g)"
proof -
  let ?g = "if e_id e |\<in>| fmdom (edges g) then remove_edge g (e_id e) else g"
  let ?h = "observe_edge (e_id e) ?g"
  have "edges_inv g"
    using assms(1) by (simp add: graph_inv_def)
  then have g: "edges_inv ?g" "fmlookup (edges ?g) (e_id e) = None" "kind_ids ?g = kind_ids g"
    using remove_edge_inv [of g "e_id e"] by (simp_all add: fmdom_notD)
  have "edges_inv ?h"
    by (rule observe_edge_inv [OF g(1)])
  then have "edges_inv ((link_edge e ?h)\<lparr>edges := fmupd (e_id e) e (edges ?h)\<rparr>)"
  proof (rule link_edge_inv)
    show "fmlookup (edges ?h) (e_id e) = None"
      using g(2) by (simp only: observe_edge_frame)
    show "fcard (fmdom (kind_ids ?h)) < 2 ^ 32"
      using assms(2) g(3) by (simp only: observe_edge_frame)
    show "e_id e \<le> last_edge (ids ?h)"
      by simp
  qed
  moreover have "upsert_edge e g = (link_edge e ?h)\<lparr>edges := fmupd (e_id e) e (edges ?h)\<rparr>"
    by (simp add: upsert_edge_def Let_def link_observe)
  ultimately have "edges_inv (upsert_edge e g)" by simp
  then show ?thesis
    by (rule graph_inv_edges [OF assms(1)]) (rule nodes_inv_cong, simp_all add: upsert_edge_def Let_def)
qed

text \<open>The invariant speaks of neither the embeddings nor the table of prepared transactions.\<close>

lemma graph_inv_frame [simp]:
  "graph_inv J (g\<lparr>embeddings := x\<rparr>) = graph_inv J g" "graph_inv J (g\<lparr>prepared := p\<rparr>) = graph_inv J g"
  "graph_inv J (g\<lparr>heuristic := h\<rparr>) = graph_inv J g" "graph_inv J (g\<lparr>commit_seq := c\<rparr>) = graph_inv J g"
  by (simp_all add: graph_inv_def nodes_inv_def edges_inv_def)

lemma kind_ids_wal [simp]:
  "kind_ids (upsert_node J n g) = kind_ids g" "kind_ids (drop_node J g n i) = kind_ids g"
  by (simp_all add: upsert_node_def drop_node_def Let_def split: option.split)

lemma kind_ids_upsert_edge: "fcard (fmdom (kind_ids (upsert_edge e g))) \<le> Suc (fcard (fmdom (kind_ids g)))"
proof -
  have "fmdom (kind_ids (upsert_edge e g)) = finsert (e_kind e) (fmdom (kind_ids g))"
    by (simp add: upsert_edge_def Let_def intern_kind_dom)
  then show ?thesis
    by (simp add: fcard_finsert_if)
qed

text \<open>A log, with what is still prepared, is short enough when it cannot run out of kind numbers.\<close>

definition replay_room :: "'j inner \<Rightarrow> 'j wal_op list \<Rightarrow> bool" where
  "replay_room g ops \<longleftrightarrow>
     int (fcard (fmdom (kind_ids g))) + int (size_list size ops + prepared_weight (prepared g)) < 2 ^ 32"

text \<open>
  One turn of the worklist: what an operation does to the state, and what it puts in front of the rest. Every
  proof about a replay is an induction over such turns.
\<close>

definition wal_head :: "'j json_lib \<Rightarrow> 'j inner \<Rightarrow> 'j wal_op \<Rightarrow> 'j inner \<times> 'j wal_op list" where
  "wal_head J g op =
     (case op of
        CommitPrepared gid \<Rightarrow>
          (case fmlookup (prepared g) gid of
             None \<Rightarrow> (g, [])
           | Some entry \<Rightarrow> (g\<lparr>prepared := fmdrop gid (prepared g)\<rparr>, pe_ops entry))
      | _ \<Rightarrow> (apply_wal_op J g op, []))"

lemma apply_wal_ops_Cons:
  "apply_wal_ops J g (op # ops) = apply_wal_ops J (fst (wal_head J g op)) (snd (wal_head J g op) @ ops)"
  by (cases op) (auto simp: wal_head_def apply_wal_op_def split: option.split)

lemma wal_induct [case_names Nil Cons]:
  assumes "\<And>g. P g []" and "\<And>g op ops. P (fst (wal_head J g op)) (snd (wal_head J g op) @ ops) \<Longrightarrow> P g (op # ops)"
  shows "P g ops"
proof (induction J \<equiv> J g ops rule: apply_wal_ops.induct)
  case 1
  show ?case by (rule assms(1))
next
  case (9 g gid ops)
  then show ?case
    by (intro assms(2)) (auto simp: wal_head_def split: option.split)
qed (rule assms(2), simp add: wal_head_def apply_wal_op_def)+

lemma wal_head_inv:
  assumes "graph_inv J g" and "replay_room g (op # ops)"
  shows "graph_inv J (fst (wal_head J g op))" and "replay_room (fst (wal_head J g op)) (snd (wal_head J g op) @ ops)"
proof -
  have card: "fcard (fmdom (kind_ids g)) < 2 ^ 32"
    using assms(2) by (simp add: replay_room_def)
  show "graph_inv J (fst (wal_head J g op))"
    using assms(1) upsert_edge_inv [OF assms(1) card]
    by (cases op) (auto simp: wal_head_def apply_wal_op_def upsert_node_inv drop_node_inv remove_edge_graph_inv Let_def
        split: option.split)
  show "replay_room (fst (wal_head J g op)) (snd (wal_head J g op) @ ops)"
  proof (cases op)
    case (UpsertEdge e)
    with assms(2) kind_ids_upsert_edge [of e g] show ?thesis
      by (simp add: wal_head_def apply_wal_op_def replay_room_def)
  next
    case (Prepare gid at pops)
    with assms(2) prepared_weight_upd [of gid "\<lparr>pe_prepared_at_ms = at, pe_ops = pops\<rparr>" "prepared g"] show ?thesis
      by (simp add: wal_head_def apply_wal_op_def replay_room_def)
  next
    case (CommitPrepared gid)
    with assms(2) show ?thesis
      by (cases "fmlookup (prepared g) gid")
        (auto simp: wal_head_def replay_room_def size_list_append dest: prepared_weight_drop)
  next
    case (RollbackPrepared gid h)
    with assms(2) prepared_weight_drop_le [of gid "prepared g"] show ?thesis
      by (simp add: wal_head_def apply_wal_op_def replay_room_def Let_def)
  qed (use assms(2) in \<open>auto simp: wal_head_def apply_wal_op_def replay_room_def split: option.split\<close>)
qed

lemma apply_wal_ops_inv: "graph_inv J g \<Longrightarrow> replay_room g ops \<Longrightarrow> graph_inv J (apply_wal_ops J g ops)"
proof (induction g ops rule: wal_induct [where J = J])
  case (Cons g op ops)
  with wal_head_inv [OF Cons.prems] show ?case
    by (simp add: apply_wal_ops_Cons)
qed simp

end
