(* ===== verification/Native_Props.thy ===== *)
theory Native_Props
  imports Native_Ops
begin

text \<open>
  What the graph engine's state promises its callers, over the invariant of theories \<open>Native_Graph\<close> and
  \<open>Native_Ops\<close>: histories of live writes, adjacency answers, cascading deletes, uniqueness, recency and
  the round trip through the log.
\<close>

section \<open>Histories of live writes\<close>

text \<open>A live write of the engine with its arguments; the wall clock and UUID it reads come with it.\<close>

datatype 'j live_op =
    LiveCreateNode env "'j new_node" bool
  | LiveUpdateNode env u64 "'j node_patch" bool
  | LiveDeleteNode u64
  | LiveCreateEdge env "'j new_edge"
  | LiveUpdateEdge u64 "'j edge_patch"
  | LiveDeleteEdge u64

fun live_step :: "'j json_lib \<Rightarrow> 'j inner \<Rightarrow> 'j live_op \<Rightarrow> 'j inner" where
  "live_step J g (LiveCreateNode env nn r) = snd (create_node_checked J env g nn r)"
| "live_step J g (LiveUpdateNode env i p r) = snd (update_node_checked J env g i p r)"
| "live_step J g (LiveDeleteNode i) = snd (delete_node J g i)"
| "live_step J g (LiveCreateEdge env ne) = snd (create_edge env g ne)"
| "live_step J g (LiveUpdateEdge i p) = snd (update_edge g i p)"
| "live_step J g (LiveDeleteEdge i) = snd (delete_edge g i)"

fun live_time :: "'j live_op \<Rightarrow> int" where
  "live_time (LiveCreateNode env nn r) = now_ms env"
| "live_time (LiveUpdateNode env i p r) = now_ms env"
| "live_time _ = 0"

definition live_run :: "'j json_lib \<Rightarrow> 'j live_op list \<Rightarrow> 'j inner" where
  "live_run J ops = foldl (live_step J) inner_default ops"

lemma live_step_graph_inv:
  assumes "graph_inv J g" and "room (Suc k) g"
  shows "graph_inv J (live_step J g op)"
  using assms
  by (cases op) (auto intro: create_node_inv update_node_inv delete_node_inv create_edge_inv update_edge_inv delete_edge_inv)

text \<open>One operation takes at most one step of every counter.\<close>

lemma intern_kind_card: "fcard (fmdom (kind_ids (snd (intern_kind k g)))) \<le> Suc (fcard (fmdom (kind_ids g)))"
  by (simp add: intern_kind_dom fcard_finsert_if)

lemma live_step_room:
  assumes "room (Suc k) g" and "live_time op + int k \<le> i64_max"
  shows "room k (live_step J g op)"
proof -
  note succ = room_succ [OF assms(1)]
  show ?thesis
  proof (cases op)
    case (LiveCreateNode env nn r)
    show ?thesis
      by (cases rule: create_node_cases [of J env g nn r])
        (use assms succ in \<open>auto simp: LiveCreateNode room_def with_node_def Let_def into_node_def\<close>)
  next
    case (LiveUpdateNode env i p r)
    show ?thesis
      by (cases rule: update_node_cases [of g i J env p r])
        (use assms succ in \<open>auto simp: LiveUpdateNode room_def\<close>)
  next
    case (LiveCreateEdge env ne)
    show ?thesis
    proof (cases rule: create_edge_cases [of env g ne])
      case (created e)
      with assms succ intern_kind_card [of "e_kind e" "snd (next_edge g)"] show ?thesis
        by (simp add: LiveCreateEdge room_def)
    qed (use assms in \<open>simp add: LiveCreateEdge room_def\<close>)
  next
    case (LiveUpdateEdge i p)
    show ?thesis
    proof (cases rule: update_edge_cases [of g i p])
      case (updated old e)
      with assms succ intern_kind_card [of "e_kind e" g] show ?thesis
        by (simp add: LiveUpdateEdge room_def)
    qed (use assms in \<open>simp add: LiveUpdateEdge room_def\<close>)
  next
    case (LiveDeleteNode i)
    then show ?thesis
      using assms by (auto simp: room_def delete_node_def drop_node_def Let_def split: option.split)
  next
    case (LiveDeleteEdge i)
    then show ?thesis
      using assms by (auto simp: room_def delete_edge_def)
  qed
qed

lemma endpoints_okI:
  assumes "endpoints_ok g" and "fmdom (nodes g) |\<subseteq>| fmdom (nodes g')"
    and "\<And>i e. fmlookup (edges g') i = Some e \<Longrightarrow> fmlookup (edges g) i = Some e \<or>
      e_from e |\<in>| fmdom (nodes g) \<and> e_to e |\<in>| fmdom (nodes g)"
  shows "endpoints_ok g'"
  unfolding endpoints_ok_def
proof (intro allI impI)
  fix i e
  assume "fmlookup (edges g') i = Some e"
  from assms(3) [OF this] have "e_from e |\<in>| fmdom (nodes g) \<and> e_to e |\<in>| fmdom (nodes g)"
    using assms(1) unfolding endpoints_ok_def by blast
  with assms(2) show "e_from e |\<in>| fmdom (nodes g') \<and> e_to e |\<in>| fmdom (nodes g')"
    by blast
qed

lemma live_step_endpoints:
  assumes "graph_inv J g" and ok: "endpoints_ok g"
  shows "endpoints_ok (live_step J g op)"
proof (cases op)
  case (LiveCreateNode env nn r)
  show ?thesis
    by (cases rule: create_node_cases [of J env g nn r])
      (auto intro!: endpoints_okI [OF ok] simp: LiveCreateNode with_node_def Let_def)
next
  case (LiveUpdateNode env i p r)
  show ?thesis
    by (cases rule: update_node_cases [of g i J env p r])
      (use ok in \<open>auto intro!: endpoints_okI [OF ok] simp: LiveUpdateNode\<close>)
next
  case (LiveCreateEdge env ne)
  show ?thesis
    by (cases rule: create_edge_cases [of env g ne])
      (use ok in \<open>auto intro!: endpoints_okI [OF ok] simp: LiveCreateEdge split: if_splits\<close>)
next
  case (LiveUpdateEdge i p)
  show ?thesis
  proof (cases rule: update_edge_cases [of g i p])
    case (updated old e)
    then have "e_from e |\<in>| fmdom (nodes g) \<and> e_to e |\<in>| fmdom (nodes g)"
      using ok by (simp add: endpoints_ok_def)
    with updated show ?thesis
      by (intro endpoints_okI [OF ok]) (auto simp: LiveUpdateEdge split: if_splits)
  qed (use ok in \<open>simp add: LiveUpdateEdge\<close>)
next
  case (LiveDeleteNode i)
  have inv: "edges_inv g"
    using assms(1) by (simp add: graph_inv_def)
  have "endpoints_ok (drop_node J g n i)" for n
    unfolding endpoints_ok_def drop_node_edges [OF inv]
  proof (intro allI impI)
    fix j e
    assume "(case fmlookup (edges g) j of None \<Rightarrow> None | Some e \<Rightarrow> if e_from e = i \<or> e_to e = i then None else Some e) = Some e"
    then have e: "fmlookup (edges g) j = Some e" "e_from e \<noteq> i" "e_to e \<noteq> i"
      by (auto split: option.splits if_splits)
    with ok show "e_from e |\<in>| fmdom (nodes (drop_node J g n i)) \<and> e_to e |\<in>| fmdom (nodes (drop_node J g n i))"
      by (auto simp: endpoints_ok_def drop_node_def Let_def)
  qed
  with ok show ?thesis
    by (simp add: LiveDeleteNode delete_node_def split: option.split)
next
  case (LiveDeleteEdge i)
  with ok show ?thesis
    by (auto intro!: endpoints_okI [OF ok] simp: delete_edge_def split: if_splits)
qed

lemma live_fold:
  assumes "graph_inv J g" and "endpoints_ok g" and "room (length ops + r) g"
    and "\<forall>op \<in> set ops. live_time op + int (length ops + r) \<le> i64_max"
  shows "graph_inv J (foldl (live_step J) g ops) \<and> endpoints_ok (foldl (live_step J) g ops) \<and>
    room r (foldl (live_step J) g ops)"
  using assms
proof (induction ops arbitrary: g)
  case (Cons op ops)
  have "live_time op + int (length ops + r) \<le> i64_max" "\<forall>op \<in> set ops. live_time op + int (length ops + r) \<le> i64_max"
    using Cons.prems(4) by auto
  with Cons live_step_graph_inv [of J g "length ops + r" op] live_step_endpoints [of J g op]
    live_step_room [of "length ops + r" g op J]
  show ?case by simp
qed simp

text \<open>C13.
  From the empty graph, any sequence of node and relationship writes, failed ones included, leaves a state
  in which all derived structures describe the records exactly: the title index, the kind index and the
  uniqueness lookups list the nodes with each value, the two adjacency tables list the relationships of
  every node in sorted order, no id exceeds the counters, and no relationship has a missing end. The
  sequence may be anything shorter than the number of 32-bit kind numbers, at clock readings that leave
  room for that many timestamps.\<close>

theorem live_run_consistent:
  fixes J :: "'j json_lib"
  assumes "int (length ops) < 2 ^ 32" and "\<forall>op \<in> set ops. live_time op + int (length ops) \<le> i64_max"
  shows "graph_inv J (live_run J ops) \<and> endpoints_ok (live_run J ops)"
proof -
  have "room (length ops) (inner_default :: 'j inner)"
    using assms(1) by (simp add: room_def inner_default_def fcard.rep_eq)
  moreover have "endpoints_ok (inner_default :: 'j inner)"
    by (simp add: endpoints_ok_def inner_default_def)
  ultimately show ?thesis
    using live_fold [OF graph_inv_default, of ops 0 J] assms(2) by (simp add: live_run_def)
qed

text \<open>
  A concrete JSON library for the examples: a value is \<open>null\<close> or a string, and its text is the quoted string
  with control characters left out.
\<close>

definition ex_json :: "string option json_lib" where
  "ex_json =
     \<lparr>json_is_null = (\<lambda>v. v = None), json_array = (\<lambda>_. None), json_string = (\<lambda>v. v), json_of_string = Some,
      json_text = (\<lambda>v. case v of None \<Rightarrow> ''null'' | Some s \<Rightarrow> ''\"'' @ filter (\<lambda>c. c \<noteq> CHR 0x1F) s @ ''\"'')\<rparr>"

definition ex_env :: "int \<Rightarrow> env" where
  "ex_env t = \<lparr>now_ms = t, new_uuid = [1, 2]\<rparr>"

definition ex_new :: "string \<Rightarrow> string \<Rightarrow> string option new_node" where
  "ex_new kind title = \<lparr>nn_kind = kind, nn_title = title, nn_body = [], nn_body_html = [], nn_properties = props_new\<rparr>"

definition ex_rel :: "u64 \<Rightarrow> u64 \<Rightarrow> string \<Rightarrow> string option new_edge" where
  "ex_rel a b kind = \<lparr>ne_from = a, ne_to = b, ne_kind = kind, ne_weight = 0, ne_properties = props_new\<rparr>"

definition ex_title :: "string \<Rightarrow> string option node_patch" where
  "ex_title t = \<lparr>np_kind = None, np_title = Some t, np_body = None, np_body_html = None, np_properties = None\<rparr>"

definition ex_live :: "string option live_op list" where
  "ex_live =
     [LiveCreateNode (ex_env 5) (ex_new ''A'' ''x'') True, LiveCreateNode (ex_env 5) (ex_new ''B'' ''y'') True,
      LiveCreateNode (ex_env 6) (ex_new ''A'' ''x'') True, LiveCreateEdge (ex_env 6) (ex_rel 1 2 ''r''),
      LiveCreateEdge (ex_env 6) (ex_rel 2 2 ''s''), LiveCreateEdge (ex_env 6) (ex_rel 3 1 ''r''),
      LiveUpdateNode (ex_env 2) 1 (ex_title ''z'') True, LiveDeleteNode 2, LiveDeleteNode 2]"

theorem live_run_consistent_witness:
  "graph_inv ex_json (live_run ex_json ex_live) \<and> endpoints_ok (live_run ex_json ex_live) \<and>
   map n_id (all_nodes (live_run ex_json ex_live)) = [1, 3] \<and> map e_id (all_edges (live_run ex_json ex_live)) = [3] \<and>
   neighbor_ids (live_run ex_json ex_live) 1 Both None = [3] \<and> map n_updated_at (list_recent (live_run ex_json ex_live) 5) = [7, 6]"
proof -
  have "map n_id (all_nodes (live_run ex_json ex_live)) = [1, 3] \<and> map e_id (all_edges (live_run ex_json ex_live)) = [3] \<and>
    neighbor_ids (live_run ex_json ex_live) 1 Both None = [3] \<and> map n_updated_at (list_recent (live_run ex_json ex_live) 5) = [7, 6]"
    by code_simp
  moreover have "int (length ex_live) < 2 ^ 32" "\<forall>op \<in> set ex_live. live_time op + int (length ex_live) \<le> i64_max"
    by (simp_all add: ex_live_def ex_env_def)
  ultimately show ?thesis
    using live_run_consistent [of ex_live ex_json] by blast
qed

section \<open>Neighbours\<close>

lemma push_neighbors:
  assumes "fset seen = insert x (set out)" and "distinct out" and "x \<notin> set out"
  shows "set (snd (fold push_neighbor es (seen, out))) = set out \<union> (a_neighbor_id ` set es - {x}) \<and>
    distinct (snd (fold push_neighbor es (seen, out)))"
  using assms
proof (induction es arbitrary: seen out)
  case (Cons e es)
  show ?case
  proof (cases "a_neighbor_id e |\<in>| seen")
    case True
    then show ?thesis
      using Cons.IH [OF Cons.prems] Cons.prems(1) by (auto simp: push_neighbor_def)
  next
    case False
    let ?s = "finsert (a_neighbor_id e) seen" and ?o = "out @ [a_neighbor_id e]"
    have "fset ?s = insert x (set ?o)" "distinct ?o" "x \<notin> set ?o"
      using False Cons.prems by auto
    from Cons.IH [OF this] show ?thesis
      using False Cons.prems by (auto simp: push_neighbor_def)
  qed
qed simp

text \<open>An entry seen from node \<open>x\<close> in a direction, as the relationships say it.\<close>

definition incident :: "direction \<Rightarrow> u64 \<Rightarrow> 'j edge \<Rightarrow> u64 \<Rightarrow> bool" where
  "incident dir x e y \<longleftrightarrow>
     (dir = Outgoing \<or> dir = Both) \<and> e_from e = x \<and> e_to e = y \<or> (dir = Incoming \<or> dir = Both) \<and> e_to e = x \<and> e_from e = y"

lemma for_each_incident_set:
  assumes "edges_inv g"
  shows "(\<exists>a \<in> set (for_each_incident g x dir). a_neighbor_id a = y \<and> a_kind_id a = k) \<and> y \<noteq> x \<longleftrightarrow>
    (\<exists>e. fmlookup (edges g) (e_id e) = Some e \<and> the (fmlookup (kind_ids g) (e_kind e)) = k \<and> incident dir x e y) \<and> y \<noteq> x"
proof -
  note D = edges_invD [OF assms]
  let ?E = "\<lambda>e. fmlookup (edges g) (e_id e) = Some e \<and> the (fmlookup (kind_ids g) (e_kind e)) = k"
  have out: "(\<exists>a \<in> set (adj_of (out_adj g) x). a_neighbor_id a = y \<and> a_kind_id a = k) \<longleftrightarrow> (\<exists>e. ?E e \<and> e_from e = x \<and> e_to e = y)"
    unfolding adj_okD(3) [OF D(4)] by (auto simp: out_entry_def)
  have inn: "(\<exists>a \<in> set (adj_of (in_adj g) x). a_neighbor_id a = y \<and> a_kind_id a = k) \<longleftrightarrow> (\<exists>e. ?E e \<and> e_to e = x \<and> e_from e = y)"
    unfolding adj_okD(3) [OF D(5)] by (auto simp: in_entry_def)
  have split: "(\<exists>a \<in> set (for_each_incident g x dir). a_neighbor_id a = y \<and> a_kind_id a = k) \<and> y \<noteq> x \<longleftrightarrow>
      ((dir = Outgoing \<or> dir = Both) \<and> (\<exists>a \<in> set (adj_of (out_adj g) x). a_neighbor_id a = y \<and> a_kind_id a = k) \<or>
       (dir = Incoming \<or> dir = Both) \<and> (\<exists>a \<in> set (adj_of (in_adj g) x). a_neighbor_id a = y \<and> a_kind_id a = k)) \<and> y \<noteq> x"
    unfolding for_each_incident_def by (cases dir; simp; blast)
  show ?thesis
    unfolding split out inn incident_def by blast
qed

lemma of_kind_filter:
  assumes "edges_inv g"
  shows "for_each_incident_of_kind g x dir k = filter (\<lambda>a. a_kind_id a = k) (for_each_incident g x dir)"
proof -
  note out = kind_run_filter [OF adj_okD(1) [OF edges_invD(4) [OF assms], of x], of k]
    and inn = kind_run_filter [OF adj_okD(1) [OF edges_invD(5) [OF assms], of x], of k]
  have swap: "filter (\<lambda>a. \<not> (d \<and> a_neighbor_id a = x)) (filter (\<lambda>a. a_kind_id a = k) xs) =
      filter (\<lambda>a. a_kind_id a = k) (filter (\<lambda>a. \<not> (d \<and> a_neighbor_id a = x)) xs)" for d xs
    unfolding filter_filter by (rule filter_cong) auto
  show ?thesis
    unfolding for_each_incident_of_kind_def for_each_incident_def out inn filter_append swap
    by (cases dir) simp_all
qed

definition kind_matches :: "string option \<Rightarrow> 'j edge \<Rightarrow> bool" where
  "kind_matches kind e \<longleftrightarrow> (case kind of None \<Rightarrow> True | Some k \<Rightarrow> e_kind e = k)"

lemma neighbor_ids_set:
  assumes "edges_inv g"
  shows "set (neighbor_ids g x dir kind) =
      {y. \<exists>e. fmlookup (edges g) (e_id e) = Some e \<and> kind_matches kind e \<and> incident dir x e y \<and> y \<noteq> x}"
    and "distinct (neighbor_ids g x dir kind)"
proof -
  note D = edges_invD [OF assms] and inc = for_each_incident_set [OF assms]
  have start: "fset {|x|} = insert x (set [])" "distinct ([] :: u64 list)" "x \<notin> set []"
    by simp_all
  note push = push_neighbors [OF start]
  show "distinct (neighbor_ids g x dir kind)"
    using push by (auto simp: neighbor_ids_def split: option.split)
  have "y \<in> set (neighbor_ids g x dir kind) \<longleftrightarrow>
      (\<exists>e. fmlookup (edges g) (e_id e) = Some e \<and> kind_matches kind e \<and> incident dir x e y) \<and> y \<noteq> x" for y
  proof (cases kind)
    case None
    have "y \<in> set (neighbor_ids g x dir kind) \<longleftrightarrow>
        (\<exists>k. (\<exists>a \<in> set (for_each_incident g x dir). a_neighbor_id a = y \<and> a_kind_id a = k) \<and> y \<noteq> x)"
      using push by (auto simp: neighbor_ids_def None)
    then show ?thesis
      unfolding inc by (simp add: None kind_matches_def)
  next
    case (Some k)
    show ?thesis
    proof (cases "fmlookup (kind_ids g) k")
      case None
      then have "e_kind e \<noteq> k" if "fmlookup (edges g) (e_id e) = Some e" for e
        using D(3) [OF that] by (auto simp: fmlookup_dom_iff)
      with None Some show ?thesis
        by (auto simp: neighbor_ids_def kind_id_of_def kind_matches_def)
    next
      case id: (Some i)
      have same: "the (fmlookup (kind_ids g) (e_kind e)) = i \<longleftrightarrow> e_kind e = k" if "fmlookup (edges g) (e_id e) = Some e" for e
        using D(3) [OF that] D(2) id by (auto simp: interned_def fmlookup_dom_iff)
      have "y \<in> set (neighbor_ids g x dir kind) \<longleftrightarrow>
          (\<exists>a \<in> set (for_each_incident g x dir). a_neighbor_id a = y \<and> a_kind_id a = i) \<and> y \<noteq> x"
        using push by (auto simp: neighbor_ids_def Some kind_id_of_def id of_kind_filter [OF assms])
      then show ?thesis
        unfolding inc using same by (auto simp: Some kind_matches_def)
    qed
  qed
  then show "set (neighbor_ids g x dir kind) =
      {y. \<exists>e. fmlookup (edges g) (e_id e) = Some e \<and> kind_matches kind e \<and> incident dir x e y \<and> y \<noteq> x}"
    by blast
qed

text \<open>C18.
  The neighbour query of the engine answers exactly what the stored relationships say: the other ends of the
  relationships of the asked kind (or of any) that leave, enter or touch the node, each once, without the
  node itself. The kind-filtered query gets them by binary search in the sorted adjacency list and by an
  interned kind number, the unfiltered one by a scan.\<close>

theorem neighbor_ids_exact:
  assumes "graph_inv J g"
  shows "set (neighbor_ids g x dir kind) =
      {y. y \<noteq> x \<and> (\<exists>i e. fmlookup (edges g) i = Some e \<and> kind_matches kind e \<and> incident dir x e y)} \<and>
    distinct (neighbor_ids g x dir kind)"
proof -
  have inv: "edges_inv g"
    using assms by (simp add: graph_inv_def)
  have "(\<exists>i. fmlookup (edges g) i = Some e) \<longleftrightarrow> fmlookup (edges g) (e_id e) = Some e" for e
    using edges_invD(3) [OF inv] by auto
  then show ?thesis
    unfolding neighbor_ids_set(1) [OF inv] using neighbor_ids_set(2) [OF inv] by blast
qed

definition ex_graph :: "string option inner" where
  "ex_graph = live_run ex_json (take 6 ex_live)"

lemma ex_graph_inv: "graph_inv ex_json ex_graph" "endpoints_ok ex_graph" "room 1 ex_graph"
proof -
  have "room (6 + 1) (inner_default :: string option inner)"
    by (simp add: room_def inner_default_def fcard.rep_eq)
  moreover have "\<forall>op \<in> set (take 6 ex_live). live_time op + int (6 + 1) \<le> i64_max" "length (take 6 ex_live) = 6"
    by (simp_all add: ex_live_def ex_env_def)
  moreover have "endpoints_ok (inner_default :: string option inner)"
    by (simp add: endpoints_ok_def inner_default_def)
  ultimately show "graph_inv ex_json ex_graph" "endpoints_ok ex_graph" "room 1 ex_graph"
    using live_fold [OF graph_inv_default, of "take 6 ex_live" 1 ex_json] by (simp_all add: ex_graph_def live_run_def)
qed

theorem neighbor_ids_exact_witness:
  "graph_inv ex_json ex_graph \<and> neighbor_ids ex_graph 1 Both (Some ''r'') = [2, 3] \<and>
   set (neighbor_ids ex_graph 2 Both None) =
     {y. y \<noteq> 2 \<and> (\<exists>i e. fmlookup (edges ex_graph) i = Some e \<and> kind_matches None e \<and> incident Both 2 e y)}"
proof -
  have "neighbor_ids ex_graph 1 Both (Some ''r'') = [2, 3]"
    by code_simp
  with neighbor_ids_exact [OF ex_graph_inv(1), of 2 Both None] ex_graph_inv(1) show ?thesis
    by blast
qed

section \<open>Deleting a node\<close>

text \<open>Shown too.
  Deleting a node removes it, its embedding and exactly the relationships that touch it, and nothing else;
  afterwards nothing refers to it: it is in no answer of any neighbour query. A missing node is an error
  that changes nothing.\<close>

theorem delete_node_cascades:
  assumes "graph_inv J g"
  shows "if i |\<in>| fmdom (nodes g)
    then fst (delete_node J g i) = Inr () \<and>
      nodes (snd (delete_node J g i)) = fmdrop i (nodes g) \<and>
      embeddings (snd (delete_node J g i)) = fmdrop i (embeddings g) \<and>
      edges (snd (delete_node J g i)) = fmfilter (\<lambda>j. \<exists>e. fmlookup (edges g) j = Some e \<and> e_from e \<noteq> i \<and> e_to e \<noteq> i) (edges g) \<and>
      (\<forall>x dir kind. x \<noteq> i \<longrightarrow> i \<notin> set (neighbor_ids (snd (delete_node J g i)) x dir kind)) \<and>
      (\<forall>dir kind. neighbor_ids (snd (delete_node J g i)) i dir kind = [])
    else delete_node J g i = (Inl (NodeNotFound i), g)"
proof (cases "fmlookup (nodes g) i")
  case None
  then show ?thesis
    by (simp add: delete_node_def fmlookup_dom_iff)
next
  case (Some n)
  let ?g = "snd (delete_node J g i)"
  have inv: "edges_inv g" and inv': "edges_inv ?g"
    using assms delete_node_inv [OF assms] by (simp_all add: graph_inv_def)
  have d: "delete_node J g i = (Inr (), drop_node J g n i)"
    by (simp add: delete_node_def Some)
  have e: "fmlookup (edges ?g) j = Some e \<longleftrightarrow> fmlookup (edges g) j = Some e \<and> e_from e \<noteq> i \<and> e_to e \<noteq> i" for j e
    by (auto simp: d drop_node_edges [OF inv] split: option.splits)
  have "edges ?g = fmfilter (\<lambda>j. \<exists>e. fmlookup (edges g) j = Some e \<and> e_from e \<noteq> i \<and> e_to e \<noteq> i) (edges g)"
  proof (rule fmap_ext)
    fix j
    show "fmlookup (edges ?g) j =
        fmlookup (fmfilter (\<lambda>j. \<exists>e. fmlookup (edges g) j = Some e \<and> e_from e \<noteq> i \<and> e_to e \<noteq> i) (edges g)) j"
      by (cases "fmlookup (edges g) j") (auto simp: d drop_node_edges [OF inv])
  qed
  moreover have "set (neighbor_ids ?g x dir kind) \<subseteq> - {i}" "neighbor_ids ?g i dir kind = []" for x dir kind
  proof -
    show "set (neighbor_ids ?g x dir kind) \<subseteq> - {i}"
      unfolding neighbor_ids_set(1) [OF inv'] by (auto simp: e incident_def)
    have "set (neighbor_ids ?g i dir kind) = {}"
      unfolding neighbor_ids_set(1) [OF inv'] by (auto simp: e incident_def)
    then show "neighbor_ids ?g i dir kind = []" by simp
  qed
  ultimately show ?thesis
    using Some by (auto simp: d drop_node_def Let_def intro: fmdomI)
qed

theorem delete_node_cascades_witness:
  "graph_inv ex_json ex_graph \<and> 2 |\<in>| fmdom (nodes ex_graph) \<and>
   map e_id (all_edges ex_graph) = [1, 2, 3] \<and> map e_id (all_edges (snd (delete_node ex_json ex_graph 2))) = [3] \<and>
   neighbor_ids (snd (delete_node ex_json ex_graph 2)) 2 Both None = []"
proof -
  have "2 |\<in>| fmdom (nodes ex_graph)" "map e_id (all_edges ex_graph) = [1, 2, 3]"
    "map e_id (all_edges (snd (delete_node ex_json ex_graph 2))) = [3]"
    by code_simp+
  with delete_node_cascades [OF ex_graph_inv(1), of 2] ex_graph_inv(1) show ?thesis
    by presburger
qed

section \<open>Uniqueness\<close>

definition unique_holds :: "'j json_lib \<Rightarrow> 'j inner \<Rightarrow> bool" where
  "unique_holds J g \<longleftrightarrow>
     (\<forall>key v i j n m. key |\<in>| fmdom (unique g) \<and> fmlookup (nodes g) i = Some n \<and> fmlookup (nodes g) j = Some m \<and>
        tuple_val J key n = Some v \<and> tuple_val J key m = Some v \<longrightarrow> i = j)"

definition value_free :: "'j json_lib \<Rightarrow> 'j node \<Rightarrow> string \<times> string list \<Rightarrow> (string, u64 fset) fmap \<Rightarrow> bool" where
  "value_free J n key vals \<longleftrightarrow>
     (\<forall>k s i. tuple_val J key n = Some k \<and> fmlookup vals k = Some s \<and> i |\<in>| s \<longrightarrow> i = n_id n)"

lemma first_unique_violation_None:
  "first_unique_violation J n us = None \<longleftrightarrow> list_all (\<lambda>u. value_free J n (fst u) (snd u)) us"
proof (induction us)
  case (Cons u us)
  obtain label ps vals where u: "u = ((label, ps), vals)"
    by (cases u) auto
  show ?case
  proof (cases "tuple_val J (label, ps) n")
    case None
    then have "first_unique_violation J n (u # us) = first_unique_violation J n us" "value_free J n (label, ps) vals"
      by (auto simp: u tuple_val_def value_free_def split: if_splits)
    with Cons.IH show ?thesis by (simp add: u)
  next
    case (Some k)
    then have l: "has_label J n label" and t: "tuple_key J n ps = Some k"
      by (auto simp: tuple_val_def split: if_splits)
    let ?o = "case fmlookup vals k of None \<Rightarrow> None | Some s \<Rightarrow> List.find (\<lambda>other. other \<noteq> n_id n) (sorted_list_of_fset s)"
    have "?o = None \<longleftrightarrow> value_free J n (label, ps) vals"
      by (auto simp: find_None_iff value_free_def Some split: option.split)
    then show ?thesis
      using Cons.IH l t by (cases ?o) (simp_all add: u)
  qed
qed simp

lemma check_unique_iff:
  assumes "nodes_inv J g"
  shows "check_unique J g n = Inr () \<longleftrightarrow>
    (\<forall>key v j m. key |\<in>| fmdom (unique g) \<and> fmlookup (nodes g) j = Some m \<and> tuple_val J key n = Some v \<and>
       tuple_val J key m = Some v \<longrightarrow> j = n_id n)"
proof -
  have post: "postings (fmlookup vals) (\<lambda>i. Option.bind (fmlookup (nodes g) i) (tuple_val J key))"
    if "fmlookup (unique g) key = Some vals" for key vals
    using assms that unfolding nodes_inv_def unique_ok_def by blast
  have mem: "(\<exists>s. fmlookup vals v = Some s \<and> j |\<in>| s) \<longleftrightarrow> (\<exists>m. fmlookup (nodes g) j = Some m \<and> tuple_val J key m = Some v)"
    if "fmlookup (unique g) key = Some vals" for key vals v j
    using postings_mem [OF post [OF that], where k = v and i = j] by (auto split: option.splits simp: bind_eq_Some_conv)
  have "check_unique J g n = Inr () \<longleftrightarrow> first_unique_violation J n (sorted_list_of_fmap (unique g)) = None"
    by (simp add: check_unique_def split: option.split)
  also have "\<dots> \<longleftrightarrow> (\<forall>key vals. fmlookup (unique g) key = Some vals \<longrightarrow> value_free J n key vals)"
    unfolding first_unique_violation_None list_all_iff sorted_list_of_fmap_def
    by (force simp: fmlookup_dom_iff intro: fmdomI)
  also have "\<dots> \<longleftrightarrow> (\<forall>key vals v j. fmlookup (unique g) key = Some vals \<and> tuple_val J key n = Some v \<and>
      (\<exists>s. fmlookup vals v = Some s \<and> j |\<in>| s) \<longrightarrow> j = n_id n)"
    unfolding value_free_def by blast
  also have "\<dots> \<longleftrightarrow> (\<forall>key vals v j. fmlookup (unique g) key = Some vals \<and> tuple_val J key n = Some v \<and>
      (\<exists>m. fmlookup (nodes g) j = Some m \<and> tuple_val J key m = Some v) \<longrightarrow> j = n_id n)"
    using mem by blast
  also have "\<dots> \<longleftrightarrow> (\<forall>key v j m. key |\<in>| fmdom (unique g) \<and> fmlookup (nodes g) j = Some m \<and> tuple_val J key n = Some v \<and>
       tuple_val J key m = Some v \<longrightarrow> j = n_id n)"
    unfolding fmlookup_dom_iff by blast
  finally show ?thesis .
qed

section \<open>Validation of the declared constraints\<close>

definition required :: "schema_constraint \<Rightarrow> (string \<times> string list) option" where
  "required c = (case c of PropertyExists kind p \<Rightarrow> Some (kind, [p]) | NodeKey kind ps \<Rightarrow> Some (kind, ps) | _ \<Rightarrow> None)"

definition present :: "'j json_lib \<Rightarrow> 'j node \<Rightarrow> schema_constraint \<Rightarrow> bool" where
  "present J n c \<longleftrightarrow>
     (\<forall>kind ps p. required c = Some (kind, ps) \<and> has_label J n kind \<and> p \<in> set ps \<longrightarrow> unique_key J n p \<noteq> None)"

definition no_duplicate :: "'j json_lib \<Rightarrow> (u64 \<Rightarrow> 'j node option) \<Rightarrow> string \<times> string list \<Rightarrow> bool" where
  "no_duplicate J N key \<longleftrightarrow>
     (\<forall>i j n m v. N i = Some n \<and> N j = Some m \<and> tuple_val J key n = Some v \<and> tuple_val J key m = Some v \<longrightarrow> i = j)"

definition satisfied :: "'j json_lib \<Rightarrow> (u64 \<Rightarrow> 'j node option) \<Rightarrow> schema_constraint \<Rightarrow> bool" where
  "satisfied J N c \<longleftrightarrow> (\<forall>i n. N i = Some n \<longrightarrow> present J n c) \<and> (\<forall>key. unique_tuple c = Some key \<longrightarrow> no_duplicate J N key)"

lemma first_missing_None: "first_missing J n cs = None \<longleftrightarrow> list_all (present J n) cs"
proof (induction cs)
  case (Cons c cs)
  show ?case
  proof (cases "required c")
    case None
    then show ?thesis
      using Cons.IH by (cases c) (auto simp: required_def present_def)
  next
    case (Some kp)
    then obtain kind ps where kp: "required c = Some (kind, ps)" by (cases kp) auto
    then have eq: "first_missing J n (c # cs) =
        (if \<not> has_label J n kind then first_missing J n cs
         else case List.find (\<lambda>p. unique_key J n p = None) ps of
                Some missing \<Rightarrow> Some \<lparr>cv_kind = kind, cv_message = MissingProperty (n_id n) missing\<rparr>
              | None \<Rightarrow> first_missing J n cs)"
      by (cases c) (auto simp: required_def simp del: find.simps)
    have "present J n c \<longleftrightarrow> (has_label J n kind \<longrightarrow> List.find (\<lambda>p. unique_key J n p = None) ps = None)"
      by (auto simp: present_def kp find_None_iff)
    then show ?thesis
      unfolding eq using Cons.IH by (auto split: option.split)
  qed
qed simp

lemma check_exists_iff: "check_exists J g n = Inr () \<longleftrightarrow> list_all (present J n) (constraints g)"
  by (simp add: check_exists_def first_missing_None [symmetric] split: option.split)

lemma duplicate_in_None:
  "duplicate_in J ps seen ns = None \<longleftrightarrow>
     distinct (List.map_filter (\<lambda>n. tuple_key J n ps) ns) \<and> set (List.map_filter (\<lambda>n. tuple_key J n ps) ns) \<inter> fset seen = {}"
  by (induction J ps seen ns rule: duplicate_in.induct) (auto simp: List.map_filter_simps split: option.split)

lemma distinct_map_filter_iff:
  "distinct ks \<Longrightarrow> distinct (List.map_filter f ks) \<longleftrightarrow>
     (\<forall>i j v. i \<in> set ks \<and> j \<in> set ks \<and> f i = Some v \<and> f j = Some v \<longrightarrow> i = j)"
proof (induction ks)
  case (Cons k ks)
  have mem: "v \<in> set (List.map_filter f ks) \<longleftrightarrow> (\<exists>j \<in> set ks. f j = Some v)" for v
    by (force simp: List.map_filter_def)
  show ?case
  proof (cases "f k")
    case None
    then show ?thesis
      using Cons by (auto simp: List.map_filter_simps)
  next
    case (Some w)
    then have "distinct (List.map_filter f (k # ks)) \<longleftrightarrow> (\<nexists>j. j \<in> set ks \<and> f j = Some w) \<and> distinct (List.map_filter f ks)"
      using mem [of w] by (auto simp: List.map_filter_simps)
    then show ?thesis
      using Cons Some by fastforce
  qed
qed simp

lemma no_duplicate_iff:
  "duplicate_in J ps {||} (filter (\<lambda>n. has_label J n kind) (fm_values m)) = None \<longleftrightarrow> no_duplicate J (fmlookup m) (kind, ps)"
proof -
  let ?f = "\<lambda>i. Option.bind (fmlookup m i) (tuple_val J (kind, ps))"
  have "List.map_filter (\<lambda>n. tuple_key J n ps) (filter (\<lambda>n. has_label J n kind) ns) = List.map_filter (tuple_val J (kind, ps)) ns" for ns
    by (induction ns) (auto simp: List.map_filter_simps tuple_val_def split: option.split)
  moreover have "List.map_filter (tuple_val J (kind, ps)) (fm_values m) = List.map_filter ?f (sorted_list_of_fset (fmdom m))"
  proof -
    have "List.map_filter (tuple_val J (kind, ps)) (map (\<lambda>k. the (fmlookup m k)) ks) = List.map_filter ?f ks"
      if "\<forall>k \<in> set ks. k |\<in>| fmdom m" for ks
      using that by (induction ks) (auto simp: List.map_filter_simps fmlookup_dom_iff split: option.split)
    from this [of "sorted_list_of_fset (fmdom m)"] show ?thesis
      by (simp add: sorted_list_of_fmap_def comp_def)
  qed
  ultimately show ?thesis
    by (auto simp: duplicate_in_None distinct_map_filter_iff no_duplicate_def fmlookup_dom_iff bind_eq_Some_conv)
qed

lemma first_duplicate_None:
  "first_duplicate J (fm_values m) cs = None \<longleftrightarrow>
     list_all (\<lambda>c. \<forall>key. unique_tuple c = Some key \<longrightarrow> no_duplicate J (fmlookup m) key) cs"
proof (induction cs)
  case (Cons c cs)
  show ?case
  proof (cases "unique_tuple c")
    case (Some kp)
    obtain kind ps where kp: "kp = (kind, ps)" by (cases kp)
    show ?thesis
      using Cons.IH no_duplicate_iff [of J ps kind m] by (auto simp: Some kp split: option.splits)
  qed (use Cons.IH in simp)
qed simp

lemma first_unmet_None: "first_unmet J g ns = None \<longleftrightarrow> list_all (\<lambda>n. check_exists J g n = Inr ()) ns"
  by (induction ns) (auto split: sum.splits)

lemma validate_iff:
  "validate_constraints J g = Inr () \<longleftrightarrow> list_all (satisfied J (fmlookup (nodes g))) (constraints g)"
proof -
  have nodes: "list_all P (fm_values (nodes g)) \<longleftrightarrow> (\<forall>i n. fmlookup (nodes g) i = Some n \<longrightarrow> P n)" for P
    by (force simp: list_all_iff sorted_list_of_fmap_def fmlookup_dom_iff intro: fmdomI)
  have "validate_constraints J g = Inr () \<longleftrightarrow> first_unmet J g (fm_values (nodes g)) = None \<and>
      first_duplicate J (fm_values (nodes g)) (constraints g) = None"
    by (auto simp: validate_constraints_def split: option.split)
  also have "\<dots> \<longleftrightarrow> list_all (satisfied J (fmlookup (nodes g))) (constraints g)"
    unfolding first_unmet_None first_duplicate_None check_exists_iff nodes
    by (auto simp: list_all_iff satisfied_def)
  finally show ?thesis .
qed

text \<open>Shown too.
  Validation of the declared constraints, which runs before a constraint is accepted and at every commit,
  passes exactly when they hold: every node of a label has the properties its existence and key constraints
  require, and no two nodes of a label share a unique tuple.\<close>

theorem validate_constraints_exact:
  "validate_constraints J g = Inr () \<longleftrightarrow> list_all (satisfied J (fmlookup (nodes g))) (constraints g)"
  by (rule validate_iff)

text \<open>Shown too.
  The uniqueness check of a node write, which looks the node's value tuple up in the engine's lookups, passes
  exactly when no other node of the label has the same tuple, for every tuple a constraint keeps unique.\<close>

theorem check_unique_exact:
  assumes "graph_inv J g"
  shows "check_unique J g n = Inr () \<longleftrightarrow>
    (\<forall>key v j m. key |\<in>| fmdom (unique g) \<and> fmlookup (nodes g) j = Some m \<and> tuple_val J key n = Some v \<and>
       tuple_val J key m = Some v \<longrightarrow> j = n_id n)"
  using assms by (intro check_unique_iff) (simp add: graph_inv_def)

lemma sync_unique_graph_inv:
  assumes "graph_inv J g"
  shows "graph_inv J (sync_unique J (g\<lparr>constraints := cs\<rparr>))"
proof -
  let ?h = "g\<lparr>constraints := cs\<rparr>"
  have inv: "nodes_inv J ?h"
    using assms by (simp add: graph_inv_def nodes_inv_def)
  obtain u where u: "sync_unique J ?h = ?h\<lparr>unique := u\<rparr>"
    using sync_unique_ok(3) [OF inv] by blast
  have "unique_ok J u (fmlookup (nodes g))"
    using sync_unique_ok(1) [OF inv] unfolding u by simp
  then show ?thesis
    using assms unfolding u by (simp add: graph_inv_def nodes_inv_def edges_inv_def)
qed

lemma synced_unique_holds:
  assumes "nodes_inv J g" and "validate_constraints J g = Inr ()"
  shows "unique_holds J (sync_unique J g)"
proof -
  obtain u where u: "sync_unique J g = g\<lparr>unique := u\<rparr>"
    using sync_unique_ok(3) [OF assms(1)] by blast
  have "no_duplicate J (fmlookup (nodes g)) key" if "key |\<in>| fmdom (unique (sync_unique J g))" for key
  proof -
    from that sync_unique_ok(2) [OF assms(1)] obtain c where "c \<in> set (constraints g)" "unique_tuple c = Some key"
      by (force simp: List.map_filter_def)
    with assms(2) show ?thesis
      unfolding validate_iff list_all_iff satisfied_def by blast
  qed
  then show ?thesis
    unfolding unique_holds_def no_duplicate_def u by (simp, blast)
qed

definition ex_uniq :: "string option inner" where
  "ex_uniq = sync_unique ex_json (ex_graph\<lparr>constraints := [UniqueNodeProperty ''B'' ''title'']\<rparr>)"

lemma ex_uniq_inv: "graph_inv ex_json ex_uniq" "unique_holds ex_json ex_uniq" "room 1 ex_uniq"
proof -
  show "graph_inv ex_json ex_uniq"
    unfolding ex_uniq_def by (rule sync_unique_graph_inv [OF ex_graph_inv(1)])
  have "nodes_inv ex_json (ex_graph\<lparr>constraints := [UniqueNodeProperty ''B'' ''title'']\<rparr>)"
    using ex_graph_inv(1) by (simp add: graph_inv_def nodes_inv_def)
  moreover have "validate_constraints ex_json (ex_graph\<lparr>constraints := [UniqueNodeProperty ''B'' ''title'']\<rparr>) = Inr ()"
    by code_simp
  ultimately show "unique_holds ex_json ex_uniq"
    unfolding ex_uniq_def by (rule synced_unique_holds)
  have "nodes_inv ex_json (ex_graph\<lparr>constraints := [UniqueNodeProperty ''B'' ''title'']\<rparr>)"
    using ex_graph_inv(1) by (simp add: graph_inv_def nodes_inv_def)
  from sync_unique_ok(3) [OF this] obtain u where
    u: "ex_uniq = ex_graph\<lparr>constraints := [UniqueNodeProperty ''B'' ''title''], unique := u\<rparr>"
    by (auto simp: ex_uniq_def)
  show "room 1 ex_uniq"
    unfolding u using ex_graph_inv(3) by (simp add: room_def)
qed

theorem check_unique_exact_witness:
  "graph_inv ex_json ex_uniq \<and> check_unique ex_json ex_uniq (into_node (ex_env 9) (ex_new ''B'' ''y'') 9) \<noteq> Inr () \<and>
   (\<exists>key v j m. key |\<in>| fmdom (unique ex_uniq) \<and> fmlookup (nodes ex_uniq) j = Some m \<and>
      tuple_val ex_json key (into_node (ex_env 9) (ex_new ''B'' ''y'') 9) = Some v \<and> tuple_val ex_json key m = Some v \<and> j \<noteq> 9)"
proof -
  let ?n = "into_node (ex_env 9) (ex_new ''B'' ''y'') 9"
  have "check_unique ex_json ex_uniq ?n \<noteq> Inr ()"
    by code_simp
  moreover have "n_id ?n = 9"
    by (simp add: into_node_def)
  ultimately show ?thesis
    using check_unique_exact [OF ex_uniq_inv(1), of ?n] ex_uniq_inv(1) by metis
qed

text \<open>The keys of the lookups only change with the constraints.\<close>

lemma unique_dom [simp]:
  "fmdom (unique (index_unique J n g)) = fmdom (unique g)" "fmdom (unique (unindex_unique J n g)) = fmdom (unique g)"
  by (auto simp: fset_eq_iff fmlookup_dom_iff index_unique_lookup)

lemma reindex_unique_dom [simp]: "fmdom (unique (reindex J i old n g)) = fmdom (unique g)"
  by (simp add: reindex_def Let_def)

lemma live_step_unique_dom: "fmdom (unique (live_step J g op)) = fmdom (unique g)"
proof (cases op)
  case (LiveCreateNode env nn r)
  show ?thesis
    by (cases rule: create_node_cases [of J env g nn r]) (auto simp: LiveCreateNode with_node_def Let_def)
next
  case (LiveUpdateNode env i p r)
  show ?thesis
    by (cases rule: update_node_cases [of g i J env p r]) (auto simp: LiveUpdateNode)
next
  case (LiveCreateEdge env ne)
  show ?thesis
    by (cases rule: create_edge_cases [of env g ne]) (auto simp: LiveCreateEdge)
next
  case (LiveUpdateEdge i p)
  show ?thesis
    by (cases rule: update_edge_cases [of g i p]) (auto simp: LiveUpdateEdge)
qed (auto simp: delete_node_def drop_node_def delete_edge_def Let_def split: option.split)

text \<open>What a live write does to the node table: it may add or replace one checked node, or drop one.\<close>

lemma live_step_nodes:
  assumes "nodes_inv J g" and "last_node (ids g) \<noteq> u64_max"
  obtains (same) "nodes (live_step J g op) = nodes g"
  | (put) n where "nodes (live_step J g op) = fmupd (n_id n) n (nodes g)" "check_unique J g n = Inr ()"
  | (dropped) i where "nodes (live_step J g op) = fmdrop i (nodes g)"
proof (cases op)
  case (LiveCreateNode env nn r)
  have cu: "check_unique J (snd (next_node g)) n = check_unique J g n" for n
    by (simp add: check_unique_def)
  show thesis
    by (cases rule: create_node_cases [of J env g nn r])
      (use same put cu in \<open>auto simp: LiveCreateNode with_node_def Let_def\<close>)
next
  case (LiveUpdateNode env i p r)
  show thesis
  proof (cases rule: update_node_cases [of g i J env p r])
    case (updated old n)
    have id: "n_id n = i"
      using nodes_invD(1) [OF assms(1) updated(1)] updated(2) by simp
    have "check_unique J g n = Inr ()"
      using updated(2,3) unfolding check_unique_iff [OF assms(1)] by simp
    with updated id show thesis
      by (intro put [of n]) (simp_all add: LiveUpdateNode)
  qed (use same in \<open>auto simp: LiveUpdateNode\<close>)
next
  case (LiveDeleteNode i)
  show thesis
    by (cases "fmlookup (nodes g) i")
      (use same dropped [of i] in \<open>auto simp: LiveDeleteNode delete_node_def drop_node_def Let_def\<close>)
next
  case (LiveCreateEdge env ne)
  show thesis
    by (cases rule: create_edge_cases [of env g ne]) (use same in \<open>auto simp: LiveCreateEdge\<close>)
next
  case (LiveUpdateEdge i p)
  show thesis
    by (cases rule: update_edge_cases [of g i p]) (use same in \<open>auto simp: LiveUpdateEdge\<close>)
next
  case (LiveDeleteEdge i)
  show thesis
    by (rule same) (auto simp: LiveDeleteEdge delete_edge_def)
qed

text \<open>C19.
  Declared uniqueness is kept by every live write: if no two nodes share a value tuple under the declared
  tuples, no write, whatever its arguments, leads to a state where two do, and none changes the set of
  declared tuples.\<close>

theorem uniqueness_kept:
  assumes "graph_inv J g" and "room 1 g" and "unique_holds J g"
  shows "unique_holds J (live_step J g op) \<and> fmdom (unique (live_step J g op)) = fmdom (unique g)"
proof -
  have inv: "nodes_inv J g" and lt: "last_node (ids g) \<noteq> u64_max"
    using assms(1) room_succ(1) [of 0 g] assms(2) by (simp_all add: graph_inv_def)
  have "unique_holds J (live_step J g op)"
  proof (cases rule: live_step_nodes [OF inv lt, of op, case_names same put dropped])
    case (put n)
    have "j = n_id n" if "key |\<in>| fmdom (unique g)" "fmlookup (nodes g) j = Some m"
      "tuple_val J key n = Some v" "tuple_val J key m = Some v" for key v j m
      using put(2) that unfolding check_unique_iff [OF inv] by blast
    then show ?thesis
      using assms(3) unfolding unique_holds_def live_step_unique_dom put(1) fmupd_lookup
      by (metis option.inject)
  qed (use assms(3) in \<open>auto simp: unique_holds_def live_step_unique_dom\<close>)
  with live_step_unique_dom show ?thesis by blast
qed

theorem uniqueness_kept_witness:
  "graph_inv ex_json ex_uniq \<and> room 1 ex_uniq \<and> unique_holds ex_json ex_uniq \<and>
   unique_holds ex_json (live_step ex_json ex_uniq (LiveUpdateNode (ex_env 9) 2 (ex_title ''q'') True))"
  using uniqueness_kept [OF ex_uniq_inv(1,3,2)] ex_uniq_inv by blast

section \<open>Recency\<close>

lemma sort_key_last:
  assumes "x \<in> set xs" and "\<And>y. y \<in> set xs \<Longrightarrow> y \<noteq> x \<Longrightarrow> f y < f x"
  shows "last (sort_key f xs) = x"
proof -
  let ?s = "sort_key f xs"
  have ne: "?s \<noteq> []"
    using assms(1) by (metis empty_iff empty_set set_sort)
  have "sorted (map f (butlast ?s @ [last ?s]))"
    unfolding append_butlast_last_id [OF ne] by simp
  then have "\<forall>y \<in> set (butlast ?s). f y \<le> f (last ?s)"
    unfolding map_append sorted_append by simp
  moreover have "set ?s = insert (last ?s) (set (butlast ?s))"
    using append_butlast_last_id [OF ne] by (metis list.simps(15) rotate1.simps(2) set_rotate1)
  ultimately have "f x \<le> f (last ?s)"
    using assms(1) by (metis insertE order_refl set_sort)
  moreover have "last ?s \<in> set xs"
    using ne by (metis last_in_set set_sort)
  ultimately show ?thesis
    using assms(2) [of "last ?s"] by (metis leD)
qed

text \<open>Shown too.
  A successful update gives the node a timestamp greater than that of every other node, whatever the wall
  clock says, so the node comes first in the list of recent nodes.\<close>

theorem update_is_most_recent:
  assumes "graph_inv J g" and "room 1 g" and "update_node_checked J env g i patch require = (Inr n, g')"
    and "0 < limit"
  shows "fmlookup (nodes g') i = Some n \<and>
    (\<forall>j m. fmlookup (nodes g') j = Some m \<and> j \<noteq> i \<longrightarrow> n_updated_at m < n_updated_at n) \<and>
    hd (list_recent g' limit) = n"
proof (cases rule: update_node_cases [of g i J env patch require])
  case (updated old n')
  have inv: "nodes_inv J g"
    using assms(1) by (simp add: graph_inv_def)
  have n: "n = n'" and g': "nodes g' = fmupd i n (nodes g)"
    using assms(3) updated(5) by auto
  have ts: "n_updated_at n = max (now_ms env) (last_updated_at g + 1)"
    using room_succ(5) [of 0 g] assms(2) updated(2) n by simp
  have lt: "n_updated_at m < n_updated_at n" if "fmlookup (nodes g') j = Some m" "j \<noteq> i" for j m
    using nodes_invD(1) [OF inv, of j m] that by (auto simp: g' ts)
  have vals: "set (fm_values (nodes g')) = {m. \<exists>j. fmlookup (nodes g') j = Some m}"
    by (force simp: sorted_list_of_fmap_def fmlookup_dom_iff intro: fmdomI)
  let ?f = "\<lambda>n :: 'a node. (n_updated_at n, n_id n)"
  have "last (sort_key ?f (fm_values (nodes g'))) = n"
  proof (rule sort_key_last)
    show "n \<in> set (fm_values (nodes g'))"
      unfolding vals by (auto simp: g')
    show "?f m < ?f n" if m: "m \<in> set (fm_values (nodes g'))" "m \<noteq> n" for m
    proof -
      from m(1) obtain j where "fmlookup (nodes g') j = Some m"
        unfolding vals by blast
      with m(2) have "j \<noteq> i"
        by (auto simp: g')
      with lt [of j m] \<open>fmlookup (nodes g') j = Some m\<close> show ?thesis by simp
    qed
  qed
  moreover have "n \<in> set (fm_values (nodes g'))"
    unfolding vals by (auto simp: g')
  then have "fm_values (nodes g') \<noteq> []"
    by (metis empty_iff empty_set)
  ultimately have "hd (list_recent g' limit) = n"
    using assms(4) by (cases limit) (simp_all add: list_recent_def hd_rev hd_take)
  with lt show ?thesis
    by (simp add: g')
qed (use assms(3) in auto)

theorem update_is_most_recent_witness:
  "graph_inv ex_json ex_graph \<and> room 1 ex_graph \<and>
   hd (list_recent (snd (update_node_checked ex_json (ex_env 0) ex_graph 1 (ex_title ''q'') True)) 2) =
     projr (fst (update_node_checked ex_json (ex_env 0) ex_graph 1 (ex_title ''q'') True))"
proof -
  let ?u = "update_node_checked ex_json (ex_env 0) ex_graph 1 (ex_title ''q'') True"
  have "case fst ?u of Inl _ \<Rightarrow> False | Inr _ \<Rightarrow> True"
    by code_simp
  then obtain n where "fst ?u = Inr n"
    by (cases "fst ?u") auto
  then have "?u = (Inr n, snd ?u)"
    by (metis prod.collapse)
  from update_is_most_recent [OF ex_graph_inv(1,3) this, of 2] \<open>fst ?u = Inr n\<close> ex_graph_inv(1,3) show ?thesis
    by simp
qed

section \<open>Index reads\<close>

text \<open>The reference reading: the nodes in id order, filtered.\<close>

lemma all_nodes_eq:
  assumes "nodes_inv J g"
  shows "all_nodes g = fm_values (nodes g)"
  unfolding all_nodes_def using nodes_invD(1) [OF assms] by (intro fm_values_keyed(3)) blast

lemma sorted_filter_unique:
  assumes "set xs = {x \<in> set ys. P x}" and "sorted xs" "distinct xs" and "sorted ys" "distinct ys"
  shows "xs = filter P ys"
  using assms by (intro sorted_distinct_set_unique) (auto intro: sorted_filter [where f = id, simplified])

lemma index_read:
  assumes inv: "nodes_inv J g" and xs: "sorted xs" "distinct xs"
    and mem: "\<And>i. i \<in> set xs \<longleftrightarrow> (\<exists>n. fmlookup (nodes g) i = Some n \<and> P n)"
  shows "map (\<lambda>i. the (fmlookup (nodes g) i)) xs = filter P (all_nodes g)"
    and "\<forall>i \<in> set xs. fmlookup (nodes g) i \<noteq> None"
proof -
  let ?f = "\<lambda>i. the (fmlookup (nodes g) i)"
  have "xs = filter (\<lambda>i. P (?f i)) (sorted_list_of_fset (fmdom (nodes g)))"
    using xs mem by (intro sorted_filter_unique) (auto simp: fmlookup_dom_iff)
  then have "map ?f xs = filter P (map ?f (sorted_list_of_fset (fmdom (nodes g))))"
    by (simp add: filter_map comp_def)
  also have "map ?f (sorted_list_of_fset (fmdom (nodes g))) = all_nodes g"
    unfolding all_nodes_eq [OF inv] by (simp add: sorted_list_of_fmap_def comp_def)
  finally show "map ?f xs = filter P (all_nodes g)" .
  show "\<forall>i \<in> set xs. fmlookup (nodes g) i \<noteq> None"
    using mem by auto
qed

lemma map_filter_total: "\<forall>i \<in> set xs. f i \<noteq> None \<Longrightarrow> List.map_filter f xs = map (\<lambda>i. the (f i)) xs"
  by (induction xs) (auto simp: List.map_filter_simps)

lemma nodes_by_kind_eq:
  assumes "nodes_inv J g"
  shows "nodes_by_kind g kind limit offset = take limit (drop offset (filter (\<lambda>n. n_kind n = kind) (all_nodes g)))"
proof -
  have post: "postings (fmlookup (kind_index g)) (\<lambda>i. map_option n_kind (fmlookup (nodes g) i))"
    using assms by (simp add: nodes_inv_def kinds_ok_def)
  let ?xs = "case fmlookup (kind_index g) kind of None \<Rightarrow> [] | Some s \<Rightarrow> sorted_list_of_fset s"
  have "i \<in> set ?xs \<longleftrightarrow> (\<exists>n. fmlookup (nodes g) i = Some n \<and> n_kind n = kind)" for i
    using postings_mem [OF post, where k = kind and i = i] by (auto split: option.splits)
  moreover have "sorted ?xs" "distinct ?xs"
    by (simp_all split: option.split)
  ultimately have read: "map (\<lambda>i. the (fmlookup (nodes g) i)) ?xs = filter (\<lambda>n. n_kind n = kind) (all_nodes g)"
      "\<forall>i \<in> set ?xs. fmlookup (nodes g) i \<noteq> None"
    using index_read [OF assms, of ?xs "\<lambda>n. n_kind n = kind"] by blast+
  have "nodes_by_kind g kind limit offset = List.map_filter (\<lambda>i. fmlookup (nodes g) i) (take limit (drop offset ?xs))"
    by (simp add: nodes_by_kind_def List.map_filter_simps split: option.split)
  also have "\<dots> = map (\<lambda>i. the (fmlookup (nodes g) i)) (take limit (drop offset ?xs))"
    using read(2) by (intro map_filter_total) (meson in_set_dropD in_set_takeD)
  finally show ?thesis
    unfolding read(1) [symmetric] by (simp add: take_map drop_map)
qed

lemma titles_read:
  assumes "nodes_inv J g"
  shows "nodes_by_title g title = filter (\<lambda>n. n_title n = title) (all_nodes g)"
    and "get_node_by_title g title = (case filter (\<lambda>n. n_title n = title) (all_nodes g) of [] \<Rightarrow> None | n # _ \<Rightarrow> Some n)"
proof -
  have post: "postings (\<lambda>t. map_option ids_of (fmlookup (titles g) t)) (\<lambda>i. map_option n_title (fmlookup (nodes g) i))"
    using assms by (simp add: nodes_inv_def titles_ok_def)
  let ?xs = "case fmlookup (titles g) title of None \<Rightarrow> [] | Some s \<Rightarrow> id_set_iter s"
  have "i \<in> set ?xs \<longleftrightarrow> (\<exists>n. fmlookup (nodes g) i = Some n \<and> n_title n = title)" for i
    using postings_mem [OF post, where k = title and i = i] by (auto simp: id_set_iter_facts split: option.splits)
  moreover have "sorted ?xs" "distinct ?xs"
    by (simp_all add: id_set_iter_facts split: option.split)
  ultimately have read: "map (\<lambda>i. the (fmlookup (nodes g) i)) ?xs = filter (\<lambda>n. n_title n = title) (all_nodes g)"
      "\<forall>i \<in> set ?xs. fmlookup (nodes g) i \<noteq> None"
    using index_read [OF assms, of ?xs "\<lambda>n. n_title n = title"] by blast+
  have "nodes_by_title g title = List.map_filter (\<lambda>i. fmlookup (nodes g) i) ?xs"
    by (simp add: nodes_by_title_def List.map_filter_simps split: option.split)
  also have "\<dots> = map (\<lambda>i. the (fmlookup (nodes g) i)) ?xs"
    using read(2) by (rule map_filter_total)
  finally show "nodes_by_title g title = filter (\<lambda>n. n_title n = title) (all_nodes g)"
    unfolding read(1) .
  have "get_node_by_title g title = (case ?xs of [] \<Rightarrow> None | i # _ \<Rightarrow> fmlookup (nodes g) i)"
    by (auto simp: get_node_by_title_def id_set_first_iter split: option.split list.split)
  also have "\<dots> = (case map (\<lambda>i. the (fmlookup (nodes g) i)) ?xs of [] \<Rightarrow> None | n # _ \<Rightarrow> Some n)"
    using read(2) by (cases ?xs) auto
  finally show "get_node_by_title g title = (case filter (\<lambda>n. n_title n = title) (all_nodes g) of [] \<Rightarrow> None | n # _ \<Rightarrow> Some n)"
    unfolding read(1) .
qed

text \<open>C20.
  The reads through the kind and the title index, and their pages, give what a scan of all nodes in id order
  gives: the index is an optimisation only.\<close>

theorem index_reads_as_scan:
  assumes "graph_inv J g"
  shows "nodes_by_kind g kind limit offset = take limit (drop offset (filter (\<lambda>n. n_kind n = kind) (all_nodes g))) \<and>
    nodes_by_title g title = filter (\<lambda>n. n_title n = title) (all_nodes g) \<and>
    get_node_by_title g title = (case filter (\<lambda>n. n_title n = title) (all_nodes g) of [] \<Rightarrow> None | n # _ \<Rightarrow> Some n)"
proof -
  have "nodes_inv J g"
    using assms by (simp add: graph_inv_def)
  from nodes_by_kind_eq [OF this] titles_read [OF this] show ?thesis
    by blast
qed

theorem index_reads_as_scan_witness:
  "graph_inv ex_json ex_graph \<and> map n_id (nodes_by_kind ex_graph ''A'' 1 1) = [3] \<and>
   nodes_by_kind ex_graph ''A'' 1 1 = take 1 (drop 1 (filter (\<lambda>n. n_kind n = ''A'') (all_nodes ex_graph)))"
proof -
  have "map n_id (nodes_by_kind ex_graph ''A'' 1 1) = [3]"
    by code_simp
  with index_reads_as_scan [OF ex_graph_inv(1), of "''A''" 1 1] ex_graph_inv(1) show ?thesis
    by blast
qed

end
