(* ===== verification/Conflict.thy ===== *)
theory Conflict
  imports Native_Model
begin

text \<open>
  Conflict sets and the commit history: \<^verbatim>\<open>src/drevo-core/src/conflict.rs\<close>. A conflict set says
  which records a batch of log operations wrote, deleted and depends on; the history keeps the sets of the
  most recent commits and tells a committing transaction whether one it did not see overlaps with it.
  \<open>HashSet\<close> is \<open>fset\<close>, \<open>VecDeque\<close> a list with the oldest commit first.

  Results: the overlap test is symmetric and means what its documentation says, and a classification over a
  history with consecutive sequence numbers is exact.
\<close>

section \<open>Conflict sets\<close>

datatype key = KNode u64 | KEdge u64

record conflict_set =
  cs_writes :: "key fset"
  cs_deletes :: "key fset"
  cs_deps :: "key fset"
  cs_everything :: bool

definition cs_default :: conflict_set where
  "cs_default = \<lparr>cs_writes = {||}, cs_deletes = {||}, cs_deps = {||}, cs_everything = False\<rparr>"

fun note_op :: "conflict_set \<Rightarrow> 'j wal_op \<Rightarrow> conflict_set" where
  "note_op s (UpsertNode n) = s\<lparr>cs_writes := finsert (KNode (n_id n)) (cs_writes s)\<rparr>"
| "note_op s (DeleteNode i) =
     s\<lparr>cs_writes := finsert (KNode i) (cs_writes s), cs_deletes := finsert (KNode i) (cs_deletes s)\<rparr>"
| "note_op s (UpsertEdge e) =
     s\<lparr>cs_writes := finsert (KEdge (e_id e)) (cs_writes s),
       cs_deps := finsert (KNode (e_to e)) (finsert (KNode (e_from e)) (cs_deps s))\<rparr>"
| "note_op s (DeleteEdge i) =
     s\<lparr>cs_writes := finsert (KEdge i) (cs_writes s), cs_deletes := finsert (KEdge i) (cs_deletes s)\<rparr>"
| "note_op s (SetEmbedding i v) = s\<lparr>cs_writes := finsert (KNode i) (cs_writes s)\<rparr>"
| "note_op s (DeleteEmbedding i) = s\<lparr>cs_writes := finsert (KNode i) (cs_writes s)\<rparr>"
| "note_op s (Prepare gid at pops) = s"
| "note_op s (CommitPrepared gid) = s"
| "note_op s (RollbackPrepared gid h) = s"

definition from_ops :: "'j wal_op list \<Rightarrow> conflict_set" where
  "from_ops ops = foldl note_op cs_default ops"

definition cs_node :: "u64 \<Rightarrow> conflict_set" where
  "cs_node i = from_ops [DeleteEmbedding i :: unit wal_op]"

definition cs_deleted_node :: "u64 \<Rightarrow> conflict_set" where
  "cs_deleted_node i = from_ops [DeleteNode i :: unit wal_op]"

definition cs_edge :: "u64 \<Rightarrow> u64 \<Rightarrow> u64 \<Rightarrow> conflict_set" where
  "cs_edge i from_id to_id =
     cs_default\<lparr>cs_writes := {|KEdge i|}, cs_deps := {|KNode to_id, KNode from_id|}\<rparr>"

definition cs_deleted_edge :: "u64 \<Rightarrow> conflict_set" where
  "cs_deleted_edge i = from_ops [DeleteEdge i :: unit wal_op]"

definition cs_extend :: "conflict_set \<Rightarrow> conflict_set \<Rightarrow> conflict_set" where
  "cs_extend s t =
     \<lparr>cs_writes = cs_writes s |\<union>| cs_writes t, cs_deletes = cs_deletes s |\<union>| cs_deletes t,
      cs_deps = cs_deps s |\<union>| cs_deps t, cs_everything = (cs_everything s \<or> cs_everything t)\<rparr>"

definition everything :: conflict_set where
  "everything = cs_default\<lparr>cs_everything := True\<rparr>"

definition cs_is_empty :: "conflict_set \<Rightarrow> bool" where
  "cs_is_empty s \<longleftrightarrow> \<not> cs_everything s \<and> cs_writes s = {||}"

definition intersects :: "conflict_set \<Rightarrow> conflict_set \<Rightarrow> bool" where
  "intersects s t =
     (if cs_everything s then \<not> cs_is_empty t
      else if cs_everything t then \<not> cs_is_empty s
      else fBex (cs_writes s) (\<lambda>k. k |\<in>| cs_writes t) \<or> fBex (cs_deps s) (\<lambda>k. k |\<in>| cs_deletes t) \<or>
           fBex (cs_deletes s) (\<lambda>k. k |\<in>| cs_deps t))"

section \<open>The commit history\<close>

datatype conflict_reason = Overlap | WouldPass | History

record commit_history =
  ch_recent :: "(u64 \<times> conflict_set) list"
  ch_capacity :: nat

definition DEFAULT_HISTORY :: nat where
  "DEFAULT_HISTORY = 10000"

definition with_capacity :: "nat \<Rightarrow> commit_history" where
  "with_capacity n = \<lparr>ch_recent = [], ch_capacity = n\<rparr>"

function pop_excess :: "nat \<Rightarrow> 'a list \<Rightarrow> 'a list" where
  "pop_excess n xs = (if length xs > n then pop_excess n (tl xs) else xs)"
  by pat_completeness auto
termination
  by (relation "measure (\<lambda>(n, xs). length xs)") auto

declare pop_excess.simps [simp del]

definition ch_trim :: "commit_history \<Rightarrow> commit_history" where
  "ch_trim h = h\<lparr>ch_recent := pop_excess (ch_capacity h) (ch_recent h)\<rparr>"

definition ch_set_capacity :: "commit_history \<Rightarrow> nat \<Rightarrow> commit_history" where
  "ch_set_capacity h n = ch_trim (h\<lparr>ch_capacity := n\<rparr>)"

definition ch_push :: "commit_history \<Rightarrow> u64 \<Rightarrow> conflict_set \<Rightarrow> commit_history" where
  "ch_push h n s = ch_trim (h\<lparr>ch_recent := ch_recent h @ [(n, s)]\<rparr>)"

definition classify :: "commit_history \<Rightarrow> u64 \<Rightarrow> conflict_set \<Rightarrow> conflict_reason" where
  "classify h base mine =
     (let covers = (case ch_recent h of [] \<Rightarrow> False | (oldest, _) # _ \<Rightarrow> oldest \<le> base + 1) in
      if \<not> covers then History
      else if list_ex (\<lambda>(_, theirs). intersects theirs mine)
                (takeWhile (\<lambda>(n, _). n > base) (rev (ch_recent h)))
      then Overlap else WouldPass)"

section \<open>Overlap\<close>

lemma intersects_sym: "intersects s t = intersects t s"
  by (auto simp: intersects_def cs_is_empty_def)

lemma note_op_parts:
  "cs_writes (note_op s op) = cs_writes (note_op cs_default op) |\<union>| cs_writes s"
  "cs_deletes (note_op s op) = cs_deletes (note_op cs_default op) |\<union>| cs_deletes s"
  "cs_deps (note_op s op) = cs_deps (note_op cs_default op) |\<union>| cs_deps s"
  "cs_everything (note_op s op) = cs_everything s"
  by (cases op; simp add: cs_default_def)+

lemma foldl_union:
  assumes "\<And>s op. f (g s op) = h op |\<union>| f s"
  shows "k |\<in>| f (foldl g s ops) \<longleftrightarrow> k |\<in>| f s \<or> (\<exists>op \<in> set ops. k |\<in>| h op)"
  by (induction ops arbitrary: s) (auto simp: assms)

lemma from_ops_mem:
  "k |\<in>| cs_writes (from_ops ops) \<longleftrightarrow> (\<exists>op \<in> set ops. k |\<in>| cs_writes (note_op cs_default op))"
  "k |\<in>| cs_deletes (from_ops ops) \<longleftrightarrow> (\<exists>op \<in> set ops. k |\<in>| cs_deletes (note_op cs_default op))"
  "k |\<in>| cs_deps (from_ops ops) \<longleftrightarrow> (\<exists>op \<in> set ops. k |\<in>| cs_deps (note_op cs_default op))"
  "\<not> cs_everything (from_ops ops)"
proof -
  have e: "k |\<notin>| cs_writes cs_default" "k |\<notin>| cs_deletes cs_default" "k |\<notin>| cs_deps cs_default" "\<not> cs_everything cs_default"
    by (simp_all add: cs_default_def)
  show "k |\<in>| cs_writes (from_ops ops) \<longleftrightarrow> (\<exists>op \<in> set ops. k |\<in>| cs_writes (note_op cs_default op))"
    unfolding from_ops_def foldl_union [where f = cs_writes and g = note_op, OF note_op_parts(1)] using e by blast
  show "k |\<in>| cs_deletes (from_ops ops) \<longleftrightarrow> (\<exists>op \<in> set ops. k |\<in>| cs_deletes (note_op cs_default op))"
    unfolding from_ops_def foldl_union [where f = cs_deletes and g = note_op, OF note_op_parts(2)] using e by blast
  show "k |\<in>| cs_deps (from_ops ops) \<longleftrightarrow> (\<exists>op \<in> set ops. k |\<in>| cs_deps (note_op cs_default op))"
    unfolding from_ops_def foldl_union [where f = cs_deps and g = note_op, OF note_op_parts(3)] using e by blast
  have "cs_everything (foldl note_op s ops) = cs_everything s" for s
    by (induction ops arbitrary: s) (simp_all add: note_op_parts(4))
  with e show "\<not> cs_everything (from_ops ops)"
    by (simp add: from_ops_def)
qed

lemma fBex_ex: "fBex A P \<longleftrightarrow> (\<exists>k. k |\<in>| A \<and> P k)"
  by auto

text \<open>Two batches overlap when one operation of each does.\<close>

lemma from_ops_intersects:
  "intersects (from_ops ops) (from_ops ops') \<longleftrightarrow>
     (\<exists>op \<in> set ops. \<exists>op' \<in> set ops'. intersects (from_ops [op]) (from_ops [op']))"
proof -
  have ops: "intersects (from_ops ops) (from_ops ops') \<longleftrightarrow>
     (\<exists>k. k |\<in>| cs_writes (from_ops ops) \<and> k |\<in>| cs_writes (from_ops ops')) \<or>
     (\<exists>k. k |\<in>| cs_deps (from_ops ops) \<and> k |\<in>| cs_deletes (from_ops ops')) \<or>
     (\<exists>k. k |\<in>| cs_deletes (from_ops ops) \<and> k |\<in>| cs_deps (from_ops ops'))"
    for ops :: "'a wal_op list" and ops' :: "'b wal_op list"
    by (simp only: intersects_def fBex_ex from_ops_mem(4) if_False)
  show ?thesis
    unfolding ops from_ops_mem by (simp only: list.set bex_simps) blast
qed

section \<open>Classification\<close>

lemma pop_excess_drop: "pop_excess n xs = drop (length xs - n) xs"
proof (induction n xs rule: pop_excess.induct)
  case (1 n xs)
  show ?case
  proof (cases "length xs > n")
    case True
    then obtain x ys where "xs = x # ys" by (cases xs) auto
    with True 1 show ?thesis by (subst pop_excess.simps) (simp add: Suc_diff_le)
  qed (simp add: pop_excess.simps)
qed

text \<open>
  A history of consecutive commits: the commits \<open>sets\<close>, numbered from \<open>1\<close>, all of them pushed in order, from an
  empty history of some capacity.
\<close>

definition numbered :: "conflict_set list \<Rightarrow> (u64 \<times> conflict_set) list" where
  "numbered sets = zip (map of_nat [1..<Suc (length sets)]) sets"

definition history_of :: "nat \<Rightarrow> conflict_set list \<Rightarrow> commit_history" where
  "history_of n sets = foldl (\<lambda>h c. ch_push h (fst c) (snd c)) (with_capacity n) (numbered sets)"

lemma numbered_snoc: "numbered (sets @ [s]) = numbered sets @ [(of_nat (Suc (length sets)), s)]"
proof -
  have u: "[1..<Suc (length (sets @ [s]))] = [1..<Suc (length sets)] @ [Suc (length sets)]"
    by simp
  have l: "length (map of_nat [1..<Suc (length sets)]) = length sets"
    by (simp del: upt_Suc)
  show ?thesis
    unfolding numbered_def u map_append zip_append [OF l] by simp
qed

lemma length_numbered [simp]: "length (numbered sets) = length sets"
  by (simp add: numbered_def del: upt_Suc)

lemma history_of_recent:
  "ch_recent (history_of n sets) = drop (length sets - n) (numbered sets) \<and> ch_capacity (history_of n sets) = n"
proof (induction sets rule: rev_induct)
  case (snoc s sets)
  have "history_of n (sets @ [s]) = ch_push (history_of n sets) (of_nat (Suc (length sets))) s"
    by (simp add: history_of_def numbered_snoc)
  moreover have "Suc (length sets) - (length sets - n + n) + (length sets - n) = Suc (length sets) - n"
    by arith
  ultimately show ?case
    using snoc by (auto simp: ch_push_def ch_trim_def pop_excess_drop numbered_snoc)
qed (simp add: history_of_def with_capacity_def numbered_def)

lemma of_nat_u64_less:
  assumes "a < 2 ^ 64" and "b < 2 ^ 64"
  shows "(of_nat a :: u64) < of_nat b \<longleftrightarrow> a < b"
  using assms by (simp add: word_less_nat_alt unat_of_nat_small)

lemma numbered_nth: "i < length sets \<Longrightarrow> numbered sets ! i = (of_nat (Suc i), sets ! i)"
  by (simp add: numbered_def del: upt_Suc)

lemma numbered_newer:
  assumes "length sets < 2 ^ 64" and "b < 2 ^ 64" and "d \<le> b"
  shows "takeWhile (\<lambda>c. fst c > of_nat b) (rev (drop d (numbered sets))) = rev (drop b (numbered sets))"
proof -
  have split: "drop d (numbered sets) = take (b - d) (drop d (numbered sets)) @ drop b (numbered sets)"
    using assms(3) by (metis append_take_drop_id drop_drop le_add_diff_inverse2)
  have new: "\<forall>c \<in> set (drop b (numbered sets)). fst c > of_nat b"
  proof
    fix c
    assume "c \<in> set (drop b (numbered sets))"
    then obtain i where i: "i < length sets - b" "c = numbered sets ! (b + i)"
      by (auto simp: in_set_conv_nth)
    then have "fst c = of_nat (Suc (b + i))" "Suc (b + i) < 2 ^ 64"
      using assms(1) by (simp_all add: numbered_nth)
    then show "fst c > of_nat b"
      using of_nat_u64_less [of b "Suc (b + i)"] assms(2) by simp
  qed
  have old: "\<forall>c \<in> set (take (b - d) (drop d (numbered sets))). \<not> fst c > of_nat b"
  proof
    fix c
    assume "c \<in> set (take (b - d) (drop d (numbered sets)))"
    then obtain i where i: "i < b - d" "d + i < length sets" "c = numbered sets ! (d + i)"
      by (auto simp: in_set_conv_nth)
    then have "fst c = of_nat (Suc (d + i))" "Suc (d + i) < 2 ^ 64" "Suc (d + i) \<le> b"
      using assms by (simp_all add: numbered_nth)
    then show "\<not> fst c > of_nat b"
      using of_nat_u64_less [of b "Suc (d + i)"] assms(2) by simp
  qed
  have "takeWhile (\<lambda>c. fst c > of_nat b) (rev (take (b - d) (drop d (numbered sets)))) = []"
    using old by (metis (no_types, lifting) list.set_sel(1) set_rev takeWhile_eq_Nil_iff)
  moreover have "takeWhile (\<lambda>c. fst c > of_nat b) (rev (drop b (numbered sets)) @ xs) =
      rev (drop b (numbered sets)) @ takeWhile (\<lambda>c. fst c > of_nat b) xs" for xs
    by (rule takeWhile_append2) (use new in auto)
  ultimately show ?thesis
    by (subst split) simp
qed

text \<open>What a history that holds the commits after the first \<open>d\<close> answers.\<close>

lemma classify_suffix:
  assumes "ch_recent h = drop d (numbered sets)" and "length sets < 2 ^ 64 - 1" and "b \<le> length sets"
  shows "classify h (of_nat b) mine =
    (if length sets \<le> d \<or> b < d then History
     else if list_ex (\<lambda>theirs. intersects theirs mine) (drop b sets) then Overlap else WouldPass)"
proof (cases "length sets \<le> d")
  case True
  then show ?thesis
    by (simp add: classify_def assms(1))
next
  case False
  have b: "b < 2 ^ 64" "Suc b < 2 ^ 64" "length sets < 2 ^ 64"
    using assms by simp_all
  have r: "ch_recent h = (of_nat (Suc d), sets ! d) # drop (Suc d) (numbered sets)"
    using False unfolding assms(1) by (simp add: numbered_nth Cons_nth_drop_Suc [symmetric])
  have "(of_nat b + 1 :: u64) = of_nat (Suc b)"
    by simp
  then have covers: "(of_nat (Suc d) :: u64) \<le> of_nat b + 1 \<longleftrightarrow> d \<le> b"
    using of_nat_u64_less [of "Suc b" "Suc d"] b False by (simp add: linorder_not_less [symmetric] add.commute)
  show ?thesis
  proof (cases "d \<le> b")
    case True
    have "map snd (drop b (numbered sets)) = drop b sets"
      by (simp add: numbered_def drop_map [symmetric] del: upt_Suc)
    then have "set (drop b sets) = snd ` set (drop b (numbered sets))"
      by (metis set_map)
    then have later: "list_ex (\<lambda>(_, theirs). intersects theirs mine) (rev (drop b (numbered sets))) \<longleftrightarrow>
        list_ex (\<lambda>theirs. intersects theirs mine) (drop b sets)"
      by (auto simp: list_ex_iff case_prod_unfold)
    have "takeWhile (\<lambda>(m, _). m > of_nat b) (rev (ch_recent h)) = rev (drop b (numbered sets))"
      using numbered_newer [OF b(3,1) True] unfolding assms(1) by (simp add: case_prod_unfold)
    with True False later covers show ?thesis
      unfolding classify_def by (simp add: r Let_def)
  next
    case no: False
    then show ?thesis
      using False covers unfolding classify_def by (simp add: r Let_def)
  qed
qed

text \<open>C17.
  The classification of a commit is exact. When all commits of an engine were recorded in order, a
  transaction that began after \<open>b\<close> of them is told \<open>History\<close> when one of the commits it did not see has been
  forgotten (or nothing is held), otherwise \<open>Overlap\<close> when a commit it did not see overlaps with it, and
  \<open>WouldPass\<close> when none does; for any capacity.\<close>

theorem classify_exact:
  assumes "length sets < 2 ^ 64 - 1" and "b \<le> length sets"
  shows "classify (history_of n sets) (of_nat b) mine =
    (if sets = [] \<or> n = 0 \<or> b < length sets - n then History
     else if list_ex (\<lambda>theirs. intersects theirs mine) (drop b sets) then Overlap else WouldPass)"
proof -
  have "ch_recent (history_of n sets) = drop (length sets - n) (numbered sets)"
    using history_of_recent by blast
  from classify_suffix [OF this assms] show ?thesis
    by (auto simp: neq_Nil_conv)
qed

theorem classify_exact_witness:
  "length [cs_node 1, cs_deleted_node 4, cs_edge 9 2 3] < 2 ^ 64 - 1 \<and>
   classify (history_of 2 [cs_node 1, cs_deleted_node 4, cs_edge 9 2 3]) (of_nat 1) (cs_edge 5 4 1) = Overlap \<and>
   classify (history_of 2 [cs_node 1, cs_deleted_node 4, cs_edge 9 2 3]) (of_nat 2) (cs_edge 5 4 1) = WouldPass \<and>
   classify (history_of 2 [cs_node 1, cs_deleted_node 4, cs_edge 9 2 3]) (of_nat 0) (cs_edge 5 4 1) = History"
proof -
  let ?s = "[cs_node 1, cs_deleted_node 4, cs_edge 9 2 3]"
  have l: "length ?s < 2 ^ 64 - 1"
    by simp
  have "intersects (cs_deleted_node 4) (cs_edge 5 4 1)" "\<not> intersects (cs_edge 9 2 3) (cs_edge 5 4 1)"
    by code_simp+
  then show ?thesis
    using l classify_exact [OF l, of 1 2 "cs_edge 5 4 1"] classify_exact [OF l, of 2 2 "cs_edge 5 4 1"]
      classify_exact [OF l, of 0 2 "cs_edge 5 4 1"]
    by simp
qed

end
