(* ===== verification/Native_Spec.thy ===== *)
theory Native_Spec
  imports Native_Props Conflict
begin

text \<open>
  What the log means, without indexes and adjacency lists: the durable state is the records, embeddings and
  two-phase-commit tables, and an operation of the log changes it by a few map updates. The replay of
  \<open>apply_wal_op\<close> refines this specification; over the specification it is easy to see that a compacted log
  gives the state back, that live writes and their log entries agree, and that batches whose conflict sets
  do not intersect commute.
\<close>

section \<open>The specification\<close>

record 'j durable =
  d_nodes :: "(u64, 'j node) fmap"
  d_edges :: "(u64, 'j edge) fmap"
  d_embeddings :: "(u64, f32 list) fmap"
  d_prepared :: "(string, 'j prepared_entry) fmap"
  d_heuristic :: "string fset"

definition durable_of :: "'j inner \<Rightarrow> 'j durable" where
  "durable_of g =
     \<lparr>d_nodes = nodes g, d_edges = edges g, d_embeddings = embeddings g, d_prepared = prepared g, d_heuristic = heuristic g\<rparr>"

definition drop_incident :: "u64 \<Rightarrow> (u64, 'j edge) fmap \<Rightarrow> (u64, 'j edge) fmap" where
  "drop_incident i m =
     fmfilter (\<lambda>j. case fmlookup m j of None \<Rightarrow> False | Some e \<Rightarrow> e_from e \<noteq> i \<and> e_to e \<noteq> i) m"

fun spec_plain :: "'j durable \<Rightarrow> 'j wal_op \<Rightarrow> 'j durable" where
  "spec_plain d (UpsertNode n) = d\<lparr>d_nodes := fmupd (n_id n) n (d_nodes d)\<rparr>"
| "spec_plain d (DeleteNode i) =
     (if i |\<in>| fmdom (d_nodes d)
      then d\<lparr>d_nodes := fmdrop i (d_nodes d), d_edges := drop_incident i (d_edges d), d_embeddings := fmdrop i (d_embeddings d)\<rparr>
      else d)"
| "spec_plain d (UpsertEdge e) = d\<lparr>d_edges := fmupd (e_id e) e (d_edges d)\<rparr>"
| "spec_plain d (DeleteEdge i) = d\<lparr>d_edges := fmdrop i (d_edges d)\<rparr>"
| "spec_plain d (SetEmbedding i v) = d\<lparr>d_embeddings := fmupd i v (d_embeddings d)\<rparr>"
| "spec_plain d (DeleteEmbedding i) = d\<lparr>d_embeddings := fmdrop i (d_embeddings d)\<rparr>"
| "spec_plain d (Prepare gid at pops) =
     d\<lparr>d_prepared := fmupd gid \<lparr>pe_prepared_at_ms = at, pe_ops = pops\<rparr> (d_prepared d), d_heuristic := d_heuristic d |-| {|gid|}\<rparr>"
| "spec_plain d (CommitPrepared gid) = d"
| "spec_plain d (RollbackPrepared gid h) =
     d\<lparr>d_prepared := fmdrop gid (d_prepared d), d_heuristic := (if h then finsert gid (d_heuristic d) else d_heuristic d)\<rparr>"

fun is_plain :: "'j wal_op \<Rightarrow> bool" where
  "is_plain (Prepare gid at pops) = False"
| "is_plain (CommitPrepared gid) = False"
| "is_plain (RollbackPrepared gid h) = False"
| "is_plain _ = True"

definition spec_op :: "'j durable \<Rightarrow> 'j wal_op \<Rightarrow> 'j durable" where
  "spec_op d op =
     (case op of
        CommitPrepared gid \<Rightarrow>
          (case fmlookup (d_prepared d) gid of
             None \<Rightarrow> d
           | Some entry \<Rightarrow> foldl spec_plain (d\<lparr>d_prepared := fmdrop gid (d_prepared d)\<rparr>) (pe_ops entry))
      | _ \<Rightarrow> spec_plain d op)"

text \<open>The write set of a prepared transaction holds record changes only, in a log and in the table.\<close>

fun flat_op :: "'j wal_op \<Rightarrow> bool" where
  "flat_op (Prepare gid at pops) = list_all is_plain pops"
| "flat_op _ = True"

definition flat_prepared :: "(string, 'j prepared_entry) fmap \<Rightarrow> bool" where
  "flat_prepared p \<longleftrightarrow> (\<forall>gid entry. fmlookup p gid = Some entry \<longrightarrow> list_all is_plain (pe_ops entry))"

section \<open>Replay refines it\<close>

lemma durable_of_sel [simp]:
  "d_nodes (durable_of g) = nodes g" "d_edges (durable_of g) = edges g" "d_embeddings (durable_of g) = embeddings g"
  "d_prepared (durable_of g) = prepared g" "d_heuristic (durable_of g) = heuristic g"
  by (simp_all add: durable_of_def)

lemma durable_eqI:
  assumes "d_nodes d = d_nodes d'" "d_edges d = d_edges d'" "d_embeddings d = d_embeddings d'"
    "d_prepared d = d_prepared d'" "d_heuristic d = d_heuristic d'"
  shows "(d :: 'j durable) = d'"
  using assms by simp

lemma drop_incident_lookup:
  "fmlookup (drop_incident i m) j = (case fmlookup m j of None \<Rightarrow> None | Some e \<Rightarrow> if e_from e = i \<or> e_to e = i then None else Some e)"
  by (simp add: drop_incident_def split: option.split)

lemma drop_node_durable:
  assumes "edges_inv g"
  shows "durable_of (drop_node J g n i) =
    (durable_of g)\<lparr>d_nodes := fmdrop i (nodes g), d_edges := drop_incident i (edges g), d_embeddings := fmdrop i (embeddings g)\<rparr>"
proof -
  have "edges (drop_node J g n i) = drop_incident i (edges g)"
    by (rule fmap_ext) (simp add: drop_node_edges [OF assms] drop_incident_lookup)
  then show ?thesis
    by (intro durable_eqI) (simp_all add: drop_node_def Let_def)
qed

lemma fmupd_fmdrop [simp]: "fmupd i v (fmdrop i m) = fmupd i v m"
  by (rule fmap_ext) simp

lemma upsert_durable:
  "durable_of (upsert_node J n g) = (durable_of g)\<lparr>d_nodes := fmupd (n_id n) n (nodes g)\<rparr>"
  "durable_of (upsert_edge e g) = (durable_of g)\<lparr>d_edges := fmupd (e_id e) e (edges g)\<rparr>"
proof -
  show "durable_of (upsert_node J n g) = (durable_of g)\<lparr>d_nodes := fmupd (n_id n) n (nodes g)\<rparr>"
    by (rule durable_eqI) (simp_all add: upsert_node_def Let_def split: option.split)
  show "durable_of (upsert_edge e g) = (durable_of g)\<lparr>d_edges := fmupd (e_id e) e (edges g)\<rparr>"
    by (intro durable_eqI) (simp_all add: upsert_edge_def Let_def)
qed

lemma wal_head_durable:
  assumes "graph_inv J g" and "\<And>gid. op \<noteq> CommitPrepared gid"
  shows "durable_of (fst (wal_head J g op)) = spec_plain (durable_of g) op" and "snd (wal_head J g op) = []"
proof -
  have inv: "edges_inv g"
    using assms(1) by (simp add: graph_inv_def)
  show "snd (wal_head J g op) = []"
    using assms(2) by (cases op) (auto simp: wal_head_def)
  show "durable_of (fst (wal_head J g op)) = spec_plain (durable_of g) op"
  proof (cases op)
    case (DeleteNode i)
    then show ?thesis
      by (auto simp: wal_head_def apply_wal_op_def drop_node_durable [OF inv] fmlookup_dom_iff split: option.split)
  qed (use assms(2) in \<open>auto simp: wal_head_def apply_wal_op_def upsert_durable Let_def intro!: durable_eqI\<close>)
qed

lemma flat_prepared_head:
  assumes "flat_prepared (prepared g)" and "flat_op op"
  shows "flat_prepared (prepared (fst (wal_head J g op)))" and "list_all flat_op (snd (wal_head J g op))"
proof -
  have plain_flat: "list_all flat_op ops" if "list_all is_plain ops" for ops :: "'a wal_op list"
    using that by (induction ops) (auto elim!: is_plain.elims)
  show "flat_prepared (prepared (fst (wal_head J g op)))"
    using assms by (cases op) (auto simp: wal_head_def apply_wal_op_def flat_prepared_def Let_def split: option.splits if_splits)
  show "list_all flat_op (snd (wal_head J g op))"
    using assms plain_flat by (cases op) (auto simp: wal_head_def flat_prepared_def split: option.split)
qed

lemma spec_op_plain: "list_all is_plain ops \<Longrightarrow> foldl spec_op d ops = foldl spec_plain d ops"
proof (induction ops arbitrary: d)
  case (Cons op ops)
  then have "spec_op d op = spec_plain d op"
    by (cases op) (auto simp: spec_op_def)
  with Cons show ?case by simp
qed simp

lemma replay_refines:
  assumes "graph_inv J g" and "replay_room g ops" and "flat_prepared (prepared g)" and "list_all flat_op ops"
  shows "durable_of (apply_wal_ops J g ops) = foldl spec_op (durable_of g) ops"
  using assms
proof (induction g ops rule: wal_induct [where J = J])
  case (Cons g op ops)
  note head = wal_head_inv [OF Cons.prems(1,2)]
  have flat: "flat_prepared (prepared (fst (wal_head J g op)))" "list_all flat_op (snd (wal_head J g op) @ ops)"
    using flat_prepared_head [of g op J] Cons.prems(3,4) by simp_all
  note IH = Cons.IH [OF head flat]
  show ?case
  proof (cases "\<exists>gid. op = CommitPrepared gid")
    case False
    then have "durable_of (fst (wal_head J g op)) = spec_op (durable_of g) op" "snd (wal_head J g op) = []"
      using wal_head_durable [OF Cons.prems(1), of op] by (cases op; auto simp: spec_op_def)+
    with IH show ?thesis
      by (simp add: apply_wal_ops_Cons)
  next
    case True
    then obtain gid where op: "op = CommitPrepared gid" by blast
    show ?thesis
    proof (cases "fmlookup (prepared g) gid")
      case None
      then have "fst (wal_head J g op) = g" "snd (wal_head J g op) = []"
        by (simp_all add: wal_head_def op)
      with IH None show ?thesis
        by (simp add: apply_wal_ops_Cons op spec_op_def)
    next
      case (Some entry)
      have "list_all is_plain (pe_ops entry)"
        using Cons.prems(3) Some by (simp add: flat_prepared_def)
      moreover have "durable_of (fst (wal_head J g op)) = (durable_of g)\<lparr>d_prepared := fmdrop gid (prepared g)\<rparr>"
        by (rule durable_eqI) (simp_all add: wal_head_def op Some)
      moreover have "snd (wal_head J g op) = pe_ops entry"
        by (simp add: wal_head_def op Some)
      moreover have "spec_op (durable_of g) op =
          foldl spec_plain ((durable_of g)\<lparr>d_prepared := fmdrop gid (prepared g)\<rparr>) (pe_ops entry)"
        by (simp add: op spec_op_def Some)
      ultimately show ?thesis
        using IH by (simp add: apply_wal_ops_Cons spec_op_plain)
    qed
  qed
qed simp

section \<open>Live writes are what their log entries say\<close>

text \<open>
  The operation that a live write logs, when it succeeds (\<open>WalOp\<close> pushed by \<open>NativeTx\<close> and by the direct writes
  of \<open>NativeGraph\<close>).
\<close>

fun live_log :: "'j json_lib \<Rightarrow> 'j inner \<Rightarrow> 'j live_op \<Rightarrow> 'j wal_op list" where
  "live_log J g (LiveCreateNode env nn r) = (case fst (create_node_checked J env g nn r) of Inl _ \<Rightarrow> [] | Inr n \<Rightarrow> [UpsertNode n])"
| "live_log J g (LiveUpdateNode env i p r) = (case fst (update_node_checked J env g i p r) of Inl _ \<Rightarrow> [] | Inr n \<Rightarrow> [UpsertNode n])"
| "live_log J g (LiveDeleteNode i) = (case fst (delete_node J g i) of Inl _ \<Rightarrow> [] | Inr _ \<Rightarrow> [DeleteNode i])"
| "live_log J g (LiveCreateEdge env ne) = (case fst (create_edge env g ne) of Inl _ \<Rightarrow> [] | Inr e \<Rightarrow> [UpsertEdge e])"
| "live_log J g (LiveUpdateEdge i p) = (case fst (update_edge g i p) of Inl _ \<Rightarrow> [] | Inr e \<Rightarrow> [UpsertEdge e])"
| "live_log J g (LiveDeleteEdge i) = (case fst (delete_edge g i) of Inl _ \<Rightarrow> [] | Inr _ \<Rightarrow> [DeleteEdge i])"

fun live_logs :: "'j json_lib \<Rightarrow> 'j inner \<Rightarrow> 'j live_op list \<Rightarrow> 'j wal_op list" where
  "live_logs J g [] = []"
| "live_logs J g (op # ops) = live_log J g op @ live_logs J (live_step J g op) ops"

lemma live_log_plain: "list_all is_plain (live_log J g op)"
  by (cases op) (auto split: sum.split)

lemma live_step_durable:
  assumes "graph_inv J g"
  shows "durable_of (live_step J g op) = foldl spec_plain (durable_of g) (live_log J g op)"
proof -
  have inv: "nodes_inv J g" "edges_inv g"
    using assms by (simp_all add: graph_inv_def)
  show ?thesis
  proof (cases op)
    case (LiveCreateNode env nn r)
    show ?thesis
      by (cases rule: create_node_cases [of J env g nn r])
        (auto simp: LiveCreateNode with_node_def Let_def intro!: durable_eqI)
  next
    case (LiveUpdateNode env i p r)
    show ?thesis
    proof (cases rule: update_node_cases [of g i J env p r])
      case (updated old n)
      have "n_id n = i"
        using nodes_invD(1) [OF inv(1) updated(1)] updated(2) by simp
      with updated(5) show ?thesis
        by (auto simp: LiveUpdateNode intro!: durable_eqI)
    qed (auto simp: LiveUpdateNode intro!: durable_eqI)
  next
    case (LiveDeleteNode i)
    show ?thesis
      by (cases "fmlookup (nodes g) i")
        (auto simp: LiveDeleteNode delete_node_def drop_node_durable [OF inv(2)] fmlookup_dom_iff)
  next
    case (LiveCreateEdge env ne)
    show ?thesis
      by (cases rule: create_edge_cases [of env g ne]) (auto simp: LiveCreateEdge intro!: durable_eqI)
  next
    case (LiveUpdateEdge i p)
    show ?thesis
    proof (cases rule: update_edge_cases [of g i p])
      case (updated old e)
      have "e_id e = i"
        using edges_invD(3) [OF inv(2) updated(1)] updated(2) by simp
      with updated(3) show ?thesis
        by (auto simp: LiveUpdateEdge intro!: durable_eqI)
    qed (auto simp: LiveUpdateEdge intro!: durable_eqI)
  next
    case (LiveDeleteEdge i)
    then show ?thesis
      by (auto simp: delete_edge_def intro!: durable_eqI)
  qed
qed

lemma size_plain: "list_all is_plain ops \<Longrightarrow> size_list size ops = 2 * length ops"
proof (induction ops)
  case (Cons op ops)
  then show ?case by (cases op) auto
qed simp

lemma plain_flat: "list_all is_plain ops \<Longrightarrow> list_all flat_op ops"
  by (induction ops) (auto elim!: is_plain.elims)

lemma live_log_length: "length (live_log J g op) \<le> 1"
  by (cases op) (auto split: sum.split)

lemma live_logs_facts:
  "list_all is_plain (live_logs J g ops)" "length (live_logs J g ops) \<le> length ops"
proof -
  show "list_all is_plain (live_logs J g ops)"
    by (induction ops arbitrary: g) (simp_all add: live_log_plain)
  show "length (live_logs J g ops) \<le> length ops"
  proof (induction ops arbitrary: g)
    case (Cons op ops)
    have "length (live_logs J (live_step J g op) ops) \<le> length ops"
      by (rule Cons.IH)
    with live_log_length [of J g op] show ?case by simp
  qed simp
qed

lemma live_fold_durable:
  assumes "graph_inv J g" and "room (length ops) g"
    and "\<forall>op \<in> set ops. live_time op + int (length ops) \<le> i64_max"
  shows "durable_of (foldl (live_step J) g ops) = foldl spec_plain (durable_of g) (live_logs J g ops)"
  using assms
proof (induction ops arbitrary: g)
  case (Cons op ops)
  have "live_time op + int (length ops) \<le> i64_max" "\<forall>op \<in> set ops. live_time op + int (length ops) \<le> i64_max"
    using Cons.prems(3) by auto
  with Cons live_step_graph_inv [of J g "length ops" op] live_step_room [of "length ops" g op J]
    live_step_durable [OF Cons.prems(1), of op]
  show ?case by simp
qed simp

lemma room_default: "int k < 2 ^ 32 \<Longrightarrow> room k (inner_default :: 'j inner)"
  by (simp add: room_def inner_default_def fcard.rep_eq)

lemma replay_default:
  fixes J :: "'j json_lib"
  assumes "int (size_list size ops) < 2 ^ 32" and "list_all flat_op ops"
  shows "durable_of (apply_wal_ops J inner_default ops) = foldl spec_op (durable_of inner_default) ops"
    and "graph_inv J (apply_wal_ops J inner_default ops)"
proof -
  have "replay_room (inner_default :: 'j inner) ops"
    using assms(1) by (simp add: replay_room_def inner_default_def prepared_weight_def fcard.rep_eq)
  then show "durable_of (apply_wal_ops J inner_default ops) = foldl spec_op (durable_of inner_default) ops"
    "graph_inv J (apply_wal_ops J inner_default ops)"
    using assms(2) graph_inv_default [of J]
    by (auto intro!: replay_refines apply_wal_ops_inv simp: flat_prepared_def inner_default_def)
qed

lemma live_logs_prefix: "\<exists>m \<le> length ops. take k (live_logs J g ops) = live_logs J g (take m ops)"
proof (induction ops arbitrary: k g)
  case (Cons op ops)
  show ?case
  proof (cases "length (live_log J g op) \<le> k")
    case True
    obtain m where "m \<le> length ops"
      "take (k - length (live_log J g op)) (live_logs J (live_step J g op) ops) = live_logs J (live_step J g op) (take m ops)"
      using Cons.IH by blast
    with True show ?thesis
      by (intro exI [of _ "Suc m"]) simp
  next
    case False
    then have "k = 0"
      using live_log_length [of J g op] by simp
    then show ?thesis by (intro exI [of _ 0]) simp
  qed
qed simp

text \<open>Shown too.
  Recovery: replaying the log of a run into an empty engine rebuilds the records the run left, in a state
  that satisfies the invariant of all indexes; and if the end of the log was lost, what is rebuilt is the
  state after an initial part of the run, so no write is ever half there.\<close>

theorem recovery_exact:
  assumes "int (length ops) < 2 ^ 31" and "\<forall>op \<in> set ops. live_time op + int (length ops) \<le> i64_max"
  shows "durable_of (apply_wal_ops J inner_default (live_logs J inner_default ops)) = durable_of (live_run J ops) \<and>
    graph_inv J (apply_wal_ops J inner_default (live_logs J inner_default ops)) \<and>
    (\<forall>k. \<exists>m \<le> length ops.
       durable_of (apply_wal_ops J inner_default (take k (live_logs J inner_default ops))) = durable_of (live_run J (take m ops)))"
proof -
  have part: "durable_of (apply_wal_ops J inner_default (live_logs J inner_default (take m ops))) = durable_of (live_run J (take m ops))"
    "graph_inv J (apply_wal_ops J inner_default (live_logs J inner_default (take m ops)))" for m
  proof -
    let ?ops = "take m ops" and ?log = "live_logs J inner_default (take m ops)"
    have len: "int (length ?ops) < 2 ^ 31" "\<forall>op \<in> set ?ops. live_time op + int (length ?ops) \<le> i64_max"
      using assms by (auto dest!: in_set_takeD simp: min_def)
    note facts = live_logs_facts [of J inner_default ?ops]
    have "int (size_list size ?log) < 2 ^ 32"
      using size_plain [OF facts(1)] facts(2) len(1) by (simp del: length_take)
    note replay = replay_default [OF this plain_flat [OF facts(1)], of J]
    show "durable_of (apply_wal_ops J inner_default ?log) = durable_of (live_run J ?ops)"
      using replay(1) live_fold_durable [OF graph_inv_default room_default len(2), of J] len(1)
      by (simp add: spec_op_plain [OF facts(1)] live_run_def)
    show "graph_inv J (apply_wal_ops J inner_default ?log)"
      by (rule replay(2))
  qed
  have "\<exists>m \<le> length ops. durable_of (apply_wal_ops J inner_default (take k (live_logs J inner_default ops))) =
      durable_of (live_run J (take m ops))" for k
    using live_logs_prefix [of ops k J inner_default] part(1) by metis
  with part [of "length ops"] show ?thesis
    by simp
qed

theorem recovery_exact_witness:
  "map e_id (all_edges (apply_wal_ops ex_json inner_default (live_logs ex_json inner_default ex_live))) = [3] \<and>
   durable_of (apply_wal_ops ex_json inner_default (live_logs ex_json inner_default ex_live)) = durable_of (live_run ex_json ex_live)"
proof -
  have "int (length ex_live) < 2 ^ 31" "\<forall>op \<in> set ex_live. live_time op + int (length ex_live) \<le> i64_max"
    by (simp_all add: ex_live_def ex_env_def)
  note rec = recovery_exact [OF this, of ex_json]
  then have "edges (apply_wal_ops ex_json inner_default (live_logs ex_json inner_default ex_live)) = edges (live_run ex_json ex_live)"
    by (metis durable_of_sel(2))
  moreover have "map e_id (all_edges (live_run ex_json ex_live)) = [3]"
    by code_simp
  ultimately show ?thesis
    using rec by (simp add: all_edges_def)
qed

section \<open>Compaction\<close>

lemma foldl_fmupd:
  assumes "distinct (map f xs)"
  shows "fmlookup (foldl (\<lambda>m x. fmupd (f x) (h x) m) m xs) k =
    (case map_of (map (\<lambda>x. (f x, h x)) xs) k of None \<Rightarrow> fmlookup m k | Some v \<Rightarrow> Some v)"
  using assms
proof (induction xs arbitrary: m)
  case (Cons x xs)
  have "map_of (map (\<lambda>x. (f x, h x)) xs) (f x) = None"
    using Cons.prems by (auto simp: map_of_eq_None_iff)
  with Cons show ?case by (auto split: option.split)
qed simp

lemma foldl_fmupd_empty:
  assumes "distinct (map f xs)" and "map_of (map (\<lambda>x. (f x, h x)) xs) = fmlookup m"
  shows "foldl (\<lambda>m x. fmupd (f x) (h x) m) fmempty xs = m"
  by (rule fmap_ext) (simp add: foldl_fmupd [OF assms(1)] assms(2) split: option.split)

lemma foldl_spec_op:
  "foldl spec_op d (map UpsertNode ns) = d\<lparr>d_nodes := foldl (\<lambda>m n. fmupd (n_id n) n m) (d_nodes d) ns\<rparr>"
  "foldl spec_op d (map UpsertEdge es) = d\<lparr>d_edges := foldl (\<lambda>m e. fmupd (e_id e) e m) (d_edges d) es\<rparr>"
  "foldl spec_op d (map (\<lambda>(i, v). SetEmbedding i v) vs) = d\<lparr>d_embeddings := foldl (\<lambda>m p. fmupd (fst p) (snd p) m) (d_embeddings d) vs\<rparr>"
  by (induction ns arbitrary: d, simp_all add: spec_op_def)
    (induction es arbitrary: d, simp_all add: spec_op_def,
     induction vs arbitrary: d, simp_all add: spec_op_def case_prod_beta)

lemma foldl_spec_prepare:
  assumes "d_heuristic d = {||}"
  shows "foldl spec_op d (map (\<lambda>(gid, entry). Prepare gid (pe_prepared_at_ms entry) (pe_ops entry)) ps) =
    d\<lparr>d_prepared := foldl (\<lambda>m p. fmupd (fst p) (snd p) m) (d_prepared d) ps\<rparr>"
proof -
  have eta: "\<lparr>pe_prepared_at_ms = pe_prepared_at_ms b, pe_ops = pe_ops b\<rparr> = b" for b :: "'a prepared_entry"
    by simp
  show ?thesis
    using assms by (induction ps arbitrary: d) (auto simp: spec_op_def case_prod_beta eta intro!: durable_eqI)
qed

lemma foldl_spec_rollback:
  assumes "\<forall>gid \<in> set gids. gid |\<notin>| fmdom (d_prepared d)"
  shows "foldl spec_op d (map (\<lambda>gid. RollbackPrepared gid True) gids) =
    d\<lparr>d_heuristic := d_heuristic d |\<union>| fset_of_list gids\<rparr>"
  using assms
proof (induction gids arbitrary: d)
  case (Cons gid gids)
  have "fmdrop gid (d_prepared d) = d_prepared d"
    using Cons.prems by (intro fmdrop_idle) simp
  with Cons show ?case
    by (simp add: spec_op_def)
qed simp

text \<open>A global transaction id is prepared or remembered as rolled back, never both; replay keeps this.\<close>

definition twopc_ok :: "'j inner \<Rightarrow> bool" where
  "twopc_ok g \<longleftrightarrow> fmdom (prepared g) |\<inter>| heuristic g = {||}"

lemma twopc_ok_replay: "twopc_ok g \<Longrightarrow> twopc_ok (apply_wal_ops J g ops)"
proof (induction g ops rule: wal_induct [where J = J])
  case (Cons g op ops)
  have frame: "prepared (drop_node J g n i) = prepared g" "heuristic (drop_node J g n i) = heuristic g"
    "heuristic (upsert_node J m g) = heuristic g" "heuristic (upsert_edge e g) = heuristic g" for n i m e
    by (simp_all add: drop_node_def upsert_node_def upsert_edge_def Let_def split: option.split)
  have "twopc_ok (fst (wal_head J g op))"
    using Cons.prems by (cases op) (auto simp: wal_head_def apply_wal_op_def twopc_ok_def frame Let_def split: option.split)
  with Cons.IH show ?case
    by (simp add: apply_wal_ops_Cons)
qed simp

text \<open>C15.
  Compaction: the snapshot form of a state, as written by a log compaction or a dump, replayed into an empty
  engine gives back the records, the embeddings and the two-phase-commit tables, and a state that satisfies
  the invariant of all indexes.\<close>

theorem compaction_roundtrip:
  assumes "graph_inv J g" and "twopc_ok g" and "flat_prepared (prepared g)" and "int (size_list size (to_wal_ops g)) < 2 ^ 32"
  shows "durable_of (apply_wal_ops J inner_default (to_wal_ops g)) = durable_of g \<and>
    graph_inv J (apply_wal_ops J inner_default (to_wal_ops g))"
proof -
  have nk: "n_id n = i" if "fmlookup (nodes g) i = Some n" for i n
    using assms(1) nodes_invD(1) that by (auto simp: graph_inv_def)
  have ek: "e_id e = i" if "fmlookup (edges g) i = Some e" for i e
    using assms(1) edges_invD(3) that by (auto simp: graph_inv_def)
  have flat: "list_all flat_op (to_wal_ops g)"
    using assms(3) by (auto simp: to_wal_ops_def list_all_iff flat_prepared_def sorted_list_of_fmap_def fmlookup_dom_iff)
  have pairs: "foldl (\<lambda>m p. fmupd (fst p) (snd p) m) fmempty (sorted_list_of_fmap m) = m" for m :: "('k::linorder, 'v) fmap"
    by (rule foldl_fmupd_empty) (simp_all add: sorted_list_of_fmap_def comp_def map_of_sorted_list [unfolded sorted_list_of_fmap_def])
  have vals: "foldl (\<lambda>m x. fmupd (f x) x m) fmempty (sort_key f (fm_values m)) = m"
    if "\<And>i v. fmlookup m i = Some v \<Longrightarrow> f v = i" for m :: "(u64, 'v) fmap" and f
    using fm_values_keyed [of m f, OF that] foldl_fmupd_empty [of f "fm_values m" "\<lambda>x. x" m] by simp
  note n = vals [of "nodes g" n_id, OF nk] and e = vals [of "edges g" e_id, OF ek]
  have gids: "\<forall>gid \<in> set (sorted_list_of_fset (heuristic g)). gid |\<notin>| fmdom (prepared g)"
    using assms(2) by (auto simp: twopc_ok_def)
  have "foldl spec_op (durable_of inner_default) (to_wal_ops g) = durable_of g"
    unfolding to_wal_ops_def foldl_append foldl_spec_op
    by (subst foldl_spec_prepare) (use n e gids in \<open>simp_all add: pairs foldl_spec_rollback inner_default_def durable_of_def\<close>)
  with replay_default [OF assms(4) flat, of J] show ?thesis
    by simp
qed

definition ex_doubt :: "string option inner" where
  "ex_doubt =
     apply_wal_ops ex_json ex_graph
       [SetEmbedding 1 [7, 8], Prepare ''t'' 5 [DeleteEdge 1, DeleteNode 3], Prepare ''u'' 6 [], RollbackPrepared ''u'' True]"

lemma ex_doubt_inv: "graph_inv ex_json ex_doubt" "twopc_ok ex_doubt" "flat_prepared (prepared ex_doubt)"
proof -
  have p: "prepared ex_graph = fmempty" "heuristic ex_graph = {||}" "kind_ids ex_graph = fmap_of_list [(''s'', 1), (''r'', 0)]"
    by code_simp+
  have "prepared ex_doubt = fmap_of_list [(''t'', \<lparr>pe_prepared_at_ms = 5, pe_ops = [DeleteEdge 1, DeleteNode 3]\<rparr>)]"
    by code_simp
  then show "flat_prepared (prepared ex_doubt)"
    by (auto simp: flat_prepared_def fmlookup_of_list)
  have "replay_room ex_graph
      [SetEmbedding 1 [7, 8], Prepare ''t'' 5 [DeleteEdge 1, DeleteNode 3], Prepare ''u'' 6 [], RollbackPrepared ''u'' True]"
    by (simp add: replay_room_def p prepared_weight_def fcard.rep_eq)
  then show "graph_inv ex_json ex_doubt"
    unfolding ex_doubt_def by (rule apply_wal_ops_inv [OF ex_graph_inv(1)])
  have "twopc_ok ex_graph"
    by (simp add: twopc_ok_def p)
  then show "twopc_ok ex_doubt"
    unfolding ex_doubt_def by (rule twopc_ok_replay)
qed

theorem compaction_roundtrip_witness:
  "length (to_wal_ops ex_doubt) = 9 \<and>
   durable_of (apply_wal_ops ex_json inner_default (to_wal_ops ex_doubt)) = durable_of ex_doubt"
proof -
  have "length (to_wal_ops ex_doubt) = 9" "int (size_list size (to_wal_ops ex_doubt)) = 22"
    by code_simp+
  then show ?thesis
    using compaction_roundtrip [OF ex_doubt_inv] by simp
qed

section \<open>Batches that do not conflict commute\<close>

lemma intersects_ops:
  "intersects (from_ops [op]) (from_ops [op']) \<longleftrightarrow>
     (\<exists>k. k |\<in>| cs_writes (note_op cs_default op) \<and> k |\<in>| cs_writes (note_op cs_default op')) \<or>
     (\<exists>k. k |\<in>| cs_deps (note_op cs_default op) \<and> k |\<in>| cs_deletes (note_op cs_default op')) \<or>
     (\<exists>k. k |\<in>| cs_deletes (note_op cs_default op) \<and> k |\<in>| cs_deps (note_op cs_default op'))"
  unfolding intersects_def fBex_ex using from_ops_mem(4) [of "[op]"] from_ops_mem(4) [of "[op']"]
  by (simp add: from_ops_def)

lemma fmap_swap:
  "i \<noteq> j \<Longrightarrow> fmupd i x (fmupd j y m) = fmupd j y (fmupd i x m)"
  "i \<noteq> j \<Longrightarrow> fmupd i x (fmdrop j m) = fmdrop j (fmupd i x m)"
  "fmdrop i (fmdrop j m) = fmdrop j (fmdrop i m)"
  by (rule fmap_ext; auto)+

lemma drop_incident_swap:
  "drop_incident i (drop_incident j m) = drop_incident j (drop_incident i m)"
  "drop_incident i (fmdrop j m) = fmdrop j (drop_incident i m)"
  "e_from e \<noteq> i \<Longrightarrow> e_to e \<noteq> i \<Longrightarrow> drop_incident i (fmupd j e m) = fmupd j e (drop_incident i m)"
proof -
  show "drop_incident i (drop_incident j m) = drop_incident j (drop_incident i m)"
  proof (rule fmap_ext)
    fix x
    show "fmlookup (drop_incident i (drop_incident j m)) x = fmlookup (drop_incident j (drop_incident i m)) x"
      by (cases "fmlookup m x") (auto simp: drop_incident_lookup)
  qed
  show "drop_incident i (fmdrop j m) = fmdrop j (drop_incident i m)"
    by (rule fmap_ext) (auto simp: drop_incident_lookup)
  show "drop_incident i (fmupd j e m) = fmupd j e (drop_incident i m)" if "e_from e \<noteq> i" "e_to e \<noteq> i"
    by (rule fmap_ext) (use that in \<open>auto simp: drop_incident_lookup\<close>)
qed

lemma spec_plain_swap:
  assumes "is_plain op" and "is_plain op'" and "\<not> intersects (from_ops [op]) (from_ops [op'])"
  shows "spec_plain (spec_plain d op) op' = spec_plain (spec_plain d op') op"
proof (rule durable_eqI)
  note disj = assms(3) [unfolded intersects_ops]
  show "d_nodes (spec_plain (spec_plain d op) op') = d_nodes (spec_plain (spec_plain d op') op)"
    using assms(1,2) disj by (cases op; cases op') (auto simp: cs_default_def fmap_swap(1,2) fmap_swap(3))
  show "d_edges (spec_plain (spec_plain d op) op') = d_edges (spec_plain (spec_plain d op') op)"
    using assms(1,2) disj by (cases op; cases op') (auto simp: cs_default_def fmap_swap drop_incident_swap)
  show "d_embeddings (spec_plain (spec_plain d op) op') = d_embeddings (spec_plain (spec_plain d op') op)"
    using assms(1,2) disj by (cases op; cases op') (auto simp: cs_default_def fmap_swap)
  show "d_prepared (spec_plain (spec_plain d op) op') = d_prepared (spec_plain (spec_plain d op') op)"
    "d_heuristic (spec_plain (spec_plain d op) op') = d_heuristic (spec_plain (spec_plain d op') op)"
    using assms(1,2) by (cases op; cases op'; auto)+
qed

lemma spec_batch_swap:
  assumes "is_plain op" and "list_all is_plain ops" and "\<forall>op' \<in> set ops. \<not> intersects (from_ops [op]) (from_ops [op'])"
  shows "foldl spec_plain (spec_plain d op) ops = spec_plain (foldl spec_plain d ops) op"
  using assms
proof (induction ops arbitrary: d)
  case (Cons op' ops)
  then show ?case
    using spec_plain_swap [of op op' d] by simp
qed simp

lemma spec_batches_swap:
  assumes "list_all is_plain ops" and "list_all is_plain ops'" and "\<not> intersects (from_ops ops) (from_ops ops')"
  shows "foldl spec_plain (foldl spec_plain d ops) ops' = foldl spec_plain (foldl spec_plain d ops') ops"
  using assms
proof (induction ops arbitrary: d)
  case (Cons op ops)
  have op: "is_plain op" "\<forall>op' \<in> set ops'. \<not> intersects (from_ops [op]) (from_ops [op'])"
    and rest: "list_all is_plain ops" "\<not> intersects (from_ops ops) (from_ops ops')"
    using Cons.prems unfolding from_ops_intersects [of "op # ops" ops'] from_ops_intersects [of ops ops'] by auto
  show ?case
    using Cons.IH [OF rest(1) Cons.prems(2) rest(2), of "spec_plain d op"] spec_batch_swap [OF op(1) Cons.prems(2) op(2), of d]
    by simp
qed simp

lemma replay_plain:
  assumes "graph_inv J g" and "list_all is_plain ops" and "replay_room g ops" and "flat_prepared (prepared g)"
  shows "durable_of (apply_wal_ops J g ops) = foldl spec_plain (durable_of g) ops"
  using replay_refines [OF assms(1,3,4) plain_flat [OF assms(2)]] spec_op_plain [OF assms(2)] by simp

text \<open>C16.
  Two batches of changes whose conflict sets do not intersect can be applied in either order: the records and
  embeddings are the same. This is why a transaction may commit on top of commits it did not see: the
  outcome is that of running it before them.\<close>

theorem disjoint_batches_commute:
  assumes "graph_inv J g" and "flat_prepared (prepared g)" and "list_all is_plain ops" and "list_all is_plain ops'"
    and "\<not> intersects (from_ops ops) (from_ops ops')" and "replay_room g (ops @ ops')"
  shows "durable_of (apply_wal_ops J g (ops @ ops')) = durable_of (apply_wal_ops J g (ops' @ ops))"
proof -
  have room: "replay_room g (ops' @ ops)"
    using assms(6) by (simp add: replay_room_def size_list_append add.commute)
  show ?thesis
    using replay_plain [OF assms(1) _ assms(6) assms(2)] replay_plain [OF assms(1) _ room assms(2)]
      spec_batches_swap [OF assms(3,4,5), of "durable_of g"] assms(3,4)
    by simp
qed

theorem disjoint_batches_commute_witness:
  "\<not> intersects (from_ops [DeleteNode 1 :: string option wal_op]) (from_ops [DeleteEdge 2 :: string option wal_op, DeleteEmbedding 3]) \<and>
   durable_of (apply_wal_ops ex_json ex_graph ([DeleteNode 1] @ [DeleteEdge 2, DeleteEmbedding 3])) =
   durable_of (apply_wal_ops ex_json ex_graph ([DeleteEdge 2, DeleteEmbedding 3] @ [DeleteNode 1]))"
proof -
  have p: "prepared ex_graph = fmempty" "kind_ids ex_graph = fmap_of_list [(''s'', 1), (''r'', 0)]"
    by code_simp+
  have "\<not> intersects (from_ops [DeleteNode 1 :: string option wal_op]) (from_ops [DeleteEdge 2 :: string option wal_op, DeleteEmbedding 3])"
    by code_simp
  moreover have "replay_room ex_graph ([DeleteNode 1] @ [DeleteEdge 2, DeleteEmbedding 3])" "flat_prepared (prepared ex_graph)"
    by (simp_all add: replay_room_def p prepared_weight_def fcard.rep_eq flat_prepared_def)
  ultimately show ?thesis
    using disjoint_batches_commute [OF ex_graph_inv(1), of "[DeleteNode 1]" "[DeleteEdge 2, DeleteEmbedding 3]"] by simp
qed

text \<open>C14.
  Replay implements the specification of the log: whatever the log, including prepared transactions, their
  commit and rollback, the records, embeddings and two-phase-commit tables are those the specification
  gives, as long as the write sets of prepared transactions hold record changes only (which is all that
  transactions produce) and kind numbers do not run out.\<close>

theorem replay_implements_spec:
  assumes "graph_inv J g" and "replay_room g ops" and "flat_prepared (prepared g)" and "list_all flat_op ops"
  shows "durable_of (apply_wal_ops J g ops) = foldl spec_op (durable_of g) ops"
  by (rule replay_refines [OF assms])

theorem replay_implements_spec_witness:
  "map n_id (all_nodes (apply_wal_ops ex_json ex_doubt [CommitPrepared ''t''])) = [1, 2] \<and>
   durable_of (apply_wal_ops ex_json ex_doubt [CommitPrepared ''t'']) = foldl spec_op (durable_of ex_doubt) [CommitPrepared ''t'']"
proof -
  have "map n_id (all_nodes (apply_wal_ops ex_json ex_doubt [CommitPrepared ''t''])) = [1, 2]"
    by code_simp
  moreover have "kind_ids ex_doubt = fmap_of_list [(''s'', 1), (''r'', 0)]"
      "prepared ex_doubt = fmap_of_list [(''t'', \<lparr>pe_prepared_at_ms = 5, pe_ops = [DeleteEdge 1, DeleteNode 3]\<rparr>)]"
    by code_simp+
  then have "replay_room ex_doubt [CommitPrepared ''t'']"
    by (simp add: replay_room_def prepared_weight_def fcard.rep_eq)
  ultimately show ?thesis
    using replay_implements_spec [OF ex_doubt_inv(1) _ ex_doubt_inv(3), of "[CommitPrepared ''t'']"] by simp
qed

end
