(* ===== verification/Native_Engine.thy ===== *)
theory Native_Engine
  imports Native_Spec Hlc
begin

text \<open>
  The engine around the graph state: \<open>NativeGraph\<close> of \<^verbatim>\<open>src/drevo-core/src/native.rs\<close>.
  It holds the live state, the log and the change feed, the registered transactions, the history of commits
  and the causal stamps, and it is where a write becomes durable and visible.

  The live state sits behind an \<open>Arc\<close>: a transaction keeps a handle on the state it began from, and the commit
  asks whether the live handle is still the same one. The model counts the identity of the live handle up with
  every \<open>Arc::make_mut\<close> and every swap; a handle somebody else holds is never changed in place, so two handles
  compare equal in the code exactly when the counts agree. All copies of the state share one pair of id
  counters, kept here and lent to the copy an operation works on (\<open>borrow\<close>).

  The log is the list of its records. What the disk does with an append is an argument of the operation; so
  are the readings of the clock. Sidecar files (stamps, tombstones) are best-effort copies of tables that are
  modelled, and are left out.
\<close>

section \<open>State\<close>

datatype stamp_target = StampNode u64 | StampEdge u64

record tomb =
  tomb_stamp :: stamp
  tomb_uuid :: "8 word list"

datatype isolation = Snapshot | Serializable

record 'j change_feed =
  start_seq :: u64
  feed_ops :: "'j wal_op list"

record 'j change_batch =
  cb_cursor :: u64
  cb_ops :: "'j wal_op list"
  cb_lagged :: bool

record 'j tx_slot =
  ts_base :: "'j inner"
  ts_base_ptr :: nat
  ts_working :: "'j inner"
  ts_ops :: "'j wal_op list"
  ts_isolation :: isolation
  ts_limited :: bool

record conflict_counters =
  cc_overlap :: u64
  cc_would_pass :: u64
  cc_history :: u64
  cc_merged :: u64

record 'j native_graph =
  ng_inner :: "'j inner"
  ng_ptr :: nat
  ng_ids :: id_counters
  ng_durable :: bool
  ng_wal :: "'j wal_op list list"
  ng_broken :: bool
  ng_feed :: "'j change_feed"
  ng_reg_txs :: "(u64, 'j tx_slot) fmap"
  ng_next_reg_tx :: u64
  ng_history :: commit_history
  ng_conflicts :: conflict_counters
  ng_isolation :: isolation
  ng_max_tx_writes :: nat
  ng_read_only :: bool
  ng_opened_read_only :: bool
  ng_origin :: origin_id
  ng_clock :: hlc_clock
  ng_stamps :: "(stamp_target, stamp) fmap"
  ng_tombstones :: "(stamp_target, tomb) fmap"

definition native_graph_new :: "origin_id \<Rightarrow> bool \<Rightarrow> 'j native_graph" where
  "native_graph_new origin durable =
     \<lparr>ng_inner = inner_default, ng_ptr = 0, ng_ids = \<lparr>last_node = 0, last_edge = 0\<rparr>, ng_durable = durable, ng_wal = [],
      ng_broken = False, ng_feed = \<lparr>start_seq = 0, feed_ops = []\<rparr>, ng_reg_txs = fmempty, ng_next_reg_tx = 0,
      ng_history = with_capacity DEFAULT_HISTORY,
      ng_conflicts = \<lparr>cc_overlap = 0, cc_would_pass = 0, cc_history = 0, cc_merged = 0\<rparr>,
      ng_isolation = Snapshot, ng_max_tx_writes = 0, ng_read_only = False, ng_opened_read_only = False,
      ng_origin = origin, ng_clock = clock_new, ng_stamps = fmempty, ng_tombstones = fmempty\<rparr>"

definition borrow :: "'j native_graph \<Rightarrow> 'j inner \<Rightarrow> 'j inner" where
  "borrow G g = g\<lparr>ids := ng_ids G\<rparr>"

definition live :: "'j native_graph \<Rightarrow> 'j inner" where
  "live G = borrow G (ng_inner G)"

definition put_live :: "'j native_graph \<Rightarrow> 'j inner \<Rightarrow> 'j native_graph" where
  "put_live G g = G\<lparr>ng_inner := g, ng_ids := ids g, ng_ptr := Suc (ng_ptr G)\<rparr>"

section \<open>The log and the change feed\<close>

text \<open>What happens to a record on its way to the disk. After a failed fsync the record is in the file.\<close>

datatype io_outcome = EncodeFails | WriteFails | SyncFails | Flushed

definition feed_extend :: "'j change_feed \<Rightarrow> 'j wal_op list \<Rightarrow> 'j change_feed" where
  "feed_extend f ops = f\<lparr>feed_ops := feed_ops f @ ops\<rparr>"

definition group_commit ::
    "'j native_graph \<Rightarrow> io_outcome \<Rightarrow> 'j wal_op list \<Rightarrow> 'j wal_op list \<Rightarrow> (core_error, unit) result \<times> 'j native_graph" where
  "group_commit G io wal_ops fops =
     (if io = EncodeFails then (Inl (Io EncodeError), G)
      else if ng_broken G then (Inl (Io WalBroken), G)
      else case io of
             WriteFails \<Rightarrow> (Inl (Io WriteError), G\<lparr>ng_broken := True\<rparr>)
           | SyncFails \<Rightarrow> (Inl (Io SyncError), G\<lparr>ng_wal := ng_wal G @ [wal_ops], ng_broken := True\<rparr>)
           | _ \<Rightarrow> (Inr (), G\<lparr>ng_wal := ng_wal G @ [wal_ops], ng_feed := feed_extend (ng_feed G) fops\<rparr>))"

definition record_split ::
    "'j native_graph \<Rightarrow> io_outcome \<Rightarrow> 'j wal_op list \<Rightarrow> 'j wal_op list \<Rightarrow> (core_error, unit) result \<times> 'j native_graph" where
  "record_split G io wal_ops fops =
     (if wal_ops = [] \<and> fops = [] then (Inr (), G)
      else if ng_durable G then group_commit G io wal_ops fops
      else (Inr (), G\<lparr>ng_feed := feed_extend (ng_feed G) fops\<rparr>))"

definition record_ops ::
    "'j native_graph \<Rightarrow> io_outcome \<Rightarrow> 'j wal_op list \<Rightarrow> (core_error, unit) result \<times> 'j native_graph" where
  "record_ops G io ops = record_split G io ops ops"

definition change_head :: "'j native_graph \<Rightarrow> u64" where
  "change_head G = start_seq (ng_feed G) + of_nat (length (feed_ops (ng_feed G)))"

definition change_floor :: "'j native_graph \<Rightarrow> u64" where
  "change_floor G = start_seq (ng_feed G)"

definition changes_since :: "'j native_graph \<Rightarrow> u64 \<Rightarrow> 'j change_batch" where
  "changes_since G cursor =
     (let feed = ng_feed G; head = start_seq feed + of_nat (length (feed_ops feed)) in
      if cursor < start_seq feed then \<lparr>cb_cursor = head, cb_ops = feed_ops feed, cb_lagged = True\<rparr>
      else let from = unat (min (cursor - start_seq feed) (of_nat (length (feed_ops feed))))
           in \<lparr>cb_cursor = head, cb_ops = drop from (feed_ops feed), cb_lagged = False\<rparr>)"

definition trim_before :: "'j native_graph \<Rightarrow> u64 \<Rightarrow> u64 \<times> 'j native_graph" where
  "trim_before G cursor =
     (let feed = ng_feed G; head = start_seq feed + of_nat (length (feed_ops feed)); target = min cursor head in
      if target \<le> start_seq feed then (start_seq feed, G)
      else (target,
            G\<lparr>ng_feed := \<lparr>start_seq = target, feed_ops = drop (unat (target - start_seq feed)) (feed_ops feed)\<rparr>\<rparr>))"

section \<open>Stamps\<close>

definition next_stamp :: "'j native_graph \<Rightarrow> int \<Rightarrow> stamp \<times> 'j native_graph" where
  "next_stamp G now = (let (h, c) = clock_tick (ng_clock G) now in (Stamp h (ng_origin G), G\<lparr>ng_clock := c\<rparr>))"

definition stamp_of :: "'j native_graph \<Rightarrow> stamp_target \<Rightarrow> stamp option" where
  "stamp_of G target = fmlookup (ng_stamps G) target"

definition stamp_write :: "'j native_graph \<Rightarrow> int \<Rightarrow> stamp_target \<Rightarrow> 'j native_graph" where
  "stamp_write G now target =
     (let (s, G) = next_stamp G now
      in G\<lparr>ng_stamps := fmupd target s (ng_stamps G), ng_tombstones := fmdrop target (ng_tombstones G)\<rparr>)"

definition stamp_tombstone :: "'j native_graph \<Rightarrow> int \<Rightarrow> stamp_target \<Rightarrow> 8 word list \<Rightarrow> 'j native_graph" where
  "stamp_tombstone G now target uuid =
     (let (s, G) = next_stamp G now
      in G\<lparr>ng_stamps := fmdrop target (ng_stamps G),
           ng_tombstones := fmupd target \<lparr>tomb_stamp = s, tomb_uuid = uuid\<rparr> (ng_tombstones G)\<rparr>)"

definition current_stamp :: "'j native_graph \<Rightarrow> stamp_target \<Rightarrow> stamp option" where
  "current_stamp G target =
     (case stamp_of G target of
        Some s \<Rightarrow> Some s
      | None \<Rightarrow> map_option tomb_stamp (fmlookup (ng_tombstones G) target))"

section \<open>Taking the writer lock\<close>

definition pending_gids :: "'j inner \<Rightarrow> string list" where
  "pending_gids g = map fst (sorted_list_of_fmap (prepared g))"

definition write_unless_read_only :: "'j native_graph \<Rightarrow> (core_error, 'j inner) result" where
  "write_unless_read_only G = (if ng_read_only G then Inl ReadOnly else Inr (live G))"

definition write_for_commit :: "'j native_graph \<Rightarrow> (core_error, 'j inner) result" where
  "write_for_commit G =
     (case write_unless_read_only G of
        Inl e \<Rightarrow> Inl e
      | Inr g \<Rightarrow> if prepared g \<noteq> fmempty then Inl (PreparedTransactionPending (pending_gids g)) else Inr g)"

definition note_commit :: "'j native_graph \<Rightarrow> 'j inner \<Rightarrow> conflict_set \<Rightarrow> 'j inner \<times> 'j native_graph" where
  "note_commit G g touched =
     (let g = g\<lparr>commit_seq := commit_seq g + 1\<rparr>
      in (g, G\<lparr>ng_history := ch_push (ng_history G) (commit_seq g) touched\<rparr>))"

definition count_conflict :: "'j native_graph \<Rightarrow> conflict_reason \<Rightarrow> 'j native_graph" where
  "count_conflict G reason =
     G\<lparr>ng_conflicts :=
         (case reason of
            Overlap \<Rightarrow> (ng_conflicts G)\<lparr>cc_overlap := cc_overlap (ng_conflicts G) + 1\<rparr>
          | WouldPass \<Rightarrow> (ng_conflicts G)\<lparr>cc_would_pass := cc_would_pass (ng_conflicts G) + 1\<rparr>
          | History \<Rightarrow> (ng_conflicts G)\<lparr>cc_history := cc_history (ng_conflicts G) + 1\<rparr>)\<rparr>"

definition note_conflict :: "'j native_graph \<Rightarrow> 'j inner \<Rightarrow> 'j wal_op list \<Rightarrow> 'j native_graph" where
  "note_conflict G base ops = count_conflict G (classify (ng_history G) (commit_seq base) (from_ops ops))"

definition set_read_only :: "'j native_graph \<Rightarrow> bool \<Rightarrow> (core_error, unit) result \<times> 'j native_graph" where
  "set_read_only G on =
     (if \<not> on \<and> ng_opened_read_only G then (Inl ReadOnly, G) else (Inr (), G\<lparr>ng_read_only := on\<rparr>))"

definition set_isolation :: "'j native_graph \<Rightarrow> isolation \<Rightarrow> 'j native_graph" where
  "set_isolation G i = G\<lparr>ng_isolation := i\<rparr>"

definition max_tx_writes :: "'j native_graph \<Rightarrow> nat option" where
  "max_tx_writes G = (if ng_max_tx_writes G = 0 then None else Some (ng_max_tx_writes G))"

definition set_max_tx_writes :: "'j native_graph \<Rightarrow> nat option \<Rightarrow> 'j native_graph" where
  "set_max_tx_writes G limit = G\<lparr>ng_max_tx_writes := (case limit of Some n \<Rightarrow> n | None \<Rightarrow> 0)\<rparr>"

definition check_tx_room :: "'j native_graph \<Rightarrow> nat \<Rightarrow> (core_error, unit) result" where
  "check_tx_room G buffered =
     (case max_tx_writes G of
        Some limit \<Rightarrow> if limit \<le> buffered then Inl (TransactionTooLarge limit) else Inr ()
      | None \<Rightarrow> Inr ())"

definition set_conflict_history :: "'j native_graph \<Rightarrow> nat \<Rightarrow> 'j native_graph" where
  "set_conflict_history G commits = G\<lparr>ng_history := ch_set_capacity (ng_history G) commits\<rparr>"

section \<open>Direct writes\<close>

text \<open>
  The part of a direct write under the writer lock: change the live state in place and note the commit. The
  lock is released before the record is written, so logging is a second step.
\<close>

definition write_locked ::
    "'j native_graph \<Rightarrow> ('j inner \<Rightarrow> (core_error, 'a) result \<times> 'j inner) \<Rightarrow> ('a \<Rightarrow> conflict_set) \<Rightarrow>
       (core_error, 'a) result \<times> 'j native_graph" where
  "write_locked G f touched =
     (case write_for_commit G of
        Inl e \<Rightarrow> (Inl e, G)
      | Inr g \<Rightarrow>
          (case f g of
             (Inl e, g) \<Rightarrow> (Inl e, put_live G g)
           | (Inr r, g) \<Rightarrow> (let (g, G) = note_commit G g (touched r) in (Inr r, put_live G g))))"

definition write_logged ::
    "io_outcome \<Rightarrow> ('a \<Rightarrow> 'j wal_op) \<Rightarrow> ('a \<Rightarrow> 'j native_graph \<Rightarrow> 'j native_graph) \<Rightarrow>
       (core_error, 'a) result \<times> 'j native_graph \<Rightarrow> (core_error, 'a) result \<times> 'j native_graph" where
  "write_logged io log stamp w =
     (case w of
        (Inl e, G) \<Rightarrow> (Inl e, G)
      | (Inr r, G) \<Rightarrow>
          (case record_ops G io [log r] of
             (Inl e, G) \<Rightarrow> (Inl e, G)
           | (Inr _, G) \<Rightarrow> (Inr r, stamp r G)))"

definition edge_touched :: "'j edge \<Rightarrow> conflict_set" where
  "edge_touched e = cs_edge (e_id e) (e_from e) (e_to e)"

definition ng_create_node ::
    "'j json_lib \<Rightarrow> env \<Rightarrow> int \<Rightarrow> io_outcome \<Rightarrow> 'j native_graph \<Rightarrow> 'j new_node \<Rightarrow> (core_error, 'j node) result \<times> 'j native_graph" where
  "ng_create_node J env now io G new_node =
     write_logged io UpsertNode (\<lambda>n G. stamp_write G now (StampNode (n_id n)))
       (write_locked G (\<lambda>g. create_node_checked J env g new_node True) (\<lambda>n. cs_node (n_id n)))"

definition ng_update_node ::
    "'j json_lib \<Rightarrow> env \<Rightarrow> int \<Rightarrow> io_outcome \<Rightarrow> 'j native_graph \<Rightarrow> u64 \<Rightarrow> 'j node_patch \<Rightarrow>
       (core_error, 'j node) result \<times> 'j native_graph" where
  "ng_update_node J env now io G i patch =
     write_logged io UpsertNode (\<lambda>n G. stamp_write G now (StampNode (n_id n)))
       (write_locked G (\<lambda>g. update_node_checked J env g i patch True) (\<lambda>n. cs_node (n_id n)))"

definition ng_delete_node ::
    "'j json_lib \<Rightarrow> int \<Rightarrow> io_outcome \<Rightarrow> 'j native_graph \<Rightarrow> u64 \<Rightarrow> (core_error, unit) result \<times> 'j native_graph" where
  "ng_delete_node J now io G i =
     (let uuid = map_option n_uuid (fmlookup (nodes (live G)) i) in
      write_logged io (\<lambda>_. DeleteNode i)
        (\<lambda>_ G. case uuid of Some u \<Rightarrow> stamp_tombstone G now (StampNode i) u | None \<Rightarrow> G)
        (write_locked G (\<lambda>g. delete_node J g i) (\<lambda>_. cs_deleted_node i)))"

definition ng_create_edge ::
    "env \<Rightarrow> int \<Rightarrow> io_outcome \<Rightarrow> 'j native_graph \<Rightarrow> 'j new_edge \<Rightarrow> (core_error, 'j edge) result \<times> 'j native_graph" where
  "ng_create_edge env now io G new_edge =
     write_logged io UpsertEdge (\<lambda>e G. stamp_write G now (StampEdge (e_id e)))
       (write_locked G (\<lambda>g. create_edge env g new_edge) edge_touched)"

definition ng_update_edge ::
    "int \<Rightarrow> io_outcome \<Rightarrow> 'j native_graph \<Rightarrow> u64 \<Rightarrow> 'j edge_patch \<Rightarrow> (core_error, 'j edge) result \<times> 'j native_graph" where
  "ng_update_edge now io G i patch =
     write_logged io UpsertEdge (\<lambda>e G. stamp_write G now (StampEdge (e_id e)))
       (write_locked G (\<lambda>g. update_edge g i patch) edge_touched)"

definition ng_delete_edge ::
    "int \<Rightarrow> io_outcome \<Rightarrow> 'j native_graph \<Rightarrow> u64 \<Rightarrow> (core_error, unit) result \<times> 'j native_graph" where
  "ng_delete_edge now io G i =
     (let uuid = map_option e_uuid (fmlookup (edges (live G)) i) in
      write_logged io (\<lambda>_. DeleteEdge i)
        (\<lambda>_ G. case uuid of Some u \<Rightarrow> stamp_tombstone G now (StampEdge i) u | None \<Rightarrow> G)
        (write_locked G (\<lambda>g. delete_edge g i) (\<lambda>_. cs_deleted_edge i)))"

definition set_embedding ::
    "'j json_lib \<Rightarrow> io_outcome \<Rightarrow> 'j native_graph \<Rightarrow> u64 \<Rightarrow> f32 list \<Rightarrow> (core_error, unit) result \<times> 'j native_graph" where
  "set_embedding J io G i vector =
     write_logged io (\<lambda>_. SetEmbedding i vector) (\<lambda>_ G. G)
       (write_locked G
          (\<lambda>g. if i |\<in>| fmdom (nodes g) then (Inr (), apply_wal_op J g (SetEmbedding i vector)) else (Inl (NodeNotFound i), g))
          (\<lambda>_. cs_node i))"

definition delete_embedding ::
    "'j json_lib \<Rightarrow> io_outcome \<Rightarrow> 'j native_graph \<Rightarrow> u64 \<Rightarrow> (core_error, unit) result \<times> 'j native_graph" where
  "delete_embedding J io G i =
     write_logged io (\<lambda>_. DeleteEmbedding i) (\<lambda>_ G. G)
       (write_locked G (\<lambda>g. (Inr (), apply_wal_op J g (DeleteEmbedding i))) (\<lambda>_. cs_node i))"

fun first_absent :: "'j inner \<Rightarrow> (u64 \<times> f32 list) list \<Rightarrow> u64 option" where
  "first_absent g [] = None"
| "first_absent g ((i, v) # es) = (if i |\<in>| fmdom (nodes g) then first_absent g es else Some i)"

definition set_embeddings_batch ::
    "'j json_lib \<Rightarrow> io_outcome \<Rightarrow> 'j native_graph \<Rightarrow> (u64 \<times> f32 list) list \<Rightarrow> (core_error, unit) result \<times> 'j native_graph" where
  "set_embeddings_batch J io G es =
     (if es = [] then (Inr (), G)
      else
        (case write_locked G
                (\<lambda>g. case first_absent g es of
                        Some i \<Rightarrow> (Inl (NodeNotFound i), g)
                      | None \<Rightarrow>
                          (let ops = map (\<lambda>(i, v). SetEmbedding i v) es
                           in (Inr ops, foldl (apply_wal_op J) g ops)))
                from_ops of
           (Inl e, G) \<Rightarrow> (Inl e, G)
         | (Inr ops, G) \<Rightarrow> record_ops G io ops))"

definition ng_apply_wal_ops ::
    "'j json_lib \<Rightarrow> io_outcome \<Rightarrow> 'j native_graph \<Rightarrow> 'j wal_op list \<Rightarrow> (core_error, unit) result \<times> 'j native_graph" where
  "ng_apply_wal_ops J io G ops =
     (if ops = [] then (Inr (), G)
      else
        (case write_unless_read_only G of
           Inl e \<Rightarrow> (Inl e, G)
         | Inr g \<Rightarrow>
             (let g = foldl (apply_wal_op J) g ops;
                  (g, G) = note_commit G g (from_ops ops)
              in record_ops (put_live G g) io ops)))"

section \<open>Batches on a working copy\<close>

text \<open>
  A batch is applied to a private copy that replaces the live state once its record is written. An error on
  the way leaves the live state, but the ids taken stay taken. The arguments come with the clock readings
  and UUIDs their creation makes.
\<close>

definition commit_working ::
    "io_outcome \<Rightarrow> 'j native_graph \<Rightarrow> 'j inner \<Rightarrow> 'j wal_op list \<Rightarrow> (core_error, unit) result \<times> 'j native_graph" where
  "commit_working io G working ops =
     (case record_ops (G\<lparr>ng_ids := ids working\<rparr>) io ops of
        (Inl e, G) \<Rightarrow> (Inl e, G)
      | (Inr _, G) \<Rightarrow> (let (g, G) = note_commit G working (from_ops ops) in (Inr (), put_live G g)))"

fun create_all :: "('b \<Rightarrow> 'j inner \<Rightarrow> (core_error, 'a) result \<times> 'j inner) \<Rightarrow> 'j inner \<Rightarrow> 'b list \<Rightarrow> (core_error, 'a list) result \<times> 'j inner" where
  "create_all f g [] = (Inr [], g)"
| "create_all f g (x # xs) =
     (case f x g of
        (Inl e, g) \<Rightarrow> (Inl e, g)
      | (Inr r, g) \<Rightarrow>
          (case create_all f g xs of
             (Inl e, g) \<Rightarrow> (Inl e, g)
           | (Inr rs, g) \<Rightarrow> (Inr (r # rs), g)))"

fun stamp_writes :: "'j native_graph \<Rightarrow> (nat \<Rightarrow> int) \<Rightarrow> stamp_target list \<Rightarrow> 'j native_graph" where
  "stamp_writes G nows [] = G"
| "stamp_writes G nows (t # ts) = stamp_writes (stamp_write G (nows 0) t) (\<lambda>k. nows (Suc k)) ts"

definition create_batch ::
    "('b \<Rightarrow> 'j inner \<Rightarrow> (core_error, 'a) result \<times> 'j inner) \<Rightarrow> ('a \<Rightarrow> 'j wal_op) \<Rightarrow> ('a \<Rightarrow> stamp_target) \<Rightarrow>
       (nat \<Rightarrow> int) \<Rightarrow> io_outcome \<Rightarrow> 'j native_graph \<Rightarrow> 'b list \<Rightarrow> (core_error, 'a list) result \<times> 'j native_graph" where
  "create_batch f log target nows io G xs =
     (if xs = [] then (Inr [], G)
      else
        (case write_for_commit G of
           Inl e \<Rightarrow> (Inl e, G)
         | Inr g \<Rightarrow>
             (case create_all f g xs of
                (Inl e, w) \<Rightarrow> (Inl e, G\<lparr>ng_ids := ids w\<rparr>)
              | (Inr rs, w) \<Rightarrow>
                  (case commit_working io G w (map log rs) of
                     (Inl e, G) \<Rightarrow> (Inl e, G)
                   | (Inr _, G) \<Rightarrow> (Inr rs, stamp_writes G nows (map target rs))))))"

definition create_nodes ::
    "'j json_lib \<Rightarrow> (nat \<Rightarrow> int) \<Rightarrow> io_outcome \<Rightarrow> 'j native_graph \<Rightarrow> (env \<times> 'j new_node) list \<Rightarrow>
       (core_error, 'j node list) result \<times> 'j native_graph" where
  "create_nodes J =
     create_batch (\<lambda>(env, nn) g. create_node_checked J env g nn True) UpsertNode (\<lambda>n. StampNode (n_id n))"

definition create_edges ::
    "(nat \<Rightarrow> int) \<Rightarrow> io_outcome \<Rightarrow> 'j native_graph \<Rightarrow> (env \<times> 'j new_edge) list \<Rightarrow>
       (core_error, 'j edge list) result \<times> 'j native_graph" where
  "create_edges = create_batch (\<lambda>(env, ne) g. create_edge env g ne) UpsertEdge (\<lambda>e. StampEdge (e_id e))"

fun delete_present :: "'j json_lib \<Rightarrow> 'j inner \<Rightarrow> u64 list \<Rightarrow> (core_error, (u64 \<times> 8 word list) list) result \<times> 'j inner" where
  "delete_present J w [] = (Inr [], w)"
| "delete_present J w (i # is) =
     (case fmlookup (nodes w) i of
        None \<Rightarrow> delete_present J w is
      | Some n \<Rightarrow>
          (case delete_node J w i of
             (Inl e, w) \<Rightarrow> (Inl e, w)
           | (Inr _, w) \<Rightarrow>
               (case delete_present J w is of
                  (Inl e, w) \<Rightarrow> (Inl e, w)
                | (Inr ds, w) \<Rightarrow> (Inr ((i, n_uuid n) # ds), w))))"

fun stamp_tombstones :: "'j native_graph \<Rightarrow> (nat \<Rightarrow> int) \<Rightarrow> (u64 \<times> 8 word list) list \<Rightarrow> 'j native_graph" where
  "stamp_tombstones G nows [] = G"
| "stamp_tombstones G nows ((i, u) # ds) =
     stamp_tombstones (stamp_tombstone G (nows 0) (StampNode i) u) (\<lambda>k. nows (Suc k)) ds"

definition delete_nodes ::
    "'j json_lib \<Rightarrow> (nat \<Rightarrow> int) \<Rightarrow> io_outcome \<Rightarrow> 'j native_graph \<Rightarrow> u64 list \<Rightarrow> (core_error, nat) result \<times> 'j native_graph" where
  "delete_nodes J nows io G is =
     (case write_for_commit G of
        Inl e \<Rightarrow> (Inl e, G)
      | Inr g \<Rightarrow>
          (case delete_present J g is of
             (Inl e, w) \<Rightarrow> (Inl e, G\<lparr>ng_ids := ids w\<rparr>)
           | (Inr ds, w) \<Rightarrow>
               if ds = [] then (Inr 0, G)
               else
                 (case commit_working io G w (map (\<lambda>(i, _). DeleteNode i) ds) of
                    (Inl e, G) \<Rightarrow> (Inl e, G)
                  | (Inr _, G) \<Rightarrow> (Inr (length ds), stamp_tombstones G nows ds))))"

section \<open>Transactions\<close>

datatype io_message = Rendered core_error | ClosedTransaction

datatype commit_error =
    CommitConflict
  | CommitConstraint constraint_violation
  | CommitIo io_message
  | CommitPreparedPending "string list"
  | CommitReadOnly

datatype prepare_error =
    UnknownTransaction
  | PrepareConflict
  | PrepareConstraint constraint_violation
  | DuplicateGid string
  | PreparePreparedPending "string list"
  | PrepareIo io_message
  | PrepareReadOnly

datatype resolve_error =
    UnknownGid string
  | HeuristicRollback string
  | ResolveIo io_message
  | ResolveReadOnly

definition begin_slot :: "'j native_graph \<Rightarrow> isolation \<Rightarrow> bool \<Rightarrow> 'j tx_slot" where
  "begin_slot G i limited =
     \<lparr>ts_base = ng_inner G, ts_base_ptr = ng_ptr G, ts_working = ng_inner G, ts_ops = [], ts_isolation = i, ts_limited = limited\<rparr>"

definition register_tx :: "'j native_graph \<Rightarrow> isolation \<Rightarrow> bool \<Rightarrow> u64 \<times> 'j native_graph" where
  "register_tx G i limited =
     (let t = ng_next_reg_tx G + 1
      in (t, G\<lparr>ng_next_reg_tx := t, ng_reg_txs := fmupd t (begin_slot G i limited) (ng_reg_txs G)\<rparr>))"

definition tx_begin :: "'j native_graph \<Rightarrow> u64 \<times> 'j native_graph" where
  "tx_begin G = register_tx G (ng_isolation G) True"

definition tx_begin_with :: "'j native_graph \<Rightarrow> isolation \<Rightarrow> u64 \<times> 'j native_graph" where
  "tx_begin_with G i = register_tx G i True"

definition tx_begin_statement :: "'j native_graph \<Rightarrow> u64 \<times> 'j native_graph" where
  "tx_begin_statement G = register_tx G (ng_isolation G) False"

definition tx_write_count :: "'j native_graph \<Rightarrow> u64 \<Rightarrow> nat option" where
  "tx_write_count G t = map_option (\<lambda>slot. length (ts_ops slot)) (fmlookup (ng_reg_txs G) t)"

definition tx_has_writes :: "'j native_graph \<Rightarrow> u64 \<Rightarrow> bool" where
  "tx_has_writes G t = (case tx_write_count G t of Some n \<Rightarrow> n > 0 | None \<Rightarrow> False)"

text \<open>A buffered write: on the working copy, with the shared counters, and onto the write set.\<close>

definition slot_write ::
    "'j native_graph \<Rightarrow> 'j tx_slot \<Rightarrow> ('j inner \<Rightarrow> (core_error, 'a) result \<times> 'j inner) \<Rightarrow> ('a \<Rightarrow> 'j wal_op) \<Rightarrow>
       (core_error, 'a) result \<times> 'j tx_slot \<times> 'j native_graph" where
  "slot_write G slot f log =
     (case (if ts_limited slot then check_tx_room G (length (ts_ops slot)) else Inr ()) of
        Inl e \<Rightarrow> (Inl e, slot, G)
      | Inr _ \<Rightarrow>
          (case f (borrow G (ts_working slot)) of
             (Inl e, g) \<Rightarrow> (Inl e, slot\<lparr>ts_working := g\<rparr>, G\<lparr>ng_ids := ids g\<rparr>)
           | (Inr r, g) \<Rightarrow> (Inr r, slot\<lparr>ts_working := g, ts_ops := ts_ops slot @ [log r]\<rparr>, G\<lparr>ng_ids := ids g\<rparr>)))"

definition closed_msg :: string where
  "closed_msg = ''the transaction has already been closed''"

definition with_slot ::
    "'j native_graph \<Rightarrow> u64 \<Rightarrow> ('j native_graph \<Rightarrow> 'j tx_slot \<Rightarrow> (core_error, 'a) result \<times> 'j tx_slot \<times> 'j native_graph) \<Rightarrow>
       (core_error, 'a) result \<times> 'j native_graph" where
  "with_slot G t f =
     (case fmlookup (ng_reg_txs G) t of
        None \<Rightarrow> (Inl (Backend closed_msg), G)
      | Some slot \<Rightarrow> (case f G slot of (r, slot, G) \<Rightarrow> (r, G\<lparr>ng_reg_txs := fmupd t slot (ng_reg_txs G)\<rparr>)))"

definition tx_create_node ::
    "'j json_lib \<Rightarrow> env \<Rightarrow> 'j native_graph \<Rightarrow> u64 \<Rightarrow> 'j new_node \<Rightarrow> (core_error, 'j node) result \<times> 'j native_graph" where
  "tx_create_node J env G t nn = with_slot G t (\<lambda>G slot. slot_write G slot (\<lambda>g. create_node_checked J env g nn False) UpsertNode)"

definition tx_update_node ::
    "'j json_lib \<Rightarrow> env \<Rightarrow> 'j native_graph \<Rightarrow> u64 \<Rightarrow> u64 \<Rightarrow> 'j node_patch \<Rightarrow> (core_error, 'j node) result \<times> 'j native_graph" where
  "tx_update_node J env G t i p = with_slot G t (\<lambda>G slot. slot_write G slot (\<lambda>g. update_node_checked J env g i p False) UpsertNode)"

definition tx_delete_node :: "'j json_lib \<Rightarrow> 'j native_graph \<Rightarrow> u64 \<Rightarrow> u64 \<Rightarrow> (core_error, unit) result \<times> 'j native_graph" where
  "tx_delete_node J G t i = with_slot G t (\<lambda>G slot. slot_write G slot (\<lambda>g. delete_node J g i) (\<lambda>_. DeleteNode i))"

definition tx_create_edge :: "env \<Rightarrow> 'j native_graph \<Rightarrow> u64 \<Rightarrow> 'j new_edge \<Rightarrow> (core_error, 'j edge) result \<times> 'j native_graph" where
  "tx_create_edge env G t ne = with_slot G t (\<lambda>G slot. slot_write G slot (\<lambda>g. create_edge env g ne) UpsertEdge)"

definition tx_update_edge :: "'j native_graph \<Rightarrow> u64 \<Rightarrow> u64 \<Rightarrow> 'j edge_patch \<Rightarrow> (core_error, 'j edge) result \<times> 'j native_graph" where
  "tx_update_edge G t i p = with_slot G t (\<lambda>G slot. slot_write G slot (\<lambda>g. update_edge g i p) UpsertEdge)"

definition tx_delete_edge :: "'j native_graph \<Rightarrow> u64 \<Rightarrow> u64 \<Rightarrow> (core_error, unit) result \<times> 'j native_graph" where
  "tx_delete_edge G t i = with_slot G t (\<lambda>G slot. slot_write G slot (\<lambda>g. delete_edge g i) (\<lambda>_. DeleteEdge i))"

definition touched_node :: "'j wal_op \<Rightarrow> u64 option" where
  "touched_node op = (case op of UpsertNode n \<Rightarrow> Some (n_id n) | DeleteNode i \<Rightarrow> Some i | _ \<Rightarrow> None)"

definition tx_index_overlay :: "'j native_graph \<Rightarrow> u64 \<Rightarrow> u64 fset option" where
  "tx_index_overlay G t =
     (case fmlookup (ng_reg_txs G) t of
        None \<Rightarrow> None
      | Some slot \<Rightarrow>
          if ts_base_ptr slot \<noteq> ng_ptr G then None
          else Some (fset_of_list (List.map_filter touched_node (ts_ops slot))))"

section \<open>Commit\<close>

definition prepared_set :: "'j inner \<Rightarrow> conflict_set" where
  "prepared_set g =
     foldl (\<lambda>set (_, entry). cs_extend set (from_ops (pe_ops entry))) cs_default (sorted_list_of_fmap (prepared g))"

definition with_prepared :: "'j json_lib \<Rightarrow> 'j inner \<Rightarrow> 'j inner" where
  "with_prepared J g =
     foldl (\<lambda>after (_, entry). foldl (apply_wal_op J) after (pe_ops entry)) g (sorted_list_of_fmap (prepared g))"

text \<open>The trial application works on a clone, which shares the id counters; it returns what they become.\<close>

definition breaks_prepared :: "'j json_lib \<Rightarrow> 'j inner \<Rightarrow> bool \<times> id_counters" where
  "breaks_prepared J g =
     (if prepared g = fmempty \<or> constraints g = [] then (False, ids g)
      else let after = with_prepared J g in (isl (validate_constraints J after), ids after))"

definition commit_merged ::
    "'j json_lib \<Rightarrow> io_outcome \<Rightarrow> 'j native_graph \<Rightarrow> 'j inner \<Rightarrow> 'j wal_op list \<Rightarrow> (commit_error, unit) result \<times> 'j native_graph" where
  "commit_merged J io G working ops =
     (case validate_constraints J working of
        Inl v \<Rightarrow> (Inl (CommitConstraint v), G)
      | Inr _ \<Rightarrow>
          (let m = foldl (apply_wal_op J) (live G) ops in
           if isl (validate_constraints J m) then (Inl CommitConflict, count_conflict (G\<lparr>ng_ids := ids m\<rparr>) Overlap)
           else
             (let (broken, c) = breaks_prepared J m; G = G\<lparr>ng_ids := c\<rparr> in
              if broken then (Inl (CommitPreparedPending (pending_gids (live G))), G)
              else
                (case record_ops G io ops of
                   (Inl e, G) \<Rightarrow> (Inl (CommitIo (Rendered e)), G)
                 | (Inr _, G) \<Rightarrow>
                     (let (m, G) = note_commit G (borrow G m) (from_ops ops);
                          G = G\<lparr>ng_conflicts := (ng_conflicts G)\<lparr>cc_merged := cc_merged (ng_conflicts G) + 1\<rparr>\<rparr>
                      in (Inr (), put_live G m))))))"

definition commit_parts ::
    "'j json_lib \<Rightarrow> io_outcome \<Rightarrow> 'j native_graph \<Rightarrow> 'j tx_slot \<Rightarrow> (commit_error, unit) result \<times> 'j native_graph" where
  "commit_parts J io G slot =
     (let ops = ts_ops slot; mine = from_ops ops; working = borrow G (ts_working slot) in
      if ops = [] then (Inr (), G)
      else if ng_read_only G then (Inl CommitReadOnly, G)
      else if prepared (live G) \<noteq> fmempty \<and> intersects mine (prepared_set (live G))
      then (Inl (CommitPreparedPending (pending_gids (live G))), G)
      else if ng_ptr G = ts_base_ptr slot then
        (case validate_constraints J working of
           Inl v \<Rightarrow> (Inl (CommitConstraint v), G)
         | Inr _ \<Rightarrow>
             (let (broken, c) = breaks_prepared J working; G = G\<lparr>ng_ids := c\<rparr> in
              if broken then (Inl (CommitPreparedPending (pending_gids (live G))), G)
              else
                (case record_ops G io ops of
                   (Inl e, G) \<Rightarrow> (Inl (CommitIo (Rendered e)), G)
                 | (Inr _, G) \<Rightarrow> (let (g, G) = note_commit G (borrow G working) mine in (Inr (), put_live G g)))))
      else
        (let reason = classify (ng_history G) (commit_seq (ts_base slot)) mine in
         if reason \<noteq> WouldPass \<or> ts_isolation slot = Serializable then (Inl CommitConflict, count_conflict G reason)
         else commit_merged J io G working ops))"

definition take_slot :: "'j native_graph \<Rightarrow> u64 \<Rightarrow> ('j tx_slot \<times> 'j native_graph) option" where
  "take_slot G t =
     (case fmlookup (ng_reg_txs G) t of
        None \<Rightarrow> None
      | Some slot \<Rightarrow> Some (slot, G\<lparr>ng_reg_txs := fmdrop t (ng_reg_txs G)\<rparr>))"

definition tx_commit ::
    "'j json_lib \<Rightarrow> io_outcome \<Rightarrow> 'j native_graph \<Rightarrow> u64 \<Rightarrow> (commit_error, unit) result \<times> 'j native_graph" where
  "tx_commit J io G t =
     (case take_slot G t of
        None \<Rightarrow> (Inl (CommitIo ClosedTransaction), G)
      | Some (slot, G) \<Rightarrow> commit_parts J io G slot)"

definition tx_rollback :: "'j native_graph \<Rightarrow> u64 \<Rightarrow> bool \<times> 'j native_graph" where
  "tx_rollback G t = (case take_slot G t of None \<Rightarrow> (False, G) | Some (slot, G) \<Rightarrow> (True, G))"

section \<open>Two-phase commit\<close>

definition tx_prepare ::
    "'j json_lib \<Rightarrow> int \<Rightarrow> io_outcome \<Rightarrow> 'j native_graph \<Rightarrow> u64 \<Rightarrow> string \<Rightarrow> (prepare_error, unit) result \<times> 'j native_graph" where
  "tx_prepare J now io G t gid =
     (case take_slot G t of
        None \<Rightarrow> (Inl UnknownTransaction, G)
      | Some (slot, G) \<Rightarrow>
          if ng_read_only G then (Inl PrepareReadOnly, G)
          else if gid |\<in>| fmdom (prepared (live G)) then (Inl (DuplicateGid gid), G)
          else if prepared (live G) \<noteq> fmempty then (Inl (PreparePreparedPending (pending_gids (live G))), G)
          else if ng_ptr G \<noteq> ts_base_ptr slot then (Inl PrepareConflict, note_conflict G (ts_base slot) (ts_ops slot))
          else
            (case validate_constraints J (borrow G (ts_working slot)) of
               Inl v \<Rightarrow> (Inl (PrepareConstraint v), G)
             | Inr _ \<Rightarrow>
                 (case record_split G io [Prepare gid now (ts_ops slot)] [] of
                    (Inl e, G) \<Rightarrow> (Inl (PrepareIo (Rendered e)), G)
                  | (Inr _, G) \<Rightarrow>
                      (let g = (live G)\<lparr>heuristic := heuristic (live G) |-| {|gid|},
                                        prepared := fmupd gid \<lparr>pe_prepared_at_ms = now, pe_ops = ts_ops slot\<rparr> (prepared (live G))\<rparr>;
                           (g, G) = note_commit G g cs_default
                       in (Inr (), put_live G g)))))"

definition commit_prepared ::
    "'j json_lib \<Rightarrow> io_outcome \<Rightarrow> 'j native_graph \<Rightarrow> string \<Rightarrow> (resolve_error, unit) result \<times> 'j native_graph" where
  "commit_prepared J io G gid =
     (if ng_read_only G then (Inl ResolveReadOnly, G)
      else
        (case fmlookup (prepared (live G)) gid of
           None \<Rightarrow> (Inl (if gid |\<in>| heuristic (live G) then HeuristicRollback gid else UnknownGid gid), G)
         | Some entry \<Rightarrow>
             (case record_split G io [CommitPrepared gid] (pe_ops entry) of
                (Inl e, G) \<Rightarrow> (Inl (ResolveIo (Rendered e)), G)
              | (Inr _, G) \<Rightarrow>
                  (let (g, G) = note_commit G (apply_wal_op J (live G) (CommitPrepared gid)) (from_ops (pe_ops entry))
                   in (Inr (), put_live G g)))))"

definition rollback_prepared_as ::
    "'j json_lib \<Rightarrow> io_outcome \<Rightarrow> 'j native_graph \<Rightarrow> string \<Rightarrow> bool \<Rightarrow> (resolve_error, unit) result \<times> 'j native_graph" where
  "rollback_prepared_as J io G gid heur =
     (if ng_read_only G then (Inl ResolveReadOnly, G)
      else if gid |\<notin>| fmdom (prepared (live G)) then
        (if \<not> heur \<and> gid |\<in>| heuristic (live G) then (Inr (), G) else (Inl (UnknownGid gid), G))
      else
        (case record_split G io [RollbackPrepared gid heur] [] of
           (Inl e, G) \<Rightarrow> (Inl (ResolveIo (Rendered e)), G)
         | (Inr _, G) \<Rightarrow>
             (let (g, G) = note_commit G (apply_wal_op J (live G) (RollbackPrepared gid heur)) cs_default
              in (Inr (), put_live G g))))"

definition list_prepared :: "'j native_graph \<Rightarrow> (string \<times> int \<times> nat) list" where
  "list_prepared G =
     map (\<lambda>(gid, entry). (gid, pe_prepared_at_ms entry, length (pe_ops entry))) (sorted_list_of_fmap (prepared (live G)))"

section \<open>Constraints and replay\<close>

definition add_constraint ::
    "'j json_lib \<Rightarrow> 'j native_graph \<Rightarrow> schema_constraint \<Rightarrow> (constraint_violation, unit) result \<times> 'j native_graph" where
  "add_constraint J G c =
     (let g = live G in
      if List.member (constraints g) c then (Inr (), put_live G g)
      else let g' = g\<lparr>constraints := constraints g @ [c]\<rparr> in
           case validate_constraints J g' of
             Inl v \<Rightarrow> (Inl v, put_live G g)
           | Inr _ \<Rightarrow> (let (g, G) = note_commit G (sync_unique J g') everything in (Inr (), put_live G g)))"

definition remove_constraint :: "'j json_lib \<Rightarrow> 'j native_graph \<Rightarrow> schema_constraint \<Rightarrow> bool \<times> 'j native_graph" where
  "remove_constraint J G c =
     (let g = live G; before = length (constraints g);
          g = sync_unique J (g\<lparr>constraints := filter (\<lambda>d. d \<noteq> c) (constraints g)\<rparr>)
      in if length (constraints g) \<noteq> before
         then (let (g, G) = note_commit G g everything in (True, put_live G g))
         else (False, put_live G g))"

definition dump_wal :: "'j native_graph \<Rightarrow> 'j wal_op list" where
  "dump_wal G = to_wal_ops (live G)"

definition ng_replay :: "'j json_lib \<Rightarrow> origin_id \<Rightarrow> 'j wal_op list \<Rightarrow> 'j native_graph" where
  "ng_replay J origin ops =
     (let g = foldl (apply_wal_op J) inner_default ops
      in (put_live (native_graph_new origin False) g)\<lparr>ng_feed := \<lparr>start_seq = 0, feed_ops = to_wal_ops g\<rparr>\<rparr>)"

end
