(* ===== verification/Native_Tx.thy ===== *)
theory Native_Tx
  imports Native_Engine
begin

text \<open>
  What the engine promises about commits. The invariant ties the live state, the history of commits and every
  open transaction to one list: the commits since the engine was opened, each with what it touched and the
  changes it made. From it follow the isolation of transactions, their atomicity and the fence of two-phase commit.
\<close>

section \<open>Moves of a graph state\<close>

text \<open>The records of a state, without the two-phase-commit tables.\<close>

definition data_of :: "'j inner \<Rightarrow> 'j durable" where
  "data_of g = (durable_of g)\<lparr>d_prepared := fmempty, d_heuristic := {||}\<rparr>"

lemma data_of_sel [simp]:
  "d_nodes (data_of g) = nodes g" "d_edges (data_of g) = edges g" "d_embeddings (data_of g) = embeddings g"
  "d_prepared (data_of g) = fmempty" "d_heuristic (data_of g) = {||}"
  by (simp_all add: data_of_def)

lemma data_of_eq: "data_of g = data_of g' \<longleftrightarrow> nodes g = nodes g' \<and> edges g = edges g' \<and> embeddings g = embeddings g'"
  by (auto simp: data_of_def durable_of_def)

lemma data_of_frame [simp]:
  "data_of (g\<lparr>ids := c\<rparr>) = data_of g" "data_of (g\<lparr>commit_seq := k\<rparr>) = data_of g" "data_of (g\<lparr>prepared := p\<rparr>) = data_of g"
  "data_of (g\<lparr>heuristic := h\<rparr>) = data_of g" "data_of (g\<lparr>constraints := cs\<rparr>) = data_of g" "data_of (g\<lparr>unique := u\<rparr>) = data_of g"
  by (simp_all add: data_of_eq)

lemma spec_plain_tables:
  assumes "is_plain op"
  shows "spec_plain (d\<lparr>d_prepared := p, d_heuristic := h\<rparr>) op = (spec_plain d op)\<lparr>d_prepared := p, d_heuristic := h\<rparr>"
    and "d_prepared (spec_plain d op) = d_prepared d" and "d_heuristic (spec_plain d op) = d_heuristic d"
  using assms by (cases op; simp)+

lemma spec_plains_tables:
  assumes "list_all is_plain ops"
  shows "foldl spec_plain (d\<lparr>d_prepared := p, d_heuristic := h\<rparr>) ops = (foldl spec_plain d ops)\<lparr>d_prepared := p, d_heuristic := h\<rparr>"
    and "d_prepared (foldl spec_plain d ops) = d_prepared d" and "d_heuristic (foldl spec_plain d ops) = d_heuristic d"
  using assms by (induction ops arbitrary: d) (simp_all add: spec_plain_tables)

lemma durable_data:
  assumes "durable_of g' = foldl spec_plain (durable_of g) ops" and "list_all is_plain ops"
  shows "data_of g' = foldl spec_plain (data_of g) ops" and "prepared g' = prepared g" and "heuristic g' = heuristic g"
  using assms(1) spec_plains_tables [OF assms(2)] unfolding data_of_def
  by (simp_all add: arg_cong [where f = d_prepared, OF assms(1), simplified] arg_cong [where f = d_heuristic, OF assms(1), simplified])

definition ids_le :: "id_counters \<Rightarrow> id_counters \<Rightarrow> bool" where
  "ids_le c c' \<longleftrightarrow> last_node c \<le> last_node c' \<and> last_edge c \<le> last_edge c'"

lemma ids_le_refl [simp]: "ids_le c c"
  by (simp add: ids_le_def)

lemma ids_le_trans: "ids_le a b \<Longrightarrow> ids_le b c \<Longrightarrow> ids_le a c"
  by (auto simp: ids_le_def)

lemma graph_inv_ids: "graph_inv J g \<Longrightarrow> ids_le (ids g) c \<Longrightarrow> graph_inv J (g\<lparr>ids := c\<rparr>)"
  by (fastforce simp: graph_inv_def nodes_inv_def edges_inv_def ids_le_def)

lemma graph_inv_constraints [simp]: "graph_inv J (g\<lparr>constraints := cs\<rparr>) = graph_inv J g"
  by (simp add: graph_inv_def nodes_inv_def edges_inv_def)

text \<open>
  A move applies record changes and keeps the state well formed. A write is a move that leaves the tables of
  two-phase commit and the declared constraints alone.
\<close>

definition moves :: "'j json_lib \<Rightarrow> 'j inner \<Rightarrow> 'j inner \<Rightarrow> 'j wal_op list \<Rightarrow> bool" where
  "moves J g g' ops \<longleftrightarrow> graph_inv J g' \<and> data_of g' = foldl spec_plain (data_of g) ops \<and> list_all is_plain ops \<and>
     commit_seq g' = commit_seq g \<and> ids_le (ids g) (ids g')"

definition writes :: "'j json_lib \<Rightarrow> 'j inner \<Rightarrow> 'j inner \<Rightarrow> 'j wal_op list \<Rightarrow> bool" where
  "writes J g g' ops \<longleftrightarrow> moves J g g' ops \<and> prepared g' = prepared g \<and> heuristic g' = heuristic g \<and> constraints g' = constraints g"

lemma writes_refl: "graph_inv J g \<Longrightarrow> writes J g g []"
  by (simp add: writes_def moves_def)

lemma writes_trans: "writes J g g' ops \<Longrightarrow> writes J g' g'' ops' \<Longrightarrow> writes J g g'' (ops @ ops')"
  by (auto simp: writes_def moves_def intro: ids_le_trans)

lemma ids_le_succ:
  assumes "uint (last_node c) + int (Suc k) < 2 ^ 64" and "uint (last_edge c) + int (Suc k) < 2 ^ 64"
  shows "last_node c \<le> last_node c + 1" and "last_edge c \<le> last_edge c + 1"
  using uint_succ [OF assms(1)] uint_succ [OF assms(2)] by (simp_all add: word_le_def)

lemma commit_seq_frame [simp]:
  "commit_seq (link_edge e g) = commit_seq g" "commit_seq (relink i e g) = commit_seq g"
  "commit_seq (foldl remove_edge g is) = commit_seq g" "commit_seq (reindex J i old n g) = commit_seq g"
  "commit_seq (with_node J n g) = commit_seq g"
  by (simp_all add: link_edge_def relink_def reindex_def with_node_def case_prod_beta Let_def)
    (induction "is" arbitrary: g; simp)

lemma drop_node_frame [simp]:
  "heuristic (drop_node J g n i) = heuristic g" "constraints (drop_node J g n i) = constraints g"
  "commit_seq (drop_node J g n i) = commit_seq g" "ids (drop_node J g n i) = ids g"
  by (simp_all add: drop_node_def Let_def)

lemma upsert_frame [simp]:
  "heuristic (upsert_node J n g) = heuristic g" "constraints (upsert_node J n g) = constraints g"
  "commit_seq (upsert_node J n g) = commit_seq g" "heuristic (upsert_edge e g) = heuristic g"
  "constraints (upsert_edge e g) = constraints g" "commit_seq (upsert_edge e g) = commit_seq g"
  by (simp_all add: upsert_node_def upsert_edge_def Let_def split: option.split)

definition same_tables :: "'j inner \<Rightarrow> 'j inner \<Rightarrow> bool" where
  "same_tables g g' \<longleftrightarrow> prepared g' = prepared g \<and> heuristic g' = heuristic g \<and> constraints g' = constraints g \<and>
     commit_seq g' = commit_seq g"

lemma live_step_frame: "same_tables g (live_step J g op)"
proof -
  have "same_tables g (snd (create_node_checked J env g nn b))" for env nn b
    by (cases rule: create_node_cases [of J env g nn b]) (simp_all add: same_tables_def with_node_def Let_def)
  moreover have "same_tables g (snd (update_node_checked J env g i p b))" for env i p b
    by (cases rule: update_node_cases [of g i J env p b]) (simp_all add: same_tables_def)
  moreover have "same_tables g (snd (create_edge env g ne))" for env ne
    by (cases rule: create_edge_cases [of env g ne]) (simp_all add: same_tables_def)
  moreover have "same_tables g (snd (update_edge g i p))" for i p
    by (cases rule: update_edge_cases [of g i p]) (simp_all add: same_tables_def)
  ultimately show ?thesis
    by (cases op) (simp_all add: same_tables_def delete_node_def delete_edge_def split: option.split)
qed

lemma live_step_ids:
  assumes "room (Suc k) g"
  shows "ids_le (ids g) (ids (live_step J g op))"
proof -
  have succ: "last_node (ids g) \<le> last_node (ids g) + 1" "last_edge (ids g) \<le> last_edge (ids g) + 1"
    using assms by (auto simp: room_def intro: ids_le_succ)
  have "ids_le (ids g) (ids (snd (create_node_checked J env g nn b)))" for env nn b
    using succ by (cases rule: create_node_cases [of J env g nn b]) (simp_all add: with_node_def Let_def ids_le_def next_node_def)
  moreover have "ids_le (ids g) (ids (snd (update_node_checked J env g i p b)))" for env i p b
    by (cases rule: update_node_cases [of g i J env p b]) auto
  moreover have "ids_le (ids g) (ids (snd (create_edge env g ne)))" for env ne
    using succ by (cases rule: create_edge_cases [of env g ne]) (simp_all add: ids_le_def next_edge_def Let_def)
  moreover have "ids_le (ids g) (ids (snd (update_edge g i p)))" for i p
    by (cases rule: update_edge_cases [of g i p]) auto
  ultimately show ?thesis
    by (cases op) (simp_all add: delete_node_def delete_edge_def split: option.split)
qed

lemma live_writes:
  assumes "graph_inv J g" and "room (Suc k) g"
  shows "writes J g (live_step J g op) (live_log J g op)"
  using live_step_graph_inv [OF assms, of op] durable_data(1) [OF live_step_durable [OF assms(1)] live_log_plain]
    live_step_ids [OF assms(2)] live_log_plain [of J g op]
    live_step_frame [of g J op]
  by (simp add: writes_def moves_def same_tables_def)

lemma replay_plain_frame:
  "list_all is_plain ops \<Longrightarrow>
     constraints (apply_wal_ops J g ops) = constraints g \<and> commit_seq (apply_wal_ops J g ops) = commit_seq g \<and>
     ids_le (ids g) (ids (apply_wal_ops J g ops))"
proof (induction ops arbitrary: g)
  case (Cons op ops)
  let ?h = "apply_wal_op J g op"
  have ids: "ids (upsert_node J n g) = (ids g)\<lparr>last_node := max (last_node (ids g)) (n_id n)\<rparr>"
    "ids (upsert_edge e g) = (ids g)\<lparr>last_edge := max (last_edge (ids g)) (e_id e)\<rparr>" for n e
    by (simp_all add: upsert_node_def upsert_edge_def Let_def observe_node_def observe_edge_def observe_updated_at_def split: option.split)
  have h: "constraints ?h = constraints g \<and> commit_seq ?h = commit_seq g \<and> ids_le (ids g) (ids ?h)"
    using Cons.prems by (cases op) (auto simp: apply_wal_op_def ids ids_le_def split: option.split)
  have "apply_wal_ops J g (op # ops) = apply_wal_ops J ?h ops"
    by (simp add: apply_wal_ops_foldl)
  with h Cons show ?case
    by (auto intro: ids_le_trans)
qed simp

lemma replay_writes:
  assumes "graph_inv J g" and "list_all is_plain ops" and "replay_room g ops" and "flat_prepared (prepared g)"
  shows "writes J g (apply_wal_ops J g ops) ops"
  using durable_data [OF replay_plain [OF assms] assms(2)] apply_wal_ops_inv [OF assms(1,3)] replay_plain_frame [OF assms(2)] assms(2)
  by (simp add: writes_def moves_def)

section \<open>The invariant of the engine\<close>

text \<open>The commits so far: what each declared as touched, and the changes it made to the records.\<close>

type_synonym 'j trace = "(conflict_set \<times> 'j wal_op list) list"

abbreviation changes :: "'j trace \<Rightarrow> 'j wal_op list" where
  "changes tr \<equiv> concat (map snd tr)"

definition trace_ok :: "'j trace \<Rightarrow> bool" where
  "trace_ok tr \<longleftrightarrow> (\<forall>(c, ops) \<in> set tr. list_all is_plain ops \<and> (c = from_ops ops \<or> c = everything \<and> ops = []))"

text \<open>
  An open transaction: its working copy is its base with its write set applied, and the live state is its base
  with the commits it has not seen applied. While nothing was committed or tried, the base is the live state.
\<close>

definition slot_inv :: "'j json_lib \<Rightarrow> 'j inner \<Rightarrow> nat \<Rightarrow> 'j trace \<Rightarrow> 'j tx_slot \<Rightarrow> bool" where
  "slot_inv J g ptr tr slot \<longleftrightarrow>
     graph_inv J ((ts_working slot)\<lparr>ids := ids g\<rparr>) \<and> same_tables (ts_base slot) (ts_working slot) \<and>
     list_all is_plain (ts_ops slot) \<and> data_of (ts_working slot) = foldl spec_plain (data_of (ts_base slot)) (ts_ops slot) \<and>
     ts_base_ptr slot \<le> ptr \<and> (ts_base_ptr slot = ptr \<longrightarrow> (ts_base slot)\<lparr>ids := ids g\<rparr> = g) \<and>
     (\<exists>n \<le> length tr. commit_seq (ts_base slot) = of_nat n \<and>
        data_of g = foldl spec_plain (data_of (ts_base slot)) (changes (drop n tr)))"

definition engine_inv :: "'j json_lib \<Rightarrow> 'j native_graph \<Rightarrow> 'j trace \<Rightarrow> bool" where
  "engine_inv J G tr \<longleftrightarrow>
     graph_inv J (live G) \<and> flat_prepared (prepared (live G)) \<and> twopc_ok (live G) \<and> length tr < 2 ^ 64 - 1 \<and>
     commit_seq (live G) = of_nat (length tr) \<and> trace_ok tr \<and>
     (\<exists>d. ch_recent (ng_history G) = drop d (numbered (map fst tr))) \<and>
     (\<forall>t slot. fmlookup (ng_reg_txs G) t = Some slot \<longrightarrow> slot_inv J (live G) (ng_ptr G) tr slot)"

lemma engine_invD:
  assumes "engine_inv J G tr"
  shows "graph_inv J (live G)" and "flat_prepared (prepared (live G))" and "twopc_ok (live G)" and "length tr < 2 ^ 64 - 1"
    and "commit_seq (live G) = of_nat (length tr)" and "trace_ok tr"
    and "\<exists>d. ch_recent (ng_history G) = drop d (numbered (map fst tr))"
    and "fmlookup (ng_reg_txs G) t = Some slot \<Longrightarrow> slot_inv J (live G) (ng_ptr G) tr slot"
  using assms unfolding engine_inv_def by blast+

lemma live_simps [simp]:
  "live (put_live G g) = g" "ng_ptr (put_live G g) = Suc (ng_ptr G)" "ids (live G) = ng_ids G"
  "ng_reg_txs (put_live G g) = ng_reg_txs G" "ng_history (put_live G g) = ng_history G" "ng_wal (put_live G g) = ng_wal G"
  "ng_feed (put_live G g) = ng_feed G" "ng_broken (put_live G g) = ng_broken G" "ng_durable (put_live G g) = ng_durable G"
  "ng_ids (put_live G g) = ids g"
  "live (G\<lparr>ng_ids := c\<rparr>) = (live G)\<lparr>ids := c\<rparr>" "live (G\<lparr>ng_history := h\<rparr>) = live G" "live (G\<lparr>ng_reg_txs := r\<rparr>) = live G"
  "live (G\<lparr>ng_wal := w\<rparr>) = live G" "live (G\<lparr>ng_broken := b\<rparr>) = live G" "live (G\<lparr>ng_feed := f\<rparr>) = live G"
  "live (G\<lparr>ng_clock := k\<rparr>) = live G" "live (G\<lparr>ng_stamps := s\<rparr>) = live G" "live (G\<lparr>ng_tombstones := t\<rparr>) = live G"
  "live (G\<lparr>ng_conflicts := cc\<rparr>) = live G" "live (G\<lparr>ng_next_reg_tx := x\<rparr>) = live G"
  "live (G\<lparr>ng_read_only := ro\<rparr>) = live G" "live (G\<lparr>ng_isolation := i\<rparr>) = live G" "live (G\<lparr>ng_max_tx_writes := m\<rparr>) = live G"
  by (simp_all add: live_def borrow_def put_live_def)

lemma borrow_simps [simp]:
  "ids (borrow G g) = ng_ids G" "data_of (borrow G g) = data_of g" "prepared (borrow G g) = prepared g"
  "heuristic (borrow G g) = heuristic g" "constraints (borrow G g) = constraints g" "commit_seq (borrow G g) = commit_seq g"
  "borrow (G\<lparr>ng_reg_txs := r\<rparr>) g = borrow G g"
  by (simp_all add: borrow_def)

text \<open>What the invariant looks at.\<close>

lemma engine_inv_cong:
  assumes "engine_inv J G tr" and "live G' = live G" "ng_ptr G' = ng_ptr G" "ng_history G' = ng_history G" "ng_reg_txs G' = ng_reg_txs G"
  shows "engine_inv J G' tr"
  using assms unfolding engine_inv_def by simp

lemma slot_move:
  assumes "slot_inv J g ptr tr slot" and "data_of g' = foldl spec_plain (data_of g) ops" and "ids_le (ids g) (ids g')"
  shows "slot_inv J g' (Suc ptr) (tr @ [(c, ops)]) slot" and "ops = [] \<Longrightarrow> slot_inv J g' (Suc ptr) tr slot"
proof -
  have w: "graph_inv J ((ts_working slot)\<lparr>ids := ids g'\<rparr>)"
    using assms(1,3) graph_inv_ids [of J "(ts_working slot)\<lparr>ids := ids g\<rparr>" "ids g'"] by (simp add: slot_inv_def)
  obtain n where n: "n \<le> length tr" "commit_seq (ts_base slot) = of_nat n"
      "data_of g = foldl spec_plain (data_of (ts_base slot)) (changes (drop n tr))"
    using assms(1) unfolding slot_inv_def by blast
  then have "n \<le> length (tr @ [(c, ops)]) \<and> commit_seq (ts_base slot) = of_nat n \<and>
      data_of g' = foldl spec_plain (data_of (ts_base slot)) (changes (drop n (tr @ [(c, ops)])))"
    using assms(2) by simp
  with w assms(1) show "slot_inv J g' (Suc ptr) (tr @ [(c, ops)]) slot"
    unfolding slot_inv_def by (auto simp only: le_Suc_eq)
  show "slot_inv J g' (Suc ptr) tr slot" if "ops = []"
    using w assms(1,2) n that unfolding slot_inv_def by auto
qed

lemma slot_ids: "slot_inv J g ptr tr slot \<Longrightarrow> ids_le (ids g) c \<Longrightarrow> slot_inv J (g\<lparr>ids := c\<rparr>) ptr tr slot"
  using graph_inv_ids [of J "(ts_working slot)\<lparr>ids := ids g\<rparr>" c] unfolding slot_inv_def
  by (auto dest: arg_cong [where f = "\<lambda>g. g\<lparr>ids := c\<rparr>"])

text \<open>The ways the engine moves: counters, a change in place without a commit, a commit, a transaction.\<close>

lemma engine_ids:
  assumes "engine_inv J G tr" and "ids_le (ng_ids G) c"
  shows "engine_inv J (G\<lparr>ng_ids := c\<rparr>) tr"
proof -
  note I = engine_invD [OF assms(1)]
  have "graph_inv J ((live G)\<lparr>ids := c\<rparr>)"
    using graph_inv_ids [OF I(1)] assms(2) by simp
  moreover have "slot_inv J ((live G)\<lparr>ids := c\<rparr>) (ng_ptr G) tr slot" if "fmlookup (ng_reg_txs G) t = Some slot" for t slot
    using slot_ids [OF I(8) [OF that]] assms(2) by simp
  ultimately show ?thesis
    using I by (simp add: engine_inv_def twopc_ok_def)
qed

lemma engine_touch:
  assumes "engine_inv J G tr" and "moves J (live G) g []" and "flat_prepared (prepared g)" and "twopc_ok g"
  shows "engine_inv J (put_live G g) tr"
proof -
  note I = engine_invD [OF assms(1)]
  have "slot_inv J g (Suc (ng_ptr G)) tr slot" if "fmlookup (ng_reg_txs G) t = Some slot" for t slot
    using slot_move(2) [OF I(8) [OF that], of g "[]"] assms(2) by (simp add: moves_def)
  then show ?thesis
    using assms I by (simp add: engine_inv_def moves_def)
qed

lemma ch_push_suffix:
  assumes "ch_recent h = drop d (numbered sets)"
  shows "\<exists>d. ch_recent (ch_push h (of_nat (Suc (length sets))) c) = drop d (numbered (sets @ [c]))"
proof (cases "d \<le> length sets")
  case True
  then have "ch_recent h @ [(of_nat (Suc (length sets)), c)] = drop d (numbered (sets @ [c]))"
    by (simp add: assms numbered_snoc)
  then show ?thesis
    by (auto simp: ch_push_def ch_trim_def pop_excess_drop)
next
  case False
  then have "ch_recent h @ [(of_nat (Suc (length sets)), c)] = drop (length sets) (numbered (sets @ [c]))"
    by (simp add: assms numbered_snoc)
  then show ?thesis
    by (auto simp: ch_push_def ch_trim_def pop_excess_drop)
qed

lemma engine_commit:
  assumes "engine_inv J G tr" and "moves J (live G) g ops" and "flat_prepared (prepared g)" and "twopc_ok g"
    and "c = from_ops ops \<or> c = everything \<and> ops = []" and "uint (commit_seq (live G)) + 2 < 2 ^ 64"
    and "note_commit G g c = (g', G')"
  shows "engine_inv J (put_live G' g') (tr @ [(c, ops)])"
proof -
  note I = engine_invD [OF assms(1)]
  have g': "g' = g\<lparr>commit_seq := of_nat (Suc (length tr))\<rparr>"
    and G': "G' = G\<lparr>ng_history := ch_push (ng_history G) (of_nat (Suc (length (map fst tr)))) c\<rparr>"
    using assms(2,7) I(5) by (simp_all add: note_commit_def moves_def Let_def add.commute)
  have slots: "slot_inv J g' (Suc (ng_ptr G)) (tr @ [(c, ops)]) slot" if "fmlookup (ng_reg_txs G) t = Some slot" for t slot
    using slot_move(1) [OF I(8) [OF that], of g' ops c] assms(2) by (simp add: moves_def g')
  have "unat (of_nat (length tr) :: u64) = length tr"
    using I(4) by (intro unat_of_nat_small) simp
  then have "Suc (length tr) < 2 ^ 64 - 1"
    using assms(6) I(5) by (simp add: uint_nat)
  moreover have "trace_ok (tr @ [(c, ops)])"
    using I(6) assms(2,5) by (auto simp: trace_ok_def moves_def)
  moreover obtain d where "ch_recent (ng_history G) = drop d (numbered (map fst tr))"
    using I(7) by blast
  note ch_push_suffix [OF this, of c]
  ultimately show ?thesis
    using slots assms(2,3,4) unfolding engine_inv_def
    by (simp add: g' G' moves_def twopc_ok_def)
qed

lemma engine_slots:
  assumes "engine_inv J G tr" and "\<And>t slot. fmlookup r t = Some slot \<Longrightarrow> fmlookup (ng_reg_txs G) t = Some slot \<or> slot_inv J (live G) (ng_ptr G) tr slot"
  shows "engine_inv J (G\<lparr>ng_reg_txs := r\<rparr>) tr"
  using assms engine_invD(8) [OF assms(1)] unfolding engine_inv_def by (simp; blast)

end
