(* ===== verification/Native_Delta.thy ===== *)
theory Native_Delta
  imports Native_Tx
begin

text \<open>
  Replication by deltas (\<^verbatim>\<open>delta.rs\<close>, and \<^verbatim>\<open>version_vector\<close>, \<^verbatim>\<open>delta_since\<close>, \<^verbatim>\<open>apply_delta\<close> of \<^verbatim>\<open>native.rs\<close>): what a replica
  has seen as the greatest timestamp per origin, the changes a peer is missing, and their merge by last writer wins,
  with records identified by their uuid.

  The tables of stamps and tombstones are finite maps. The code walks the stamps in the order of their ids and the
  tombstones in the order of a hash table; here both are walked in the order of their targets.
\<close>

section \<open>Version vectors\<close>

type_synonym uuid = "8 word list"

record version_vector =
  vv_max :: "(origin_id, hlc) fmap"

definition vv_new :: version_vector where
  "vv_new = \<lparr>vv_max = fmempty\<rparr>"

definition vv_observe :: "version_vector \<Rightarrow> stamp \<Rightarrow> version_vector" where
  "vv_observe v s =
     (let slot = (case fmlookup (vv_max v) (stamp_origin s) of Some h \<Rightarrow> h | None \<Rightarrow> hlc_default)
      in v\<lparr>vv_max := fmupd (stamp_origin s) (if slot < stamp_hlc s then stamp_hlc s else slot) (vv_max v)\<rparr>)"

definition vv_get :: "version_vector \<Rightarrow> origin_id \<Rightarrow> hlc option" where
  "vv_get v origin = fmlookup (vv_max v) origin"

definition dominates :: "version_vector \<Rightarrow> stamp \<Rightarrow> bool" where
  "dominates v s = (case vv_get v (stamp_origin s) of Some seen \<Rightarrow> stamp_hlc s \<le> seen | None \<Rightarrow> False)"

section \<open>Changes on the wire\<close>

record 'j stamped_edge =
  se_edge :: "'j edge"
  se_from_uuid :: uuid
  se_to_uuid :: uuid
  se_stamp :: stamp

datatype 'j stamped_change =
  ChangeNode "'j node" stamp | ChangeEdge "'j stamped_edge" | ChangeDeleteNode uuid stamp | ChangeDeleteEdge uuid stamp

fun change_stamp :: "'j stamped_change \<Rightarrow> stamp" where
  "change_stamp (ChangeNode n s) = s"
| "change_stamp (ChangeEdge se) = se_stamp se"
| "change_stamp (ChangeDeleteNode u s) = s"
| "change_stamp (ChangeDeleteEdge u s) = s"

fun apply_phase :: "'j stamped_change \<Rightarrow> nat" where
  "apply_phase (ChangeNode n s) = 0"
| "apply_phase (ChangeEdge se) = 1"
| "apply_phase (ChangeDeleteEdge u s) = 2"
| "apply_phase (ChangeDeleteNode u s) = 3"

record apply_stats =
  st_applied :: nat
  st_skipped :: nat

section \<open>Order of the tables\<close>

fun target_key :: "stamp_target \<Rightarrow> nat \<times> u64" where
  "target_key (StampNode i) = (0, i)"
| "target_key (StampEdge i) = (1, i)"

lemma target_key_inj: "target_key a = target_key b \<longleftrightarrow> a = b"
  by (cases a; cases b) auto

instantiation stamp_target :: linorder
begin

definition less_eq_stamp_target :: "stamp_target \<Rightarrow> stamp_target \<Rightarrow> bool" where
  "less_eq_stamp_target a b \<longleftrightarrow>
     fst (target_key a) < fst (target_key b) \<or> fst (target_key a) = fst (target_key b) \<and> snd (target_key a) \<le> snd (target_key b)"

definition less_stamp_target :: "stamp_target \<Rightarrow> stamp_target \<Rightarrow> bool" where
  "less_stamp_target a b \<longleftrightarrow>
     fst (target_key a) < fst (target_key b) \<or> fst (target_key a) = fst (target_key b) \<and> snd (target_key a) < snd (target_key b)"

instance
  by standard (auto simp: less_eq_stamp_target_def less_stamp_target_def prod_eq_iff simp flip: target_key_inj)

end

section \<open>Marks\<close>

definition mark_live :: "'j native_graph \<Rightarrow> stamp_target \<Rightarrow> stamp \<Rightarrow> 'j native_graph" where
  "mark_live G target s =
     G\<lparr>ng_stamps := fmupd target s (ng_stamps G), ng_tombstones := fmdrop target (ng_tombstones G)\<rparr>"

definition mark_tombstoned :: "'j native_graph \<Rightarrow> stamp_target \<Rightarrow> stamp \<Rightarrow> uuid \<Rightarrow> 'j native_graph" where
  "mark_tombstoned G target s u =
     G\<lparr>ng_tombstones := fmupd target \<lparr>tomb_stamp = s, tomb_uuid = u\<rparr> (ng_tombstones G), ng_stamps := fmdrop target (ng_stamps G)\<rparr>"

definition observe_stamp :: "int \<Rightarrow> 'j native_graph \<Rightarrow> stamp \<Rightarrow> 'j native_graph" where
  "observe_stamp now G s = G\<lparr>ng_clock := snd (clock_update (ng_clock G) (stamp_hlc s) now)\<rparr>"

section \<open>What a peer is missing\<close>

definition version_vector :: "'j native_graph \<Rightarrow> version_vector" where
  "version_vector G =
     foldl (\<lambda>v (target, tomb). vv_observe v (tomb_stamp tomb))
       (foldl (\<lambda>v (target, s). vv_observe v s) vv_new (sorted_list_of_fmap (ng_stamps G)))
       (sorted_list_of_fmap (ng_tombstones G))"

definition live_change :: "'j inner \<Rightarrow> stamp_target \<times> stamp \<Rightarrow> 'j stamped_change option" where
  "live_change g ts =
     (case ts of (target, s) \<Rightarrow>
       (case target of
          StampNode i \<Rightarrow> map_option (\<lambda>n. ChangeNode n s) (fmlookup (nodes g) i)
        | StampEdge i \<Rightarrow>
            (case fmlookup (edges g) i of
               None \<Rightarrow> None
             | Some e \<Rightarrow>
                 (case (fmlookup (nodes g) (e_from e), fmlookup (nodes g) (e_to e)) of
                    (Some f, Some t) \<Rightarrow> Some (ChangeEdge \<lparr>se_edge = e, se_from_uuid = n_uuid f, se_to_uuid = n_uuid t, se_stamp = s\<rparr>)
                  | _ \<Rightarrow> None))))"

fun dead_change :: "stamp_target \<times> tomb \<Rightarrow> 'j stamped_change" where
  "dead_change (StampNode i, tomb) = ChangeDeleteNode (tomb_uuid tomb) (tomb_stamp tomb)"
| "dead_change (StampEdge i, tomb) = ChangeDeleteEdge (tomb_uuid tomb) (tomb_stamp tomb)"

definition delta_since :: "'j native_graph \<Rightarrow> version_vector \<Rightarrow> 'j stamped_change list" where
  "delta_since G remote =
     (let missing_live = filter (\<lambda>(target, s). \<not> dominates remote s) (sorted_list_of_fmap (ng_stamps G));
          missing_dead = filter (\<lambda>(target, tomb). \<not> dominates remote (tomb_stamp tomb)) (sorted_list_of_fmap (ng_tombstones G))
      in List.map_filter (live_change (live G)) missing_live @ map dead_change missing_dead)"

section \<open>Merging a delta\<close>

record remap =
  rm_node :: "(uuid, u64) fmap"
  rm_edge :: "(uuid, u64) fmap"
  rm_tomb :: "(uuid, stamp_target) fmap"

definition remap_of :: "'j native_graph \<Rightarrow> remap" where
  "remap_of G =
     \<lparr>rm_node = collect_map (map (\<lambda>(i, n). (n_uuid n, n_id n)) (sorted_list_of_fmap (nodes (live G)))),
      rm_edge = collect_map (map (\<lambda>(i, e). (e_uuid e, e_id e)) (sorted_list_of_fmap (edges (live G)))),
      rm_tomb = collect_map (map (\<lambda>(target, t). (tomb_uuid t, target)) (sorted_list_of_fmap (ng_tombstones G)))\<rparr>"

definition node_target :: "remap \<Rightarrow> uuid \<Rightarrow> u64 option" where
  "node_target rm u =
     (case fmlookup (rm_node rm) u of
        Some i \<Rightarrow> Some i
      | None \<Rightarrow> (case fmlookup (rm_tomb rm) u of Some (StampNode i) \<Rightarrow> Some i | _ \<Rightarrow> None))"

definition edge_target :: "remap \<Rightarrow> uuid \<Rightarrow> u64 option" where
  "edge_target rm u =
     (case fmlookup (rm_edge rm) u of
        Some i \<Rightarrow> Some i
      | None \<Rightarrow> (case fmlookup (rm_tomb rm) u of Some (StampEdge i) \<Rightarrow> Some i | _ \<Rightarrow> None))"

text \<open>Whether the local state of a target is at least as new as an incoming stamp.\<close>

definition outdated :: "'j native_graph \<Rightarrow> stamp_target option \<Rightarrow> stamp \<Rightarrow> bool" where
  "outdated G cur incoming =
     (case cur of
        None \<Rightarrow> False
      | Some t \<Rightarrow> (case current_stamp G t of None \<Rightarrow> False | Some local \<Rightarrow> incoming \<le> local))"

text \<open>The record under its local id, which is minted if the uuid is new.\<close>

definition place_node :: "'j json_lib \<Rightarrow> u64 option \<Rightarrow> 'j node \<Rightarrow> 'j inner \<Rightarrow> 'j node \<times> 'j inner" where
  "place_node J cur node g =
     (let (i, g) = (case cur of Some i \<Rightarrow> (i, g) | None \<Rightarrow> next_node g); n = node\<lparr>n_id := i\<rparr>
      in (n, apply_wal_op J g (UpsertNode n)))"

definition place_edge :: "'j json_lib \<Rightarrow> u64 option \<Rightarrow> 'j edge \<Rightarrow> 'j inner \<Rightarrow> 'j edge \<times> 'j inner" where
  "place_edge J cur edge g =
     (let (i, g) = (case cur of Some i \<Rightarrow> (i, g) | None \<Rightarrow> next_edge g); e = edge\<lparr>e_id := i\<rparr>
      in (e, apply_wal_op J g (UpsertEdge e)))"

definition apply_node_upsert ::
    "'j json_lib \<Rightarrow> io_outcome \<Rightarrow> int \<Rightarrow> 'j native_graph \<Rightarrow> 'j node \<Rightarrow> stamp \<Rightarrow> remap \<Rightarrow>
       (core_error, bool) result \<times> 'j native_graph \<times> remap" where
  "apply_node_upsert J io now G node incoming rm =
     (let u = n_uuid node; cur = node_target rm u in
      if outdated G (map_option StampNode cur) incoming then (Inr False, G, rm)
      else
        (case write_logged io UpsertNode (\<lambda>n G. mark_live G (StampNode (n_id n)) incoming)
                (write_locked G (\<lambda>g. map_prod Inr id (place_node J cur node g)) (\<lambda>n. cs_node (n_id n))) of
           (Inl e, G) \<Rightarrow> (Inl e, G, rm)
         | (Inr n, G) \<Rightarrow>
             (Inr True, observe_stamp now G incoming,
              rm\<lparr>rm_node := fmupd u (n_id n) (rm_node rm), rm_tomb := fmdrop u (rm_tomb rm)\<rparr>)))"

definition apply_edge_upsert ::
    "'j json_lib \<Rightarrow> io_outcome \<Rightarrow> int \<Rightarrow> 'j native_graph \<Rightarrow> 'j stamped_edge \<Rightarrow> remap \<Rightarrow>
       (core_error, bool) result \<times> 'j native_graph \<times> remap" where
  "apply_edge_upsert J io now G se rm =
     (case (fmlookup (rm_node rm) (se_from_uuid se), fmlookup (rm_node rm) (se_to_uuid se)) of
        (Some from_local, Some to_local) \<Rightarrow>
          (let u = e_uuid (se_edge se); cur = edge_target rm u in
           if outdated G (map_option StampEdge cur) (se_stamp se) then (Inr False, G, rm)
           else
             (case write_logged io UpsertEdge (\<lambda>e G. mark_live G (StampEdge (e_id e)) (se_stamp se))
                     (write_locked G (\<lambda>g. map_prod Inr id (place_edge J cur ((se_edge se)\<lparr>e_from := from_local, e_to := to_local\<rparr>) g))
                        edge_touched) of
                (Inl e, G) \<Rightarrow> (Inl e, G, rm)
              | (Inr e, G) \<Rightarrow>
                  (Inr True, observe_stamp now G (se_stamp se),
                   rm\<lparr>rm_edge := fmupd u (e_id e) (rm_edge rm), rm_tomb := fmdrop u (rm_tomb rm)\<rparr>)))
      | _ \<Rightarrow> (Inr False, G, rm))"

text \<open>
  A delete removes the live record and logs the removal; of a record that is already deleted it only raises the
  stamp; of an unknown record it keeps a tombstone under a fresh id, which changes no record and logs nothing.
\<close>

definition remove_for_delete ::
    "'j json_lib \<Rightarrow> io_outcome \<Rightarrow> 'j native_graph \<Rightarrow> bool \<Rightarrow> u64 option \<Rightarrow> u64 option \<Rightarrow> (core_error, u64) result \<times> 'j native_graph" where
  "remove_for_delete J io G is_node live_id cur =
     (case cur of
        Some i \<Rightarrow>
          (case live_id of
             None \<Rightarrow> (Inr i, G)
           | Some i' \<Rightarrow>
               (let op = (if is_node then DeleteNode i' else DeleteEdge i') in
                write_logged io (\<lambda>_. op) (\<lambda>_ G. G) (write_locked G (\<lambda>g. map_prod Inr id (i, apply_wal_op J g op)) (\<lambda>_. from_ops [op]))))
      | None \<Rightarrow>
          write_locked G (\<lambda>g. map_prod Inr id (if is_node then next_node g else next_edge g)) (\<lambda>_. cs_default))"

definition apply_delete ::
    "'j json_lib \<Rightarrow> io_outcome \<Rightarrow> int \<Rightarrow> 'j native_graph \<Rightarrow> uuid \<Rightarrow> stamp \<Rightarrow> bool \<Rightarrow> remap \<Rightarrow>
       (core_error, bool) result \<times> 'j native_graph \<times> remap" where
  "apply_delete J io now G u incoming is_node rm =
     (let live_id = fmlookup (if is_node then rm_node rm else rm_edge rm) u;
          cur = (if is_node then node_target rm u else edge_target rm u);
          as_target = (if is_node then StampNode else StampEdge)
      in if outdated G (map_option as_target cur) incoming then (Inr False, G, rm)
         else
           (case remove_for_delete J io G is_node live_id cur of
              (Inl e, G) \<Rightarrow> (Inl e, G, rm)
            | (Inr i, G) \<Rightarrow>
                (Inr True, observe_stamp now (mark_tombstoned G (as_target i) incoming u) incoming,
                 (if is_node then rm\<lparr>rm_node := fmdrop u (rm_node rm), rm_tomb := fmupd u (as_target i) (rm_tomb rm)\<rparr>
                  else rm\<lparr>rm_edge := fmdrop u (rm_edge rm), rm_tomb := fmupd u (as_target i) (rm_tomb rm)\<rparr>))))"

fun apply_change ::
    "'j json_lib \<Rightarrow> io_outcome \<Rightarrow> int \<Rightarrow> 'j native_graph \<Rightarrow> remap \<Rightarrow> 'j stamped_change \<Rightarrow>
       (core_error, bool) result \<times> 'j native_graph \<times> remap" where
  "apply_change J io now G rm (ChangeNode n s) = apply_node_upsert J io now G n s rm"
| "apply_change J io now G rm (ChangeEdge se) = apply_edge_upsert J io now G se rm"
| "apply_change J io now G rm (ChangeDeleteNode u s) = apply_delete J io now G u s True rm"
| "apply_change J io now G rm (ChangeDeleteEdge u s) = apply_delete J io now G u s False rm"

text \<open>The loop, with what the disk and the clock do at every change; an error ends it where it is.\<close>

fun apply_changes ::
    "'j json_lib \<Rightarrow> (nat \<Rightarrow> io_outcome \<times> int) \<Rightarrow> nat \<Rightarrow> 'j native_graph \<Rightarrow> remap \<Rightarrow> apply_stats \<Rightarrow> 'j stamped_change list \<Rightarrow>
       (core_error, apply_stats) result \<times> 'j native_graph" where
  "apply_changes J env k G rm stats [] = (Inr stats, G)"
| "apply_changes J env k G rm stats (c # cs) =
     (case apply_change J (fst (env k)) (snd (env k)) G rm c of
        (Inl e, G, rm) \<Rightarrow> (Inl e, G)
      | (Inr won, G, rm) \<Rightarrow>
          apply_changes J env (Suc k) G rm
            (if won then stats\<lparr>st_applied := st_applied stats + 1\<rparr> else stats\<lparr>st_skipped := st_skipped stats + 1\<rparr>) cs)"

definition apply_delta ::
    "'j json_lib \<Rightarrow> (nat \<Rightarrow> io_outcome \<times> int) \<Rightarrow> 'j native_graph \<Rightarrow> 'j stamped_change list \<Rightarrow>
       (core_error, apply_stats) result \<times> 'j native_graph" where
  "apply_delta J env G delta =
     apply_changes J env 0 G (remap_of G) \<lparr>st_applied = 0, st_skipped = 0\<rparr> (sort_key apply_phase delta)"

end
