(* ===== verification/Native_Sync.thy ===== *)
theory Native_Sync
  imports Native_Delta
begin

text \<open>
  What one change of a delta does to the tables of a replica. The node with a uuid is a last-writer-wins register: its
  state is the record, or its absence, with its stamp (\<open>register_of\<close>). A change of a node writes its register, a
  change of a relationship writes none, and all of them keep the invariant of the tables (\<open>apply_change_step\<close>).
\<close>

section \<open>The invariant of the tables\<close>

text \<open>The resolution by uuid is exact for nodes and tombstones, and for relationships.\<close>

definition nodes_mapped :: "'j native_graph \<Rightarrow> remap \<Rightarrow> bool" where
  "nodes_mapped G rm =
     ((\<forall>u i. fmlookup (rm_node rm) u = Some i \<longleftrightarrow> (\<exists>n. fmlookup (nodes (live G)) i = Some n \<and> n_uuid n = u)) \<and>
      (\<forall>u t. fmlookup (rm_tomb rm) u = Some t \<longleftrightarrow> (\<exists>x. fmlookup (ng_tombstones G) t = Some x \<and> tomb_uuid x = u)))"

definition edges_mapped :: "'j native_graph \<Rightarrow> remap \<Rightarrow> bool" where
  "edges_mapped G rm =
     (\<forall>u i. fmlookup (rm_edge rm) u = Some i \<longleftrightarrow> (\<exists>e. fmlookup (edges (live G)) i = Some e \<and> e_uuid e = u))"

text \<open>
  Records carry their ids, a uuid belongs to a node or to a relationship, live records have no tombstone, and there is
  room for \<open>k\<close> more changes.
\<close>

definition dead_ok :: "(uuid \<Rightarrow> bool) \<Rightarrow> 'j native_graph \<Rightarrow> bool" where
  "dead_ok isn G =
     ((\<forall>i x. fmlookup (ng_tombstones G) (StampNode i) = Some x \<longrightarrow>
         fmlookup (nodes (live G)) i = None \<and> i \<le> last_node (ng_ids G) \<and> isn (tomb_uuid x) \<and>
         (\<forall>j n. fmlookup (nodes (live G)) j = Some n \<longrightarrow> n_uuid n \<noteq> tomb_uuid x)) \<and>
      (\<forall>i x. fmlookup (ng_tombstones G) (StampEdge i) = Some x \<longrightarrow>
         fmlookup (edges (live G)) i = None \<and> i \<le> last_edge (ng_ids G) \<and> \<not> isn (tomb_uuid x) \<and>
         (\<forall>j e. fmlookup (edges (live G)) j = Some e \<longrightarrow> e_uuid e \<noteq> tomb_uuid x)))"

definition live_ok :: "(uuid \<Rightarrow> bool) \<Rightarrow> 'j native_graph \<Rightarrow> bool" where
  "live_ok isn G =
     ((\<forall>i n. fmlookup (nodes (live G)) i = Some n \<longrightarrow> isn (n_uuid n)) \<and>
      (\<forall>i e. fmlookup (edges (live G)) i = Some e \<longrightarrow> \<not> isn (e_uuid e)) \<and>
      (\<forall>t x. fmlookup (ng_tombstones G) t = Some x \<longrightarrow> fmlookup (ng_stamps G) t = None))"

definition sync_room :: "nat \<Rightarrow> 'j inner \<Rightarrow> bool" where
  "sync_room k g =
     (uint (last_node (ids g)) + int k < 2 ^ 64 \<and> uint (last_edge (ids g)) + int k < 2 ^ 64 \<and>
      int (fcard (fmdom (kind_ids g))) + 2 * int k < 2 ^ 32)"

definition sync_inv :: "'j json_lib \<Rightarrow> (uuid \<Rightarrow> bool) \<Rightarrow> nat \<Rightarrow> 'j native_graph \<Rightarrow> bool" where
  "sync_inv J isn k G = (graph_inv J (live G) \<and> dead_ok isn G \<and> live_ok isn G \<and> sync_room k (live G))"

text \<open>The uuids of a delta are of the right kind.\<close>

fun change_typed :: "(uuid \<Rightarrow> bool) \<Rightarrow> 'j stamped_change \<Rightarrow> bool" where
  "change_typed isn (ChangeNode n s) = isn (n_uuid n)"
| "change_typed isn (ChangeEdge se) = (\<not> isn (e_uuid (se_edge se)))"
| "change_typed isn (ChangeDeleteNode u s) = isn u"
| "change_typed isn (ChangeDeleteEdge u s) = (\<not> isn u)"

section \<open>Steps of the engine\<close>

lemma write_locked_Inr:
  assumes "write_locked G (\<lambda>g. map_prod Inr id (p g)) touched = (Inr x, G')"
  shows "prepared (live G) = fmempty" "x = fst (p (live G))" "live G' = (snd (p (live G)))\<lparr>commit_seq := commit_seq (snd (p (live G))) + 1\<rparr>"
    "ng_stamps G' = ng_stamps G" "ng_tombstones G' = ng_tombstones G"
  using assms by (auto simp: write_locked_def write_for_commit_def write_unless_read_only_def note_commit_def put_live_def Let_def live_def borrow_def
      map_prod_def split: if_splits prod.splits)

lemma write_logged_Inr:
  assumes "write_logged io log st w = (Inr x, G')"
  obtains G1 G2 where "w = (Inr x, G1)" "G' = st x G2" "live G2 = live G1" "ng_stamps G2 = ng_stamps G1" "ng_tombstones G2 = ng_tombstones G1"
proof -
  obtain G1 where w: "w = (Inr x, G1)"
    using assms by (auto simp: write_logged_def split: prod.splits sum.splits)
  with assms obtain G2 where r: "record_ops G1 io [log x] = (Inr (), G2)" "G' = st x G2"
    by (auto simp: write_logged_def split: prod.splits sum.splits)
  then have "live G2 = live G1" "ng_stamps G2 = ng_stamps G1" "ng_tombstones G2 = ng_tombstones G1"
    by (auto simp: record_ops_def record_split_def group_commit_def split: if_splits io_outcome.splits)
  with w r(2) that show thesis
    by blast
qed

lemma committed:
  assumes "write_logged io log st (write_locked G (\<lambda>g. map_prod Inr id (p g)) touched) = (Inr x, G')"
  obtains G2 where "prepared (live G) = fmempty" "x = fst (p (live G))" "G' = st x G2" "live G2 = (snd (p (live G)))\<lparr>commit_seq := commit_seq (snd (p (live G))) + 1\<rparr>"
    "ng_stamps G2 = ng_stamps G" "ng_tombstones G2 = ng_tombstones G"
proof -
  obtain G1 G2 where "write_locked G (\<lambda>g. map_prod Inr id (p g)) touched = (Inr x, G1)" "G' = st x G2" "live G2 = live G1"
      "ng_stamps G2 = ng_stamps G1" "ng_tombstones G2 = ng_tombstones G1"
    using write_logged_Inr [OF assms] by metis
  with write_locked_Inr [OF this(1)] that show thesis
    by simp
qed

text \<open>One operation of the log on a state without prepared transactions.\<close>

lemma plain_op:
  assumes "graph_inv J g" and "prepared g = fmempty" and "int (fcard (fmdom (kind_ids g))) + 2 * int (Suc k) < 2 ^ 32" and "is_plain op"
  shows "durable_of (apply_wal_op J g op) = spec_plain (durable_of g) op" and "graph_inv J (apply_wal_op J g op)"
    and "int (fcard (fmdom (kind_ids (apply_wal_op J g op)))) + 2 * int k < 2 ^ 32"
proof -
  have weight: "prepared_weight (fmempty :: (string, 'a prepared_entry) fmap) = 0" "flat_prepared (prepared g)"
    using assms(2) by (simp_all add: prepared_weight_def flat_prepared_def)
  have plain: "list_all is_plain (op # replicate k (DeleteNode 0 :: 'a wal_op))"
    using assms(4) by (simp add: list_all_iff)
  have room: "replay_room g (op # replicate k (DeleteNode 0))"
    using assms(2,3) weight(1) size_plain [OF plain] by (simp add: replay_room_def)
  then have room1: "replay_room g [op]"
    by (simp add: replay_room_def)
  have head: "wal_head J g op = (apply_wal_op J g op, [])"
    using assms(4) by (cases op) (simp_all add: wal_head_def)
  show "durable_of (apply_wal_op J g op) = spec_plain (durable_of g) op"
    using replay_plain [OF assms(1) _ room1 weight(2)] assms(4) by (simp add: apply_wal_op_def)
  show "graph_inv J (apply_wal_op J g op)"
    using wal_head_inv(1) [OF assms(1) room] head by simp
  show "int (fcard (fmdom (kind_ids (apply_wal_op J g op)))) + 2 * int k < 2 ^ 32"
    using wal_head_inv(2) [OF assms(1) room] head size_plain [of "replicate k (DeleteNode 0 :: 'a wal_op)"] by (simp add: replay_room_def list_all_iff)
qed

lemma plain_op_ids:
  "ids (apply_wal_op J g (UpsertNode n)) = (ids g)\<lparr>last_node := max (last_node (ids g)) (n_id n)\<rparr>"
  "ids (apply_wal_op J g (UpsertEdge e)) = (ids g)\<lparr>last_edge := max (last_edge (ids g)) (e_id e)\<rparr>"
  "ids (apply_wal_op J g (DeleteNode i)) = ids g" "ids (apply_wal_op J g (DeleteEdge i)) = ids g"
  by (simp_all add: apply_wal_op_def upsert_node_def upsert_edge_def Let_def split: option.split)

lemma durable_eqD:
  "durable_of g' = d \<Longrightarrow> nodes g' = d_nodes d" "durable_of g' = d \<Longrightarrow> edges g' = d_edges d" "durable_of g' = d \<Longrightarrow> prepared g' = d_prepared d"
  by auto

lemma next_node_graph: "graph_inv J g \<Longrightarrow> last_node (ids g) \<noteq> - 1 \<Longrightarrow> graph_inv J (snd (next_node g))"
  using next_node_inv(1) [of J g] by (simp add: graph_inv_def edges_inv_def)

lemma next_edge_graph: "graph_inv J g \<Longrightarrow> last_edge (ids g) \<noteq> - 1 \<Longrightarrow> graph_inv J (snd (next_edge g))"
proof -
  assume g: "graph_inv J g" and "last_edge (ids g) \<noteq> - 1"
  then have "last_edge (ids g) < last_edge (ids g) + 1" and inv: "edges_inv g"
    by (simp_all add: graph_inv_def)
  then have "edges_inv (snd (next_edge g))"
    using edges_invD [OF inv] by (intro edges_invI) (auto dest: order_le_less_trans less_imp_le)
  with g show ?thesis
    by (simp add: graph_inv_def nodes_inv_def)
qed

lemma sync_room_succ:
  assumes "sync_room (Suc k) g"
  shows "last_node (ids g) \<noteq> - 1" "last_edge (ids g) \<noteq> - 1" "sync_room k g" "uint (last_node (ids g) + 1) + int k < 2 ^ 64"
    "uint (last_edge (ids g) + 1) + int k < 2 ^ 64"
  using assms uint_succ [of "last_node (ids g)" k] uint_succ [of "last_edge (ids g)" k] by (auto simp: sync_room_def)

lemma graph_inv_seq [simp]: "graph_inv J (g\<lparr>commit_seq := c\<rparr>) = graph_inv J g"
  by (simp add: graph_inv_def nodes_inv_def edges_inv_def)

lemma sync_room_seq [simp]: "sync_room k (g\<lparr>commit_seq := c\<rparr>) = sync_room k g"
  by (simp add: sync_room_def)

lemma sync_room_op:
  assumes "sync_room (Suc k) g" and "int (fcard (fmdom (kind_ids g'))) + 2 * int k < 2 ^ 32"
    and "last_node (ids g') \<in> {last_node (ids g), last_node (ids g) + 1}" and "last_edge (ids g') \<in> {last_edge (ids g), last_edge (ids g) + 1}"
  shows "sync_room k g'"
  using assms sync_room_succ(3-5) [OF assms(1)] by (auto simp: sync_room_def)

text \<open>What placing a record does to the graph.\<close>

lemma place_node_effect:
  assumes "graph_inv J g" and "prepared g = fmempty" and "sync_room (Suc k) g" and "\<forall>i. cur = Some i \<longrightarrow> i \<le> last_node (ids g)"
    and "place_node J cur node g = (x, g')"
  obtains i where "x = node\<lparr>n_id := i\<rparr>" "cur = Some i \<or> cur = None \<and> i = last_node (ids g) + 1"
    "nodes g' = fmupd i (node\<lparr>n_id := i\<rparr>) (nodes g)" "edges g' = edges g"
    "last_node (ids g') = max (last_node (ids g)) i" "last_edge (ids g') = last_edge (ids g)" "graph_inv J g'" "sync_room k g'"
proof -
  note succ = sync_room_succ [OF assms(3)]
  define i where "i = (case cur of Some i \<Rightarrow> i | None \<Rightarrow> last_node (ids g) + 1)"
  define g0 where "g0 = (case cur of Some i \<Rightarrow> g | None \<Rightarrow> snd (next_node g))"
  have x: "x = node\<lparr>n_id := i\<rparr>" "g' = apply_wal_op J g0 (UpsertNode (node\<lparr>n_id := i\<rparr>))"
    using assms(5) by (auto simp: place_node_def i_def g0_def case_prod_beta Let_def split: option.splits)
  have g0: "graph_inv J g0" "prepared g0 = fmempty" "nodes g0 = nodes g" "edges g0 = edges g" "kind_ids g0 = kind_ids g"
      "last_node (ids g0) = max (last_node (ids g)) i" "last_edge (ids g0) = last_edge (ids g)"
    using assms(1,2,4) next_node_graph [OF assms(1) succ(1)] word_plus_one_gt [OF succ(1)]
    by (auto simp: g0_def i_def max_def not_le dest: less_imp_le split: option.split)
  have "int (fcard (fmdom (kind_ids g0))) + 2 * int (Suc k) < 2 ^ 32"
    using assms(3) g0(5) by (simp add: sync_room_def)
  note op = plain_op [OF g0(1,2) this, of "UpsertNode (node\<lparr>n_id := i\<rparr>)", folded x(2)]
  have last: "last_node (ids g') = max (last_node (ids g)) i" "last_edge (ids g') = last_edge (ids g)"
    using g0(6,7) by (simp_all add: x(2) plain_op_ids)
  show thesis
  proof (rule that [of i])
    show "sync_room k g'"
      by (rule sync_room_op [OF assms(3)]) (use op(3) last assms(4) in \<open>auto simp: i_def max_def split: option.splits\<close>)
  qed (use x(1) last op(2) durable_eqD(1,2) [OF op(1)] g0(3,4) in \<open>auto simp: i_def split: option.splits\<close>)
qed

lemma place_edge_effect:
  assumes "graph_inv J g" and "prepared g = fmempty" and "sync_room (Suc k) g" and "\<forall>i. cur = Some i \<longrightarrow> i \<le> last_edge (ids g)"
    and "place_edge J cur edge g = (x, g')"
  obtains i where "x = edge\<lparr>e_id := i\<rparr>" "cur = Some i \<or> cur = None \<and> i = last_edge (ids g) + 1"
    "edges g' = fmupd i (edge\<lparr>e_id := i\<rparr>) (edges g)" "nodes g' = nodes g"
    "last_edge (ids g') = max (last_edge (ids g)) i" "last_node (ids g') = last_node (ids g)" "graph_inv J g'" "sync_room k g'"
proof -
  note succ = sync_room_succ [OF assms(3)]
  define i where "i = (case cur of Some i \<Rightarrow> i | None \<Rightarrow> last_edge (ids g) + 1)"
  define g0 where "g0 = (case cur of Some i \<Rightarrow> g | None \<Rightarrow> snd (next_edge g))"
  have x: "x = edge\<lparr>e_id := i\<rparr>" "g' = apply_wal_op J g0 (UpsertEdge (edge\<lparr>e_id := i\<rparr>))"
    using assms(5) by (auto simp: place_edge_def i_def g0_def case_prod_beta Let_def split: option.splits)
  have g0: "graph_inv J g0" "prepared g0 = fmempty" "nodes g0 = nodes g" "edges g0 = edges g" "kind_ids g0 = kind_ids g"
      "last_edge (ids g0) = max (last_edge (ids g)) i" "last_node (ids g0) = last_node (ids g)"
    using assms(1,2,4) next_edge_graph [OF assms(1) succ(2)] word_plus_one_gt [OF succ(2)]
    by (auto simp: g0_def i_def max_def not_le dest: less_imp_le split: option.split)
  have "int (fcard (fmdom (kind_ids g0))) + 2 * int (Suc k) < 2 ^ 32"
    using assms(3) g0(5) by (simp add: sync_room_def)
  note op = plain_op [OF g0(1,2) this, of "UpsertEdge (edge\<lparr>e_id := i\<rparr>)", folded x(2)]
  have last: "last_edge (ids g') = max (last_edge (ids g)) i" "last_node (ids g') = last_node (ids g)"
    using g0(6,7) by (simp_all add: x(2) plain_op_ids)
  show thesis
  proof (rule that [of i])
    show "sync_room k g'"
      by (rule sync_room_op [OF assms(3)]) (use op(3) last assms(4) in \<open>auto simp: i_def max_def split: option.splits\<close>)
  qed (use x(1) last op(2) durable_eqD(1,2) [OF op(1)] g0(3,4) in \<open>auto simp: i_def split: option.splits\<close>)
qed

section \<open>Nodes as registers\<close>

text \<open>
  The state of the node with a uuid: its stamp, if it has one, and its record without the local id, or no record once
  it is deleted.
\<close>

type_synonym 'j node_register = "(stamp option \<times> 'j node option) option"

definition register_of :: "'j native_graph \<Rightarrow> remap \<Rightarrow> uuid \<Rightarrow> 'j node_register" where
  "register_of G rm u =
     (case fmlookup (rm_node rm) u of
        Some i \<Rightarrow> Some (stamp_of G (StampNode i), map_option (\<lambda>n. n\<lparr>n_id := 0\<rparr>) (fmlookup (nodes (live G)) i))
      | None \<Rightarrow>
          (case fmlookup (rm_tomb rm) u of
             Some (StampNode i) \<Rightarrow> Some (map_option tomb_stamp (fmlookup (ng_tombstones G) (StampNode i)), None)
           | _ \<Rightarrow> None))"

definition node_state :: "'j native_graph \<Rightarrow> uuid \<Rightarrow> 'j node_register" where
  "node_state G = register_of G (remap_of G)"

definition lww_write :: "(stamp option \<times> 'v) option \<Rightarrow> stamp \<Rightarrow> 'v \<Rightarrow> (stamp option \<times> 'v) option" where
  "lww_write st s v =
     (case st of
        Some (Some s', _) \<Rightarrow> if s \<le> s' then st else Some (Some s, v)
      | _ \<Rightarrow> Some (Some s, v))"

fun change_node :: "'j stamped_change \<Rightarrow> (uuid \<Rightarrow> 'j node_register) \<Rightarrow> uuid \<Rightarrow> 'j node_register" where
  "change_node (ChangeNode n s) R = R(n_uuid n := lww_write (R (n_uuid n)) s (Some (n\<lparr>n_id := 0\<rparr>)))"
| "change_node (ChangeDeleteNode u s) R = R(u := lww_write (R u) s None)"
| "change_node (ChangeEdge se) R = R"
| "change_node (ChangeDeleteEdge u s) R = R"

lemma nodes_mappedD:
  assumes "nodes_mapped G rm"
  shows "fmlookup (rm_node rm) u = Some i \<longleftrightarrow> (\<exists>n. fmlookup (nodes (live G)) i = Some n \<and> n_uuid n = u)"
    and "fmlookup (rm_tomb rm) u = Some t \<longleftrightarrow> (\<exists>x. fmlookup (ng_tombstones G) t = Some x \<and> tomb_uuid x = u)"
  using assms by (simp_all add: nodes_mapped_def)

lemma sync_invD:
  assumes "sync_inv J isn k G"
  shows "graph_inv J (live G)" and "sync_room k (live G)"
    and "fmlookup (ng_tombstones G) (StampNode i) = Some x \<Longrightarrow> fmlookup (nodes (live G)) i = None \<and> i \<le> last_node (ng_ids G) \<and> isn (tomb_uuid x)"
    and "fmlookup (ng_tombstones G) (StampEdge i) = Some x \<Longrightarrow> fmlookup (edges (live G)) i = None \<and> i \<le> last_edge (ng_ids G) \<and> \<not> isn (tomb_uuid x)"
    and "fmlookup (ng_tombstones G) (StampNode i) = Some x \<Longrightarrow> fmlookup (nodes (live G)) j = Some n \<Longrightarrow> n_uuid n \<noteq> tomb_uuid x"
    and "fmlookup (ng_tombstones G) (StampEdge i) = Some x \<Longrightarrow> fmlookup (edges (live G)) j = Some e \<Longrightarrow> e_uuid e \<noteq> tomb_uuid x"
    and "fmlookup (nodes (live G)) i = Some n \<Longrightarrow> isn (n_uuid n) \<and> n_id n = i \<and> i \<le> last_node (ng_ids G)"
    and "fmlookup (edges (live G)) i = Some e \<Longrightarrow> \<not> isn (e_uuid e) \<and> e_id e = i \<and> i \<le> last_edge (ng_ids G)"
    and "fmlookup (ng_tombstones G) t = Some x \<Longrightarrow> fmlookup (ng_stamps G) t = None"
  using assms nodes_invD(1) [of J "live G" i n] edges_invD(1,3) [of "live G"]
  by (auto simp: sync_inv_def dead_ok_def live_ok_def graph_inv_def)

text \<open>The local id of a node uuid, known or to be minted, belongs to no other uuid.\<close>

definition node_slot :: "'j native_graph \<Rightarrow> remap \<Rightarrow> uuid \<Rightarrow> u64 \<Rightarrow> bool" where
  "node_slot G rm u i = (node_target rm u = Some i \<or> node_target rm u = None \<and> i = last_node (ng_ids G) + 1)"

lemma node_target_Some:
  "node_target rm u = Some i \<longleftrightarrow> fmlookup (rm_node rm) u = Some i \<or> fmlookup (rm_node rm) u = None \<and> fmlookup (rm_tomb rm) u = Some (StampNode i)"
  by (auto simp: node_target_def split: option.splits stamp_target.splits)

lemma known_node:
  assumes "nodes_mapped G rm" and "node_target rm u = Some i"
  obtains (alive) n where "fmlookup (rm_node rm) u = Some i" "fmlookup (nodes (live G)) i = Some n" "n_uuid n = u"
  | (dead) x where "fmlookup (rm_node rm) u = None" "fmlookup (rm_tomb rm) u = Some (StampNode i)"
      "fmlookup (ng_tombstones G) (StampNode i) = Some x" "tomb_uuid x = u"
  using assms nodes_mappedD [OF assms(1)] by (metis node_target_Some)

lemma unknown_node:
  assumes "nodes_mapped G rm" and "node_target rm u = None"
  shows "fmlookup (rm_node rm) u = None" and "fmlookup (nodes (live G)) j = Some n \<Longrightarrow> n_uuid n \<noteq> u"
    and "fmlookup (ng_tombstones G) (StampNode j) = Some x \<Longrightarrow> tomb_uuid x \<noteq> u"
  using assms nodes_mappedD [OF assms(1)] by (metis node_target_Some option.distinct(1) not_Some_eq)+

lemma node_uuid_inj:
  assumes "nodes_mapped G rm"
  shows "fmlookup (nodes (live G)) i = Some n \<Longrightarrow> fmlookup (nodes (live G)) j = Some m \<Longrightarrow> n_uuid n = n_uuid m \<Longrightarrow> i = j"
    and "fmlookup (ng_tombstones G) t = Some x \<Longrightarrow> fmlookup (ng_tombstones G) t' = Some y \<Longrightarrow> tomb_uuid x = tomb_uuid y \<Longrightarrow> t = t'"
  using nodes_mappedD(1) [OF assms, of "n_uuid n" i] nodes_mappedD(1) [OF assms, of "n_uuid n" j]
    nodes_mappedD(2) [OF assms, of "tomb_uuid x" t] nodes_mappedD(2) [OF assms, of "tomb_uuid x" t'] by auto

lemma node_target_le:
  assumes "sync_inv J isn k G" and "nodes_mapped G rm" and "node_target rm u = Some i"
  shows "i \<le> last_node (ng_ids G)"
  using known_node [OF assms(2,3)] sync_invD(3,7) [OF assms(1), of i] by cases blast+

lemma node_slotD:
  assumes inv: "sync_inv J isn (Suc k) G" and m: "nodes_mapped G rm" and u: "isn u" and slot: "node_slot G rm u i"
  shows "fmlookup (nodes (live G)) j = Some n \<Longrightarrow> j = i \<longleftrightarrow> n_uuid n = u"
    and "fmlookup (ng_tombstones G) (StampNode j) = Some x \<Longrightarrow> j = i \<longleftrightarrow> tomb_uuid x = u"
    and "fmlookup (ng_tombstones G) (StampEdge j) = Some x \<Longrightarrow> tomb_uuid x \<noteq> u"
proof -
  have fresh: "j \<noteq> last_node (ng_ids G) + 1" if "j \<le> last_node (ng_ids G)" for j
    using that word_plus_one_gt [OF sync_room_succ(1) [OF sync_invD(2) [OF inv]]] by auto
  note M = nodes_mappedD [OF m]
  note D = sync_invD [OF inv]
  show "j = i \<longleftrightarrow> n_uuid n = u" if n: "fmlookup (nodes (live G)) j = Some n"
  proof (cases "node_target rm u")
    case None
    with slot n unknown_node(2) [OF m None n] D(7) [OF n] fresh show ?thesis
      by (auto simp: node_slot_def)
  next
    case (Some i')
    with slot have "i' = i"
      by (simp add: node_slot_def)
    from m Some show ?thesis
    proof (cases rule: known_node)
      case (alive n')
      with n node_uuid_inj(1) [OF m n alive(2)] \<open>i' = i\<close> show ?thesis
        by auto
    next
      case (dead x)
      with n D(3) [OF dead(3)] D(5) [OF dead(3) n] \<open>i' = i\<close> show ?thesis
        by auto
    qed
  qed
  show "j = i \<longleftrightarrow> tomb_uuid x = u" if x: "fmlookup (ng_tombstones G) (StampNode j) = Some x"
  proof (cases "node_target rm u")
    case None
    with slot x unknown_node(3) [OF m None x] D(3) [OF x] fresh show ?thesis
      by (auto simp: node_slot_def)
  next
    case (Some i')
    with slot have "i' = i"
      by (simp add: node_slot_def)
    from m Some show ?thesis
    proof (cases rule: known_node)
      case (alive n')
      with D(3) [OF x] D(5) [OF x alive(2)] \<open>i' = i\<close> show ?thesis
        by auto
    next
      case (dead y)
      with x node_uuid_inj(2) [OF m x dead(3)] \<open>i' = i\<close> show ?thesis
        by auto
    qed
  qed
  show "tomb_uuid x \<noteq> u" if "fmlookup (ng_tombstones G) (StampEdge j) = Some x"
    using D(4) [OF that] u by auto
qed

lemma node_slot_facts:
  assumes "sync_inv J isn (Suc k) G" and "nodes_mapped G rm" and "isn u" and "node_slot G rm u i"
  shows "fmlookup (nodes (live G)) i = Some n \<Longrightarrow> n_uuid n = u" and "fmlookup (nodes (live G)) j = Some n \<Longrightarrow> n_uuid n = u \<Longrightarrow> j = i"
    and "fmlookup (ng_tombstones G) (StampNode i) = Some x \<Longrightarrow> tomb_uuid x = u"
    and "fmlookup (ng_tombstones G) t = Some x \<Longrightarrow> tomb_uuid x = u \<Longrightarrow> t = StampNode i"
  using node_slotD [OF assms] by (cases t; fastforce)+

lemma outdated_register:
  assumes inv: "sync_inv J isn k G" and m: "nodes_mapped G rm"
  shows "outdated G (map_option StampNode (node_target rm u)) s \<longleftrightarrow> (\<exists>s' v. register_of G rm u = Some (Some s', v) \<and> s \<le> s')"
proof -
  note M = nodes_mappedD [OF m]
  note D = sync_invD [OF inv]
  have cs: "current_stamp G (StampNode i) = stamp_of G (StampNode i)" if "fmlookup (nodes (live G)) i = Some n" for i n
    using that D(3) [of i] by (cases "fmlookup (ng_tombstones G) (StampNode i)") (auto simp: current_stamp_def split: option.split)
  have ct: "current_stamp G (StampNode i) = Some (tomb_stamp x)" if "fmlookup (ng_tombstones G) (StampNode i) = Some x" for i x
    using D(9) [OF that] that by (simp add: current_stamp_def stamp_of_def)
  show ?thesis
  proof (cases "node_target rm u")
    case None
    with unknown_node(1) [OF m None] show ?thesis
      by (auto simp: outdated_def register_of_def node_target_def split: option.splits stamp_target.splits)
  next
    case (Some i)
    from known_node [OF m Some] cs [of i] ct [of i] show ?thesis
      by cases (auto simp: outdated_def register_of_def Some split: option.splits)
  qed
qed

text \<open>Placing a node in its slot.\<close>

lemma put_node_tables:
  assumes inv: "sync_inv J isn (Suc k) G" and m: "nodes_mapped G rm" and u: "isn (n_uuid node)" and slot: "node_slot G rm (n_uuid node) i"
    and N: "nodes (live G') = fmupd i (node\<lparr>n_id := i\<rparr>) (nodes (live G))" and E: "edges (live G') = edges (live G)"
    and S: "ng_stamps G' = fmupd (StampNode i) s (ng_stamps G)" and T: "ng_tombstones G' = fmdrop (StampNode i) (ng_tombstones G)"
    and last: "last_node (ng_ids G') = max (last_node (ng_ids G)) i" "last_edge (ng_ids G') = last_edge (ng_ids G)"
    and keep: "graph_inv J (live G')" "sync_room k (live G')"
    and rm': "rm' = rm\<lparr>rm_node := fmupd (n_uuid node) i (rm_node rm), rm_tomb := fmdrop (n_uuid node) (rm_tomb rm)\<rparr>"
  shows "sync_inv J isn k G'" and "nodes_mapped G' rm'" and "edges_mapped G rm \<Longrightarrow> edges_mapped G' rm'"
    and "register_of G' rm' = (register_of G rm)(n_uuid node := Some (Some s, Some (node\<lparr>n_id := 0\<rparr>)))"
proof -
  let ?u = "n_uuid node"
  note D = sync_invD [OF inv]
  note M = nodes_mappedD [OF m]
  note slot' = node_slotD [OF inv m u slot] and facts = node_slot_facts [OF inv m u slot]
  show "sync_inv J isn k G'"
    unfolding sync_inv_def
  proof (intro conjI keep)
    show "dead_ok isn G'"
      using D(3-6) slot'(2) by (auto simp: dead_ok_def N E T last le_max_iff_disj split: if_splits)
    show "live_ok isn G'"
      using D(7-9) u by (auto simp: live_ok_def N E T S)
  qed
  show "nodes_mapped G' rm'"
    using M by (auto simp: nodes_mapped_def N T rm' dest: facts split: if_splits)
  show "edges_mapped G' rm'" if "edges_mapped G rm"
    using that by (simp add: edges_mapped_def E rm')
  show "register_of G' rm' = (register_of G rm)(?u := Some (Some s, Some (node\<lparr>n_id := 0\<rparr>)))"
  proof
    fix v
    show "register_of G' rm' v = ((register_of G rm)(?u := Some (Some s, Some (node\<lparr>n_id := 0\<rparr>)))) v"
    proof (cases "v = ?u")
      case False
      moreover have "j \<noteq> i" if "fmlookup (rm_node rm) v = Some j" for j
        using that slot'(1) False M(1) by metis
      moreover have "j \<noteq> i" if "fmlookup (rm_tomb rm) v = Some (StampNode j)" for j
        using that slot'(2) False M(2) by metis
      ultimately show ?thesis
        by (auto simp: register_of_def N T S rm' stamp_of_def split: option.split stamp_target.split)
    qed (simp add: register_of_def N S rm' stamp_of_def)
  qed
qed

text \<open>Burying a node in its slot; its relationships go with it.\<close>

lemma bury_node_tables:
  assumes inv: "sync_inv J isn (Suc k) G" and m: "nodes_mapped G rm" and u: "isn u" and slot: "node_slot G rm u i"
    and N: "nodes (live G') = fmdrop i (nodes (live G))" and E: "\<And>j e. fmlookup (edges (live G')) j = Some e \<Longrightarrow> fmlookup (edges (live G)) j = Some e"
    and S: "ng_stamps G' = fmdrop (StampNode i) (ng_stamps G)"
    and T: "ng_tombstones G' = fmupd (StampNode i) \<lparr>tomb_stamp = s, tomb_uuid = u\<rparr> (ng_tombstones G)"
    and last: "last_node (ng_ids G') = max (last_node (ng_ids G)) i" "last_edge (ng_ids G') = last_edge (ng_ids G)"
    and keep: "graph_inv J (live G')" "sync_room k (live G')"
    and rm': "rm' = rm\<lparr>rm_node := fmdrop u (rm_node rm), rm_tomb := fmupd u (StampNode i) (rm_tomb rm)\<rparr>"
  shows "sync_inv J isn k G'" and "nodes_mapped G' rm'" and "register_of G' rm' = (register_of G rm)(u := Some (Some s, None))"
proof -
  note D = sync_invD [OF inv]
  note M = nodes_mappedD [OF m]
  note slot' = node_slotD [OF inv m u slot] and facts = node_slot_facts [OF inv m u slot]
  have E': "fmlookup (edges (live G)) j = None \<Longrightarrow> fmlookup (edges (live G')) j = None" for j
    using E [of j] by (cases "fmlookup (edges (live G')) j") auto
  show "sync_inv J isn k G'"
    unfolding sync_inv_def
  proof (intro conjI keep)
    show "dead_ok isn G'"
      using D(3-5) u slot'(1) E' by (auto simp: dead_ok_def N T last le_max_iff_disj dest!: E D(6) split: if_splits)
    show "live_ok isn G'"
      using D(7,9) u by (auto simp: live_ok_def N T S dest!: E dest: D(8) split: if_splits)
  qed
  show "nodes_mapped G' rm'"
    using M by (auto simp: nodes_mapped_def N T rm' dest: facts split: if_splits)
  show "register_of G' rm' = (register_of G rm)(u := Some (Some s, None))"
  proof
    fix v
    show "register_of G' rm' v = ((register_of G rm)(u := Some (Some s, None))) v"
    proof (cases "v = u")
      case False
      moreover have "j \<noteq> i" if "fmlookup (rm_node rm) v = Some j" for j
        using that slot'(1) False M(1) by metis
      moreover have "j \<noteq> i" if "fmlookup (rm_tomb rm) v = Some (StampNode j)" for j
        using that slot'(2) False M(2) by metis
      ultimately show ?thesis
        by (auto simp: register_of_def N T S rm' stamp_of_def split: option.split stamp_target.split)
    qed (simp add: register_of_def N S T rm' stamp_of_def)
  qed
qed

text \<open>The same for relationships, whose changes leave the nodes alone.\<close>

definition edge_slot :: "'j native_graph \<Rightarrow> remap \<Rightarrow> uuid \<Rightarrow> u64 \<Rightarrow> bool" where
  "edge_slot G rm u i = (edge_target rm u = Some i \<or> edge_target rm u = None \<and> i = last_edge (ng_ids G) + 1)"

lemma edges_mappedD:
  "edges_mapped G rm \<Longrightarrow> fmlookup (rm_edge rm) u = Some i \<longleftrightarrow> (\<exists>e. fmlookup (edges (live G)) i = Some e \<and> e_uuid e = u)"
  by (simp add: edges_mapped_def)

lemma edge_target_Some:
  "edge_target rm u = Some i \<longleftrightarrow> fmlookup (rm_edge rm) u = Some i \<or> fmlookup (rm_edge rm) u = None \<and> fmlookup (rm_tomb rm) u = Some (StampEdge i)"
  by (auto simp: edge_target_def split: option.splits stamp_target.splits)

lemma known_edge:
  assumes "nodes_mapped G rm" and "edges_mapped G rm" and "edge_target rm u = Some i"
  obtains (alive) e where "fmlookup (rm_edge rm) u = Some i" "fmlookup (edges (live G)) i = Some e" "e_uuid e = u"
  | (dead) x where "fmlookup (rm_edge rm) u = None" "fmlookup (rm_tomb rm) u = Some (StampEdge i)"
      "fmlookup (ng_tombstones G) (StampEdge i) = Some x" "tomb_uuid x = u"
  using assms(3) edges_mappedD [OF assms(2)] nodes_mappedD(2) [OF assms(1)] by (metis edge_target_Some)

lemma unknown_edge:
  assumes "nodes_mapped G rm" and "edges_mapped G rm" and "edge_target rm u = None"
  shows "fmlookup (rm_edge rm) u = None" and "fmlookup (edges (live G)) j = Some e \<Longrightarrow> e_uuid e \<noteq> u"
    and "fmlookup (ng_tombstones G) (StampEdge j) = Some x \<Longrightarrow> tomb_uuid x \<noteq> u"
  using assms(3) edges_mappedD [OF assms(2)] nodes_mappedD(2) [OF assms(1)] by (metis edge_target_Some option.distinct(1) not_Some_eq)+

lemma edge_uuid_inj:
  assumes "edges_mapped G rm" and "fmlookup (edges (live G)) i = Some e" and "fmlookup (edges (live G)) j = Some e'" and "e_uuid e = e_uuid e'"
  shows "i = j"
  using edges_mappedD [OF assms(1), of "e_uuid e" i] edges_mappedD [OF assms(1), of "e_uuid e" j] assms(2-4) by auto

lemma edge_target_le:
  assumes "sync_inv J isn k G" and "nodes_mapped G rm" and "edges_mapped G rm" and "edge_target rm u = Some i"
  shows "i \<le> last_edge (ng_ids G)"
  using known_edge [OF assms(2-4)] sync_invD(4,8) [OF assms(1), of i] by blast

lemma edge_slotD:
  assumes inv: "sync_inv J isn (Suc k) G" and m: "nodes_mapped G rm" "edges_mapped G rm" and u: "\<not> isn u" and slot: "edge_slot G rm u i"
  shows "fmlookup (edges (live G)) j = Some e \<Longrightarrow> j = i \<longleftrightarrow> e_uuid e = u"
    and "fmlookup (ng_tombstones G) (StampEdge j) = Some x \<Longrightarrow> j = i \<longleftrightarrow> tomb_uuid x = u"
    and "fmlookup (ng_tombstones G) (StampNode j) = Some x \<Longrightarrow> tomb_uuid x \<noteq> u"
proof -
  have fresh: "j \<noteq> last_edge (ng_ids G) + 1" if "j \<le> last_edge (ng_ids G)" for j
    using that word_plus_one_gt [OF sync_room_succ(2) [OF sync_invD(2) [OF inv]]] by auto
  note D = sync_invD [OF inv]
  show "j = i \<longleftrightarrow> e_uuid e = u" if e: "fmlookup (edges (live G)) j = Some e"
  proof (cases "edge_target rm u")
    case None
    with slot unknown_edge(2) [OF m None e] D(8) [OF e] fresh show ?thesis
      by (auto simp: edge_slot_def)
  next
    case (Some i')
    with slot have "i' = i"
      by (simp add: edge_slot_def)
    from m Some show ?thesis
    proof (cases rule: known_edge)
      case (alive e')
      with e edge_uuid_inj [OF m(2) e alive(2)] \<open>i' = i\<close> show ?thesis
        by auto
    next
      case (dead x)
      with e D(4) [OF dead(3)] D(6) [OF dead(3) e] \<open>i' = i\<close> show ?thesis
        by auto
    qed
  qed
  show "j = i \<longleftrightarrow> tomb_uuid x = u" if x: "fmlookup (ng_tombstones G) (StampEdge j) = Some x"
  proof (cases "edge_target rm u")
    case None
    with slot unknown_edge(3) [OF m None x] D(4) [OF x] fresh show ?thesis
      by (auto simp: edge_slot_def)
  next
    case (Some i')
    with slot have "i' = i"
      by (simp add: edge_slot_def)
    from m Some show ?thesis
    proof (cases rule: known_edge)
      case (alive e')
      with D(4) [OF x] D(6) [OF x alive(2)] \<open>i' = i\<close> show ?thesis
        by auto
    next
      case (dead y)
      with x node_uuid_inj(2) [OF m(1) x dead(3)] \<open>i' = i\<close> show ?thesis
        by auto
    qed
  qed
  show "tomb_uuid x \<noteq> u" if "fmlookup (ng_tombstones G) (StampNode j) = Some x"
    using D(3) [OF that] u by auto
qed

lemma edge_slot_facts:
  assumes "sync_inv J isn (Suc k) G" and "nodes_mapped G rm" "edges_mapped G rm" and "\<not> isn u" and "edge_slot G rm u i"
  shows "fmlookup (edges (live G)) i = Some e \<Longrightarrow> e_uuid e = u" and "fmlookup (edges (live G)) j = Some e \<Longrightarrow> e_uuid e = u \<Longrightarrow> j = i"
    and "fmlookup (ng_tombstones G) (StampEdge i) = Some x \<Longrightarrow> tomb_uuid x = u"
    and "fmlookup (ng_tombstones G) t = Some x \<Longrightarrow> tomb_uuid x = u \<Longrightarrow> t = StampEdge i"
  using edge_slotD [OF assms] by (cases t; fastforce)+

lemma put_edge_tables:
  assumes inv: "sync_inv J isn (Suc k) G" and m: "nodes_mapped G rm" "edges_mapped G rm" and u: "\<not> isn (e_uuid edge)"
    and slot: "edge_slot G rm (e_uuid edge) i"
    and E: "edges (live G') = fmupd i (edge\<lparr>e_id := i\<rparr>) (edges (live G))" and N: "nodes (live G') = nodes (live G)"
    and S: "ng_stamps G' = fmupd (StampEdge i) s (ng_stamps G)" and T: "ng_tombstones G' = fmdrop (StampEdge i) (ng_tombstones G)"
    and last: "last_edge (ng_ids G') = max (last_edge (ng_ids G)) i" "last_node (ng_ids G') = last_node (ng_ids G)"
    and keep: "graph_inv J (live G')" "sync_room k (live G')"
    and rm': "rm' = rm\<lparr>rm_edge := fmupd (e_uuid edge) i (rm_edge rm), rm_tomb := fmdrop (e_uuid edge) (rm_tomb rm)\<rparr>"
  shows "sync_inv J isn k G'" and "nodes_mapped G' rm'" and "edges_mapped G' rm'" and "register_of G' rm' = register_of G rm"
proof -
  note D = sync_invD [OF inv]
  note M = nodes_mappedD [OF m(1)] edges_mappedD [OF m(2)]
  note slot' = edge_slotD [OF inv m u slot] and facts = edge_slot_facts [OF inv m u slot]
  show "sync_inv J isn k G'"
    unfolding sync_inv_def
  proof (intro conjI keep)
    show "dead_ok isn G'"
      using D(3-6) slot'(2) by (auto simp: dead_ok_def N E T last le_max_iff_disj split: if_splits)
    show "live_ok isn G'"
      using D(7-9) u by (auto simp: live_ok_def N E T S)
  qed
  show "nodes_mapped G' rm'" "edges_mapped G' rm'"
    using M by (auto simp: nodes_mapped_def edges_mapped_def N E T rm' dest: facts split: if_splits)
  show "register_of G' rm' = register_of G rm"
  proof
    fix v
    have "fmlookup (rm_tomb rm) (e_uuid edge) \<noteq> Some (StampNode j)" for j
      using slot'(3) M(2) by metis
    then show "register_of G' rm' v = register_of G rm v"
      by (auto simp: register_of_def N T S rm' stamp_of_def split: option.split stamp_target.split)
  qed
qed

lemma bury_edge_tables:
  assumes inv: "sync_inv J isn (Suc k) G" and m: "nodes_mapped G rm" "edges_mapped G rm" and u: "\<not> isn u" and slot: "edge_slot G rm u i"
    and E: "edges (live G') = fmdrop i (edges (live G))" and N: "nodes (live G') = nodes (live G)"
    and S: "ng_stamps G' = fmdrop (StampEdge i) (ng_stamps G)"
    and T: "ng_tombstones G' = fmupd (StampEdge i) \<lparr>tomb_stamp = s, tomb_uuid = u\<rparr> (ng_tombstones G)"
    and last: "last_edge (ng_ids G') = max (last_edge (ng_ids G)) i" "last_node (ng_ids G') = last_node (ng_ids G)"
    and keep: "graph_inv J (live G')" "sync_room k (live G')"
    and rm': "rm' = rm\<lparr>rm_edge := fmdrop u (rm_edge rm), rm_tomb := fmupd u (StampEdge i) (rm_tomb rm)\<rparr>"
  shows "sync_inv J isn k G'" and "nodes_mapped G' rm'" and "edges_mapped G' rm'" and "register_of G' rm' = register_of G rm"
proof -
  note D = sync_invD [OF inv]
  note M = nodes_mappedD [OF m(1)] edges_mappedD [OF m(2)]
  note slot' = edge_slotD [OF inv m u slot] and facts = edge_slot_facts [OF inv m u slot]
  show "sync_inv J isn k G'"
    unfolding sync_inv_def
  proof (intro conjI keep)
    show "dead_ok isn G'"
      using D(3-6) u slot'(1) by (auto simp: dead_ok_def N E T last le_max_iff_disj split: if_splits)
    show "live_ok isn G'"
      using D(7-9) u by (auto simp: live_ok_def N E T S split: if_splits)
  qed
  show "nodes_mapped G' rm'" "edges_mapped G' rm'"
    using M by (auto simp: nodes_mapped_def edges_mapped_def N E T rm' dest: facts split: if_splits)
  show "register_of G' rm' = register_of G rm"
  proof
    fix v
    have "fmlookup (rm_tomb rm) u \<noteq> Some (StampNode j)" for j
      using slot'(3) M(2) by metis
    moreover have "fmlookup (rm_node rm) u = None"
      using M(1) [of u] D(7) u by (cases "fmlookup (rm_node rm) u") auto
    ultimately show "register_of G' rm' v = register_of G rm v"
      by (auto simp: register_of_def N T S rm' stamp_of_def split: option.split stamp_target.split)
  qed
qed

section \<open>One change\<close>

lemma sync_inv_pred: "sync_inv J isn (Suc k) G \<Longrightarrow> sync_inv J isn k G"
  by (auto simp: sync_inv_def dest: sync_room_succ(3))

lemma observe_stamp_simps [simp]:
  "live (observe_stamp now G s) = live G" "ng_stamps (observe_stamp now G s) = ng_stamps G" "ng_tombstones (observe_stamp now G s) = ng_tombstones G"
  "ng_ids (observe_stamp now G s) = ng_ids G"
  by (simp_all add: observe_stamp_def)

lemma ng_ids_live: "ng_ids G = ids (live G)"
  by simp

lemma lww_write_cases:
  "lww_write st s v = (if \<exists>s' v'. st = Some (Some s', v') \<and> s \<le> s' then st else Some (Some s, v))"
  by (auto simp: lww_write_def split: option.splits prod.splits)

lemma node_upsert_won:
  assumes inv: "sync_inv J isn (Suc k) G" and m: "nodes_mapped G rm"
    and run: "write_logged io UpsertNode (\<lambda>n G. mark_live G (StampNode (n_id n)) s)
        (write_locked G (\<lambda>g. map_prod Inr id (place_node J (node_target rm u) node g)) touched) = (Inr x, G')"
  obtains i where "x = node\<lparr>n_id := i\<rparr>" "node_slot G rm u i" "nodes (live G') = fmupd i (node\<lparr>n_id := i\<rparr>) (nodes (live G))"
    "edges (live G') = edges (live G)" "ng_stamps G' = fmupd (StampNode i) s (ng_stamps G)" "ng_tombstones G' = fmdrop (StampNode i) (ng_tombstones G)"
    "last_node (ng_ids G') = max (last_node (ng_ids G)) i" "last_edge (ng_ids G') = last_edge (ng_ids G)"
    "graph_inv J (live G')" "sync_room k (live G')"
proof -
  define g' where "g' = snd (place_node J (node_target rm u) node (live G))"
  from run obtain G2 where c: "prepared (live G) = fmempty" "x = fst (place_node J (node_target rm u) node (live G))"
      "G' = mark_live G2 (StampNode (n_id x)) s" "live G2 = g'\<lparr>commit_seq := commit_seq g' + 1\<rparr>" "ng_stamps G2 = ng_stamps G"
      "ng_tombstones G2 = ng_tombstones G"
    unfolding g'_def by (rule committed)
  have le: "\<forall>i. node_target rm u = Some i \<longrightarrow> i \<le> last_node (ids (live G))"
    using node_target_le [OF inv m] by simp
  have x: "place_node J (node_target rm u) node (live G) = (x, g')"
    using c(2) by (simp add: g'_def)
  obtain i where i: "x = node\<lparr>n_id := i\<rparr>" "node_target rm u = Some i \<or> node_target rm u = None \<and> i = last_node (ids (live G)) + 1"
      "nodes g' = fmupd i (node\<lparr>n_id := i\<rparr>) (nodes (live G))" "edges g' = edges (live G)" "last_node (ids g') = max (last_node (ids (live G))) i"
      "last_edge (ids g') = last_edge (ids (live G))" "graph_inv J g'" "sync_room k g'"
    by (rule place_node_effect [OF sync_invD(1) [OF inv] c(1) sync_invD(2) [OF inv] le x])
  have live: "live G' = g'\<lparr>commit_seq := commit_seq g' + 1\<rparr>"
    using c(3,4) by (simp add: mark_live_def)
  show thesis
  proof (rule that [of i])
    show "last_node (ng_ids G') = max (last_node (ng_ids G)) i" "last_edge (ng_ids G') = last_edge (ng_ids G)"
      using i(5,6) live by (simp_all add: ng_ids_live del: live_simps(3))
  qed (use i live c(3,5,6) in \<open>simp_all add: mark_live_def node_slot_def\<close>)
qed

lemma edge_upsert_won:
  assumes inv: "sync_inv J isn (Suc k) G" and m: "nodes_mapped G rm" "edges_mapped G rm"
    and run: "write_logged io UpsertEdge (\<lambda>e G. mark_live G (StampEdge (e_id e)) s)
        (write_locked G (\<lambda>g. map_prod Inr id (place_edge J (edge_target rm u) edge g)) touched) = (Inr x, G')"
  obtains i where "x = edge\<lparr>e_id := i\<rparr>" "edge_slot G rm u i" "edges (live G') = fmupd i (edge\<lparr>e_id := i\<rparr>) (edges (live G))"
    "nodes (live G') = nodes (live G)" "ng_stamps G' = fmupd (StampEdge i) s (ng_stamps G)" "ng_tombstones G' = fmdrop (StampEdge i) (ng_tombstones G)"
    "last_edge (ng_ids G') = max (last_edge (ng_ids G)) i" "last_node (ng_ids G') = last_node (ng_ids G)"
    "graph_inv J (live G')" "sync_room k (live G')"
proof -
  define g' where "g' = snd (place_edge J (edge_target rm u) edge (live G))"
  from run obtain G2 where c: "prepared (live G) = fmempty" "x = fst (place_edge J (edge_target rm u) edge (live G))"
      "G' = mark_live G2 (StampEdge (e_id x)) s" "live G2 = g'\<lparr>commit_seq := commit_seq g' + 1\<rparr>" "ng_stamps G2 = ng_stamps G"
      "ng_tombstones G2 = ng_tombstones G"
    unfolding g'_def by (rule committed)
  have le: "\<forall>i. edge_target rm u = Some i \<longrightarrow> i \<le> last_edge (ids (live G))"
    using edge_target_le [OF inv m] by simp
  have x: "place_edge J (edge_target rm u) edge (live G) = (x, g')"
    using c(2) by (simp add: g'_def)
  obtain i where i: "x = edge\<lparr>e_id := i\<rparr>" "edge_target rm u = Some i \<or> edge_target rm u = None \<and> i = last_edge (ids (live G)) + 1"
      "edges g' = fmupd i (edge\<lparr>e_id := i\<rparr>) (edges (live G))" "nodes g' = nodes (live G)" "last_edge (ids g') = max (last_edge (ids (live G))) i"
      "last_node (ids g') = last_node (ids (live G))" "graph_inv J g'" "sync_room k g'"
    by (rule place_edge_effect [OF sync_invD(1) [OF inv] c(1) sync_invD(2) [OF inv] le x])
  have live: "live G' = g'\<lparr>commit_seq := commit_seq g' + 1\<rparr>"
    using c(3,4) by (simp add: mark_live_def)
  show thesis
  proof (rule that [of i])
    show "last_edge (ng_ids G') = max (last_edge (ng_ids G)) i" "last_node (ng_ids G') = last_node (ng_ids G)"
      using i(5,6) live by (simp_all add: ng_ids_live del: live_simps(3))
  qed (use i live c(3,5,6) in \<open>simp_all add: mark_live_def edge_slot_def\<close>)
qed

text \<open>Removing what a delete removes, before the tombstone is set.\<close>

lemma delete_op_effect:
  assumes inv: "sync_inv J isn (Suc k) G" and op: "op = DeleteNode i \<or> op = DeleteEdge i"
    and run: "write_logged io (\<lambda>_. op) (\<lambda>_ G. G) (write_locked G (\<lambda>g. map_prod Inr id (i, apply_wal_op J g op)) touched) = (Inr x, G')"
  shows "x = i" "durable_of (live G') = spec_plain (durable_of (live G)) op" "ng_stamps G' = ng_stamps G" "ng_tombstones G' = ng_tombstones G"
    "ng_ids G' = ng_ids G" "graph_inv J (live G')" "sync_room k (live G')"
proof -
  let ?g' = "apply_wal_op J (live G) op"
  from run obtain G2 where c: "prepared (live G) = fmempty" "x = i" "G' = G2" "live G2 = ?g'\<lparr>commit_seq := commit_seq ?g' + 1\<rparr>"
      "ng_stamps G2 = ng_stamps G" "ng_tombstones G2 = ng_tombstones G"
    by (rule committed) simp
  have kinds: "int (fcard (fmdom (kind_ids (live G)))) + 2 * int (Suc k) < 2 ^ 32"
    using sync_invD(2) [OF inv] by (simp add: sync_room_def)
  note P = plain_op [OF sync_invD(1) [OF inv] c(1) kinds, of op]
  have plain: "is_plain op" and ids: "ids ?g' = ng_ids G"
    using op by (auto simp: plain_op_ids)
  show "x = i" "ng_stamps G' = ng_stamps G" "ng_tombstones G' = ng_tombstones G"
    using c by simp_all
  show "durable_of (live G') = spec_plain (durable_of (live G)) op"
    using P(1) [OF plain] c(3,4) by (simp add: durable_of_def)
  show "graph_inv J (live G')"
    using P(2) [OF plain] c(3,4) by simp
  show "ng_ids G' = ng_ids G"
    using c(3,4) ids by (simp add: ng_ids_live del: live_simps(3))
  show "sync_room k (live G')"
    by (rule sync_room_op [OF sync_invD(2) [OF inv]]) (use P(3) [OF plain] c(3,4) ids in simp_all)
qed

lemma fmdrop_absent: "fmlookup m i = None \<Longrightarrow> fmdrop i m = m"
  by (simp add: fmdrop_idle fmdom_notI)

lemma mint_effect:
  assumes inv: "sync_inv J isn (Suc k) G"
    and run: "write_locked G (\<lambda>g. map_prod Inr id (if b then next_node g else next_edge g)) touched = (Inr i, G')"
  shows "nodes (live G') = nodes (live G)" "edges (live G') = edges (live G)" "ng_stamps G' = ng_stamps G" "ng_tombstones G' = ng_tombstones G"
    "graph_inv J (live G')" "sync_room k (live G')"
    "b \<Longrightarrow> i = last_node (ng_ids G) + 1 \<and> last_node (ng_ids G') = i \<and> last_edge (ng_ids G') = last_edge (ng_ids G)"
    "\<not> b \<Longrightarrow> i = last_edge (ng_ids G) + 1 \<and> last_edge (ng_ids G') = i \<and> last_node (ng_ids G') = last_node (ng_ids G)"
proof -
  define g' where "g' = snd (if b then next_node (live G) else next_edge (live G))"
  note c = write_locked_Inr [OF run, folded g'_def]
  note succ = sync_room_succ [OF sync_invD(2) [OF inv]]
  have g': "graph_inv J g'" "nodes g' = nodes (live G)" "edges g' = edges (live G)" "kind_ids g' = kind_ids (live G)"
    using next_node_graph [OF sync_invD(1) [OF inv] succ(1)] next_edge_graph [OF sync_invD(1) [OF inv] succ(2)] by (simp_all add: g'_def)
  show "nodes (live G') = nodes (live G)" "edges (live G') = edges (live G)" "ng_stamps G' = ng_stamps G" "ng_tombstones G' = ng_tombstones G"
    "graph_inv J (live G')"
    using c g' by simp_all
  have L: "ng_ids G' = ids g'"
    using c(3) by (simp add: ng_ids_live del: live_simps(3))
  then show "b \<Longrightarrow> i = last_node (ng_ids G) + 1 \<and> last_node (ng_ids G') = i \<and> last_edge (ng_ids G') = last_edge (ng_ids G)"
    "\<not> b \<Longrightarrow> i = last_edge (ng_ids G) + 1 \<and> last_edge (ng_ids G') = i \<and> last_node (ng_ids G') = last_node (ng_ids G)"
    using c(2) by (simp_all add: g'_def)
  show "sync_room k (live G')"
    using succ(3-5) g'(4) L c(3) by (auto simp: sync_room_def g'_def)
qed

lemma remove_node_effect:
  fixes J :: "'j json_lib"
  assumes inv: "sync_inv J isn (Suc k) G" and m: "nodes_mapped G rm"
    and run: "remove_for_delete J io G True (fmlookup (rm_node rm) u) (node_target rm u) = (Inr i, G')"
  shows "node_slot G rm u i" and "nodes (live G') = fmdrop i (nodes (live G))"
    and "edges (live G') = (if i |\<in>| fmdom (nodes (live G)) then drop_incident i (edges (live G)) else edges (live G))"
    and "ng_stamps G' = ng_stamps G" "ng_tombstones G' = ng_tombstones G"
    "last_node (ng_ids G') = max (last_node (ng_ids G)) i" "last_edge (ng_ids G') = last_edge (ng_ids G)"
    "graph_inv J (live G')" "sync_room k (live G')"
proof -
  have "node_slot G rm u i \<and> nodes (live G') = fmdrop i (nodes (live G)) \<and>
      edges (live G') = (if i |\<in>| fmdom (nodes (live G)) then drop_incident i (edges (live G)) else edges (live G)) \<and>
      ng_stamps G' = ng_stamps G \<and> ng_tombstones G' = ng_tombstones G \<and>
      last_node (ng_ids G') = max (last_node (ng_ids G)) i \<and> last_edge (ng_ids G') = last_edge (ng_ids G) \<and>
      graph_inv J (live G') \<and> sync_room k (live G')"
  proof (cases "node_target rm u")
    case None
    then have w: "write_locked G (\<lambda>g. map_prod Inr id (if True then next_node g else next_edge g)) (\<lambda>_. cs_default) = (Inr i, G')"
      using run by (simp add: remove_for_delete_def)
    note c = mint_effect [OF inv w]
    have gt: "last_node (ng_ids G) < i"
      using c(7) sync_room_succ(1) [OF sync_invD(2) [OF inv]] by simp
    then have new: "fmlookup (nodes (live G)) i = None"
      using sync_invD(7) [OF inv, of i] by (cases "fmlookup (nodes (live G)) i") auto
    then have "fmdrop i (nodes (live G)) = nodes (live G)" "i |\<notin>| fmdom (nodes (live G))"
      by (auto simp: fmdrop_absent fmdom_notI)
    with None c gt show ?thesis
      by (simp add: node_slot_def max_def not_le less_imp_le)
  next
    case (Some i')
    have le: "i' \<le> last_node (ng_ids G)"
      by (rule node_target_le [OF inv m Some])
    from m Some show ?thesis
    proof (cases rule: known_node)
      case (alive n)
      then have w: "write_logged io (\<lambda>_. DeleteNode i') (\<lambda>_ G. G)
          (write_locked G (\<lambda>g. map_prod Inr id (i', apply_wal_op J g (DeleteNode i'))) (\<lambda>_. from_ops [DeleteNode i' :: 'j wal_op])) = (Inr i, G')"
        using run Some by (simp add: remove_for_delete_def Let_def)
      note c = delete_op_effect [OF inv _ w]
      have "i' |\<in>| fmdom (nodes (live G))"
        using alive(2) by (rule fmdomI)
      with c durable_eqD(1,2) [OF c(2)] Some le show ?thesis
        by (simp add: node_slot_def max_def)
    next
      case (dead x)
      then have "i = i'" "G' = G"
        using run Some by (auto simp: remove_for_delete_def)
      moreover have "fmlookup (nodes (live G)) i' = None"
        using sync_invD(3) [OF inv dead(3)] by simp
      then have "fmdrop i' (nodes (live G)) = nodes (live G)" "i' |\<notin>| fmdom (nodes (live G))"
        by (auto simp: fmdrop_absent fmdom_notI)
      ultimately show ?thesis
        using Some le sync_invD(1,2) [OF sync_inv_pred [OF inv]] by (simp add: node_slot_def max_def)
    qed
  qed
  then show "node_slot G rm u i" and "nodes (live G') = fmdrop i (nodes (live G))"
    and "edges (live G') = (if i |\<in>| fmdom (nodes (live G)) then drop_incident i (edges (live G)) else edges (live G))"
    and "ng_stamps G' = ng_stamps G" "ng_tombstones G' = ng_tombstones G"
    "last_node (ng_ids G') = max (last_node (ng_ids G)) i" "last_edge (ng_ids G') = last_edge (ng_ids G)"
    "graph_inv J (live G')" "sync_room k (live G')"
    by blast+
qed

lemma remove_edge_effect:
  fixes J :: "'j json_lib"
  assumes inv: "sync_inv J isn (Suc k) G" and m: "nodes_mapped G rm" "edges_mapped G rm"
    and run: "remove_for_delete J io G False (fmlookup (rm_edge rm) u) (edge_target rm u) = (Inr i, G')"
  shows "edge_slot G rm u i" and "edges (live G') = fmdrop i (edges (live G))" and "nodes (live G') = nodes (live G)"
    and "ng_stamps G' = ng_stamps G" "ng_tombstones G' = ng_tombstones G"
    "last_edge (ng_ids G') = max (last_edge (ng_ids G)) i" "last_node (ng_ids G') = last_node (ng_ids G)"
    "graph_inv J (live G')" "sync_room k (live G')"
proof -
  have "edge_slot G rm u i \<and> edges (live G') = fmdrop i (edges (live G)) \<and> nodes (live G') = nodes (live G) \<and>
      ng_stamps G' = ng_stamps G \<and> ng_tombstones G' = ng_tombstones G \<and>
      last_edge (ng_ids G') = max (last_edge (ng_ids G)) i \<and> last_node (ng_ids G') = last_node (ng_ids G) \<and>
      graph_inv J (live G') \<and> sync_room k (live G')"
  proof (cases "edge_target rm u")
    case None
    then have w: "write_locked G (\<lambda>g. map_prod Inr id (if False then next_node g else next_edge g)) (\<lambda>_. cs_default) = (Inr i, G')"
      using run by (simp add: remove_for_delete_def)
    note c = mint_effect [OF inv w]
    have gt: "last_edge (ng_ids G) < i"
      using c(8) sync_room_succ(2) [OF sync_invD(2) [OF inv]] by simp
    then have "fmlookup (edges (live G)) i = None"
      using sync_invD(8) [OF inv, of i] by (cases "fmlookup (edges (live G)) i") auto
    then have "fmdrop i (edges (live G)) = edges (live G)"
      by (auto simp: fmdrop_absent fmdom_notI)
    with None c gt show ?thesis
      by (simp add: edge_slot_def max_def not_le less_imp_le)
  next
    case (Some i')
    have le: "i' \<le> last_edge (ng_ids G)"
      by (rule edge_target_le [OF inv m Some])
    from m Some show ?thesis
    proof (cases rule: known_edge)
      case (alive e)
      then have w: "write_logged io (\<lambda>_. DeleteEdge i') (\<lambda>_ G. G)
          (write_locked G (\<lambda>g. map_prod Inr id (i', apply_wal_op J g (DeleteEdge i'))) (\<lambda>_. from_ops [DeleteEdge i' :: 'j wal_op])) = (Inr i, G')"
        using run Some by (simp add: remove_for_delete_def Let_def)
      note c = delete_op_effect [OF inv _ w]
      with durable_eqD(1,2) [OF c(2)] Some le show ?thesis
        by (simp add: edge_slot_def max_def)
    next
      case (dead x)
      then have "i = i'" "G' = G"
        using run Some by (auto simp: remove_for_delete_def)
      moreover have "fmlookup (edges (live G)) i' = None"
        using sync_invD(4) [OF inv dead(3)] by simp
      then have "fmdrop i' (edges (live G)) = edges (live G)"
        by (auto simp: fmdrop_absent fmdom_notI)
      ultimately show ?thesis
        using Some le sync_invD(1,2) [OF sync_inv_pred [OF inv]] by (simp add: edge_slot_def max_def)
    qed
  qed
  then show "edge_slot G rm u i" and "edges (live G') = fmdrop i (edges (live G))" and "nodes (live G') = nodes (live G)"
    and "ng_stamps G' = ng_stamps G" "ng_tombstones G' = ng_tombstones G"
    "last_edge (ng_ids G') = max (last_edge (ng_ids G)) i" "last_node (ng_ids G') = last_node (ng_ids G)"
    "graph_inv J (live G')" "sync_room k (live G')"
    by blast+
qed

text \<open>
  A change that is applied without error keeps the invariant and writes the register of its node by last writer wins;
  changes of relationships leave the registers alone.
\<close>

definition edges_inj :: "'j native_graph \<Rightarrow> bool" where
  "edges_inj G =
     (\<forall>i j e e'. fmlookup (edges (live G)) i = Some e \<longrightarrow> fmlookup (edges (live G)) j = Some e' \<longrightarrow> e_uuid e = e_uuid e' \<longrightarrow> i = j)"

definition synced :: "'j json_lib \<Rightarrow> (uuid \<Rightarrow> bool) \<Rightarrow> nat \<Rightarrow> nat \<Rightarrow> 'j native_graph \<Rightarrow> remap \<Rightarrow> bool" where
  "synced J isn k phase G rm = (sync_inv J isn k G \<and> nodes_mapped G rm \<and> (if phase < 3 then edges_mapped G rm else edges_inj G))"

lemma lww_outdated:
  assumes "sync_inv J isn k G" and "nodes_mapped G rm"
  shows "outdated G (map_option StampNode (node_target rm u)) s \<Longrightarrow> lww_write (register_of G rm u) s v = register_of G rm u"
    and "\<not> outdated G (map_option StampNode (node_target rm u)) s \<Longrightarrow> lww_write (register_of G rm u) s v = Some (Some s, v)"
  unfolding outdated_register [OF assms] lww_write_cases by auto

lemma node_upsert_step:
  assumes "synced J isn (Suc k) 0 G rm" and u: "isn (n_uuid node)"
    and run: "apply_node_upsert J io now G node s rm = (Inr won, G', rm')"
  shows "synced J isn k 0 G' rm'" and "register_of G' rm' = change_node (ChangeNode node s) (register_of G rm)"
proof -
  have inv: "sync_inv J isn (Suc k) G" and m: "nodes_mapped G rm" "edges_mapped G rm"
    using assms(1) by (simp_all add: synced_def)
  let ?u = "n_uuid node"
  have "synced J isn k 0 G' rm' \<and> register_of G' rm' = change_node (ChangeNode node s) (register_of G rm)"
  proof (cases "outdated G (map_option StampNode (node_target rm ?u)) s")
    case True
    with run have "G' = G" "rm' = rm"
      by (simp_all add: apply_node_upsert_def)
    then show ?thesis
      using lww_outdated(1) [OF inv m(1) True] sync_inv_pred [OF inv] m by (simp add: synced_def)
  next
    case False
    with run obtain x G1 where w: "write_logged io UpsertNode (\<lambda>n G. mark_live G (StampNode (n_id n)) s)
        (write_locked G (\<lambda>g. map_prod Inr id (place_node J (node_target rm ?u) node g)) (\<lambda>n. cs_node (n_id n))) = (Inr x, G1)"
        "G' = observe_stamp now G1 s" "rm' = rm\<lparr>rm_node := fmupd ?u (n_id x) (rm_node rm), rm_tomb := fmdrop ?u (rm_tomb rm)\<rparr>"
      by (auto simp: apply_node_upsert_def Let_def split: prod.splits sum.splits)
    obtain i where i: "x = node\<lparr>n_id := i\<rparr>" "node_slot G rm ?u i" "nodes (live G1) = fmupd i (node\<lparr>n_id := i\<rparr>) (nodes (live G))"
        "edges (live G1) = edges (live G)" "ng_stamps G1 = fmupd (StampNode i) s (ng_stamps G)" "ng_tombstones G1 = fmdrop (StampNode i) (ng_tombstones G)"
        "last_node (ng_ids G1) = max (last_node (ng_ids G)) i" "last_edge (ng_ids G1) = last_edge (ng_ids G)"
        "graph_inv J (live G1)" "sync_room k (live G1)"
      by (rule node_upsert_won [OF inv m(1) w(1)])
    have "rm' = rm\<lparr>rm_node := fmupd ?u i (rm_node rm), rm_tomb := fmdrop ?u (rm_tomb rm)\<rparr>"
      using w(3) i(1) by simp
    note P = put_node_tables [OF inv m(1) u i(2), where G' = G' and s = s, OF _ _ _ _ _ _ _ _ this]
    show ?thesis
      using P w(2) i(3-10) m(2) lww_outdated(2) [OF inv m(1) False] by (simp add: synced_def)
  qed
  then show "synced J isn k 0 G' rm'" and "register_of G' rm' = change_node (ChangeNode node s) (register_of G rm)"
    by blast+
qed

lemma edge_upsert_cases:
  assumes "apply_edge_upsert J io now G se rm = (Inr won, G', rm')"
  obtains (missing) "fmlookup (rm_node rm) (se_from_uuid se) = None \<or> fmlookup (rm_node rm) (se_to_uuid se) = None" "G' = G" "rm' = rm"
  | (old) "outdated G (map_option StampEdge (edge_target rm (e_uuid (se_edge se)))) (se_stamp se)" "G' = G" "rm' = rm"
  | (new) f t x G1 where "fmlookup (rm_node rm) (se_from_uuid se) = Some f" "fmlookup (rm_node rm) (se_to_uuid se) = Some t"
      "write_logged io UpsertEdge (\<lambda>e G. mark_live G (StampEdge (e_id e)) (se_stamp se))
        (write_locked G (\<lambda>g. map_prod Inr id (place_edge J (edge_target rm (e_uuid (se_edge se))) ((se_edge se)\<lparr>e_from := f, e_to := t\<rparr>) g)) edge_touched) = (Inr x, G1)"
      "G' = observe_stamp now G1 (se_stamp se)"
      "rm' = rm\<lparr>rm_edge := fmupd (e_uuid (se_edge se)) (e_id x) (rm_edge rm), rm_tomb := fmdrop (e_uuid (se_edge se)) (rm_tomb rm)\<rparr>"
proof -
  consider "fmlookup (rm_node rm) (se_from_uuid se) = None \<or> fmlookup (rm_node rm) (se_to_uuid se) = None"
    | f t where "fmlookup (rm_node rm) (se_from_uuid se) = Some f" "fmlookup (rm_node rm) (se_to_uuid se) = Some t"
    by (cases "fmlookup (rm_node rm) (se_from_uuid se)"; cases "fmlookup (rm_node rm) (se_to_uuid se)") blast+
  then show thesis
  proof cases
    case 1
    then have "apply_edge_upsert J io now G se rm = (Inr False, G, rm)"
      by (cases "fmlookup (rm_node rm) (se_from_uuid se)") (auto simp: apply_edge_upsert_def)
    with assms have "G' = G" "rm' = rm"
      by simp_all
    with 1 show thesis
      by (rule missing)
  next
    case 2
    show thesis
    proof (cases "outdated G (map_option StampEdge (edge_target rm (e_uuid (se_edge se)))) (se_stamp se)")
      case True
      with assms 2 have "G' = G" "rm' = rm"
        by (simp_all add: apply_edge_upsert_def Let_def)
      with True show thesis
        by (rule old)
    next
      case False
      let ?w = "write_logged io UpsertEdge (\<lambda>e G. mark_live G (StampEdge (e_id e)) (se_stamp se))
        (write_locked G (\<lambda>g. map_prod Inr id (place_edge J (edge_target rm (e_uuid (se_edge se))) ((se_edge se)\<lparr>e_from := f, e_to := t\<rparr>) g)) edge_touched)"
      obtain x G1 where "?w = (Inr x, G1)"
        using assms 2 False by (cases ?w; cases "fst ?w") (simp_all add: apply_edge_upsert_def Let_def)
      moreover from this have "G' = observe_stamp now G1 (se_stamp se)"
        "rm' = rm\<lparr>rm_edge := fmupd (e_uuid (se_edge se)) (e_id x) (rm_edge rm), rm_tomb := fmdrop (e_uuid (se_edge se)) (rm_tomb rm)\<rparr>"
        using assms 2 False by (simp_all add: apply_edge_upsert_def Let_def)
      ultimately show thesis
        by (rule new [OF 2])
    qed
  qed
qed

lemma edge_upsert_step:
  assumes "synced J isn (Suc k) 1 G rm" and u: "\<not> isn (e_uuid (se_edge se))"
    and run: "apply_edge_upsert J io now G se rm = (Inr won, G', rm')"
  shows "synced J isn k 1 G' rm'" and "register_of G' rm' = register_of G rm"
proof -
  have inv: "sync_inv J isn (Suc k) G" and m: "nodes_mapped G rm" "edges_mapped G rm"
    using assms(1) by (simp_all add: synced_def)
  let ?u = "e_uuid (se_edge se)" and ?s = "se_stamp se"
  have skip: "synced J isn k 1 G rm"
    using sync_inv_pred [OF inv] m by (simp add: synced_def)
  from run have "synced J isn k 1 G' rm' \<and> register_of G' rm' = register_of G rm"
  proof (cases rule: edge_upsert_cases)
    case (new f t x G1)
    note w = new(3-5)
    let ?e = "(se_edge se)\<lparr>e_from := f, e_to := t\<rparr>"
    obtain i where i: "x = ?e\<lparr>e_id := i\<rparr>" "edge_slot G rm ?u i" "edges (live G1) = fmupd i (?e\<lparr>e_id := i\<rparr>) (edges (live G))"
        "nodes (live G1) = nodes (live G)" "ng_stamps G1 = fmupd (StampEdge i) ?s (ng_stamps G)" "ng_tombstones G1 = fmdrop (StampEdge i) (ng_tombstones G)"
        "last_edge (ng_ids G1) = max (last_edge (ng_ids G)) i" "last_node (ng_ids G1) = last_node (ng_ids G)"
        "graph_inv J (live G1)" "sync_room k (live G1)"
      by (rule edge_upsert_won [OF inv m w(1)])
    have "rm' = rm\<lparr>rm_edge := fmupd (e_uuid ?e) i (rm_edge rm), rm_tomb := fmdrop (e_uuid ?e) (rm_tomb rm)\<rparr>" "\<not> isn (e_uuid ?e)" "edge_slot G rm (e_uuid ?e) i"
      using w(3) i(1,2) u by simp_all
    note P = put_edge_tables [OF inv m this(2,3), where G' = G' and s = ?s, OF _ _ _ _ _ _ _ _ this(1)]
    show ?thesis
      using P w(2) i(3-10) by (simp add: synced_def)
  qed (use skip in simp_all)
  then show "synced J isn k 1 G' rm'" and "register_of G' rm' = register_of G rm"
    by blast+
qed

lemma node_delete_step:
  assumes "sync_inv J isn (Suc k) G" and "nodes_mapped G rm" and inj: "edges_inj G" and u: "isn u"
    and run: "apply_delete J io now G u s True rm = (Inr won, G', rm')"
  shows "synced J isn k 3 G' rm'" and "register_of G' rm' = change_node (ChangeDeleteNode u s) (register_of G rm)"
    and "nodes (live G') = nodes (live G) \<and> edges (live G') = edges (live G) \<and> ng_stamps G' = ng_stamps G \<and> ng_tombstones G' = ng_tombstones G \<or>
      (\<exists>i. node_slot G rm u i \<and> nodes (live G') = fmdrop i (nodes (live G)) \<and>
        edges (live G') = (if i |\<in>| fmdom (nodes (live G)) then drop_incident i (edges (live G)) else edges (live G)) \<and>
        (\<forall>j. fmlookup (ng_stamps G') (StampEdge j) = fmlookup (ng_stamps G) (StampEdge j)) \<and>
        (\<forall>j. fmlookup (ng_tombstones G') (StampEdge j) = fmlookup (ng_tombstones G) (StampEdge j)))"
proof -
  note inv = assms(1) and m = assms(2)
  have "synced J isn k 3 G' rm' \<and> register_of G' rm' = change_node (ChangeDeleteNode u s) (register_of G rm) \<and>
      (nodes (live G') = nodes (live G) \<and> edges (live G') = edges (live G) \<and> ng_stamps G' = ng_stamps G \<and> ng_tombstones G' = ng_tombstones G \<or>
      (\<exists>i. node_slot G rm u i \<and> nodes (live G') = fmdrop i (nodes (live G)) \<and>
        edges (live G') = (if i |\<in>| fmdom (nodes (live G)) then drop_incident i (edges (live G)) else edges (live G)) \<and>
        (\<forall>j. fmlookup (ng_stamps G') (StampEdge j) = fmlookup (ng_stamps G) (StampEdge j)) \<and>
        (\<forall>j. fmlookup (ng_tombstones G') (StampEdge j) = fmlookup (ng_tombstones G) (StampEdge j))))"
  proof (cases "outdated G (map_option StampNode (node_target rm u)) s")
    case True
    with run have "G' = G" "rm' = rm"
      by (simp_all add: apply_delete_def)
    then show ?thesis
      using lww_outdated(1) [OF inv m True] sync_inv_pred [OF inv] m inj by (simp add: synced_def)
  next
    case False
    with run obtain i G1 where w: "remove_for_delete J io G True (fmlookup (rm_node rm) u) (node_target rm u) = (Inr i, G1)"
        "G' = observe_stamp now (mark_tombstoned G1 (StampNode i) s u) s"
        "rm' = rm\<lparr>rm_node := fmdrop u (rm_node rm), rm_tomb := fmupd u (StampNode i) (rm_tomb rm)\<rparr>"
      by (auto simp: apply_delete_def Let_def split: prod.splits sum.splits)
    note i = remove_node_effect [OF inv m w(1)]
    have E: "fmlookup (edges (live G1)) j = Some e \<Longrightarrow> fmlookup (edges (live G)) j = Some e" for j e
      using i(3) by (auto simp: drop_incident_lookup split: if_splits option.splits)
    note P = bury_node_tables [OF inv m u i(1), where G' = G' and s = s, OF _ _ _ _ _ _ _ _ w(3)]
    have "edges_inj G'"
      using inj w(2) by (auto simp: edges_inj_def mark_tombstoned_def dest!: E)
    then show ?thesis
      using P w(2) i lww_outdated(2) [OF inv m False] E by (auto simp: synced_def mark_tombstoned_def)
  qed
  then show "synced J isn k 3 G' rm'" and "register_of G' rm' = change_node (ChangeDeleteNode u s) (register_of G rm)"
    and "nodes (live G') = nodes (live G) \<and> edges (live G') = edges (live G) \<and> ng_stamps G' = ng_stamps G \<and> ng_tombstones G' = ng_tombstones G \<or>
      (\<exists>i. node_slot G rm u i \<and> nodes (live G') = fmdrop i (nodes (live G)) \<and>
        edges (live G') = (if i |\<in>| fmdom (nodes (live G)) then drop_incident i (edges (live G)) else edges (live G)) \<and>
        (\<forall>j. fmlookup (ng_stamps G') (StampEdge j) = fmlookup (ng_stamps G) (StampEdge j)) \<and>
        (\<forall>j. fmlookup (ng_tombstones G') (StampEdge j) = fmlookup (ng_tombstones G) (StampEdge j)))"
    by blast+
qed

lemma edge_delete_step:
  assumes "synced J isn (Suc k) 2 G rm" and u: "\<not> isn u" and run: "apply_delete J io now G u s False rm = (Inr won, G', rm')"
  shows "synced J isn k 2 G' rm'" and "register_of G' rm' = register_of G rm"
proof -
  have inv: "sync_inv J isn (Suc k) G" and m: "nodes_mapped G rm" "edges_mapped G rm"
    using assms(1) by (simp_all add: synced_def)
  have "synced J isn k 2 G' rm' \<and> register_of G' rm' = register_of G rm"
  proof (cases "outdated G (map_option StampEdge (edge_target rm u)) s")
    case True
    with run have "G' = G" "rm' = rm"
      by (simp_all add: apply_delete_def)
    then show ?thesis
      using sync_inv_pred [OF inv] m by (simp add: synced_def)
  next
    case False
    with run obtain i G1 where w: "remove_for_delete J io G False (fmlookup (rm_edge rm) u) (edge_target rm u) = (Inr i, G1)"
        "G' = observe_stamp now (mark_tombstoned G1 (StampEdge i) s u) s"
        "rm' = rm\<lparr>rm_edge := fmdrop u (rm_edge rm), rm_tomb := fmupd u (StampEdge i) (rm_tomb rm)\<rparr>"
      by (auto simp: apply_delete_def Let_def split: prod.splits sum.splits)
    note i = remove_edge_effect [OF inv m w(1)]
    note P = bury_edge_tables [OF inv m u i(1), where G' = G' and s = s, OF _ _ _ _ _ _ _ _ w(3)]
    show ?thesis
      using P w(2) i by (simp add: synced_def mark_tombstoned_def)
  qed
  then show "synced J isn k 2 G' rm'" and "register_of G' rm' = register_of G rm"
    by blast+
qed

lemma apply_change_step:
  assumes "synced J isn (Suc k) (apply_phase c) G rm" and "change_typed isn c" and "apply_change J io now G rm c = (Inr won, G', rm')"
  shows "synced J isn k (apply_phase c) G' rm' \<and> register_of G' rm' = change_node c (register_of G rm)"
proof (cases c)
  case (ChangeNode n s)
  with assms node_upsert_step [of J isn k G rm n io now s won G' rm'] show ?thesis
    by simp
next
  case (ChangeEdge se)
  with assms edge_upsert_step [of J isn k G rm se io now won G' rm'] show ?thesis
    by simp
next
  case (ChangeDeleteNode u s)
  with assms node_delete_step(1,2) [of J isn k G rm u io now s won G' rm'] show ?thesis
    by (simp add: synced_def)
next
  case (ChangeDeleteEdge u s)
  with assms edge_delete_step [of J isn k G rm u io now s won G' rm'] show ?thesis
    by simp
qed

end
