(* ===== verification/Native_Merge.thy ===== *)
theory Native_Merge
  imports Native_Sync
begin

text \<open>
  Whole deltas. Applying a delta writes the registers of its nodes by last writer wins, whatever ids the replicas use
  for them; applying it again changes no node; and two replicas that exchange what the other is missing agree on every
  node.
\<close>

section \<open>A whole delta\<close>

lemma synced_phase:
  assumes "synced J isn k p G rm" and "p \<le> q"
  shows "synced J isn k q G rm"
proof -
  have "edges_inj G" if "edges_mapped G rm"
    using edge_uuid_inj [OF that] unfolding edges_inj_def by blast
  with assms show ?thesis
    by (auto simp: synced_def split: if_splits)
qed

lemma apply_changes_synced:
  assumes "synced J isn (length cs + m) p G rm" and "sorted (map apply_phase cs)" and "\<forall>c \<in> set cs. p \<le> apply_phase c \<and> change_typed isn c"
    and "apply_changes J env k G rm st cs = (Inr st', G')"
  shows "\<exists>rm'. synced J isn m 3 G' rm' \<and> register_of G' rm' = fold change_node cs (register_of G rm) \<and>
    st_applied st' + st_skipped st' = st_applied st + st_skipped st + length cs"
  using assms
proof (induction cs arbitrary: p k G rm st)
  case Nil
  have "p < 3 \<or> 3 \<le> p"
    by auto
  then have "synced J isn m 3 G rm"
    using Nil.prems(1) synced_phase [of J isn m p G rm 3] by (auto simp: synced_def)
  with Nil show ?case
    by auto
next
  case (Cons c cs)
  obtain r G1 rm1 where step: "apply_change J (fst (env k)) (snd (env k)) G rm c = (r, G1, rm1)"
    by (cases "apply_change J (fst (env k)) (snd (env k)) G rm c") auto
  then obtain won where r: "r = Inr won"
    using Cons.prems(4) by (cases r) auto
  let ?st = "if won then st\<lparr>st_applied := st_applied st + 1\<rparr> else st\<lparr>st_skipped := st_skipped st + 1\<rparr>"
  have rest: "apply_changes J env (Suc k) G1 rm1 ?st cs = (Inr st', G')"
    using Cons.prems(4) step r by simp
  have "synced J isn (Suc (length cs + m)) (apply_phase c) G rm"
    using Cons.prems(1,3) by (auto intro: synced_phase)
  from apply_change_step [OF this _ step [unfolded r]] Cons.prems(3)
  have 1: "synced J isn (length cs + m) (apply_phase c) G1 rm1" "register_of G1 rm1 = change_node c (register_of G rm)"
    by simp_all
  have "\<forall>c' \<in> set cs. apply_phase c \<le> apply_phase c' \<and> change_typed isn c'"
    using Cons.prems(2,3) by auto
  from Cons.IH [OF 1(1) _ this rest] Cons.prems(2) 1(2) show ?case
    by auto
qed

text \<open>The resolution that is built from the tables, when a uuid identifies a record.\<close>

definition uuids_ok :: "'j native_graph \<Rightarrow> bool" where
  "uuids_ok G =
     ((\<forall>i j n m. fmlookup (nodes (live G)) i = Some n \<longrightarrow> fmlookup (nodes (live G)) j = Some m \<longrightarrow> n_uuid n = n_uuid m \<longrightarrow> i = j) \<and>
      edges_inj G \<and>
      (\<forall>t t' x y. fmlookup (ng_tombstones G) t = Some x \<longrightarrow> fmlookup (ng_tombstones G) t' = Some y \<longrightarrow> tomb_uuid x = tomb_uuid y \<longrightarrow> t = t'))"

lemma collect_map_snoc: "collect_map (kvs @ [(k, v)]) = fmupd k v (collect_map kvs)"
  by (simp add: collect_map_def)

lemma collect_map_lookup:
  assumes "\<And>v v'. (k, v) \<in> set kvs \<Longrightarrow> (k, v') \<in> set kvs \<Longrightarrow> v = v'"
  shows "fmlookup (collect_map kvs) k = Some v \<longleftrightarrow> (k, v) \<in> set kvs"
  using assms
proof (induction kvs rule: rev_induct)
  case Nil
  show ?case
    by (simp add: collect_map_def)
next
  case (snoc kv kvs)
  obtain k' v' where kv: "kv = (k', v')"
    by (cases kv)
  have "fmlookup (collect_map kvs) k = Some v \<longleftrightarrow> (k, v) \<in> set kvs"
    using snoc by simp
  with snoc.prems [of v v'] kv show ?case
    by (auto simp: collect_map_snoc)
qed

lemma sorted_list_of_fmap_set: "(k, v) \<in> set (sorted_list_of_fmap m) \<longleftrightarrow> fmlookup m k = Some v"
  by (auto simp: sorted_list_of_fmap_def image_iff fmlookup_dom_iff)

lemma set_map_fmap: "x \<in> set (map f (sorted_list_of_fmap m)) \<longleftrightarrow> (\<exists>k v. fmlookup m k = Some v \<and> x = f (k, v))"
  by (auto simp: sorted_list_of_fmap_set image_iff) blast

lemma remap_of_mapped:
  assumes inv: "sync_inv J isn k G" and ok: "uuids_ok G"
  shows "nodes_mapped G (remap_of G)" and "edges_mapped G (remap_of G)"
proof -
  note D = sync_invD [OF inv]
  have "fmlookup (rm_node (remap_of G)) u = Some i \<longleftrightarrow> (\<exists>n. fmlookup (nodes (live G)) i = Some n \<and> n_uuid n = u)" for u i
    unfolding remap_of_def remap.simps
    by (subst collect_map_lookup) (use ok D(7) in \<open>auto simp: set_map_fmap uuids_ok_def simp del: set_map\<close>)
  moreover have "fmlookup (rm_tomb (remap_of G)) u = Some t \<longleftrightarrow> (\<exists>x. fmlookup (ng_tombstones G) t = Some x \<and> tomb_uuid x = u)" for u t
    unfolding remap_of_def remap.simps
    by (subst collect_map_lookup) (use ok in \<open>auto simp: set_map_fmap uuids_ok_def simp del: set_map\<close>)
  ultimately show "nodes_mapped G (remap_of G)"
    by (simp add: nodes_mapped_def)
  show "edges_mapped G (remap_of G)"
    unfolding edges_mapped_def remap_of_def remap.simps
    by (intro allI, subst collect_map_lookup) (use ok D(8) in \<open>auto simp: set_map_fmap uuids_ok_def edges_inj_def simp del: set_map\<close>)
qed

lemma synced_uuids: "synced J isn k 3 G rm \<Longrightarrow> uuids_ok G"
  using node_uuid_inj [of G rm] unfolding synced_def uuids_ok_def by auto

lemma register_of_unique: "nodes_mapped G rm \<Longrightarrow> nodes_mapped G rm' \<Longrightarrow> register_of G rm = register_of G rm'"
proof -
  assume m: "nodes_mapped G rm" "nodes_mapped G rm'"
  have "fmlookup (rm_node rm) u = fmlookup (rm_node rm') u" "fmlookup (rm_tomb rm) u = fmlookup (rm_tomb rm') u" for u
    using nodes_mappedD [OF m(1), of u] nodes_mappedD [OF m(2), of u] by (metis option.exhaust)+
  then show ?thesis
    unfolding register_of_def by presburger
qed

text \<open>A replica: its tables hold together and have room for \<open>k\<close> changes.\<close>

definition replica_ok :: "'j json_lib \<Rightarrow> (uuid \<Rightarrow> bool) \<Rightarrow> nat \<Rightarrow> 'j native_graph \<Rightarrow> bool" where
  "replica_ok J isn k G = (sync_inv J isn k G \<and> uuids_ok G)"

lemma apply_delta_registers:
  assumes "replica_ok J isn (length delta + m) G" and "\<forall>c \<in> set delta. change_typed isn c" and "apply_delta J env G delta = (Inr stats, G')"
  shows "replica_ok J isn m G'" and "node_state G' = fold change_node (sort_key apply_phase delta) (node_state G)"
    and "st_applied stats + st_skipped stats = length delta"
proof -
  have inv: "sync_inv J isn (length delta + m) G" "uuids_ok G"
    using assms(1) by (simp_all add: replica_ok_def)
  have "synced J isn (length (sort_key apply_phase delta) + m) 0 G (remap_of G)"
    using inv remap_of_mapped [OF inv] by (simp add: synced_def)
  from apply_changes_synced [OF this _ _ assms(3) [unfolded apply_delta_def]] assms(2)
  obtain rm' where rm': "synced J isn m 3 G' rm'" "register_of G' rm' = fold change_node (sort_key apply_phase delta) (register_of G (remap_of G))"
      "st_applied stats + st_skipped stats = length delta"
    by auto
  then show ok: "replica_ok J isn m G'" "st_applied stats + st_skipped stats = length delta"
    using synced_uuids [OF rm'(1)] by (simp_all add: replica_ok_def synced_def)
  have "register_of G' (remap_of G') = register_of G' rm'"
    using ok rm'(1) remap_of_mapped(1) [of J isn m G'] by (intro register_of_unique) (simp_all add: replica_ok_def synced_def)
  with rm'(2) show "node_state G' = fold change_node (sort_key apply_phase delta) (node_state G)"
    by (simp add: node_state_def)
qed

section \<open>Writes to registers\<close>

fun node_write :: "'j stamped_change \<Rightarrow> (uuid \<times> stamp \<times> 'j node option) option" where
  "node_write (ChangeNode n s) = Some (n_uuid n, s, Some (n\<lparr>n_id := 0\<rparr>))"
| "node_write (ChangeDeleteNode u s) = Some (u, s, None)"
| "node_write c = None"

lemma change_node_write:
  "change_node c R = (case node_write c of None \<Rightarrow> R | Some (u, s, v) \<Rightarrow> R(u := lww_write (R u) s v))"
  by (cases c) simp_all

lemma lww_write_twice [simp]: "lww_write (lww_write r s v) s v = lww_write r s v"
  by (auto simp: lww_write_cases)

lemma fold_same_writes:
  assumes "\<And>c s' v'. c \<in> set cs \<Longrightarrow> node_write c = Some (u, s', v') \<Longrightarrow> s' = s \<and> v' = v"
  shows "fold change_node cs R u = (if \<exists>c \<in> set cs. node_write c = Some (u, s, v) then lww_write (R u) s v else R u)"
  using assms
proof (induction cs arbitrary: R)
  case (Cons c cs)
  have 1: "change_node c R u = (if node_write c = Some (u, s, v) then lww_write (R u) s v else R u)"
  proof (cases "node_write c")
    case (Some w)
    obtain u' s' v' where w: "w = (u', s', v')"
      by (cases w)
    show ?thesis
    proof (cases "u' = u")
      case True
      then have "s' = s" "v' = v"
        using Cons.prems [of c s' v'] Some w by simp_all
      with True Some w show ?thesis
        by (simp add: change_node_write)
    qed (use Some w in \<open>simp add: change_node_write\<close>)
  qed (simp add: change_node_write)
  have 2: "fold change_node cs (change_node c R) u =
      (if \<exists>c \<in> set cs. node_write c = Some (u, s, v) then lww_write (change_node c R u) s v else change_node c R u)"
    by (rule Cons.IH) (rule Cons.prems, simp_all)
  show ?case
    unfolding fold_simps comp_apply 2 1 by simp
qed simp

text \<open>Once a register is as new as every write of a delta, the delta leaves it alone.\<close>

definition as_new :: "(stamp option \<times> 'v) option \<Rightarrow> stamp \<Rightarrow> bool" where
  "as_new r s = (\<exists>s' v. r = Some (Some s', v) \<and> s \<le> s')"

lemma lww_write_new: "lww_write r s v = (if as_new r s then r else Some (Some s, v))"
  by (simp add: lww_write_cases as_new_def)

lemma as_new_write: "as_new r s' \<Longrightarrow> as_new (lww_write r s v) s'" "as_new (lww_write r s v) s"
  by (auto simp: lww_write_new as_new_def)

lemma as_new_fold: "as_new (R u) s \<Longrightarrow> as_new (fold change_node cs R u) s"
proof (induction cs arbitrary: R)
  case (Cons c cs)
  have "as_new (change_node c R u) s"
    using Cons.prems as_new_write(1) by (auto simp: change_node_write split: option.split)
  with Cons.IH show ?case
    by simp
qed simp

lemma fold_as_new: "c \<in> set cs \<Longrightarrow> node_write c = Some (u, s, v) \<Longrightarrow> as_new (fold change_node cs R u) s"
proof (induction cs arbitrary: R)
  case (Cons c' cs)
  show ?case
  proof (cases "c' = c")
    case True
    then have "as_new (change_node c' R u) s"
      using Cons.prems(2) as_new_write(2) by (simp add: change_node_write)
    then show ?thesis
      by (simp add: as_new_fold)
  qed (use Cons in auto)
qed simp

lemma fold_settled: "(\<And>c u s v. c \<in> set cs \<Longrightarrow> node_write c = Some (u, s, v) \<Longrightarrow> as_new (R u) s) \<Longrightarrow> fold change_node cs R = R"
proof (induction cs)
  case (Cons c cs)
  have "change_node c R = R"
    using Cons.prems [of c] by (auto simp: change_node_write lww_write_new split: option.split)
  with Cons show ?case
    by auto
qed simp

section \<open>Properties of a merge\<close>

text \<open>C11.
  Merging a delta is last writer wins on every node, keyed by uuid: the register of a node after the merge is its
  register before, overwritten by the changes of the delta for its uuid, each of which wins only if its stamp is
  greater. Local ids do not matter, every change is counted once, and the tables of the replica stay consistent.\<close>

theorem merge_is_lww:
  assumes "replica_ok J isn (length delta + m) G" and "\<forall>c \<in> set delta. change_typed isn c" and "apply_delta J env G delta = (Inr stats, G')"
  shows "node_state G' = fold change_node (sort_key apply_phase delta) (node_state G) \<and> replica_ok J isn m G' \<and>
    st_applied stats + st_skipped stats = length delta"
  using apply_delta_registers [OF assms] by blast

text \<open>Shown too.
  Applying a delta a second time, with any number of other deltas in between, changes no node: every change of it has
  been merged or has lost already.\<close>

theorem delta_again_changes_no_node:
  assumes "replica_ok J isn (length delta + (length other + (length delta + m))) G" and "\<forall>c \<in> set delta \<union> set other. change_typed isn c"
    and "apply_delta J env1 G delta = (Inr stats1, G1)" and "apply_delta J env2 G1 other = (Inr stats2, G2)"
    and "apply_delta J env3 G2 delta = (Inr stats3, G3)"
  shows "node_state G3 = node_state G2"
proof -
  have typed: "\<forall>c \<in> set delta. change_typed isn c" "\<forall>c \<in> set other. change_typed isn c"
    using assms(2) by auto
  note 1 = apply_delta_registers [OF assms(1) typed(1) assms(3)]
  note 2 = apply_delta_registers [OF 1(1) typed(2) assms(4)]
  note 3 = apply_delta_registers [OF 2(1) typed(1) assms(5)]
  have "as_new (node_state G2 u) s" if "c \<in> set (sort_key apply_phase delta)" "node_write c = Some (u, s, v)" for c u s v
    unfolding 2(2) 1(2) by (rule as_new_fold) (rule fold_as_new [OF that])
  then show ?thesis
    unfolding 3(2) by (rule fold_settled)
qed

section \<open>Exchange\<close>

definition all_stamped :: "'j native_graph \<Rightarrow> bool" where
  "all_stamped G = (\<forall>i n. fmlookup (nodes (live G)) i = Some n \<longrightarrow> (\<exists>s. fmlookup (ng_stamps G) (StampNode i) = Some s))"

lemma node_state_live:
  assumes "replica_ok J isn k G" and "fmlookup (nodes (live G)) i = Some n"
  shows "node_state G (n_uuid n) = Some (fmlookup (ng_stamps G) (StampNode i), Some (n\<lparr>n_id := 0\<rparr>))"
proof -
  have "nodes_mapped G (remap_of G)"
    using assms(1) remap_of_mapped(1) by (auto simp: replica_ok_def)
  then have "fmlookup (rm_node (remap_of G)) (n_uuid n) = Some i"
    using nodes_mappedD(1) assms(2) by blast
  with assms(2) show ?thesis
    by (simp add: node_state_def register_of_def stamp_of_def)
qed

lemma node_state_dead:
  assumes "replica_ok J isn k G" and "fmlookup (ng_tombstones G) (StampNode i) = Some x"
  shows "node_state G (tomb_uuid x) = Some (Some (tomb_stamp x), None)"
proof -
  have inv: "sync_inv J isn k G" and m: "nodes_mapped G (remap_of G)"
    using assms(1) remap_of_mapped(1) by (auto simp: replica_ok_def)
  have "fmlookup (rm_tomb (remap_of G)) (tomb_uuid x) = Some (StampNode i)"
    using nodes_mappedD(2) [OF m] assms(2) by blast
  moreover have "fmlookup (rm_node (remap_of G)) (tomb_uuid x) = None"
    using nodes_mappedD(1) [OF m, of "tomb_uuid x"] sync_invD(5) [OF inv assms(2)] by (metis option.exhaust)
  ultimately show ?thesis
    using assms(2) by (simp add: node_state_def register_of_def)
qed

lemma node_state_cases:
  assumes "replica_ok J isn k G" and "node_state G u = Some (st, v)"
  obtains (alive) i n where "fmlookup (nodes (live G)) i = Some n" "n_uuid n = u" "st = fmlookup (ng_stamps G) (StampNode i)" "v = Some (n\<lparr>n_id := 0\<rparr>)"
  | (dead) i x where "fmlookup (ng_tombstones G) (StampNode i) = Some x" "tomb_uuid x = u" "st = Some (tomb_stamp x)" "v = None"
proof -
  have m: "nodes_mapped G (remap_of G)"
    using assms(1) remap_of_mapped(1) by (auto simp: replica_ok_def)
  show thesis
  proof (cases "fmlookup (rm_node (remap_of G)) u")
    case (Some i)
    then obtain n where "fmlookup (nodes (live G)) i = Some n" "n_uuid n = u"
      using nodes_mappedD(1) [OF m] by blast
    with assms node_state_live [OF assms(1)] alive show thesis
      by auto
  next
    case None
    then obtain i where i: "fmlookup (rm_tomb (remap_of G)) u = Some (StampNode i)"
      using assms(2) by (auto simp: node_state_def register_of_def split: option.splits stamp_target.splits)
    then obtain x where "fmlookup (ng_tombstones G) (StampNode i) = Some x" "tomb_uuid x = u"
      using nodes_mappedD(2) [OF m] by blast
    with assms node_state_dead [OF assms(1)] dead show thesis
      by auto
  qed
qed

lemma node_write_dead:
  "node_write (dead_change (t, x)) = (case t of StampNode i \<Rightarrow> Some (tomb_uuid x, tomb_stamp x, None) | StampEdge i \<Rightarrow> None)"
  by (cases t) simp_all

text \<open>What a delta says of a node is what its sender holds; what the receiver has seen is left out.\<close>

lemma delta_since_writes:
  assumes ok: "replica_ok J isn k G"
  shows "(\<exists>c \<in> set (delta_since G vv). node_write c = Some (u, s, v)) \<longleftrightarrow> node_state G u = Some (Some s, v) \<and> \<not> dominates vv s"
proof
  assume "\<exists>c \<in> set (delta_since G vv). node_write c = Some (u, s, v)"
  then obtain c where c: "c \<in> set (delta_since G vv)" "node_write c = Some (u, s, v)"
    by blast
  then consider i n where "fmlookup (ng_stamps G) (StampNode i) = Some s" "\<not> dominates vv s" "fmlookup (nodes (live G)) i = Some n"
      "n_uuid n = u" "v = Some (n\<lparr>n_id := 0\<rparr>)"
    | i x where "fmlookup (ng_tombstones G) (StampNode i) = Some x" "\<not> dominates vv (tomb_stamp x)" "s = tomb_stamp x" "tomb_uuid x = u" "v = None"
    by (auto simp: delta_since_def Let_def List.map_filter_def sorted_list_of_fmap_set live_change_def node_write_dead
        split: stamp_target.splits option.splits)
  then show "node_state G u = Some (Some s, v) \<and> \<not> dominates vv s"
    by cases (use node_state_live [OF ok] node_state_dead [OF ok] in auto)
next
  assume a: "node_state G u = Some (Some s, v) \<and> \<not> dominates vv s"
  then have "node_state G u = Some (Some s, v)"
    by blast
  with ok show "\<exists>c \<in> set (delta_since G vv). node_write c = Some (u, s, v)"
  proof (cases rule: node_state_cases)
    case (alive i n)
    then have "ChangeNode n s \<in> set (delta_since G vv)"
      using a by (force simp: delta_since_def Let_def List.map_filter_def sorted_list_of_fmap_set live_change_def image_iff)
    with alive show ?thesis
      by force
  next
    case (dead i x)
    then have "dead_change (StampNode i, x) \<in> set (delta_since G vv)"
      using a by (force simp: delta_since_def Let_def sorted_list_of_fmap_set image_iff)
    with dead show ?thesis
      by force
  qed
qed

lemma delta_since_typed:
  assumes "replica_ok J isn k G"
  shows "\<forall>c \<in> set (delta_since G vv). change_typed isn c"
proof
  fix c
  assume "c \<in> set (delta_since G vv)"
  then consider t s where "live_change (live G) (t, s) = Some c" | t x where "c = dead_change (t, x)" "fmlookup (ng_tombstones G) t = Some x"
    by (auto simp: delta_since_def Let_def List.map_filter_def sorted_list_of_fmap_set)
  then show "change_typed isn c"
  proof cases
    case 1
    with assms show ?thesis
      using sync_invD(7,8) [of J isn k G]
      by (cases t) (auto simp: live_change_def replica_ok_def split: option.splits)
  next
    case 2
    with assms show ?thesis
      using sync_invD(3,4) [of J isn k G] by (cases t) (auto simp: replica_ok_def)
  qed
qed

text \<open>
  The vector of a replica counts only writes it has merged: a node of the peer that it dominates is at least as new here.
\<close>

definition seen_merged :: "'j native_graph \<Rightarrow> 'j native_graph \<Rightarrow> bool" where
  "seen_merged A B = (\<forall>u s v. node_state A u = Some (Some s, v) \<longrightarrow> dominates (version_vector B) s \<longrightarrow> as_new (node_state B u) s)"

lemma merged_register:
  assumes A: "replica_ok J isn k A" and B: "replica_ok J isn (length (delta_since A (version_vector B)) + m) B"
    and seen: "seen_merged A B" and run: "apply_delta J env B (delta_since A (version_vector B)) = (Inr stats, B')"
  shows "node_state B' u = (case node_state A u of Some (Some s, v) \<Rightarrow> lww_write (node_state B u) s v | _ \<Rightarrow> node_state B u)"
proof -
  let ?d = "delta_since A (version_vector B)"
  note W = delta_since_writes [OF A, of "version_vector B" u]
  have reg: "node_state B' = fold change_node (sort_key apply_phase ?d) (node_state B)"
    by (rule apply_delta_registers(2) [OF B delta_since_typed [OF A] run])
  show ?thesis
  proof (cases "\<exists>s v. node_state A u = Some (Some s, v)")
    case True
    then obtain s v where sv: "node_state A u = Some (Some s, v)"
      by blast
    have "s' = s \<and> v' = v" if "c \<in> set (sort_key apply_phase ?d)" "node_write c = Some (u, s', v')" for c s' v'
      using W [of s' v'] that sv by auto
    then have "node_state B' u = (if \<exists>c \<in> set (sort_key apply_phase ?d). node_write c = Some (u, s, v) then lww_write (node_state B u) s v else node_state B u)"
      unfolding reg by (rule fold_same_writes) auto
    moreover have "lww_write (node_state B u) s v = node_state B u" if "dominates (version_vector B) s"
      using seen sv that by (auto simp: seen_merged_def lww_write_new)
    ultimately show ?thesis
      using W [of s v] sv by auto
  next
    case False
    then have none: "node_write c \<noteq> Some (u, s, v)" if "c \<in> set ?d" for c s v
      using W [of s v] that by auto
    have "node_state B' u = (if \<exists>c \<in> set (sort_key apply_phase ?d). node_write c = Some (u, undefined, None) then lww_write (node_state B u) undefined None else node_state B u)"
      unfolding reg by (rule fold_same_writes) (use none in auto)
    with none False show ?thesis
      by (auto split: option.split)
  qed
qed

text \<open>C12.
  Two replicas that exchange deltas agree: if each applies what the other sends for its version vector, both hold the
  same state of every node, the record with the greatest stamp or its deletion. Provided that every node carries a stamp,
  that equal stamps are equal writes, and that a vector counts only writes that were merged.\<close>

theorem exchange_converges:
  assumes "replica_ok J isn (length (delta_since B (version_vector A)) + k) A" and "replica_ok J isn (length (delta_since A (version_vector B)) + m) B"
    and "all_stamped A" and "all_stamped B" and "seen_merged A B" and "seen_merged B A"
    and "\<And>u s v v'. node_state A u = Some (Some s, v) \<Longrightarrow> node_state B u = Some (Some s, v') \<Longrightarrow> v = v'"
    and "apply_delta J env A (delta_since B (version_vector A)) = (Inr stats, A')"
    and "apply_delta J env' B (delta_since A (version_vector B)) = (Inr stats', B')"
  shows "node_state A' = node_state B'"
proof
  fix u
  have stamped: "\<exists>s. st = Some s" if "replica_ok J isn l G" "all_stamped G" "node_state G u = Some (st, v)" for G l st v
    using that(1,3) by (cases rule: node_state_cases) (use that(2) in \<open>auto simp: all_stamped_def\<close>)
  have A': "node_state A' u = (case node_state B u of Some (Some s, v) \<Rightarrow> lww_write (node_state A u) s v | _ \<Rightarrow> node_state A u)"
    by (rule merged_register [OF assms(2,1,6,8)])
  have B': "node_state B' u = (case node_state A u of Some (Some s, v) \<Rightarrow> lww_write (node_state B u) s v | _ \<Rightarrow> node_state B u)"
    by (rule merged_register [OF assms(1,2,5,9)])
  have "node_state A u = None \<or> (\<exists>s v. node_state A u = Some (Some s, v))" "node_state B u = None \<or> (\<exists>s v. node_state B u = Some (Some s, v))"
    using stamped [OF assms(1,3)] stamped [OF assms(2,4)] by (cases "node_state A u"; cases "node_state B u"; fastforce)+
  then show "node_state A' u = node_state B' u"
    using assms(7) [of u] unfolding A' B' by (elim disjE exE) (auto simp: lww_write_new as_new_def)
qed

section \<open>Examples\<close>

definition ex_node :: "string \<Rightarrow> string option node" where
  "ex_node title =
     \<lparr>n_id = 9, n_uuid = [1], n_kind = ''k'', n_title = title, n_body = [], n_body_html = [], n_created_at = 0, n_updated_at = 0,
      n_properties = props_new\<rparr>"

definition ex_empty :: "origin_id \<Rightarrow> string option native_graph" where
  "ex_empty origin = set_conflict_history (native_graph_new origin False) 4"

abbreviation ex_times :: "nat \<Rightarrow> io_outcome \<times> int" where
  "ex_times \<equiv> \<lambda>_. (Flushed, 5)"

definition ex_write :: "origin_id \<Rightarrow> string \<Rightarrow> string option stamped_change list" where
  "ex_write origin title = [ChangeNode (ex_node title) (Stamp (Hlc 1 0) origin)]"

definition ex_replica :: "origin_id \<Rightarrow> string \<Rightarrow> string option native_graph" where
  "ex_replica origin title = snd (apply_delta ex_json ex_times (ex_empty origin) (ex_write origin title))"

lemma ex_empty_ok: "replica_ok ex_json (\<lambda>_. True) 100 (ex_empty origin)" "node_state (ex_empty origin) = (\<lambda>_. None)"
proof -
  have live: "live (ex_empty origin) = inner_default" "ng_tombstones (ex_empty origin) = fmempty" "ng_stamps (ex_empty origin) = fmempty"
    by (simp_all add: ex_empty_def set_conflict_history_def native_graph_new_def live_def borrow_def inner_default_def)
  show ok: "replica_ok ex_json (\<lambda>_. True) 100 (ex_empty origin)"
    using graph_inv_default [of ex_json]
    by (simp add: replica_ok_def sync_inv_def uuids_ok_def edges_inj_def dead_ok_def live_ok_def sync_room_def live) (simp add: inner_default_def fcard_fempty)
  show "node_state (ex_empty origin) = (\<lambda>_. None)"
  proof
    fix u
    have False if "node_state (ex_empty origin) u = Some (st, v)" for st v
      using ok that by (cases rule: node_state_cases) (simp_all add: live inner_default_def)
    then show "node_state (ex_empty origin) u = None"
      by (cases "node_state (ex_empty origin) u") auto
  qed
qed

lemma ex_runs:
  "fst (apply_delta ex_json ex_times (ex_empty 1) (ex_write 1 ''a'')) = Inr \<lparr>st_applied = 1, st_skipped = 0\<rparr> \<and>
   fst (apply_delta ex_json ex_times (ex_empty 2) (ex_write 2 ''b'')) = Inr \<lparr>st_applied = 1, st_skipped = 0\<rparr> \<and>
   (let A = ex_replica 1 ''a''; B = ex_replica 2 ''b''; dA = delta_since A (version_vector B); dB = delta_since B (version_vector A) in
    length dA = 1 \<and> length dB = 1 \<and> \<not> dominates (version_vector B) (Stamp (Hlc 1 0) 1) \<and> \<not> dominates (version_vector A) (Stamp (Hlc 1 0) 2) \<and>
    fst (apply_delta ex_json ex_times A dB) = Inr \<lparr>st_applied = 1, st_skipped = 0\<rparr> \<and>
    fst (apply_delta ex_json ex_times B dA) = Inr \<lparr>st_applied = 0, st_skipped = 1\<rparr> \<and>
    fst (apply_delta ex_json ex_times (snd (apply_delta ex_json ex_times A dB)) (ex_write 1 ''a'')) = Inr \<lparr>st_applied = 0, st_skipped = 1\<rparr>)"
  by code_simp

lemma ex_replica_ok:
  assumes "fst (apply_delta ex_json ex_times (ex_empty origin) (ex_write origin title)) = Inr \<lparr>st_applied = 1, st_skipped = 0\<rparr>"
  shows "replica_ok ex_json (\<lambda>_. True) 99 (ex_replica origin title)"
    and "node_state (ex_replica origin title) = (\<lambda>_. None)([1] := Some (Some (Stamp (Hlc 1 0) origin), Some ((ex_node title)\<lparr>n_id := 0\<rparr>)))"
    and "all_stamped (ex_replica origin title)"
proof -
  have run: "apply_delta ex_json ex_times (ex_empty origin) (ex_write origin title) = (Inr \<lparr>st_applied = 1, st_skipped = 0\<rparr>, ex_replica origin title)"
    using assms by (simp add: ex_replica_def prod_eq_iff)
  have typed: "\<forall>c \<in> set (ex_write origin title). change_typed (\<lambda>_. True) c"
    by (simp add: ex_write_def)
  have room: "replica_ok ex_json (\<lambda>_. True) (length (ex_write origin title) + 99) (ex_empty origin)"
    using ex_empty_ok(1) by (simp add: ex_write_def)
  note R = apply_delta_registers [OF room typed run]
  show ok: "replica_ok ex_json (\<lambda>_. True) 99 (ex_replica origin title)"
    by (rule R(1))
  show st: "node_state (ex_replica origin title) = (\<lambda>_. None)([1] := Some (Some (Stamp (Hlc 1 0) origin), Some ((ex_node title)\<lparr>n_id := 0\<rparr>)))"
    using R(2) ex_empty_ok(2) by (simp add: ex_write_def ex_node_def lww_write_def)
  show "all_stamped (ex_replica origin title)"
    unfolding all_stamped_def
  proof (intro allI impI)
    fix i n
    assume "fmlookup (nodes (live (ex_replica origin title))) i = Some n"
    from node_state_live [OF ok this] st have "fmlookup (ng_stamps (ex_replica origin title)) (StampNode i) = Some (Stamp (Hlc 1 0) origin)"
      by (auto split: if_splits)
    then show "\<exists>s. fmlookup (ng_stamps (ex_replica origin title)) (StampNode i) = Some s" ..
  qed
qed

theorem merge_is_lww_witness:
  "node_state (ex_replica 1 ''a'') [1] = Some (Some (Stamp (Hlc 1 0) 1), Some ((ex_node ''a'')\<lparr>n_id := 0\<rparr>))"
proof -
  have "apply_delta ex_json ex_times (ex_empty 1) (ex_write 1 ''a'') = (Inr \<lparr>st_applied = 1, st_skipped = 0\<rparr>, ex_replica 1 ''a'')"
    using ex_runs by (simp add: ex_replica_def prod_eq_iff)
  from merge_is_lww [OF _ _ this, of "\<lambda>_. True" 99] ex_empty_ok show ?thesis
    by (simp add: ex_write_def ex_node_def lww_write_def)
qed

theorem exchange_converges_witness:
  "let A = ex_replica 1 ''a''; B = ex_replica 2 ''b''
   in node_state (snd (apply_delta ex_json ex_times A (delta_since B (version_vector A)))) =
      node_state (snd (apply_delta ex_json ex_times B (delta_since A (version_vector B))))"
proof -
  let ?A = "ex_replica 1 ''a''" and ?B = "ex_replica 2 ''b''"
  let ?dA = "delta_since ?A (version_vector ?B)" and ?dB = "delta_since ?B (version_vector ?A)"
  note run = ex_runs [unfolded Let_def]
  note A = ex_replica_ok [OF conjunct1 [OF run]] and B = ex_replica_ok [OF conjunct1 [OF conjunct2 [OF run]]]
  have len: "length ?dA = 1" "length ?dB = 1" and dom: "\<not> dominates (version_vector ?B) (Stamp (Hlc 1 0) 1)" "\<not> dominates (version_vector ?A) (Stamp (Hlc 1 0) 2)"
    using run by blast+
  have ok: "replica_ok ex_json (\<lambda>_. True) (length ?dB + 98) ?A" "replica_ok ex_json (\<lambda>_. True) (length ?dA + 98) ?B"
    using A(1) B(1) len by simp_all
  have seen: "seen_merged ?A ?B" "seen_merged ?B ?A"
    using A(2) B(2) dom by (auto simp: seen_merged_def split: if_splits)
  have unique: "v = v'" if "node_state ?A u = Some (Some s, v)" "node_state ?B u = Some (Some s, v')" for u s v v'
    using that A(2) B(2) by (auto split: if_splits)
  have "apply_delta ex_json ex_times ?A ?dB = (Inr \<lparr>st_applied = 1, st_skipped = 0\<rparr>, snd (apply_delta ex_json ex_times ?A ?dB))"
    "apply_delta ex_json ex_times ?B ?dA = (Inr \<lparr>st_applied = 0, st_skipped = 1\<rparr>, snd (apply_delta ex_json ex_times ?B ?dA))"
    using run by (simp_all add: prod_eq_iff)
  from exchange_converges [OF ok A(3) B(3) seen unique this] show ?thesis
    by (simp add: Let_def)
qed

theorem delta_again_changes_no_node_witness:
  "let A = ex_replica 1 ''a''; A' = snd (apply_delta ex_json ex_times A (delta_since (ex_replica 2 ''b'') (version_vector A)))
   in node_state (snd (apply_delta ex_json ex_times A' (ex_write 1 ''a''))) = node_state A'"
proof -
  let ?A = "ex_replica 1 ''a''" and ?B = "ex_replica 2 ''b''"
  let ?dB = "delta_since ?B (version_vector ?A)" and ?w = "ex_write 1 ''a''"
  let ?A' = "snd (apply_delta ex_json ex_times ?A ?dB)"
  note run = ex_runs [unfolded Let_def]
  note B = ex_replica_ok [OF conjunct1 [OF conjunct2 [OF run]]]
  have len: "length ?dB = 1" "length ?w = 1"
    using run by (simp_all add: ex_write_def)
  then have ok: "replica_ok ex_json (\<lambda>_. True) (length ?w + (length ?dB + (length ?w + 97))) (ex_empty 1)"
    using ex_empty_ok(1) by simp
  have typed: "\<forall>c \<in> set ?w \<union> set ?dB. change_typed (\<lambda>_. True) c"
    using delta_since_typed [OF B(1)] by (auto simp: ex_write_def)
  have "apply_delta ex_json ex_times (ex_empty 1) ?w = (Inr \<lparr>st_applied = 1, st_skipped = 0\<rparr>, ?A)"
    "apply_delta ex_json ex_times ?A ?dB = (Inr \<lparr>st_applied = 1, st_skipped = 0\<rparr>, ?A')"
    "apply_delta ex_json ex_times ?A' ?w = (Inr \<lparr>st_applied = 0, st_skipped = 1\<rparr>, snd (apply_delta ex_json ex_times ?A' ?w))"
    using run by (simp_all add: ex_replica_def prod_eq_iff)
  from delta_again_changes_no_node [OF ok typed this] show ?thesis
    by (simp add: Let_def)
qed

end
