(* ===== verification/Native_Run.thy ===== *)
theory Native_Run
  imports Native_Tx
begin

text \<open>
  Runs of the engine: the calls a client can make, one after the other, and the proof that every one of them
  keeps the invariant of theory \<open>Native_Tx\<close>.
\<close>

section \<open>Calls\<close>

text \<open>
  The arguments of a call, with what the environment does during it: clock readings, UUIDs, the fate of the
  log record. \<open>Direct\<close> and \<open>TxWrite\<close> are the six record writes outside and inside a transaction.
\<close>

datatype 'j engine_cmd =
    Direct int io_outcome "'j live_op"
  | SetEmb io_outcome u64 "f32 list"
  | DelEmb io_outcome u64
  | SetEmbs io_outcome "(u64 \<times> f32 list) list"
  | Replicate io_outcome "'j wal_op list"
  | CreateNodes "nat \<Rightarrow> int" io_outcome "(env \<times> 'j new_node) list"
  | CreateEdges "nat \<Rightarrow> int" io_outcome "(env \<times> 'j new_edge) list"
  | DeleteNodes "nat \<Rightarrow> int" io_outcome "u64 list"
  | Begin isolation bool
  | TxWrite u64 "'j live_op"
  | Commit io_outcome u64
  | Rollback u64
  | PrepareTx int io_outcome u64 string
  | CommitPrep io_outcome string
  | RollbackPrep io_outcome string bool
  | AddConstraint schema_constraint
  | RemoveConstraint schema_constraint
  | TrimFeed u64
  | SetReadOnly bool
  | SetHistory nat
  | SetMaxWrites "nat option"
  | SetIsolation isolation

fun direct_write :: "'j json_lib \<Rightarrow> int \<Rightarrow> io_outcome \<Rightarrow> 'j native_graph \<Rightarrow> 'j live_op \<Rightarrow> 'j native_graph" where
  "direct_write J now io G (LiveCreateNode env nn r) = snd (ng_create_node J env now io G nn)"
| "direct_write J now io G (LiveUpdateNode env i p r) = snd (ng_update_node J env now io G i p)"
| "direct_write J now io G (LiveDeleteNode i) = snd (ng_delete_node J now io G i)"
| "direct_write J now io G (LiveCreateEdge env ne) = snd (ng_create_edge env now io G ne)"
| "direct_write J now io G (LiveUpdateEdge i p) = snd (ng_update_edge now io G i p)"
| "direct_write J now io G (LiveDeleteEdge i) = snd (ng_delete_edge now io G i)"

fun tx_write :: "'j json_lib \<Rightarrow> 'j native_graph \<Rightarrow> u64 \<Rightarrow> 'j live_op \<Rightarrow> 'j native_graph" where
  "tx_write J G t (LiveCreateNode env nn r) = snd (tx_create_node J env G t nn)"
| "tx_write J G t (LiveUpdateNode env i p r) = snd (tx_update_node J env G t i p)"
| "tx_write J G t (LiveDeleteNode i) = snd (tx_delete_node J G t i)"
| "tx_write J G t (LiveCreateEdge env ne) = snd (tx_create_edge env G t ne)"
| "tx_write J G t (LiveUpdateEdge i p) = snd (tx_update_edge G t i p)"
| "tx_write J G t (LiveDeleteEdge i) = snd (tx_delete_edge G t i)"

fun engine_step :: "'j json_lib \<Rightarrow> 'j native_graph \<Rightarrow> 'j engine_cmd \<Rightarrow> 'j native_graph" where
  "engine_step J G (Direct now io op) = direct_write J now io G op"
| "engine_step J G (SetEmb io i v) = snd (set_embedding J io G i v)"
| "engine_step J G (DelEmb io i) = snd (delete_embedding J io G i)"
| "engine_step J G (SetEmbs io es) = snd (set_embeddings_batch J io G es)"
| "engine_step J G (Replicate io ops) = snd (ng_apply_wal_ops J io G ops)"
| "engine_step J G (CreateNodes nows io xs) = snd (create_nodes J nows io G xs)"
| "engine_step J G (CreateEdges nows io xs) = snd (create_edges nows io G xs)"
| "engine_step J G (DeleteNodes nows io is) = snd (delete_nodes J nows io G is)"
| "engine_step J G (Begin i limited) = snd (register_tx G i limited)"
| "engine_step J G (TxWrite t op) = tx_write J G t op"
| "engine_step J G (Commit io t) = snd (tx_commit J io G t)"
| "engine_step J G (Rollback t) = snd (tx_rollback G t)"
| "engine_step J G (PrepareTx now io t gid) = snd (tx_prepare J now io G t gid)"
| "engine_step J G (CommitPrep io gid) = snd (commit_prepared J io G gid)"
| "engine_step J G (RollbackPrep io gid h) = snd (rollback_prepared_as J io G gid h)"
| "engine_step J G (AddConstraint c) = snd (add_constraint J G c)"
| "engine_step J G (RemoveConstraint c) = snd (remove_constraint J G c)"
| "engine_step J G (TrimFeed cursor) = snd (trim_before G cursor)"
| "engine_step J G (SetReadOnly on) = snd (set_read_only G on)"
| "engine_step J G (SetHistory n) = set_conflict_history G n"
| "engine_step J G (SetMaxWrites n) = set_max_tx_writes G n"
| "engine_step J G (SetIsolation i) = set_isolation G i"

text \<open>
  A call fits when the counters it may take from are not exhausted: ids, commit numbers, the numbers of
  relationship kinds and the timestamps. Replicated operations are record changes; replicated two-phase-commit
  records are studied apart.
\<close>

fun fits_cmd :: "'j native_graph \<Rightarrow> 'j engine_cmd \<Rightarrow> bool" where
  "fits_cmd G (Direct now io op) = room 1 (live G)"
| "fits_cmd G (SetEmb io i v) = replay_room (live G) [SetEmbedding i v]"
| "fits_cmd G (DelEmb io i) = replay_room (live G) [DeleteEmbedding i]"
| "fits_cmd G (SetEmbs io es) = replay_room (live G) (map (\<lambda>(i, v). SetEmbedding i v) es)"
| "fits_cmd G (Replicate io ops) = (list_all is_plain ops \<and> replay_room (live G) ops)"
| "fits_cmd G (CreateNodes nows io xs) =
     (room (length xs) (live G) \<and> list_all (\<lambda>(env, _). now_ms env + int (length xs) \<le> i64_max) xs)"
| "fits_cmd G (CreateEdges nows io xs) = room (length xs) (live G)"
| "fits_cmd G (TxWrite t op) =
     (case fmlookup (ng_reg_txs G) t of None \<Rightarrow> True | Some slot \<Rightarrow> room 1 (borrow G (ts_working slot)))"
| "fits_cmd G (Commit io t) =
     (case fmlookup (ng_reg_txs G) t of None \<Rightarrow> True | Some slot \<Rightarrow> replay_room (live G) (ts_ops slot))"
| "fits_cmd G (CommitPrep io gid) = replay_room (live G) [CommitPrepared gid]"
| "fits_cmd G _ = True"

definition fits :: "'j native_graph \<Rightarrow> 'j engine_cmd \<Rightarrow> bool" where
  "fits G cmd \<longleftrightarrow> uint (commit_seq (live G)) + 2 < 2 ^ 64 \<and> fits_cmd G cmd"

inductive reachable :: "'j json_lib \<Rightarrow> 'j native_graph \<Rightarrow> bool" for J where
  fresh: "reachable J (native_graph_new origin durable)"
| call: "reachable J G \<Longrightarrow> fits G cmd \<Longrightarrow> reachable J (engine_step J G cmd)"

section \<open>Logging and stamping leave the graph alone\<close>

definition same_graph :: "'j native_graph \<Rightarrow> 'j native_graph \<Rightarrow> bool" where
  "same_graph G G' \<longleftrightarrow> live G' = live G \<and> ng_ptr G' = ng_ptr G \<and> ng_history G' = ng_history G \<and> ng_reg_txs G' = ng_reg_txs G"

lemma same_graph_inv: "engine_inv J G tr \<Longrightarrow> same_graph G G' \<Longrightarrow> engine_inv J G' tr"
  by (rule engine_inv_cong) (auto simp: same_graph_def)

lemma same_graph_trans: "same_graph G G' \<Longrightarrow> same_graph G' G'' \<Longrightarrow> same_graph G G''"
  by (simp add: same_graph_def)

lemma record_same: "same_graph G (snd (record_split G io wops fops))" "same_graph G (snd (record_ops G io ops))"
  by (simp_all add: record_ops_def record_split_def group_commit_def same_graph_def split: io_outcome.split)

lemma stamp_same: "same_graph G (stamp_write G now t)" "same_graph G (stamp_tombstone G now t u)"
  by (simp_all add: stamp_write_def stamp_tombstone_def next_stamp_def same_graph_def case_prod_beta Let_def)

lemma stamps_same: "same_graph G (stamp_writes G nows ts)" "same_graph G (stamp_tombstones G nows ds)"
proof -
  show "same_graph G (stamp_writes G nows ts)"
  proof (induction ts arbitrary: G nows)
    case (Cons t ts)
    show ?case
      using stamp_same(1) Cons same_graph_trans by fastforce
  qed (simp add: same_graph_def)
  show "same_graph G (stamp_tombstones G nows ds)"
  proof (induction ds arbitrary: G nows)
    case (Cons d ds)
    then show ?case
      using stamp_same(2) same_graph_trans by (cases d) fastforce
  qed (simp add: same_graph_def)
qed

section \<open>What reaches the log and the feed\<close>

definition feed_ext :: "'j change_feed \<Rightarrow> 'j change_feed \<Rightarrow> 'j wal_op list \<Rightarrow> bool" where
  "feed_ext f f' ops \<longleftrightarrow>
     (\<exists>k \<le> length (feed_ops f @ ops). unat (start_seq f') = unat (start_seq f) + k \<and> feed_ops f' = drop k (feed_ops f @ ops))"

text \<open>
  A call logs what it does when, unless the record could not be encoded or the log broke, the log grew by
  operations that mean the change of the durable state, and the feed by the change of the records.
\<close>

definition logged :: "bool \<Rightarrow> 'j native_graph \<Rightarrow> 'j native_graph \<Rightarrow> bool" where
  "logged ok G G' \<longleftrightarrow> ng_durable G' = ng_durable G \<and> (ng_broken G \<longrightarrow> ng_broken G') \<and>
     (ok \<and> \<not> ng_broken G' \<longrightarrow>
        (\<exists>wops fops. durable_of (live G') = foldl spec_op (durable_of (live G)) wops \<and> list_all flat_op wops \<and>
           (ng_durable G \<longrightarrow> concat (ng_wal G') = concat (ng_wal G) @ wops) \<and>
           data_of (live G') = foldl spec_plain (data_of (live G)) fops \<and> list_all is_plain fops \<and>
           feed_ext (ng_feed G) (ng_feed G') fops))"

definition same_log :: "'j native_graph \<Rightarrow> 'j native_graph \<Rightarrow> bool" where
  "same_log G G' \<longleftrightarrow> ng_durable G' = ng_durable G \<and> ng_broken G' = ng_broken G \<and> ng_wal G' = ng_wal G \<and> ng_feed G' = ng_feed G"

lemma feed_ext_refl: "feed_ext f f []"
  unfolding feed_ext_def by (rule exI [of _ 0]) simp

lemma feed_ext_append: "feed_ext f (feed_extend f ops) ops"
  unfolding feed_ext_def by (rule exI [of _ 0]) (simp add: feed_extend_def)

lemma same_log_trans: "same_log G G' \<Longrightarrow> same_log G' G'' \<Longrightarrow> same_log G G''"
  by (simp add: same_log_def)

lemma logged_quiet: "same_log G G' \<Longrightarrow> durable_of (live G') = durable_of (live G) \<Longrightarrow> logged ok G G'"
  unfolding logged_def
  by (intro conjI impI exI [of _ "[]"]) (auto simp: same_log_def feed_ext_refl data_of_def)

lemma record_cases:
  obtains (ok) G' where "record_split G io wops fops = (Inr (), G')" "same_graph G G'" "ng_durable G' = ng_durable G"
      "ng_broken G' = ng_broken G" "ng_durable G \<Longrightarrow> concat (ng_wal G') = concat (ng_wal G) @ wops"
      "ng_feed G' = feed_extend (ng_feed G) fops"
  | (failed) e G' where "record_split G io wops fops = (Inl e, G')" "same_graph G G'" "ng_durable G' = ng_durable G"
      "io = EncodeFails \<or> ng_broken G'" "ng_broken G \<Longrightarrow> ng_broken G'" "ng_feed G' = ng_feed G"
proof (cases "fst (record_split G io wops fops)")
  case (Inl e)
  then show thesis
    by (intro failed [of e "snd (record_split G io wops fops)"])
      (auto simp: record_split_def group_commit_def same_graph_def prod_eq_iff split: if_splits io_outcome.splits)
next
  case (Inr u)
  then show thesis
    by (intro ok [of "snd (record_split G io wops fops)"])
      (auto simp: record_split_def group_commit_def same_graph_def feed_extend_def prod_eq_iff split: if_splits io_outcome.splits)
qed

lemma writes_durable:
  assumes "writes J g g' ops"
  shows "durable_of g' = foldl spec_op (durable_of g) ops" and "durable_of g' = foldl spec_plain (durable_of g) ops"
    and "data_of g' = foldl spec_plain (data_of g) ops" and "list_all is_plain ops" and "list_all flat_op ops"
proof -
  have ops: "list_all is_plain ops" "data_of g' = foldl spec_plain (data_of g) ops"
    using assms by (simp_all add: writes_def moves_def)
  have d: "durable_of h = (data_of h)\<lparr>d_prepared := prepared h, d_heuristic := heuristic h\<rparr>" for h :: "'a inner"
    by (simp add: data_of_def durable_of_def)
  show *: "durable_of g' = foldl spec_plain (durable_of g) ops"
    unfolding d spec_plains_tables(1) [OF ops(1)] ops(2) using assms by (simp add: writes_def)
  then show "durable_of g' = foldl spec_op (durable_of g) ops"
    using spec_op_plain [OF ops(1)] by simp
  show "data_of g' = foldl spec_plain (data_of g) ops" "list_all is_plain ops" "list_all flat_op ops"
    using ops plain_flat by blast+
qed

lemma stamp_log: "same_log G (stamp_write G now t)" "same_log G (stamp_tombstone G now t u)"
  by (simp_all add: stamp_write_def stamp_tombstone_def next_stamp_def same_log_def case_prod_beta Let_def)

lemma stamps_log: "same_log G (stamp_writes G nows ts)" "same_log G (stamp_tombstones G nows ds)"
proof -
  show "same_log G (stamp_writes G nows ts)"
  proof (induction ts arbitrary: G nows)
    case (Cons t ts)
    show ?case
      using stamp_log(1) Cons same_log_trans by fastforce
  qed (simp add: same_log_def)
  show "same_log G (stamp_tombstones G nows ds)"
  proof (induction ds arbitrary: G nows)
    case (Cons d ds)
    then show ?case
      using stamp_log(2) same_log_trans by (cases d) fastforce
  qed (simp add: same_log_def)
qed

section \<open>Direct writes\<close>

definition kept :: "'j json_lib \<Rightarrow> bool \<Rightarrow> 'j native_graph \<Rightarrow> 'j native_graph \<Rightarrow> bool" where
  "kept J ok G G' \<longleftrightarrow> (\<exists>tr. engine_inv J G' tr) \<and> logged ok G G'"

lemma put_live_log [simp]: "same_log G (put_live G g)"
  by (simp add: same_log_def)

lemma note_commit_same:
  "note_commit G g c = (g', G') \<Longrightarrow> same_log G G' \<and> live G' = live G \<and> durable_of g' = durable_of g \<and> data_of g' = data_of g"
  by (auto simp: note_commit_def Let_def same_log_def durable_of_def)

lemma logged_record:
  assumes "record_split G1 io wops fops = (res, G2)" and "same_log G G1" and "same_log G2 G'"
    and "durable_of (live G') = foldl spec_op (durable_of (live G)) wops" and "list_all flat_op wops"
    and "data_of (live G') = foldl spec_plain (data_of (live G)) fops" and "list_all is_plain fops"
  shows "logged (io \<noteq> EncodeFails) G G'"
proof (cases rule: record_cases [of G1 io wops fops])
  case (ok G3)
  then have "feed_ext (ng_feed G) (ng_feed G') fops"
    using assms(1,2,3) feed_ext_append by (auto simp: same_log_def)
  with ok assms show ?thesis
    unfolding logged_def by (intro conjI impI exI [of _ wops] exI [of _ fops]) (auto simp: same_log_def)
next
  case (failed e G3)
  with assms show ?thesis
    unfolding logged_def by (auto simp: same_log_def)
qed

text \<open>
  The shape all direct writes share: one operation of the log, or nothing when the write is refused.
\<close>

lemma direct_kept:
  assumes "engine_inv J G tr" and "f (live G) = (res, g)" and "writes J (live G) g ops"
    and "\<And>e. res = Inl e \<Longrightarrow> ops = []" and "\<And>r. res = Inr r \<Longrightarrow> touched r = from_ops ops \<and> logs r = ops"
    and "uint (commit_seq (live G)) + 2 < 2 ^ 64" and "\<And>r G. same_graph G (stamp r G) \<and> same_log G (stamp r G)"
    and "G' = snd (case write_locked G f touched of
        (Inl e, G) \<Rightarrow> (Inl e, G)
      | (Inr r, G) \<Rightarrow> (case record_ops G io (logs r) of (Inl e, G) \<Rightarrow> (Inl e, G) | (Inr _, G) \<Rightarrow> (Inr (h r), stamp r G)))"
  shows "kept J (io \<noteq> EncodeFails) G G'"
proof (cases "write_for_commit G")
  case (Inl e)
  with assms(1,8) show ?thesis
    by (auto simp: write_locked_def kept_def intro!: logged_quiet simp: same_log_def)
next
  case (Inr lv)
  note I = engine_invD [OF assms(1)] and W = writes_durable [OF assms(3)]
  have g: "moves J (live G) g ops" "flat_prepared (prepared g)" "twopc_ok g"
    using assms(3) I(2,3) by (simp_all add: writes_def twopc_ok_def)
  have lv: "lv = live G"
    using Inr by (auto simp: write_for_commit_def write_unless_read_only_def split: if_splits)
  show ?thesis
  proof (cases res)
    case err: (Inl e)
    with assms(2,8) Inr lv have "G' = put_live G g"
      by (simp add: write_locked_def)
    with g engine_touch [OF assms(1), of g] assms(4) [OF err] W show ?thesis
      by (auto simp: kept_def intro: logged_quiet)
  next
    case ok: (Inr r)
    obtain g' G1 where n: "note_commit G g (touched r) = (g', G1)"
      by fastforce
    have inv: "engine_inv J (put_live G1 g') (tr @ [(touched r, ops)])"
      using engine_commit [OF assms(1) g _ assms(6) n] assms(5) [OF ok] by simp
    obtain q G2 where rec: "record_split (put_live G1 g') io ops ops = (q, G2)"
      by fastforce
    have locked: "write_locked G f touched = (Inr r, put_live G1 g')"
      using n assms(2) Inr lv ok by (simp add: write_locked_def)
    have G': "G' = (case q of Inl e \<Rightarrow> G2 | Inr _ \<Rightarrow> stamp r G2)"
      using assms(5) [OF ok] unfolding assms(8) locked by (simp add: record_ops_def rec split: sum.split)
    have G2: "same_graph (put_live G1 g') G2"
      using record_same(1) [of "put_live G1 g'" io ops ops] rec by simp
    have same: "same_graph (put_live G1 g') G'" "same_log G2 G'"
      using G2 assms(7) [of G2 r] unfolding G' by (auto simp: same_log_def same_graph_def split: sum.split)
    have "live G' = g'"
      using same(1) by (simp add: same_graph_def)
    moreover have "same_log G (put_live G1 g')"
      using note_commit_same [OF n] same_log_trans put_live_log by blast
    ultimately have "logged (io \<noteq> EncodeFails) G G'"
      using logged_record [OF rec _ same(2)] W note_commit_same [OF n] by simp
    with same_graph_inv [OF inv same(1)] show ?thesis
      by (auto simp: kept_def)
  qed
qed

lemma touched_ops:
  "from_ops [UpsertNode n] = cs_node (n_id n)" "from_ops [DeleteNode i] = cs_deleted_node i" "from_ops [UpsertEdge e] = edge_touched e"
  "from_ops [DeleteEdge i] = cs_deleted_edge i" "from_ops [SetEmbedding i v] = cs_node i" "from_ops [DeleteEmbedding i] = cs_node i"
  by (simp_all add: from_ops_def cs_node_def cs_deleted_node_def edge_touched_def cs_edge_def cs_deleted_edge_def cs_default_def)

lemma uuid_stamp: "same_graph G (case u of Some x \<Rightarrow> stamp_tombstone G now t x | None \<Rightarrow> G) \<and>
    same_log G (case u of Some x \<Rightarrow> stamp_tombstone G now t x | None \<Rightarrow> G)"
  by (cases u) (simp_all add: stamp_same(2) stamp_log(2), simp add: same_graph_def same_log_def)

lemma direct_write_kept:
  assumes inv: "engine_inv J G tr" and room: "room 1 (live G)" and seq: "uint (commit_seq (live G)) + 2 < 2 ^ 64"
  shows "kept J (io \<noteq> EncodeFails) G (direct_write J now io G op)"
proof -
  have W: "writes J (live G) (live_step J (live G) op) (live_log J (live G) op)" for op
    using live_writes [OF engine_invD(1) [OF inv]] room by simp
  have stamp: "same_graph G (stamp_write G now t) \<and> same_log G (stamp_write G now t)" for G :: "'a native_graph" and t
    using stamp_same(1) stamp_log(1) by blast
  note K = direct_kept [OF inv prod.collapse [symmetric] _ _ _ seq, where io = io]
  show ?thesis
  proof (cases op)
    case (LiveCreateNode env nn r)
    show ?thesis
      unfolding LiveCreateNode direct_write.simps
      by (rule K [where ops = "live_log J (live G) (LiveCreateNode env nn True)" and logs = "\<lambda>n. [UpsertNode n]"
            and f = "\<lambda>g. create_node_checked J env g nn True" and touched = "\<lambda>n. cs_node (n_id n)" and h = "\<lambda>n. n"
            and stamp = "\<lambda>n G. stamp_write G now (StampNode (n_id n))"])
        (use W [of "LiveCreateNode env nn True"] stamp in
          \<open>auto simp: ng_create_node_def write_logged_def touched_ops split: sum.splits\<close>)
  next
    case (LiveUpdateNode env i p r)
    show ?thesis
      unfolding LiveUpdateNode direct_write.simps
      by (rule K [where ops = "live_log J (live G) (LiveUpdateNode env i p True)" and logs = "\<lambda>n. [UpsertNode n]"
            and f = "\<lambda>g. update_node_checked J env g i p True" and touched = "\<lambda>n. cs_node (n_id n)" and h = "\<lambda>n. n"
            and stamp = "\<lambda>n G. stamp_write G now (StampNode (n_id n))"])
        (use W [of "LiveUpdateNode env i p True"] stamp in
          \<open>auto simp: ng_update_node_def write_logged_def touched_ops split: sum.splits\<close>)
  next
    case (LiveDeleteNode i)
    show ?thesis
      unfolding LiveDeleteNode direct_write.simps
      by (rule K [where ops = "live_log J (live G) (LiveDeleteNode i)" and logs = "\<lambda>_. [DeleteNode i]"
            and f = "\<lambda>g. delete_node J g i" and touched = "\<lambda>_. cs_deleted_node i" and h = "\<lambda>n. n"
            and stamp = "\<lambda>_ G'. case map_option n_uuid (fmlookup (nodes (live G)) i) of
                Some u \<Rightarrow> stamp_tombstone G' now (StampNode i) u | None \<Rightarrow> G'"])
        (use W [of "LiveDeleteNode i"] uuid_stamp in
          \<open>auto simp: ng_delete_node_def write_logged_def touched_ops simp del: case_map_option split: sum.splits\<close>)
  next
    case (LiveCreateEdge env ne)
    show ?thesis
      unfolding LiveCreateEdge direct_write.simps
      by (rule K [where ops = "live_log J (live G) (LiveCreateEdge env ne)" and logs = "\<lambda>n. [UpsertEdge n]"
            and f = "\<lambda>g. create_edge env g ne" and touched = edge_touched and h = "\<lambda>n. n"
            and stamp = "\<lambda>n G. stamp_write G now (StampEdge (e_id n))"])
        (use W [of "LiveCreateEdge env ne"] stamp in
          \<open>auto simp: ng_create_edge_def write_logged_def touched_ops split: sum.splits\<close>)
  next
    case (LiveUpdateEdge i p)
    show ?thesis
      unfolding LiveUpdateEdge direct_write.simps
      by (rule K [where ops = "live_log J (live G) (LiveUpdateEdge i p)" and logs = "\<lambda>n. [UpsertEdge n]"
            and f = "\<lambda>g. update_edge g i p" and touched = edge_touched and h = "\<lambda>n. n"
            and stamp = "\<lambda>n G. stamp_write G now (StampEdge (e_id n))"])
        (use W [of "LiveUpdateEdge i p"] stamp in
          \<open>auto simp: ng_update_edge_def write_logged_def touched_ops split: sum.splits\<close>)
  next
    case (LiveDeleteEdge i)
    show ?thesis
      unfolding LiveDeleteEdge direct_write.simps
      by (rule K [where ops = "live_log J (live G) (LiveDeleteEdge i)" and logs = "\<lambda>_. [DeleteEdge i]"
            and f = "\<lambda>g. delete_edge g i" and touched = "\<lambda>_. cs_deleted_edge i" and h = "\<lambda>n. n"
            and stamp = "\<lambda>_ G'. case map_option e_uuid (fmlookup (edges (live G)) i) of
                Some u \<Rightarrow> stamp_tombstone G' now (StampEdge i) u | None \<Rightarrow> G'"])
        (use W [of "LiveDeleteEdge i"] uuid_stamp in
          \<open>auto simp: ng_delete_edge_def write_logged_def touched_ops simp del: case_map_option split: sum.splits\<close>)
  qed
qed

lemma foldl_apply: "foldl (apply_wal_op J) g ops = apply_wal_ops J g ops"
  by (simp add: apply_wal_ops_foldl)

lemma embedding_kept:
  assumes inv: "engine_inv J G tr" and seq: "uint (commit_seq (live G)) + 2 < 2 ^ 64"
  shows "replay_room (live G) [SetEmbedding i v] \<Longrightarrow> kept J (io \<noteq> EncodeFails) G (snd (set_embedding J io G i v))"
    and "replay_room (live G) [DeleteEmbedding i] \<Longrightarrow> kept J (io \<noteq> EncodeFails) G (snd (delete_embedding J io G i))"
    and "replay_room (live G) (map (\<lambda>(i, v). SetEmbedding i v) es) \<Longrightarrow>
      kept J (io \<noteq> EncodeFails) G (snd (set_embeddings_batch J io G es))"
proof -
  note I = engine_invD [OF inv] and K = direct_kept [OF inv prod.collapse [symmetric] _ _ _ seq, where io = io and stamp = "\<lambda>_ G. G"]
  have triv: "same_graph G G \<and> same_log G G" for G :: "'a native_graph"
    by (simp add: same_graph_def same_log_def)
  have R: "writes J (live G) (apply_wal_ops J (live G) ops) ops" if "list_all is_plain ops" "replay_room (live G) ops" for ops
    by (rule replay_writes [OF I(1) that I(2)])
  note idle = writes_refl [OF I(1)]
  show "kept J (io \<noteq> EncodeFails) G (snd (set_embedding J io G i v))" if "replay_room (live G) [SetEmbedding i v]"
  proof (rule K [where ops = "if i |\<in>| fmdom (nodes (live G)) then [SetEmbedding i v] else []" and logs = "\<lambda>_. [SetEmbedding i v]"
          and touched = "\<lambda>_. cs_node i" and h = "\<lambda>n. n" and
          f = "\<lambda>g. if i |\<in>| fmdom (nodes g) then (Inr (), apply_wal_op J g (SetEmbedding i v)) else (Inl (NodeNotFound i), g)"])
  qed (use R [OF _ that] idle triv in
        \<open>auto simp: set_embedding_def write_logged_def touched_ops foldl_apply apply_wal_op_def split: if_splits\<close>)
  show "kept J (io \<noteq> EncodeFails) G (snd (delete_embedding J io G i))" if "replay_room (live G) [DeleteEmbedding i]"
  proof (rule K [where ops = "[DeleteEmbedding i]" and logs = "\<lambda>_. [DeleteEmbedding i]"
          and touched = "\<lambda>_. cs_node i" and h = "\<lambda>n. n" and f = "\<lambda>g. (Inr (), apply_wal_op J g (DeleteEmbedding i))"])
  qed (use R [OF _ that] triv in
        \<open>auto simp: delete_embedding_def write_logged_def touched_ops apply_wal_op_def\<close>)
  let ?ops = "map (\<lambda>(i, v). SetEmbedding i v) es"
  have plain: "list_all is_plain ?ops"
    by (induction es) auto
  show "kept J (io \<noteq> EncodeFails) G (snd (set_embeddings_batch J io G es))" if "replay_room (live G) ?ops"
  proof (cases "es = []")
    case True
    with inv show ?thesis
      by (auto simp: set_embeddings_batch_def kept_def same_log_def intro: logged_quiet)
  next
    case False
    let ?f = "\<lambda>g. case first_absent g es of Some i \<Rightarrow> (Inl (NodeNotFound i), g)
        | None \<Rightarrow> (let ops = ?ops in (Inr ops, foldl (apply_wal_op J) g ops))"
    have eq: "snd (set_embeddings_batch J io G es) = snd (case write_locked G ?f from_ops of
        (Inl e, G) \<Rightarrow> (Inl e, G)
      | (Inr r, G) \<Rightarrow> (case record_ops G io r of (Inl e, G) \<Rightarrow> (Inl e, G) | (Inr _, G) \<Rightarrow> (Inr (), G)))"
      using False by (simp add: set_embeddings_batch_def split: sum.split prod.split)
    show ?thesis
      by (rule K [OF _ _ _ _ eq, where ops = "if first_absent (live G) es = None then ?ops else []"])
        (use R [OF plain that] idle triv in \<open>auto simp: foldl_apply Let_def split: option.splits\<close>)
  qed
qed

lemma replicate_kept:
  assumes inv: "engine_inv J G tr" and seq: "uint (commit_seq (live G)) + 2 < 2 ^ 64"
    and "list_all is_plain ops" and "replay_room (live G) ops"
  shows "kept J (io \<noteq> EncodeFails) G (snd (ng_apply_wal_ops J io G ops))"
proof (cases "ops = [] \<or> ng_read_only G")
  case True
  with inv show ?thesis
    by (auto simp: ng_apply_wal_ops_def write_unless_read_only_def kept_def same_log_def intro: logged_quiet)
next
  case False
  note I = engine_invD [OF inv]
  let ?g = "apply_wal_ops J (live G) ops"
  note W = replay_writes [OF I(1) assms(3,4) I(2)]
  have g: "moves J (live G) ?g ops" "flat_prepared (prepared ?g)" "twopc_ok ?g"
    using W I(2,3) by (simp_all add: writes_def twopc_ok_def)
  obtain g' G1 where n: "note_commit G ?g (from_ops ops) = (g', G1)"
    by fastforce
  have inv': "engine_inv J (put_live G1 g') (tr @ [(from_ops ops, ops)])"
    using engine_commit [OF inv g _ seq n] by simp
  obtain q G2 where rec: "record_split (put_live G1 g') io ops ops = (q, G2)"
    by fastforce
  have same: "same_graph (put_live G1 g') G2"
    using record_same(1) [of "put_live G1 g'" io ops ops] rec by simp
  have G2: "snd (ng_apply_wal_ops J io G ops) = G2"
    using False n rec by (simp add: ng_apply_wal_ops_def write_unless_read_only_def foldl_apply record_ops_def)
  have "same_log G (put_live G1 g')" "same_log G2 G2" "live G2 = g'"
    using note_commit_same [OF n] same_log_trans put_live_log same by (auto simp: same_log_def same_graph_def)
  then have "logged (io \<noteq> EncodeFails) G G2"
    using logged_record [OF rec] writes_durable [OF W] note_commit_same [OF n] by simp
  with same_graph_inv [OF inv' same] G2 show ?thesis
    by (auto simp: kept_def)
qed

section \<open>Batches\<close>

lemma commit_working_kept:
  assumes inv: "engine_inv J G tr" and seq: "uint (commit_seq (live G)) + 2 < 2 ^ 64" and W: "writes J (live G) w ops"
    and "commit_working io G w ops = (res, G1)" and "same_graph G1 G'" and "same_log G1 G'"
  shows "kept J (io \<noteq> EncodeFails) G G'"
proof -
  note I = engine_invD [OF inv]
  let ?G = "G\<lparr>ng_ids := ids w\<rparr>"
  have le: "ids_le (ng_ids G) (ids w)"
    using W by (simp add: writes_def moves_def)
  then have inv0: "engine_inv J ?G tr"
    by (rule engine_ids [OF inv])
  have log0: "same_log G ?G"
    by (simp add: same_log_def)
  show ?thesis
  proof (cases rule: record_cases [of ?G io ops ops])
    case (failed e G2)
    then have "G1 = G2"
      using assms(4) by (simp add: commit_working_def record_ops_def)
    with failed assms(5,6) have "same_graph ?G G'" "logged (io \<noteq> EncodeFails) G G'"
      by (auto simp: same_graph_def same_log_def logged_def)
    with same_graph_inv [OF inv0] show ?thesis
      by (auto simp: kept_def)
  next
    case (ok G2)
    have inv2: "engine_inv J G2 tr"
      by (rule same_graph_inv [OF inv0 ok(2)])
    have live2: "live G2 = (live G)\<lparr>ids := ids w\<rparr>" "commit_seq (live G2) = commit_seq (live G)"
      using ok(2) by (simp_all add: same_graph_def)
    obtain g' G3 where n: "note_commit G2 w (from_ops ops) = (g', G3)"
      by fastforce
    have "moves J (live G2) w ops" "flat_prepared (prepared w)" "twopc_ok w"
      using W I(2,3) by (simp_all add: writes_def moves_def live2 twopc_ok_def)
    then have inv3: "engine_inv J (put_live G3 g') (tr @ [(from_ops ops, ops)])"
      using engine_commit [OF inv2 _ _ _ _ _ n] seq live2 by simp
    have G1: "G1 = put_live G3 g'"
      using assms(4) ok(1) n by (simp add: commit_working_def record_ops_def)
    have "same_log G2 G'" "durable_of (live G') = durable_of w"
      using note_commit_same [OF n] assms(5,6) G1 by (auto simp: same_log_def same_graph_def)
    then have "logged (io \<noteq> EncodeFails) G G'"
      using logged_record [OF ok(1) log0] writes_durable [OF W] by (simp add: data_of_def)
    with same_graph_inv [OF inv3] assms(5) G1 show ?thesis
      by (auto simp: kept_def)
  qed
qed

lemma ids_kept: "engine_inv J G tr \<Longrightarrow> ids_le (ng_ids G) c \<Longrightarrow> kept J ok G (G\<lparr>ng_ids := c\<rparr>)"
  unfolding kept_def
  by (intro conjI exI [of _ tr] engine_ids logged_quiet) (simp_all add: same_log_def durable_of_def)

lemma idle_kept: "engine_inv J G tr \<Longrightarrow> kept J ok G G"
  by (auto simp: kept_def same_log_def intro: logged_quiet)

lemma create_all_writes:
  assumes "graph_inv J g" and "room (length xs) g" and "\<And>x g. x \<in> set xs \<Longrightarrow> \<exists>op. snd (f x g) = live_step J g op \<and>
      live_log J g op = (case fst (f x g) of Inl _ \<Rightarrow> [] | Inr r \<Rightarrow> [log r]) \<and> live_time op + int (length xs) \<le> i64_max"
    and "create_all f g xs = (res, w)"
  shows "case res of Inl _ \<Rightarrow> ids_le (ids g) (ids w) | Inr rs \<Rightarrow> writes J g w (map log rs)"
  using assms
proof (induction xs arbitrary: g res w)
  case Nil
  then show ?case
    by (auto intro: writes_refl)
next
  case (Cons x xs)
  obtain op where op: "snd (f x g) = live_step J g op" "live_log J g op = (case fst (f x g) of Inl _ \<Rightarrow> [] | Inr r \<Rightarrow> [log r])"
    "live_time op + int (length (x # xs)) \<le> i64_max"
    using Cons.prems(3) [of x g] by auto
  obtain q h where q: "f x g = (q, h)"
    by fastforce
  have W: "writes J g h (case q of Inl _ \<Rightarrow> [] | Inr r \<Rightarrow> [log r])"
    using live_writes [OF Cons.prems(1), of "length xs" op] Cons.prems(2) op q by simp
  then have h: "graph_inv J h" "ids_le (ids g) (ids h)"
    by (simp_all add: writes_def moves_def)
  have room: "room (length xs) h"
    using live_step_room [of "length xs" g op J] Cons.prems(2) op q by simp
  show ?case
  proof (cases q)
    case (Inl e)
    with Cons.prems(4) q h show ?thesis by auto
  next
    case (Inr r)
    obtain rs' w' where rest: "create_all f h xs = (rs', w')"
      by fastforce
    have "case rs' of Inl _ \<Rightarrow> ids_le (ids h) (ids w') | Inr rs \<Rightarrow> writes J h w' (map log rs)"
      using Cons.IH [OF h(1) room _ rest] Cons.prems(3) by fastforce
    with W Inr rest q Cons.prems(4) h(2) show ?thesis
      using writes_trans [of J g h "[log r]" w'] by (auto split: sum.splits intro: ids_le_trans)
  qed
qed

lemma create_batch_kept:
  assumes inv: "engine_inv J G tr" and seq: "uint (commit_seq (live G)) + 2 < 2 ^ 64" and "room (length xs) (live G)"
    and "\<And>x g. x \<in> set xs \<Longrightarrow> \<exists>op. snd (f x g) = live_step J g op \<and>
      live_log J g op = (case fst (f x g) of Inl _ \<Rightarrow> [] | Inr r \<Rightarrow> [log r]) \<and> live_time op + int (length xs) \<le> i64_max"
  shows "kept J (io \<noteq> EncodeFails) G (snd (create_batch f log target nows io G xs))"
proof (cases "xs = [] \<or> isl (write_for_commit G)")
  case True
  then have "snd (create_batch f log target nows io G xs) = G"
    by (auto simp: create_batch_def isl_def)
  with idle_kept [OF inv] show ?thesis
    by simp
next
  case False
  then have lock: "write_for_commit G = Inr (live G)"
    by (auto simp: write_for_commit_def write_unless_read_only_def split: if_splits)
  obtain res w where all: "create_all f (live G) xs = (res, w)"
    by fastforce
  note W = create_all_writes [OF engine_invD(1) [OF inv] assms(3,4) all]
  show ?thesis
  proof (cases res)
    case (Inl e)
    then have "snd (create_batch f log target nows io G xs) = G\<lparr>ng_ids := ids w\<rparr>"
      using False by (simp add: create_batch_def lock all)
    with ids_kept [OF inv] W Inl show ?thesis
      by simp
  next
    case (Inr rs)
    obtain q G1 where q: "commit_working io G w (map log rs) = (q, G1)"
      by fastforce
    have G': "snd (create_batch f log target nows io G xs) = (case q of Inl _ \<Rightarrow> G1 | Inr _ \<Rightarrow> stamp_writes G1 nows (map target rs))"
      using False by (simp add: create_batch_def lock all Inr q split: sum.split)
    have "same_graph G1 (snd (create_batch f log target nows io G xs)) \<and> same_log G1 (snd (create_batch f log target nows io G xs))"
      unfolding G' by (cases q) (simp_all add: stamps_same stamps_log, simp add: same_graph_def same_log_def)
    with commit_working_kept [OF inv seq _ q] W Inr show ?thesis
      by simp
  qed
qed

lemma delete_present_writes:
  assumes "graph_inv J g" and "delete_present J g is = (res, w)"
  shows "case res of Inl _ \<Rightarrow> False | Inr ds \<Rightarrow> writes J g w (map (\<lambda>(i, _). DeleteNode i) ds)"
  using assms
proof (induction "is" arbitrary: g res w)
  case (Cons i "is")
  show ?case
  proof (cases "fmlookup (nodes g) i")
    case (Some n)
    obtain h where h: "delete_node J g i = (Inr (), h)"
      using Some by (simp add: delete_node_def)
    have "durable_of (live_step J g (LiveDeleteNode i)) = foldl spec_plain (durable_of g) (live_log J g (LiveDeleteNode i))"
      by (rule live_step_durable [OF Cons.prems(1)])
    then have "durable_of h = foldl spec_plain (durable_of g) [DeleteNode i]"
      using h by simp
    then have "data_of h = foldl spec_plain (data_of g) [DeleteNode i]"
      by (rule durable_data) simp
    moreover have "graph_inv J h" "same_tables g h" "ids h = ids g"
      using delete_node_inv [OF Cons.prems(1), of i] live_step_frame [of g J "LiveDeleteNode i"] h Some
      by (simp_all) (auto simp: delete_node_def)
    ultimately have W: "writes J g h [DeleteNode i]"
      by (simp add: writes_def moves_def same_tables_def)
    obtain q w' where rest: "delete_present J h is = (q, w')"
      by fastforce
    have "case q of Inl _ \<Rightarrow> False | Inr ds \<Rightarrow> writes J h w' (map (\<lambda>(i, _). DeleteNode i) ds)"
      using Cons.IH [OF \<open>graph_inv J h\<close> rest] .
    with Cons.prems(2) Some h rest writes_trans [OF W] show ?thesis
      by (auto split: sum.splits)
  qed (use Cons in simp)
qed (auto intro: writes_refl)

lemma delete_nodes_kept:
  assumes inv: "engine_inv J G tr" and seq: "uint (commit_seq (live G)) + 2 < 2 ^ 64"
  shows "kept J (io \<noteq> EncodeFails) G (snd (delete_nodes J nows io G is))"
proof (cases "write_for_commit G")
  case (Inl e)
  with idle_kept [OF inv] show ?thesis
    by (simp add: delete_nodes_def)
next
  case (Inr lv)
  then have lv: "lv = live G"
    by (auto simp: write_for_commit_def write_unless_read_only_def split: if_splits)
  obtain res w where del: "delete_present J (live G) is = (res, w)"
    by fastforce
  with delete_present_writes [OF engine_invD(1) [OF inv] del] obtain ds where
    ds: "res = Inr ds" and W: "writes J (live G) w (map (\<lambda>(i, _). DeleteNode i) ds)"
    by (cases res) auto
  obtain q G1 where q: "commit_working io G w (map (\<lambda>(i, _). DeleteNode i) ds) = (q, G1)"
    by fastforce
  have G': "snd (delete_nodes J nows io G is) =
      (if ds = [] then G else case q of Inl _ \<Rightarrow> G1 | Inr _ \<Rightarrow> stamp_tombstones G1 nows ds)"
    using Inr by (simp add: delete_nodes_def lv del ds q split: sum.split)
  show ?thesis
  proof (cases "ds = []")
    case False
    then have "same_graph G1 (snd (delete_nodes J nows io G is)) \<and> same_log G1 (snd (delete_nodes J nows io G is))"
      unfolding G' by (cases q) (simp_all add: stamps_same stamps_log, simp add: same_graph_def same_log_def)
    with commit_working_kept [OF inv seq W q] show ?thesis
      by simp
  qed (use G' idle_kept [OF inv] in simp)
qed

section \<open>Transactions\<close>

lemma begin_kept:
  assumes "engine_inv J G tr"
  shows "kept J ok G (snd (register_tx G i limited))"
proof -
  note I = engine_invD [OF assms]
  have "slot_inv J (live G) (ng_ptr G) tr (begin_slot G i limited)"
    unfolding slot_inv_def
  proof (intro conjI exI [of _ "length tr"])
    show "graph_inv J ((ts_working (begin_slot G i limited))\<lparr>ids := ids (live G)\<rparr>)"
      using I(1) by (simp add: begin_slot_def live_def borrow_def)
  qed (use I(5) in \<open>simp_all add: begin_slot_def live_def borrow_def same_tables_def data_of_def durable_of_def\<close>)
  then have "engine_inv J (G\<lparr>ng_reg_txs := fmupd (ng_next_reg_tx G + 1) (begin_slot G i limited) (ng_reg_txs G)\<rparr>) tr"
    by (intro engine_slots [OF assms]) (auto split: if_splits)
  then have "engine_inv J (snd (register_tx G i limited)) tr"
    by (rule engine_inv_cong) (simp_all add: register_tx_def Let_def)
  then show ?thesis
    by (auto simp: kept_def register_tx_def Let_def same_log_def intro!: logged_quiet)
qed

lemma slot_write_kept:
  assumes inv: "engine_inv J G tr" and slot: "fmlookup (ng_reg_txs G) t = Some slot" and room: "room 1 (borrow G (ts_working slot))"
    and f: "snd (f (borrow G (ts_working slot))) = live_step J (borrow G (ts_working slot)) op"
      "live_log J (borrow G (ts_working slot)) op = (case fst (f (borrow G (ts_working slot))) of Inl _ \<Rightarrow> [] | Inr r \<Rightarrow> [log r])"
  shows "kept J ok G (snd (with_slot G t (\<lambda>G slot. slot_write G slot f log)))"
proof (cases "if ts_limited slot then check_tx_room G (length (ts_ops slot)) else Inr ()")
  case (Inl e)
  have "fmupd t slot (ng_reg_txs G) = ng_reg_txs G"
    by (rule fmap_ext) (auto simp: slot)
  with Inl slot idle_kept [OF inv] show ?thesis
    by (simp add: with_slot_def slot_write_def)
next
  case (Inr u)
  let ?w = "borrow G (ts_working slot)"
  obtain res g where q: "f ?w = (res, g)"
    by fastforce
  note S = engine_invD(8) [OF inv slot, unfolded slot_inv_def]
  define ops where "ops = (case res of Inl _ \<Rightarrow> [] | Inr r \<Rightarrow> [log r])"
  define slot' where "slot' = slot\<lparr>ts_working := g, ts_ops := ts_ops slot @ ops\<rparr>"
  have "graph_inv J ?w"
    using S by (simp add: borrow_def)
  from live_writes [OF this, of 0 op] have W: "writes J ?w g ops"
    using room f q by (simp add: ops_def)
  let ?G = "G\<lparr>ng_ids := ids g, ng_reg_txs := fmupd t slot' (ng_reg_txs G)\<rparr>"
  have G': "snd (with_slot G t (\<lambda>G slot. slot_write G slot f log)) = ?G"
    using Inr slot q by (cases res) (simp_all add: with_slot_def slot_write_def slot'_def ops_def)
  have le: "ids_le (ng_ids G) (ids g)"
    using W by (simp add: writes_def moves_def)
  have "slot_inv J ((live G)\<lparr>ids := ids g\<rparr>) (ng_ptr G) tr slot'"
    using slot_ids [OF engine_invD(8) [OF inv slot], of "ids g"] le W
    unfolding slot_inv_def slot'_def writes_def moves_def same_tables_def by simp
  then have "fmlookup (ng_reg_txs (G\<lparr>ng_ids := ids g\<rparr>)) u = Some s \<or> slot_inv J (live (G\<lparr>ng_ids := ids g\<rparr>)) (ng_ptr (G\<lparr>ng_ids := ids g\<rparr>)) tr s"
    if "fmlookup (fmupd t slot' (ng_reg_txs G)) u = Some s" for u s
    using that by (auto split: if_splits)
  then have "engine_inv J (G\<lparr>ng_ids := ids g, ng_reg_txs := fmupd t slot' (ng_reg_txs G)\<rparr>) tr"
    by (rule engine_slots [OF engine_ids [OF inv le]])
  then show ?thesis
    unfolding G' kept_def by (auto simp: same_log_def durable_of_def intro!: logged_quiet)
qed

lemma tx_write_kept:
  assumes inv: "engine_inv J G tr" and room: "fits_cmd G (TxWrite t op)"
  shows "kept J ok G (tx_write J G t op)"
proof (cases "fmlookup (ng_reg_txs G) t")
  case None
  then show ?thesis
    using idle_kept [OF inv]
    by (cases op) (simp_all add: tx_create_node_def tx_update_node_def tx_delete_node_def tx_create_edge_def tx_update_edge_def
        tx_delete_edge_def with_slot_def)
next
  case (Some slot)
  then have "room 1 (borrow G (ts_working slot))"
    using room by simp
  note K = slot_write_kept [OF inv Some this]
  show ?thesis
  proof (cases op)
    case (LiveCreateNode env nn r)
    show ?thesis
      unfolding LiveCreateNode tx_write.simps tx_create_node_def by (rule K [where op = "LiveCreateNode env nn False"]) simp_all
  next
    case (LiveUpdateNode env i p r)
    show ?thesis
      unfolding LiveUpdateNode tx_write.simps tx_update_node_def by (rule K [where op = "LiveUpdateNode env i p False"]) simp_all
  qed (simp only: tx_write.simps tx_delete_node_def tx_create_edge_def tx_update_edge_def tx_delete_edge_def; rule K [where op = op]; simp)+
qed

end
