(* ===== verification/Native_Commit.thy ===== *)
theory Native_Commit
  imports Native_Run
begin

text \<open>
  Commits, two-phase commit and constraints: the rest of the proof that every call keeps the invariant of
  the engine, and what follows of it for transactions, the log and the feed.
\<close>

section \<open>Commit\<close>

lemma first_unmet_cong: "constraints g' = constraints g \<Longrightarrow> first_unmet J g' ns = first_unmet J g ns"
  by (induction ns) (simp_all add: check_exists_def split: option.split)

lemma validate_cong:
  assumes "nodes g' = nodes g" and "constraints g' = constraints g"
  shows "validate_constraints J g' = validate_constraints J g"
  unfolding validate_constraints_def assms first_unmet_cong [OF assms(2)] ..

definition prepared_ops :: "'j inner \<Rightarrow> 'j wal_op list" where
  "prepared_ops g = concat (map (pe_ops \<circ> snd) (sorted_list_of_fmap (prepared g)))"

lemma with_prepared_replay: "with_prepared J g = apply_wal_ops J g (prepared_ops g)"
proof -
  have "foldl (\<lambda>after (_, entry). foldl (apply_wal_op J) after (pe_ops entry)) h es = apply_wal_ops J h (concat (map (pe_ops \<circ> snd) es))"
    for h and es :: "(string \<times> 'a prepared_entry) list"
    by (induction es arbitrary: h) (auto simp: foldl_apply apply_wal_ops_append)
  then show ?thesis
    by (simp add: with_prepared_def prepared_ops_def)
qed

lemma prepared_ops_plain: "flat_prepared (prepared g) \<Longrightarrow> list_all is_plain (prepared_ops g)"
  by (fastforce simp: prepared_ops_def flat_prepared_def list_all_iff sorted_list_of_fmap_def fmlookup_dom_iff)

lemma breaks_ids: "flat_prepared (prepared g) \<Longrightarrow> ids_le (ids g) (snd (breaks_prepared J g))"
  using replay_plain_frame [OF prepared_ops_plain, of g J g] by (simp add: breaks_prepared_def with_prepared_replay Let_def)

text \<open>
  Whether the declared constraints hold depends on the nodes alone; the fence promises that they still hold
  once everything that is prepared is applied.
\<close>

definition valid_nodes :: "'j json_lib \<Rightarrow> schema_constraint list \<Rightarrow> (u64, 'j node) fmap \<Rightarrow> bool" where
  "valid_nodes J cs N \<longleftrightarrow> validate_constraints J (inner_default\<lparr>nodes := N, constraints := cs\<rparr>) = Inr ()"

definition prepared_safe :: "'j json_lib \<Rightarrow> 'j inner \<Rightarrow> bool" where
  "prepared_safe J g \<longleftrightarrow> valid_nodes J (constraints g) (d_nodes (foldl spec_plain (data_of g) (prepared_ops g)))"

lemma validate_valid: "validate_constraints J g = Inr () \<longleftrightarrow> valid_nodes J (constraints g) (nodes g)"
  using validate_cong [of g "inner_default\<lparr>nodes := nodes g, constraints := constraints g\<rparr>" J] by (simp add: valid_nodes_def)

lemma valid_unconstrained: "valid_nodes J [] N"
proof -
  have "first_unmet J (inner_default\<lparr>nodes := N, constraints := []\<rparr>) ns = None" for ns
    by (induction ns) (simp_all add: check_exists_def)
  then show ?thesis
    by (simp add: valid_nodes_def validate_constraints_def)
qed

lemma replay_nodes: "list_all is_plain ops \<Longrightarrow> d_nodes d = nodes g \<Longrightarrow> nodes (apply_wal_ops J g ops) = d_nodes (foldl spec_plain d ops)"
proof (induction ops arbitrary: g d)
  case (Cons op ops)
  have drop: "nodes (drop_node J g n i) = fmdrop i (nodes g)" for n i
    by (simp add: drop_node_def Let_def)
  have upsert: "nodes (upsert_node J n g) = fmupd (n_id n) n (nodes g)" "nodes (upsert_edge e g) = nodes g" for n e
    by (simp_all add: upsert_node_def upsert_edge_def Let_def split: option.split)
  have "nodes (apply_wal_op J g op) = d_nodes (spec_plain d op)"
    using Cons.prems by (cases op) (auto simp: apply_wal_op_def drop upsert fmlookup_dom_iff split: option.split)
  moreover have "apply_wal_ops J g (op # ops) = apply_wal_ops J (apply_wal_op J g op) ops"
    by (simp add: apply_wal_ops_foldl)
  ultimately show ?case
    using Cons by simp
qed simp

lemma breaks_exact:
  assumes "flat_prepared (prepared g)" and "validate_constraints J g = Inr ()"
  shows "\<not> fst (breaks_prepared J g) \<longleftrightarrow> prepared_safe J g"
proof -
  note plain = prepared_ops_plain [OF assms(1)]
  have v: "validate_constraints J (with_prepared J g) = Inr () \<longleftrightarrow> prepared_safe J g"
    using replay_nodes [OF plain, of "data_of g" g J] replay_plain_frame [OF plain, of J g]
    by (simp add: validate_valid with_prepared_replay prepared_safe_def)
  have bad: "isl (validate_constraints J h) \<longleftrightarrow> validate_constraints J h \<noteq> Inr ()" for h
    by (cases "validate_constraints J h") auto
  consider "prepared g = fmempty" | "constraints g = []" | "prepared g \<noteq> fmempty" "constraints g \<noteq> []"
    by blast
  then show ?thesis
  proof cases
    case 1
    then have "prepared_ops g = []"
      by (simp add: prepared_ops_def sorted_list_of_fmap_def)
    with 1 assms(2) show ?thesis
      by (simp add: breaks_prepared_def prepared_safe_def validate_valid)
  next
    case 2
    then show ?thesis
      by (simp add: breaks_prepared_def prepared_safe_def valid_unconstrained)
  next
    case 3
    with v show ?thesis
      by (simp add: breaks_prepared_def Let_def bad)
  qed
qed

text \<open>
  The shape of a commit: nothing to do; refused, with no effect but counters; or tried, with a state that
  applies the write set to the live state and satisfies the constraints, now and with what is prepared.
\<close>

definition merge_base :: "'j native_graph \<Rightarrow> 'j tx_slot \<Rightarrow> 'j inner \<Rightarrow> bool" where
  "merge_base G slot w \<longleftrightarrow>
     (if ng_ptr G = ts_base_ptr slot then data_of w = data_of (ts_working slot)
      else ts_isolation slot = Snapshot \<and>
        classify (ng_history G) (commit_seq (ts_base slot)) (from_ops (ts_ops slot)) = WouldPass)"

lemma record_keeps_ids: "ng_ids (snd (record_ops G io ops)) = ng_ids G"
  by (simp add: record_ops_def record_split_def group_commit_def split: io_outcome.split)

text \<open>What both ways of committing share, from the state to install.\<close>

definition commit_tail ::
    "'j json_lib \<Rightarrow> io_outcome \<Rightarrow> string list \<Rightarrow> ('j native_graph \<Rightarrow> 'j native_graph) \<Rightarrow> 'j native_graph \<Rightarrow> 'j inner \<Rightarrow> 'j wal_op list \<Rightarrow>
       (commit_error, unit) result \<times> 'j native_graph" where
  "commit_tail J io gids adj G m ops =
     (let (broken, c) = breaks_prepared J m; G = G\<lparr>ng_ids := c\<rparr> in
      if broken then (Inl (CommitPreparedPending gids), G)
      else (case record_ops G io ops of
              (Inl e, G) \<Rightarrow> (Inl (CommitIo (Rendered e)), G)
            | (Inr _, G) \<Rightarrow> (let (g, G) = note_commit G (borrow G m) (from_ops ops) in (Inr (), put_live (adj G) g))))"

lemma commit_tail_cases [case_names refused tried]:
  assumes flat: "flat_prepared (prepared (live G))" and W: "writes J (live G) m ops" and v: "validate_constraints J m = Inr ()"
    and adj: "\<And>H. \<exists>cc. adj H = H\<lparr>ng_conflicts := cc\<rparr>"
  obtains c where "commit_tail J io gids adj G m ops = (Inl (CommitPreparedPending gids), G\<lparr>ng_ids := c\<rparr>)" "ids_le (ng_ids G) c"
  | w q G1 cc where "writes J (live G) w ops" "validate_constraints J w = Inr ()" "prepared_safe J w" "data_of w = data_of m"
      "commit_working io G w ops = (q, G1)"
      "commit_tail J io gids adj G m ops = (case q of Inl e \<Rightarrow> Inl (CommitIo (Rendered e)) | Inr _ \<Rightarrow> Inr (), G1\<lparr>ng_conflicts := cc\<rparr>)"
proof -
  obtain broken c where br: "breaks_prepared J m = (broken, c)"
    by fastforce
  have flat': "flat_prepared (prepared m)"
    using W flat by (simp add: writes_def)
  have le: "ids_le (ids m) c" "ids_le (ng_ids G) c"
    using breaks_ids [OF flat', of J] W br ids_le_trans [of "ng_ids G"] by (auto simp: writes_def moves_def)
  show thesis
  proof (cases broken)
    case True
    with br le(2) that(1) [of c] show thesis
      by (simp add: commit_tail_def)
  next
    case False
    let ?w = "m\<lparr>ids := c\<rparr>"
    have w: "writes J (live G) ?w ops" "validate_constraints J ?w = Inr ()" "prepared_safe J ?w"
      using W le graph_inv_ids [of J m c] v validate_cong [of ?w m J] breaks_exact [OF flat' v] br False
      by (simp_all add: writes_def moves_def prepared_safe_def prepared_ops_def)
    obtain q G2 where rec: "record_ops (G\<lparr>ng_ids := c\<rparr>) io ops = (q, G2)"
      by fastforce
    have c2: "borrow G2 m = ?w"
      using record_keeps_ids [of "G\<lparr>ng_ids := c\<rparr>" io ops] rec by (simp add: borrow_def)
    show thesis
    proof (cases q)
      case (Inl e)
      show thesis
        by (rule that(2) [of ?w q G2 "ng_conflicts G2"])
          (use w rec br False in \<open>simp_all add: commit_tail_def commit_working_def Inl\<close>)
    next
      case (Inr u)
      obtain g G3 where n: "note_commit G2 ?w (from_ops ops) = (g, G3)"
        by fastforce
      obtain cc where cc: "adj G3 = G3\<lparr>ng_conflicts := cc\<rparr>"
        using adj by blast
      show thesis
        by (rule that(2) [of ?w q "put_live G3 g" cc])
          (use w rec br False n cc in \<open>simp_all add: commit_tail_def commit_working_def Inr c2 put_live_def\<close>)
    qed
  qed
qed

lemma commit_parts_cases [case_names empty refused tried]:
  assumes flat: "flat_prepared (prepared (live G))" and inv: "graph_inv J (live G)" and S: "slot_inv J (live G) (ng_ptr G) tr slot"
    and room: "replay_room (live G) (ts_ops slot)"
  obtains "ts_ops slot = []" "commit_parts J io G slot = (Inr (), G)"
  | e c cc where "ts_ops slot \<noteq> []" "commit_parts J io G slot = (Inl e, G\<lparr>ng_ids := c, ng_conflicts := cc\<rparr>)"
      "ids_le (ng_ids G) c" "\<And>m. e \<noteq> CommitIo m"
  | w q G1 cc where "ts_ops slot \<noteq> []" "\<not> ng_read_only G" "writes J (live G) w (ts_ops slot)" "validate_constraints J w = Inr ()"
      "prepared_safe J w" "commit_working io G w (ts_ops slot) = (q, G1)" "merge_base G slot w"
      "commit_parts J io G slot = (case q of Inl e \<Rightarrow> Inl (CommitIo (Rendered e)) | Inr _ \<Rightarrow> Inr (), G1\<lparr>ng_conflicts := cc\<rparr>)"
proof -
  note empty = that(1) and refuse = that(2) and attempt = that(3)
  have cc: "\<exists>cc. count_conflict H r = H\<lparr>ng_conflicts := cc\<rparr>" for H :: "'a native_graph" and r
    by (auto simp: count_conflict_def)
  let ?ops = "ts_ops slot" and ?w = "borrow G (ts_working slot)" and ?m = "apply_wal_ops J (live G) (ts_ops slot)"
    and ?mine = "from_ops (ts_ops slot)" and ?gids = "pending_gids (live G)"
  note S' = S [unfolded slot_inv_def]
  have gids: "pending_gids ((live G)\<lparr>ids := c\<rparr>) = ?gids" for c
    by (simp add: pending_gids_def)
  have id_adj: "\<exists>cc. H = H\<lparr>ng_conflicts := cc\<rparr>" and
    merge_adj: "\<exists>cc. H\<lparr>ng_conflicts := (ng_conflicts H)\<lparr>cc_merged := cc_merged (ng_conflicts H) + 1\<rparr>\<rparr> = H\<lparr>ng_conflicts := cc\<rparr>"
    for H :: "'a native_graph"
    by (rule exI [of _ "ng_conflicts H"], simp) blast
  have tail: thesis
    if W: "writes J (live G) m ?ops" and v: "validate_constraints J m = Inr ()" and mb: "merge_base G slot m" and ne: "?ops \<noteq> []"
      and ro: "\<not> ng_read_only G" and adj: "\<And>H. \<exists>cc. adj H = H\<lparr>ng_conflicts := cc\<rparr>"
      and cp: "commit_parts J io G slot = commit_tail J io ?gids adj G m ?ops" for m adj
  proof (cases rule: commit_tail_cases [OF flat W v adj, of io ?gids, case_names refused tried])
    case (refused c)
    with cp show thesis
      by (intro refuse [OF ne, of "CommitPreparedPending ?gids" "ng_conflicts G" c]) simp_all
  next
    case (tried w q G1 cc)
    with mb have "merge_base G slot w"
      by (simp add: merge_base_def)
    with tried cp show thesis
      by (intro attempt [OF ne ro, of w q G1 cc]) simp_all
  qed
  show thesis
  proof (cases "?ops = [] \<or> ng_read_only G \<or> prepared (live G) \<noteq> fmempty \<and> intersects ?mine (prepared_set (live G))")
    case True
    show thesis
    proof (cases "?ops = []")
      case False
      with True show thesis
        using refuse [of "if ng_read_only G then CommitReadOnly else CommitPreparedPending ?gids" "ng_conflicts G" "ng_ids G"]
        by (cases "ng_read_only G") (simp_all add: commit_parts_def Let_def)
    qed (use empty in \<open>simp add: commit_parts_def Let_def\<close>)
  next
    case go: False
    then have fence: "(prepared (live G) \<noteq> fmempty \<and> intersects ?mine (prepared_set (live G))) = False"
      by simp
    show thesis
    proof (cases "ng_ptr G = ts_base_ptr slot")
      case True
      then have base: "(ts_base slot)\<lparr>ids := ng_ids G\<rparr> = live G"
        using S' by simp
      have "data_of (live G) = data_of (ts_base slot)" "prepared (live G) = prepared (ts_base slot)"
        "heuristic (live G) = heuristic (ts_base slot)" "constraints (live G) = constraints (ts_base slot)"
        "commit_seq (live G) = commit_seq (ts_base slot)"
        by (subst base [symmetric], simp)+
      then have W: "writes J (live G) ?w ?ops" and mb: "merge_base G slot ?w"
        using S' True by (simp_all add: writes_def moves_def same_tables_def merge_base_def borrow_def)
      show thesis
      proof (cases "validate_constraints J ?w")
        case (Inl v)
        with go True refuse [of "CommitConstraint v" "ng_conflicts G" "ng_ids G"] show thesis
          by (simp add: commit_parts_def Let_def fence)
      next
        case (Inr u)
        show thesis
          by (rule tail [OF W _ mb _ _ id_adj])
            (use go True Inr in \<open>simp_all add: commit_parts_def commit_tail_def Let_def gids fence case_prod_beta\<close>)
      qed
    next
      case moved: False
      let ?r = "classify (ng_history G) (commit_seq (ts_base slot)) ?mine"
      show thesis
      proof (cases "?r \<noteq> WouldPass \<or> ts_isolation slot = Serializable")
        case True
        obtain cc where "count_conflict G ?r = G\<lparr>ng_conflicts := cc\<rparr>"
          using cc by blast
        with True go moved refuse [of CommitConflict cc "ng_ids G"] show thesis
          by (auto simp: commit_parts_def Let_def fence)
      next
        case pass: False
        then have mb: "merge_base G slot ?m"
          using moved by (cases "ts_isolation slot") (simp_all add: merge_base_def)
        have W: "writes J (live G) ?m ?ops"
          using S' by (intro replay_writes [OF inv _ room flat]) simp
        have cm: "commit_parts J io G slot = commit_merged J io G ?w ?ops"
          using go moved pass by (simp add: commit_parts_def Let_def fence)
        show thesis
        proof (cases "validate_constraints J ?w")
          case (Inl v)
          with cm go refuse [of "CommitConstraint v" "ng_conflicts G" "ng_ids G"] show thesis
            by (simp add: commit_merged_def)
        next
          case (Inr u)
          show thesis
          proof (cases "validate_constraints J ?m")
            case bad: (Inl v)
            obtain cc where "count_conflict (G\<lparr>ng_ids := ids ?m\<rparr>) Overlap = G\<lparr>ng_ids := ids ?m, ng_conflicts := cc\<rparr>"
              using cc [of "G\<lparr>ng_ids := ids ?m\<rparr>" Overlap] by auto
            with cm go Inr bad W refuse [of CommitConflict cc "ids ?m"] show thesis
              by (simp add: commit_merged_def Let_def foldl_apply writes_def moves_def)
          next
            case (Inr u')
            show thesis
              by (rule tail [OF W _ mb _ _ merge_adj])
                (use go cm Inr \<open>validate_constraints J ?w = Inr u\<close> in
                  \<open>simp_all add: commit_merged_def commit_tail_def Let_def gids foldl_apply case_prod_beta split: sum.split\<close>)
          qed
        qed
      qed
    qed
  qed
qed

lemma counters_same: "same_graph G (G\<lparr>ng_conflicts := cc\<rparr>)" "same_log G (G\<lparr>ng_conflicts := cc\<rparr>)"
  by (simp_all add: same_graph_def same_log_def)

lemma kept_same:
  assumes "kept J ok G G1" and "same_graph G1 G'" and "same_log G1 G'"
  shows "kept J ok G G'"
  using assms same_graph_inv by (fastforce simp: kept_def logged_def same_graph_def same_log_def)

text \<open>Closing a transaction does not change what is reachable from the others.\<close>

lemma take_slot_inv:
  assumes "engine_inv J G tr" and "take_slot G t = Some (slot, G1)"
  shows "engine_inv J G1 tr" and "slot_inv J (live G1) (ng_ptr G1) tr slot" and "same_log G G1" and "live G1 = live G"
    and "ng_read_only G1 = ng_read_only G" and "ng_ptr G1 = ng_ptr G" and "ng_history G1 = ng_history G"
proof -
  have slot: "fmlookup (ng_reg_txs G) t = Some slot" and G1: "G1 = G\<lparr>ng_reg_txs := fmdrop t (ng_reg_txs G)\<rparr>"
    using assms(2) by (auto simp: take_slot_def split: option.splits)
  show "engine_inv J G1 tr"
    unfolding G1 by (rule engine_slots [OF assms(1)]) (auto split: if_splits)
  show "slot_inv J (live G1) (ng_ptr G1) tr slot"
    using engine_invD(8) [OF assms(1) slot] by (simp add: G1)
  show "same_log G G1" "live G1 = live G" "ng_read_only G1 = ng_read_only G" "ng_ptr G1 = ng_ptr G" "ng_history G1 = ng_history G"
    by (simp_all add: G1 same_log_def)
qed

lemma kept_from:
  assumes "kept J ok G1 G'" and "same_log G G1" and "live G1 = live G"
  shows "kept J ok G G'"
  using assms unfolding kept_def logged_def same_log_def by simp

lemma commit_kept:
  assumes inv: "engine_inv J G tr" and fits: "fits G (Commit io t)"
  shows "kept J (io \<noteq> EncodeFails) G (snd (tx_commit J io G t))"
proof (cases "take_slot G t")
  case None
  with idle_kept [OF inv] show ?thesis
    by (simp add: tx_commit_def)
next
  case (Some p)
  then obtain slot G1 where slot: "take_slot G t = Some (slot, G1)"
    by (cases p) simp
  note T = take_slot_inv [OF inv slot] and I = engine_invD [OF take_slot_inv(1) [OF inv slot]]
  have room: "replay_room (live G1) (ts_ops slot)" and seq: "uint (commit_seq (live G1)) + 2 < 2 ^ 64"
    using fits slot T(4) by (auto simp: fits_def take_slot_def split: option.splits)
  have "kept J (io \<noteq> EncodeFails) G1 (snd (commit_parts J io G1 slot))"
  proof (cases rule: commit_parts_cases [OF I(2,1) T(2) room, of io, case_names empty refused tried])
    case empty
    with idle_kept [OF T(1)] show ?thesis by simp
  next
    case (refused e c cc)
    have "kept J (io \<noteq> EncodeFails) G1 (G1\<lparr>ng_ids := c\<rparr>)"
      using ids_kept [OF T(1) refused(3)] .
    from kept_same [OF this counters_same] refused(2) show ?thesis
      by simp
  next
    case (tried w q G2 cc)
    from commit_working_kept [OF T(1) seq tried(3,6) counters_same] tried(8) show ?thesis
      by simp
  qed
  with kept_from [OF _ T(3,4)] slot show ?thesis
    by (simp add: tx_commit_def)
qed

lemma rollback_kept: "engine_inv J G tr \<Longrightarrow> kept J ok G (snd (tx_rollback G t))"
proof (cases "take_slot G t")
  case (Some p)
  assume inv: "engine_inv J G tr"
  obtain slot G1 where slot: "take_slot G t = Some (slot, G1)"
    using Some by (cases p) simp
  note T = take_slot_inv [OF inv slot]
  from kept_from [OF idle_kept [OF T(1)] T(3,4)] slot show ?thesis
    by (simp add: tx_rollback_def)
qed (simp add: tx_rollback_def idle_kept)

section \<open>Two-phase commit\<close>

text \<open>What all steps of two-phase commit share: a record, then a change of the live state noted as a commit.\<close>

lemma resolve_kept:
  assumes inv: "engine_inv J G tr" and seq: "uint (commit_seq (live G)) + 2 < 2 ^ 64"
    and M: "moves J (live G) g fops" and ok: "flat_prepared (prepared g)" "twopc_ok g"
    and D: "durable_of g = foldl spec_op (durable_of (live G)) wops" "list_all flat_op wops"
    and G': "G' = (case record_split G io wops fops of
        (Inl e, G1) \<Rightarrow> G1 | (Inr _, G1) \<Rightarrow> (case note_commit G1 g (from_ops fops) of (g', G2) \<Rightarrow> put_live G2 g'))"
  shows "kept J (io \<noteq> EncodeFails) G G'"
proof (cases rule: record_cases [of G io wops fops])
  case (failed e G1)
  then have "G' = G1"
    by (simp add: G')
  with failed same_graph_inv [OF inv failed(2)] show ?thesis
    by (auto simp: kept_def logged_def)
next
  case (ok G1)
  have inv1: "engine_inv J G1 tr" and live1: "live G1 = live G"
    using same_graph_inv [OF inv ok(2)] ok(2) by (simp_all add: same_graph_def)
  obtain g' G2 where n: "note_commit G1 g (from_ops fops) = (g', G2)"
    by fastforce
  have G'2: "G' = put_live G2 g'"
    by (simp add: G' ok(1) n)
  have "engine_inv J G' (tr @ [(from_ops fops, fops)])"
    unfolding G'2 by (rule engine_commit [OF inv1 _ assms(4,5) _ _ n]) (use M seq live1 in simp_all)
  moreover have "logged (io \<noteq> EncodeFails) G G'"
    by (rule logged_record [OF ok(1)])
      (use note_commit_same [OF n] D M same_log_trans in \<open>auto simp: G'2 moves_def same_log_def\<close>)
  ultimately show ?thesis
    by (auto simp: kept_def)
qed

lemma prepare_kept:
  assumes inv: "engine_inv J G tr" and seq: "uint (commit_seq (live G)) + 2 < 2 ^ 64"
  shows "kept J (io \<noteq> EncodeFails) G (snd (tx_prepare J now io G t gid))"
proof (cases "take_slot G t")
  case None
  with idle_kept [OF inv] show ?thesis
    by (simp add: tx_prepare_def)
next
  case (Some p)
  then obtain slot G1 where slot: "take_slot G t = Some (slot, G1)"
    by (cases p) simp
  note T = take_slot_inv [OF inv slot] and I = engine_invD [OF take_slot_inv(1) [OF inv slot]]
  let ?entry = "\<lparr>pe_prepared_at_ms = now, pe_ops = ts_ops slot\<rparr>"
  let ?g = "(live G1)\<lparr>heuristic := heuristic (live G1) |-| {|gid|}, prepared := fmupd gid ?entry (prepared (live G1))\<rparr>"
  let ?wops = "[Prepare gid now (ts_ops slot)]"
  have plain: "list_all is_plain (ts_ops slot)"
    using T(2) by (simp add: slot_inv_def)
  define G2 where "G2 = (case record_split G1 io ?wops [] of
        (Inl e, G1) \<Rightarrow> G1 | (Inr _, G1) \<Rightarrow> (case note_commit G1 ?g (from_ops ([] :: 'a wal_op list)) of (g', G2) \<Rightarrow> put_live G2 g'))"
  have fin: "kept J (io \<noteq> EncodeFails) G1 G2"
  proof (rule resolve_kept [OF T(1) _ _ _ _ _ _ G2_def])
    show "moves J (live G1) ?g []"
      using I(1) by (simp add: moves_def)
    show "flat_prepared (prepared ?g)"
      using I(2) plain by (auto simp: flat_prepared_def split: if_splits)
    show "twopc_ok ?g"
      using I(3) by (auto simp: twopc_ok_def)
    show "durable_of ?g = foldl spec_op (durable_of (live G1)) ?wops"
      by (simp add: spec_op_def durable_of_def)
  qed (use seq T(4) plain in simp_all)
  have live_rec: "live (snd (record_split G1 io ?wops [])) = live G1"
    using record_same(1) [of G1 io ?wops "[]"] by (simp add: same_graph_def)
  have keep: "kept J (io \<noteq> EncodeFails) G1 G1" "kept J (io \<noteq> EncodeFails) G1 (note_conflict G1 b ops)" for b ops
    using idle_kept [OF T(1)] kept_same [OF idle_kept [OF T(1)] counters_same]
    by (simp_all add: note_conflict_def count_conflict_def)
  have "snd (tx_prepare J now io G t gid) \<in> {G1, note_conflict G1 (ts_base slot) (ts_ops slot), G2}"
    using slot live_rec
    by (auto simp: tx_prepare_def G2_def from_ops_def Let_def case_prod_beta split: sum.split)
  with fin keep have "kept J (io \<noteq> EncodeFails) G1 (snd (tx_prepare J now io G t gid))"
    by auto
  then show ?thesis
    by (rule kept_from [OF _ T(3,4)])
qed

lemma commit_prepared_move:
  assumes inv: "engine_inv J G tr" and room: "replay_room (live G) [CommitPrepared gid]"
    and entry: "fmlookup (prepared (live G)) gid = Some entry"
  defines "g \<equiv> apply_wal_op J (live G) (CommitPrepared gid)"
  shows "moves J (live G) g (pe_ops entry)" and "flat_prepared (prepared g)" and "twopc_ok g"
    and "durable_of g = foldl spec_op (durable_of (live G)) [CommitPrepared gid]"
    and "prepared g = fmdrop gid (prepared (live G))" and "constraints g = constraints (live G)"
proof -
  note I = engine_invD [OF inv]
  let ?g0 = "(live G)\<lparr>prepared := fmdrop gid (prepared (live G))\<rparr>"
  have g: "g = apply_wal_ops J ?g0 (pe_ops entry)"
    by (simp add: g_def apply_wal_op_def entry)
  have plain: "list_all is_plain (pe_ops entry)"
    using I(2) entry by (auto simp: flat_prepared_def)
  have flat0: "flat_prepared (prepared ?g0)"
    using I(2) by (auto simp: flat_prepared_def split: if_splits)
  have "replay_room ?g0 (pe_ops entry)"
    using room prepared_weight_drop [OF entry] by (simp add: replay_room_def)
  then have W: "writes J ?g0 g (pe_ops entry)"
    unfolding g using I(1) by (intro replay_writes [OF _ plain _ flat0]) simp_all
  then show "moves J (live G) g (pe_ops entry)" "flat_prepared (prepared g)"
      "prepared g = fmdrop gid (prepared (live G))" "constraints g = constraints (live G)"
    using flat0 by (simp_all add: writes_def moves_def)
  show "twopc_ok g"
    unfolding g_def apply_wal_op_def by (rule twopc_ok_replay [OF I(3)])
  show "durable_of g = foldl spec_op (durable_of (live G)) [CommitPrepared gid]"
    unfolding g_def apply_wal_op_def by (rule replay_refines [OF I(1) room I(2)]) simp
qed

lemma commit_prepared_kept:
  assumes inv: "engine_inv J G tr" and seq: "uint (commit_seq (live G)) + 2 < 2 ^ 64" and room: "replay_room (live G) [CommitPrepared gid]"
  shows "kept J (io \<noteq> EncodeFails) G (snd (commit_prepared J io G gid))"
proof (cases "ng_read_only G \<or> fmlookup (prepared (live G)) gid = None")
  case True
  with idle_kept [OF inv] show ?thesis
    by (auto simp: commit_prepared_def)
next
  case False
  then obtain entry where entry: "fmlookup (prepared (live G)) gid = Some entry"
    by auto
  note M = commit_prepared_move [OF inv room entry]
  have same: "live (snd (record_split G io [CommitPrepared gid] (pe_ops entry))) = live G"
    using record_same(1) [of G io "[CommitPrepared gid]" "pe_ops entry"] by (simp add: same_graph_def)
  show ?thesis
    by (rule resolve_kept [OF inv seq M(1,2,3,4)])
      (use False same in \<open>auto simp: commit_prepared_def entry case_prod_beta Let_def split: sum.split\<close>)
qed

lemma rollback_prepared_kept:
  assumes inv: "engine_inv J G tr" and seq: "uint (commit_seq (live G)) + 2 < 2 ^ 64"
  shows "kept J (io \<noteq> EncodeFails) G (snd (rollback_prepared_as J io G gid h))"
proof (cases "ng_read_only G \<or> gid |\<notin>| fmdom (prepared (live G))")
  case True
  with idle_kept [OF inv] show ?thesis
    by (auto simp: rollback_prepared_as_def)
next
  case False
  note I = engine_invD [OF inv]
  let ?g = "apply_wal_op J (live G) (RollbackPrepared gid h)" and ?wops = "[RollbackPrepared gid h :: 'a wal_op]"
  have same: "live (snd (record_split G io ?wops [])) = live G"
    using record_same(1) [of G io ?wops "[]"] by (simp add: same_graph_def)
  show ?thesis
  proof (rule resolve_kept [OF inv seq])
    show "moves J (live G) ?g []"
      using I(1) by (simp add: moves_def apply_wal_op_def Let_def)
    show "flat_prepared (prepared ?g)"
      using I(2) by (auto simp: flat_prepared_def apply_wal_op_def Let_def split: if_splits)
    show "twopc_ok ?g"
      unfolding apply_wal_op_def by (rule twopc_ok_replay [OF I(3)])
    show "durable_of ?g = foldl spec_op (durable_of (live G)) ?wops"
      by (simp add: spec_op_def durable_of_def apply_wal_op_def Let_def)
    show "snd (rollback_prepared_as J io G gid h) = (case record_split G io ?wops [] of
        (Inl e, G1) \<Rightarrow> G1 | (Inr _, G1) \<Rightarrow> (case note_commit G1 ?g (from_ops []) of (g', G2) \<Rightarrow> put_live G2 g'))"
      using False same by (auto simp: rollback_prepared_as_def from_ops_def case_prod_beta Let_def split: sum.split)
  qed simp
qed

section \<open>Constraints and settings\<close>

lemma sync_unique_move:
  assumes "graph_inv J g"
  shows "moves J g (sync_unique J (g\<lparr>constraints := cs\<rparr>)) []"
    and "prepared (sync_unique J (g\<lparr>constraints := cs\<rparr>)) = prepared g" and "heuristic (sync_unique J (g\<lparr>constraints := cs\<rparr>)) = heuristic g"
    and "constraints (sync_unique J (g\<lparr>constraints := cs\<rparr>)) = cs" and "durable_of (sync_unique J (g\<lparr>constraints := cs\<rparr>)) = durable_of g"
proof -
  let ?g = "g\<lparr>constraints := cs\<rparr>"
  have inv: "nodes_inv J ?g" "edges_inv ?g"
    using assms graph_inv_constraints [of J cs g] by (simp_all add: graph_inv_def)
  obtain u where u: "sync_unique J ?g = ?g\<lparr>unique := u\<rparr>"
    using sync_unique_ok(3) [OF inv(1)] by blast
  have "unique_ok J u (fmlookup (nodes g))"
    using sync_unique_ok(1) [OF inv(1)] by (simp add: u)
  then have "graph_inv J (?g\<lparr>unique := u\<rparr>)"
    using inv by (simp add: graph_inv_def nodes_inv_def edges_inv_def)
  then show "moves J g (sync_unique J ?g) []" "prepared (sync_unique J ?g) = prepared g" "heuristic (sync_unique J ?g) = heuristic g"
      "constraints (sync_unique J ?g) = cs" "durable_of (sync_unique J ?g) = durable_of g"
    by (simp_all add: u moves_def durable_of_def)
qed

lemma touch_kept:
  assumes inv: "engine_inv J G tr" and M: "moves J (live G) g []" "prepared g = prepared (live G)" "heuristic g = heuristic (live G)"
  shows "kept J ok G (put_live G g)"
proof -
  have "durable_of g = durable_of (live G)"
    using M by (auto simp: moves_def data_of_eq durable_of_def)
  moreover have "engine_inv J (put_live G g) tr"
    using engine_invD(2,3) [OF inv] M by (intro engine_touch [OF inv]) (simp_all add: twopc_ok_def)
  ultimately show ?thesis
    by (auto simp: kept_def intro: logged_quiet)
qed

lemma schema_kept:
  assumes inv: "engine_inv J G tr" and seq: "uint (commit_seq (live G)) + 2 < 2 ^ 64"
    and M: "moves J (live G) g []" "prepared g = prepared (live G)" "heuristic g = heuristic (live G)"
    and n: "note_commit G g everything = (g', G1)"
  shows "kept J ok G (put_live G1 g')"
proof -
  have "durable_of g = durable_of (live G)"
    using M by (auto simp: moves_def data_of_eq durable_of_def)
  then have "logged ok G (put_live G1 g')"
    using note_commit_same [OF n] same_log_trans by (intro logged_quiet) (auto simp: same_log_def)
  moreover have "engine_inv J (put_live G1 g') (tr @ [(everything, [])])"
    using engine_invD(2,3) [OF inv] M seq by (intro engine_commit [OF inv _ _ _ _ _ n]) (simp_all add: twopc_ok_def)
  ultimately show ?thesis
    by (auto simp: kept_def)
qed

lemma add_constraint_kept:
  assumes inv: "engine_inv J G tr" and seq: "uint (commit_seq (live G)) + 2 < 2 ^ 64"
  shows "kept J ok G (snd (add_constraint J G c))"
proof -
  note g = engine_invD(1) [OF inv]
  have idle: "kept J ok G (put_live G (live G))"
    by (rule touch_kept [OF inv]) (use g in \<open>simp_all add: moves_def\<close>)
  let ?g = "sync_unique J ((live G)\<lparr>constraints := constraints (live G) @ [c]\<rparr>)"
  obtain g' G1 where n: "note_commit G ?g everything = (g', G1)"
    by fastforce
  have "kept J ok G (put_live G1 g')"
    by (rule schema_kept [OF inv seq _ _ _ n]) (use sync_unique_move [OF g] in simp_all)
  with idle n show ?thesis
    by (simp add: add_constraint_def Let_def split: sum.split)
qed

lemma remove_constraint_kept:
  assumes inv: "engine_inv J G tr" and seq: "uint (commit_seq (live G)) + 2 < 2 ^ 64"
  shows "kept J ok G (snd (remove_constraint J G c))"
proof -
  note g = engine_invD(1) [OF inv]
  let ?g = "sync_unique J ((live G)\<lparr>constraints := filter (\<lambda>d. d \<noteq> c) (constraints (live G))\<rparr>)"
  obtain g' G1 where n: "note_commit G ?g everything = (g', G1)"
    by fastforce
  have "kept J ok G (put_live G1 g')" "kept J ok G (put_live G ?g)"
    using schema_kept [OF inv seq _ _ _ n] touch_kept [OF inv, of ?g] sync_unique_move [OF g] by simp_all
  with n show ?thesis
    by (simp add: remove_constraint_def Let_def)
qed

lemma word_diff_le:
  fixes a t l :: u64
  assumes "a < t" and "t \<le> a + l"
  shows "t - a \<le> l" and "unat t = unat a + unat (t - a)"
  using assms by (auto simp: word_le_nat_alt word_less_nat_alt unat_sub unat_plus_if' split: if_splits)

lemma unat_of_nat_le: "unat (of_nat n :: u64) \<le> n"
  by (simp add: unat_of_nat)

lemma trim_kept:
  assumes inv: "engine_inv J G tr"
  shows "kept J ok G (snd (trim_before G cursor))"
proof -
  let ?G = "snd (trim_before G cursor)" and ?f = "ng_feed G"
  have "same_graph G ?G" and same: "ng_durable ?G = ng_durable G" "ng_broken ?G = ng_broken G" "ng_wal ?G = ng_wal G" "live ?G = live G"
    by (simp_all add: trim_before_def same_graph_def Let_def)
  moreover have "feed_ext ?f (ng_feed ?G) []"
  proof (cases "min cursor (start_seq ?f + of_nat (length (feed_ops ?f))) \<le> start_seq ?f")
    case True
    then show ?thesis
      using feed_ext_refl by (simp add: trim_before_def Let_def)
  next
    case False
    let ?target = "min cursor (start_seq ?f + of_nat (length (feed_ops ?f)))"
    let ?k = "unat (?target - start_seq ?f)"
    have "?target - start_seq ?f \<le> of_nat (length (feed_ops ?f))"
      by (rule word_diff_le(1) [OF _ min.cobounded2]) (use False in \<open>simp only: not_le\<close>)
    then have "?k \<le> unat (of_nat (length (feed_ops ?f)) :: u64)"
      by (simp add: word_le_nat_alt)
    then have "?k \<le> length (feed_ops ?f)"
      using unat_of_nat_le order_trans by blast
    moreover have "unat ?target = unat (start_seq ?f) + ?k"
      by (rule word_diff_le(2) [OF _ min.cobounded2]) (use False in \<open>simp only: not_le\<close>)
    ultimately show ?thesis
      using False unfolding feed_ext_def by (intro exI [of _ ?k]) (simp add: trim_before_def Let_def)
  qed
  ultimately have "logged ok G ?G" "engine_inv J ?G tr"
    using same_graph_inv [OF inv] unfolding logged_def by (auto intro!: exI [of _ "[]"])
  then show ?thesis
    by (auto simp: kept_def)
qed

section \<open>Every call keeps the invariant\<close>

fun cmd_encodes :: "'j engine_cmd \<Rightarrow> bool" where
  "cmd_encodes (Direct now io op) = (io \<noteq> EncodeFails)"
| "cmd_encodes (SetEmb io i v) = (io \<noteq> EncodeFails)"
| "cmd_encodes (DelEmb io i) = (io \<noteq> EncodeFails)"
| "cmd_encodes (SetEmbs io es) = (io \<noteq> EncodeFails)"
| "cmd_encodes (Replicate io ops) = (io \<noteq> EncodeFails)"
| "cmd_encodes (CreateNodes nows io xs) = (io \<noteq> EncodeFails)"
| "cmd_encodes (CreateEdges nows io xs) = (io \<noteq> EncodeFails)"
| "cmd_encodes (DeleteNodes nows io is) = (io \<noteq> EncodeFails)"
| "cmd_encodes (Commit io t) = (io \<noteq> EncodeFails)"
| "cmd_encodes (PrepareTx now io t gid) = (io \<noteq> EncodeFails)"
| "cmd_encodes (CommitPrep io gid) = (io \<noteq> EncodeFails)"
| "cmd_encodes (RollbackPrep io gid h) = (io \<noteq> EncodeFails)"
| "cmd_encodes _ = True"

lemma settings_same:
  "same_graph G (snd (set_read_only G on))" "same_log G (snd (set_read_only G on))"
  "same_graph G (set_max_tx_writes G n)" "same_log G (set_max_tx_writes G n)"
  "same_graph G (set_isolation G i)" "same_log G (set_isolation G i)"
  by (simp_all add: set_read_only_def set_max_tx_writes_def set_isolation_def same_graph_def same_log_def)

lemma history_kept:
  assumes "engine_inv J G tr"
  shows "kept J ok G (set_conflict_history G n)"
proof -
  obtain d where "ch_recent (ng_history G) = drop d (numbered (map fst tr))"
    using engine_invD(7) [OF assms] by blast
  then have "\<exists>d. ch_recent (ch_set_capacity (ng_history G) n) = drop d (numbered (map fst tr))"
    by (auto simp: ch_set_capacity_def ch_trim_def pop_excess_drop)
  then have "engine_inv J (set_conflict_history G n) tr"
    using assms by (simp add: engine_inv_def set_conflict_history_def)
  then show ?thesis
    by (auto simp: kept_def set_conflict_history_def same_log_def intro!: logged_quiet)
qed

lemma create_nodes_kept:
  assumes inv: "engine_inv J G tr" and fits: "fits G (CreateNodes nows io xs)"
  shows "kept J (io \<noteq> EncodeFails) G (snd (create_nodes J nows io G xs))"
  unfolding create_nodes_def
proof (rule create_batch_kept [OF inv])
  show "\<exists>op. snd ((\<lambda>(env, nn) g. create_node_checked J env g nn True) x g) = live_step J g op \<and>
      live_log J g op = (case fst ((\<lambda>(env, nn) g. create_node_checked J env g nn True) x g) of Inl _ \<Rightarrow> [] | Inr r \<Rightarrow> [UpsertNode r]) \<and>
      live_time op + int (length xs) \<le> i64_max" if "x \<in> set xs" for x and g :: "'a inner"
    using that fits
    by (intro exI [of _ "LiveCreateNode (fst x) (snd x) True"]) (auto simp: fits_def list_all_iff case_prod_beta)
qed (use fits in \<open>simp_all add: fits_def\<close>)

lemma create_edges_kept:
  assumes inv: "engine_inv J G tr" and fits: "fits G (CreateEdges nows io xs)"
  shows "kept J (io \<noteq> EncodeFails) G (snd (create_edges nows io G xs))"
  unfolding create_edges_def
proof (rule create_batch_kept [OF inv])
  have "int (length xs) < 2 ^ 32"
    using fits by (simp add: fits_def room_def)
  then show "\<exists>op. snd ((\<lambda>(env, ne) g. create_edge env g ne) x g) = live_step J g op \<and>
      live_log J g op = (case fst ((\<lambda>(env, ne) g. create_edge env g ne) x g) of Inl _ \<Rightarrow> [] | Inr r \<Rightarrow> [UpsertEdge r]) \<and>
      live_time op + int (length xs) \<le> i64_max" for x and g :: "'a inner"
    by (intro exI [of _ "LiveCreateEdge (fst x) (snd x)"]) (simp add: case_prod_beta)
qed (use fits in \<open>simp_all add: fits_def\<close>)

lemma engine_step_kept:
  assumes inv: "engine_inv J G tr" and fits: "fits G cmd"
  shows "kept J (cmd_encodes cmd) G (engine_step J G cmd)"
proof -
  note seq = fits [unfolded fits_def, THEN conjunct1] and idle = idle_kept [OF inv]
  show ?thesis
  proof (cases cmd)
    case (TxWrite t op)
    with fits tx_write_kept [OF inv, of t op] show ?thesis
      by (simp only: fits_def engine_step.simps)
  next
    case (Commit io t)
    with fits commit_kept [OF inv] show ?thesis
      by (simp only: cmd_encodes.simps engine_step.simps)
  next
    case (CreateNodes nows io xs)
    with fits create_nodes_kept [OF inv] show ?thesis
      by (simp only: cmd_encodes.simps engine_step.simps)
  next
    case (CreateEdges nows io xs)
    with fits create_edges_kept [OF inv] show ?thesis
      by (simp only: cmd_encodes.simps engine_step.simps)
  qed (use fits in \<open>simp_all add: fits_def direct_write_kept [OF inv _ seq] embedding_kept [OF inv seq] replicate_kept [OF inv seq]
        delete_nodes_kept [OF inv seq] begin_kept [OF inv] rollback_kept [OF inv] prepare_kept [OF inv seq]
        commit_prepared_kept [OF inv seq] rollback_prepared_kept [OF inv seq] add_constraint_kept [OF inv seq]
        remove_constraint_kept [OF inv seq] trim_kept [OF inv] history_kept [OF inv] kept_same [OF idle settings_same(1,2)]
        kept_same [OF idle settings_same(3,4)] kept_same [OF idle settings_same(5,6)]\<close>)
qed

lemma fresh_inv: "engine_inv J (native_graph_new origin durable) []"
proof -
  have "live (native_graph_new origin durable) = (inner_default :: 'a inner)"
    by (simp add: live_def borrow_def native_graph_new_def inner_default_def)
  then show ?thesis
    using graph_inv_default [of J]
    by (simp add: engine_inv_def native_graph_new_def flat_prepared_def twopc_ok_def trace_ok_def with_capacity_def numbered_def
        inner_default_def)
qed

lemma engine_reachable_inv: "reachable J G \<Longrightarrow> \<exists>tr. engine_inv J G tr"
  by (induction rule: reachable.induct) (auto intro: fresh_inv dest: engine_step_kept simp: kept_def)

end
