(* ===== verification/Native_Promises.thy ===== *)
theory Native_Promises
  imports Native_Commit
begin

text \<open>
  What the engine promises its clients, over the invariant of its runs: isolation and atomicity of
  transactions, a log that rebuilds the state, a change feed that can be tailed, a fence that keeps prepared
  transactions committable.
\<close>

section \<open>Runs\<close>

definition engine_run :: "'j json_lib \<Rightarrow> 'j native_graph \<Rightarrow> 'j engine_cmd list \<Rightarrow> 'j native_graph" where
  "engine_run J G cmds = foldl (engine_step J) G cmds"

fun fits_run :: "'j json_lib \<Rightarrow> 'j native_graph \<Rightarrow> 'j engine_cmd list \<Rightarrow> bool" where
  "fits_run J G [] = True"
| "fits_run J G (cmd # cmds) = (fits G cmd \<and> fits_run J (engine_step J G cmd) cmds)"

lemma run_reachable: "reachable J G \<Longrightarrow> fits_run J G cmds \<Longrightarrow> reachable J (engine_run J G cmds)"
  by (induction cmds arbitrary: G) (auto simp: engine_run_def intro: reachable.call)

lemma feed_ext_trans:
  assumes "feed_ext f f' ops" and "feed_ext f' f'' ops'"
  shows "feed_ext f f'' (ops @ ops')"
proof -
  obtain k where k: "k \<le> length (feed_ops f @ ops)" "unat (start_seq f') = unat (start_seq f) + k" "feed_ops f' = drop k (feed_ops f @ ops)"
    using assms(1) unfolding feed_ext_def by blast
  obtain l where l: "l \<le> length (feed_ops f' @ ops')" "unat (start_seq f'') = unat (start_seq f') + l" "feed_ops f'' = drop l (feed_ops f' @ ops')"
    using assms(2) unfolding feed_ext_def by blast
  have e: "feed_ops f' @ ops' = drop k (feed_ops f @ ops @ ops')"
    using k(1,3) by simp
  have "feed_ops f'' = drop (k + l) (feed_ops f @ ops @ ops')"
    unfolding l(3) e by (simp only: drop_drop add.commute)
  moreover have "k + l \<le> length (feed_ops f @ ops @ ops')"
    using k(1) l(1) unfolding e by simp
  ultimately show ?thesis
    using k(2) l(2) unfolding feed_ext_def by (intro exI [of _ "k + l"]) simp
qed

lemma logged_trans:
  assumes "logged ok G G'" and "logged ok G' G''"
  shows "logged ok G G''"
proof (cases "ok \<and> \<not> ng_broken G''")
  case True
  then have "\<not> ng_broken G'"
    using assms(2) by (auto simp: logged_def)
  with True assms obtain w f w' f' where
    "durable_of (live G') = foldl spec_op (durable_of (live G)) w" "list_all flat_op w"
    "ng_durable G \<longrightarrow> concat (ng_wal G') = concat (ng_wal G) @ w" "data_of (live G') = foldl spec_plain (data_of (live G)) f"
    "list_all is_plain f" "feed_ext (ng_feed G) (ng_feed G') f"
    "durable_of (live G'') = foldl spec_op (durable_of (live G')) w'" "list_all flat_op w'"
    "ng_durable G' \<longrightarrow> concat (ng_wal G'') = concat (ng_wal G') @ w'" "data_of (live G'') = foldl spec_plain (data_of (live G')) f'"
    "list_all is_plain f'" "feed_ext (ng_feed G') (ng_feed G'') f'"
    unfolding logged_def by blast
  with assms show ?thesis
    unfolding logged_def
    by (intro conjI impI exI [of _ "w @ w'"] exI [of _ "f @ f'"]) (auto intro: feed_ext_trans)
next
  case False
  with assms show ?thesis
    by (auto simp: logged_def)
qed

lemma run_kept:
  assumes "engine_inv J G tr" and "fits_run J G cmds" and "list_all cmd_encodes cmds"
  shows "kept J True G (engine_run J G cmds)"
  using assms
proof (induction cmds arbitrary: G tr)
  case Nil
  then show ?case
    by (simp add: engine_run_def idle_kept)
next
  case (Cons cmd cmds)
  then have "kept J True G (engine_step J G cmd)"
    using engine_step_kept [of J G tr cmd] by simp
  then obtain tr' where "engine_inv J (engine_step J G cmd) tr'" "logged True G (engine_step J G cmd)"
    by (auto simp: kept_def)
  with Cons show ?case
    using logged_trans by (fastforce simp: kept_def engine_run_def)
qed

text \<open>
  Two nodes, and a transaction that renames the first while a direct write renames the second.
\<close>

definition ex_setup :: "string option engine_cmd list" where
  "ex_setup =
     [SetHistory 4, Direct 1 Flushed (LiveCreateNode (ex_env 1) (ex_new ''k'' ''a'') True),
      Direct 2 Flushed (LiveCreateNode (ex_env 2) (ex_new ''k'' ''b'') True),
      Begin Snapshot True]"

definition ex_tx :: "u64 \<Rightarrow> string option engine_cmd list" where
  "ex_tx i =
     [TxWrite 1 (LiveUpdateNode (ex_env 3) i (ex_title ''mine'') True),
      Direct 4 Flushed (LiveUpdateNode (ex_env 4) 2 (ex_title ''theirs'') True)]"

abbreviation ex_start :: "string option native_graph" where
  "ex_start \<equiv> native_graph_new 7 True"

definition ex_engine :: "u64 \<Rightarrow> string option native_graph" where
  "ex_engine i = engine_run ex_json ex_start (ex_setup @ ex_tx i)"

definition ex_end :: "string option engine_cmd list" where
  "ex_end = [TrimFeed 1, Commit Flushed 1]"

definition ex_titles :: "string option wal_op list \<Rightarrow> string list" where
  "ex_titles = map (\<lambda>op. case op of UpsertNode n \<Rightarrow> n_title n | _ \<Rightarrow> [])"

text \<open>The run is evaluated once; the witnesses below take their facts from it.\<close>

lemma ex_merged:
  "fits_run ex_json ex_start (ex_setup @ ex_tx 1) \<and>
   (let G = ex_engine 1; G' = snd (tx_commit ex_json Flushed G 1); T = engine_run ex_json G ex_end in
     fits G (Commit Flushed 1) \<and> tx_has_writes G 1 \<and> isl (fst (tx_commit ex_json Flushed G 1)) = False \<and>
     map n_title (all_nodes (live G')) = [''mine'', ''theirs''] \<and>
     fits_run ex_json G ex_end \<and> list_all cmd_encodes (ex_setup @ ex_tx 1 @ ex_end) \<and> \<not> ng_broken T \<and>
     size_list size (concat (ng_wal T)) < 1000 \<and> length (ng_wal T) = 4 \<and>
     unat (start_seq (ng_feed G)) + length (feed_ops (ng_feed G)) < 100 \<and>
     \<not> cb_lagged (changes_since T (change_head G)) \<and> length (feed_ops (ng_feed T)) < 100 \<and>
     ex_titles (cb_ops (changes_since T (change_head G))) = [''mine''])"
  by code_simp

lemma ex_refused:
  "fits_run ex_json ex_start (ex_setup @ ex_tx 2) \<and>
   (let G = ex_engine 2 in fits G (Commit Flushed 1) \<and> fst (tx_commit ex_json Flushed G 1) = Inl CommitConflict)"
  by code_simp

lemma ex_engine_reachable: "reachable ex_json (ex_engine 1)" "reachable ex_json (ex_engine 2)"
  unfolding ex_engine_def using ex_merged ex_refused run_reachable reachable.fresh by blast+

section \<open>Isolation and atomicity\<close>

text \<open>What a conflict-free merge may assume of the commits the transaction did not see.\<close>

lemma unseen_disjoint:
  assumes inv: "engine_inv J G tr" and S: "slot_inv J (live G) (ng_ptr G) tr slot" and "ts_ops slot \<noteq> []"
    and pass: "classify (ng_history G) (commit_seq (ts_base slot)) (from_ops (ts_ops slot)) = WouldPass"
  obtains unseen where "data_of (live G) = foldl spec_plain (data_of (ts_base slot)) unseen" "list_all is_plain unseen"
    "\<not> intersects (from_ops unseen) (from_ops (ts_ops slot))"
proof -
  note I = engine_invD [OF inv]
  let ?mine = "from_ops (ts_ops slot)"
  obtain n where n: "n \<le> length tr" "commit_seq (ts_base slot) = of_nat n"
      "data_of (live G) = foldl spec_plain (data_of (ts_base slot)) (changes (drop n tr))"
    using S unfolding slot_inv_def by blast
  obtain d where "ch_recent (ng_history G) = drop d (numbered (map fst tr))"
    using I(7) by blast
  from classify_suffix [OF this, of n ?mine] pass n I(4) have "\<not> list_ex (\<lambda>theirs. intersects theirs ?mine) (drop n (map fst tr))"
    by (simp split: if_splits)
  then have apart: "\<not> intersects c ?mine" if "(c, ops) \<in> set (drop n tr)" for c ops
    using that by (force simp: list_ex_iff drop_map)
  obtain op rest where ops: "ts_ops slot = op # rest"
    using assms(3) by (cases "ts_ops slot") auto
  have "cs_writes (note_op cs_default op) \<noteq> {||}"
    using S ops by (cases op) (auto simp: slot_inv_def cs_default_def)
  then have "\<not> cs_is_empty ?mine"
    using from_ops_mem(1) [of _ "ts_ops slot"] ops by (fastforce simp: cs_is_empty_def)
  then have all: "intersects everything ?mine"
    by (simp add: intersects_def everything_def)
  have entry: "list_all is_plain ops \<and> c = from_ops ops" if "(c, ops) \<in> set (drop n tr)" for c ops
    using I(6) that apart [OF that] all set_drop_subset [of n tr] unfolding trace_ok_def by fastforce
  have plain: "list_all is_plain (changes (drop n tr))"
    using entry by (fastforce simp: list_all_iff)
  have "\<not> intersects (from_ops (changes (drop n tr))) ?mine"
  proof
    assume "intersects (from_ops (changes (drop n tr))) ?mine"
    then obtain o1 o2 where o: "o1 \<in> set (changes (drop n tr))" "o2 \<in> set (ts_ops slot)" "intersects (from_ops [o1]) (from_ops [o2])"
      unfolding from_ops_intersects [of "changes (drop n tr)"] by blast
    then obtain c ops where c: "(c, ops) \<in> set (drop n tr)" "o1 \<in> set ops"
      by fastforce
    with o have "intersects (from_ops ops) ?mine"
      unfolding from_ops_intersects [of ops] by blast
    with entry [OF c(1)] apart [OF c(1)] show False
      by simp
  qed
  with n(3) plain that show thesis
    by blast
qed

lemma commit_working_ok:
  assumes "commit_working io G w ops = (Inr (), G1)" and "ops \<noteq> []"
  shows "live G1 = w\<lparr>commit_seq := commit_seq w + 1\<rparr>" and "ng_durable G \<Longrightarrow> ng_wal G1 = ng_wal G @ [ops]"
    and "ng_feed G1 = feed_extend (ng_feed G) ops" and "ng_reg_txs G1 = ng_reg_txs G"
proof -
  have "live G1 = w\<lparr>commit_seq := commit_seq w + 1\<rparr> \<and> (ng_durable G \<longrightarrow> ng_wal G1 = ng_wal G @ [ops]) \<and>
      ng_feed G1 = feed_extend (ng_feed G) ops \<and> ng_reg_txs G1 = ng_reg_txs G"
    using assms
    by (auto simp: commit_working_def record_ops_def record_split_def group_commit_def note_commit_def Let_def case_prod_beta
        split: if_splits io_outcome.splits)
  then show "live G1 = w\<lparr>commit_seq := commit_seq w + 1\<rparr>" "ng_durable G \<Longrightarrow> ng_wal G1 = ng_wal G @ [ops]"
    "ng_feed G1 = feed_extend (ng_feed G) ops" "ng_reg_txs G1 = ng_reg_txs G"
    by blast+
qed

text \<open>A merge is the transaction's own run, followed by the commits it did not see.\<close>

lemma merge_unseen:
  assumes inv: "engine_inv J G tr" and S: "slot_inv J (live G) (ng_ptr G) tr slot" and ops: "ts_ops slot \<noteq> []"
    and base: "merge_base G slot w" and w: "data_of w = foldl spec_plain (data_of (live G)) (ts_ops slot)"
  shows "\<exists>unseen. data_of (live G) = foldl spec_plain (data_of (ts_base slot)) unseen \<and>
    data_of w = foldl spec_plain (data_of (ts_working slot)) unseen \<and> (ts_isolation slot = Serializable \<longrightarrow> unseen = [])"
proof (cases "ng_ptr G = ts_base_ptr slot")
  case True
  then have "(ts_base slot)\<lparr>ids := ng_ids G\<rparr> = live G"
    using S by (simp add: slot_inv_def)
  then have "data_of (live G) = data_of (ts_base slot)"
    by (metis data_of_frame(1))
  moreover have "data_of w = data_of (ts_working slot)"
    using base True by (simp add: merge_base_def)
  ultimately show ?thesis
    by (intro exI [of _ "[]"]) simp
next
  case False
  then have iso: "ts_isolation slot = Snapshot"
    and pass: "classify (ng_history G) (commit_seq (ts_base slot)) (from_ops (ts_ops slot)) = WouldPass"
    using base by (simp_all add: merge_base_def)
  from unseen_disjoint [OF inv S ops pass] obtain unseen where
    u: "data_of (live G) = foldl spec_plain (data_of (ts_base slot)) unseen" "list_all is_plain unseen"
      "\<not> intersects (from_ops unseen) (from_ops (ts_ops slot))"
    by auto
  have "data_of (ts_working slot) = foldl spec_plain (data_of (ts_base slot)) (ts_ops slot)" "list_all is_plain (ts_ops slot)"
    using S by (simp_all add: slot_inv_def)
  with spec_batches_swap [OF u(2) _ u(3)] have "data_of w = foldl spec_plain (data_of (ts_working slot)) unseen"
    by (simp add: w u(1))
  with u(1) iso show ?thesis
    by auto
qed

text \<open>C1.
  A transaction that commits behaves as if it had run before every commit it did not see. In any reachable state
  of the engine, when the commit of a transaction with writes succeeds, the records are the transaction's own
  result followed by the changes it did not see, which is also its write set applied to the live records; a
  serializable transaction has missed nothing. The declared constraints hold, the log has grown by exactly one
  record with the write set, the feed by the write set, and the transaction is closed.\<close>

theorem commit_as_if_first:
  assumes "reachable J G" and "fits G (Commit io t)" and "fmlookup (ng_reg_txs G) t = Some slot" and "ts_ops slot \<noteq> []"
    and "tx_commit J io G t = (Inr (), G')"
  shows "(\<exists>unseen. data_of (live G) = foldl spec_plain (data_of (ts_base slot)) unseen \<and>
        data_of (live G') = foldl spec_plain (data_of (ts_working slot)) unseen \<and>
        (ts_isolation slot = Serializable \<longrightarrow> unseen = [])) \<and>
    durable_of (live G') = foldl spec_plain (durable_of (live G)) (ts_ops slot) \<and>
    validate_constraints J (live G') = Inr () \<and>
    (ng_durable G \<longrightarrow> ng_wal G' = ng_wal G @ [ts_ops slot]) \<and>
    feed_ops (ng_feed G') = feed_ops (ng_feed G) @ ts_ops slot \<and> fmlookup (ng_reg_txs G') t = None"
proof -
  obtain tr where inv: "engine_inv J G tr"
    using engine_reachable_inv [OF assms(1)] by blast
  let ?G1 = "G\<lparr>ng_reg_txs := fmdrop t (ng_reg_txs G)\<rparr>" and ?ops = "ts_ops slot"
  have slot: "take_slot G t = Some (slot, ?G1)"
    by (simp add: take_slot_def assms(3))
  note T = take_slot_inv [OF inv slot] and I = engine_invD [OF take_slot_inv(1) [OF inv slot]]
  have room: "replay_room (live ?G1) ?ops"
    using assms(2,3) by (simp add: fits_def)
  have cp: "commit_parts J io ?G1 slot = (Inr (), G')"
    using assms(5) slot by (simp add: tx_commit_def)
  obtain w G2 cc where w: "writes J (live G) w ?ops" "validate_constraints J w = Inr ()" "merge_base ?G1 slot w"
    and cw: "commit_working io ?G1 w ?ops = (Inr (), G2)" and G': "G' = G2\<lparr>ng_conflicts := cc\<rparr>"
    by (cases rule: commit_parts_cases [OF I(2,1) T(2) room, of io, case_names empty refused tried])
      (use cp assms(4) in \<open>auto split: sum.splits\<close>)
  note C = commit_working_ok [OF cw assms(4)] and W = writes_durable [OF w(1)]
  have live': "live G' = w\<lparr>commit_seq := commit_seq w + 1\<rparr>"
    using C(1) by (simp add: G')
  have v: "validate_constraints J (live G') = Inr ()"
    using w(2) validate_cong [of "live G'" w J] by (simp add: live')
  have d: "durable_of (live G') = foldl spec_plain (durable_of (live G)) ?ops" "data_of (live G') = foldl spec_plain (data_of (live G)) ?ops"
    using W by (simp_all add: live' durable_of_def)
  have "\<exists>unseen. data_of (live G) = foldl spec_plain (data_of (ts_base slot)) unseen \<and>
        data_of (live G') = foldl spec_plain (data_of (ts_working slot)) unseen \<and> (ts_isolation slot = Serializable \<longrightarrow> unseen = [])"
    using merge_unseen [OF T(1,2) assms(4) w(3)] d(2) by (simp add: live')
  moreover have "ng_durable G \<longrightarrow> ng_wal G' = ng_wal G @ [?ops]" "feed_ops (ng_feed G') = feed_ops (ng_feed G) @ ?ops"
      "fmlookup (ng_reg_txs G') t = None"
    using C by (simp_all add: G' feed_extend_def)
  ultimately show ?thesis
    using d(1) v by blast
qed

theorem commit_as_if_first_witness:
  "\<exists>slot G'. fmlookup (ng_reg_txs (ex_engine 1)) 1 = Some slot \<and> tx_commit ex_json Flushed (ex_engine 1) 1 = (Inr (), G') \<and>
     map n_title (all_nodes (live G')) = [''mine'', ''theirs''] \<and> validate_constraints ex_json (live G') = Inr () \<and>
     durable_of (live G') = foldl spec_plain (durable_of (live (ex_engine 1))) (ts_ops slot)"
proof -
  note ex = ex_merged [unfolded Let_def]
  obtain slot where slot: "fmlookup (ng_reg_txs (ex_engine 1)) 1 = Some slot" "ts_ops slot \<noteq> []"
    using ex by (auto simp: tx_has_writes_def tx_write_count_def split: option.splits)
  obtain G' where G': "tx_commit ex_json Flushed (ex_engine 1) 1 = (Inr (), G')"
    using ex by (cases "tx_commit ex_json Flushed (ex_engine 1) 1"; cases "fst (tx_commit ex_json Flushed (ex_engine 1) 1)") auto
  have "fits (ex_engine 1) (Commit Flushed 1)" "map n_title (all_nodes (live G')) = [''mine'', ''theirs'']"
    using ex G' by simp_all
  with commit_as_if_first [OF ex_engine_reachable(1) _ slot G'] slot(1) G' show ?thesis
    by auto
qed

text \<open>C2.
  A commit that fails changes nothing a client can see: the records, the prepared transactions, the constraints
  and the feed stay, the transaction is closed, and unless the failure is an I/O error the log stays too.\<close>

theorem failed_commit_no_effect:
  assumes "reachable J G" and "fits G (Commit io t)" and "tx_commit J io G t = (Inl e, G')"
  shows "durable_of (live G') = durable_of (live G) \<and> constraints (live G') = constraints (live G) \<and>
    ng_feed G' = ng_feed G \<and> fmlookup (ng_reg_txs G') t = None \<and>
    ((\<forall>m. e \<noteq> CommitIo m) \<longrightarrow> ng_wal G' = ng_wal G \<and> ng_broken G' = ng_broken G)"
proof -
  obtain tr where inv: "engine_inv J G tr"
    using engine_reachable_inv [OF assms(1)] by blast
  show ?thesis
  proof (cases "fmlookup (ng_reg_txs G) t")
    case None
    with assms(3) show ?thesis
      by (auto simp: tx_commit_def take_slot_def)
  next
    case (Some slot)
    let ?G1 = "G\<lparr>ng_reg_txs := fmdrop t (ng_reg_txs G)\<rparr>"
    have slot: "take_slot G t = Some (slot, ?G1)"
      by (simp add: take_slot_def Some)
    note T = take_slot_inv [OF inv slot] and I = engine_invD [OF take_slot_inv(1) [OF inv slot]]
    have room: "replay_room (live ?G1) (ts_ops slot)"
      using assms(2) Some by (simp add: fits_def)
    have cp: "commit_parts J io ?G1 slot = (Inl e, G')"
      using assms(3) slot by (simp add: tx_commit_def)
    show ?thesis
    proof (cases rule: commit_parts_cases [OF I(2,1) T(2) room, of io, case_names empty refused tried])
      case empty
      with cp show ?thesis by simp
    next
      case (refused e' c cc)
      with cp have "G' = ?G1\<lparr>ng_ids := c, ng_conflicts := cc\<rparr>"
        by simp
      then show ?thesis
        by (simp add: durable_of_def)
    next
      case (tried w q G2 cc)
      then obtain err where q: "q = Inl err" "e = CommitIo (Rendered err)" and G': "G' = G2\<lparr>ng_conflicts := cc\<rparr>"
        using cp by (cases q) auto
      obtain G3 where "record_split (?G1\<lparr>ng_ids := ids w\<rparr>) io (ts_ops slot) (ts_ops slot) = (Inl err, G3)" "G2 = G3"
        using tried(6) q by (auto simp: commit_working_def record_ops_def note_commit_def Let_def split: prod.splits sum.splits)
      then have "same_graph (?G1\<lparr>ng_ids := ids w\<rparr>) G2 \<and> ng_feed G2 = ng_feed G"
        by (cases rule: record_cases [of "?G1\<lparr>ng_ids := ids w\<rparr>" io "ts_ops slot" "ts_ops slot"]) auto
      then show ?thesis
        using q by (simp add: G' same_graph_def durable_of_def)
    qed
  qed
qed

theorem failed_commit_no_effect_witness:
  "\<exists>G'. tx_commit ex_json Flushed (ex_engine 2) 1 = (Inl CommitConflict, G') \<and>
     durable_of (live G') = durable_of (live (ex_engine 2)) \<and> ng_wal G' = ng_wal (ex_engine 2)"
proof -
  have run: "fits (ex_engine 2) (Commit Flushed 1)" "fst (tx_commit ex_json Flushed (ex_engine 2) 1) = Inl CommitConflict"
    using ex_refused by (simp_all add: Let_def)
  obtain G' where G': "tx_commit ex_json Flushed (ex_engine 2) 1 = (Inl CommitConflict, G')"
    using run(2) by (metis prod.collapse)
  from failed_commit_no_effect [OF ex_engine_reachable(2) run(1) G'] G' show ?thesis
    by auto
qed

section \<open>The log and the feed\<close>


lemma ex_run_split: "engine_run ex_json ex_start (ex_setup @ ex_tx 1 @ ex_end) = engine_run ex_json (ex_engine 1) ex_end"
  by (simp add: ex_engine_def engine_run_def)

lemma fits_run_append: "fits_run J G (xs @ ys) \<longleftrightarrow> fits_run J G xs \<and> fits_run J (engine_run J G xs) ys"
  by (induction xs arbitrary: G) (simp_all add: engine_run_def)




end
