(* ===== verification/Native_Fence.thy ===== *)
theory Native_Fence
  imports Native_Promises
begin

text \<open>
  The fence of two-phase commit: while a transaction is prepared, every other write that could make its
  resolution fail is held back, so that it can be committed without breaking a constraint.
\<close>

section \<open>Writes while a transaction is prepared\<close>

text \<open>What the fence lets through apart from commits: calls that leave the records and constraints alone.\<close>

definition settled :: "'j native_graph \<Rightarrow> 'j native_graph \<Rightarrow> bool" where
  "settled G G' \<longleftrightarrow> prepared (live G') = prepared (live G) \<and>
     (prepared (live G) \<noteq> fmempty \<longrightarrow> data_of (live G') = data_of (live G) \<and> constraints (live G') = constraints (live G))"

lemma settled_refl: "settled G G"
  by (simp add: settled_def)

lemma settled_same: "settled G G1 \<Longrightarrow> same_graph G1 G' \<Longrightarrow> settled G G'"
  by (simp add: settled_def same_graph_def)

lemma fence_refuses: "prepared (live G) \<noteq> fmempty \<Longrightarrow> \<exists>e. write_for_commit G = Inl e"
  by (simp add: write_for_commit_def write_unless_read_only_def)

lemma write_locked_settled:
  assumes "prepared (snd (f (live G))) = prepared (live G)"
  shows "settled G (snd (write_locked G f touched))"
proof (cases "prepared (live G) = fmempty")
  case True
  then show ?thesis
    using assms
    by (auto simp: settled_def write_locked_def write_for_commit_def write_unless_read_only_def note_commit_def Let_def
        split: sum.splits prod.splits)
next
  case False
  with fence_refuses [OF this] show ?thesis
    by (auto simp: write_locked_def settled_def)
qed

lemma write_logged_settled:
  assumes "settled G (snd w)" and "\<And>r G. same_graph G (stamp r G)"
  shows "settled G (snd (write_logged io log stamp w))"
proof -
  have "same_graph (snd w) (snd (write_logged io log stamp w))"
  proof (cases w)
    case (Pair res H)
    show ?thesis
    proof (cases res)
      case (Inr r)
      have "same_graph H (snd (record_ops H io [log r]))"
        by (rule record_same(2))
      then show ?thesis
        using assms(2) [of "snd (record_ops H io [log r])" r] same_graph_trans
        by (auto simp: write_logged_def Pair Inr case_prod_beta split: sum.split)
    qed (simp add: write_logged_def Pair same_graph_def)
  qed
  with assms(1) show ?thesis
    by (rule settled_same)
qed

lemma direct_settled: "settled G (direct_write J now io G op)"
proof -
  note frame = live_step_frame [unfolded same_tables_def]
  have node: "prepared (snd (create_node_checked J env g nn b)) = prepared g" for env g nn b
    using frame [of J g "LiveCreateNode env nn b"] by simp
  have update: "prepared (snd (update_node_checked J env g i p b)) = prepared g" for env g i p b
    using frame [of J g "LiveUpdateNode env i p b"] by simp
  have delete: "prepared (snd (delete_node J g i)) = prepared g" for g i
    using frame [of J g "LiveDeleteNode i"] by simp
  have edge: "prepared (snd (create_edge env g ne)) = prepared g" for env and g :: "'a inner" and ne
    using frame [of _ g "LiveCreateEdge env ne"] by simp
  have uedge: "prepared (snd (update_edge g i p)) = prepared g" for g :: "'a inner" and i p
    using frame [of _ g "LiveUpdateEdge i p"] by simp
  have dedge: "prepared (snd (delete_edge g i)) = prepared g" for g :: "'a inner" and i
    using frame [of _ g "LiveDeleteEdge i"] by simp
  show ?thesis
    by (cases op)
      (simp_all add: ng_create_node_def ng_update_node_def ng_delete_node_def ng_create_edge_def ng_update_edge_def ng_delete_edge_def
        Let_def write_logged_settled write_locked_settled node update delete edge uedge dedge stamp_same uuid_stamp del: case_map_option)
qed

lemma embeddings_settled:
  "settled G (snd (set_embedding J io G i v))" "settled G (snd (delete_embedding J io G i))"
  "settled G (snd (set_embeddings_batch J io G es))"
proof -
  have triv: "same_graph G G" for G :: "'a native_graph"
    by (simp add: same_graph_def)
  show "settled G (snd (set_embedding J io G i v))" "settled G (snd (delete_embedding J io G i))"
    unfolding set_embedding_def delete_embedding_def
    by (intro write_logged_settled write_locked_settled triv; simp add: apply_wal_op_def)+
  have p: "prepared (apply_wal_ops J g (map (\<lambda>(i, v). SetEmbedding i v) es)) = prepared g" for g
    by (induction es arbitrary: g) auto
  let ?w = "write_locked G (\<lambda>g. case first_absent g es of Some i \<Rightarrow> (Inl (NodeNotFound i), g)
      | None \<Rightarrow> (let ops = map (\<lambda>(i, v). SetEmbedding i v) es in (Inr ops, foldl (apply_wal_op J) g ops))) from_ops"
  have "settled G (snd ?w)"
    by (rule write_locked_settled) (simp add: foldl_apply p Let_def split: option.split)
  moreover have "same_graph (snd ?w) (snd (set_embeddings_batch J io G es))" if "es \<noteq> []"
    using that record_same(2) by (auto simp: set_embeddings_batch_def same_graph_def split: sum.split prod.split)
  ultimately show "settled G (snd (set_embeddings_batch J io G es))"
    using settled_same settled_refl by (cases "es = []") (auto simp: set_embeddings_batch_def)
qed

lemma commit_working_prepared:
  "prepared w = prepared (live G) \<Longrightarrow> prepared (live (snd (commit_working io G w ops))) = prepared (live G)"
  using record_same(2) [of "G\<lparr>ng_ids := ids w\<rparr>" io ops]
  by (auto simp: commit_working_def note_commit_def same_graph_def Let_def split: sum.split prod.split)

lemma create_batch_settled:
  assumes "\<And>x g. x \<in> set xs \<Longrightarrow> prepared (snd (f x g)) = prepared g"
  shows "settled G (snd (create_batch f log target nows io G xs))"
proof (cases "prepared (live G) = fmempty")
  case True
  have "prepared (snd (create_all f g xs)) = prepared g" for g
    using assms by (induction xs arbitrary: g) (auto split: sum.split prod.split simp: prod_eq_iff)
  then have w: "prepared w = prepared (live G)" if "create_all f (live G) xs = (res, w)" for res w
    using that by (metis snd_conv)
  have "prepared (live (snd (create_batch f log target nows io G xs))) = prepared (live G)"
  proof (cases "xs = [] \<or> isl (write_for_commit G)")
    case False
    then have lock: "write_for_commit G = Inr (live G)"
      by (auto simp: write_for_commit_def write_unless_read_only_def split: if_splits)
    obtain res w where all: "create_all f (live G) xs = (res, w)"
      by fastforce
    show ?thesis
      using False commit_working_prepared [OF w [OF all]]
      by (auto simp: create_batch_def lock all prod_eq_iff stamps_same(1) [unfolded same_graph_def] split: sum.split prod.split)
  qed (auto simp: create_batch_def isl_def)
  with True show ?thesis
    by (simp add: settled_def)
next
  case False
  with fence_refuses [OF this] show ?thesis
    by (auto simp: create_batch_def settled_def)
qed

lemma delete_nodes_settled: "settled G (snd (delete_nodes J nows io G is))"
proof (cases "prepared (live G) = fmempty")
  case True
  have del: "prepared (snd (delete_node J g i)) = prepared g" for g i
    using live_step_frame [of g J "LiveDeleteNode i"] by (simp add: same_tables_def)
  have "prepared (snd (delete_present J g is)) = prepared g" for g
  proof (induction "is" arbitrary: g)
    case (Cons i "is")
    then show ?case
      using del [of g i] by (auto split: option.split sum.split prod.split simp: prod_eq_iff)
  qed simp
  then have w: "prepared w = prepared (live G)" if "delete_present J (live G) is = (res, w)" for res w
    using that by (metis snd_conv)
  have "prepared (live (snd (delete_nodes J nows io G is))) = prepared (live G)"
  proof (cases "isl (write_for_commit G)")
    case False
    then have lock: "write_for_commit G = Inr (live G)"
      by (auto simp: write_for_commit_def write_unless_read_only_def split: if_splits)
    obtain res w where all: "delete_present J (live G) is = (res, w)"
      by fastforce
    show ?thesis
      using commit_working_prepared [OF w [OF all]]
      by (auto simp: delete_nodes_def lock all prod_eq_iff stamps_same(2) [unfolded same_graph_def] split: sum.split prod.split)
  qed (auto simp: delete_nodes_def isl_def)
  with True show ?thesis
    by (simp add: settled_def)
next
  case False
  with fence_refuses [OF this] show ?thesis
    by (auto simp: delete_nodes_def settled_def)
qed

lemma with_slot_settled: "settled G (snd (with_slot G t (\<lambda>G slot. slot_write G slot f log)))"
  by (auto simp: settled_def with_slot_def slot_write_def split: option.split sum.split prod.split)

lemma tx_write_settled: "settled G (tx_write J G t op)"
  by (cases op) (simp_all add: tx_create_node_def tx_update_node_def tx_delete_node_def tx_create_edge_def tx_update_edge_def
      tx_delete_edge_def with_slot_settled)

section \<open>The invariant of the fence\<close>

definition fence_inv :: "'j json_lib \<Rightarrow> 'j inner \<Rightarrow> bool" where
  "fence_inv J g \<longleftrightarrow> prepared g = fmempty \<or> (\<exists>gid entry. prepared g = fmupd gid entry fmempty) \<and> prepared_safe J g"

lemma prepared_safe_cong:
  assumes "data_of g' = data_of g" and "constraints g' = constraints g" and "prepared g' = prepared g"
  shows "prepared_safe J g' = prepared_safe J g"
  using assms by (simp add: prepared_safe_def prepared_ops_def)

lemma settled_fence: "settled G G' \<Longrightarrow> fence_inv J (live G) \<Longrightarrow> fence_inv J (live G')"
  using prepared_safe_cong [of "live G'" "live G" J] by (auto simp: settled_def fence_inv_def)

lemma prepared_safe_fewer:
  assumes "prepared_safe J g" and "data_of g' = data_of g" and "prepared g' = prepared g" and "set (constraints g') \<subseteq> set (constraints g)"
  shows "prepared_safe J g'"
  using assms by (auto simp: prepared_safe_def prepared_ops_def valid_nodes_def validate_iff list_all_iff)

text \<open>
  The calls that the fence does not hold back although they can break it: declaring a constraint, which is
  checked against the current records only, and applying a leader's log.
\<close>

fun fence_ok :: "'j native_graph \<Rightarrow> 'j engine_cmd \<Rightarrow> bool" where
  "fence_ok G (AddConstraint c) = (prepared (live G) = fmempty)"
| "fence_ok G (Replicate io ops) = (prepared (live G) = fmempty)"
| "fence_ok G _ = True"

lemma single_ops: "prepared g = fmupd gid entry fmempty \<Longrightarrow> prepared_ops g = pe_ops entry"
proof -
  assume "prepared g = fmupd gid entry fmempty"
  then have "sorted_list_of_fmap (prepared g) = [(gid, entry)]"
    by (simp add: sorted_list_of_fmap_def sorted_list_of_fset.rep_eq)
  then show ?thesis
    by (simp add: prepared_ops_def)
qed

lemma commit_fence:
  assumes inv: "engine_inv J G tr" and fits: "fits G (Commit io t)" and F: "fence_inv J (live G)"
  shows "fence_inv J (live (snd (tx_commit J io G t)))"
proof (cases "take_slot G t")
  case None
  with F show ?thesis
    by (simp add: tx_commit_def)
next
  case (Some p)
  then obtain slot G1 where slot: "take_slot G t = Some (slot, G1)"
    by (cases p) simp
  note T = take_slot_inv [OF inv slot] and I = engine_invD [OF take_slot_inv(1) [OF inv slot]]
  have room: "replay_room (live G1) (ts_ops slot)"
    using fits slot T(4) by (auto simp: fits_def take_slot_def split: option.splits)
  have F1: "fence_inv J ((live G)\<lparr>ids := c\<rparr>)" for c
    using F prepared_safe_cong [of "(live G)\<lparr>ids := c\<rparr>" "live G" J] by (simp add: fence_inv_def)
  have "fence_inv J (live (snd (commit_parts J io G1 slot)))"
  proof (cases rule: commit_parts_cases [OF I(2,1) T(2) room, of io, case_names empty refused tried])
    case empty
    with F T(4) show ?thesis by simp
  next
    case (refused e c cc)
    with F1 T(4) show ?thesis by simp
  next
    case (tried w q G2 cc)
    obtain q' G3 where rec: "record_split (G1\<lparr>ng_ids := ids w\<rparr>) io (ts_ops slot) (ts_ops slot) = (q', G3)"
      by fastforce
    then have live3: "live G3 = (live G)\<lparr>ids := ids w\<rparr>"
      using record_same(1) [of "G1\<lparr>ng_ids := ids w\<rparr>" io "ts_ops slot" "ts_ops slot"] T(4) by (simp add: same_graph_def)
    show ?thesis
    proof (cases q')
      case (Inl e)
      then have "G2 = G3"
        using tried(6) rec by (simp add: commit_working_def record_ops_def)
      with tried(8) live3 F1 show ?thesis by simp
    next
      case (Inr u)
      then have "live G2 = w\<lparr>commit_seq := commit_seq w + 1\<rparr>"
        using tried(6) rec by (auto simp: commit_working_def record_ops_def note_commit_def Let_def)
      moreover have "fence_inv J (w\<lparr>commit_seq := commit_seq w + 1\<rparr>)"
        using tried(3,5) F T(4) prepared_safe_cong [of "w\<lparr>commit_seq := commit_seq w + 1\<rparr>" w J]
        by (auto simp: fence_inv_def writes_def)
      ultimately show ?thesis
        using tried(8) by simp
    qed
  qed
  then show ?thesis
    using slot by (simp add: tx_commit_def)
qed

lemma prepare_fence:
  assumes inv: "engine_inv J G tr" and F: "fence_inv J (live G)"
  shows "fence_inv J (live (snd (tx_prepare J now io G t gid)))"
proof (cases "take_slot G t")
  case None
  with F show ?thesis
    by (simp add: tx_prepare_def)
next
  case (Some p)
  then obtain slot G1 where slot: "take_slot G t = Some (slot, G1)"
    by (cases p) simp
  note T = take_slot_inv [OF inv slot]
  let ?rec = "record_split G1 io [Prepare gid now (ts_ops slot)] []"
  have live_rec: "live (snd ?rec) = live G"
    using record_same(1) [of G1 io "[Prepare gid now (ts_ops slot)]" "[]"] T(4) by (simp add: same_graph_def)
  let ?entry = "\<lparr>pe_prepared_at_ms = now, pe_ops = ts_ops slot\<rparr>"
  let ?g = "(live G)\<lparr>heuristic := heuristic (live G) |-| {|gid|}, prepared := fmupd gid ?entry (prepared (live G)), commit_seq := commit_seq (live G) + 1\<rparr>"
  have new: "fence_inv J ?g"
    if e: "prepared (live G) = fmempty" and p: "ng_ptr G1 = ts_base_ptr slot"
      and v: "validate_constraints J (borrow G1 (ts_working slot)) = Inr ()"
  proof -
    have base: "(ts_base slot)\<lparr>ids := ng_ids G\<rparr> = live G"
      using T(2,4) p by (simp add: slot_inv_def)
    have "data_of (live G) = data_of (ts_base slot)" "constraints (live G) = constraints (ts_base slot)"
      by (subst base [symmetric], simp)+
    moreover have "data_of (ts_working slot) = foldl spec_plain (data_of (ts_base slot)) (ts_ops slot)"
      "constraints (ts_working slot) = constraints (ts_base slot)"
      using T(2) by (simp_all add: slot_inv_def same_tables_def)
    ultimately have "d_nodes (foldl spec_plain (data_of (live G)) (ts_ops slot)) = nodes (ts_working slot)"
      "constraints (live G) = constraints (ts_working slot)"
      by (metis data_of_sel(1), simp)
    then have "prepared_safe J ?g"
      using v single_ops [of ?g gid ?entry] e by (simp add: prepared_safe_def validate_valid borrow_def)
    with e show ?thesis
      by (auto simp: fence_inv_def)
  qed
  show ?thesis
    using slot F new live_rec T(4)
    by (auto simp: tx_prepare_def note_conflict_def count_conflict_def note_commit_def Let_def case_prod_beta split: sum.split)
qed

lemma resolve_fence:
  assumes inv: "engine_inv J G tr" and F: "fence_inv J (live G)"
  shows "replay_room (live G) [CommitPrepared gid] \<Longrightarrow> fence_inv J (live (snd (commit_prepared J io G gid)))"
    and "fence_inv J (live (snd (rollback_prepared_as J io G gid h)))"
proof -
  have gone: "fence_inv J g" if "prepared g = fmdrop gid (prepared (live G))" "fmlookup (prepared (live G)) gid \<noteq> None" for g
    using that F by (auto simp: fence_inv_def split: if_splits intro!: fmap_ext)
  show "fence_inv J (live (snd (commit_prepared J io G gid)))" if room: "replay_room (live G) [CommitPrepared gid]"
  proof (cases "fmlookup (prepared (live G)) gid")
    case (Some entry)
    let ?g = "apply_wal_op J (live G) (CommitPrepared gid)"
    have "live (snd (record_split G io [CommitPrepared gid] (pe_ops entry))) = live G"
      using record_same(1) [of G io "[CommitPrepared gid]" "pe_ops entry"] by (simp add: same_graph_def)
    then have "live (snd (commit_prepared J io G gid)) \<in> {live G, ?g\<lparr>commit_seq := commit_seq ?g + 1\<rparr>}"
      by (auto simp: commit_prepared_def Some note_commit_def Let_def case_prod_beta split: sum.split)
    moreover have "fence_inv J (?g\<lparr>commit_seq := commit_seq ?g + 1\<rparr>)"
      by (rule gone) (use commit_prepared_move(5) [OF inv room Some] Some in simp_all)
    ultimately show ?thesis
      using F by auto
  qed (use F in \<open>simp add: commit_prepared_def\<close>)
  show "fence_inv J (live (snd (rollback_prepared_as J io G gid h)))"
  proof (cases "gid |\<in>| fmdom (prepared (live G))")
    case True
    let ?g = "apply_wal_op J (live G) (RollbackPrepared gid h)"
    have "live (snd (record_split G io [RollbackPrepared gid h] [])) = live G"
      using record_same(1) [of G io "[RollbackPrepared gid h]" "[]"] by (simp add: same_graph_def)
    then have "live (snd (rollback_prepared_as J io G gid h)) \<in> {live G, ?g\<lparr>commit_seq := commit_seq ?g + 1\<rparr>}"
      using True by (auto simp: rollback_prepared_as_def note_commit_def Let_def case_prod_beta split: sum.split)
    moreover have "fence_inv J (?g\<lparr>commit_seq := commit_seq ?g + 1\<rparr>)"
      by (rule gone) (use True in \<open>simp_all add: apply_wal_op_def Let_def fmlookup_dom_iff\<close>)
    ultimately show ?thesis
      using F by auto
  qed (use F in \<open>simp add: rollback_prepared_as_def\<close>)
qed

lemma constraints_fence:
  assumes inv: "engine_inv J G tr" and F: "fence_inv J (live G)"
  shows "prepared (live G) = fmempty \<Longrightarrow> fence_inv J (live (snd (add_constraint J G c)))"
    and "fence_inv J (live (snd (remove_constraint J G c)))"
proof -
  note sync = sync_unique_move [OF engine_invD(1) [OF inv]]
  show "fence_inv J (live (snd (add_constraint J G c)))" if "prepared (live G) = fmempty"
    using that sync by (auto simp: fence_inv_def add_constraint_def note_commit_def Let_def split: sum.split)
  let ?g = "sync_unique J ((live G)\<lparr>constraints := filter (\<lambda>d. d \<noteq> c) (constraints (live G))\<rparr>)"
  have "fence_inv J ?g" "fence_inv J (?g\<lparr>commit_seq := commit_seq ?g + 1\<rparr>)"
    using F prepared_safe_fewer [of J "live G" ?g] prepared_safe_fewer [of J "live G" "?g\<lparr>commit_seq := commit_seq ?g + 1\<rparr>"]
      sync [of "filter (\<lambda>d. d \<noteq> c) (constraints (live G))"]
    by (auto simp: fence_inv_def moves_def)
  then show "fence_inv J (live (snd (remove_constraint J G c)))"
    by (simp add: remove_constraint_def note_commit_def Let_def)
qed

lemma same_settled: "same_graph G G' \<Longrightarrow> settled G G'"
  by (simp add: same_graph_def settled_def)

lemma fence_step:
  assumes inv: "engine_inv J G tr" and fits: "fits G cmd" and ok: "fence_ok G cmd" and F: "fence_inv J (live G)"
  shows "fence_inv J (live (engine_step J G cmd))"
proof -
  note S = settled_fence [OF _ F]
  show ?thesis
  proof (cases cmd)
    case (Commit io t)
    with commit_fence [OF inv _ F] fits show ?thesis
      by (simp only: engine_step.simps)
  next
    case (Replicate io ops)
    note I = engine_invD [OF inv]
    have p: "prepared (live G) = fmempty"
      using ok Replicate by simp
    have W: "prepared (apply_wal_ops J (live G) ops) = prepared (live G)"
      using replay_writes [OF I(1) _ _ I(2), of ops] fits Replicate by (simp add: fits_def writes_def)
    have "prepared (live (snd (ng_apply_wal_ops J io G ops))) = fmempty"
      using p W
      by (simp add: record_same(2) [unfolded same_graph_def] ng_apply_wal_ops_def write_unless_read_only_def foldl_apply note_commit_def Let_def)
    with Replicate show ?thesis
      by (simp add: fence_inv_def)
  next
    case (CreateNodes nows io xs)
    have "prepared (snd (create_node_checked J env g nn b)) = prepared g" for env g nn b
      using live_step_frame [of g J "LiveCreateNode env nn b"] by (simp add: same_tables_def)
    then show ?thesis
      using CreateNodes by (auto simp: create_nodes_def case_prod_beta intro!: S create_batch_settled)
  next
    case (CreateEdges nows io xs)
    have "prepared (snd (create_edge env g ne)) = prepared g" for env and g :: "'a inner" and ne
      using live_step_frame [of g J "LiveCreateEdge env ne"] by (simp add: same_tables_def)
    then show ?thesis
      using CreateEdges by (auto simp: create_edges_def case_prod_beta intro!: S create_batch_settled)
  next
    case (Rollback t)
    then show ?thesis
      using F by (auto simp: tx_rollback_def take_slot_def split: option.split)
  qed (use F fits ok in \<open>simp_all add: S direct_settled embeddings_settled delete_nodes_settled tx_write_settled
        settings_same same_settled prepare_fence [OF inv] resolve_fence [OF inv F] constraints_fence [OF inv F] fits_def
        register_tx_def trim_before_def set_conflict_history_def Let_def\<close>)
qed

inductive fenced :: "'j json_lib \<Rightarrow> 'j native_graph \<Rightarrow> bool" for J where
  fresh: "fenced J (native_graph_new origin durable)"
| call: "fenced J G \<Longrightarrow> fits G cmd \<Longrightarrow> fence_ok G cmd \<Longrightarrow> fenced J (engine_step J G cmd)"

lemma fenced_inv: "fenced J G \<Longrightarrow> reachable J G \<and> fence_inv J (live G)"
proof (induction rule: fenced.induct)
  case (fresh origin durable)
  have "prepared (live (native_graph_new origin durable)) = fmempty"
    by (simp add: native_graph_new_def live_def borrow_def inner_default_def)
  then show ?case
    by (auto intro: reachable.fresh simp: fence_inv_def)
next
  case (call G cmd)
  then obtain tr where "engine_inv J G tr"
    using engine_reachable_inv by blast
  with call fence_step show ?case
    by (blast intro: reachable.call)
qed


fun fence_run :: "'j json_lib \<Rightarrow> 'j native_graph \<Rightarrow> 'j engine_cmd list \<Rightarrow> bool" where
  "fence_run J G [] = True"
| "fence_run J G (cmd # cmds) = (fits G cmd \<and> fence_ok G cmd \<and> fence_run J (engine_step J G cmd) cmds)"

lemma run_fenced: "fenced J G \<Longrightarrow> fence_run J G cmds \<Longrightarrow> fenced J (engine_run J G cmds)"
  by (induction cmds arbitrary: G) (auto simp: engine_run_def intro: fenced.call)

text \<open>A transaction that renames node 1 under a unique title is prepared; another one commits a rename of node 2.\<close>

definition ex_prepared :: "string option engine_cmd list" where
  "ex_prepared = ex_setup @
     [AddConstraint (UniqueNodeProperty ''k'' ''title''),
      Begin Snapshot True, TxWrite 2 (LiveUpdateNode (ex_env 3) 1 (ex_title ''mine'') True), PrepareTx 9 Flushed 2 ''g'',
      Begin Serializable True, TxWrite 3 (LiveUpdateNode (ex_env 4) 2 (ex_title ''theirs'') True), Commit Flushed 3]"

lemma ex_fenced:
  "fence_run ex_json ex_start ex_prepared \<and>
   (let G = engine_run ex_json ex_start ex_prepared in
     fits G (CommitPrep Flushed ''g'') \<and> \<not> ng_read_only G \<and> \<not> ng_broken G \<and> map fst (list_prepared G) = [''g''] \<and>
     map n_title (all_nodes (live (snd (commit_prepared ex_json Flushed G ''g'')))) = [''mine'', ''theirs''])"
  by code_simp


end
