(* ===== verification/Native_Findings.thy ===== *)
theory Native_Findings
  imports Native_Fence
begin

text \<open>
  Runs of the engine that end where its documentation says it cannot end. Each theorem evaluates one concrete
  run of the model. The runs set the length of the conflict history first, so that the states stay small.
\<close>

section \<open>Identifiers after compaction\<close>

text \<open>Shown too.
  The field comment of the id counters says that an id is never reused. The compacted log carries records only, so
  after a create, a create, a delete of the second node and a rebuild from the compacted log, the next node is
  created under the id of the deleted one.\<close>

theorem deleted_id_reissued:
  "let G = engine_run ex_json ex_start
             [SetHistory 4, Direct 1 Flushed (LiveCreateNode (ex_env 1) (ex_new ''k'' ''a'') True),
              Direct 2 Flushed (LiveCreateNode (ex_env 2) (ex_new ''k'' ''b'') True), Direct 3 Flushed (LiveDeleteNode 2)];
       G' = set_conflict_history (ng_replay ex_json 8 (dump_wal G)) 4
   in last_node (ng_ids G) = 2 \<and> last_node (ng_ids G') = 1 \<and>
      map_sum id n_id (fst (ng_create_node ex_json (ex_env 4) 4 Flushed G' (ex_new ''k'' ''c''))) = Inr 2"
  by code_simp

section \<open>Two-phase commit\<close>

text \<open>
  A transaction that gives node 1 the title of node 2 is prepared.
\<close>

definition twin_prepared :: "string option engine_cmd list" where
  "twin_prepared =
     [SetHistory 4, Direct 1 Flushed (LiveCreateNode (ex_env 1) (ex_new ''k'' ''a'') True),
      Direct 2 Flushed (LiveCreateNode (ex_env 2) (ex_new ''k'' ''b'') True), Begin Snapshot True,
      TxWrite 1 (LiveUpdateNode (ex_env 3) 1 (ex_title ''b'') True), PrepareTx 4 Flushed 1 ''g'']"


text \<open>Shown too.
  On a replica the marker that commits a prepared transaction is applied with an empty conflict set, although its
  write set is applied. A snapshot transaction that began before it and updates the same node is not refused: it
  commits over the update it did not see.\<close>

theorem replicated_commit_unnoticed:
  "let G = engine_run ex_json ex_start (twin_prepared @
             [Begin Snapshot True, TxWrite 2 (LiveUpdateNode (ex_env 5) 1 (ex_title ''mine'') True),
              Replicate Flushed [CommitPrepared ''g'']]);
       committed = tx_commit ex_json Flushed G 2
   in map n_title (all_nodes (live G)) = [''b'', ''b''] \<and> fst committed = Inr () \<and>
      map n_title (all_nodes (live (snd committed))) = [''mine'', ''b'']"
  by code_simp

section \<open>The log\<close>

text \<open>
  Two direct writes that interleave between the section under the lock and the log: the second writer takes the lock
  after the first and reaches the log before it.
\<close>

definition crossed_writes :: "string option native_graph \<Rightarrow> string option native_graph" where
  "crossed_writes G =
     (let under_lock = (\<lambda>G t title. write_locked G (\<lambda>g. update_node_checked ex_json (ex_env t) g 1 (ex_title title) True) (\<lambda>n. cs_node (n_id n)));
          to_log = (\<lambda>t r G. snd (write_logged Flushed UpsertNode (\<lambda>n G. stamp_write G t (StampNode (n_id n))) (r, G)));
          (first, G) = under_lock G 2 ''first'';
          (second, G) = under_lock G 3 ''second''
      in to_log 5 first (to_log 4 second G))"


text \<open>Shown too.
  A commit whose log record was written and whose flush then failed reports an error, which is documented as not
  applied. The record stays in the log and a rebuild applies it.\<close>

theorem failed_flush_applied_on_replay:
  "let G = engine_run ex_json ex_start
             [SetHistory 4, Direct 1 Flushed (LiveCreateNode (ex_env 1) (ex_new ''k'' ''a'') True), Begin Snapshot True,
              TxWrite 1 (LiveUpdateNode (ex_env 2) 1 (ex_title ''mine'') True)];
       committed = tx_commit ex_json SyncFails G 1
   in fst committed = Inl (CommitIo (Rendered (Io SyncError))) \<and> map n_title (all_nodes (live (snd committed))) = [''a''] \<and>
      map n_title (all_nodes (apply_wal_ops ex_json inner_default (concat (ng_wal (snd committed))))) = [''mine'']"
  by code_simp

section \<open>Conflicts without a change\<close>

text \<open>Shown too.
  A direct write that fails leaves the records as they were and is no commit, but it has copied the shared state. A
  serializable transaction that was running is refused as if the graph had changed.\<close>

theorem failed_write_conflicts:
  "let G = engine_run ex_json ex_start
             [SetHistory 4, Direct 1 Flushed (LiveCreateNode (ex_env 1) (ex_new ''k'' ''a'') True), Begin Serializable True,
              TxWrite 1 (LiveUpdateNode (ex_env 2) 1 (ex_title ''mine'') True)];
       failed = ng_delete_node ex_json 3 Flushed G 9
   in fst failed = Inl (NodeNotFound 9) \<and> all_nodes (live (snd failed)) = all_nodes (live G) \<and>
      commit_seq (live (snd failed)) = commit_seq (live G) \<and> fst (tx_commit ex_json Flushed G 1) = Inr () \<and>
      fst (tx_commit ex_json Flushed (snd failed) 1) = Inl CommitConflict"
  by code_simp

end
