(* ===== verification/Delta_Findings.thy ===== *)
theory Delta_Findings
  imports Native_Merge Native_Findings
begin

text \<open>
  Exchanges of deltas that end where the documentation of \<^verbatim>\<open>delta.rs\<close> says they cannot end. Each theorem evaluates one
  concrete run of the model.
\<close>

definition ex_uuid :: "8 word \<Rightarrow> int \<Rightarrow> env" where
  "ex_uuid u t = \<lparr>now_ms = t, new_uuid = [u]\<rparr>"

definition ex_sync :: "string option native_graph \<Rightarrow> string option native_graph \<Rightarrow> string option native_graph" where
  "ex_sync to from = snd (apply_delta ex_json (\<lambda>_. (Flushed, 1)) to (delta_since from (version_vector to)))"

text \<open>Two nodes and a relationship between them, written by the first replica and merged by the second.\<close>

definition ex_origin :: "string option native_graph" where
  "ex_origin = engine_run ex_json (ex_empty 1)
     [Direct 1 Flushed (LiveCreateNode (ex_uuid 1 1) (ex_new ''k'' ''x'') True),
      Direct 2 Flushed (LiveCreateNode (ex_uuid 2 2) (ex_new ''k'' ''y'') True),
      Direct 3 Flushed (LiveCreateEdge (ex_uuid 3 3) (ex_rel 1 2 ''r''))]"

text \<open>Shown too.
  A committed transaction is not replicated. The documentation says that every write carries a stamp and that the delta for
  an empty version vector is the whole live state; the commit of a transaction stamps nothing, so that the node it
  created is in no delta.\<close>

theorem committed_write_not_in_delta:
  "let G = engine_run ex_json (ex_empty 1)
             [Begin Snapshot True, TxWrite 1 (LiveCreateNode (ex_uuid 1 1) (ex_new ''k'' ''x'') True), Commit Flushed 1]
   in map n_title (all_nodes (live G)) = [''x''] \<and> delta_since G vv_new = []"
  by code_simp


text \<open>Shown too.
  Applying a delta again is not always without effect. A replica that holds a newer version of a relationship skips its
  deletion and then removes it with its node; the second time the deletion finds nothing to compare with, wins and leaves
  a tombstone.\<close>

theorem second_apply_wins:
  "let A = ex_origin; env = (\<lambda>_. (Flushed, 1));
       delta = [ChangeDeleteEdge [3] (Stamp (Hlc 2 0) 2), ChangeDeleteNode [1] (Stamp (Hlc 30 0) 2)];
       first = apply_delta ex_json env A delta; second = apply_delta ex_json env (snd first) delta
   in fst first = Inr \<lparr>st_applied = 1, st_skipped = 1\<rparr> \<and> fst second = Inr \<lparr>st_applied = 1, st_skipped = 1\<rparr> \<and>
      fcard (fmdom (ng_tombstones (snd first))) = 1 \<and> fcard (fmdom (ng_tombstones (snd second))) = 2"
  by code_simp

end
