(* ===== verification/Wal_Compact.thy ===== *)
theory Wal_Compact
  imports Drevo_Prelude "HOL-Library.Char_ord" "HOL-Library.List_Lexorder"
begin

text \<open>
  The compact record encoding of \<^verbatim>\<open>wal_format.rs\<close> (module \<^verbatim>\<open>compact\<close>): the tree of a record, with its built-in
  field names replaced by small integers. JSON values and CBOR values are the trees of the two libraries; a JSON
  object is a map sorted by key, as \<^verbatim>\<open>serde_json::Map\<close> is. Floats are their bit patterns.
\<close>

section \<open>The two kinds of tree\<close>

type_synonym u8 = "8 word"
type_synonym bytes = "u8 list"
type_synonym f64 = "64 word"

datatype json_number = PosInt u64 | NegInt int | JFloat f64

datatype json =
  JNull | JBool bool | JNumber json_number | JString string | JArray "json list" | JObject "(string \<times> json) list"

datatype cbor =
  CNull | CBool bool | CInteger int | CFloat f64 | CText string | CBytes bytes | CTag u64 cbor | CArray "cbor list"
| CMap "(cbor \<times> cbor) list"

text \<open>What is used of the numbers of \<^verbatim>\<open>serde_json\<close> and of the integers of \<^verbatim>\<open>ciborium\<close>.\<close>

definition in_i64 :: "int \<Rightarrow> bool" where
  "in_i64 i = (- (2 ^ 63) \<le> i \<and> i < 2 ^ 63)"

definition in_u64 :: "int \<Rightarrow> bool" where
  "in_u64 i = (0 \<le> i \<and> i < 2 ^ 64)"

fun as_i64 :: "json_number \<Rightarrow> int option" where
  "as_i64 (PosInt n) = (if in_i64 (uint n) then Some (uint n) else None)"
| "as_i64 (NegInt i) = Some i"
| "as_i64 (JFloat f) = None"

fun as_u64 :: "json_number \<Rightarrow> int option" where
  "as_u64 (PosInt n) = Some (uint n)"
| "as_u64 n = None"

definition f64_nan :: f64 where
  "f64_nan = 0x7FF8000000000000"

fun float_bits :: "json_number \<Rightarrow> f64 option" where
  "float_bits (JFloat f) = Some f"
| "float_bits n = None"

definition is_finite :: "f64 \<Rightarrow> bool" where
  "is_finite f = (take_bit 11 (drop_bit 52 f) \<noteq> 0x7FF)"

definition from_f64 :: "f64 \<Rightarrow> json_number option" where
  "from_f64 f = (if is_finite f then Some (JFloat f) else None)"

definition from_int :: "int \<Rightarrow> json_number" where
  "from_int i = (if i < 0 then NegInt i else PosInt (word_of_int i))"

text \<open>\<^verbatim>\<open>Map::insert\<close>: the entries stay sorted by key, and an existing key gets the new value.\<close>

fun map_insert :: "string \<Rightarrow> 'v \<Rightarrow> (string \<times> 'v) list \<Rightarrow> (string \<times> 'v) list" where
  "map_insert k v [] = [(k, v)]"
| "map_insert k v ((k', v') # m) =
     (if k = k' then (k, v) # m else if k < k' then (k, v) # (k', v') # m else (k', v') # map_insert k v m)"

definition build_map :: "(string \<times> 'v) list \<Rightarrow> (string \<times> 'v) list" where
  "build_map = foldl (\<lambda>m (k, v). map_insert k v m) []"

fun collect :: "'a option list \<Rightarrow> 'a list option" where
  "collect [] = Some []"
| "collect (None # xs) = None"
| "collect (Some x # xs) = map_option (Cons x) (collect xs)"

section \<open>Field names\<close>

definition FIELD_NAMES :: "string list" where
  "FIELD_NAMES =
     [''UpsertNode'', ''DeleteNode'', ''UpsertEdge'', ''DeleteEdge'', ''SetEmbedding'', ''DeleteEmbedding'', ''Prepare'',
      ''CommitPrepared'', ''RollbackPrepared'', ''id'', ''uuid'', ''kind'', ''title'', ''body'', ''body_html'', ''created_at'',
      ''updated_at'', ''properties'', ''from_id'', ''to_id'', ''weight'', ''gid'', ''prepared_at_ms'', ''ops'', ''heuristic'']"

fun position :: "'a \<Rightarrow> 'a list \<Rightarrow> nat option" where
  "position x [] = None"
| "position x (y # ys) = (if x = y then Some 0 else map_option Suc (position x ys))"

definition field_key :: "string \<Rightarrow> cbor" where
  "field_key name = (case position name FIELD_NAMES of Some code \<Rightarrow> CInteger (int code) | None \<Rightarrow> CText name)"

fun field_name :: "cbor \<Rightarrow> string option" where
  "field_name (CInteger code) =
     (if 0 \<le> code \<and> nat code < length FIELD_NAMES then Some (FIELD_NAMES ! nat code) else None)"
| "field_name (CText name) = Some name"
| "field_name c = None"

definition record_variants :: "string list" where
  "record_variants = [''UpsertNode'', ''UpsertEdge'', ''Prepare'', ''CommitPrepared'', ''RollbackPrepared'']"

section \<open>Encoding\<close>

definition plain_number :: "json_number \<Rightarrow> cbor" where
  "plain_number n =
     (case as_i64 n of
        Some i \<Rightarrow> CInteger i
      | None \<Rightarrow>
          (case as_u64 n of
             Some u \<Rightarrow> CInteger u
           | None \<Rightarrow> CFloat (case float_bits n of Some f \<Rightarrow> f | None \<Rightarrow> f64_nan)))"

primrec plain :: "json \<Rightarrow> cbor" where
  "plain JNull = CNull"
| "plain (JBool b) = CBool b"
| "plain (JNumber n) = plain_number n"
| "plain (JString s) = CText s"
| "plain (JArray items) = CArray (map plain items)"
| "plain (JObject m) = CMap (map (\<lambda>(k, c). (CText k, c)) (map (map_prod id plain) m))"

lemma size_json_entry [termination_simp]: "(k, v) \<in> set m \<Longrightarrow> size v < Suc (size_list (size_prod f size) m)"
  by (induction m) auto

lemma size_json_item [termination_simp]: "v \<in> set items \<Longrightarrow> size v < Suc (size_list size items)"
  by (induction items) auto

function (sequential) compact_ops :: "json \<Rightarrow> cbor" and compact_op :: "json \<Rightarrow> cbor"
  and compact_payload :: "string \<Rightarrow> json \<Rightarrow> cbor" where
  "compact_ops (JArray items) = CArray (map compact_op items)"
| "compact_ops v = plain v"
| "compact_op (JObject m) = CMap (map (\<lambda>(variant, payload). (field_key variant, compact_payload variant payload)) m)"
| "compact_op v = plain v"
| "compact_payload variant (JObject fields) =
     (if variant \<in> set record_variants
      then CMap (map (\<lambda>(field, v). (field_key field, if field = ''ops'' then compact_ops v else plain v)) fields)
      else plain (JObject fields))"
| "compact_payload variant v = plain v"
  by pat_completeness auto
termination
  by (relation "measure (\<lambda>x. case x of Inl v \<Rightarrow> size v | Inr (Inl v) \<Rightarrow> size v | Inr (Inr (_, v)) \<Rightarrow> size v)")
    (auto simp: termination_simp)

section \<open>Decoding\<close>

definition unplain_integer :: "int \<Rightarrow> json option" where
  "unplain_integer i =
     (if in_i64 i then Some (JNumber (from_int i)) else if in_u64 i then Some (JNumber (PosInt (word_of_int i))) else None)"

lemma size_cbor_entry [termination_simp]: "(k, v) \<in> set m \<Longrightarrow> size (v :: cbor) < Suc (size_list (size_prod size size) m)"
  by (induction m) auto

lemma size_cbor_item [termination_simp]: "v \<in> set items \<Longrightarrow> size (v :: cbor) < Suc (size_list size items)"
  by (induction items) auto

fun unplain :: "cbor \<Rightarrow> json option" where
  "unplain CNull = Some JNull"
| "unplain (CBool b) = Some (JBool b)"
| "unplain (CInteger i) = unplain_integer i"
| "unplain (CFloat f) = map_option JNumber (from_f64 f)"
| "unplain (CText s) = Some (JString s)"
| "unplain (CArray items) = map_option JArray (collect (map unplain items))"
| "unplain (CMap entries) =
     map_option (\<lambda>es. JObject (build_map es))
       (collect (map (\<lambda>(k, v). case k of CText k \<Rightarrow> map_option (Pair k) (unplain v) | _ \<Rightarrow> None) entries))"
| "unplain c = None"

text \<open>One entry of a map: its name, then its value, which may depend on the name.\<close>

definition named :: "(string \<Rightarrow> cbor \<Rightarrow> json option) \<Rightarrow> cbor \<times> cbor \<Rightarrow> (string \<times> json) option" where
  "named f e = (case field_name (fst e) of None \<Rightarrow> None | Some n \<Rightarrow> map_option (Pair n) (f n (snd e)))"

lemma named_cong [fundef_cong]: "e = e' \<Longrightarrow> (\<And>n. f n (snd e') = g n (snd e')) \<Longrightarrow> named f e = named g e'"
  by (simp add: named_def split: option.splits)

lemma size_cbor_snd [termination_simp]: "e \<in> set m \<Longrightarrow> size (snd e :: cbor) < Suc (size_list (size_prod size size) m)"
  by (cases e) (simp add: size_cbor_entry)

function (sequential) un_ops :: "cbor \<Rightarrow> json option" and un_op :: "cbor \<Rightarrow> json option"
  and un_payload :: "string \<Rightarrow> cbor \<Rightarrow> json option" where
  "un_ops (CArray items) = map_option JArray (collect (map un_op items))"
| "un_ops c = unplain c"
| "un_op (CMap entries) = map_option (\<lambda>es. JObject (build_map es)) (collect (map (named un_payload) entries))"
| "un_op c = unplain c"
| "un_payload variant (CMap entries) =
     (if variant \<in> set record_variants
      then map_option (\<lambda>es. JObject (build_map es))
             (collect (map (named (\<lambda>field v. if field = ''ops'' then un_ops v else unplain v)) entries))
      else unplain (CMap entries))"
| "un_payload variant c = unplain c"
  by pat_completeness auto
termination
  by (relation "measure (\<lambda>x. case x of Inl v \<Rightarrow> size v | Inr (Inl v) \<Rightarrow> size v | Inr (Inr (_, v)) \<Rightarrow> size v)")
    (auto simp: termination_simp)

section \<open>Round trip\<close>

text \<open>
  The values \<^verbatim>\<open>serde_json\<close> can hold: object keys are sorted and distinct, negative integers fit 64 bits and floats are
  finite.
\<close>

fun number_ok :: "json_number \<Rightarrow> bool" where
  "number_ok (PosInt n) = True"
| "number_ok (NegInt i) = (- (2 ^ 63) \<le> i \<and> i < 0)"
| "number_ok (JFloat f) = is_finite f"

fun json_ok :: "json \<Rightarrow> bool" where
  "json_ok (JNumber n) = number_ok n"
| "json_ok (JArray items) = (\<forall>v \<in> set items. json_ok v)"
| "json_ok (JObject m) = (sorted_wrt (<) (map fst m) \<and> (\<forall>e \<in> set m. json_ok (snd e)))"
| "json_ok v = True"

lemma map_insert_last: "\<forall>e \<in> set m. fst e < k \<Longrightarrow> map_insert k v m = m @ [(k, v)]"
  by (induction m) auto

lemma build_map_sorted: "sorted_wrt (<) (map fst m) \<Longrightarrow> build_map m = m"
  by (induction m rule: rev_induct) (auto simp: build_map_def sorted_wrt_append map_insert_last)

lemma collect_Some: "(\<And>x. x \<in> set xs \<Longrightarrow> f x = Some (g x)) \<Longrightarrow> collect (map f xs) = Some (map g xs)"
  by (induction xs) auto

lemma collect_self: "(\<And>x. x \<in> set xs \<Longrightarrow> f (h x) = Some x) \<Longrightarrow> collect (map f (map h xs)) = Some xs"
  using collect_Some [of xs "\<lambda>x. f (h x)" id] by (simp add: comp_def)

lemma position_SomeD: "position x xs = Some i \<Longrightarrow> i < length xs \<and> xs ! i = x"
  by (induction xs arbitrary: i) (auto split: if_splits)

lemma field_name_key [simp]: "field_name (field_key n) = Some n"
  by (auto simp: field_key_def dest: position_SomeD split: option.splits)

lemma plain_number_roundtrip: "number_ok n \<Longrightarrow> unplain (plain_number n) = Some (JNumber n)"
  using uint_lt2p [of "case n of PosInt u \<Rightarrow> u | _ \<Rightarrow> 0"]
  by (cases n) (auto simp: plain_number_def unplain_integer_def in_i64_def in_u64_def from_int_def from_f64_def not_less)

lemma un_plain_number [simp]:
  "un_ops (plain_number n) = unplain (plain_number n)" "un_op (plain_number n) = unplain (plain_number n)"
  "un_payload variant (plain_number n) = unplain (plain_number n)"
  by (simp_all add: plain_number_def split: option.splits)

lemma plain_object: "plain (JObject m) = CMap (map (\<lambda>e. (CText (fst e), plain (snd e))) m)"
  by (simp add: comp_def case_prod_beta)

lemma unplain_plain: "json_ok v \<Longrightarrow> unplain (plain v) = Some v"
proof (induction v)
  case (JNumber n)
  then show ?case
    by (simp add: plain_number_roundtrip)
next
  case (JArray items)
  then show ?case
    by (simp add: collect_self del: map_map)
next
  case (JObject m)
  then have "unplain (plain (snd e)) = Some (snd e)" if "e \<in> set m" for e
    using that by (metis json_ok.simps(3) snds.intros)
  with JObject.prems show ?case
    unfolding plain_object by (simp add: collect_self build_map_sorted del: map_map)
qed simp_all

lemma un_plain:
  "un_ops (plain (JObject m)) = unplain (plain (JObject m))" "un_op (plain (JArray vs)) = unplain (plain (JArray vs))"
  "un_payload variant (plain (JArray vs)) = unplain (plain (JArray vs))"
  by simp_all

text \<open>A map whose keys are abbreviated and whose values are encoded reads back, whatever the encoding of a value.\<close>

lemma named_object:
  assumes "json_ok (JObject m)" and "\<And>k v. (k, v) \<in> set m \<Longrightarrow> f k (h k v) = Some v"
  shows "map_option (\<lambda>es. JObject (build_map es)) (collect (map (named f) (map (\<lambda>(k, v). (field_key k, h k v)) m))) =
    Some (JObject m)"
proof -
  have "collect (map (named f) (map (\<lambda>(k, v). (field_key k, h k v)) m)) = Some m"
    by (rule collect_self) (auto simp: named_def assms(2))
  with assms(1) show ?thesis
    by (simp add: build_map_sorted)
qed

lemma compact_ops_roundtrip:
  shows "json_ok v \<Longrightarrow> un_ops (compact_ops v) = Some v"
    and "json_ok v \<Longrightarrow> un_op (compact_op v) = Some v"
    and "json_ok v \<Longrightarrow> un_payload variant (compact_payload variant v) = Some v"
proof (induction v and v and variant v rule: compact_ops_compact_op_compact_payload.induct)
  case (1 items)
  then show ?case
    by (simp add: collect_self del: map_map)
next
  case (3 m)
  then have "un_payload variant (compact_payload variant payload) = Some payload" if "(variant, payload) \<in> set m" for variant payload
    using that by force
  with 3(2) show ?case
    using named_object [of m un_payload compact_payload] by (simp del: map_map)
next
  case (5 variant fields)
  show ?case
  proof (cases "variant \<in> set record_variants")
    case True
    have "(if k = ''ops'' then un_ops (if k = ''ops'' then compact_ops v else plain v)
           else unplain (if k = ''ops'' then compact_ops v else plain v)) = Some v" if "(k, v) \<in> set fields" for k v
      using that 5 True by (force intro: unplain_plain)
    then show ?thesis
      using True named_object [where m = fields and f = "\<lambda>k c. if k = ''ops'' then un_ops c else unplain c"
          and h = "\<lambda>k v. if k = ''ops'' then compact_ops v else plain v", OF 5(2)]
      by (simp del: map_map)
  next
    case False
    then show ?thesis
      using unplain_plain [OF 5(2)] by (simp del: plain.simps add: plain_object)
  qed
qed (auto simp: un_plain unplain_plain plain_number_roundtrip simp del: plain.simps(5,6))

text \<open>Shown too.
  The compact form of a record reads back: abbreviating the built-in field names and expanding them again gives the
  same tree, property names that look like field names included.\<close>

theorem compact_record_roundtrip: "json_ok v \<Longrightarrow> un_ops (compact_ops v) = Some v"
  by (rule compact_ops_roundtrip(1))

definition ex_record :: json where
  "ex_record =
     JArray [JObject [(''UpsertNode'', JObject [(''id'', JNumber (PosInt 7)), (''properties'', JObject [(''kind'', JNumber (NegInt (- 3)))])])],
       JObject [(''Prepare'', JObject [(''gid'', JString ''g''), (''ops'', JArray [JObject [(''DeleteNode'', JNumber (PosInt 1))]])])]]"

theorem compact_record_roundtrip_witness:
  "compact_ops ex_record =
     CArray [CMap [(CInteger 0, CMap [(CInteger 9, CInteger 7), (CInteger 17, CMap [(CText ''kind'', CInteger (- 3))])])],
       CMap [(CInteger 6, CMap [(CInteger 21, CText ''g''), (CInteger 23, CArray [CMap [(CInteger 1, CInteger 1)]])])]] \<and>
   un_ops (compact_ops ex_record) = Some ex_record"
proof
  show "compact_ops ex_record =
     CArray [CMap [(CInteger 0, CMap [(CInteger 9, CInteger 7), (CInteger 17, CMap [(CText ''kind'', CInteger (- 3))])])],
       CMap [(CInteger 6, CMap [(CInteger 21, CText ''g''), (CInteger 23, CArray [CMap [(CInteger 1, CInteger 1)]])])]]"
    by code_simp
  have "json_ok ex_record"
    by (simp add: ex_record_def)
  then show "un_ops (compact_ops ex_record) = Some ex_record"
    by (rule compact_record_roundtrip)
qed

end
