(* ===== verification/Wal_Format.thy ===== *)
theory Wal_Format
  imports Wal_Compact
begin

text \<open>
  The write-ahead log on disk (\<^verbatim>\<open>wal_format.rs\<close>): headers and their detection, the CRC-framed binary records, JSON
  lines, sealed records, and the reader that replays a log chunk by chunk. The serialisers, the compressor and the
  cipher are libraries: they are the fields of \<open>wal_lib\<close>, an argument of the definitions that use them.
\<close>

unbundle bit_operations_syntax

section \<open>The libraries\<close>

datatype wal_format = Json | Cbor | MsgPack | CborZstd | CborCompact | CborCompactZstd

record ('op, 'key) wal_lib =
  wal_cbor :: bool
  wal_msgpack :: bool
  wal_zstd :: bool
  json_op_vec :: "'op \<Rightarrow> bytes option"
  json_ops_vec :: "'op list \<Rightarrow> bytes option"
  json_value_vec :: "json \<Rightarrow> bytes option"
  json_op_str :: "nat list \<Rightarrow> 'op option"
  json_ops_str :: "nat list \<Rightarrow> 'op list option"
  json_ops_slice :: "bytes \<Rightarrow> 'op list option"
  json_value_slice :: "bytes \<Rightarrow> json option"
  to_value :: "'op list \<Rightarrow> json option"
  from_value :: "json \<Rightarrow> 'op list option"
  cbor_write_ops :: "'op list \<Rightarrow> bytes option"
  cbor_read_ops :: "bytes \<Rightarrow> 'op list option"
  cbor_write_json :: "json \<Rightarrow> bytes option"
  cbor_write :: "cbor \<Rightarrow> bytes option"
  cbor_read :: "bytes \<Rightarrow> cbor option"
  rmp_write_ops :: "'op list \<Rightarrow> bytes option"
  rmp_read_ops :: "bytes \<Rightarrow> 'op list option"
  rmp_write_json :: "json \<Rightarrow> bytes option"
  zstd_bulk_compress :: "bytes \<Rightarrow> bytes option"
  zstd_content_size :: "bytes \<Rightarrow> nat option"
  zstd_bulk_decompress :: "bytes \<Rightarrow> nat \<Rightarrow> bytes option"
  seal_bytes :: "'key \<Rightarrow> bytes \<Rightarrow> bytes \<Rightarrow> bytes option"
  open_bytes :: "'key \<Rightarrow> bytes \<Rightarrow> bytes \<Rightarrow> bytes option"

datatype wal_error =
  EncodeFailure | NotCompiled wal_format | RecordTooLong | UnsupportedVersion u8 | UnknownTag u8 | ReadFailure
| EncryptedNeedsKey | NotEncrypted | KeyCheckDamaged | WrongKey | DoesNotDecrypt nat | CorruptRecord nat | QueuedUndecodable

definition or_fail :: "'e \<Rightarrow> 'a option \<Rightarrow> 'e + 'a" where
  "or_fail e x = (case x of None \<Rightarrow> Inl e | Some y \<Rightarrow> Inr y)"

definition compiled_in :: "('op, 'key) wal_lib \<Rightarrow> wal_format \<Rightarrow> bool" where
  "compiled_in L format =
     (case format of
        Json \<Rightarrow> True | Cbor \<Rightarrow> wal_cbor L | MsgPack \<Rightarrow> wal_msgpack L | CborZstd \<Rightarrow> wal_zstd L
      | CborCompact \<Rightarrow> wal_cbor L | CborCompactZstd \<Rightarrow> wal_zstd L)"

section \<open>Checksums and frames\<close>

definition crc_bit :: "u32 \<Rightarrow> u32" where
  "crc_bit c = (if c AND 1 \<noteq> 0 then 0xEDB88320 XOR drop_bit 1 c else drop_bit 1 c)"

definition crc_entry :: "u32 \<Rightarrow> u32" where
  "crc_entry i = (crc_bit ^^ 8) i"

definition TABLE :: "u32 list" where
  "TABLE = map (\<lambda>i. crc_entry (of_nat i)) [0..<256]"

definition crc_step :: "u32 \<Rightarrow> u8 \<Rightarrow> u32" where
  "crc_step crc b = TABLE ! unat ((crc XOR ucast b) AND 0xFF) XOR drop_bit 8 crc"

definition crc32 :: "bytes \<Rightarrow> u32" where
  "crc32 bs = NOT (foldl crc_step 0xFFFFFFFF bs)"

definition to_le_bytes :: "u32 \<Rightarrow> bytes" where
  "to_le_bytes x = map (\<lambda>k. ucast (drop_bit (8 * k) x)) [0, 1, 2, 3]"

fun from_le_bytes :: "bytes \<Rightarrow> u32" where
  "from_le_bytes [] = 0"
| "from_le_bytes (b # bs) = ucast b OR push_bit 8 (from_le_bytes bs)"

definition FRAME_LEN :: nat where
  "FRAME_LEN = 8"

definition frame :: "bytes \<Rightarrow> wal_error + bytes" where
  "frame payload =
     (if length payload < 2 ^ 32
      then Inr (to_le_bytes (of_nat (length payload)) @ to_le_bytes (crc32 payload) @ payload)
      else Inl RecordTooLong)"

datatype 'op log_record = Ops "'op list" nat | Invalid nat | Incomplete | Undecryptable nat

definition read_frame :: "bytes \<Rightarrow> nat \<Rightarrow> 'op log_record + bytes \<times> nat" where
  "read_frame bs pos =
     (let rest = drop pos bs in
      if length rest < FRAME_LEN then Inl Incomplete
      else
        (let len = unat (from_le_bytes (take 4 rest));
             crc = from_le_bytes (take 4 (drop 4 rest));
             end = FRAME_LEN + len
         in if length rest < end then Inl Incomplete
            else
              (let payload = take len (drop FRAME_LEN rest)
               in if crc32 payload \<noteq> crc then Inl (Invalid (pos + end)) else Inr (payload, pos + end))))"

section \<open>Payloads\<close>

definition ZSTD_MAX_RECORD :: nat where
  "ZSTD_MAX_RECORD = 2 ^ 30"

definition zstd_compress :: "('op, 'key) wal_lib \<Rightarrow> bytes \<Rightarrow> wal_error + bytes" where
  "zstd_compress L bs = or_fail EncodeFailure (zstd_bulk_compress L bs)"

definition zstd_decompress :: "('op, 'key) wal_lib \<Rightarrow> bytes \<Rightarrow> bytes option" where
  "zstd_decompress L bs =
     (case zstd_content_size L bs of
        Some n \<Rightarrow> if n \<le> ZSTD_MAX_RECORD then zstd_bulk_decompress L bs n else None
      | None \<Rightarrow> None)"

definition compact_encode :: "('op, 'key) wal_lib \<Rightarrow> json \<Rightarrow> wal_error + bytes" where
  "compact_encode L record = or_fail EncodeFailure (cbor_write L (compact_ops record))"

definition compact_decode :: "('op, 'key) wal_lib \<Rightarrow> bytes \<Rightarrow> json option" where
  "compact_decode L payload = Option.bind (cbor_read L payload) un_ops"

text \<open>The \<^verbatim>\<open>?\<close> operator.\<close>

definition and_then :: "'e + 'a \<Rightarrow> ('a \<Rightarrow> 'e + 'b) \<Rightarrow> 'e + 'b" where
  "and_then x f = (case x of Inl e \<Rightarrow> Inl e | Inr y \<Rightarrow> f y)"

function encode_value :: "('op, 'key) wal_lib \<Rightarrow> wal_format \<Rightarrow> json \<Rightarrow> wal_error + bytes" where
  "encode_value L format v =
     (if format = Json then or_fail EncodeFailure (json_value_vec L v)
      else if format = Cbor \<and> wal_cbor L then or_fail EncodeFailure (cbor_write_json L v)
      else if format = MsgPack \<and> wal_msgpack L then or_fail EncodeFailure (rmp_write_json L v)
      else if format = CborZstd \<and> wal_zstd L then and_then (encode_value L Cbor v) (zstd_compress L)
      else if format = CborCompact \<and> wal_cbor L then compact_encode L v
      else if format = CborCompactZstd \<and> wal_zstd L then and_then (compact_encode L v) (zstd_compress L)
      else Inl (NotCompiled format))"
  by auto
termination
  by (relation "measure (\<lambda>(L, format, v). if format = CborZstd then 1 else 0)") auto

function encode_ops :: "('op, 'key) wal_lib \<Rightarrow> wal_format \<Rightarrow> 'op list \<Rightarrow> wal_error + bytes" where
  "encode_ops L format ops =
     (if format = Cbor \<and> wal_cbor L then or_fail EncodeFailure (cbor_write_ops L ops)
      else if format = CborZstd \<and> wal_zstd L then and_then (encode_ops L Cbor ops) (zstd_compress L)
      else if format = MsgPack \<and> wal_msgpack L then or_fail EncodeFailure (rmp_write_ops L ops)
      else and_then (or_fail EncodeFailure (to_value L ops)) (encode_value L format))"
  by auto
termination
  by (relation "measure (\<lambda>(L, format, ops). if format = CborZstd then 1 else 0)") auto

declare encode_value.simps [simp del] encode_ops.simps [simp del]

definition decode_ops :: "('op, 'key) wal_lib \<Rightarrow> wal_format \<Rightarrow> bytes \<Rightarrow> 'op list option" where
  "decode_ops L format payload =
     (if format = Cbor \<and> wal_cbor L then cbor_read_ops L payload
      else if format = MsgPack \<and> wal_msgpack L then rmp_read_ops L payload
      else if format = CborZstd \<and> wal_zstd L then Option.bind (zstd_decompress L payload) (cbor_read_ops L)
      else
        Option.bind
          (if format = Json then json_value_slice L payload
           else if format = CborCompact \<and> wal_cbor L then compact_decode L payload
           else if format = CborCompactZstd \<and> wal_zstd L then Option.bind (zstd_decompress L payload) (compact_decode L)
           else None)
          (from_value L))"

definition record_payload :: "('op, 'key) wal_lib \<Rightarrow> wal_format \<Rightarrow> 'op list \<Rightarrow> wal_error + bytes" where
  "record_payload L format ops =
     (if format = Json then or_fail EncodeFailure (json_ops_vec L ops) else encode_ops L format ops)"

section \<open>JSON lines\<close>

text \<open>\<^verbatim>\<open>std::str::from_utf8\<close> as the scalar values of a text, and \<^verbatim>\<open>str::trim\<close>.\<close>

definition utf8_cont :: "u8 \<Rightarrow> bool" where
  "utf8_cont b = (0x80 \<le> b \<and> b \<le> 0xBF)"

definition utf8_lead3 :: "u8 \<Rightarrow> u8 \<Rightarrow> bool" where
  "utf8_lead3 a b =
     (a = 0xE0 \<and> 0xA0 \<le> b \<and> b \<le> 0xBF \<or> 0xE1 \<le> a \<and> a \<le> 0xEC \<and> utf8_cont b \<or>
      a = 0xED \<and> 0x80 \<le> b \<and> b \<le> 0x9F \<or> 0xEE \<le> a \<and> a \<le> 0xEF \<and> utf8_cont b)"

definition utf8_lead4 :: "u8 \<Rightarrow> u8 \<Rightarrow> bool" where
  "utf8_lead4 a b =
     (a = 0xF0 \<and> 0x90 \<le> b \<and> b \<le> 0xBF \<or> 0xF1 \<le> a \<and> a \<le> 0xF3 \<and> utf8_cont b \<or> a = 0xF4 \<and> 0x80 \<le> b \<and> b \<le> 0x8F)"

fun from_utf8 :: "bytes \<Rightarrow> nat list option" where
  "from_utf8 [] = Some []"
| "from_utf8 (a # bs) =
     (if a < 0x80 then map_option (Cons (unat a)) (from_utf8 bs)
      else case bs of
        [] \<Rightarrow> None
      | b # cs \<Rightarrow>
          if 0xC2 \<le> a \<and> a \<le> 0xDF \<and> utf8_cont b
          then map_option (Cons ((unat a - 0xC0) * 64 + (unat b - 0x80))) (from_utf8 cs)
          else case cs of
            [] \<Rightarrow> None
          | c # ds \<Rightarrow>
              if utf8_lead3 a b \<and> utf8_cont c
              then map_option (Cons (((unat a - 0xE0) * 64 + (unat b - 0x80)) * 64 + (unat c - 0x80))) (from_utf8 ds)
              else case ds of
                [] \<Rightarrow> None
              | d # es \<Rightarrow>
                  if utf8_lead4 a b \<and> utf8_cont c \<and> utf8_cont d
                  then map_option
                         (Cons ((((unat a - 0xF0) * 64 + (unat b - 0x80)) * 64 + (unat c - 0x80)) * 64 + (unat d - 0x80)))
                         (from_utf8 es)
                  else None)"

definition is_whitespace :: "nat \<Rightarrow> bool" where
  "is_whitespace c =
     (9 \<le> c \<and> c \<le> 13 \<or> c \<in> {0x20, 0x85, 0xA0, 0x1680, 0x2028, 0x2029, 0x202F, 0x205F, 0x3000} \<or> 0x2000 \<le> c \<and> c \<le> 0x200A)"

definition trim :: "nat list \<Rightarrow> nat list" where
  "trim s = rev (dropWhile is_whitespace (rev (dropWhile is_whitespace s)))"

definition parse_json_line :: "('op, 'key) wal_lib \<Rightarrow> bytes \<Rightarrow> 'op list option" where
  "parse_json_line L line =
     (case from_utf8 line of
        None \<Rightarrow> None
      | Some s \<Rightarrow>
          (let text = trim s
           in if text = [] then Some []
              else if hd text = 0x5B then json_ops_str L text
              else map_option (\<lambda>op. [op]) (json_op_str L text)))"

section \<open>Records\<close>

definition encode_record :: "('op, 'key) wal_lib \<Rightarrow> wal_format \<Rightarrow> 'op list \<Rightarrow> wal_error + bytes" where
  "encode_record L format ops =
     (if ops = [] then Inr []
      else if format = Json
      then and_then (or_fail EncodeFailure (case ops of [op] \<Rightarrow> json_op_vec L op | many \<Rightarrow> json_ops_vec L many)) (\<lambda>line. Inr (line @ [10]))
      else and_then (encode_ops L format ops) frame)"

definition read_record :: "('op, 'key) wal_lib \<Rightarrow> wal_format \<Rightarrow> bytes \<Rightarrow> nat \<Rightarrow> 'op log_record" where
  "read_record L format bs pos =
     (if format = Json then
        (let (line_end, next) =
               (case position 10 (drop pos bs) of Some i \<Rightarrow> (pos + i, pos + i + 1) | None \<Rightarrow> (length bs, length bs))
         in case parse_json_line L (take (line_end - pos) (drop pos bs)) of
              Some ops \<Rightarrow> Ops ops next
            | None \<Rightarrow> Invalid next)
      else
        case read_frame bs pos of
          Inl r \<Rightarrow> r
        | Inr (payload, next) \<Rightarrow> (case decode_ops L format payload of Some ops \<Rightarrow> Ops ops next | None \<Rightarrow> Invalid next))"

text \<open>The contexts a sealed value is bound to.\<close>

definition ascii :: "string \<Rightarrow> bytes" where
  "ascii s = map (\<lambda>c. of_nat (of_char c)) s"

definition RECORD_CONTEXT :: bytes where
  "RECORD_CONTEXT = ascii ''drevo wal record''"

definition CHECK_CONTEXT :: bytes where
  "CHECK_CONTEXT = ascii ''drevo wal key check''"

definition CHECK_TEXT :: bytes where
  "CHECK_TEXT = ascii ''drevo''"

definition seal_with :: "('op, 'key) wal_lib \<Rightarrow> 'key \<Rightarrow> bytes \<Rightarrow> bytes \<Rightarrow> wal_error + bytes" where
  "seal_with L key context plaintext = or_fail EncodeFailure (seal_bytes L key context plaintext)"

definition encode_record_with :: "('op, 'key) wal_lib \<Rightarrow> wal_format \<Rightarrow> 'key option \<Rightarrow> 'op list \<Rightarrow> wal_error + bytes" where
  "encode_record_with L format key ops =
     (case key of
        None \<Rightarrow> encode_record L format ops
      | Some key \<Rightarrow>
          if ops = [] then Inr []
          else and_then (and_then (record_payload L format ops) (seal_with L key RECORD_CONTEXT)) frame)"

definition read_sealed_record :: "('op, 'key) wal_lib \<Rightarrow> wal_format \<Rightarrow> 'key \<Rightarrow> bytes \<Rightarrow> nat \<Rightarrow> 'op log_record" where
  "read_sealed_record L format key bs pos =
     (case read_frame bs pos of
        Inl r \<Rightarrow> r
      | Inr (sealed, next) \<Rightarrow>
          (case open_bytes L key RECORD_CONTEXT sealed of
             None \<Rightarrow> Undecryptable next
           | Some opened \<Rightarrow>
               (case (if format = Json then json_ops_slice L opened else decode_ops L format opened) of
                  Some ops \<Rightarrow> Ops ops next
                | None \<Rightarrow> Invalid next)))"

definition read_any :: "('op, 'key) wal_lib \<Rightarrow> wal_format \<Rightarrow> 'key option \<Rightarrow> bytes \<Rightarrow> nat \<Rightarrow> 'op log_record" where
  "read_any L format seal bs pos =
     (case seal of Some key \<Rightarrow> read_sealed_record L format key bs pos | None \<Rightarrow> read_record L format bs pos)"

definition decode_record_with :: "('op, 'key) wal_lib \<Rightarrow> wal_format \<Rightarrow> 'key option \<Rightarrow> bytes \<Rightarrow> wal_error + 'op list" where
  "decode_record_with L format key bs = (case read_any L format key bs 0 of Ops ops _ \<Rightarrow> Inr ops | _ \<Rightarrow> Inl QueuedUndecodable)"

section \<open>Headers\<close>

definition MAGIC :: bytes where
  "MAGIC = ascii ''DRVWAL''"

definition HEADER_VERSION :: u8 where
  "HEADER_VERSION = 1"

definition SEALED_VERSION :: u8 where
  "SEALED_VERSION = 2"

definition HEADER_LEN :: nat where
  "HEADER_LEN = 8"

fun tag :: "wal_format \<Rightarrow> u8" where
  "tag Json = 0x4A"
| "tag Cbor = 0x43"
| "tag MsgPack = 0x4D"
| "tag CborZstd = 0x5A"
| "tag CborCompact = 0x4B"
| "tag CborCompactZstd = 0x58"

definition header :: "wal_format \<Rightarrow> bytes" where
  "header format = (if format = Json then [] else MAGIC @ [HEADER_VERSION, tag format])"

definition log_header :: "('op, 'key) wal_lib \<Rightarrow> wal_format \<Rightarrow> 'key option \<Rightarrow> wal_error + bytes" where
  "log_header L format key =
     (case key of
        None \<Rightarrow> Inr (header format)
      | Some key \<Rightarrow>
          and_then (and_then (seal_with L key CHECK_CONTEXT CHECK_TEXT) frame)
            (\<lambda>check. Inr (MAGIC @ [SEALED_VERSION, tag format] @ check)))"

datatype detected = Log wal_format nat bool | TornHeader

definition is_header_prefix :: "bytes \<Rightarrow> bool" where
  "is_header_prefix bs = (take (length MAGIC) bs = take (length bs) MAGIC)"

definition untag :: "bool \<Rightarrow> u8 \<Rightarrow> wal_format option" where
  "untag sealed t =
     (if t = 0x4A \<and> sealed then Some Json
      else if t = 0x43 then Some Cbor else if t = 0x4D then Some MsgPack else if t = 0x5A then Some CborZstd
      else if t = 0x4B then Some CborCompact else if t = 0x58 then Some CborCompactZstd else None)"

definition detect :: "('op, 'key) wal_lib \<Rightarrow> bytes \<Rightarrow> wal_error + detected" where
  "detect L bs =
     (if length bs < HEADER_LEN then
        if bs \<noteq> [] \<and> is_header_prefix bs then Inr TornHeader else Inr (Log Json 0 False)
      else if take (length MAGIC) bs \<noteq> MAGIC then Inr (Log Json 0 False)
      else
        (let version = bs ! length MAGIC; t = bs ! (length MAGIC + 1) in
         if version \<noteq> HEADER_VERSION \<and> version \<noteq> SEALED_VERSION then Inl (UnsupportedVersion version)
         else
           (let sealed = (version = SEALED_VERSION) in
            case untag sealed t of
              None \<Rightarrow> Inl (UnknownTag t)
            | Some format \<Rightarrow>
                if compiled_in L format then Inr (Log format HEADER_LEN sealed) else Inl (NotCompiled format))))"

section \<open>Reading a log chunk by chunk\<close>

text \<open>
  A reader is the list of what its calls deliver: a piece of the file, or an I/O error. A call for \<open>n\<close> bytes may get
  fewer; no bytes means the end of the file.
\<close>

type_synonym reader = "bytes option list"

fun rd_read :: "nat \<Rightarrow> reader \<Rightarrow> (bytes \<times> reader) option" where
  "rd_read n [] = Some ([], [])"
| "rd_read n (None # r) = None"
| "rd_read n (Some p # r) = Some (take n p, if n < length p then Some (drop n p) # r else r)"

function fill_loop :: "nat \<Rightarrow> bytes \<Rightarrow> reader \<Rightarrow> (bytes \<times> bool \<times> reader) option" where
  "fill_loop chunk got r =
     (if length got < chunk then
        (case rd_read (chunk - length got) r of
           None \<Rightarrow> None
         | Some (p, r) \<Rightarrow> if p = [] then Some (got, True, r) else fill_loop chunk (got @ p) r)
      else Some (got, False, r))"
  by auto
termination
  by (relation "measure (\<lambda>(chunk, got, r). chunk - length got)") (auto simp: neq_Nil_conv)

declare fill_loop.simps [simp del]

text \<open>The window on the file: the bytes held, the offset of the first, the position in them, and the reader.\<close>

record window =
  w_buf :: bytes
  w_base :: nat
  w_pos :: nat
  w_eof :: bool
  w_rd :: reader

definition fill :: "nat \<Rightarrow> window \<Rightarrow> (bool \<times> window) option" where
  "fill chunk w =
     (if w_eof w then Some (False, w)
      else
        (case fill_loop (max chunk 1) [] (w_rd w) of
           None \<Rightarrow> None
         | Some (got, ended, r) \<Rightarrow> Some (got \<noteq> [], w\<lparr>w_buf := w_buf w @ got, w_eof := ended, w_rd := r\<rparr>)))"

definition unread :: "reader \<Rightarrow> nat" where
  "unread r = sum_list (map (\<lambda>p. case p of None \<Rightarrow> 0 | Some b \<Rightarrow> length b) r)"

lemma unread_simps [simp]: "unread [] = 0" "unread (None # r) = unread r" "unread (Some p # r) = length p + unread r"
  by (simp_all add: unread_def)

lemma rd_read_unread: "rd_read n r = Some (p, r') \<Longrightarrow> length p + unread r' = unread r"
  by (cases r rule: list.exhaust; cases "hd r") auto

lemma fill_loop_unread: "fill_loop chunk got r = Some (got', ended, r') \<Longrightarrow> length got' + unread r' = length got + unread r"
proof (induction chunk got r rule: fill_loop.induct)
  case (1 chunk got r)
  show ?case
  proof (cases "length got < chunk")
    case True
    then obtain p r1 where "rd_read (chunk - length got) r = Some (p, r1)"
      using 1(2) by (auto simp: fill_loop.simps [of chunk got] split: option.splits)
    with 1 True rd_read_unread [OF this] show ?thesis
      by (cases "p = []") (auto simp: fill_loop.simps [of chunk got])
  next
    case False
    with 1(2) show ?thesis
      by (simp add: fill_loop.simps [of chunk got])
  qed
qed

lemma fill_loop_short: "fill_loop chunk got r = Some (got', ended, r') \<Longrightarrow> ended \<or> chunk \<le> length got'"
proof (induction chunk got r rule: fill_loop.induct)
  case (1 chunk got r)
  then show ?case
    by (auto simp: fill_loop.simps [of chunk got] split: if_splits option.splits) blast
qed

text \<open>Progress of the reader: every fill that is not at the end shrinks this measure.\<close>

definition to_come :: "window \<Rightarrow> nat" where
  "to_come w = 2 * unread (w_rd w) + (if w_eof w then 0 else 1)"

lemma fill_to_come:
  assumes "fill chunk w = Some (grew, w')"
  shows "to_come w' < to_come w \<or> w_eof w \<and> \<not> grew \<and> w' = w" and "grew \<Longrightarrow> to_come w' < to_come w"
  using assms fill_loop_unread [of "max chunk 1" "[]" "w_rd w"] fill_loop_short [of "max chunk 1" "[]" "w_rd w"]
  by (fastforce simp: fill_def to_come_def neq_Nil_conv split: if_splits option.splits)+

datatype replayed = ReplayTornHeader | ReplayEmpty | ReplayLog wal_format nat bool bool

definition REPLAY_CHUNK :: nat where
  "REPLAY_CHUNK = 4 * 2 ^ 20"

definition ascii_whitespace :: "u8 \<Rightarrow> bool" where
  "ascii_whitespace b = (b \<in> {0x20, 0x09, 0x0A, 0x0C, 0x0D})"

text \<open>Whether bytes after an invalid record mean that it is not the last one.\<close>

definition follows :: "wal_format \<Rightarrow> 'key option \<Rightarrow> bytes \<Rightarrow> bool" where
  "follows format seal bs = (if format = Json \<and> seal = None then \<not> list_all ascii_whitespace bs else bs \<noteq> [])"

text \<open>The end of the log after an invalid record: whether anything follows in the rest of the file.\<close>

function follows_rest :: "wal_format \<Rightarrow> 'key option \<Rightarrow> nat \<Rightarrow> bool \<Rightarrow> window \<Rightarrow> bool option" where
  "follows_rest format seal chunk found w =
     (if found then Some True
      else
        (case fill chunk (w\<lparr>w_buf := []\<rparr>) of
           None \<Rightarrow> None
         | Some (grew, w) \<Rightarrow> if grew then follows_rest format seal chunk (follows format seal (w_buf w)) w else Some False))"
  by auto
termination
  by (relation "measure (\<lambda>(format, seal, chunk, found, w). to_come w)") (auto dest!: fill_to_come(2) simp: to_come_def)

declare follows_rest.simps [simp del]

lemma position_bound: "position x xs = Some i \<Longrightarrow> i < length xs"
  by (auto dest: position_SomeD)

lemma read_frame_next: "read_frame bs pos = Inr (payload, next) \<Longrightarrow> pos < next \<and> next \<le> length bs"
  by (auto simp: read_frame_def Let_def FRAME_LEN_def split: if_splits)

lemma read_any_Ops: "read_any L format seal bs pos = Ops ops next \<Longrightarrow> pos < length bs \<Longrightarrow> pos < next \<and> next \<le> length bs"
  by (auto simp: read_any_def read_sealed_record_def read_record_def read_frame_def Let_def FRAME_LEN_def
      dest: position_bound split: option.splits if_splits sum.splits)

definition slide :: "window \<Rightarrow> window" where
  "slide w = w\<lparr>w_buf := drop (w_pos w) (w_buf w), w_base := w_base w + w_pos w, w_pos := 0\<rparr>"

definition add_ops :: "'op list \<Rightarrow> 'r \<times> 'op list \<Rightarrow> 'r \<times> 'op list" where
  "add_ops ops out = (fst out, ops @ snd out)"

lemma to_come_slide [simp]: "to_come (slide w) = to_come w" "to_come (w_buf_update f w) = to_come w" "to_come (w_pos_update g w) = to_come w"
  by (simp_all add: to_come_def slide_def)

lemma slide_eof [simp]: "w_eof (slide w) = w_eof w"
  by (simp add: slide_def)

function replay_loop ::
    "('op, 'key) wal_lib \<Rightarrow> wal_format \<Rightarrow> 'key option \<Rightarrow> nat \<Rightarrow> window \<Rightarrow> nat \<Rightarrow> (wal_error + replayed) \<times> 'op list" where
  "replay_loop L format seal chunk w valid_end =
     (if length (w_buf w) \<le> w_pos w then
        (case fill chunk (slide w) of
           None \<Rightarrow> (Inl ReadFailure, [])
         | Some (grew, w) \<Rightarrow>
             if grew then replay_loop L format seal chunk w valid_end
             else (Inr (ReplayLog format valid_end False (seal \<noteq> None)), []))
      else if seal = None \<and> format = Json \<and> \<not> w_eof w \<and> 10 \<notin> set (drop (w_pos w) (w_buf w)) then
        (case fill chunk (slide w) of
           None \<Rightarrow> (Inl ReadFailure, [])
         | Some (_, w) \<Rightarrow> replay_loop L format seal chunk w valid_end)
      else
        (case read_any L format seal (w_buf w) (w_pos w) of
           Ops ops next \<Rightarrow>
             add_ops ops (replay_loop L format seal chunk (w\<lparr>w_pos := next\<rparr>) (w_base w + next))
         | Undecryptable _ \<Rightarrow> (Inl (DoesNotDecrypt (w_base w + w_pos w)), [])
         | Incomplete \<Rightarrow>
             if w_eof w then (Inr (ReplayLog format valid_end True (seal \<noteq> None)), [])
             else
               (case fill chunk (slide w) of
                  None \<Rightarrow> (Inl ReadFailure, [])
                | Some (_, w) \<Rightarrow> replay_loop L format seal chunk w valid_end)
         | Invalid next \<Rightarrow>
             (case follows_rest format seal chunk (follows format seal (drop next (w_buf w))) w of
                None \<Rightarrow> (Inl ReadFailure, [])
              | Some True \<Rightarrow> (Inl (CorruptRecord (w_base w + w_pos w)), [])
              | Some False \<Rightarrow> (Inr (ReplayLog format valid_end True (seal \<noteq> None)), []))))"
  by auto

termination
proof (relation "measures [\<lambda>(L, format, seal, chunk, w, v). to_come w, \<lambda>(L, format, seal, chunk, w, v). length (w_buf w) - w_pos w]",
    goal_cases)
  case (4 L format seal chunk w valid_end ops n)
  then show ?case
    using read_any_Ops [of L format seal "w_buf w" "w_pos w" ops n] by auto
qed (auto dest: fill_to_come)

declare replay_loop.simps [simp del]

text \<open>Filling the window up to a size, unless the file ends before.\<close>

function fill_to :: "nat \<Rightarrow> nat \<Rightarrow> window \<Rightarrow> window option" where
  "fill_to n chunk w =
     (if length (w_buf w) < n then
        (case fill chunk w of
           None \<Rightarrow> None
         | Some (grew, w) \<Rightarrow> if grew then fill_to n chunk w else Some w)
      else Some w)"
  by auto
termination
  by (relation "measure (\<lambda>(n, chunk, w). to_come w)") (auto dest: fill_to_come(2))

declare fill_to.simps [simp del]

text \<open>The key check that opens a sealed log: an early result, or the window behind it.\<close>

function key_check :: "('op, 'key) wal_lib \<Rightarrow> 'key \<Rightarrow> nat \<Rightarrow> window \<Rightarrow> (wal_error + replayed) + window" where
  "key_check L key chunk w =
     (case (read_frame (w_buf w) (w_pos w) :: 'op log_record + bytes \<times> nat) of
        Inl Incomplete \<Rightarrow>
          if w_eof w then Inl (Inr ReplayTornHeader)
          else (case fill chunk w of None \<Rightarrow> Inl (Inl ReadFailure) | Some (_, w) \<Rightarrow> key_check L key chunk w)
      | Inl _ \<Rightarrow> Inl (Inl KeyCheckDamaged)
      | Inr (check, next) \<Rightarrow>
          if open_bytes L key CHECK_CONTEXT check \<noteq> Some CHECK_TEXT then Inl (Inl WrongKey) else Inr (w\<lparr>w_pos := next\<rparr>))"
  by auto
termination
  by (relation "measure (\<lambda>(L, key, chunk, w). to_come w)") (auto dest: fill_to_come(1))

declare key_check.simps [simp del]

definition replay :: "('op, 'key) wal_lib \<Rightarrow> nat \<Rightarrow> 'key option \<Rightarrow> reader \<Rightarrow> (wal_error + replayed) \<times> 'op list" where
  "replay L chunk key r =
     (case fill_to HEADER_LEN chunk \<lparr>w_buf = [], w_base = 0, w_pos = 0, w_eof = False, w_rd = r\<rparr> of
        None \<Rightarrow> (Inl ReadFailure, [])
      | Some w \<Rightarrow>
          (case detect L (w_buf w) of
             Inl e \<Rightarrow> (Inl e, [])
           | Inr TornHeader \<Rightarrow> (Inr ReplayTornHeader, [])
           | Inr (Log format body_start sealed) \<Rightarrow>
               if w_buf w = [] then (Inr ReplayEmpty, [])
               else if sealed then
                 (case key of
                    None \<Rightarrow> (Inl EncryptedNeedsKey, [])
                  | Some k \<Rightarrow>
                      (case fill_to (body_start + FRAME_LEN) chunk (w\<lparr>w_pos := body_start\<rparr>) of
                         None \<Rightarrow> (Inl ReadFailure, [])
                       | Some w \<Rightarrow>
                           (case key_check L k chunk w of
                              Inl early \<Rightarrow> (early, [])
                            | Inr w \<Rightarrow> replay_loop L format (Some k) chunk w (w_pos w))))
               else if key \<noteq> None then (Inl NotEncrypted, [])
               else replay_loop L format None chunk (w\<lparr>w_pos := body_start\<rparr>) body_start))"

end
