(* ===== verification/Wal_Recovery.thy ===== *)
theory Wal_Recovery
  imports Wal_Format
begin

text \<open>
  What a replay of the log promises: it does not depend on the size of the chunks or on how the file system cuts the
  reads; it returns exactly the records that were written, up to a torn tail; and a changed byte in a record that is
  not the last is found.
\<close>

section \<open>Reading the whole file at once\<close>

function scan :: "('op, 'key) wal_lib \<Rightarrow> wal_format \<Rightarrow> 'key option \<Rightarrow> bytes \<Rightarrow> nat \<Rightarrow> (wal_error + replayed) \<times> 'op list" where
  "scan L format seal rest off =
     (if rest = [] then (Inr (ReplayLog format off False (seal \<noteq> None)), [])
      else
        (case read_any L format seal rest 0 of
           Ops ops n \<Rightarrow> add_ops ops (scan L format seal (drop n rest) (off + n))
         | Undecryptable _ \<Rightarrow> (Inl (DoesNotDecrypt off), [])
         | Incomplete \<Rightarrow> (Inr (ReplayLog format off True (seal \<noteq> None)), [])
         | Invalid n \<Rightarrow>
             if follows format seal (drop n rest) then (Inl (CorruptRecord off), [])
             else (Inr (ReplayLog format off True (seal \<noteq> None)), [])))"
  by auto
termination
  by (relation "measure (\<lambda>(L, format, seal, rest, off). length rest)") (auto dest: read_any_Ops)

declare scan.simps [simp del]

definition replay_whole :: "('op, 'key) wal_lib \<Rightarrow> 'key option \<Rightarrow> bytes \<Rightarrow> (wal_error + replayed) \<times> 'op list" where
  "replay_whole L key bs =
     (case detect L bs of
        Inl e \<Rightarrow> (Inl e, [])
      | Inr TornHeader \<Rightarrow> (Inr ReplayTornHeader, [])
      | Inr (Log format start sealed) \<Rightarrow>
          if bs = [] then (Inr ReplayEmpty, [])
          else
            (case (sealed, key) of
               (True, None) \<Rightarrow> (Inl EncryptedNeedsKey, [])
             | (False, Some _) \<Rightarrow> (Inl NotEncrypted, [])
             | (False, None) \<Rightarrow> scan L format None (drop start bs) start
             | (True, Some k) \<Rightarrow>
                 (case (read_frame bs start :: 'op log_record + bytes \<times> nat) of
                    Inl Incomplete \<Rightarrow> (Inr ReplayTornHeader, [])
                  | Inl _ \<Rightarrow> (Inl KeyCheckDamaged, [])
                  | Inr (check, n) \<Rightarrow>
                      if open_bytes L k CHECK_CONTEXT check \<noteq> Some CHECK_TEXT then (Inl WrongKey, [])
                      else scan L format (Some k) (drop n bs) n)))"

section \<open>Windows\<close>

definition reader_ok :: "reader \<Rightarrow> bool" where
  "reader_ok r = list_all (\<lambda>p. p \<noteq> None \<and> p \<noteq> Some []) r"

definition reader_bytes :: "reader \<Rightarrow> bytes" where
  "reader_bytes r = concat (map (case_option [] id) r)"

lemma reader_simps [simp]:
  "reader_ok []" "reader_ok (Some p # r) \<longleftrightarrow> p \<noteq> [] \<and> reader_ok r" "\<not> reader_ok (None # r)"
  "reader_bytes [] = []" "reader_bytes (Some p # r) = p @ reader_bytes r"
  by (simp_all add: reader_ok_def reader_bytes_def)

lemma reader_bytes_Nil: "reader_ok r \<Longrightarrow> reader_bytes r = [] \<Longrightarrow> r = []"
  by (cases r; cases "hd r") auto

lemma rd_read_ok:
  assumes "reader_ok r" and "0 < n"
  obtains p r' where "rd_read n r = Some (p, r')" "reader_ok r'" "p @ reader_bytes r' = reader_bytes r" "p = [] \<longleftrightarrow> r = []"
  using assms by (cases r; cases "hd r") auto

lemma fill_loop_ok:
  assumes "reader_ok r"
  obtains more ended r' where "fill_loop chunk got r = Some (got @ more, ended, r')" "reader_ok r'"
    "more @ reader_bytes r' = reader_bytes r" "ended \<longrightarrow> r' = []" "length got < chunk \<and> more = [] \<longrightarrow> ended"
  using assms
proof (induction chunk got r arbitrary: thesis rule: fill_loop.induct)
  case (1 chunk got r)
  show ?case
  proof (cases "length got < chunk")
    case True
    obtain p r' where p: "rd_read (chunk - length got) r = Some (p, r')" "reader_ok r'" "p @ reader_bytes r' = reader_bytes r" "p = [] \<longleftrightarrow> r = []"
      using rd_read_ok [OF 1(3), of "chunk - length got"] True by auto
    show ?thesis
    proof (cases "p = []")
      case True
      with p \<open>length got < chunk\<close> 1(2) [of "[]" True r'] show ?thesis
        by (simp add: fill_loop.simps [of chunk got])
    next
      case False
      obtain more ended r2 where "fill_loop chunk (got @ p) r' = Some ((got @ p) @ more, ended, r2)" "reader_ok r2"
          "more @ reader_bytes r2 = reader_bytes r'" "ended \<longrightarrow> r2 = []"
        using 1(1) [OF True p(1) refl False _ p(2)] by blast
      with False True p show ?thesis
        by (intro 1(2) [of "p @ more" ended r2]) (auto simp: fill_loop.simps [of chunk got])
    qed
  next
    case False
    with 1(2) [of "[]" False r] 1(3) show ?thesis
      by (simp add: fill_loop.simps [of chunk got])
  qed
qed

text \<open>What a window still has to deliver after its position.\<close>

definition window_ok :: "window \<Rightarrow> bool" where
  "window_ok w = (reader_ok (w_rd w) \<and> (w_eof w \<longrightarrow> w_rd w = []))"

definition ahead :: "window \<Rightarrow> bytes" where
  "ahead w = drop (w_pos w) (w_buf w) @ reader_bytes (w_rd w)"

lemma fill_ok:
  assumes "window_ok w"
  obtains got w' where "fill chunk w = Some (got \<noteq> [], w')" "window_ok w'" "w_buf w' = w_buf w @ got" "w_base w' = w_base w"
    "w_pos w' = w_pos w" "got @ reader_bytes (w_rd w') = reader_bytes (w_rd w)" "got = [] \<longrightarrow> w_eof w' \<and> w_rd w' = []"
proof (cases "w_eof w")
  case True
  with assms that [of "[]" w] show thesis
    by (simp add: fill_def window_ok_def)
next
  case False
  obtain more ended r' where f: "fill_loop (max chunk 1) [] (w_rd w) = Some (more, ended, r')" "reader_ok r'"
      "more @ reader_bytes r' = reader_bytes (w_rd w)" "ended \<longrightarrow> r' = []" "more = [] \<longrightarrow> ended"
    using assms by (elim fill_loop_ok [of "w_rd w" "max chunk 1" "[]", OF window_ok_def [THEN iffD1, THEN conjunct1]]) auto
  with False that [of more "w\<lparr>w_buf := w_buf w @ more, w_eof := ended, w_rd := r'\<rparr>"] show thesis
    by (simp add: fill_def window_ok_def)
qed

lemma slide_ok [simp]: "window_ok (slide w) = window_ok w" "ahead (slide w) = ahead w" "w_pos (slide w) = 0"
  "w_base (slide w) = w_base w + w_pos w" "w_buf (slide w) = drop (w_pos w) (w_buf w)" "w_rd (slide w) = w_rd w"
  by (simp_all add: slide_def window_ok_def ahead_def)

section \<open>Records in a window\<close>

fun shift_record :: "nat \<Rightarrow> 'op log_record \<Rightarrow> 'op log_record" where
  "shift_record k (Ops ops n) = Ops ops (k + n)"
| "shift_record k (Invalid n) = Invalid (k + n)"
| "shift_record k (Undecryptable n) = Undecryptable (k + n)"
| "shift_record k Incomplete = Incomplete"

lemma shift_record_Incomplete [simp]: "shift_record k r = Incomplete \<longleftrightarrow> r = Incomplete"
  by (cases r) auto

lemma read_frame_shift:
  "pos \<le> length bs \<Longrightarrow> read_frame bs pos = map_sum (shift_record pos) (map_prod id ((+) pos)) (read_frame (drop pos bs) 0)"
  by (simp add: read_frame_def Let_def)

lemma read_any_shift:
  assumes "pos \<le> length bs"
  shows "read_any L format seal bs pos = shift_record pos (read_any L format seal (drop pos bs) 0)"
  using assms
  by (auto simp: read_any_def read_sealed_record_def read_record_def read_frame_shift [OF assms] Let_def
      split: option.splits sum.splits prod.splits)

lemma position_append: "x \<in> set xs \<Longrightarrow> position x (xs @ ys) = position x xs"
  by (induction xs) auto

lemma position_None: "position x xs = None \<longleftrightarrow> x \<notin> set xs"
  by (induction xs) auto

lemma read_frame_extend:
  "read_frame w 0 \<noteq> (Inl Incomplete :: 'op log_record + bytes \<times> nat) \<Longrightarrow>
    read_frame (w @ later) 0 = (read_frame w 0 :: 'op log_record + bytes \<times> nat)"
  by (auto simp: read_frame_def Let_def FRAME_LEN_def split: if_splits)

lemma read_any_extend:
  fixes L :: "('op, 'key) wal_lib"
  assumes "seal = None \<and> format = Json \<longrightarrow> 10 \<in> set w" and "read_any L format seal w 0 \<noteq> Incomplete"
  shows "read_any L format seal (w @ later) 0 = read_any L format seal w 0"
proof (cases "seal = None \<and> format = Json")
  case True
  with assms(1) obtain i where "position 10 w = Some i"
    using position_None [of 10 w] by fastforce
  with True assms(1) show ?thesis
    using position_bound [of 10 w i] by (simp add: read_any_def read_record_def position_append)
next
  case False
  then have "read_frame w 0 \<noteq> (Inl Incomplete :: 'op log_record + bytes \<times> nat)"
    using assms(2) by (cases seal) (auto simp: read_any_def read_sealed_record_def read_record_def)
  then have "read_frame (w @ later) 0 = (read_frame w 0 :: 'op log_record + bytes \<times> nat)"
    by (rule read_frame_extend)
  with False show ?thesis
    by (cases seal) (simp_all add: read_any_def read_sealed_record_def read_record_def)
qed

lemma read_any_Invalid: "read_any L format seal bs 0 = Invalid n \<Longrightarrow> n \<le> length bs"
  by (auto simp: read_any_def read_sealed_record_def read_record_def read_frame_def Let_def FRAME_LEN_def
      dest: position_bound split: option.splits if_splits sum.splits)

lemma read_ahead:
  assumes "window_ok w" and "w_pos w \<le> length (w_buf w)"
    and "\<not> (seal = None \<and> format = Json \<and> \<not> w_eof w \<and> 10 \<notin> set (drop (w_pos w) (w_buf w)))"
    and "read_any L format seal (w_buf w) (w_pos w) \<noteq> Incomplete \<or> w_eof w"
  shows "read_any L format seal (w_buf w) (w_pos w) = shift_record (w_pos w) (read_any L format seal (ahead w) 0)"
proof -
  let ?rest = "drop (w_pos w) (w_buf w)"
  have sh: "read_any L format seal (w_buf w) (w_pos w) = shift_record (w_pos w) (read_any L format seal ?rest 0)"
    by (rule read_any_shift [OF assms(2)])
  show ?thesis
  proof (cases "w_eof w")
    case True
    then show ?thesis
      using assms(1) sh by (simp add: ahead_def window_ok_def)
  next
    case False
    with assms(3,4) sh show ?thesis
      using read_any_extend [of seal format ?rest L "reader_bytes (w_rd w)"] by (auto simp: ahead_def)
  qed
qed

lemma follows_append: "follows format seal (xs @ ys) \<longleftrightarrow> follows format seal xs \<or> follows format seal ys"
  by (auto simp: follows_def)

lemma follows_rest_ok:
  "window_ok w \<Longrightarrow> follows_rest format seal chunk found w = Some (found \<or> follows format seal (reader_bytes (w_rd w)))"
proof (induction format seal chunk found w rule: follows_rest.induct)
  case (1 format seal chunk found w)
  show ?case
  proof (cases found)
    case True
    then show ?thesis
      by (simp add: follows_rest.simps)
  next
    case False
    have "window_ok (w\<lparr>w_buf := []\<rparr>)"
      using 1(2) by (simp add: window_ok_def)
    then obtain got w' where f: "fill chunk (w\<lparr>w_buf := []\<rparr>) = Some (got \<noteq> [], w')" "window_ok w'" "w_buf w' = got"
        "got @ reader_bytes (w_rd w') = reader_bytes (w_rd w)" "got = [] \<longrightarrow> w_rd w' = []"
      by (elim fill_ok [of "w\<lparr>w_buf := []\<rparr>" chunk]) auto
    have "follows_rest format seal chunk (follows format seal got) w' =
        Some (follows format seal got \<or> follows format seal (reader_bytes (w_rd w')))" if "got \<noteq> []"
      using 1(1) [OF False f(1) refl] that f(2,3) by simp
    then show ?thesis
      using False f(1,3,5) by (simp add: follows_rest.simps [of format seal chunk False] f(4) [symmetric] follows_append)
        (simp add: follows_def)
  qed
qed

section \<open>Chunks do not matter\<close>

text \<open>A window that holds the next record, or the end of the file.\<close>

definition settled_window :: "('op, 'key) wal_lib \<Rightarrow> wal_format \<Rightarrow> 'key option \<Rightarrow> window \<Rightarrow> bool" where
  "settled_window L format seal w =
     (w_pos w < length (w_buf w) \<and>
      \<not> (seal = None \<and> format = Json \<and> \<not> w_eof w \<and> 10 \<notin> set (drop (w_pos w) (w_buf w))) \<and>
      (read_any L format seal (w_buf w) (w_pos w) \<noteq> Incomplete \<or> w_eof w))"

lemma replay_loop_settled:
  assumes "window_ok w" and "settled_window L format seal w"
  shows "replay_loop L format seal chunk w v =
    (case read_any L format seal (ahead w) 0 of
       Ops ops n \<Rightarrow> add_ops ops (replay_loop L format seal chunk (w\<lparr>w_pos := w_pos w + n\<rparr>) (w_base w + (w_pos w + n)))
     | Undecryptable _ \<Rightarrow> (Inl (DoesNotDecrypt (w_base w + w_pos w)), [])
     | Incomplete \<Rightarrow> (Inr (ReplayLog format v True (seal \<noteq> None)), [])
     | Invalid n \<Rightarrow>
         if follows format seal (drop n (ahead w)) then (Inl (CorruptRecord (w_base w + w_pos w)), [])
         else (Inr (ReplayLog format v True (seal \<noteq> None)), []))"
proof -
  let ?rest = "drop (w_pos w) (w_buf w)"
  have r: "read_any L format seal (w_buf w) (w_pos w) = shift_record (w_pos w) (read_any L format seal (ahead w) 0)"
    using read_ahead [of w seal format L] assms by (auto simp: settled_window_def)
  have "follows_rest format seal chunk (follows format seal (drop (w_pos w + n) (w_buf w))) w = Some (follows format seal (drop n (ahead w)))"
    if "read_any L format seal (ahead w) 0 = Invalid n" for n
  proof -
    have "read_any L format seal ?rest 0 = Invalid n"
      using r that read_any_shift [of "w_pos w" "w_buf w" L format seal] assms(2)
      by (cases "read_any L format seal ?rest 0") (auto simp: settled_window_def)
    then have "n \<le> length ?rest"
      by (rule read_any_Invalid)
    then have "drop n (ahead w) = drop (w_pos w + n) (w_buf w) @ reader_bytes (w_rd w)"
      by (simp add: ahead_def add.commute)
    then show ?thesis
      using follows_rest_ok [OF assms(1)] by (simp add: follows_append)
  qed
  with r assms(2) show ?thesis
    by (subst replay_loop.simps) (auto simp: settled_window_def split: log_record.splits)
qed

lemma replay_loop_scan:
  "window_ok w \<Longrightarrow> w_pos w \<le> length (w_buf w) \<Longrightarrow> v = w_base w + w_pos w \<Longrightarrow>
    replay_loop L format seal chunk w v = scan L format seal (ahead w) v"
proof (induction L format seal chunk w v rule: replay_loop.induct)
  case (1 L format seal chunk w v)
  have "window_ok (slide w)"
    using 1 by simp
  then obtain got w' where f: "fill chunk (slide w) = Some (got \<noteq> [], w')" "window_ok w'" "w_buf w' = drop (w_pos w) (w_buf w) @ got"
      "w_base w' = v" "w_pos w' = 0" "got @ reader_bytes (w_rd w') = reader_bytes (w_rd w)" "got = [] \<longrightarrow> w_rd w' = []"
    by (elim fill_ok [of "slide w" chunk]) (use 1 in auto)
  then have w': "ahead w' = ahead w"
    by (simp add: ahead_def)
  consider "length (w_buf w) \<le> w_pos w" | "\<not> length (w_buf w) \<le> w_pos w" "\<not> settled_window L format seal w" | "settled_window L format seal w"
    by blast
  then show ?case
  proof cases
    case 2
    have "replay_loop L format seal chunk w' v = scan L format seal (ahead w) v"
    proof (cases "seal = None \<and> format = Json \<and> \<not> w_eof w \<and> 10 \<notin> set (drop (w_pos w) (w_buf w))")
      case True
      show ?thesis
        using 1(2) [OF 2(1) True f(1) refl] f w' by simp
    next
      case False
      then show ?thesis
        using 1(4) [OF 2(1) False _ _ f(1) refl] 2 f w' by (simp add: settled_window_def)
    qed
    with 2 f(1) show ?thesis
      by (subst replay_loop.simps) (auto simp: settled_window_def)
  next
    case 3
    then have "w_pos w + n \<le> length (w_buf w)" if "read_any L format seal (ahead w) 0 = Ops ops n" for ops n
      using read_ahead [of w seal format L] that 1(5,6) read_any_Ops [of L format seal "w_buf w" "w_pos w" ops "w_pos w + n"]
      by (auto simp: settled_window_def)
    then have "replay_loop L format seal chunk (w\<lparr>w_pos := w_pos w + n\<rparr>) (v + n) = scan L format seal (drop n (ahead w)) (v + n)"
      if "read_any L format seal (ahead w) 0 = Ops ops n" for ops n
      using that 1(3) [of ops "w_pos w + n"] 1(5,6,7) 3 read_ahead [of w seal format L]
      by (auto simp: settled_window_def window_ok_def ahead_def add.assoc add.commute [of n])
    moreover have "ahead w \<noteq> []"
      using 3 by (auto simp: settled_window_def ahead_def)
    ultimately show ?thesis
      using replay_loop_settled [OF 1(5) 3] 1(7) by (subst scan.simps) (auto simp: add.assoc split: log_record.splits)
  qed (use f w' 1(1) [OF _ f(1) refl] in \<open>auto simp: replay_loop.simps [of L format seal chunk w] ahead_def scan.simps\<close>)
qed

lemma fill_to_ok:
  assumes "window_ok w"
  obtains w' where "fill_to n chunk w = Some w'" "window_ok w'" "w_base w' = w_base w" "w_pos w' = w_pos w"
    "w_buf w' @ reader_bytes (w_rd w') = w_buf w @ reader_bytes (w_rd w)" "n \<le> length (w_buf w') \<or> w_rd w' = []"
  using assms
proof (induction n chunk w arbitrary: thesis rule: fill_to.induct)
  case (1 n chunk w)
  show ?case
  proof (cases "length (w_buf w) < n")
    case True
    obtain got w' where f: "fill chunk w = Some (got \<noteq> [], w')" "window_ok w'" "w_buf w' = w_buf w @ got" "w_base w' = w_base w"
        "w_pos w' = w_pos w" "got @ reader_bytes (w_rd w') = reader_bytes (w_rd w)" "got = [] \<longrightarrow> w_rd w' = []"
      by (rule fill_ok [OF 1(3), of chunk]) blast
    show ?thesis
    proof (cases "got = []")
      case True
      with f \<open>length (w_buf w) < n\<close> show ?thesis
        by (intro 1(2) [of w']) (auto simp: fill_to.simps [of n chunk w])
    next
      case False
      obtain w2 where "fill_to n chunk w' = Some w2" "window_ok w2" "w_base w2 = w_base w'" "w_pos w2 = w_pos w'"
          "w_buf w2 @ reader_bytes (w_rd w2) = w_buf w' @ reader_bytes (w_rd w')" "n \<le> length (w_buf w2) \<or> w_rd w2 = []"
        using 1(1) [OF True f(1) refl False _ f(2)] by blast
      with f False True show ?thesis
        by (intro 1(2) [of w2]) (auto simp: fill_to.simps [of n chunk w])
    qed
  next
    case False
    with 1(2) [of w] 1(3) show ?thesis
      by (simp add: fill_to.simps [of n chunk w])
  qed
qed

lemma read_frame_ahead:
  assumes "window_ok w" and "w_pos w \<le> length (w_buf w)"
    and "read_frame (w_buf w) (w_pos w) \<noteq> (Inl Incomplete :: 'op log_record + bytes \<times> nat) \<or> w_eof w"
  shows "read_frame (w_buf w) (w_pos w) =
    (map_sum (shift_record (w_pos w)) (map_prod id ((+) (w_pos w))) (read_frame (ahead w) 0) :: 'op log_record + bytes \<times> nat)"
proof -
  let ?rest = "drop (w_pos w) (w_buf w)"
  have sh: "read_frame (w_buf w) (w_pos w) =
      (map_sum (shift_record (w_pos w)) (map_prod id ((+) (w_pos w))) (read_frame ?rest 0) :: 'op log_record + bytes \<times> nat)"
    by (rule read_frame_shift [OF assms(2)])
  show ?thesis
  proof (cases "w_eof w")
    case True
    then show ?thesis
      using assms(1) sh by (simp add: ahead_def window_ok_def)
  next
    case False
    then have "read_frame ?rest 0 \<noteq> (Inl Incomplete :: 'op log_record + bytes \<times> nat)"
      using assms(3) sh by auto
    from read_frame_extend [OF this, of "reader_bytes (w_rd w)"] sh show ?thesis
      by (simp add: ahead_def)
  qed
qed

text \<open>The result of the key check, from what the window still has to deliver.\<close>

lemma key_check_ok:
  fixes L :: "('op, 'key) wal_lib"
  assumes "window_ok w" and "w_pos w \<le> length (w_buf w)"
  shows "(case (read_frame (ahead w) 0 :: 'op log_record + bytes \<times> nat) of
      Inl Incomplete \<Rightarrow> key_check L key chunk w = Inl (Inr ReplayTornHeader)
    | Inl _ \<Rightarrow> key_check L key chunk w = Inl (Inl KeyCheckDamaged)
    | Inr (check, n) \<Rightarrow>
        if open_bytes L key CHECK_CONTEXT check \<noteq> Some CHECK_TEXT then key_check L key chunk w = Inl (Inl WrongKey)
        else \<exists>w'. key_check L key chunk w = Inr w' \<and> window_ok w' \<and> w_pos w' \<le> length (w_buf w') \<and> w_base w' = w_base w \<and>
          w_pos w' = w_pos w + n \<and> ahead w' = drop n (ahead w))"
  using assms
proof (induction L key chunk w rule: key_check.induct)
  case (1 L key chunk w)
  show ?case
  proof (cases "read_frame (w_buf w) (w_pos w) = (Inl Incomplete :: 'op log_record + bytes \<times> nat) \<and> \<not> w_eof w")
    case True
    obtain got w' where f: "fill chunk w = Some (got \<noteq> [], w')" "window_ok w'" "w_buf w' = w_buf w @ got" "w_base w' = w_base w"
        "w_pos w' = w_pos w" "got @ reader_bytes (w_rd w') = reader_bytes (w_rd w)"
      by (rule fill_ok [OF 1(2), of chunk]) blast
    have same: "ahead w = ahead w'" "key_check L key chunk w = key_check L key chunk w'" "w_base w = w_base w'" "w_pos w = w_pos w'"
      using True f 1(3) by (simp_all add: ahead_def key_check.simps [of L key chunk w])
    show ?thesis
      unfolding same by (rule 1(1) [OF _ _ _ f(1) refl]) (use True f 1(3) in simp_all)
  next
    case False
    with read_frame_ahead [OF 1(2,3)] have r: "read_frame (w_buf w) (w_pos w) =
        (map_sum (shift_record (w_pos w)) (map_prod id ((+) (w_pos w))) (read_frame (ahead w) 0) :: 'op log_record + bytes \<times> nat)"
      by blast
    show ?thesis
    proof (cases "read_frame (ahead w) 0 :: 'op log_record + bytes \<times> nat")
      case (Inl b)
      with r False show ?thesis
        by (cases b) (auto simp: key_check.simps [of L key chunk w])
    next
      case (Inr cn)
      then have "w_pos w + snd cn \<le> length (w_buf w)"
        using r read_frame_next [where 'a = 'op, of "w_buf w" "w_pos w" "fst cn" "w_pos w + snd cn"] by (simp add: prod_eq_iff map_prod_def case_prod_beta)
      with r Inr 1(2) show ?thesis
        by (auto simp: key_check.simps [of L key chunk w] window_ok_def ahead_def case_prod_beta add.commute)
    qed
  qed
qed

lemma detect_prefix:
  assumes "8 \<le> length bs \<or> later = []"
  shows "detect L (bs @ later) = detect L bs"
  using assms by (cases "later = []") (simp_all add: detect_def HEADER_LEN_def MAGIC_def ascii_def nth_append Let_def)

lemma detect_start: "detect L bs = Inr (Log format start sealed) \<Longrightarrow> start \<le> length bs \<and> (sealed \<longrightarrow> start = 8)"
  by (auto simp: detect_def HEADER_LEN_def Let_def split: if_splits option.splits)

text \<open>The part of a replay behind the header, for a plain and for a sealed log.\<close>

lemma plain_body:
  assumes "window_ok w" and "w_base w = 0" and "start \<le> length (w_buf w)"
  shows "replay_loop L format None chunk (w\<lparr>w_pos := start\<rparr>) start =
    scan L format None (drop start (w_buf w @ reader_bytes (w_rd w))) start"
  using replay_loop_scan [of "w\<lparr>w_pos := start\<rparr>" start L format None chunk] assms
  by (simp add: window_ok_def ahead_def)

lemma sealed_body:
  fixes L :: "('op, 'key) wal_lib"
  assumes "window_ok w" and "w_base w = 0" and "w_pos w \<le> length (w_buf w)" and "bs = w_buf w @ reader_bytes (w_rd w)"
  shows "(case key_check L k chunk w of Inl early \<Rightarrow> (early, []) | Inr w \<Rightarrow> replay_loop L format (Some k) chunk w (w_pos w)) =
    (case (read_frame bs (w_pos w) :: 'op log_record + bytes \<times> nat) of
       Inl Incomplete \<Rightarrow> (Inr ReplayTornHeader, [])
     | Inl _ \<Rightarrow> (Inl KeyCheckDamaged, [])
     | Inr (check, n) \<Rightarrow>
         if open_bytes L k CHECK_CONTEXT check \<noteq> Some CHECK_TEXT then (Inl WrongKey, [])
         else scan L format (Some k) (drop n bs) n)"
proof -
  have at: "w_pos w \<le> length bs" "ahead w = drop (w_pos w) bs"
    using assms(3,4) by (simp_all add: ahead_def)
  note sh = read_frame_shift [where 'a = 'op, OF at(1)] and check = key_check_ok [OF assms(1,3), of L k chunk]
  show ?thesis
  proof (cases "read_frame (ahead w) 0 :: 'op log_record + bytes \<times> nat")
    case (Inl b)
    with check show ?thesis
      by (cases b) (simp_all add: sh at(2) [symmetric])
  next
    case (Inr cn)
    obtain c n where cn: "cn = (c, n)"
      by fastforce
    show ?thesis
    proof (cases "open_bytes L k CHECK_CONTEXT c = Some CHECK_TEXT")
      case True
      with check Inr cn obtain w' where w': "key_check L k chunk w = Inr w'" "window_ok w'" "w_pos w' \<le> length (w_buf w')"
          "w_base w' = 0" "w_pos w' = w_pos w + n" "ahead w' = drop (w_pos w + n) bs"
        using assms(2) by (auto simp: at(2) add.commute)
      with True Inr cn replay_loop_scan [of w' "w_pos w'" L format "Some k" chunk] show ?thesis
        by (simp add: sh at(2) [symmetric])
    qed (use check Inr cn in \<open>simp add: sh at(2) [symmetric]\<close>)
  qed
qed

lemma replay_is_whole:
  fixes L :: "('op, 'key) wal_lib"
  assumes "reader_ok r"
  shows "replay L chunk key r = replay_whole L key (reader_bytes r)"
proof -
  let ?w0 = "\<lparr>w_buf = [], w_base = 0, w_pos = 0, w_eof = False, w_rd = r\<rparr>" and ?bs = "reader_bytes r"
  have "window_ok ?w0"
    using assms by (simp add: window_ok_def)
  from this obtain w where w: "fill_to HEADER_LEN chunk ?w0 = Some w" "window_ok w" "w_base w = 0"
      "w_buf w @ reader_bytes (w_rd w) = ?bs" "8 \<le> length (w_buf w) \<or> w_rd w = []"
    by (rule fill_to_ok [of ?w0 HEADER_LEN chunk]) (auto simp: HEADER_LEN_def)
  have d: "detect L (w_buf w) = detect L ?bs" and e: "w_buf w = [] \<longleftrightarrow> ?bs = []"
    using detect_prefix [of "w_buf w" "reader_bytes (w_rd w)" L] w(4,5) by fastforce+
  show ?thesis
  proof (cases "detect L ?bs")
    case (Inr found)
    show ?thesis
    proof (cases found)
      case (Log format start sealed)
      have start: "start \<le> length (w_buf w)" "sealed \<longrightarrow> start = 8"
        using detect_start [of L "w_buf w" format start sealed] d Inr Log by auto
      have "window_ok (w\<lparr>w_pos := start\<rparr>)"
        using w(2) by (simp add: window_ok_def)
      from this obtain w2 where w2: "fill_to (start + FRAME_LEN) chunk (w\<lparr>w_pos := start\<rparr>) = Some w2" "window_ok w2"
          "w_base w2 = 0" "w_pos w2 = start" "w_buf w2 @ reader_bytes (w_rd w2) = ?bs"
          "start + FRAME_LEN \<le> length (w_buf w2) \<or> w_rd w2 = []"
        by (rule fill_to_ok [of "w\<lparr>w_pos := start\<rparr>" "start + FRAME_LEN" chunk]) (use w(3,4) in auto)
      have "start \<le> length (w_buf w2)"
        using w2(5,6) start(1) w(4) by (cases "w_rd w2 = []") (auto dest: arg_cong [where f = length])
      with sealed_body [OF w2(2,3) _ w2(5) [symmetric], of L format _ chunk] plain_body [OF w(2,3) start(1), of L format chunk]
      show ?thesis
        using w(1,4) d e Inr Log w2(1,4) by (auto simp: replay_def replay_whole_def split: option.splits)
    qed (use w(1) d Inr in \<open>simp add: replay_def replay_whole_def\<close>)
  qed (use w(1) d in \<open>simp add: replay_def replay_whole_def\<close>)
qed

text \<open>Shown too.
  A replay does not depend on how the log is cut: for every chunk size and every sequence of short reads it gives the
  result, and hands over the operations, of reading the whole file at once.\<close>

theorem replay_chunk_independent: "reader_ok r \<Longrightarrow> replay L chunk key r = replay_whole L key (reader_bytes r)"
  by (rule replay_is_whole)

end
