(* ===== verification/Wal_Durable.thy ===== *)
theory Wal_Durable
  imports Wal_Recovery "HOL-Library.Sublist"
begin

text \<open>
  What is written is what is read: frames and their checksum, payloads, records and whole logs.
\<close>

unbundle bit_operations_syntax

section \<open>The checksum\<close>

lemma and_1_bit: "(c :: u32) AND 1 \<noteq> 0 \<longleftrightarrow> bit c 0"
  by (simp add: and_one_eq bit_0 odd_iff_mod_2_eq_one)

lemma crc_bit_bit: "bit (crc_bit c) n \<longleftrightarrow> (bit c 0 \<and> bit (0xEDB88320 :: u32) n) \<noteq> bit c (Suc n)"
  by (simp add: crc_bit_def and_1_bit bit_xor_iff bit_drop_bit_eq)

lemma crc_bit_xor: "crc_bit (x XOR y) = crc_bit x XOR crc_bit y"
  by (rule bit_word_eqI) (auto simp: crc_bit_bit bit_xor_iff)

lemma crc_bit_inj: "crc_bit x = crc_bit y \<Longrightarrow> x = y"
proof (rule bit_word_eqI)
  fix n assume eq: "crc_bit x = crc_bit y" and n: "n < LENGTH(32)"
  have top: "bit (crc_bit c) 31 = bit c 0" for c
    by (auto simp: crc_bit_bit bit_simps dest: bit_imp_le_length)
  then have low: "bit x 0 = bit y 0"
    using eq by metis
  show "bit x n = bit y n"
  proof (cases n)
    case (Suc m)
    have "bit (crc_bit x) m = bit (crc_bit y) m"
      by (simp add: eq)
    with low Suc show ?thesis
      by (auto simp: crc_bit_bit)
  qed (simp add: low)
qed

lemma crc_bits_xor: "(crc_bit ^^ k) (x XOR y) = (crc_bit ^^ k) x XOR (crc_bit ^^ k) y"
  by (induction k) (simp_all add: crc_bit_xor)

lemma crc_bits_inj: "(crc_bit ^^ k) x = (crc_bit ^^ k) y \<Longrightarrow> x = y"
  by (induction k) (auto dest: crc_bit_inj)

lemma crc_bits_high: "(\<And>n. n < k \<Longrightarrow> \<not> bit y n) \<Longrightarrow> (crc_bit ^^ k) y = drop_bit k y"
proof (induction k)
  case (Suc k)
  then have "(crc_bit ^^ k) y = drop_bit k y"
    by simp
  moreover have "\<not> bit y k"
    using Suc.prems by simp
  ultimately show ?case
    by (intro bit_word_eqI) (simp add: crc_bit_bit bit_drop_bit_eq)
qed simp

lemma TABLE_entry: "TABLE ! unat (x AND 0xFF) = crc_entry (x AND 0xFF)"
proof -
  have "x AND 0xFF \<le> 0xFF"
    by (rule word_and_le1)
  then have "unat (x AND 0xFF) < 256"
    by (simp add: word_le_nat_alt)
  then show ?thesis
    by (simp add: TABLE_def)
qed

text \<open>Evaluation computes a table entry when it is used.\<close>

lemma crc_step_code [code]: "crc_step crc b = crc_entry ((crc XOR ucast b) AND 0xFF) XOR drop_bit 8 crc"
  by (simp add: crc_step_def TABLE_entry)

text \<open>The table-driven step is eight steps of the bitwise checksum.\<close>

lemma crc_step_bits: "crc_step crc b = (crc_bit ^^ 8) (crc XOR ucast b)"
proof -
  let ?x = "crc XOR ucast b"
  let ?high = "?x AND NOT (mask 8)"
  have mask8: "(0xFF :: u32) = mask 8"
    by (simp add: mask_eq_exp_minus_1)
  have "?x = (?x AND mask 8) XOR ?high"
    by (rule bit_word_eqI) (auto simp: bit_simps)
  then have "(crc_bit ^^ 8) ?x = crc_entry (?x AND mask 8) XOR (crc_bit ^^ 8) ?high"
    by (metis crc_bits_xor crc_entry_def)
  also have "(crc_bit ^^ 8) ?high = drop_bit 8 ?high"
    by (rule crc_bits_high) (simp add: bit_simps)
  also have "\<dots> = drop_bit 8 crc"
    by (rule bit_word_eqI) (auto simp: bit_simps dest: bit_imp_le_length)
  finally show ?thesis
    by (simp only: crc_step_def TABLE_entry [of ?x, unfolded mask8] mask8)
qed

lemma xor_cancel:
  fixes x y z :: "'a::len word"
  shows "x XOR z = y XOR z \<Longrightarrow> x = y" and "z XOR x = z XOR y \<Longrightarrow> x = y"
  by (metis xor.assoc xor.right_neutral xor_self_eq, metis xor.assoc xor.left_neutral xor_self_eq)

lemma ucast_u8_inj:
  assumes "(ucast (x :: u8) :: u32) = ucast y"
  shows "x = y"
proof (rule bit_word_eqI)
  fix n
  have "bit (ucast x :: u32) n = bit (ucast y :: u32) n"
    by (simp only: assms)
  moreover assume "n < LENGTH(8)"
  ultimately show "bit x n = bit y n"
    by (simp add: bit_ucast_iff)
qed

lemma crc_step_inj: "crc_step c b = crc_step c' b' \<Longrightarrow> c XOR ucast b = c' XOR ucast b'"
  by (simp add: crc_step_bits) (rule crc_bits_inj)

lemma crc_fold_inj: "foldl crc_step c ys = foldl crc_step c' ys \<Longrightarrow> c = c'"
proof (induction ys arbitrary: c c')
  case (Cons b ys)
  then have "crc_step c b = crc_step c' b"
    by simp
  then show ?case
    by (rule xor_cancel(1) [OF crc_step_inj])
qed simp

lemma crc32_changed_byte: "b \<noteq> b' \<Longrightarrow> crc32 (xs @ b # ys) \<noteq> crc32 (xs @ b' # ys)"
proof
  assume "b \<noteq> b'" and same: "crc32 (xs @ b # ys) = crc32 (xs @ b' # ys)"
  let ?c = "foldl crc_step 0xFFFFFFFF xs"
  have "foldl crc_step (crc_step ?c b) ys = foldl crc_step (crc_step ?c b') ys"
    using same by (simp add: crc32_def)
  then have "crc_step ?c b = crc_step ?c b'"
    by (rule crc_fold_inj)
  then have "?c XOR ucast b = ?c XOR ucast b'"
    by (rule crc_step_inj)
  then have "b = b'"
    by (rule ucast_u8_inj [OF xor_cancel(2)])
  with \<open>b \<noteq> b'\<close> show False ..
qed

text \<open>Shown too.
  The checksum of the frames finds every change of one byte, whatever the length of the record.\<close>

theorem crc32_detects_byte: "b \<noteq> b' \<Longrightarrow> crc32 (xs @ b # ys) \<noteq> crc32 (xs @ b' # ys)"
  by (rule crc32_changed_byte)

theorem crc32_detects_byte_witness: "crc32 [1, 2, 3] \<noteq> crc32 [1, 7, 3]"
  using crc32_detects_byte [of 2 7 "[1]" "[3]"] by simp

section \<open>Frames\<close>

lemma le_bytes_roundtrip: "from_le_bytes (to_le_bytes x) = x"
  by (rule bit_word_eqI) (auto simp: to_le_bytes_def bit_simps dest: bit_imp_le_length, rule ccontr, simp add: not_less)

lemma length_to_le_bytes [simp]: "length (to_le_bytes x) = 4"
  by (simp add: to_le_bytes_def)

lemma take_to_le_bytes [simp]: "take 4 (to_le_bytes x @ ys) = to_le_bytes x" "drop 4 (to_le_bytes x @ ys) = ys"
  by simp_all

lemma frame_Inr:
  "frame payload = Inr fr \<longleftrightarrow>
    length payload < 2 ^ 32 \<and> fr = to_le_bytes (of_nat (length payload)) @ to_le_bytes (crc32 payload) @ payload"
  by (auto simp: frame_def)

lemma frame_length: "frame payload = Inr fr \<Longrightarrow> length fr = 8 + length payload"
  by (auto simp: frame_Inr)

text \<open>A frame with its own length whose checksum may be that of another payload.\<close>

lemma read_framed:
  assumes "length payload < 2 ^ 32"
  shows "read_frame (to_le_bytes (of_nat (length payload)) @ to_le_bytes crc @ payload @ rest) 0 =
    (if crc32 payload = crc then Inr (payload, 8 + length payload) else Inl (Invalid (8 + length payload)))"
proof -
  let ?bs = "to_le_bytes (of_nat (length payload)) @ to_le_bytes crc @ payload @ rest"
  have "unat (from_le_bytes (take 4 ?bs)) = length payload"
    using assms by (simp add: le_bytes_roundtrip unat_of_nat)
  moreover have "from_le_bytes (take 4 (drop 4 ?bs)) = crc"
    by (simp add: le_bytes_roundtrip)
  moreover have "take (length payload) (drop 8 ?bs) = payload" "length ?bs = 8 + length payload + length rest"
    by simp_all
  ultimately show ?thesis
    by (simp only: read_frame_def Let_def FRAME_LEN_def drop_0) auto
qed

lemma frame_roundtrip: "frame payload = Inr fr \<Longrightarrow> read_frame (fr @ rest) 0 = Inr (payload, length fr)"
  using read_framed [of payload "crc32 payload" rest] by (auto simp: frame_Inr)

lemma frame_torn:
  assumes "frame payload = Inr fr" and "strict_prefix t fr"
  shows "read_frame t 0 = Inl Incomplete"
proof -
  obtain s where fr: "fr = t @ s" "s \<noteq> []"
    using assms(2) by (auto simp: strict_prefix_def prefix_def)
  have f: "length payload < 2 ^ 32" "t @ s = to_le_bytes (of_nat (length payload)) @ to_le_bytes (crc32 payload) @ payload"
    using assms(1) fr by (simp_all add: frame_Inr)
  have len: "length t < 8 + length payload"
    using arg_cong [OF f(2), of length] fr(2) by (cases s) auto
  show ?thesis
  proof (cases "length t < 8")
    case False
    then have "take 4 t = to_le_bytes (of_nat (length payload))"
      using arg_cong [OF f(2), of "take 4"] by simp
    then have "unat (from_le_bytes (take 4 t)) = length payload"
      using f(1) by (simp add: le_bytes_roundtrip unat_of_nat)
    with False len show ?thesis
      by (simp add: read_frame_def FRAME_LEN_def Let_def)
  qed (simp add: read_frame_def FRAME_LEN_def)
qed

section \<open>Payloads\<close>

text \<open>
  What is documented of the libraries: a value that was written reads back. JSON text is UTF-8 without a line break
  and without surrounding space; an operation is an object and a list of operations an array.
\<close>

definition json_text :: "bytes \<Rightarrow> nat \<Rightarrow> nat list \<Rightarrow> bool" where
  "json_text b c t = (from_utf8 b = Some t \<and> trim t = t \<and> t \<noteq> [] \<and> hd t = c \<and> b \<noteq> [] \<and> hd b = of_nat c \<and> 10 \<notin> set b)"

definition lib_ok :: "('op, 'key) wal_lib \<Rightarrow> bool" where
  "lib_ok L =
     ((\<forall>op b. json_op_vec L op = Some b \<longrightarrow> (\<exists>t. json_text b 0x7B t \<and> json_op_str L t = Some op)) \<and>
      (\<forall>ops b. json_ops_vec L ops = Some b \<longrightarrow> (\<exists>t. json_text b 0x5B t \<and> json_ops_str L t = Some ops) \<and> json_ops_slice L b = Some ops) \<and>
      (\<forall>ops v. to_value L ops = Some v \<longrightarrow> json_ok v \<and> from_value L v = Some ops) \<and>
      (\<forall>ops b. cbor_write_ops L ops = Some b \<longrightarrow> cbor_read_ops L b = Some ops) \<and>
      (\<forall>c b. cbor_write L c = Some b \<longrightarrow> cbor_read L b = Some c) \<and>
      (\<forall>ops b. rmp_write_ops L ops = Some b \<longrightarrow> rmp_read_ops L b = Some ops) \<and>
      (\<forall>b z. zstd_bulk_compress L b = Some z \<longrightarrow> zstd_content_size L z = Some (length b) \<and> zstd_bulk_decompress L z (length b) = Some b) \<and>
      (\<forall>k ctx p s. seal_bytes L k ctx p = Some s \<longrightarrow> open_bytes L k ctx s = Some p))"

lemma lib_okD:
  assumes "lib_ok L"
  shows "json_op_vec L op = Some b \<Longrightarrow> \<exists>t. json_text b 0x7B t \<and> json_op_str L t = Some op"
    and "json_ops_vec L ops = Some b \<Longrightarrow> (\<exists>t. json_text b 0x5B t \<and> json_ops_str L t = Some ops) \<and> json_ops_slice L b = Some ops"
    and "to_value L ops = Some v \<Longrightarrow> json_ok v \<and> from_value L v = Some ops"
    and "cbor_write_ops L ops = Some b \<Longrightarrow> cbor_read_ops L b = Some ops"
    and "cbor_write L c = Some b \<Longrightarrow> cbor_read L b = Some c"
    and "rmp_write_ops L ops = Some b \<Longrightarrow> rmp_read_ops L b = Some ops"
    and "zstd_bulk_compress L b = Some z \<Longrightarrow> zstd_content_size L z = Some (length b) \<and> zstd_bulk_decompress L z (length b) = Some b"
    and "seal_bytes L k ctx b = Some z \<Longrightarrow> open_bytes L k ctx z = Some b"
  using assms unfolding lib_ok_def by blast+

text \<open>The payload of a compressed record before compression: the reader refuses more than a gigabyte.\<close>

definition uncompressed :: "('op, 'key) wal_lib \<Rightarrow> wal_format \<Rightarrow> 'op list \<Rightarrow> wal_error + bytes" where
  "uncompressed L format ops =
     (if format = CborZstd then encode_ops L Cbor ops
      else if format = CborCompactZstd then and_then (or_fail EncodeFailure (to_value L ops)) (compact_encode L)
      else Inr [])"

definition fits_window :: "('op, 'key) wal_lib \<Rightarrow> wal_format \<Rightarrow> 'op list \<Rightarrow> bool" where
  "fits_window L format ops = (case uncompressed L format ops of Inl _ \<Rightarrow> True | Inr b \<Rightarrow> length b \<le> ZSTD_MAX_RECORD)"

lemma or_fail_Inr [simp]: "or_fail e x = Inr y \<longleftrightarrow> x = Some y"
  by (simp add: or_fail_def split: option.splits)

lemma and_then_Inr [simp]: "and_then x f = Inr y \<longleftrightarrow> (\<exists>z. x = Inr z \<and> f z = Inr y)"
  by (cases x) (auto simp: and_then_def)

lemma zstd_roundtrip:
  "lib_ok L \<Longrightarrow> zstd_compress L b = Inr z \<Longrightarrow> length b \<le> ZSTD_MAX_RECORD \<Longrightarrow> zstd_decompress L z = Some b"
  using lib_okD(7) [of L b z] by (simp add: zstd_compress_def zstd_decompress_def)

lemma compact_roundtrip: "lib_ok L \<Longrightarrow> compact_encode L v = Inr b \<Longrightarrow> json_ok v \<Longrightarrow> compact_decode L b = Some v"
  using lib_okD(5) [of L "compact_ops v" b] by (simp add: compact_encode_def compact_decode_def compact_ops_roundtrip)

lemma decode_encode:
  assumes "lib_ok L" and "encode_ops L format ops = Inr payload" and "format \<noteq> Json" and "fits_window L format ops"
  shows "decode_ops L format payload = Some ops"
proof -
  note E = assms(2) [unfolded encode_ops.simps [of L format ops]]
  show ?thesis
  proof (cases format)
    case Cbor
    with E lib_okD(4) [OF assms(1)] show ?thesis
      by (auto simp: decode_ops_def encode_value.simps split: if_splits)
  next
    case MsgPack
    with E lib_okD(6) [OF assms(1)] show ?thesis
      by (auto simp: decode_ops_def encode_value.simps split: if_splits)
  next
    case CborZstd
    with E obtain b where b: "wal_zstd L" "encode_ops L Cbor ops = Inr b" "zstd_compress L b = Inr payload"
      by (auto simp: encode_value.simps [of L CborZstd] split: if_splits)
    moreover have "cbor_read_ops L b = Some ops"
      using b(2) lib_okD(4) [OF assms(1)] by (auto simp: encode_ops.simps encode_value.simps split: if_splits)
    ultimately show ?thesis
      using CborZstd assms(4) zstd_roundtrip [OF assms(1)] by (simp add: decode_ops_def fits_window_def uncompressed_def)
  next
    case CborCompact
    with E obtain v where "wal_cbor L" "to_value L ops = Some v" "compact_encode L v = Inr payload"
      by (auto simp: encode_value.simps split: if_splits)
    with CborCompact compact_roundtrip [OF assms(1)] lib_okD(3) [OF assms(1)] show ?thesis
      by (simp add: decode_ops_def)
  next
    case CborCompactZstd
    with E obtain v b where "wal_zstd L" "to_value L ops = Some v" "compact_encode L v = Inr b" "zstd_compress L b = Inr payload"
      by (auto simp: encode_value.simps split: if_splits)
    moreover from this have "length b \<le> ZSTD_MAX_RECORD"
      using CborCompactZstd assms(4) by (simp add: fits_window_def uncompressed_def and_then_def or_fail_def)
    ultimately show ?thesis
      using CborCompactZstd zstd_roundtrip [OF assms(1)] compact_roundtrip [OF assms(1)] lib_okD(3) [OF assms(1)]
      by (simp add: decode_ops_def)
  qed (use assms(3) in simp)
qed

text \<open>A library over two operations, to run the definitions: digits as JSON text, bits as CBOR, a key byte as seal.\<close>

definition ex_digit :: "bool \<Rightarrow> u8" where
  "ex_digit b = (if b then 0x31 else 0x30)"

definition ex_op_str :: "nat list \<Rightarrow> bool option" where
  "ex_op_str t = (if t = [0x7B, 0x31, 0x7D] then Some True else if t = [0x7B, 0x30, 0x7D] then Some False else None)"

definition ex_ops_str :: "nat list \<Rightarrow> bool list option" where
  "ex_ops_str t = (if t \<noteq> [] \<and> hd t = 0x5B \<and> last t = 0x5D then Some (map ((=) 0x31) (butlast (tl t))) else None)"

definition ex_lib :: "(bool, u8) wal_lib" where
  "ex_lib =
     \<lparr>wal_cbor = True, wal_msgpack = True, wal_zstd = True,
      json_op_vec = (\<lambda>op. Some [0x7B, ex_digit op, 0x7D]), json_ops_vec = (\<lambda>ops. Some (0x5B # map ex_digit ops @ [0x5D])),
      json_value_vec = (\<lambda>_. None), json_op_str = ex_op_str, json_ops_str = ex_ops_str,
      json_ops_slice = (\<lambda>b. ex_ops_str (map unat b)), json_value_slice = (\<lambda>_. None),
      to_value = (\<lambda>ops. Some (JArray (map JBool ops))),
      from_value = (\<lambda>v. case v of JArray vs \<Rightarrow> Some (map (\<lambda>v. v = JBool True) vs) | _ \<Rightarrow> None),
      cbor_write_ops = (\<lambda>ops. Some (map of_bool ops)), cbor_read_ops = (\<lambda>b. Some (map ((=) 1) b)),
      cbor_write_json = (\<lambda>_. None), cbor_write = (\<lambda>_. None), cbor_read = (\<lambda>_. None),
      rmp_write_ops = (\<lambda>ops. Some (map of_bool ops)), rmp_read_ops = (\<lambda>b. Some (map ((=) 1) b)), rmp_write_json = (\<lambda>_. None),
      zstd_bulk_compress = Some, zstd_content_size = (\<lambda>z. Some (length z)), zstd_bulk_decompress = (\<lambda>z _. Some z),
      seal_bytes = (\<lambda>k _ p. Some (k # p)),
      open_bytes = (\<lambda>k _ s. if s \<noteq> [] \<and> hd s = k then Some (tl s) else None)\<rparr>"

lemma from_utf8_ascii: "list_all (\<lambda>b. b < 0x80) bs \<Longrightarrow> from_utf8 bs = Some (map unat bs)"
  by (induction bs) auto

lemma trim_self: "t \<noteq> [] \<Longrightarrow> \<not> is_whitespace (hd t) \<Longrightarrow> \<not> is_whitespace (last t) \<Longrightarrow> trim t = t"
  using dropWhile_eq_self_iff [of is_whitespace t] dropWhile_eq_self_iff [of is_whitespace "rev t"]
  by (simp add: trim_def hd_rev)

lemma ex_digits: "map ((=) 0x31 \<circ> (unat \<circ> ex_digit)) ops = ops" "list_all (\<lambda>b. b < 0x80) (map ex_digit ops)" "10 \<notin> ex_digit ` set ops"
  by (induction ops) (auto simp: ex_digit_def)

lemma ex_lib_ok: "lib_ok ex_lib"
proof -
  have "json_text [0x7B, ex_digit op, 0x7D] 0x7B [0x7B, unat (ex_digit op), 0x7D]" for op
    by (auto simp: json_text_def ex_digit_def is_whitespace_def trim_self)
  moreover have "json_text (0x5B # map ex_digit ops @ [0x5D]) 0x5B (0x5B # map (unat \<circ> ex_digit) ops @ [0x5D])" for ops
    using ex_digits(2,3) [of ops] by (auto simp: json_text_def is_whitespace_def trim_self from_utf8_ascii list_all_iff)
  moreover have "ex_op_str [0x7B, unat (ex_digit op), 0x7D] = Some op" "ex_ops_str (0x5B # map (unat \<circ> ex_digit) ops @ [0x5D]) = Some ops" for op ops
    by (simp_all add: ex_op_str_def ex_ops_str_def ex_digit_def ex_digits(1) butlast_append)
  ultimately show ?thesis
    by (fastforce simp: lib_ok_def ex_lib_def comp_def map_idI)
qed

section \<open>Records and logs\<close>

definition framed :: "wal_format \<Rightarrow> 'key option \<Rightarrow> bool" where
  "framed format key = (format \<noteq> Json \<or> key \<noteq> None)"

text \<open>A record that was written to a log: its bytes, for a write set that is not empty.\<close>

definition written :: "('op, 'key) wal_lib \<Rightarrow> wal_format \<Rightarrow> 'key option \<Rightarrow> 'op list \<Rightarrow> bytes \<Rightarrow> bool" where
  "written L format key ops line = (ops \<noteq> [] \<and> encode_record_with L format key ops = Inr line \<and> fits_window L format ops)"

lemma written_framed:
  assumes "written L format key ops line" and "framed format key"
  obtains payload where "frame payload = Inr line"
  using assms by (cases key) (auto simp: written_def framed_def encode_record_with_def encode_record_def)

lemma position_line: "10 \<notin> set b \<Longrightarrow> position 10 (b @ 10 # rest) = Some (length b)"
  by (induction b) auto

lemma json_line_roundtrip:
  assumes "lib_ok L" and "encode_record L Json ops = Inr line" and "ops \<noteq> []"
  shows "\<exists>b. line = b @ [10] \<and> 10 \<notin> set b \<and> b \<noteq> [] \<and> hd b \<in> {0x7B, 0x5B} \<and> parse_json_line L b = Some ops"
proof (cases "\<exists>op. ops = [op]")
  case True
  then obtain op b where b: "ops = [op]" "line = b @ [10]" "json_op_vec L op = Some b"
    using assms(2) by (auto simp: encode_record_def)
  from lib_okD(1) [OF assms(1) b(3)] b(1,2) show ?thesis
    by (auto simp: json_text_def parse_json_line_def)
next
  case False
  then have "and_then (or_fail EncodeFailure (json_ops_vec L ops)) (\<lambda>line. Inr (line @ [10])) = Inr line"
    using assms(2,3) by (cases ops rule: remdups_adj.cases) (simp_all add: encode_record_def del: and_then_Inr)
  then obtain b where b: "line = b @ [10]" "json_ops_vec L ops = Some b"
    by auto
  from lib_okD(2) [OF assms(1) b(2)] b(1) show ?thesis
    by (auto simp: json_text_def parse_json_line_def)
qed

lemma record_roundtrip:
  assumes "lib_ok L" and "written L format key ops line"
  shows "read_any L format key (line @ rest) 0 = Ops ops (length line)"
proof (cases key)
  case None
  show ?thesis
  proof (cases "format = Json")
    case True
    with None assms json_line_roundtrip [OF assms(1), of ops line] show ?thesis
      by (auto simp: written_def encode_record_with_def read_any_def read_record_def position_line)
  next
    case False
    with None assms obtain payload where "encode_ops L format ops = Inr payload" "frame payload = Inr line"
      by (auto simp: written_def encode_record_with_def encode_record_def)
    with False None assms decode_encode [OF assms(1)] show ?thesis
      by (simp add: read_any_def read_record_def frame_roundtrip written_def)
  qed
next
  case (Some k)
  with assms obtain payload s where p: "record_payload L format ops = Inr payload" "seal_bytes L k RECORD_CONTEXT payload = Some s"
      "frame s = Inr line"
    by (auto simp: written_def encode_record_with_def seal_with_def)
  have "(if format = Json then json_ops_slice L payload else decode_ops L format payload) = Some ops"
    using p(1) lib_okD(2) [OF assms(1)] decode_encode [OF assms(1)] assms(2) by (auto simp: record_payload_def written_def split: if_splits)
  with Some p lib_okD(8) [OF assms(1)] show ?thesis
    by (simp add: read_any_def read_sealed_record_def frame_roundtrip)
qed

lemma frame_error:
  assumes "read_frame bs 0 = Inl r" and "framed format key"
  shows "read_any L format key bs 0 = r"
  using assms by (cases key) (simp_all add: read_any_def read_sealed_record_def read_record_def framed_def)

lemma scan_records:
  assumes "lib_ok L" and "list_all2 (written L format key) opss lines"
  shows "scan L format key (concat lines @ tail) off = add_ops (concat opss) (scan L format key tail (off + length (concat lines)))"
  using assms(2)
proof (induction opss lines arbitrary: off rule: list_all2_induct)
  case (Cons ops opss line lines)
  have "line \<noteq> []"
    using record_roundtrip [OF assms(1) Cons(1), of "[]"] read_any_Ops [of L format key "line @ [0]" 0 ops 0]
      record_roundtrip [OF assms(1) Cons(1), of "[0]"] by auto
  with Cons record_roundtrip [OF assms(1) Cons(1), of "concat lines @ tail"] show ?case
    by (subst scan.simps) (simp add: add_ops_def add.assoc)
qed (simp add: add_ops_def)

text \<open>The header of a log, and the body behind it.\<close>

lemma untag_tag: "format \<noteq> Json \<or> sealed \<Longrightarrow> untag sealed (tag format) = Some format"
  by (cases format) (simp_all add: untag_def)

lemma length_MAGIC [simp]: "length MAGIC = 6"
  by (simp add: MAGIC_def ascii_def)

lemma detect_header:
  assumes "compiled_in L format" and "format \<noteq> Json \<or> sealed"
  shows "detect L (MAGIC @ [if sealed then SEALED_VERSION else HEADER_VERSION, tag format] @ body) = Inr (Log format 8 sealed)"
  using assms untag_tag [OF assms(2)]
  by (cases sealed) (simp_all add: detect_def HEADER_LEN_def Let_def nth_append SEALED_VERSION_def HEADER_VERSION_def)

lemma replay_framed:
  fixes L :: "('op, 'key) wal_lib"
  assumes "lib_ok L" and "compiled_in L format" and "framed format key" and "log_header L format key = Inr h"
  shows "replay_whole L key (h @ body) = scan L format key body (length h)"
proof (cases key)
  case None
  then have h: "h = MAGIC @ [HEADER_VERSION, tag format]"
    using assms(3,4) by (simp add: log_header_def header_def framed_def)
  have "detect L (h @ body) = Inr (Log format 8 False)"
    using detect_header [OF assms(2), of False body] assms(3) None by (simp add: h framed_def)
  with None h show ?thesis
    by (simp add: replay_whole_def)
next
  case (Some k)
  then obtain s check where c: "seal_bytes L k CHECK_CONTEXT CHECK_TEXT = Some s" "frame s = Inr check"
      "h = (MAGIC @ [SEALED_VERSION, tag format]) @ check"
    using assms(4) by (auto simp: log_header_def seal_with_def)
  have "detect L (h @ body) = Inr (Log format 8 True)"
    using detect_header [OF assms(2), of True "check @ body"] by (simp add: c(3))
  moreover have "read_frame (h @ body) 8 = (Inr (s, length h) :: 'op log_record + bytes \<times> nat)"
    using read_frame_shift [where 'a = 'op, of 8 "h @ body"] frame_roundtrip [where 'a = 'op, OF c(2), of body] by (simp add: c(3))
  ultimately show ?thesis
    using Some lib_okD(8) [OF assms(1) c(1)] c(3) by (simp add: replay_whole_def)
qed

lemma replay_json:
  assumes "body \<noteq> []" and "hd body \<in> {0x7B, 0x5B}"
  shows "replay_whole L None body = scan L Json None body 0"
proof -
  obtain c rest where body: "body = c # rest" "c \<noteq> 0x44"
    using assms by (cases body) auto
  have "hd MAGIC = 0x44" "MAGIC \<noteq> []"
    by (simp_all add: MAGIC_def ascii_def)
  then have "take 6 body \<noteq> MAGIC" "\<not> is_header_prefix body"
    using body by (auto simp: is_header_prefix_def neq_Nil_conv dest: arg_cong [where f = hd])
  with body show ?thesis
    by (simp add: replay_whole_def detect_def)
qed

lemma replay_log:
  assumes "lib_ok L" and "compiled_in L format" and "log_header L format key = Inr h"
    and "list_all2 (written L format key) opss lines" and "tail = [] \<or> framed format key \<and> written L format key ops line \<and> strict_prefix tail line"
    and "reader_ok r" and "reader_bytes r = h @ concat lines @ tail" and "reader_bytes r \<noteq> []"
  shows "replay L chunk key r =
    (Inr (ReplayLog format (length (h @ concat lines)) (tail \<noteq> []) (key \<noteq> None)), concat opss)"
proof -
  have torn: "read_any L format key tail 0 = Incomplete" if "tail \<noteq> []"
    using that assms(5) frame_torn frame_error by (metis written_framed)
  have "scan L format key tail off = (Inr (ReplayLog format off (tail \<noteq> []) (key \<noteq> None)), [])" for off
    using torn by (cases "tail = []") (simp_all add: scan.simps)
  then have body: "scan L format key (concat lines @ tail) off =
      (Inr (ReplayLog format (off + length (concat lines)) (tail \<noteq> []) (key \<noteq> None)), concat opss)" for off
    using scan_records [OF assms(1,4), of tail off] by (simp add: add_ops_def)
  have "replay_whole L key (h @ concat lines @ tail) = scan L format key (concat lines @ tail) (length h)"
  proof (cases "framed format key")
    case True
    show ?thesis
      by (rule replay_framed [OF assms(1,2) True assms(3)])
  next
    case False
    then have k: "format = Json" "key = None" "h = []" "tail = []"
      using assms(3,5) by (auto simp: framed_def log_header_def header_def)
    with assms(4,7,8) obtain ops' opss' line' lines' where l: "lines = line' # lines'" "written L Json None ops' line'"
      by (cases lines) (auto simp: list_all2_Cons2)
    from l(2) json_line_roundtrip [OF assms(1), of ops' line'] have "line' \<noteq> []" "hd line' \<in> {0x7B, 0x5B}"
      by (auto simp: written_def encode_record_with_def)
    with k l show ?thesis
      using replay_json [of "concat lines" L] by simp
  qed
  with body [of "length h"] show ?thesis
    using replay_is_whole [OF assms(6), of L chunk key] assms(7) by simp
qed

text \<open>C9.
  A log gives back what was written to it. Take a log in any format, sealed or not, that holds complete records and,
  in a binary or sealed log, at most the beginning of one more, as a crash leaves it. A replay, in chunks of any size,
  hands over the operations of the complete records in order, ends behind the last of them and reports a torn tail
  exactly when there is one.\<close>

theorem replay_recovers:
  assumes "lib_ok L" and "compiled_in L format" and "log_header L format key = Inr h"
    and "list_all2 (written L format key) opss lines" and "tail = [] \<or> framed format key \<and> written L format key ops line \<and> strict_prefix tail line"
    and "reader_ok r" and "reader_bytes r = h @ concat lines @ tail" and "reader_bytes r \<noteq> []"
  shows "replay L chunk key r =
    (Inr (ReplayLog format (length (h @ concat lines)) (tail \<noteq> []) (key \<noteq> None)), concat opss)"
  using assms by (rule replay_log)

text \<open>A sealed log of one record, and the beginning of a second.\<close>

definition ex_h :: bytes where
  "ex_h = projr (log_header ex_lib Cbor (Some 7))"

definition ex_line :: "bool list \<Rightarrow> bytes" where
  "ex_line ops = projr (encode_record_with ex_lib Cbor (Some 7) ops)"

lemma ex_written: "ops \<noteq> [] \<Longrightarrow> length ops < 100 \<Longrightarrow> written ex_lib Cbor (Some 7) ops (ex_line ops)"
  by (simp add: written_def ex_line_def encode_record_with_def record_payload_def encode_ops.simps or_fail_def and_then_def
      seal_with_def frame_def ex_lib_def fits_window_def uncompressed_def)

lemma ex_lengths: "ops \<noteq> [] \<Longrightarrow> length ops < 100 \<Longrightarrow> length (ex_line ops) = 9 + length ops" "length ex_h = 22"
  by (simp_all add: ex_line_def encode_record_with_def record_payload_def encode_ops.simps or_fail_def and_then_def
      seal_with_def frame_def ex_lib_def ex_h_def log_header_def CHECK_TEXT_def ascii_def)

lemma ex_payload: "ops \<noteq> [] \<Longrightarrow> length ops < 100 \<Longrightarrow> ex_line ops = take 8 (ex_line ops) @ 7 # map of_bool ops"
  by (simp add: ex_line_def encode_record_with_def record_payload_def encode_ops.simps or_fail_def and_then_def
      seal_with_def frame_def ex_lib_def)

lemma ex_header: "log_header ex_lib Cbor (Some 7) = Inr ex_h" "compiled_in ex_lib Cbor"
  by (simp_all add: ex_h_def log_header_def seal_with_def frame_def ex_lib_def or_fail_def and_then_def CHECK_TEXT_def ascii_def
      compiled_in_def)

theorem replay_recovers_witness:
  "replay ex_lib 3 (Some 7) [Some (ex_h @ ex_line [True, False]), Some (take 3 (ex_line [True]))] =
     (Inr (ReplayLog Cbor 33 True True), [True, False])"
proof -
  have len: "length ex_h = 22" "length (ex_line [True, False]) = 11" "length (ex_line [True]) = 10"
    by (simp_all add: ex_lengths)
  then have "ex_h \<noteq> []" "take 3 (ex_line [True]) \<noteq> []" "take 3 (ex_line [True]) \<noteq> ex_line [True]"
    by (auto dest: arg_cong [where f = length])
  then show ?thesis
    using replay_recovers [OF ex_lib_ok ex_header(2,1), of "[[True, False]]" "[ex_line [True, False]]" "take 3 (ex_line [True])" "[True]" "ex_line [True]"
        "[Some (ex_h @ ex_line [True, False]), Some (take 3 (ex_line [True]))]" 3] len
    by (simp add: ex_written framed_def take_is_prefix strict_prefix_def)
qed

text \<open>Shown too.
  A crash while a binary or sealed log is created leaves the beginning of its header. Opening it finds a torn header,
  hands over nothing and reports no error.\<close>

theorem torn_header_recovers:
  fixes L :: "('op, 'key) wal_lib"
  assumes "compiled_in L format" and "framed format key" and "log_header L format key = Inr h"
    and "strict_prefix t h" and "t \<noteq> []" and "reader_ok r" and "reader_bytes r = t"
  shows "replay L chunk key r = (Inr ReplayTornHeader, [])"
proof -
  obtain version check where h: "h = MAGIC @ [version, tag format] @ check"
      "key = None \<longrightarrow> check = [] \<and> version = HEADER_VERSION" "key \<noteq> None \<longrightarrow> version = SEALED_VERSION \<and> (\<exists>s. frame s = Inr check)"
    using assms(2,3) by (cases key) (auto simp: log_header_def header_def framed_def)
  have "replay_whole L key t = (Inr ReplayTornHeader, [])"
  proof (cases "length t < 8")
    case True
    have "take 6 t = take (length t) MAGIC"
    proof -
      have "t = take (length t) h"
        using assms(4) by (auto simp: strict_prefix_def prefix_def)
      then have "take 6 t = take (min 6 (length t)) h"
        by (metis take_take)
      then show ?thesis
        by (simp add: h(1) take_append min_def split: if_splits)
    qed
    with True assms(5) show ?thesis
      by (simp add: replay_whole_def detect_def HEADER_LEN_def is_header_prefix_def)
  next
    case False
    obtain s where s: "(MAGIC @ [version, tag format]) @ check = t @ s" "s \<noteq> []"
      using assms(4) h(1) by (auto simp: strict_prefix_def prefix_def)
    have "take 8 (t @ s) = MAGIC @ [version, tag format]" "drop 8 (t @ s) = check"
      unfolding s(1) [symmetric] by simp_all
    then have "take 8 t = MAGIC @ [version, tag format]" "check = drop 8 t @ s"
      using False by simp_all
    then obtain t' where t: "t = MAGIC @ [version, tag format] @ t'" "strict_prefix t' check"
      using s(2) append_take_drop_id [of 8 t] by (metis append.assoc prefixI strict_prefix_def append_self_conv)
    then obtain k s where k: "key = Some k" "frame s = Inr check" "version = SEALED_VERSION"
      using h(2,3) by (cases key) auto
    have "detect L t = Inr (Log format 8 True)"
      using detect_header [OF assms(1), of True t'] k(3) t(1) by simp
    moreover have "read_frame t 8 = (Inl Incomplete :: 'op log_record + bytes \<times> nat)"
      using read_frame_shift [where 'a = 'op, of 8 t] frame_torn [where 'a = 'op, OF k(2) t(2)] t(1) by simp
    ultimately show ?thesis
      using k(1) assms(5) by (simp add: replay_whole_def)
  qed
  with assms(6,7) show ?thesis
    using replay_is_whole [OF assms(6), of L chunk key] by simp
qed

theorem torn_header_recovers_witness: "replay ex_lib 2 (Some 7) [Some (take 20 ex_h)] = (Inr ReplayTornHeader, [])"
proof -
  have "length (take 20 ex_h) = 20"
    by (simp add: ex_lengths)
  then have "take 20 ex_h \<noteq> []" "take 20 ex_h \<noteq> ex_h"
    by (auto simp: ex_lengths dest: arg_cong [where f = length])
  then show ?thesis
    using torn_header_recovers [OF ex_header(2) _ ex_header(1), of "take 20 ex_h" "[Some (take 20 ex_h)]" 2]
    by (simp add: framed_def strict_prefix_def take_is_prefix)
qed

text \<open>C10.
  A changed byte in the payload of a record that is not the last is never read as data and never dropped as a torn
  tail: the log refuses to open, names the record, and has handed over the records before it only.\<close>

theorem corrupt_record_refused:
  assumes "lib_ok L" and "compiled_in L format" and "framed format key" and "log_header L format key = Inr h"
    and "list_all2 (written L format key) opss lines" and "written L format key ops (fr @ xs @ b # ys)" and "length fr = 8"
    and "b' \<noteq> b" and "later \<noteq> []" and "reader_ok r" and "reader_bytes r = h @ concat lines @ (fr @ xs @ b' # ys) @ later"
  shows "replay L chunk key r = (Inl (CorruptRecord (length (h @ concat lines))), concat opss)"
proof -
  obtain payload where "frame payload = Inr (fr @ xs @ b # ys)"
    using written_framed [OF assms(6,3)] .
  then have len: "length payload < 2 ^ 32"
    and "fr @ (xs @ b # ys) = (to_le_bytes (of_nat (length payload)) @ to_le_bytes (crc32 payload)) @ payload"
    by (simp_all add: frame_Inr)
  from append_eq_append_conv [THEN iffD1, OF disjI1, OF _ this(2)] assms(7)
  have p: "payload = xs @ b # ys" "fr = to_le_bytes (of_nat (length payload)) @ to_le_bytes (crc32 payload)"
    by simp_all
  let ?bad = "(fr @ xs @ b' # ys) @ later"
  have "crc32 (xs @ b' # ys) \<noteq> crc32 payload"
    using crc32_changed_byte [OF assms(8)] p(1) by simp
  then have "read_frame ?bad 0 = Inl (Invalid (8 + length payload))"
    using read_framed [of "xs @ b' # ys" "crc32 payload" later] p len by simp
  then have "read_any L format key ?bad 0 = Invalid (8 + length payload)"
    by (rule frame_error [OF _ assms(3)])
  moreover have "drop (8 + length payload) ?bad = later"
    using p(1) assms(7) by simp
  moreover have "?bad \<noteq> []" "follows format key later"
    using assms(3,9) by (auto simp: follows_def framed_def)
  ultimately have "scan L format key ?bad off = (Inl (CorruptRecord off), [])" for off
    by (subst scan.simps) simp
  then have "scan L format key (concat lines @ ?bad) (length h) = (Inl (CorruptRecord (length (h @ concat lines))), concat opss)"
    using scan_records [OF assms(1,5), of ?bad "length h"] by (simp add: add_ops_def)
  then show ?thesis
    using replay_framed [OF assms(1-4), of "concat lines @ ?bad"] replay_is_whole [OF assms(10), of L chunk key] assms(11)
    by simp
qed

theorem corrupt_record_refused_witness:
  "replay ex_lib 5 (Some 7) [Some (ex_h @ (take 8 (ex_line [True]) @ [7] @ [0]) @ ex_line [False])] = (Inl (CorruptRecord 22), [])"
proof -
  have "written ex_lib Cbor (Some 7) [True] (take 8 (ex_line [True]) @ [7] @ 1 # [])"
    using ex_written [of "[True]"] ex_payload [of "[True]"] by simp
  moreover have "ex_line [False] \<noteq> []" "ex_h \<noteq> []"
    using ex_lengths(1) [of "[False]"] ex_lengths(2) by auto
  ultimately show ?thesis
    using corrupt_record_refused [OF ex_lib_ok ex_header(2) _ ex_header(1), of "[]" "[]" "[True]" "take 8 (ex_line [True])" "[7]" 1 "[]" 0
        "ex_line [False]" "[Some (ex_h @ (take 8 (ex_line [True]) @ [7] @ [0]) @ ex_line [False])]" 5]
    by (simp add: framed_def ex_lengths)
qed

theorem replay_chunk_independent_witness:
  "replay ex_lib 2 None [Some [0x7B], Some [0x31, 0x7D, 10, 0x7B]] = replay_whole ex_lib None [0x7B, 0x31, 0x7D, 10, 0x7B]"
  using replay_chunk_independent [of "[Some [0x7B], Some [0x31, 0x7D, 10, 0x7B]]" ex_lib 2 None] by simp

section \<open>Two ways to lose a record\<close>


text \<open>Shown too.
  A compressed record is written whatever the size of its content, and read only up to a gigabyte. A larger record is
  invalid when the log is read: as the last one it is dropped as a torn tail, although it was acknowledged.\<close>

theorem oversized_record_dropped:
  fixes L :: "('op, 'key) wal_lib"
  assumes "lib_ok L" and "wal_zstd L" and "compiled_in L CborZstd" and "encode_ops L Cbor ops = Inr content"
    and "ZSTD_MAX_RECORD < length content" and "encode_record L CborZstd ops = Inr line" and "ops \<noteq> []"
    and "reader_ok r" and "reader_bytes r = header CborZstd @ line"
  shows "replay L chunk None r = (Inr (ReplayLog CborZstd 8 True False), [])"
proof -
  obtain z where z: "zstd_compress L content = Inr z" "frame z = Inr line"
    using assms(2,4,6,7) by (auto simp: encode_record_def encode_ops.simps [of L CborZstd])
  then have "zstd_decompress L z = None"
    using lib_okD(7) [OF assms(1), of content z] assms(5) by (simp add: zstd_compress_def zstd_decompress_def)
  then have "read_any L CborZstd None line 0 = Invalid (length line)"
    using frame_roundtrip [where 'a = 'op, OF z(2), of "[]"] assms(2) by (simp add: read_any_def read_record_def decode_ops_def)
  moreover have "line \<noteq> []"
    using frame_length [OF z(2)] by auto
  ultimately have "scan L CborZstd None line off = (Inr (ReplayLog CborZstd off True False), [])" for off
    by (subst scan.simps) (simp add: follows_def)
  then show ?thesis
    using replay_framed [OF assms(1,3), of None "header CborZstd" line] replay_is_whole [OF assms(8), of L chunk None] assms(9)
    by (simp add: framed_def log_header_def header_def)
qed

definition ex_big_lib :: "(unit, u8) wal_lib" where
  "ex_big_lib =
     \<lparr>wal_cbor = True, wal_msgpack = True, wal_zstd = True, json_op_vec = (\<lambda>_. None), json_ops_vec = (\<lambda>_. None),
      json_value_vec = (\<lambda>_. None), json_op_str = (\<lambda>_. None), json_ops_str = (\<lambda>_. None), json_ops_slice = (\<lambda>_. None),
      json_value_slice = (\<lambda>_. None), to_value = (\<lambda>_. None), from_value = (\<lambda>_. None),
      cbor_write_ops = (\<lambda>ops. Some (replicate (2 ^ 30 + length ops) 0)),
      cbor_read_ops = (\<lambda>b. Some (replicate (length b - 2 ^ 30) ())),
      cbor_write_json = (\<lambda>_. None), cbor_write = (\<lambda>_. None), cbor_read = (\<lambda>_. None), rmp_write_ops = (\<lambda>_. None),
      rmp_read_ops = (\<lambda>_. None), rmp_write_json = (\<lambda>_. None), zstd_bulk_compress = Some, zstd_content_size = (\<lambda>z. Some (length z)),
      zstd_bulk_decompress = (\<lambda>z _. Some z), seal_bytes = (\<lambda>_ _ _. None), open_bytes = (\<lambda>_ _ _. None)\<rparr>"

theorem oversized_record_dropped_witness:
  "\<exists>line. encode_record ex_big_lib CborZstd [()] = Inr line \<and>
     replay ex_big_lib 4096 None [Some (header CborZstd @ line)] = (Inr (ReplayLog CborZstd 8 True False), [])"
proof -
  let ?content = "replicate (2 ^ 30 + 1) (0 :: u8)"
  have lib: "lib_ok ex_big_lib"
    by (simp add: lib_ok_def ex_big_lib_def replicate_length_same)
  have content: "encode_ops ex_big_lib Cbor [()] = Inr ?content"
    by (simp add: encode_ops.simps ex_big_lib_def or_fail_def)
  have "wal_zstd ex_big_lib" "zstd_compress ex_big_lib ?content = Inr ?content"
    by (simp_all add: ex_big_lib_def zstd_compress_def or_fail_def)
  then have "encode_record ex_big_lib CborZstd [()] = frame ?content"
    by (simp only: encode_record_def encode_ops.simps [of _ CborZstd] content and_then_def) simp
  then obtain line where "encode_record ex_big_lib CborZstd [()] = Inr line"
    by (simp only: frame_def length_replicate) simp
  moreover from oversized_record_dropped [OF lib _ _ content _ this, of "[Some (header CborZstd @ line)]" 4096]
  have "replay ex_big_lib 4096 None [Some (header CborZstd @ line)] = (Inr (ReplayLog CborZstd 8 True False), [])"
    by (simp add: ex_big_lib_def compiled_in_def ZSTD_MAX_RECORD_def header_def)
  ultimately show ?thesis
    by blast
qed

end
