(* ===== verification/Group_Commit.thy ===== *)
theory Group_Commit
  imports Wal_Durable
begin

text \<open>
  Group commit (\<^verbatim>\<open>native.rs\<close>: \<^verbatim>\<open>group_commit\<close>, \<^verbatim>\<open>flush_group\<close>): concurrent writers queue their encoded records, one of them
  leads, writes the records of all that are waiting, flushes once and extends the change feed; the others wait. Every
  section under a lock is one step of a transition relation, and so is every write to the file and its flush, which
  may fail.
\<close>

section \<open>State\<close>

text \<open>The field \<open>pc_wal\<close> records the write set a line encodes, for the statements; the program does not keep it.\<close>

record 'op pending_commit =
  pc_seq :: u64
  pc_ops :: "'op list"
  pc_line :: bytes
  pc_format :: wal_format
  pc_wal :: "'op list"

record 'op commit_queue =
  q_pending :: "'op pending_commit list"
  q_next_seq :: u64
  q_durable_seq :: u64
  q_leader :: bool
  q_broken :: bool

definition queue_default :: "'op commit_queue" where
  "queue_default = \<lparr>q_pending = [], q_next_seq = 1, q_durable_seq = 0, q_leader = False, q_broken = False\<rparr>"

datatype gc_error = Codec wal_error | WriteFailed | SyncFailed | WalBrokenErr

text \<open>
  Where a writer is: encoding its record, about to queue it, in the loop of \<^verbatim>\<open>group_commit\<close>, or, as the leader,
  in \<^verbatim>\<open>flush_group\<close> with a batch of which some lines are still to be written, behind the flush, or behind a failure.
\<close>

datatype 'op writer =
  Calling "'op list" "'op list"
| Encoded wal_format bytes "'op list" "'op list"
| Waiting u64
| Flushing u64 "'op pending_commit list" "'op pending_commit list"
| Synced u64 "'op pending_commit list"
| Published u64 "'op pending_commit list"
| Failing u64 gc_error
| Acked u64
| Refused gc_error

text \<open>
  The file with the part known to be on disk, the feed, and the writers. The last three fields are history: the records
  the file holds, in order, how many of them are on disk, and the write set every writer was called with.
\<close>

record ('op, 'tid) gc_state =
  gc_queue :: "'op commit_queue"
  sink_bytes :: bytes
  sink_synced :: nat
  sink_format :: wal_format
  gc_fsyncs :: nat
  gc_feed :: "'op list"
  writers :: "'tid \<Rightarrow> 'op writer option"
  g_log :: "'op pending_commit list"
  g_synced :: nat
  g_call :: "'tid \<Rightarrow> 'op list"

section \<open>Steps\<close>

definition push_pending :: "'op commit_queue \<Rightarrow> 'op list \<Rightarrow> bytes \<Rightarrow> wal_format \<Rightarrow> 'op list \<Rightarrow> u64 \<times> 'op commit_queue" where
  "push_pending q feed_ops line format wal_ops =
     (q_next_seq q,
      q\<lparr>q_next_seq := q_next_seq q + 1,
        q_pending := q_pending q @
          [\<lparr>pc_seq = q_next_seq q, pc_ops = feed_ops, pc_line = line, pc_format = format, pc_wal = wal_ops\<rparr>]\<rparr>)"

text \<open>One turn of the loop of a queued writer, under the lock of the queue; \<open>None\<close> is to wait for a signal.\<close>

definition queue_turn :: "'op commit_queue \<Rightarrow> u64 \<Rightarrow> ('op writer \<times> 'op commit_queue) option" where
  "queue_turn q my_seq =
     (if my_seq \<le> q_durable_seq q then Some (Acked my_seq, q)
      else if q_broken q then Some (Refused WalBrokenErr, q)
      else if \<not> q_leader q then Some (Flushing my_seq (q_pending q) (q_pending q), q\<lparr>q_leader := True, q_pending := []\<rparr>)
      else None)"

text \<open>The bytes of one pending record: encoded again if the log has changed its format in the meantime.\<close>

definition sink_line :: "('op, 'key) wal_lib \<Rightarrow> 'key option \<Rightarrow> wal_format \<Rightarrow> 'op pending_commit \<Rightarrow> wal_error + bytes" where
  "sink_line L key format pc =
     (if pc_format pc = format then Inr (pc_line pc)
      else and_then (decode_record_with L (pc_format pc) key (pc_line pc)) (encode_record_with L format key))"

definition queue_flushed :: "'op commit_queue \<Rightarrow> 'op pending_commit list \<Rightarrow> 'op commit_queue" where
  "queue_flushed q batch =
     q\<lparr>q_leader := False, q_durable_seq := (if batch = [] then q_durable_seq q else max (q_durable_seq q) (pc_seq (last batch)))\<rparr>"

definition queue_failed :: "'op commit_queue \<Rightarrow> 'op commit_queue" where
  "queue_failed q = q\<lparr>q_leader := False, q_broken := True\<rparr>"

abbreviation at :: "('op, 'tid) gc_state \<Rightarrow> 'tid \<Rightarrow> 'op writer \<Rightarrow> ('op, 'tid) gc_state" where
  "at S t w \<equiv> S\<lparr>writers := (writers S)(t \<mapsto> w)\<rparr>"

definition gc_start :: "bytes \<Rightarrow> wal_format \<Rightarrow> ('op, 'tid) gc_state" where
  "gc_start h format =
     \<lparr>gc_queue = queue_default, sink_bytes = h, sink_synced = length h, sink_format = format, gc_fsyncs = 0, gc_feed = [],
      writers = Map.empty, g_log = [], g_synced = 0, g_call = (\<lambda>_. [])\<rparr>"

inductive gc_step :: "('op, 'key) wal_lib \<Rightarrow> 'key option \<Rightarrow> ('op, 'tid) gc_state \<Rightarrow> ('op, 'tid) gc_state \<Rightarrow> bool"
  for L :: "('op, 'key) wal_lib" and key :: "'key option" where
  call: "writers S t = None \<Longrightarrow> wal_ops \<noteq> [] \<Longrightarrow> fits_window L (sink_format S) wal_ops \<Longrightarrow>
    gc_step L key S (at (S\<lparr>g_call := (g_call S)(t := wal_ops)\<rparr>) t (Calling wal_ops feed_ops))"
| encode: "writers S t = Some (Calling wal_ops feed_ops) \<Longrightarrow> encode_record_with L (sink_format S) key wal_ops = Inr line \<Longrightarrow>
    gc_step L key S (at S t (Encoded (sink_format S) line wal_ops feed_ops))"
| encode_fails: "writers S t = Some (Calling wal_ops feed_ops) \<Longrightarrow> encode_record_with L (sink_format S) key wal_ops = Inl e \<Longrightarrow>
    gc_step L key S (at S t (Refused (Codec e)))"
| enqueue: "writers S t = Some (Encoded format line wal_ops feed_ops) \<Longrightarrow> \<not> q_broken (gc_queue S) \<Longrightarrow>
    q_next_seq (gc_queue S) < - 1 \<Longrightarrow> push_pending (gc_queue S) feed_ops line format wal_ops = (seq, q) \<Longrightarrow>
    gc_step L key S (at (S\<lparr>gc_queue := q\<rparr>) t (Waiting seq))"
| enqueue_broken: "writers S t = Some (Encoded format line wal_ops feed_ops) \<Longrightarrow> q_broken (gc_queue S) \<Longrightarrow>
    gc_step L key S (at S t (Refused WalBrokenErr))"
| turn: "writers S t = Some (Waiting seq) \<Longrightarrow> queue_turn (gc_queue S) seq = Some (w, q) \<Longrightarrow>
    gc_step L key S (at (S\<lparr>gc_queue := q\<rparr>) t w)"
| line_written: "writers S t = Some (Flushing seq batch (pc # todo)) \<Longrightarrow> sink_line L key (sink_format S) pc = Inr line \<Longrightarrow>
    gc_step L key S (at (S\<lparr>sink_bytes := sink_bytes S @ line, g_log := g_log S @ [pc]\<rparr>) t (Flushing seq batch todo))"
| line_fails: "writers S t = Some (Flushing seq batch (pc # todo)) \<Longrightarrow> sink_line L key (sink_format S) pc = Inr line \<Longrightarrow>
    strict_prefix part line \<Longrightarrow>
    gc_step L key S (at (S\<lparr>sink_bytes := sink_bytes S @ part\<rparr>) t (Failing seq WriteFailed))"
| recode_fails: "writers S t = Some (Flushing seq batch (pc # todo)) \<Longrightarrow> sink_line L key (sink_format S) pc = Inl e \<Longrightarrow>
    gc_step L key S (at S t (Failing seq (Codec e)))"
| empty_batch: "writers S t = Some (Flushing seq [] []) \<Longrightarrow> gc_step L key S (at S t (Published seq []))"
| sync: "writers S t = Some (Flushing seq batch []) \<Longrightarrow> batch \<noteq> [] \<Longrightarrow>
    gc_step L key S (at (S\<lparr>sink_synced := length (sink_bytes S), g_synced := length (g_log S), gc_fsyncs := gc_fsyncs S + 1\<rparr>) t (Synced seq batch))"
| sync_fails: "writers S t = Some (Flushing seq batch []) \<Longrightarrow> batch \<noteq> [] \<Longrightarrow> gc_step L key S (at S t (Failing seq SyncFailed))"
| publish: "writers S t = Some (Synced seq batch) \<Longrightarrow>
    gc_step L key S (at (S\<lparr>gc_feed := gc_feed S @ concat (map pc_ops batch)\<rparr>) t (Published seq batch))"
| flushed: "writers S t = Some (Published seq batch) \<Longrightarrow>
    gc_step L key S (at (S\<lparr>gc_queue := queue_flushed (gc_queue S) batch\<rparr>) t (Acked seq))"
| failed: "writers S t = Some (Failing seq e) \<Longrightarrow>
    gc_step L key S (at (S\<lparr>gc_queue := queue_failed (gc_queue S)\<rparr>) t (Refused e))"

inductive gc_reachable :: "('op, 'key) wal_lib \<Rightarrow> 'key option \<Rightarrow> bytes \<Rightarrow> wal_format \<Rightarrow> ('op, 'tid) gc_state \<Rightarrow> bool"
  for L :: "('op, 'key) wal_lib" and key :: "'key option" and h :: bytes and format :: wal_format where
  opened: "gc_reachable L key h format (gc_start h format)"
| stepped: "gc_reachable L key h format S \<Longrightarrow> gc_step L key S S' \<Longrightarrow> gc_reachable L key h format S'"

end
