(* ===== verification/Group_Durable.thy ===== *)
theory Group_Durable
  imports Group_Commit
begin

text \<open>
  What group commit guarantees, under every interleaving of the writers and every failure of the file: one leader at a
  time, acknowledged records on disk and recovered after a crash, the change feed in the order of the log, and every
  writer returns.
\<close>

section \<open>Invariant\<close>

fun leading :: "'op writer \<Rightarrow> bool" where
  "leading (Flushing s batch todo) = True"
| "leading (Synced s batch) = True"
| "leading (Published s batch) = True"
| "leading (Failing s e) = True"
| "leading w = False"

definition failing :: "('op, 'tid) gc_state \<Rightarrow> bool" where
  "failing S = (\<exists>t s e. writers S t = Some (Failing s e))"

definition published :: "'op pending_commit list \<Rightarrow> 'op list" where
  "published pcs = concat (map pc_ops pcs)"

definition last_seq :: "'op pending_commit list \<Rightarrow> u64" where
  "last_seq pcs = (if pcs = [] then 0 else pc_seq (last pcs))"

text \<open>The record of a writer among some records.\<close>

definition mine :: "('op, 'tid) gc_state \<Rightarrow> 'tid \<Rightarrow> u64 \<Rightarrow> 'op pending_commit list \<Rightarrow> bool" where
  "mine S t s pcs = (\<exists>pc \<in> set pcs. pc_seq pc = s \<and> pc_wal pc = g_call S t)"

definition lines_of :: "'op pending_commit list \<Rightarrow> bytes" where
  "lines_of pcs = concat (map pc_line pcs)"

text \<open>
  What holds of a writer, for the completed records \<open>C\<close> and the records \<open>todo\<close> the leader has taken and not yet written.
\<close>

fun writer_ok ::
    "('op, 'key) wal_lib \<Rightarrow> 'key option \<Rightarrow> ('op, 'tid) gc_state \<Rightarrow> 'op pending_commit list \<Rightarrow> 'op pending_commit list \<Rightarrow> 'tid \<Rightarrow>
       'op writer \<Rightarrow> bool" where
  "writer_ok L key S C todo t (Calling wal_ops feed_ops) = (wal_ops \<noteq> [] \<and> fits_window L (sink_format S) wal_ops \<and> g_call S t = wal_ops)"
| "writer_ok L key S C todo t (Encoded format line wal_ops feed_ops) =
     (format = sink_format S \<and> written L format key wal_ops line \<and> g_call S t = wal_ops)"
| "writer_ok L key S C todo t (Waiting s) =
     (mine S t s (g_log S @ todo @ q_pending (gc_queue S)) \<or> q_durable_seq (gc_queue S) < s \<and> (q_broken (gc_queue S) \<or> failing S))"
| "writer_ok L key S C todo t (Flushing s batch td) =
     (todo = td \<and> \<not> q_broken (gc_queue S) \<and> mine S t s batch \<and>
      (\<exists>dn. batch = dn @ td \<and> g_log S = C @ dn \<and> g_synced S = length C \<and> gc_feed S = published C))"
| "writer_ok L key S C todo t (Synced s batch) =
     (todo = [] \<and> \<not> q_broken (gc_queue S) \<and> mine S t s batch \<and> g_log S = C @ batch \<and> g_synced S = length (g_log S) \<and> gc_feed S = published C)"
| "writer_ok L key S C todo t (Published s batch) =
     (todo = [] \<and> \<not> q_broken (gc_queue S) \<and> mine S t s batch \<and> g_log S = C @ batch \<and> g_synced S = length (g_log S) \<and>
      gc_feed S = published (C @ batch))"
| "writer_ok L key S C todo t (Failing s e) = (todo = [] \<and> C = take (g_synced S) (g_log S) \<and> gc_feed S = published C)"
| "writer_ok L key S C todo t (Acked s) = mine S t s C"
| "writer_ok L key S C todo t (Refused e) = True"

definition leader_ok :: "('op, 'tid) gc_state \<Rightarrow> bool" where
  "leader_ok S =
     ((\<forall>t w t' w'. writers S t = Some w \<longrightarrow> leading w \<longrightarrow> writers S t' = Some w' \<longrightarrow> leading w' \<longrightarrow> t' = t) \<and>
      (q_leader (gc_queue S) \<longleftrightarrow> (\<exists>t w. writers S t = Some w \<and> leading w)))"

definition idle_ok :: "('op, 'tid) gc_state \<Rightarrow> 'op pending_commit list \<Rightarrow> 'op pending_commit list \<Rightarrow> bool" where
  "idle_ok S C todo =
     (\<not> q_leader (gc_queue S) \<longrightarrow>
        todo = [] \<and> C = take (g_synced S) (g_log S) \<and> gc_feed S = published C \<and> (\<not> q_broken (gc_queue S) \<longrightarrow> C = g_log S))"

definition seqs_ok :: "('op, 'tid) gc_state \<Rightarrow> 'op pending_commit list \<Rightarrow> bool" where
  "seqs_ok S todo =
     (sorted_wrt (<) (map pc_seq (g_log S @ todo @ q_pending (gc_queue S))) \<and>
      (\<forall>pc \<in> set (g_log S @ todo @ q_pending (gc_queue S)). 0 < pc_seq pc \<and> pc_seq pc < q_next_seq (gc_queue S)) \<and>
      0 < q_next_seq (gc_queue S))"

definition records_ok :: "('op, 'key) wal_lib \<Rightarrow> 'key option \<Rightarrow> ('op, 'tid) gc_state \<Rightarrow> 'op pending_commit list \<Rightarrow> bool" where
  "records_ok L key S todo =
     (\<forall>pc \<in> set (g_log S @ todo @ q_pending (gc_queue S)). pc_format pc = sink_format S \<and> written L (sink_format S) key (pc_wal pc) (pc_line pc))"

definition file_ok :: "('op, 'key) wal_lib \<Rightarrow> 'key option \<Rightarrow> bytes \<Rightarrow> ('op, 'tid) gc_state \<Rightarrow> bool" where
  "file_ok L key h S =
     (g_synced S \<le> length (g_log S) \<and> sink_synced S = length (h @ lines_of (take (g_synced S) (g_log S))) \<and>
      (\<exists>part. sink_bytes S = h @ lines_of (g_log S) @ part \<and>
         (part = [] \<or> (q_broken (gc_queue S) \<or> failing S) \<and>
            (\<exists>ops line. written L (sink_format S) key ops line \<and> strict_prefix part line))))"

definition gc_body ::
    "('op, 'key) wal_lib \<Rightarrow> 'key option \<Rightarrow> bytes \<Rightarrow> wal_format \<Rightarrow> ('op, 'tid) gc_state \<Rightarrow> 'op pending_commit list \<Rightarrow> 'op pending_commit list \<Rightarrow> bool" where
  "gc_body L key h format S C todo =
     (sink_format S = format \<and> prefix C (g_log S) \<and> leader_ok S \<and> idle_ok S C todo \<and> q_durable_seq (gc_queue S) = last_seq C \<and> seqs_ok S todo \<and>
      records_ok L key S todo \<and> file_ok L key h S \<and> (\<forall>t w. writers S t = Some w \<longrightarrow> writer_ok L key S C todo t w))"

lemmas gc_body_defs = gc_body_def leader_ok_def idle_ok_def seqs_ok_def records_ok_def file_ok_def

lemma gc_start_body: "gc_body L key h format (gc_start h format) [] []"
  by (simp add: gc_body_defs gc_start_def queue_default_def last_seq_def published_def lines_of_def)

lemma published_append [simp]: "published (xs @ ys) = published xs @ published ys" "published [] = []"
  by (simp_all add: published_def)

lemma lines_of_append [simp]: "lines_of (xs @ ys) = lines_of xs @ lines_of ys" "lines_of [] = []" "lines_of [pc] = pc_line pc"
  by (simp_all add: lines_of_def)

lemma mine_append [simp]: "mine S t s (xs @ ys) \<longleftrightarrow> mine S t s xs \<or> mine S t s ys" "\<not> mine S t s []"
  by (auto simp: mine_def)

lemma mine_cong: "g_call S' u = g_call S u \<Longrightarrow> mine S' u s xs = mine S u s xs"
  by (simp add: mine_def)

lemma mine_mono: "mine S t s xs \<Longrightarrow> set xs \<subseteq> set ys \<Longrightarrow> mine S t s ys"
  by (auto simp: mine_def)

text \<open>The facts of the invariant, one by one.\<close>

lemma gc_bodyD:
  assumes "gc_body L key h format S C todo"
  shows "sink_format S = format" "prefix C (g_log S)" "leader_ok S" "idle_ok S C todo" "q_durable_seq (gc_queue S) = last_seq C"
    "seqs_ok S todo" "records_ok L key S todo" "file_ok L key h S" "writers S t = Some w \<Longrightarrow> writer_ok L key S C todo t w"
  using assms unfolding gc_body_def by blast+

lemma gc_bodyI:
  assumes "sink_format S = format" "prefix C (g_log S)" "leader_ok S" "idle_ok S C todo" "q_durable_seq (gc_queue S) = last_seq C"
    "seqs_ok S todo" "records_ok L key S todo" "file_ok L key h S" "\<And>t w. writers S t = Some w \<Longrightarrow> writer_ok L key S C todo t w"
  shows "gc_body L key h format S C todo"
  using assms unfolding gc_body_def by blast

lemma sorted_last_seq:
  assumes "sorted_wrt (<) (map pc_seq (C @ rest))" and "\<forall>pc \<in> set (C @ rest). 0 < pc_seq pc"
  shows "pc \<in> set rest \<Longrightarrow> last_seq C < pc_seq pc" and "pc \<in> set C \<Longrightarrow> pc_seq pc \<le> last_seq C"
proof -
  show "last_seq C < pc_seq pc" if "pc \<in> set rest"
    using that assms by (cases C rule: rev_cases) (auto simp: last_seq_def sorted_wrt_append)
  show "pc_seq pc \<le> last_seq C" if "pc \<in> set C"
    using that assms by (cases C rule: rev_cases) (auto simp: last_seq_def sorted_wrt_append less_imp_le)
qed

lemma last_seq_split:
  assumes "seqs_ok S todo" and "prefix C (g_log S)"
  shows "pc \<in> set todo \<union> set (q_pending (gc_queue S)) \<Longrightarrow> last_seq C < pc_seq pc"
    and "pc \<in> set (g_log S @ todo @ q_pending (gc_queue S)) \<Longrightarrow> pc_seq pc \<le> last_seq C \<Longrightarrow> pc \<in> set C"
proof -
  obtain dn where "g_log S = C @ dn"
    using assms(2) by (elim prefixE)
  with assms(1) have s: "sorted_wrt (<) (map pc_seq (C @ dn @ todo @ q_pending (gc_queue S)))"
      "\<forall>pc \<in> set (C @ dn @ todo @ q_pending (gc_queue S)). 0 < pc_seq pc"
    by (auto simp: seqs_ok_def)
  show "last_seq C < pc_seq pc" if "pc \<in> set todo \<union> set (q_pending (gc_queue S))"
    using that sorted_last_seq(1) [OF s, of pc] by auto
  show "pc \<in> set C" if "pc \<in> set (g_log S @ todo @ q_pending (gc_queue S))" "pc_seq pc \<le> last_seq C"
    using that sorted_last_seq(1) [OF s, of pc] \<open>g_log S = C @ dn\<close> by (auto simp: not_less [symmetric])
qed

section \<open>One leader\<close>

lemma leader_unique: "leader_ok S \<Longrightarrow> writers S t = Some w \<Longrightarrow> leading w \<Longrightarrow> writers S u = Some v \<Longrightarrow> u \<noteq> t \<Longrightarrow> \<not> leading v"
  unfolding leader_ok_def by blast

lemma leader_flag: "leader_ok S \<Longrightarrow> writers S t = Some w \<Longrightarrow> leading w \<Longrightarrow> q_leader (gc_queue S)"
  unfolding leader_ok_def by blast

lemma leader_ok_same:
  assumes "leader_ok S" and "writers S' = (writers S)(t \<mapsto> w)" and "q_leader (gc_queue S') = q_leader (gc_queue S)"
    and "leading w \<longleftrightarrow> (\<exists>v. writers S t = Some v \<and> leading v)"
  shows "leader_ok S'"
  using assms unfolding leader_ok_def by (auto split: if_splits)

lemma leader_ok_elect:
  assumes "leader_ok S" and "writers S' = (writers S)(t \<mapsto> w)" and "\<not> q_leader (gc_queue S)" and "q_leader (gc_queue S')" and "leading w"
  shows "leader_ok S'"
  using assms unfolding leader_ok_def by auto

lemma leader_ok_retire:
  assumes "leader_ok S" and "writers S' = (writers S)(t \<mapsto> w)" and "writers S t = Some v" and "leading v" and "\<not> leading w"
    and "\<not> q_leader (gc_queue S')"
  shows "leader_ok S'"
  using assms unfolding leader_ok_def by (auto split: if_splits)

lemma not_failing: "leader_ok S \<Longrightarrow> writers S t = Some w \<Longrightarrow> leading w \<Longrightarrow> \<nexists>s e. w = Failing s e \<Longrightarrow> \<not> failing S"
  unfolding failing_def leader_ok_def by (metis leading.simps(4) option.inject)

lemma failing_leads: "leader_ok S \<Longrightarrow> failing S \<Longrightarrow> q_leader (gc_queue S)"
  unfolding failing_def leader_ok_def by (metis leading.simps(4))

section \<open>Preservation\<close>

text \<open>A writer that does not lead keeps its part of the invariant when its record is kept or its failure is certain.\<close>

lemma writer_ok_frame:
  assumes "writer_ok L key S C todo u w" and "\<not> leading w" and "sink_format S' = sink_format S" and "g_call S' u = g_call S u"
    and "set C \<subseteq> set C'"
    and "\<And>s. mine S u s (g_log S @ todo @ q_pending (gc_queue S)) \<Longrightarrow>
       mine S u s (g_log S' @ todo' @ q_pending (gc_queue S')) \<or> q_durable_seq (gc_queue S') < s \<and> (q_broken (gc_queue S') \<or> failing S')"
    and "\<And>s. q_durable_seq (gc_queue S) < s \<Longrightarrow> q_broken (gc_queue S) \<or> failing S \<Longrightarrow>
       q_durable_seq (gc_queue S') < s \<and> (q_broken (gc_queue S') \<or> failing S')"
  shows "writer_ok L key S' C' todo' u w"
proof (cases w)
  case (Waiting s)
  with assms(1) assms(6,7) [of s] show ?thesis
    by (auto simp only: writer_ok.simps mine_cong [OF assms(4)])
next
  case (Acked s)
  with assms show ?thesis
    by (auto simp: mine_cong [OF assms(4)] intro: mine_mono)
qed (use assms in simp_all)

lemma writer_ok_leader_frame:
  assumes "writer_ok L key S C todo u w" and "leading w" and "q_broken (gc_queue S') = q_broken (gc_queue S)" and "g_call S' u = g_call S u"
    and "g_log S' = g_log S" and "g_synced S' = g_synced S" and "gc_feed S' = gc_feed S"
  shows "writer_ok L key S' C todo u w"
  using assms by (cases w) (simp_all add: mine_cong [OF assms(4)])

lemma failing_at:
  assumes "writers S' = (writers S)(t \<mapsto> w)" and "\<nexists>s e. w = Failing s e" and "\<nexists>s e. writers S t = Some (Failing s e)"
  shows "failing S' = failing S"
  using assms unfolding failing_def by (metis fun_upd_apply option.inject)

text \<open>A step of a writer that neither leads before nor after.\<close>

lemma body_quiet:
  assumes body: "gc_body L key h format S C todo"
    and w: "writers S' = (writers S)(t \<mapsto> w)" "\<not> leading w" "\<nexists>v. writers S t = Some v \<and> leading v"
    and same: "sink_format S' = sink_format S" "g_log S' = g_log S" "g_synced S' = g_synced S" "gc_feed S' = gc_feed S"
      "sink_bytes S' = sink_bytes S" "sink_synced S' = sink_synced S" "\<forall>u. u \<noteq> t \<longrightarrow> g_call S' u = g_call S u"
    and q: "q_leader (gc_queue S') = q_leader (gc_queue S)" "q_broken (gc_queue S') = q_broken (gc_queue S)"
      "q_durable_seq (gc_queue S') = q_durable_seq (gc_queue S)" "q_pending (gc_queue S') = q_pending (gc_queue S) @ extra"
    and new: "seqs_ok S' todo" "records_ok L key S' todo" "writer_ok L key S' C todo t w"
  shows "gc_body L key h format S' C todo"
proof -
  note B = gc_bodyD [OF body]
  have f: "failing S' = failing S"
    by (rule failing_at [OF w(1)]) (use w(2,3) in auto)
  have "writer_ok L key S' C todo u v" if "writers S u = Some v" "u \<noteq> t" for u v
  proof (cases "leading v")
    case True
    then show ?thesis
      by (rule writer_ok_leader_frame [OF B(9) [OF that(1)]]) (use same q(2) that(2) in simp_all)
  next
    case False
    then show ?thesis
    proof (rule writer_ok_frame [OF B(9) [OF that(1)]])
      show "mine S u s (g_log S' @ todo @ q_pending (gc_queue S')) \<or> q_durable_seq (gc_queue S') < s \<and> (q_broken (gc_queue S') \<or> failing S')"
        if "mine S u s (g_log S @ todo @ q_pending (gc_queue S))" for s
        using that same(2) q(4) by auto
    qed (use same(1,7) that(2) q(2,3) f in simp_all)
  qed
  with new(3) w(1) have all: "writer_ok L key S' C todo u v" if "writers S' u = Some v" for u v
    using that by (cases "u = t") auto
  show ?thesis
  proof (rule gc_bodyI)
    show "leader_ok S'"
      using leader_ok_same [OF B(3) w(1) q(1)] w(2,3) by blast
    show "idle_ok S' C todo"
      using B(4) unfolding idle_ok_def same q .
    show "file_ok L key h S'"
      using B(8) same q f by (simp add: file_ok_def)
  qed (use B same q new all in simp_all)
qed

text \<open>A step of the leader that leads on.\<close>

lemma body_lead:
  assumes body: "gc_body L key h format S C todo"
    and w: "writers S t = Some v" "leading v" "\<nexists>s e. v = Failing s e" "\<not> q_broken (gc_queue S)" "writers S' = (writers S)(t \<mapsto> w)" "leading w"
    and same: "sink_format S' = sink_format S" "gc_queue S' = gc_queue S" "g_call S' = g_call S" "prefix (g_log S) (g_log S')"
    and kept: "g_log S' @ todo' = g_log S @ todo \<or> failing S' \<and> g_log S' = g_log S"
    and new: "seqs_ok S' todo'" "records_ok L key S' todo'" "file_ok L key h S'" "writer_ok L key S' C todo' t w"
  shows "gc_body L key h format S' C todo'"
proof -
  note B = gc_bodyD [OF body]
  have nf: "\<not> failing S"
    by (rule not_failing [OF B(3) w(1-3)])
  have m: "mine S u s (g_log S' @ todo' @ q_pending (gc_queue S')) \<or> q_durable_seq (gc_queue S') < s \<and> (q_broken (gc_queue S') \<or> failing S')"
    if "mine S u s (g_log S @ todo @ q_pending (gc_queue S))" for u s
    using kept
  proof
    assume "g_log S' @ todo' = g_log S @ todo"
    with that same(2) show ?thesis
      by (metis append.assoc)
  next
    assume "failing S' \<and> g_log S' = g_log S"
    with that same(2) B(5) last_seq_split(1) [OF B(6,2)] show ?thesis
      by (auto simp: mine_def)
  qed
  have "writer_ok L key S' C todo' u x" if "writers S u = Some x" "u \<noteq> t" for u x
    by (rule writer_ok_frame [OF B(9) [OF that(1)] leader_unique [OF B(3) w(1,2) that] same(1) _ _ m]) (use nf w(4) same(3) in simp_all)
  with new(4) w(5) have all: "writer_ok L key S' C todo' u x" if "writers S' u = Some x" for u x
    using that by (cases "u = t") auto
  show ?thesis
  proof (rule gc_bodyI)
    show "leader_ok S'"
      by (rule leader_ok_same [OF B(3) w(5)]) (use w same in auto)
    show "idle_ok S' C todo'"
      using leader_flag [OF B(3) w(1,2)] same(2) by (simp add: idle_ok_def)
    show "prefix C (g_log S')"
      using B(2) same(4) by (rule prefix_order.trans)
  qed (use B same new all in simp_all)
qed

text \<open>The leader returns: the records completed until now are \<open>C'\<close>.\<close>

lemma body_retire:
  assumes body: "gc_body L key h format S C todo"
    and w: "writers S t = Some v" "leading v" "writers S' = (writers S)(t \<mapsto> w)" "\<not> leading w" "\<not> q_leader (gc_queue S')"
    and same: "sink_format S' = sink_format S" "g_call S' = g_call S" "g_log S' = g_log S" "g_synced S' = g_synced S" "gc_feed S' = gc_feed S"
      "sink_bytes S' = sink_bytes S" "sink_synced S' = sink_synced S"
    and q: "q_pending (gc_queue S') = q_pending (gc_queue S)" "q_next_seq (gc_queue S') = q_next_seq (gc_queue S)"
      "q_durable_seq (gc_queue S') = last_seq C'"
    and C': "prefix C C'" "prefix C' (g_log S)" "todo = []" "idle_ok S' C' []"
    and broken: "q_broken (gc_queue S') \<and> C' = C \<or> \<not> q_broken (gc_queue S) \<and> \<not> failing S"
    and new: "writer_ok L key S' C' [] t w"
  shows "gc_body L key h format S' C' []"
proof -
  note B = gc_bodyD [OF body]
  have oth: "writer_ok L key S' C' [] u x" if "writers S u = Some x" "u \<noteq> t" for u x
  proof (rule writer_ok_frame [OF B(9) [OF that(1)] leader_unique [OF B(3) w(1,2) that]])
    show "set C \<subseteq> set C'"
      using C'(1) by (rule set_mono_prefix)
  qed (use B(5) broken same q C'(3) in auto)
  with new w(3) have all: "writer_ok L key S' C' [] u x" if "writers S' u = Some x" for u x
    using that by (cases "u = t") auto
  show ?thesis
  proof (rule gc_bodyI)
    show "leader_ok S'"
      by (rule leader_ok_retire [OF B(3) w(3,1,2,4,5)])
    show "file_ok L key h S'"
      using B(8) broken same by (auto simp: file_ok_def)
    show "seqs_ok S' []" "records_ok L key S' []"
      using B(6,7) same q C'(3) by (simp_all add: seqs_ok_def records_ok_def)
  qed (use B same q C' all in simp_all)
qed

text \<open>The steps before a record is queued change no shared state.\<close>

lemma body_local:
  assumes "gc_body L key h format S C todo" and "\<nexists>v. writers S t = Some v \<and> leading v" and "\<not> leading w"
    and "\<forall>u. u \<noteq> t \<longrightarrow> c u = g_call S u" and "writer_ok L key (at (S\<lparr>g_call := c\<rparr>) t w) C todo t w"
  shows "gc_body L key h format (at (S\<lparr>g_call := c\<rparr>) t w) C todo"
  by (rule body_quiet [OF assms(1), where t = t and w = w and extra = "[]"])
    (use assms gc_bodyD(6,7) [OF assms(1)] in \<open>simp_all add: seqs_ok_def records_ok_def\<close>)

lemma body_local_same:
  assumes "gc_body L key h format S C todo" and "writers S t = Some v" and "\<not> leading v" and "\<not> leading w"
    and "writer_ok L key (at S t w) C todo t w"
  shows "gc_body L key h format (at S t w) C todo"
  using body_local [OF assms(1), of t w "g_call S"] assms(2-5) by simp

lemma enqueue_body:
  assumes "gc_body L key h format S C todo" and "writers S t = Some (Encoded f line wal_ops feed_ops)"
    and "q_next_seq (gc_queue S) < - 1" and "push_pending (gc_queue S) feed_ops line f wal_ops = (seq, q)"
  shows "gc_body L key h format (at (S\<lparr>gc_queue := q\<rparr>) t (Waiting seq)) C todo"
proof -
  note B = gc_bodyD [OF assms(1)]
  let ?n = "q_next_seq (gc_queue S)" and ?S = "at (S\<lparr>gc_queue := q\<rparr>) t (Waiting seq)"
  let ?pc = "\<lparr>pc_seq = ?n, pc_ops = feed_ops, pc_line = line, pc_format = f, pc_wal = wal_ops\<rparr>"
  have q: "seq = ?n" "q = (gc_queue S)\<lparr>q_next_seq := ?n + 1, q_pending := q_pending (gc_queue S) @ [?pc]\<rparr>"
    using assms(4) by (auto simp: push_pending_def)
  have up: "?n < ?n + 1"
    using assms(3) by (intro word_plus_one_gt) auto
  have w: "f = sink_format S" "written L f key wal_ops line" "g_call S t = wal_ops"
    using B(9) [OF assms(2)] by auto
  show ?thesis
  proof (rule body_quiet [OF assms(1), where t = t and w = "Waiting seq" and extra = "[?pc]"])
    show "seqs_ok ?S todo"
      using B(6) up q by (auto simp: seqs_ok_def sorted_wrt_append intro: order.strict_trans)
    show "records_ok L key ?S todo"
      using B(7) w q by (auto simp: records_ok_def)
    show "writer_ok L key ?S C todo t (Waiting seq)"
      using w q by (simp add: mine_def)
  qed (use assms(2) q in simp_all)
qed

lemma elect_body:
  assumes "gc_body L key h format S C todo" and "writers S t = Some (Waiting seq)" and "\<not> q_leader (gc_queue S)" and "\<not> q_broken (gc_queue S)"
    and "q_durable_seq (gc_queue S) < seq"
  shows "gc_body L key h format
    (at (S\<lparr>gc_queue := (gc_queue S)\<lparr>q_leader := True, q_pending := []\<rparr>\<rparr>) t (Flushing seq (q_pending (gc_queue S)) (q_pending (gc_queue S)))) C
    (q_pending (gc_queue S))" (is "gc_body L key h format ?S C ?todo")
proof -
  note B = gc_bodyD [OF assms(1)]
  have idle: "todo = []" "C = g_log S" "C = take (g_synced S) (g_log S)" "gc_feed S = published C"
    using B(4) assms(3,4) by (auto simp: idle_ok_def)
  moreover have "g_synced S \<le> length (g_log S)"
    using B(8) by (simp add: file_ok_def)
  ultimately have g: "g_synced S = length C"
    by (metis length_take min.absorb2)
  have nf: "\<not> failing S" "\<not> failing ?S"
    using failing_leads [OF B(3)] assms(3) failing_at [of ?S S t] assms(2) by auto
  have "mine S t seq (g_log S @ ?todo)"
    using B(9) [OF assms(2)] assms(4) nf(1) idle(1) by simp
  then have m: "mine S t seq ?todo"
    using sorted_last_seq(2) [of C ?todo] B(5,6) idle(1,2) assms(5) by (fastforce simp: mine_def seqs_ok_def dest: leD)
  have oth: "writer_ok L key ?S C ?todo u x" if "writers S u = Some x" "u \<noteq> t" for u x
  proof -
    have "\<not> leading x"
      using leader_flag [OF B(3) that(1)] assms(3) by blast
    then show ?thesis
      by (rule writer_ok_frame [OF B(9) [OF that(1)]]) (use idle(1) assms(4) nf in simp_all)
  qed
  show ?thesis
  proof (rule gc_bodyI)
    show "leader_ok ?S"
      by (rule leader_ok_elect [OF B(3), where t = t and w = "Flushing seq ?todo ?todo"]) (use assms(3) in simp_all)
    have "writer_ok L key ?S C ?todo t (Flushing seq ?todo ?todo)"
      using m idle(2,4) g assms(4) by (simp add: mine_def)
    then show "writer_ok L key ?S C ?todo u x" if "writers ?S u = Some x" for u x
      using that oth [of u x] by (cases "u = t") auto
    show "idle_ok ?S C ?todo"
      by (simp add: idle_ok_def)
    show "seqs_ok ?S ?todo" "records_ok L key ?S ?todo" "file_ok L key h ?S"
      using B(6-8) idle(1) assms(4) nf by (simp_all add: seqs_ok_def records_ok_def file_ok_def)
  qed (use B in simp_all)
qed

lemma turn_body:
  assumes "gc_body L key h format S C todo" and "writers S t = Some (Waiting seq)" and "queue_turn (gc_queue S) seq = Some (w, q)"
  shows "\<exists>todo'. gc_body L key h format (at (S\<lparr>gc_queue := q\<rparr>) t w) C todo'"
proof -
  note B = gc_bodyD [OF assms(1)]
  let ?q = "gc_queue S"
  consider "w = Acked seq" "q = ?q" "seq \<le> q_durable_seq ?q" | "w = Refused WalBrokenErr" "q = ?q"
    | "w = Flushing seq (q_pending ?q) (q_pending ?q)" "q = ?q\<lparr>q_leader := True, q_pending := []\<rparr>" "\<not> q_leader ?q" "\<not> q_broken ?q"
      "q_durable_seq ?q < seq"
    using assms(3) by (auto simp: queue_turn_def split: if_splits)
  then show ?thesis
  proof cases
    case 1
    with B(9) [OF assms(2)] B(5) last_seq_split(2) [OF B(6,2)] have "mine S t seq C"
      by (auto simp: mine_def)
    then have "gc_body L key h format (at S t w) C todo"
      using 1 by (intro body_local_same [OF assms(1,2)]) (simp_all add: mine_def)
    with 1 show ?thesis
      by auto
  next
    case 2
    then have "gc_body L key h format (at S t w) C todo"
      by (intro body_local_same [OF assms(1,2)]) simp_all
    with 2 show ?thesis
      by auto
  next
    case 3
    show ?thesis
      using elect_body [OF assms(1,2) 3(3-5)] 3(1,2) by blast
  qed
qed

text \<open>Writing the lines of a batch.\<close>

lemma sink_line_same: "records_ok L key S todo \<Longrightarrow> pc \<in> set todo \<Longrightarrow> sink_line L key (sink_format S) pc = Inr (pc_line pc)"
  by (auto simp: records_ok_def sink_line_def)

lemma flushing_facts:
  assumes "gc_body L key h format S C todo" and "writers S t = Some (Flushing seq batch td)"
  obtains dn where "todo = td" "\<not> q_broken (gc_queue S)" "\<not> failing S" "batch = dn @ td" "g_log S = C @ dn" "g_synced S = length C"
    "gc_feed S = published C" "mine S t seq batch" "sink_bytes S = h @ lines_of (g_log S)"
proof -
  note B = gc_bodyD [OF assms(1)]
  have "\<not> failing S"
    by (rule not_failing [OF B(3) assms(2)]) simp_all
  with B(8) B(9) [OF assms(2)] that show ?thesis
    by (auto simp: file_ok_def)
qed

lemma line_written_body:
  assumes "gc_body L key h format S C todo" and "writers S t = Some (Flushing seq batch (pc # td))"
    and "sink_line L key (sink_format S) pc = Inr line"
  shows "gc_body L key h format (at (S\<lparr>sink_bytes := sink_bytes S @ line, g_log := g_log S @ [pc]\<rparr>) t (Flushing seq batch td)) C td"
    (is "gc_body L key h format ?S C td")
proof -
  note B = gc_bodyD [OF assms(1)]
  obtain dn where F: "todo = pc # td" "\<not> q_broken (gc_queue S)" "\<not> failing S" "batch = dn @ pc # td" "g_log S = C @ dn"
      "g_synced S = length C" "gc_feed S = published C" "mine S t seq batch" "sink_bytes S = h @ lines_of (g_log S)"
    by (rule flushing_facts [OF assms(1,2)])
  have l: "line = pc_line pc"
    using sink_line_same [OF B(7), of pc] assms(3) F(1) by simp
  show ?thesis
  proof (rule body_lead [OF assms(1,2), where w = "Flushing seq batch td"])
    show "seqs_ok ?S td" "records_ok L key ?S td"
      using B(6,7) F(1) by (simp_all add: seqs_ok_def records_ok_def)
    show "file_ok L key h ?S"
      using B(8) F(3,5,6,9) l by (simp add: file_ok_def)
    show "writer_ok L key ?S C td t (Flushing seq batch td)"
      using F by (simp add: mine_def)
  qed (use F in simp_all)
qed

text \<open>A failure of the leader, with a part of a line behind the records.\<close>

lemma leader_fails_body:
  assumes "gc_body L key h format S C todo" and "writers S t = Some (Flushing seq batch td)"
    and "part = [] \<or> (\<exists>ops line. written L format key ops line \<and> strict_prefix part line)"
  shows "gc_body L key h format (at (S\<lparr>sink_bytes := sink_bytes S @ part\<rparr>) t (Failing seq e)) C []"
    (is "gc_body L key h format ?S C []")
proof -
  note B = gc_bodyD [OF assms(1)]
  obtain dn where F: "todo = td" "\<not> q_broken (gc_queue S)" "\<not> failing S" "batch = dn @ td" "g_log S = C @ dn"
      "g_synced S = length C" "gc_feed S = published C" "mine S t seq batch" "sink_bytes S = h @ lines_of (g_log S)"
    by (rule flushing_facts [OF assms(1,2)])
  have f: "failing ?S"
    by (auto simp: failing_def)
  show ?thesis
  proof (rule body_lead [OF assms(1,2), where w = "Failing seq e"])
    show "seqs_ok ?S []" "records_ok L key ?S []"
      using B(6,7) by (auto simp: seqs_ok_def records_ok_def sorted_wrt_append)
    show "file_ok L key h ?S"
      using B(1,8) F(5,6,9) f assms(3) by (auto simp: file_ok_def)
    show "writer_ok L key ?S C [] t (Failing seq e)"
      using F by simp
    show "g_log ?S @ [] = g_log S @ todo \<or> failing ?S \<and> g_log ?S = g_log S"
      using f by simp
  qed (use F in simp_all)
qed

lemma leader_fails_same:
  assumes "gc_body L key h format S C todo" and "writers S t = Some (Flushing seq batch td)"
  shows "gc_body L key h format (at S t (Failing seq e)) C []"
  using leader_fails_body [OF assms, of "[]" e] by simp

lemma sync_body:
  assumes "gc_body L key h format S C todo" and "writers S t = Some (Flushing seq batch [])"
  shows "gc_body L key h format (at (S\<lparr>sink_synced := length (sink_bytes S), g_synced := length (g_log S), gc_fsyncs := gc_fsyncs S + 1\<rparr>) t
    (Synced seq batch)) C []" (is "gc_body L key h format ?S C []")
proof -
  note B = gc_bodyD [OF assms(1)]
  obtain dn where F: "todo = []" "\<not> q_broken (gc_queue S)" "\<not> failing S" "batch = dn @ []" "g_log S = C @ dn"
      "g_synced S = length C" "gc_feed S = published C" "mine S t seq batch" "sink_bytes S = h @ lines_of (g_log S)"
    by (rule flushing_facts [OF assms])
  show ?thesis
  proof (rule body_lead [OF assms, where w = "Synced seq batch"])
    show "seqs_ok ?S []" "records_ok L key ?S []"
      using B(6,7) F(1) by (simp_all add: seqs_ok_def records_ok_def)
    show "file_ok L key h ?S"
      using F(9) by (simp add: file_ok_def)
    show "writer_ok L key ?S C [] t (Synced seq batch)"
      using F by (simp add: mine_def)
  qed (use F in simp_all)
qed

lemma publish_body:
  assumes "gc_body L key h format S C todo" and "writers S t = Some (Synced seq batch)"
  shows "gc_body L key h format (at (S\<lparr>gc_feed := gc_feed S @ concat (map pc_ops batch)\<rparr>) t (Published seq batch)) C []"
    (is "gc_body L key h format ?S C []")
proof -
  note B = gc_bodyD [OF assms(1)]
  have w: "todo = []" "\<not> q_broken (gc_queue S)" "mine S t seq batch" "g_log S = C @ batch" "g_synced S = length (g_log S)" "gc_feed S = published C"
    using B(9) [OF assms(2)] by simp_all
  have nf: "\<not> failing S"
    by (rule not_failing [OF B(3) assms(2)]) simp_all
  show ?thesis
  proof (rule body_lead [OF assms, where w = "Published seq batch"])
    show "seqs_ok ?S []" "records_ok L key ?S []"
      using B(6,7) w(1) by (simp_all add: seqs_ok_def records_ok_def)
    show "file_ok L key h ?S"
      using B(8) w(2) nf by (auto simp: file_ok_def)
    show "writer_ok L key ?S C [] t (Published seq batch)"
      using w by (simp add: mine_def published_def)
  qed (use w in simp_all)
qed

lemma flushed_body:
  assumes "gc_body L key h format S C todo" and "writers S t = Some (Published seq batch)"
  shows "gc_body L key h format (at (S\<lparr>gc_queue := queue_flushed (gc_queue S) batch\<rparr>) t (Acked seq)) (C @ batch) []"
    (is "gc_body L key h format ?S ?C []")
proof -
  note B = gc_bodyD [OF assms(1)]
  have w: "todo = []" "\<not> q_broken (gc_queue S)" "mine S t seq batch" "g_log S = ?C" "g_synced S = length (g_log S)" "gc_feed S = published ?C"
    using B(9) [OF assms(2)] by simp_all
  have nf: "\<not> failing S"
    by (rule not_failing [OF B(3) assms(2)]) simp_all
  have s: "sorted_wrt (<) (map pc_seq (C @ batch))" "\<forall>pc \<in> set (C @ batch). 0 < pc_seq pc"
    using B(6) w(4) by (auto simp: seqs_ok_def sorted_wrt_append)
  have d: "q_durable_seq (queue_flushed (gc_queue S) batch) = last_seq ?C"
    using B(5) sorted_last_seq(1) [OF s, of "last batch"] by (auto simp: queue_flushed_def last_seq_def split: if_splits)
  show ?thesis
    by (rule body_retire [OF assms(1,2), where w = "Acked seq"])
      (use w nf d in \<open>auto simp: queue_flushed_def idle_ok_def mine_def\<close>)
qed

lemma failed_body:
  assumes "gc_body L key h format S C todo" and "writers S t = Some (Failing seq e)"
  shows "gc_body L key h format (at (S\<lparr>gc_queue := queue_failed (gc_queue S)\<rparr>) t (Refused e)) C []"
  by (rule body_retire [OF assms, where w = "Refused e"])
    (use gc_bodyD(2,5) [OF assms(1)] gc_bodyD(9) [OF assms] in \<open>simp_all add: queue_failed_def idle_ok_def\<close>)

lemma gc_step_body:
  assumes "gc_step L key S S'" and "gc_body L key h format S C todo"
  shows "\<exists>C todo. gc_body L key h format S' C todo"
  using assms
proof cases
  case (call t wal_ops feed_ops)
  with body_local [OF assms(2), of t "Calling wal_ops feed_ops" "(g_call S)(t := wal_ops)"] show ?thesis
    by fastforce
next
  case (encode t wal_ops feed_ops line)
  with gc_bodyD(9) [OF assms(2) encode(2)] body_local_same [OF assms(2) encode(2), of "Encoded (sink_format S) line wal_ops feed_ops"] show ?thesis
    by (fastforce simp: written_def)
next
  case (enqueue t f line wal_ops feed_ops seq q)
  with enqueue_body [OF assms(2)] show ?thesis
    by blast
next
  case (turn t seq w q)
  with turn_body [OF assms(2)] show ?thesis
    by blast
next
  case (line_fails t seq batch pc td line part)
  moreover obtain dn where "todo = pc # td"
    by (rule flushing_facts [OF assms(2) line_fails(2)])
  ultimately have "written L format key (pc_wal pc) line"
    using gc_bodyD(1,7) [OF assms(2)] sink_line_same [of L key S todo pc] by (auto simp: records_ok_def)
  with line_fails leader_fails_body [OF assms(2) line_fails(2)] show ?thesis
    by blast
next
  case (empty_batch t seq)
  with gc_bodyD(9) [OF assms(2) empty_batch(2)] show ?thesis
    by simp
next
  case (encode_fails t wal_ops feed_ops e)
  with body_local_same [OF assms(2) encode_fails(2), of "Refused (Codec e)"] show ?thesis
    by auto
next
  case (enqueue_broken t f line wal_ops feed_ops)
  with body_local_same [OF assms(2) enqueue_broken(2), of "Refused WalBrokenErr"] show ?thesis
    by auto
qed (blast intro: line_written_body [OF assms(2)] leader_fails_same [OF assms(2)] sync_body [OF assms(2)] publish_body [OF assms(2)]
    flushed_body [OF assms(2)] failed_body [OF assms(2)])+

lemma gc_reachable_body: "gc_reachable L key h format S \<Longrightarrow> \<exists>C todo. gc_body L key h format S C todo"
proof (induction rule: gc_reachable.induct)
  case opened
  show ?case
    using gc_start_body by blast
next
  case (stepped S S')
  then show ?case
    using gc_step_body by blast
qed

section \<open>What a crash leaves\<close>

lemma cut_lines:
  "\<exists>k tail. k \<le> length pcs \<and> take n (lines_of pcs) = lines_of (take k pcs) @ tail \<and>
     (tail = [] \<or> k < length pcs \<and> strict_prefix tail (pc_line (pcs ! k))) \<and>
     (\<forall>j \<le> length pcs. length (lines_of (take j pcs)) \<le> n \<longrightarrow> j \<le> k)"
proof (induction pcs arbitrary: n)
  case Nil
  then show ?case
    by (simp add: lines_of_def)
next
  case (Cons pc pcs)
  let ?l = "pc_line pc"
  have lines: "lines_of (take (Suc j) (pc # pcs)) = ?l @ lines_of (take j pcs)" for j
    by (simp add: lines_of_def)
  show ?case
  proof (cases "length ?l \<le> n")
    case True
    from Cons.IH [of "n - length ?l"] obtain k tail where k: "k \<le> length pcs" "take (n - length ?l) (lines_of pcs) = lines_of (take k pcs) @ tail"
        "tail = [] \<or> k < length pcs \<and> strict_prefix tail (pc_line (pcs ! k))"
        "\<forall>j \<le> length pcs. length (lines_of (take j pcs)) \<le> n - length ?l \<longrightarrow> j \<le> k"
      by blast
    have "j \<le> Suc k" if "j \<le> Suc (length pcs)" "length (lines_of (take j (pc # pcs))) \<le> n" for j
      using that k(4) lines by (cases j) auto
    with k True lines [of k] show ?thesis
      by (intro exI [of _ "Suc k"] exI [of _ tail]) (simp add: lines_of_def)
  next
    case False
    then have "take n ?l \<noteq> ?l"
      by (metis length_take min.cobounded2)
    then have "strict_prefix (take n ?l) ?l"
      by (simp add: strict_prefix_def take_is_prefix)
    moreover have "j = 0" if "length (lines_of (take j (pc # pcs))) \<le> n" for j
      using that False lines by (cases j) auto
    ultimately show ?thesis
      using False by (intro exI [of _ 0] exI [of _ "take n ?l"]) (auto simp: lines_of_def)
  qed
qed

text \<open>The bytes a crash leaves are at least those that were flushed: whole records and perhaps the beginning of one.\<close>

lemma crash_cut:
  assumes "file_ok L key h S" and "records_ok L key S todo" and "sink_synced S \<le> n"
  obtains k tail where "g_synced S \<le> k" and "k \<le> length (g_log S)" and "take n (sink_bytes S) = h @ lines_of (take k (g_log S)) @ tail"
    and "tail = [] \<or> (\<exists>ops line. written L (sink_format S) key ops line \<and> strict_prefix tail line)"
proof -
  let ?m = "n - length h"
  obtain part where part: "sink_bytes S = h @ lines_of (g_log S) @ part"
      "part = [] \<or> (\<exists>ops line. written L (sink_format S) key ops line \<and> strict_prefix part line)"
    using assms(1) by (auto simp: file_ok_def)
  have synced: "g_synced S \<le> length (g_log S)" "length h \<le> n" "length (lines_of (take (g_synced S) (g_log S))) \<le> ?m"
    using assms(1,3) by (auto simp: file_ok_def)
  show ?thesis
  proof (cases "?m \<le> length (lines_of (g_log S))")
    case True
    obtain k tail where k: "k \<le> length (g_log S)" "take ?m (lines_of (g_log S)) = lines_of (take k (g_log S)) @ tail"
        "tail = [] \<or> k < length (g_log S) \<and> strict_prefix tail (pc_line (g_log S ! k))" "g_synced S \<le> k"
      using cut_lines [of "g_log S" ?m] synced(1,3) by blast
    with assms(2) have "tail = [] \<or> (\<exists>ops line. written L (sink_format S) key ops line \<and> strict_prefix tail line)"
      unfolding records_ok_def by (metis UnCI nth_mem set_append)
    with k True part(1) synced(2) show ?thesis
      by (intro that [of k tail]) simp_all
  next
    case False
    let ?tail = "take (?m - length (lines_of (g_log S))) part"
    have "strict_prefix ?tail line" if "strict_prefix part line" for line
      using that by (metis take_is_prefix prefix_order.le_less_trans)
    with part(2) have "?tail = [] \<or> (\<exists>ops line. written L (sink_format S) key ops line \<and> strict_prefix ?tail line)"
      by auto
    with False part(1) synced show ?thesis
      by (intro that [of "length (g_log S)" ?tail]) simp_all
  qed
qed

lemma acked_synced:
  assumes "gc_body L key h format S C todo" and "writers S t = Some (Acked s)" and "g_synced S \<le> k"
  shows "mine S t s (take k (g_log S))"
proof -
  note B = gc_bodyD [OF assms(1)]
  have "length C \<le> g_synced S"
  proof (cases "q_leader (gc_queue S)")
    case True
    then obtain u w where u: "writers S u = Some w" "leading w"
      using B(3) by (auto simp: leader_ok_def)
    then show ?thesis
      using B(9) [OF u(1)] by (cases w) auto
  next
    case False
    with B(4) show ?thesis
      by (metis idle_ok_def length_take min.cobounded2)
  qed
  with assms(3) B(2) have "prefix C (take k (g_log S))"
    by (auto simp: prefix_def)
  with B(9) [OF assms(2)] show ?thesis
    by (auto dest: set_mono_prefix intro: mine_mono)
qed


text \<open>A run to evaluate: one writer commits alone.\<close>

definition solo_commit :: "bytes \<Rightarrow> wal_format \<Rightarrow> 'op list \<Rightarrow> 'op list \<Rightarrow> bytes \<Rightarrow> ('op, nat) gc_state" where
  "solo_commit h format ops feed line =
     \<lparr>gc_queue = \<lparr>q_pending = [], q_next_seq = 2, q_durable_seq = 1, q_leader = False, q_broken = False\<rparr>, sink_bytes = h @ line,
      sink_synced = length (h @ line), sink_format = format, gc_fsyncs = 1, gc_feed = feed, writers = [0 \<mapsto> Acked 1],
      g_log = [\<lparr>pc_seq = 1, pc_ops = feed, pc_line = line, pc_format = format, pc_wal = ops\<rparr>], g_synced = 1,
      g_call = (\<lambda>_. [])(0 := ops)\<rparr>"

lemma one_less_u64_max: "(1::u64) < - 1"
  by code_simp

lemma solo_commit_reachable:
  assumes "written L format key ops line"
  shows "gc_reachable L key h format (solo_commit h format ops feed line)"
proof -
  let ?pc = "\<lparr>pc_seq = 1, pc_ops = feed, pc_line = line, pc_format = format, pc_wal = ops\<rparr>"
  let ?S0 = "gc_start h format"
  let ?S1 = "at (?S0\<lparr>g_call := (g_call ?S0)(0 := ops)\<rparr>) (0::nat) (Calling ops feed)"
  let ?S2 = "at ?S1 0 (Encoded (sink_format ?S1) line ops feed)"
  let ?q3 = "\<lparr>q_pending = [?pc], q_next_seq = 2, q_durable_seq = 0, q_leader = False, q_broken = False\<rparr>"
  let ?S3 = "at (?S2\<lparr>gc_queue := ?q3\<rparr>) 0 (Waiting 1)"
  let ?S4 = "at (?S3\<lparr>gc_queue := ?q3\<lparr>q_leader := True, q_pending := []\<rparr>\<rparr>) 0 (Flushing 1 [?pc] [?pc])"
  let ?S5 = "at (?S4\<lparr>sink_bytes := sink_bytes ?S4 @ line, g_log := g_log ?S4 @ [?pc]\<rparr>) 0 (Flushing 1 [?pc] [])"
  let ?S6 = "at (?S5\<lparr>sink_synced := length (sink_bytes ?S5), g_synced := length (g_log ?S5), gc_fsyncs := gc_fsyncs ?S5 + 1\<rparr>) 0 (Synced 1 [?pc])"
  let ?S7 = "at (?S6\<lparr>gc_feed := gc_feed ?S6 @ concat (map pc_ops [?pc])\<rparr>) 0 (Published 1 [?pc])"
  let ?S8 = "at (?S7\<lparr>gc_queue := queue_flushed (gc_queue ?S7) [?pc]\<rparr>) 0 (Acked 1)"
  note w = assms [unfolded written_def]
  have "gc_reachable L key h format ?S0"
    by (rule opened)
  then have "gc_reachable L key h format ?S1"
    by (rule stepped [OF _ call]) (use w in \<open>simp_all add: gc_start_def\<close>)
  then have "gc_reachable L key h format ?S2"
    by (rule stepped [OF _ encode]) (use w in \<open>simp_all add: gc_start_def\<close>)
  then have "gc_reachable L key h format ?S3"
    by (rule stepped [OF _ enqueue [where format = format and line = line and wal_ops = ops and feed_ops = feed]])
      (simp_all add: gc_start_def queue_default_def push_pending_def one_less_u64_max)
  then have "gc_reachable L key h format ?S4"
    by (rule stepped [OF _ turn [where seq = 1]]) (simp_all add: queue_turn_def)
  then have "gc_reachable L key h format ?S5"
    by (rule stepped [OF _ line_written]) (simp_all add: sink_line_def gc_start_def)
  then have "gc_reachable L key h format ?S6"
    by (rule stepped [OF _ sync]) simp_all
  then have "gc_reachable L key h format ?S7"
    by (rule stepped [OF _ publish]) simp
  then have "gc_reachable L key h format ?S8"
    by (rule stepped [OF _ flushed]) simp
  then show ?thesis
    by (simp add: solo_commit_def gc_start_def queue_flushed_def)
qed


section \<open>The change feed\<close>

text \<open>C7.
  The change feed runs behind the disk and in its order: it holds the changes of the first records of the log, in the
  order of the log, only of records that were flushed, and of every acknowledged writer.\<close>

theorem feed_follows_log:
  assumes "gc_reachable L key h format S"
  shows "\<exists>k \<le> g_synced S. gc_feed S = concat (map pc_ops (take k (g_log S))) \<and>
      (\<forall>t s. writers S t = Some (Acked s) \<longrightarrow> (\<exists>pc \<in> set (take k (g_log S)). pc_seq pc = s \<and> pc_wal pc = g_call S t))"
proof -
  obtain C todo where body: "gc_body L key h format S C todo"
    using gc_reachable_body [OF assms] by blast
  note B = gc_bodyD [OF body]
  have acked: "\<exists>pc \<in> set xs. pc_seq pc = s \<and> pc_wal pc = g_call S t" if "writers S t = Some (Acked s)" "set C \<subseteq> set xs" for t s xs
    using B(9) [OF that(1)] that(2) by (auto simp: mine_def)
  have "\<exists>k \<le> g_synced S. gc_feed S = published (take k (g_log S)) \<and> prefix C (take k (g_log S))"
  proof (cases "q_leader (gc_queue S)")
    case True
    then obtain u w where u: "writers S u = Some w" "leading w"
      using B(3) by (auto simp: leader_ok_def)
    have "\<exists>k \<le> g_synced S. gc_feed S = published (take k (g_log S)) \<and> C = take k (g_log S)" if "\<nexists>s batch. w = Published s batch"
      using B(9) [OF u(1)] u(2) that by (cases w) (auto intro!: exI [of _ "length C"] simp: min_def)
    moreover have "gc_feed S = published (take (g_synced S) (g_log S)) \<and> prefix C (take (g_synced S) (g_log S))" if "w = Published s batch" for s batch
      using B(9) [OF u(1)] that by simp
    ultimately show ?thesis
      by (metis order_refl prefix_order.refl)
  next
    case False
    with B(4) show ?thesis
      by (auto simp: idle_ok_def)
  qed
  then show ?thesis
    using acked set_mono_prefix unfolding published_def by metis
qed

theorem feed_follows_log_witness: "\<exists>k \<le> 1. gc_feed (solo_commit ex_h Cbor [True] [False] (ex_line [True])) =
    concat (map pc_ops (take k (g_log (solo_commit ex_h Cbor [True] [False] (ex_line [True])))))"
  using feed_follows_log [OF solo_commit_reachable [OF ex_written, of "[True]" ex_h "[False]"]] by (auto simp: solo_commit_def)

section \<open>Every writer returns\<close>

fun returned :: "'op writer \<Rightarrow> bool" where
  "returned (Acked s) = True"
| "returned (Refused e) = True"
| "returned w = False"

fun steps_left :: "'op writer \<Rightarrow> nat" where
  "steps_left (Calling wal_ops feed_ops) = 8"
| "steps_left (Encoded format line wal_ops feed_ops) = 7"
| "steps_left (Waiting s) = 4"
| "steps_left (Flushing s batch todo) = 3 + length todo"
| "steps_left (Synced s batch) = 2"
| "steps_left (Published s batch) = 1"
| "steps_left (Failing s e) = 1"
| "steps_left (Acked s) = 0"
| "steps_left (Refused e) = 0"

definition gc_work :: "('op, 'tid) gc_state \<Rightarrow> nat" where
  "gc_work S = length (q_pending (gc_queue S)) + (\<Sum>t \<in> dom (writers S). steps_left (the (writers S t)))"

lemma gc_work_at:
  assumes "finite (dom (writers S))" and "writers S t = Some v" and "writers S' = (writers S)(t \<mapsto> w)"
    and "length (q_pending (gc_queue S')) + steps_left w < length (q_pending (gc_queue S)) + steps_left v"
  shows "gc_work S' < gc_work S"
proof -
  have d: "dom (writers S') = dom (writers S)" "t \<in> dom (writers S)"
    using assms(2,3) by auto
  have "(\<Sum>u \<in> dom (writers S) - {t}. steps_left (the (writers S' u))) = (\<Sum>u \<in> dom (writers S) - {t}. steps_left (the (writers S u)))"
    using assms(3) by (intro sum.cong) auto
  with assms d show ?thesis
    by (simp add: gc_work_def sum.remove [OF assms(1) d(2)])
qed

lemma gc_step_work:
  assumes "gc_step L key S S'" and "finite (dom (writers S))" and "dom (writers S') = dom (writers S)"
  shows "gc_work S' < gc_work S"
  using assms(1)
proof cases
  case (call t wal_ops feed_ops)
  with assms(3) show ?thesis
    by auto
next
  case (turn t seq w q)
  show ?thesis
    by (rule gc_work_at [OF assms(2) turn(2)]) (use turn in \<open>auto simp: queue_turn_def split: if_splits\<close>)
qed (rule gc_work_at [OF assms(2)], assumption, simp, simp add: push_pending_def queue_flushed_def queue_failed_def)+

lemma dom_at: "writers S t = Some w \<Longrightarrow> writers S' = (writers S)(t \<mapsto> v) \<Longrightarrow> dom (writers S') = dom (writers S)"
  by auto

lemma leader_steps:
  assumes "gc_body L key h format S C todo" and "writers S t = Some w" and "leading w"
  shows "\<exists>S'. gc_step L key S S' \<and> dom (writers S') = dom (writers S)"
proof -
  have "\<exists>S' v. gc_step L key S S' \<and> writers S' = (writers S)(t \<mapsto> v)"
  proof (cases w)
    case (Flushing s batch td)
    show ?thesis
    proof (cases td)
      case Nil
      with Flushing gc_bodyD(9) [OF assms(1,2)] have "batch \<noteq> []"
        by auto
      with Flushing Nil assms(2) gc_step.sync show ?thesis
        by fastforce
    next
      case (Cons pc td')
      with Flushing gc_bodyD(9) [OF assms(1,2)] have "sink_line L key (sink_format S) pc = Inr (pc_line pc)"
        by (intro sink_line_same [OF gc_bodyD(7) [OF assms(1)]]) auto
      with Flushing Cons assms(2) gc_step.line_written show ?thesis
        by fastforce
    qed
  next
    case (Synced s batch)
    with assms(2) gc_step.publish show ?thesis
      by fastforce
  next
    case (Published s batch)
    with assms(2) gc_step.flushed show ?thesis
      by fastforce
  next
    case (Failing s e)
    with assms(2) gc_step.failed show ?thesis
      by fastforce
  qed (use assms(3) in simp_all)
  with assms(2) show ?thesis
    using dom_at by metis
qed

lemma writer_steps:
  assumes "gc_body L key h format S C todo" and "writers S t = Some w" and "\<not> returned w" and "q_next_seq (gc_queue S) < - 1"
  shows "\<exists>S'. gc_step L key S S' \<and> dom (writers S') = dom (writers S)"
proof (cases w)
  case (Calling wal_ops feed_ops)
  have "\<exists>S' v. gc_step L key S S' \<and> writers S' = (writers S)(t \<mapsto> v)"
  proof (cases "encode_record_with L (sink_format S) key wal_ops")
    case (Inl e)
    with Calling assms(2) show ?thesis
      using gc_step.encode_fails by fastforce
  next
    case (Inr line)
    with Calling assms(2) show ?thesis
      using gc_step.encode by fastforce
  qed
  then show ?thesis
    using dom_at [OF assms(2)] by metis
next
  case (Encoded f line wal_ops feed_ops)
  have "\<exists>S' v. gc_step L key S S' \<and> writers S' = (writers S)(t \<mapsto> v)"
  proof (cases "q_broken (gc_queue S)")
    case True
    with Encoded assms(2) show ?thesis
      using gc_step.enqueue_broken by fastforce
  next
    case False
    obtain seq q where "push_pending (gc_queue S) feed_ops line f wal_ops = (seq, q)"
      by (cases "push_pending (gc_queue S) feed_ops line f wal_ops")
    with False Encoded assms(2,4) show ?thesis
      using gc_step.enqueue by fastforce
  qed
  then show ?thesis
    using dom_at [OF assms(2)] by metis
next
  case (Waiting s)
  show ?thesis
  proof (cases "queue_turn (gc_queue S) s")
    case None
    then have "q_leader (gc_queue S)"
      by (simp add: queue_turn_def split: if_splits)
    then obtain u v where "writers S u = Some v" "leading v"
      using gc_bodyD(3) [OF assms(1)] by (auto simp: leader_ok_def)
    then show ?thesis
      by (rule leader_steps [OF assms(1)])
  next
    case (Some vq)
    obtain v q where "vq = (v, q)"
      by (cases vq)
    with Some Waiting assms(2) gc_step.turn [of S t s v q L key] show ?thesis
      by (intro exI [of _ "at (S\<lparr>gc_queue := q\<rparr>) t v"]) auto
  qed
qed (use assms(3) leader_steps [OF assms(1,2)] in simp_all)

text \<open>C8.
  Group commit does not hang: with a bounded number of writers every step that is not a new call uses up work, whatever
  fails, and as long as some writer has not returned there is such a step. So after finitely many steps every writer has
  been acknowledged or refused.\<close>

theorem group_commit_returns:
  assumes "gc_reachable L key h format S" and "finite (dom (writers S))" and "q_next_seq (gc_queue S) < - 1"
  shows "(\<forall>S'. gc_step L key S S' \<longrightarrow> dom (writers S') = dom (writers S) \<longrightarrow> gc_work S' < gc_work S) \<and>
    ((\<exists>t w. writers S t = Some w \<and> \<not> returned w) \<longrightarrow> (\<exists>S'. gc_step L key S S' \<and> dom (writers S') = dom (writers S)))"
  using gc_step_work [OF _ assms(2)] gc_reachable_body [OF assms(1)] writer_steps [OF _ _ _ assms(3)] by blast

theorem group_commit_returns_witness:
  "\<exists>S'. gc_step ex_lib (Some 7) (at (gc_start ex_h Cbor\<lparr>g_call := (\<lambda>_. [])((0::nat) := [True])\<rparr>) 0 (Calling [True] [])) S' \<and> dom (writers S') = {0}"
proof -
  let ?S0 = "gc_start ex_h Cbor :: (bool, nat) gc_state"
  have "gc_reachable ex_lib (Some 7) ex_h Cbor (at (?S0\<lparr>g_call := (g_call ?S0)(0 := [True])\<rparr>) 0 (Calling [True] []))"
    by (rule stepped [OF opened call]) (use ex_written [of "[True]"] in \<open>simp_all add: gc_start_def written_def\<close>)
  then show ?thesis
    using group_commit_returns [of ex_lib "Some 7" ex_h Cbor "at (?S0\<lparr>g_call := (g_call ?S0)(0 := [True])\<rparr>) 0 (Calling [True] [])"]
    by (auto simp: gc_start_def queue_default_def one_less_u64_max)
qed

end
