(* ===== verification/Sequences.thy ===== *)
theory Sequences
  imports Hlc "HOL-Library.List_Lexorder" "HOL-Library.Sublist"
begin

text \<open>
  Named sequences: \<^verbatim>\<open>src/drevo-core/src/sequence.rs\<close>. A durable store reserves the values of a sequence in blocks, and
  writes the end of a block to its file before it hands out a value of the block; after a restart a sequence goes on
  behind the block. Shown here: a value is handed out once, whatever fails and whenever the process is restarted, and
  without restarts the values are those of the arithmetic progression.

  Names are lists of Unicode scalar values, \<open>i64\<close> values are integers with the checked and the saturating operation
  written out. The file holds what the JSON writer and the sealing of \<^verbatim>\<open>sealed_file.rs\<close> make of the table; the two
  functions are the record \<open>seq_codec\<close>. Writing a temporary file and renaming it either replaces the file or leaves it
  as it was and fails.
\<close>

section \<open>State\<close>

type_synonym seq_name = "int list"

definition seq_block :: int where
  "seq_block = 1000"

datatype sequence_error =
  SeqAlreadyExists seq_name | SeqNotFound seq_name | SeqNoName | SeqZeroStep seq_name | SeqExhausted seq_name | SeqReadOnly | SeqIo

record sequence_info =
  si_start :: int
  si_step :: int
  si_current :: "int option"

record seq_state =
  sq_start :: int
  sq_step :: int
  sq_current :: "int option"
  sq_reserved :: "int option"

type_synonym seq_table = "(seq_name, seq_state) fmap"

definition i64_checked_add :: "int \<Rightarrow> int \<Rightarrow> int option" where
  "i64_checked_add a b = (if in_i64 (a + b) then Some (a + b) else None)"

definition i64_saturating_mul :: "int \<Rightarrow> int \<Rightarrow> int" where
  "i64_saturating_mul a b = max i64_min (min i64_max (a * b))"

definition following :: "seq_state \<Rightarrow> int option" where
  "following s = (case sq_current s of None \<Rightarrow> Some (sq_start s) | Some c \<Rightarrow> i64_checked_add c (sq_step s))"

definition beyond_reservation :: "seq_state \<Rightarrow> int \<Rightarrow> bool" where
  "beyond_reservation s value =
     (case sq_reserved s of
        None \<Rightarrow> True
      | Some r \<Rightarrow> if 0 < sq_step s then r < value else value < r)"

record sequences =
  sq_table :: seq_table
  sq_durable :: bool
  sq_read_only :: bool

section \<open>The file\<close>

record 'f seq_codec =
  seq_store :: "seq_table \<Rightarrow> 'f option"
  seq_parse :: "'f \<Rightarrow> seq_table option"

definition codec_ok :: "'f seq_codec \<Rightarrow> bool" where
  "codec_ok C \<longleftrightarrow> (\<forall>t f. seq_store C t = Some f \<longrightarrow> seq_parse C f = Some t)"

definition in_memory :: sequences where
  "in_memory = \<lparr>sq_table = fmempty, sq_durable = False, sq_read_only = False\<rparr>"

definition resume :: "seq_state \<Rightarrow> seq_state" where
  "resume s = (if sq_reserved s = None then s else s\<lparr>sq_current := sq_reserved s\<rparr>)"

text \<open>\<open>None\<close> for a file that does not exist; \<open>readable\<close> is whether the file system lets the file be read.\<close>

definition seq_load :: "'f seq_codec \<Rightarrow> bool \<Rightarrow> 'f option \<Rightarrow> (sequence_error, sequences) result" where
  "seq_load C readable file =
     (if \<not> readable then Inl SeqIo
      else
        (case (case file of None \<Rightarrow> Some fmempty | Some f \<Rightarrow> seq_parse C f) of
           None \<Rightarrow> Inl SeqIo
         | Some t \<Rightarrow> Inr \<lparr>sq_table = fmmap resume t, sq_durable = True, sq_read_only = False\<rparr>))"

definition seq_set_read_only :: "sequences \<Rightarrow> bool \<Rightarrow> sequences" where
  "seq_set_read_only S on = S\<lparr>sq_read_only := on\<rparr>"

definition writable :: "sequences \<Rightarrow> (sequence_error, unit) result" where
  "writable S = (if sq_read_only S then Inl SeqReadOnly else Inr ())"

definition persist :: "'f seq_codec \<Rightarrow> bool \<Rightarrow> sequences \<Rightarrow> 'f option \<Rightarrow> seq_table \<Rightarrow> (sequence_error, unit) result \<times> 'f option" where
  "persist C saved S file t =
     (if \<not> sq_durable S then (Inr (), file)
      else
        (case seq_store C t of
           None \<Rightarrow> (Inl SeqIo, file)
         | Some f \<Rightarrow> if saved then (Inr (), Some f) else (Inl SeqIo, file)))"

section \<open>Operations\<close>

definition is_white_space :: "int \<Rightarrow> bool" where
  "is_white_space c \<longleftrightarrow>
     9 \<le> c \<and> c \<le> 13 \<or> c \<in> {0x20, 0x85, 0xA0, 0x1680, 0x2028, 0x2029, 0x202F, 0x205F, 0x3000} \<or> 0x2000 \<le> c \<and> c \<le> 0x200A"

definition seq_create ::
    "'f seq_codec \<Rightarrow> bool \<Rightarrow> sequences \<Rightarrow> 'f option \<Rightarrow> seq_name \<Rightarrow> int \<Rightarrow> int \<Rightarrow> (sequence_error, unit) result \<times> sequences \<times> 'f option" where
  "seq_create C saved S file name start step =
     (case writable S of
        Inl e \<Rightarrow> (Inl e, S, file)
      | Inr _ \<Rightarrow>
          if list_all is_white_space name then (Inl SeqNoName, S, file)
          else if step = 0 then (Inl (SeqZeroStep name), S, file)
          else if fmlookup (sq_table S) name \<noteq> None then (Inl (SeqAlreadyExists name), S, file)
          else
            (let next = fmupd name \<lparr>sq_start = start, sq_step = step, sq_current = None, sq_reserved = None\<rparr> (sq_table S) in
             case persist C saved S file next of
               (Inl e, file) \<Rightarrow> (Inl e, S, file)
             | (Inr _, file) \<Rightarrow> (Inr (), S\<lparr>sq_table := next\<rparr>, file)))"

definition drop_sequence ::
    "'f seq_codec \<Rightarrow> bool \<Rightarrow> sequences \<Rightarrow> 'f option \<Rightarrow> seq_name \<Rightarrow> (sequence_error, bool) result \<times> sequences \<times> 'f option" where
  "drop_sequence C saved S file name =
     (case writable S of
        Inl e \<Rightarrow> (Inl e, S, file)
      | Inr _ \<Rightarrow>
          if fmlookup (sq_table S) name = None then (Inr False, S, file)
          else
            (let next = fmdrop name (sq_table S) in
             case persist C saved S file next of
               (Inl e, file) \<Rightarrow> (Inl e, S, file)
             | (Inr _, file) \<Rightarrow> (Inr True, S\<lparr>sq_table := next\<rparr>, file)))"

text \<open>The reservation of the block that begins with a value.\<close>

definition reserve_block ::
    "'f seq_codec \<Rightarrow> bool \<Rightarrow> sequences \<Rightarrow> 'f option \<Rightarrow> seq_name \<Rightarrow> seq_state \<Rightarrow> int \<Rightarrow> (sequence_error, unit) result \<times> sequences \<times> 'f option" where
  "reserve_block C saved S file name s value =
     (let span = i64_saturating_mul (sq_step s) (seq_block - 1);
          reserved = i64_saturating_add value span;
          next = fmupd name (s\<lparr>sq_reserved := Some reserved\<rparr>) (sq_table S)
      in case persist C saved S file next of
           (Inl e, file) \<Rightarrow> (Inl e, S, file)
         | (Inr _, file) \<Rightarrow> (Inr (), S\<lparr>sq_table := next\<rparr>, file))"

definition set_current :: "seq_name \<Rightarrow> int \<Rightarrow> sequences \<Rightarrow> sequences" where
  "set_current name value S =
     (case fmlookup (sq_table S) name of
        None \<Rightarrow> S
      | Some s \<Rightarrow> S\<lparr>sq_table := fmupd name (s\<lparr>sq_current := Some value\<rparr>) (sq_table S)\<rparr>)"

definition seq_next ::
    "'f seq_codec \<Rightarrow> bool \<Rightarrow> sequences \<Rightarrow> 'f option \<Rightarrow> seq_name \<Rightarrow> (sequence_error, int) result \<times> sequences \<times> 'f option" where
  "seq_next C saved S file name =
     (case writable S of
        Inl e \<Rightarrow> (Inl e, S, file)
      | Inr _ \<Rightarrow>
          (case fmlookup (sq_table S) name of
             None \<Rightarrow> (Inl (SeqNotFound name), S, file)
           | Some s \<Rightarrow>
               (case following s of
                  None \<Rightarrow> (Inl (SeqExhausted name), S, file)
                | Some value \<Rightarrow>
                    if sq_durable S \<and> beyond_reservation s value then
                      (case reserve_block C saved S file name s value of
                         (Inl e, S, file) \<Rightarrow> (Inl e, S, file)
                       | (Inr _, S, file) \<Rightarrow> (Inr value, set_current name value S, file))
                    else (Inr value, set_current name value S, file))))"

definition seq_current :: "sequences \<Rightarrow> seq_name \<Rightarrow> int option" where
  "seq_current S name = Option.bind (fmlookup (sq_table S) name) sq_current"

definition info_of :: "seq_state \<Rightarrow> sequence_info" where
  "info_of s = \<lparr>si_start = sq_start s, si_step = sq_step s, si_current = sq_current s\<rparr>"

definition seq_get :: "sequences \<Rightarrow> seq_name \<Rightarrow> sequence_info option" where
  "seq_get S name = map_option info_of (fmlookup (sq_table S) name)"

definition seq_list :: "sequences \<Rightarrow> (seq_name \<times> sequence_info) list" where
  "seq_list S = map (\<lambda>(name, s). (name, info_of s)) (sorted_list_of_fmap (sq_table S))"

section \<open>Runs\<close>

text \<open>
  A run of calls, each with whether the file could be written. A restart drops the store, at any moment between two
  calls, and opens the file again; when that fails there is no store until the next restart. The trace lists the values
  that were handed out.
\<close>

datatype seq_call =
  CallCreate seq_name int int bool | CallDrop seq_name bool | CallNext seq_name bool | CallReadOnly bool | CallRestart bool

record 'f seq_world =
  w_store :: "sequences option"
  w_file :: "'f option"
  w_issued :: "(seq_name \<times> int) list"

definition world_new :: "'f seq_world" where
  "world_new = \<lparr>w_store = None, w_file = None, w_issued = []\<rparr>"

fun seq_step :: "'f seq_codec \<Rightarrow> 'f seq_world \<Rightarrow> seq_call \<Rightarrow> 'f seq_world" where
  "seq_step C W (CallRestart readable) =
     W\<lparr>w_store := (case seq_load C readable (w_file W) of Inl e \<Rightarrow> None | Inr S \<Rightarrow> Some S)\<rparr>"
| "seq_step C W call =
     (case w_store W of
        None \<Rightarrow> W
      | Some S \<Rightarrow>
          (case call of
             CallCreate name start step saved \<Rightarrow>
               (case seq_create C saved S (w_file W) name start step of (r, S, file) \<Rightarrow> W\<lparr>w_store := Some S, w_file := file\<rparr>)
           | CallDrop name saved \<Rightarrow>
               (case drop_sequence C saved S (w_file W) name of (r, S, file) \<Rightarrow> W\<lparr>w_store := Some S, w_file := file\<rparr>)
           | CallNext name saved \<Rightarrow>
               (case seq_next C saved S (w_file W) name of
                  (Inl e, S, file) \<Rightarrow> W\<lparr>w_store := Some S, w_file := file\<rparr>
                | (Inr v, S, file) \<Rightarrow> W\<lparr>w_store := Some S, w_file := file, w_issued := w_issued W @ [(name, v)]\<rparr>)
           | CallReadOnly on \<Rightarrow> W\<lparr>w_store := Some (seq_set_read_only S on)\<rparr>
           | CallRestart readable \<Rightarrow> W))"

definition seq_run :: "'f seq_codec \<Rightarrow> seq_call list \<Rightarrow> 'f seq_world" where
  "seq_run C = foldl (seq_step C) world_new"

definition issued :: "seq_name \<Rightarrow> 'f seq_world \<Rightarrow> int list" where
  "issued name W = map snd (filter (\<lambda>p. fst p = name) (w_issued W))"


section \<open>No value twice\<close>

text \<open>The invariant of one name: what was handed out is covered by the reservation in the file and not ahead of the store.\<close>

definition ahead :: "int \<Rightarrow> int \<Rightarrow> int \<Rightarrow> bool" where
  "ahead step a b \<longleftrightarrow> (if 0 < step then a < b else b < a)"

definition seq_entry_ok :: "int list \<Rightarrow> seq_state \<Rightarrow> bool" where
  "seq_entry_ok vs s \<longleftrightarrow>
     sq_step s \<noteq> 0 \<and> in_i64 (sq_start s) \<and> sorted_wrt (ahead (sq_step s)) vs \<and>
     (case sq_reserved s of
        None \<Rightarrow> vs = [] \<and> sq_current s = None
      | Some r \<Rightarrow> \<forall>v \<in> set vs. \<not> ahead (sq_step s) r v)"

definition not_behind :: "int list \<Rightarrow> seq_state \<Rightarrow> bool" where
  "not_behind vs s \<longleftrightarrow> vs = [] \<or> (\<exists>c. sq_current s = Some c \<and> (\<forall>v \<in> set vs. \<not> ahead (sq_step s) c v))"

fun entries_ok :: "int list \<Rightarrow> seq_state option \<Rightarrow> seq_state option \<Rightarrow> bool" where
  "entries_ok vs None None \<longleftrightarrow> vs = []"
| "entries_ok vs (Some s) (Some d) \<longleftrightarrow>
     seq_entry_ok vs s \<and> not_behind vs s \<and> seq_entry_ok vs d \<and> sq_step d = sq_step s \<and> sq_reserved d = sq_reserved s"
| "entries_ok vs _ _ \<longleftrightarrow> False"

definition file_table :: "'f seq_codec \<Rightarrow> 'f option \<Rightarrow> seq_table option" where
  "file_table C file = (case file of None \<Rightarrow> Some fmempty | Some f \<Rightarrow> seq_parse C f)"

definition store_ok :: "'f seq_codec \<Rightarrow> seq_name \<Rightarrow> int list \<Rightarrow> sequences \<Rightarrow> 'f option \<Rightarrow> bool" where
  "store_ok C name vs S file \<longleftrightarrow>
     sq_durable S \<and> (\<exists>t. file_table C file = Some t \<and> entries_ok vs (fmlookup (sq_table S) name) (fmlookup t name))"

definition file_ok :: "'f seq_codec \<Rightarrow> seq_name \<Rightarrow> int list \<Rightarrow> 'f option \<Rightarrow> bool" where
  "file_ok C name vs file \<longleftrightarrow>
     (\<exists>t. file_table C file = Some t \<and> (case fmlookup t name of None \<Rightarrow> vs = [] | Some d \<Rightarrow> seq_entry_ok vs d))"

definition world_ok :: "'f seq_codec \<Rightarrow> seq_name \<Rightarrow> 'f seq_world \<Rightarrow> bool" where
  "world_ok C name W \<longleftrightarrow>
     (case w_store W of None \<Rightarrow> file_ok C name (issued name W) (w_file W) | Some S \<Rightarrow> store_ok C name (issued name W) S (w_file W))"

text \<open>The calls of a run: arguments of type \<open>i64\<close>, and the sequence is not dropped.\<close>

fun keeps_sequence :: "seq_name \<Rightarrow> seq_call \<Rightarrow> bool" where
  "keeps_sequence name (CallCreate n start step saved) \<longleftrightarrow> in_i64 start \<and> in_i64 step"
| "keeps_sequence name (CallDrop n saved) \<longleftrightarrow> n \<noteq> name"
| "keeps_sequence name _ \<longleftrightarrow> True"

lemma store_ok_file_ok: "store_ok C name vs S file \<Longrightarrow> file_ok C name vs file"
  unfolding store_ok_def file_ok_def by (elim conjE exE, rule exI) (auto elim: entries_ok.elims)

lemma entry_ok_resume: "seq_entry_ok vs d \<Longrightarrow> seq_entry_ok vs (resume d) \<and> not_behind vs (resume d)"
  by (auto simp: seq_entry_ok_def not_behind_def resume_def split: option.splits)

lemma load_ok:
  assumes "file_ok C name vs file"
  shows "case seq_load C readable file of Inl e \<Rightarrow> True | Inr S \<Rightarrow> store_ok C name vs S file"
proof -
  obtain t where t: "file_table C file = Some t" "case fmlookup t name of None \<Rightarrow> vs = [] | Some d \<Rightarrow> seq_entry_ok vs d"
    using assms by (auto simp: file_ok_def)
  have "entries_ok vs (map_option resume (fmlookup t name)) (fmlookup t name)"
    using t(2) entry_ok_resume [of vs] by (cases "fmlookup t name") (auto simp: resume_def)
  with t(1) show ?thesis
    by (auto simp: seq_load_def store_ok_def file_table_def split: option.splits)
qed

text \<open>Writing the table: the file holds it, or nothing has changed.\<close>

lemma persist_ok:
  assumes "codec_ok C" and "store_ok C name vs S file" and "persist C saved S file t = (r, file')"
  shows "(\<exists>e. r = Inl e) \<and> file' = file \<or> r = Inr () \<and> file_table C file' = Some t"
  using assms by (auto simp: persist_def file_table_def codec_ok_def store_ok_def split: if_splits option.splits)

lemma saved_store_ok:
  assumes "store_ok C name vs S file" and "file_table C file' = Some t" and "entries_ok vs' (fmlookup t name) (fmlookup t name)"
  shows "store_ok C name vs' (S\<lparr>sq_table := t\<rparr>) file'"
  using assms by (auto simp: store_ok_def)

lemma entries_ok_saved: "entries_ok vs s d \<Longrightarrow> entries_ok vs s s"
  by (cases s; cases d) auto

lemma store_entries_ok: "store_ok C name vs S file \<Longrightarrow> entries_ok vs (fmlookup (sq_table S) name) (fmlookup (sq_table S) name)"
  by (auto simp: store_ok_def intro: entries_ok_saved)

lemma create_ok:
  assumes C: "codec_ok C" and S: "store_ok C name vs S file" and i64: "in_i64 start" and run: "seq_create C saved S file n start step = (r, S', file')"
  shows "store_ok C name vs S' file'"
proof (cases "S' = S \<and> file' = file")
  case False
  let ?t = "fmupd n \<lparr>sq_start = start, sq_step = step, sq_current = None, sq_reserved = None\<rparr> (sq_table S)"
  obtain q file'' where q: "persist C saved S file ?t = (q, file'')"
    by fastforce
  have new: "step \<noteq> 0" "fmlookup (sq_table S) n = None"
    using run False by (auto simp: seq_create_def Let_def split: sum.splits if_splits prod.splits)
  then have ok: "entries_ok vs (fmlookup ?t name) (fmlookup ?t name)"
    using store_entries_ok [OF S] i64 by (cases "n = name") (auto simp: seq_entry_ok_def not_behind_def)
  have "S' = S\<lparr>sq_table := ?t\<rparr> \<and> file' = file'' \<and> file_table C file'' = Some ?t"
    using run False q persist_ok [OF C S q] by (auto simp: seq_create_def Let_def split: sum.splits if_splits)
  with saved_store_ok [OF S _ ok] show ?thesis
    by simp
qed (use S in simp)

lemma drop_ok:
  assumes C: "codec_ok C" and S: "store_ok C name vs S file" and n: "n \<noteq> name" and run: "drop_sequence C saved S file n = (r, S', file')"
  shows "store_ok C name vs S' file'"
proof (cases "S' = S \<and> file' = file")
  case False
  let ?t = "fmdrop n (sq_table S)"
  obtain q file'' where q: "persist C saved S file ?t = (q, file'')"
    by fastforce
  have ok: "entries_ok vs (fmlookup ?t name) (fmlookup ?t name)"
    using store_entries_ok [OF S] n by simp
  have "S' = S\<lparr>sq_table := ?t\<rparr> \<and> file' = file'' \<and> file_table C file'' = Some ?t"
    using run False q persist_ok [OF C S q] by (auto simp: drop_sequence_def Let_def split: sum.splits if_splits)
  with saved_store_ok [OF S _ ok] show ?thesis
    by simp
qed (use S in simp)

text \<open>The next value is ahead of all that were handed out, and its block reaches at least to the value.\<close>

lemma ahead_trans: "ahead step a b \<Longrightarrow> \<not> ahead step a v \<Longrightarrow> ahead step v b"
  by (auto simp: ahead_def split: if_splits)

lemma following_ahead:
  assumes "seq_entry_ok vs s" and "not_behind vs s" and "following s = Some value"
  shows "in_i64 value" and "\<forall>v \<in> set vs. ahead (sq_step s) v value"
proof -
  show "in_i64 value"
    using assms by (auto simp: following_def seq_entry_ok_def i64_checked_add_def split: option.splits if_splits)
  have "ahead (sq_step s) c value" if "sq_current s = Some c" for c
    using assms that by (auto simp: following_def seq_entry_ok_def ahead_def i64_checked_add_def split: if_splits)
  with assms(2) show "\<forall>v \<in> set vs. ahead (sq_step s) v value"
    by (auto simp: not_behind_def intro: ahead_trans)
qed

lemma block_covers:
  assumes "in_i64 value" and "step \<noteq> 0"
  shows "\<not> ahead step (i64_saturating_add value (i64_saturating_mul step (seq_block - 1))) value"
  using assms by (auto simp: ahead_def in_i64_def i64_saturating_add_def i64_saturating_mul_def seq_block_def)

lemma issue_ok:
  assumes "seq_entry_ok vs s" and "\<forall>v \<in> set vs. ahead (sq_step s) v value" and "\<not> ahead (sq_step s) r value"
    and "sq_step d = sq_step s" and "sq_start d = sq_start s" and "sq_reserved d = Some r"
  shows "seq_entry_ok (vs @ [value]) d"
  using assms by (auto simp: seq_entry_ok_def sorted_wrt_append ahead_def split: if_splits)

lemma issued_not_behind:
  "\<forall>v \<in> set vs. ahead (sq_step s) v value \<Longrightarrow> not_behind (vs @ [value]) (s\<lparr>sq_reserved := r, sq_current := Some value\<rparr>)"
  by (auto simp: not_behind_def ahead_def split: if_splits)

lemma reserve_ok:
  assumes C: "codec_ok C" and S: "store_ok C name vs S file" and s: "fmlookup (sq_table S) n = Some s"
    and res: "reserve_block C saved S file n s value = (q, S', file')"
    and nxt: "n = name \<Longrightarrow> in_i64 value \<and> (\<forall>v \<in> set vs. ahead (sq_step s) v value)"
  shows "(\<exists>e. q = Inl e) \<and> S' = S \<and> file' = file \<or>
    q = Inr () \<and> store_ok C name (if n = name then vs @ [value] else vs) (set_current n value S') file'"
proof -
  let ?r = "i64_saturating_add value (i64_saturating_mul (sq_step s) (seq_block - 1))"
  let ?t = "fmupd n (s\<lparr>sq_reserved := Some ?r\<rparr>) (sq_table S)"
  obtain p file'' where p: "persist C saved S file ?t = (p, file'')"
    by fastforce
  consider e where "q = Inl e" "S' = S" "file' = file" | "q = Inr ()" "S' = S\<lparr>sq_table := ?t\<rparr>" "file_table C file' = Some ?t"
    using res p persist_ok [OF C S p] by (auto simp: reserve_block_def Let_def)
  then show ?thesis
  proof cases
    case 2
    have "entries_ok (if n = name then vs @ [value] else vs)
        (fmlookup (sq_table (set_current n value S')) name) (fmlookup ?t name)"
    proof (cases "n = name")
      case True
      have ok: "seq_entry_ok vs s"
        using store_entries_ok [OF S] s True by simp
      then have "sq_step s \<noteq> 0"
        by (simp add: seq_entry_ok_def)
      with nxt True have "\<not> ahead (sq_step s) ?r value"
        using block_covers by blast
      note issue = issue_ok [OF ok _ this]
      from nxt True show ?thesis
        using 2(2) issue issued_not_behind [of vs s "value"] by (simp add: set_current_def)
    next
      case False
      with 2(2) store_entries_ok [OF S] show ?thesis
        by (simp add: set_current_def)
    qed
    with 2 S show ?thesis
      by (auto simp: store_ok_def set_current_def)
  qed auto
qed

lemma within_ok:
  assumes S: "store_ok C name vs S file" and s: "fmlookup (sq_table S) n = Some s" and within: "\<not> beyond_reservation s value"
    and nxt: "n = name \<Longrightarrow> \<forall>v \<in> set vs. ahead (sq_step s) v value"
  shows "store_ok C name (if n = name then vs @ [value] else vs) (set_current n value S) file"
proof (cases "n = name")
  case True
  obtain t d where t: "file_table C file = Some t" "fmlookup t name = Some d" and ok: "entries_ok vs (Some s) (Some d)"
    using S s True by (auto simp: store_ok_def elim: entries_ok.elims)
  obtain r where r: "sq_reserved s = Some r" "\<not> ahead (sq_step s) r value"
    using within by (auto simp: beyond_reservation_def ahead_def split: option.splits if_splits)
  have "seq_entry_ok (vs @ [value]) (s\<lparr>sq_current := Some value\<rparr>)" "seq_entry_ok (vs @ [value]) d"
    using issue_ok [of vs s "value" r] issue_ok [of vs d "value" r d] ok r nxt True by simp_all
  moreover have "not_behind (vs @ [value]) (s\<lparr>sq_current := Some value\<rparr>)"
    using issued_not_behind [of vs s "value" "sq_reserved s"] nxt True by simp
  ultimately show ?thesis
    using S s True t ok by (simp add: store_ok_def set_current_def)
next
  case False
  with S s show ?thesis
    by (simp add: store_ok_def set_current_def)
qed

lemma next_ok:
  assumes C: "codec_ok C" and S: "store_ok C name vs S file" and run: "seq_next C saved S file n = (r, S', file')"
  shows "store_ok C name (case r of Inl e \<Rightarrow> vs | Inr v \<Rightarrow> if n = name then vs @ [v] else vs) S' file'"
proof (cases "\<exists>s value. writable S = Inr () \<and> fmlookup (sq_table S) n = Some s \<and> following s = Some value")
  case True
  then obtain s "value" where s: "writable S = Inr ()" "fmlookup (sq_table S) n = Some s" "following s = Some value"
    by auto
  have dur: "sq_durable S"
    using S by (simp add: store_ok_def)
  have nxt: "in_i64 value \<and> (\<forall>v \<in> set vs. ahead (sq_step s) v value)" if "n = name"
    using following_ahead [of vs s "value"] store_entries_ok [OF S] s that by simp
  show ?thesis
  proof (cases "beyond_reservation s value")
    case True
    obtain q S'' file'' where q: "reserve_block C saved S file n s value = (q, S'', file'')"
      by (metis prod_cases3)
    with run s dur True have "(r, S', file') = (case q of Inl e \<Rightarrow> (Inl e, S'', file'') | Inr _ \<Rightarrow> (Inr value, set_current n value S'', file''))"
      by (cases q) (simp_all add: seq_next_def)
    with reserve_ok [OF C S s(2) q nxt] S show ?thesis
      by auto
  next
    case False
    with run s dur have "r = Inr value" "S' = set_current n value S" "file' = file"
      by (simp_all add: seq_next_def)
    with within_ok [OF S s(2) False] nxt show ?thesis
      by simp
  qed
next
  case False
  with run have "(\<exists>e. r = Inl e) \<and> S' = S \<and> file' = file"
    by (auto simp: seq_next_def writable_def split: sum.splits option.splits if_splits)
  with S show ?thesis
    by auto
qed

lemma step_world_ok:
  assumes C: "codec_ok C" and W: "world_ok C name W" and call: "keeps_sequence name call"
  shows "world_ok C name (seq_step C W call)"
proof (cases "\<exists>readable. call = CallRestart readable")
  case True
  then obtain readable where "call = CallRestart readable" ..
  moreover have "file_ok C name (issued name W) (w_file W)"
    using W store_ok_file_ok by (auto simp: world_ok_def split: option.splits)
  ultimately show ?thesis
    using load_ok [of C name "issued name W" "w_file W" readable] by (auto simp: world_ok_def issued_def split: sum.splits)
next
  case False
  show ?thesis
  proof (cases "w_store W")
    case None
    with W False show ?thesis
      by (cases call) auto
  next
    case (Some S)
    with W have S: "store_ok C name (issued name W) S (w_file W)"
      by (simp add: world_ok_def)
    show ?thesis
    proof (cases call)
      case (CallCreate n start step saved)
      with call create_ok [OF C S] Some show ?thesis
        by (auto simp: world_ok_def issued_def split: prod.splits)
    next
      case (CallDrop n saved)
      with call drop_ok [OF C S] Some show ?thesis
        by (auto simp: world_ok_def issued_def split: prod.splits)
    next
      case (CallNext n saved)
      obtain r S' file' where n: "seq_next C saved S (w_file W) n = (r, S', file')"
        by (metis prod_cases3)
      from next_ok [OF C S n] n Some CallNext show ?thesis
        by (cases r) (auto simp: world_ok_def issued_def)
    next
      case (CallReadOnly on)
      with S Some show ?thesis
        by (simp add: world_ok_def issued_def seq_set_read_only_def store_ok_def)
    qed (use False in simp)
  qed
qed

lemma run_world_ok:
  assumes "codec_ok C" and "\<forall>call \<in> set calls. keeps_sequence name call"
  shows "world_ok C name (seq_run C calls)"
  using assms(2)
proof (induction calls rule: rev_induct)
  case Nil
  show ?case
    by (simp add: seq_run_def world_new_def world_ok_def file_ok_def file_table_def issued_def)
next
  case (snoc call calls)
  then show ?case
    using step_world_ok [OF assms(1)] by (simp add: seq_run_def)
qed

lemma distinct_sorted_wrt: "sorted_wrt (<) vs \<or> sorted_wrt (>) vs \<Longrightarrow> distinct vs" for vs :: "int list"
  by (induction vs) auto

lemma ahead_less: "0 < step \<Longrightarrow> ahead step = (<)" and ahead_greater: "\<not> 0 < step \<Longrightarrow> ahead step = (>)"
  by (auto simp: ahead_def fun_eq_iff)

lemma world_ok_sorted:
  assumes "world_ok C name W"
  shows "\<exists>step. sorted_wrt (ahead step) (issued name W)"
proof -
  have "file_ok C name (issued name W) (w_file W)"
    using assms store_ok_file_ok by (auto simp: world_ok_def split: option.splits)
  then obtain t where t: "case fmlookup t name of None \<Rightarrow> issued name W = [] | Some d \<Rightarrow> seq_entry_ok (issued name W) d"
    by (auto simp: file_ok_def)
  then show ?thesis
    by (cases "fmlookup t name") (auto simp: seq_entry_ok_def)
qed

text \<open>C27.
  A sequence hands out a value once. Whatever calls are made on the store, on this and on other sequences, whichever
  writes of the file fail, and whenever the process is restarted, the values of a sequence that is not dropped are
  strictly increasing or strictly decreasing, so that none comes twice.\<close>

theorem sequence_never_repeats:
  assumes "codec_ok C" and "\<forall>call \<in> set calls. keeps_sequence name call"
  shows "(sorted_wrt (<) (issued name (seq_run C calls)) \<or> sorted_wrt (>) (issued name (seq_run C calls))) \<and>
    distinct (issued name (seq_run C calls))"
proof -
  obtain step where sorted: "sorted_wrt (ahead step) (issued name (seq_run C calls))"
    using world_ok_sorted [OF run_world_ok [OF assms]] by blast
  then have "sorted_wrt (<) (issued name (seq_run C calls)) \<or> sorted_wrt (>) (issued name (seq_run C calls))"
    by (cases "0 < step") (simp_all add: ahead_less ahead_greater)
  then show ?thesis
    by (auto simp: distinct_sorted_wrt)
qed

section \<open>Examples\<close>

definition ex_codec :: "seq_table seq_codec" where
  "ex_codec = \<lparr>seq_store = Some, seq_parse = Some\<rparr>"

definition ex_calls :: "seq_call list" where
  "ex_calls =
     [CallRestart True, CallCreate [98] 1000 1 True, CallNext [98] False, CallNext [98] True, CallNext [98] True,
      CallRestart False, CallRestart True, CallNext [98] True]"

lemma ex_codec_ok: "codec_ok ex_codec"
  by (simp add: codec_ok_def ex_codec_def)

theorem sequence_never_repeats_witness:
  "issued [98] (seq_run ex_codec ex_calls) = [1000, 1001, 2000] \<and> distinct (issued [98] (seq_run ex_codec ex_calls))"
proof -
  have "\<forall>call \<in> set ex_calls. keeps_sequence [98] call"
    by (simp add: ex_calls_def in_i64_def)
  from sequence_never_repeats [OF ex_codec_ok this] have "distinct (issued [98] (seq_run ex_codec ex_calls))"
    by simp
  moreover have "issued [98] (seq_run ex_codec ex_calls) = [1000, 1001, 2000]"
    by code_simp
  ultimately show ?thesis
    by simp
qed

text \<open>Shown too.
  After a restart a sequence can leave its progression. The end of a block is computed by a multiplication that saturates
  before the addition, so that for a large step it is not a value of the sequence; the values that follow differ from the
  first one by no multiple of the step.\<close>

theorem restart_leaves_progression:
  "issued [98] (seq_run ex_codec
     [CallRestart True, CallCreate [98] (- 9000000000000000000) 1000000000000000000 True, CallNext [98] True, CallRestart True,
      CallNext [98] True]) = [- 9000000000000000000, 1223372036854775807]"
  by code_simp

end
