(* ===== verification/Levenshtein.thy ===== *)
theory Levenshtein
  imports Main "HOL-Library.Sublist"
begin

text \<open>
  Edit distance: \<^verbatim>\<open>src/drevo-core/src/levenshtein.rs\<close>. The one-row table of \<^verbatim>\<open>distance\<close> and the bounded search of
  \<^verbatim>\<open>distance_within\<close> are shown to compute the least number of single-character insertions, deletions and substitutions.
  Strings are lists of characters of any type, as the code only compares them.
\<close>

section \<open>The row and its update\<close>

fun lev_row :: "'a \<Rightarrow> 'a list \<Rightarrow> nat \<Rightarrow> nat \<Rightarrow> nat list \<Rightarrow> nat list" where
  "lev_row ca [] j diagonal row = row"
| "lev_row ca (cb # bs) j diagonal row =
     (let above = row ! (j + 1) in
      lev_row ca bs (j + 1) above (row[j + 1 := min (min (diagonal + of_bool (ca \<noteq> cb)) (above + 1)) (row ! j + 1)]))"

fun lev_rows :: "'a list \<Rightarrow> 'a list \<Rightarrow> nat \<Rightarrow> nat list \<Rightarrow> nat list" where
  "lev_rows b [] i row = row"
| "lev_rows b (ca # as) i row = lev_rows b as (i + 1) (lev_row ca b 0 (row ! 0) (row[0 := i + 1]))"

definition distance :: "'a list \<Rightarrow> 'a list \<Rightarrow> nat" where
  "distance a b = lev_rows b a 0 [0..<length b + 1] ! length b"

primrec lev_row_best :: "'a \<Rightarrow> 'a list \<Rightarrow> nat \<Rightarrow> nat \<Rightarrow> nat list \<Rightarrow> nat \<Rightarrow> nat list \<times> nat" where
  "lev_row_best ca [] j diagonal row best = (row, best)"
| "lev_row_best ca (cb # bs) j diagonal row best =
     (let above = row ! (j + 1);
          row = row[j + 1 := min (min (diagonal + of_bool (ca \<noteq> cb)) (above + 1)) (row ! j + 1)]
      in lev_row_best ca bs (j + 1) above row (min best (row ! (j + 1))))"

fun lev_rows_within :: "nat \<Rightarrow> 'a list \<Rightarrow> 'a list \<Rightarrow> nat \<Rightarrow> nat list \<Rightarrow> nat list option" where
  "lev_rows_within max_d b [] i row = Some row"
| "lev_rows_within max_d b (ca # as) i row =
     (case lev_row_best ca b 0 (row ! 0) (row[0 := i + 1]) (i + 1) of
        (row, best) \<Rightarrow> if max_d < best then None else lev_rows_within max_d b as (i + 1) row)"

definition distance_within :: "'a list \<Rightarrow> 'a list \<Rightarrow> nat \<Rightarrow> nat option" where
  "distance_within a b max_d =
     (if max_d < (length a - length b) + (length b - length a) then None
      else
        (case lev_rows_within max_d b a 0 [0..<length b + 1] of
           None \<Rightarrow> None
         | Some row \<Rightarrow> if row ! length b \<le> max_d then Some (row ! length b) else None))"

section \<open>Edits\<close>

text \<open>One edit, and the distance by recursion on the two strings from their ends.\<close>

inductive edit1 :: "'a list \<Rightarrow> 'a list \<Rightarrow> bool" where
  insertion: "edit1 (us @ vs) (us @ c # vs)"
| deletion: "edit1 (us @ c # vs) (us @ vs)"
| substitution: "edit1 (us @ c # vs) (us @ d # vs)"

fun lev :: "'a list \<Rightarrow> 'a list \<Rightarrow> nat" where
  "lev [] ys = length ys"
| "lev xs [] = length xs"
| "lev (x # xs) (y # ys) = min (min (lev xs ys + of_bool (x \<noteq> y)) (lev xs (y # ys) + 1)) (lev (x # xs) ys + 1)"

lemma lev_Nil2 [simp]: "lev xs [] = length xs"
  by (cases xs) auto

lemma lev_drop2: "lev xs (y # ys) \<le> Suc (lev xs ys)"
  by (cases xs) auto

lemma lev_add1: "lev (c # xs) ys \<le> Suc (lev xs ys)"
  by (cases ys) auto

lemma lev_drop1: "lev xs ys \<le> Suc (lev (c # xs) ys)"
proof (induction ys)
  case (Cons y ys)
  have "lev xs (y # ys) \<le> Suc (lev xs ys)"
    by (rule lev_drop2)
  with Cons show ?case
    by auto
qed simp

lemma lev_subst: "lev (c # xs) ys \<le> Suc (lev (d # xs) ys)"
  by (induction ys) auto

lemma lev_context: "(\<And>ys. lev xs ys \<le> Suc (lev xs' ys)) \<Longrightarrow> lev (x # xs) ys \<le> Suc (lev (x # xs') ys)"
proof (induction ys)
  case Nil
  from Nil [of "[]"] show ?case
    by simp
next
  case (Cons y ys)
  have "lev xs ys \<le> Suc (lev xs' ys)" "lev xs (y # ys) \<le> Suc (lev xs' (y # ys))"
    by (rule Cons.prems)+
  with Cons.IH [OF Cons.prems] show ?case
    by simp
qed

lemma lev_edit1: "edit1 xs xs' \<Longrightarrow> lev xs ys \<le> Suc (lev xs' ys)"
proof (induction arbitrary: ys rule: edit1.induct)
  case (insertion us vs c)
  show ?case
    by (induction us arbitrary: ys) (simp_all add: lev_drop1 lev_context)
next
  case (deletion us c vs)
  show ?case
    by (induction us arbitrary: ys) (simp_all add: lev_add1 lev_context)
next
  case (substitution us c vs d)
  show ?case
    by (induction us arbitrary: ys) (simp_all add: lev_subst lev_context)
qed

lemma lev_same: "lev xs xs = 0"
  by (induction xs) auto

lemma lev_minimal: "(edit1 ^^ n) xs ys \<Longrightarrow> lev xs ys \<le> n"
proof (induction n arbitrary: xs)
  case (Suc n)
  then obtain zs where "edit1 xs zs" "(edit1 ^^ n) zs ys"
    by (meson relpowp_Suc_D2)
  with Suc.IH [of zs] lev_edit1 [of xs zs ys] show ?case
    by auto
qed (simp add: lev_same)

lemma edits_Cons: "(edit1 ^^ n) xs ys \<Longrightarrow> (edit1 ^^ n) (x # xs) (x # ys)"
proof (induction n arbitrary: ys)
  case (Suc n)
  then obtain zs where "(edit1 ^^ n) xs zs" "edit1 zs ys"
    by auto
  moreover from \<open>edit1 zs ys\<close> have "edit1 (x # zs) (x # ys)"
    by cases (metis append_Cons edit1.intros)+
  ultimately show ?case
    using Suc.IH by (auto simp: relcompp_apply)
qed simp

lemma edits_head:
  assumes "(edit1 ^^ n) xs ys"
  shows "(edit1 ^^ Suc n) xs (y # ys)" and "(edit1 ^^ Suc n) (x # xs) ys" and "(edit1 ^^ Suc n) (x # xs) (y # ys)"
proof -
  show "(edit1 ^^ Suc n) xs (y # ys)"
    using assms edit1.insertion [of "[]" ys y] by (auto simp: relcompp_apply)
  show "(edit1 ^^ Suc n) (x # xs) ys"
    using relpowp_Suc_I2 [OF edit1.deletion [of "[]" x xs, simplified] assms] .
  show "(edit1 ^^ Suc n) (x # xs) (y # ys)"
    using edits_Cons [OF assms, of x] edit1.substitution [of "[]" x ys y] by (auto simp: relcompp_apply)
qed

lemma lev_reached: "(edit1 ^^ lev xs ys) xs ys"
proof (induction xs ys rule: lev.induct)
  case (1 ys)
  show ?case
    by (induction ys) (auto dest: edits_head(1))
next
  case (2 x xs)
  have "(edit1 ^^ length zs) zs []" for zs :: "'a list"
    by (induction zs) (auto dest: edits_head(2))
  from this [of "x # xs"] show ?case
    by simp
next
  case (3 x xs y ys)
  have "(edit1 ^^ (lev xs ys + of_bool (x \<noteq> y))) (x # xs) (y # ys)"
    using 3(1) edits_Cons [OF 3(1), of x] edits_head(3) [OF 3(1), of x y] by (cases "x = y") auto
  with 3 show ?case
    using edits_head(2) [OF 3(2), of x] edits_head(1) [OF 3(3), of y] by (auto simp: min_def simp del: relpowp.simps)
qed


section \<open>The rows hold the distances of the prefixes\<close>

lemma length_lev_row [simp]: "length (lev_row ca bs j d row) = length row"
  by (induction ca bs j d row rule: lev_row.induct) (auto simp: Let_def)

lemma lev_row_before: "k \<le> j \<Longrightarrow> lev_row ca bs j d row ! k = row ! k"
  by (induction ca bs j d row rule: lev_row.induct) (auto simp: Let_def)

lemma lev_row_computes:
  assumes "length row = j + length bs + 1" and "\<And>k. k \<le> j \<Longrightarrow> row ! k = new k" and "\<And>k. j < k \<Longrightarrow> k \<le> j + length bs \<Longrightarrow> row ! k = old k"
    and "d = old j" and "\<And>k. k < length bs \<Longrightarrow> new (j + k + 1) = min (min (old (j + k) + of_bool (ca \<noteq> bs ! k)) (old (j + k + 1) + 1)) (new (j + k) + 1)"
  shows "\<And>k. k \<le> j + length bs \<Longrightarrow> lev_row ca bs j d row ! k = new k"
  using assms
proof (induction ca bs j d row rule: lev_row.induct)
  case (2 ca cb bs j d row)
  let ?v = "min (min (d + of_bool (ca \<noteq> cb)) (row ! (j + 1) + 1)) (row ! j + 1)"
  have above: "row ! Suc j = old (Suc j)"
    using "2.prems"(4) [of "Suc j"] by simp
  then have v: "?v = new (j + 1)"
    using "2.prems"(3,5) "2.prems"(6) [of 0] by simp
  show ?case
    unfolding lev_row.simps Let_def
  proof (rule "2.IH" [OF refl])
    show "new (j + 1 + k' + 1) = min (min (old (j + 1 + k') + of_bool (ca \<noteq> bs ! k')) (old (j + 1 + k' + 1) + 1)) (new (j + 1 + k') + 1)"
      if "k' < length bs" for k'
      using that "2.prems"(6) [of "Suc k'"] by simp
  qed (use "2.prems" v above in \<open>auto simp: nth_list_update le_Suc_eq\<close>)
qed simp

lemma lev_snoc:
  "lev (rev (xs @ [x])) (rev (ys @ [y])) =
     min (min (lev (rev xs) (rev ys) + of_bool (x \<noteq> y)) (lev (rev xs) (rev (ys @ [y])) + 1)) (lev (rev (xs @ [x])) (rev ys) + 1)"
  by simp

lemma lev_rows_compute:
  assumes "length row = length b + 1" and "\<And>k. k \<le> length b \<Longrightarrow> row ! k = lev (rev us) (rev (take k b))" and "i = length us" and "k \<le> length b"
  shows "lev_rows b as i row ! k = lev (rev (us @ as)) (rev (take k b))"
  using assms
proof (induction b as i row arbitrary: us rule: lev_rows.induct)
  case (2 b ca as i row)
  have row: "lev_row ca b 0 (row ! 0) (row[0 := i + 1]) ! k = lev (rev (us @ [ca])) (rev (take k b))" if "k \<le> length b" for k
  proof (rule lev_row_computes [where old = "\<lambda>k. lev (rev us) (rev (take k b))"])
    show "lev (rev (us @ [ca])) (rev (take (0 + k + 1) b)) =
        min (min (lev (rev us) (rev (take (0 + k) b)) + of_bool (ca \<noteq> b ! k)) (lev (rev us) (rev (take (0 + k + 1) b)) + 1))
          (lev (rev (us @ [ca])) (rev (take (0 + k) b)) + 1)" if "k < length b" for k
      using that lev_snoc [of us ca "take k b" "b ! k"] by (simp add: take_Suc_conv_app_nth)
  qed (use 2 that in \<open>auto simp: nth_list_update\<close>)
  have "lev_rows b as (i + 1) (lev_row ca b 0 (row ! 0) (row[0 := i + 1])) ! k = lev (rev ((us @ [ca]) @ as)) (rev (take k b))"
    by (rule "2.IH") (use 2 row in auto)
  then show ?case
    by simp
qed simp

lemma distance_lev: "distance a b = lev (rev a) (rev b)"
  using lev_rows_compute [of "[0..<length b + 1]" b "[]" 0 "length b" a] by (simp add: distance_def nth_append del: upt_Suc)

section \<open>The bounded search\<close>

lemma lev_row_best_row: "fst (lev_row_best ca bs j d row best) = lev_row ca bs j d row"
  by (induction bs arbitrary: j d row best) (auto simp: Let_def)

lemma lev_row_best_least:
  assumes "length row = j + length bs + 1"
  shows "snd (lev_row_best ca bs j d row best) \<le> best \<and>
    (\<forall>k. j < k \<and> k \<le> j + length bs \<longrightarrow> snd (lev_row_best ca bs j d row best) \<le> lev_row ca bs j d row ! k)"
  using assms
proof (induction bs arbitrary: j d row best)
  case (Cons cb bs)
  let ?row = "row[j + 1 := min (min (d + of_bool (ca \<noteq> cb)) (row ! (j + 1) + 1)) (row ! j + 1)]"
  let ?best = "snd (lev_row_best ca bs (j + 1) (row ! (j + 1)) ?row (min best (?row ! (j + 1))))"
  have unfold: "snd (lev_row_best ca (cb # bs) j d row best) = ?best"
    "lev_row ca (cb # bs) j d row = lev_row ca bs (j + 1) (row ! (j + 1)) ?row"
    by (simp_all only: lev_row_best.simps lev_row.simps Let_def)
  have IH: "?best \<le> min best (?row ! (j + 1)) \<and>
      (\<forall>k. j + 1 < k \<and> k \<le> j + 1 + length bs \<longrightarrow> ?best \<le> lev_row ca bs (j + 1) (row ! (j + 1)) ?row ! k)"
    by (rule Cons.IH) (use Cons.prems in simp)
  then have best: "?best \<le> ?row ! (j + 1)" "?best \<le> best"
    by (simp_all only: min.bounded_iff)
  have "lev_row ca bs (j + 1) (row ! (j + 1)) ?row ! (j + 1) = ?row ! (j + 1)"
    by (rule lev_row_before) simp
  with best(1) have first: "?best \<le> lev_row ca bs (j + 1) (row ! (j + 1)) ?row ! (j + 1)"
    by (simp only:)
  have "?best \<le> lev_row ca bs (j + 1) (row ! (j + 1)) ?row ! k" if "j < k" "k \<le> j + length (cb # bs)" for k
  proof (cases "k = j + 1")
    case False
    with that have "j + 1 < k \<and> k \<le> j + 1 + length bs"
      by simp
    with IH show ?thesis
      by blast
  qed (use first in \<open>simp only:\<close>)
  with best(2) show ?case
    unfolding unfold by blast
qed simp

lemma lev_best_least:
  assumes "length row = length b + 1" and "lev_row_best ca b 0 (row ! 0) (row[0 := i + 1]) (i + 1) = (row', best)" and "k \<le> length b"
  shows "best \<le> row' ! k"
proof (cases "k = 0")
  case True
  have "row' ! 0 = i + 1"
    using assms(1,2) lev_row_best_row [of ca b 0 "row ! 0" "row[0 := i + 1]" "i + 1"] by (auto simp: lev_row_before)
  with True assms(1,2) lev_row_best_least [of "row[0 := i + 1]" 0 b ca "row ! 0" "i + 1"] show ?thesis
    by simp
next
  case False
  with assms lev_row_best_row [of ca b 0 "row ! 0" "row[0 := i + 1]" "i + 1"]
    lev_row_best_least [of "row[0 := i + 1]" 0 b ca "row ! 0" "i + 1"] show ?thesis
    by auto
qed

text \<open>A whole string costs at least as much as some prefix pair that cuts the first string at a given place.\<close>

lemma lev_suffix: "\<exists>zs. suffix zs ys \<and> lev xs zs \<le> lev (us @ xs) ys"
proof (induction us arbitrary: ys)
  case (Cons u us)
  have "\<exists>zs. suffix zs ys \<and> lev (us @ xs) zs \<le> lev (u # us @ xs) ys"
  proof (induction ys)
    case (Cons y ys)
    then obtain zs where zs: "suffix zs ys" "lev (us @ xs) zs \<le> lev (u # us @ xs) ys"
      by auto
    let ?d = "lev (u # us @ xs) (y # ys)"
    have "lev (us @ xs) ys \<le> ?d \<or> lev (us @ xs) (y # ys) \<le> ?d \<or> lev (u # us @ xs) ys \<le> ?d"
      by (simp add: min_def)
    then show ?case
      using zs by (blast intro: suffix_ConsI suffix_order.refl order.trans)
  qed auto
  then obtain zs where zs: "suffix zs ys" "lev (us @ xs) zs \<le> lev (u # us @ xs) ys"
    by auto
  with Cons.IH [of zs] show ?case
    by (metis append_Cons order.trans suffix_order.trans)
qed auto

lemma lev_prefix_bound:
  assumes "\<And>k. k \<le> length b \<Longrightarrow> m < lev (rev us) (rev (take k b))"
  shows "m < lev (rev (us @ vs)) (rev b)"
proof -
  obtain zs where zs: "suffix zs (rev b)" "lev (rev us) zs \<le> lev (rev (us @ vs)) (rev b)"
    using lev_suffix [of "rev b" "rev us" "rev vs"] by auto
  then have "zs = rev (take (length zs) b)" "length zs \<le> length b"
    by (auto simp: suffix_def rev_eq_append_conv)
  with assms [of "length zs"] zs(2) show ?thesis
    by auto
qed

lemma lev_rows_within_spec:
  assumes "length row = length b + 1" and "\<And>k. k \<le> length b \<Longrightarrow> row ! k = lev (rev us) (rev (take k b))" and "i = length us"
  shows "case lev_rows_within m b as i row of None \<Rightarrow> m < lev (rev (us @ as)) (rev b) | Some row' \<Rightarrow> row' ! length b = lev (rev (us @ as)) (rev b)"
  using assms
proof (induction m b as i row arbitrary: us rule: lev_rows_within.induct)
  case (2 m b ca as i row)
  obtain row' best where rb: "lev_row_best ca b 0 (row ! 0) (row[0 := i + 1]) (i + 1) = (row', best)"
    by fastforce
  then have row': "row' = lev_rows b [ca] i row"
    using lev_row_best_row [of ca b 0 "row ! 0" "row[0 := i + 1]" "i + 1"] by simp
  then have cells: "row' ! k = lev (rev (us @ [ca])) (rev (take k b))" if "k \<le> length b" for k
    using lev_rows_compute [OF "2.prems" that, of "[ca]"] by simp
  show ?case
  proof (cases "m < best")
    case True
    then have "m < lev (rev (us @ [ca])) (rev (take k b))" if "k \<le> length b" for k
      using lev_best_least [OF "2.prems"(1) rb that] cells [OF that] by simp
    from lev_prefix_bound [OF this, of as] True rb show ?thesis
      by simp
  next
    case False
    have "length row' = length b + 1"
      using row' "2.prems"(1) by simp
    with "2.IH" [OF rb [symmetric] False this cells] "2.prems"(3) rb False show ?thesis
      by (simp split: option.splits)
  qed
qed simp

lemma lev_length: "length xs \<le> length ys + lev xs ys" "length ys \<le> length xs + lev xs ys"
  by (induction xs ys rule: lev.induct) auto

text \<open>C32.
  The edit distance is the least number of edits: the two strings are that many single-character insertions, deletions and
  substitutions apart, and no fewer; and the bounded search gives up exactly when the distance exceeds its bound.\<close>

theorem distance_is_least_edits:
  "(edit1 ^^ distance a b) a b \<and> (\<forall>n < distance a b. \<not> (edit1 ^^ n) a b) \<and>
   distance_within a b max_d = (if distance a b \<le> max_d then Some (distance a b) else None)"
proof (intro conjI)
  have rev: "edit1 (rev xs) (rev ys)" if "edit1 xs ys" for xs ys :: "'a list"
    using that by cases (simp, metis append.assoc append_Cons append_Nil edit1.intros)+
  have revs: "(edit1 ^^ n) (rev xs) (rev ys)" if "(edit1 ^^ n) xs ys" for n and xs ys :: "'a list"
    using that by (induction n arbitrary: ys) (auto intro: rev)
  show "(edit1 ^^ distance a b) a b"
    using revs [OF lev_reached [of "rev a" "rev b"]] by (simp add: distance_lev)
  show "\<forall>n < distance a b. \<not> (edit1 ^^ n) a b"
    using revs lev_minimal by (fastforce simp: distance_lev)
  have "(length a - length b) + (length b - length a) \<le> distance a b"
    using lev_length(1) [of "rev a" "rev b"] lev_length(2) [of "rev b" "rev a"] by (auto simp: distance_lev)
  moreover have "case lev_rows_within max_d b a 0 [0..<length b + 1] of None \<Rightarrow> max_d < distance a b | Some row \<Rightarrow> row ! length b = distance a b"
    using lev_rows_within_spec [of "[0..<length b + 1]" b "[]" 0 max_d a] by (simp add: distance_lev nth_append del: upt_Suc split: option.splits)
  ultimately show "distance_within a b max_d = (if distance a b \<le> max_d then Some (distance a b) else None)"
    by (auto simp: distance_within_def split: option.splits)
qed

theorem distance_is_least_edits_witness:
  "(edit1 ^^ 3) ''kitten'' ''sitting'' \<and> \<not> (edit1 ^^ 2) ''kitten'' ''sitting'' \<and> distance_within ''kitten'' ''sitting'' 2 = None"
proof -
  have "distance ''kitten'' ''sitting'' = 3"
    by code_simp
  with distance_is_least_edits [of "''kitten''" "''sitting''" 2] show ?thesis
    by simp
qed

end
