(* ===== verification/Stable_Matching.thy ===== *)
theory Stable_Matching
  imports Drevo_Prelude "HOL-Library.Product_Lexorder"
begin

text \<open>
  Stable matching by deferred acceptance: \<^verbatim>\<open>src/src/algorithms/stable_matching.rs\<close>. The two tables the code derives from
  the preference lists, its two nested loops, and the proof that the result is stable and the best stable matching for
  every proposer.

  The proof about the loops stands in the locale \<open>deferred_acceptance\<close>, over any tables in which a proposer lists an
  acceptor once and only if the acceptor ranks it; the tables of the code are an instance.
\<close>

section \<open>The tables\<close>

type_synonym preferences = "u64 \<times> u64 list"

fun ranks_of :: "u64 fset \<Rightarrow> u64 list \<Rightarrow> (u64, nat) fmap \<Rightarrow> (u64, nat) fmap" where
  "ranks_of proposer_ids [] ranks = ranks"
| "ranks_of proposer_ids (p # ps) ranks =
     ranks_of proposer_ids ps
       (if p |\<in>| proposer_ids \<and> fmlookup ranks p = None then fmupd p (fcard (fmdom ranks)) ranks else ranks)"

definition acceptor_rank :: "preferences list \<Rightarrow> preferences list \<Rightarrow> (u64, (u64, nat) fmap) fmap" where
  "acceptor_rank proposers acceptors =
     collect_map (map (\<lambda>(a, list). (a, ranks_of (fset_of_list (map fst proposers)) list fmempty)) acceptors)"

definition rank :: "(u64, (u64, nat) fmap) fmap \<Rightarrow> u64 \<Rightarrow> u64 \<Rightarrow> nat option" where
  "rank R a p = Option.bind (fmlookup R a) (\<lambda>r. fmlookup r p)"

fun acceptable :: "(u64, (u64, nat) fmap) fmap \<Rightarrow> u64 \<Rightarrow> u64 fset \<Rightarrow> u64 list \<Rightarrow> u64 list" where
  "acceptable R p seen [] = []"
| "acceptable R p seen (a # as) =
     (if rank R a p \<noteq> None \<and> a |\<notin>| seen then a # acceptable R p (finsert a seen) as else acceptable R p seen as)"

definition proposal_lists :: "(u64, (u64, nat) fmap) fmap \<Rightarrow> preferences list \<Rightarrow> (u64, u64 list) fmap" where
  "proposal_lists R proposers = collect_map (map (\<lambda>(p, list). (p, acceptable R p {||} list)) proposers)"

section \<open>The loops\<close>

text \<open>The order of \<open>Option<usize>\<close>.\<close>

fun rank_less :: "nat option \<Rightarrow> nat option \<Rightarrow> bool" where
  "rank_less None None \<longleftrightarrow> False"
| "rank_less None (Some s) \<longleftrightarrow> True"
| "rank_less (Some r) None \<longleftrightarrow> False"
| "rank_less (Some r) (Some s) \<longleftrightarrow> r < s"

text \<open>One free proposer goes down its list until it is held; the third component is who was released for it.\<close>

function propose ::
    "(u64, (u64, nat) fmap) fmap \<Rightarrow> u64 \<Rightarrow> u64 list \<Rightarrow> nat \<Rightarrow> (u64, u64) fmap \<Rightarrow> nat \<times> (u64, u64) fmap \<times> u64 option" where
  "propose R p list cursor held_by =
     (if cursor < length list then
        (let a = list ! cursor in
         case fmlookup held_by a of
           None \<Rightarrow> (cursor + 1, fmupd a p held_by, None)
         | Some held \<Rightarrow>
             if rank_less (rank R a p) (rank R a held) then (cursor + 1, fmupd a p held_by, Some held)
             else propose R p list (cursor + 1) held_by)
      else (cursor, held_by, None))"
  by pat_completeness auto
termination
  by (relation "measure (\<lambda>(R, p, list, cursor, held_by). length list - cursor)") auto

definition cursor_of :: "(u64, nat) fmap \<Rightarrow> u64 \<Rightarrow> nat" where
  "cursor_of next_choice p = (case fmlookup next_choice p of None \<Rightarrow> 0 | Some c \<Rightarrow> c)"

text \<open>The proposals that are left; the outer loop ends because none is made twice.\<close>

definition proposals_left :: "(u64, u64 list) fmap \<Rightarrow> (u64, nat) fmap \<Rightarrow> nat" where
  "proposals_left plists next_choice = (\<Sum>p \<in> fset (fmdom plists). length (the (fmlookup plists p)) - cursor_of next_choice p)"

declare propose.simps [simp del]

lemma propose_cursor: "cursor \<le> fst (propose R p list cursor held)"
proof (induction R p list cursor held rule: propose.induct)
  case (1 R p list cursor held)
  then show ?case
    by (subst propose.simps) (auto simp: Let_def dest: Suc_leD split: option.splits)
qed

lemma propose_released: "snd (snd (propose R p list cursor held)) = Some q \<Longrightarrow> cursor < length list \<and> cursor < fst (propose R p list cursor held)"
proof (induction R p list cursor held rule: propose.induct)
  case (1 R p list cursor held)
  then show ?case
    using propose_cursor [of "cursor + 1" R p list held]
    by (auto simp: propose.simps [of R p list cursor held] Let_def split: option.splits if_splits)
qed

lemma proposals_left_update:
  assumes "fmlookup plists p = Some list" and "cursor_of next_choice p \<le> c"
  shows "proposals_left plists (fmupd p c next_choice) \<le> proposals_left plists next_choice"
    and "cursor_of next_choice p < length list \<Longrightarrow> cursor_of next_choice p < c \<Longrightarrow> proposals_left plists (fmupd p c next_choice) < proposals_left plists next_choice"
proof -
  have p: "p \<in> fset (fmdom plists)"
    using assms(1) by (simp add: fmdomI)
  have c: "cursor_of (fmupd p c next_choice) q = (if q = p then c else cursor_of next_choice q)" for q
    by (simp add: cursor_of_def)
  show "proposals_left plists (fmupd p c next_choice) \<le> proposals_left plists next_choice"
    unfolding proposals_left_def by (rule sum_mono) (use assms c in auto)
  assume "cursor_of next_choice p < length list" "cursor_of next_choice p < c"
  then show "proposals_left plists (fmupd p c next_choice) < proposals_left plists next_choice"
    unfolding proposals_left_def by (intro sum_strict_mono_ex1) (use assms c p in \<open>auto intro!: bexI [of _ p]\<close>)
qed

lemma loop_decreases:
  assumes "fmlookup plists p = Some list" and "(cursor, held', released) = propose R p list (cursor_of next_choice p) held"
  shows "proposals_left plists (fmupd p cursor next_choice) < proposals_left plists next_choice \<or>
    proposals_left plists (fmupd p cursor next_choice) = proposals_left plists next_choice \<and> released = None"
proof -
  have le: "cursor_of next_choice p \<le> cursor"
    using propose_cursor [of "cursor_of next_choice p" R p list held] by (simp flip: assms(2))
  show ?thesis
    using proposals_left_update [OF assms(1) le] propose_released [of R p list "cursor_of next_choice p" held]
    by (cases released) (auto simp flip: assms(2))
qed

function matching_loop ::
    "(u64, (u64, nat) fmap) fmap \<Rightarrow> (u64, u64 list) fmap \<Rightarrow> (u64, nat) fmap \<Rightarrow> (u64, u64) fmap \<Rightarrow> u64 list \<Rightarrow> (u64, u64) fmap" where
  "matching_loop R plists next_choice held_by [] = held_by"
| "matching_loop R plists next_choice held_by (p # free) =
     (case fmlookup plists p of
        None \<Rightarrow> matching_loop R plists next_choice held_by free
      | Some list \<Rightarrow>
          (case propose R p list (cursor_of next_choice p) held_by of
             (cursor, held_by, released) \<Rightarrow>
               matching_loop R plists (fmupd p cursor next_choice) held_by (free @ (case released of None \<Rightarrow> [] | Some held \<Rightarrow> [held]))))"
  by pat_completeness auto
termination
proof (relation "measures [\<lambda>(R, plists, next_choice, held_by, free). proposals_left plists next_choice,
    \<lambda>(R, plists, next_choice, held_by, free). length free]")
qed (auto dest!: loop_decreases split: option.splits)

definition stable_matching :: "preferences list \<Rightarrow> preferences list \<Rightarrow> (u64 \<times> u64) list" where
  "stable_matching proposers acceptors =
     (let R = acceptor_rank proposers acceptors;
          plists = proposal_lists R proposers;
          held_by = matching_loop R plists fmempty fmempty (sorted_list_of_fset (fmdom plists))
      in sort (map (\<lambda>(a, p). (p, a)) (sorted_list_of_fmap held_by)))"

section \<open>Stability over the tables\<close>

definition pos :: "'a list \<Rightarrow> 'a \<Rightarrow> nat" where
  "pos l x = length (takeWhile (\<lambda>y. y \<noteq> x) l)"

definition choices :: "(u64, u64 list) fmap \<Rightarrow> u64 \<Rightarrow> u64 list" where
  "choices plists p = (case fmlookup plists p of None \<Rightarrow> [] | Some l \<Rightarrow> l)"

definition one_to_one :: "(u64 \<times> u64) set \<Rightarrow> bool" where
  "one_to_one M \<longleftrightarrow> (\<forall>p a b. (p, a) \<in> M \<longrightarrow> (p, b) \<in> M \<longrightarrow> a = b) \<and> (\<forall>p q a. (p, a) \<in> M \<longrightarrow> (q, a) \<in> M \<longrightarrow> p = q)"

definition table_stable :: "(u64, (u64, nat) fmap) fmap \<Rightarrow> (u64, u64 list) fmap \<Rightarrow> (u64 \<times> u64) set \<Rightarrow> bool" where
  "table_stable R plists M \<longleftrightarrow>
     one_to_one M \<and> (\<forall>p a. (p, a) \<in> M \<longrightarrow> a \<in> set (choices plists p)) \<and>
     \<not> (\<exists>p a. a \<in> set (choices plists p) \<and>
         (\<forall>b. (p, b) \<in> M \<longrightarrow> pos (choices plists p) a < pos (choices plists p) b) \<and>
         (\<forall>q. (q, a) \<in> M \<longrightarrow> rank_less (rank R a p) (rank R a q)))"

definition held_pairs :: "(u64, u64) fmap \<Rightarrow> (u64 \<times> u64) set" where
  "held_pairs held = {(p, a). fmlookup held a = Some p}"

text \<open>
  The invariant of the loops, with the proposers \<open>F\<close> that are free and the number \<open>nc p\<close> of proposals of each: who is held
  by an acceptor proposed to it last; who is neither free nor held has proposed to all; an acceptor that was proposed to
  holds the best proposer so far; and no proposer was rejected by its partner in a stable matching.
\<close>

definition accept_inv ::
    "(u64, (u64, nat) fmap) fmap \<Rightarrow> (u64, u64 list) fmap \<Rightarrow> u64 set \<Rightarrow> (u64 \<Rightarrow> nat) \<Rightarrow> (u64, u64) fmap \<Rightarrow> bool" where
  "accept_inv R plists F nc held \<longleftrightarrow>
     (\<forall>a p. fmlookup held a = Some p \<longrightarrow> p \<notin> F \<and> (\<exists>k. nc p = Suc k \<and> choices plists p ! k = a)) \<and>
     (\<forall>p. nc p \<le> length (choices plists p)) \<and>
     (\<forall>p. p \<notin> F \<longrightarrow> (\<exists>a. fmlookup held a = Some p) \<or> nc p = length (choices plists p)) \<and>
     (\<forall>p k. k < nc p \<longrightarrow> (\<exists>q. fmlookup held (choices plists p ! k) = Some q \<and>
        (q = p \<or> rank_less (rank R (choices plists p ! k) q) (rank R (choices plists p ! k) p)))) \<and>
     (\<forall>M p k. table_stable R plists M \<longrightarrow> k < nc p \<longrightarrow> (p, choices plists p ! k) \<in> M \<longrightarrow> fmlookup held (choices plists p ! k) = Some p)"

lemma accept_invD:
  assumes "accept_inv R plists F nc held"
  shows "\<And>a p. fmlookup held a = Some p \<Longrightarrow> p \<notin> F" and "\<And>a p. fmlookup held a = Some p \<Longrightarrow> \<exists>k. nc p = Suc k \<and> choices plists p ! k = a"
    and "\<And>p. nc p \<le> length (choices plists p)" and "\<And>p. p \<notin> F \<Longrightarrow> (\<exists>a. fmlookup held a = Some p) \<or> nc p = length (choices plists p)"
    and "\<And>p k. k < nc p \<Longrightarrow> \<exists>q. fmlookup held (choices plists p ! k) = Some q \<and>
        (q = p \<or> rank_less (rank R (choices plists p ! k) q) (rank R (choices plists p ! k) p))"
    and "\<And>M p k. table_stable R plists M \<Longrightarrow> k < nc p \<Longrightarrow> (p, choices plists p ! k) \<in> M \<Longrightarrow> fmlookup held (choices plists p ! k) = Some p"
  using assms unfolding accept_inv_def by blast+

lemma rank_less_irrefl [simp]: "\<not> rank_less r r"
  by (cases r) auto

lemma rank_less_asym: "rank_less r s \<Longrightarrow> \<not> rank_less s r"
  by (cases r; cases s) auto

lemma rank_less_trans: "rank_less r s \<Longrightarrow> rank_less s t \<Longrightarrow> rank_less r t"
  by (cases r; cases s; cases t) auto

lemma pos_nth: "distinct l \<Longrightarrow> k < length l \<Longrightarrow> pos l (l ! k) = k"
proof (induction l arbitrary: k)
  case (Cons x l)
  then show ?case
    by (cases k) (auto simp: pos_def)
qed simp

locale deferred_acceptance =
  fixes R :: "(u64, (u64, nat) fmap) fmap" and plists :: "(u64, u64 list) fmap"
  assumes distinct_choices: "distinct (choices plists p)"
    and ranked: "a \<in> set (choices plists p) \<Longrightarrow> rank R a p \<noteq> None"
    and rank_inj: "rank R a p = Some r \<Longrightarrow> rank R a q = Some r \<Longrightarrow> p = q"
begin

lemma better:
  assumes "a \<in> set (choices plists p)" and "a \<in> set (choices plists q)" and "p \<noteq> q" and "\<not> rank_less (rank R a p) (rank R a q)"
  shows "rank_less (rank R a q) (rank R a p)"
  using assms ranked [OF assms(1)] ranked [OF assms(2)] rank_inj [of a p _ q] by (auto simp: not_less le_less)

text \<open>A proposer that loses to one who has been rejected by all stable partners before has no stable partner there.\<close>

lemma not_stable_partner:
  assumes M: "table_stable R plists M" "(p, a) \<in> M" and j: "j < length (choices plists q)" "choices plists q ! j = a"
    and before: "\<And>k. k < j \<Longrightarrow> (q, choices plists q ! k) \<notin> M" and less: "rank_less (rank R a q) (rank R a p)"
  shows False
proof -
  have "pos (choices plists q) a < pos (choices plists q) b" if b: "(q, b) \<in> M" for b
  proof -
    obtain k where k: "k < length (choices plists q)" "choices plists q ! k = b"
      using M(1) b unfolding table_stable_def by (metis in_set_conv_nth)
    have "b \<noteq> a"
      using M b less rank_less_irrefl unfolding table_stable_def one_to_one_def by metis
    then have "k \<noteq> j" and "\<not> k < j"
      using j k before b by auto
    with pos_nth [OF distinct_choices k(1)] pos_nth [OF distinct_choices j(1)] k j show ?thesis
      by simp
  qed
  moreover have "rank_less (rank R a q) (rank R a q')" if "(q', a) \<in> M" for q'
    using M that less unfolding table_stable_def one_to_one_def by metis
  moreover have "a \<in> set (choices plists q)"
    using j by auto
  ultimately show False
    using M(1) unfolding table_stable_def by blast
qed

lemma held_before:
  assumes "accept_inv R plists F nc held" and "fmlookup held a = Some q"
  obtains j where "nc q = Suc j" "j < length (choices plists q)" "choices plists q ! j = a"
    "\<And>M k. table_stable R plists M \<Longrightarrow> k < j \<Longrightarrow> (q, choices plists q ! k) \<notin> M"
proof -
  obtain j where j: "nc q = Suc j" "choices plists q ! j = a" "nc q \<le> length (choices plists q)"
    using assms unfolding accept_inv_def by metis
  have "(q, choices plists q ! k) \<notin> M" if M: "table_stable R plists M" "k < j" for M k
  proof
    assume "(q, choices plists q ! k) \<in> M"
    moreover have "k < nc q"
      using that j by simp
    ultimately have "fmlookup held (choices plists q ! k) = Some q"
      using assms(1) M(1) unfolding accept_inv_def by blast
    then have "choices plists q ! k = choices plists q ! j"
      using assms(1) j(1) unfolding accept_inv_def by (metis Suc_inject)
    with nth_eq_iff_index_eq [OF distinct_choices [of q], of k j] j that show False
      by simp
  qed
  with j show thesis
    by (intro that) auto
qed

text \<open>One proposal: rejected, accepted by an acceptor that holds nobody, accepted in place of another proposer.\<close>

lemma rejected:
  assumes inv: "accept_inv R plists F nc held" and p: "p \<in> F" and c: "nc p < length (choices plists p)"
    and held: "fmlookup held (choices plists p ! nc p) = Some q" and less: "\<not> rank_less (rank R (choices plists p ! nc p) p) (rank R (choices plists p ! nc p) q)"
  shows "accept_inv R plists F (nc(p := Suc (nc p))) held"
proof -
  note D = accept_invD [OF inv]
  let ?a = "choices plists p ! nc p"
  obtain j where j: "j < length (choices plists q)" "choices plists q ! j = ?a"
    "\<And>M k. table_stable R plists M \<Longrightarrow> k < j \<Longrightarrow> (q, choices plists q ! k) \<notin> M"
    using inv held by (rule held_before) (rule that)
  have q: "q \<noteq> p"
    using D(1) [OF held] p by blast
  have worse: "rank_less (rank R ?a q) (rank R ?a p)"
    by (rule better) (use c j(1,2) nth_mem q less in \<open>force+\<close>)
  have "\<not> (table_stable R plists M \<and> (p, ?a) \<in> M)" for M
    using not_stable_partner [OF _ _ j(1,2)] j(3) worse by blast
  moreover have "k = nc p" if "k < Suc (nc p)" "\<not> k < nc p" for k
    using that by simp
  ultimately show ?thesis
    unfolding accept_inv_def using D p q c held worse
    by (auto simp: less_Suc_eq) (metis+)?
qed

lemma accepted:
  assumes inv: "accept_inv R plists F nc held" and p: "p \<in> F" and c: "nc p < length (choices plists p)" and a: "a = choices plists p ! nc p"
    and freed: "\<And>q. fmlookup held a = Some q \<Longrightarrow> rank_less (rank R a p) (rank R a q) \<and> q \<in> G" "\<And>q. q \<in> G \<Longrightarrow> fmlookup held a = Some q"
  shows "accept_inv R plists (F - {p} \<union> G) (nc(p := Suc (nc p))) (fmupd a p held)"
proof -
  note D = accept_invD [OF inv]
  have q: "q \<noteq> p" "(\<exists>b. b \<noteq> a \<and> fmlookup held b = Some q) \<Longrightarrow> False" if "fmlookup held a = Some q" for q
    using D(1) [OF that] p D(2) [OF that] D(2) [of _ q] by auto
  have stable: "False" if M: "table_stable R plists M" "(q, a) \<in> M" "fmlookup held a = Some q" for M q
  proof (rule not_stable_partner [OF M(1,2) c a [symmetric]])
    show "(p, choices plists p ! k) \<notin> M" if "k < nc p" for k
      using D(6) [OF M(1) that] D(1) p by blast
    show "rank_less (rank R a p) (rank R a q)"
      using freed(1) [OF M(3)] by blast
  qed
  have "p' \<notin> F - {p} \<union> G \<and> (\<exists>k. (nc(p := Suc (nc p))) p' = Suc k \<and> choices plists p' ! k = b)" if "fmlookup (fmupd a p held) b = Some p'" for b p'
    using that D(1) [of b p'] D(2) [of b p'] q freed(2) p a by (cases "b = a") auto
  moreover have "(nc(p := Suc (nc p))) p' \<le> length (choices plists p')" for p'
    using D(3) [of p'] c by simp
  moreover have "(\<exists>b. fmlookup (fmupd a p held) b = Some p') \<or> (nc(p := Suc (nc p))) p' = length (choices plists p')" if "p' \<notin> F - {p} \<union> G" for p'
  proof (cases "p' = p")
    case False
    with that D(4) [of p'] consider b where "fmlookup held b = Some p'" | "nc p' = length (choices plists p')"
      by auto
    then show ?thesis
      using False that freed(1) by cases (auto intro: exI [of _ a], metis UnI2 fmupd_lookup)
  qed auto
  moreover have "\<exists>s. fmlookup (fmupd a p held) (choices plists p' ! k) = Some s \<and>
      (s = p' \<or> rank_less (rank R (choices plists p' ! k) s) (rank R (choices plists p' ! k) p'))" if "k < (nc(p := Suc (nc p))) p'" for p' k
  proof (cases "k < nc p'")
    case True
    from D(5) [OF this] freed(1) show ?thesis
      by (auto intro: rank_less_trans)
  next
    case False
    with that have "p' = p" "choices plists p' ! k = a"
      using a by (auto simp: less_Suc_eq split: if_splits)
    then show ?thesis
      by simp
  qed
  moreover have "fmlookup (fmupd a p held) (choices plists p' ! k) = Some p'"
    if "table_stable R plists M" "k < (nc(p := Suc (nc p))) p'" "(p', choices plists p' ! k) \<in> M" for M p' k
  proof (cases "k < nc p'")
    case True
    with D(6) that stable [of M p'] show ?thesis
      by auto
  next
    case False
    with that have "p' = p" "choices plists p' ! k = a"
      using a by (auto simp: less_Suc_eq split: if_splits)
    then show ?thesis
      by simp
  qed
  ultimately show ?thesis
    unfolding accept_inv_def by blast
qed

lemma exhausted: "accept_inv R plists F nc held \<Longrightarrow> nc p = length (choices plists p) \<Longrightarrow> accept_inv R plists (F - {p}) nc held"
  unfolding accept_inv_def by blast

lemma propose_inv:
  assumes "accept_inv R plists F nc held" and "p \<in> F" and "nc p = cursor"
    and "propose R p (choices plists p) cursor held = (cursor', held', released)"
  shows "accept_inv R plists (F - {p} \<union> set_option released) (nc(p := cursor')) held' \<and> (\<forall>q \<in> set_option released. q \<notin> F)"
  using assms(1,3,4)
proof (induction "length (choices plists p) - cursor" arbitrary: cursor nc rule: less_induct)
  case less
  note D = accept_invD [OF less.prems(1)]
  let ?a = "choices plists p ! cursor"
  consider "\<not> cursor < length (choices plists p)"
    | "cursor < length (choices plists p)" "fmlookup held ?a = None"
    | q where "cursor < length (choices plists p)" "fmlookup held ?a = Some q" "rank_less (rank R ?a p) (rank R ?a q)"
    | q where "cursor < length (choices plists p)" "fmlookup held ?a = Some q" "\<not> rank_less (rank R ?a p) (rank R ?a q)"
    by fastforce
  then show ?case
  proof cases
    case 1
    with less.prems D(3) [of p] have "nc p = length (choices plists p)" "cursor' = nc p" "held' = held" "released = None"
      by (simp_all add: propose.simps)
    with exhausted [OF less.prems(1)] show ?thesis
      by (simp add: fun_upd_idem)
  next
    case 2
    then have "cursor' = Suc cursor" "held' = fmupd ?a p held" "released = None"
      using less.prems(3) by (simp_all add: propose.simps)
    with accepted [OF less.prems(1) assms(2), of ?a "{}"] 2 less.prems(2) show ?thesis
      by simp
  next
    case (3 q)
    then have "cursor' = Suc cursor" "held' = fmupd ?a p held" "released = Some q"
      using less.prems(3) by (simp_all add: propose.simps)
    with accepted [OF less.prems(1) assms(2), of ?a "{q}"] 3 less.prems(2) D(1) [of ?a q] show ?thesis
      by simp
  next
    case (4 q)
    then have "propose R p (choices plists p) (Suc cursor) held = (cursor', held', released)"
      using less.prems(3) by (simp add: propose.simps [of R p _ cursor])
    with less.hyps [of "Suc cursor" "nc(p := Suc cursor)"] rejected [OF less.prems(1) assms(2)] 4 less.prems(2) show ?thesis
      by simp
  qed
qed

lemma loop_inv:
  assumes "accept_inv R plists (set free) (cursor_of next_choice) held" and "distinct free"
  shows "\<exists>nc. accept_inv R plists {} nc (matching_loop R plists next_choice held free)"
  using assms
proof (induction R' \<equiv> R plists' \<equiv> plists next_choice held free rule: matching_loop.induct)
  case (1 next_choice held)
  then show ?case
    by auto
next
  case (2 next_choice held p free)
  show ?case
  proof (cases "fmlookup plists p")
    case None
    then have "cursor_of next_choice p = length (choices plists p)"
      using accept_invD(3) [OF "2.prems"(1), of p] by (simp add: choices_def)
    from exhausted [OF "2.prems"(1) this] "2.prems"(2) None show ?thesis
      using "2.hyps"(1) by (simp add: insert_Diff_if)
  next
    case (Some list)
    obtain c h r where run: "propose R p list (cursor_of next_choice p) held = (c, h, r)"
      by (metis prod_cases3)
    have "choices plists p = list"
      using Some by (simp add: choices_def)
    with propose_inv [OF "2.prems"(1), of p _ c h r] run
    have inv: "accept_inv R plists (set (p # free) - {p} \<union> set_option r) ((cursor_of next_choice)(p := c)) h" and r: "\<forall>q \<in> set_option r. q \<notin> set (p # free)"
      by simp_all
    have cur: "cursor_of (fmupd p c next_choice) = (cursor_of next_choice)(p := c)"
      by (simp add: cursor_of_def fun_eq_iff)
    have F: "set (p # free) - {p} \<union> set_option r = set (free @ (case r of None \<Rightarrow> [] | Some held \<Rightarrow> [held]))"
      "distinct (free @ (case r of None \<Rightarrow> [] | Some held \<Rightarrow> [held]))"
      using "2.prems"(2) r by (auto split: option.splits)
    from "2.hyps"(2) [OF Some run [symmetric] refl] inv cur F Some run show ?thesis
      by simp
  qed
qed

lemma final_stable:
  assumes "accept_inv R plists {} nc held"
  shows "table_stable R plists (held_pairs held)"
proof -
  note D = accept_invD [OF assms]
  have at: "a \<in> set (choices plists p) \<and> nc p = Suc (pos (choices plists p) a)" if held: "fmlookup held a = Some p" for p a
  proof -
    obtain k where k: "nc p = Suc k" "choices plists p ! k = a"
      using D(2) [OF held] by blast
    moreover have "k < length (choices plists p)"
      using D(3) [of p] k by simp
    ultimately show ?thesis
      using pos_nth [OF distinct_choices, of k p] by auto
  qed
  have no_block: "False" if a: "a \<in> set (choices plists p)" and prefers: "\<forall>b. (p, b) \<in> held_pairs held \<longrightarrow> pos (choices plists p) a < pos (choices plists p) b"
    and wanted: "\<forall>q. (q, a) \<in> held_pairs held \<longrightarrow> rank_less (rank R a p) (rank R a q)" for p a
  proof -
    obtain k where k: "k < length (choices plists p)" "choices plists p ! k = a"
      using a by (metis in_set_conv_nth)
    show False
    proof (cases "k < nc p")
      case True
      with D(5) k obtain q where "fmlookup held a = Some q" "q = p \<or> rank_less (rank R a q) (rank R a p)"
        by blast
      with wanted show False
        by (auto simp: held_pairs_def dest: rank_less_asym)
    next
      case False
      with k D(4) [of p] obtain b where b: "fmlookup held b = Some p"
        by auto
      with prefers at [OF b] pos_nth [OF distinct_choices k(1)] k(2) False show False
        by (auto simp: held_pairs_def)
    qed
  qed
  have "a = b" if "fmlookup held a = Some p" "fmlookup held b = Some p" for p a b
    using D(2) [OF that(1)] D(2) [OF that(2)] by auto
  then have "one_to_one (held_pairs held)"
    by (auto simp: one_to_one_def held_pairs_def)
  moreover have "a \<in> set (choices plists p)" if "(p, a) \<in> held_pairs held" for p a
    using at that by (simp add: held_pairs_def)
  ultimately show ?thesis
    using no_block unfolding table_stable_def by blast
qed

lemma final_optimal:
  assumes "accept_inv R plists {} nc held" and "table_stable R plists M" and "(p, b) \<in> M"
  shows "\<exists>a. (p, a) \<in> held_pairs held \<and> pos (choices plists p) a \<le> pos (choices plists p) b"
proof -
  note D = accept_invD [OF assms(1)]
  obtain k where k: "k < length (choices plists p)" "choices plists p ! k = b"
    using assms(2,3) unfolding table_stable_def by (metis in_set_conv_nth)
  show ?thesis
  proof (cases "k < nc p")
    case True
    with D(6) [OF assms(2)] assms(3) k(2) have "fmlookup held b = Some p"
      by blast
    then show ?thesis
      by (auto simp: held_pairs_def)
  next
    case False
    with k D(4) [of p] obtain a where a: "fmlookup held a = Some p"
      by auto
    with D(2) [OF a] obtain j where j: "nc p = Suc j" "choices plists p ! j = a"
      by blast
    moreover have "j < k"
      using j False by simp
    ultimately show ?thesis
      using pos_nth [OF distinct_choices, of k p] pos_nth [OF distinct_choices, of j p] k a by (auto simp: held_pairs_def)
  qed
qed

lemma loop_result:
  "table_stable R plists (held_pairs (matching_loop R plists fmempty fmempty (sorted_list_of_fset (fmdom plists))))"
  "table_stable R plists M \<Longrightarrow> (p, b) \<in> M \<Longrightarrow>
     \<exists>a. (p, a) \<in> held_pairs (matching_loop R plists fmempty fmempty (sorted_list_of_fset (fmdom plists))) \<and>
       pos (choices plists p) a \<le> pos (choices plists p) b"
proof -
  have "accept_inv R plists (set (sorted_list_of_fset (fmdom plists))) (cursor_of fmempty) fmempty"
    by (auto simp: accept_inv_def cursor_of_def choices_def fmdom_notD)
  from loop_inv [OF this] obtain nc where inv: "accept_inv R plists {} nc (matching_loop R plists fmempty fmempty (sorted_list_of_fset (fmdom plists)))"
    by (auto simp: sorted_list_of_fset.rep_eq)
  show "table_stable R plists (held_pairs (matching_loop R plists fmempty fmempty (sorted_list_of_fset (fmdom plists))))"
    by (rule final_stable [OF inv])
  show "\<exists>a. (p, a) \<in> held_pairs (matching_loop R plists fmempty fmempty (sorted_list_of_fset (fmdom plists))) \<and>
      pos (choices plists p) a \<le> pos (choices plists p) b" if "table_stable R plists M" "(p, b) \<in> M"
    by (rule final_optimal [OF inv that])
qed

end

section \<open>The tables of the code\<close>

definition prefs_of :: "preferences list \<Rightarrow> u64 \<Rightarrow> u64 list" where
  "prefs_of prefs i = (case map_of (rev prefs) i of None \<Rightarrow> [] | Some l \<Rightarrow> l)"

text \<open>Both list each other, and the one listed is on its side.\<close>

definition mutual :: "preferences list \<Rightarrow> preferences list \<Rightarrow> u64 \<Rightarrow> u64 \<Rightarrow> bool" where
  "mutual proposers acceptors p a \<longleftrightarrow> a \<in> set (prefs_of proposers p) \<and> p \<in> set (prefs_of acceptors a)"

definition stable :: "preferences list \<Rightarrow> preferences list \<Rightarrow> (u64 \<times> u64) set \<Rightarrow> bool" where
  "stable proposers acceptors M \<longleftrightarrow>
     one_to_one M \<and> (\<forall>p a. (p, a) \<in> M \<longrightarrow> mutual proposers acceptors p a) \<and>
     \<not> (\<exists>p a. mutual proposers acceptors p a \<and>
         (\<forall>b. (p, b) \<in> M \<longrightarrow> pos (prefs_of proposers p) a < pos (prefs_of proposers p) b) \<and>
         (\<forall>q. (q, a) \<in> M \<longrightarrow> pos (prefs_of acceptors a) p < pos (prefs_of acceptors a) q))"

lemma pos_Cons: "pos (x # l) y = (if x = y then 0 else Suc (pos l y))"
  by (simp add: pos_def)

text \<open>The list of a proposer keeps the acceptors that rank it, in the order of their first mention.\<close>

lemma set_acceptable: "set (acceptable R p seen l) = {a \<in> set l. rank R a p \<noteq> None \<and> a |\<notin>| seen}"
  by (induction l arbitrary: seen) auto

lemma distinct_acceptable: "distinct (acceptable R p seen l)"
  by (induction l arbitrary: seen) (auto simp: set_acceptable)

lemma pos_acceptable:
  assumes "a \<in> set (acceptable R p seen l)" and "b \<in> set (acceptable R p seen l)"
  shows "pos (acceptable R p seen l) a < pos (acceptable R p seen l) b \<longleftrightarrow> pos l a < pos l b"
  using assms
proof (induction l arbitrary: seen)
  case (Cons x l)
  show ?case
    using Cons.prems Cons.IH [of "finsert x seen"] Cons.IH [of seen]
    by (auto simp: pos_Cons set_acceptable split: if_splits)
qed simp

text \<open>The ranks of an acceptor order the proposers on its list by their first mention.\<close>

lemma ranks_of_None: "fmlookup (ranks_of ids l r) x = None \<longleftrightarrow> fmlookup r x = None \<and> \<not> (x \<in> set l \<and> x |\<in>| ids)"
  by (induction l arbitrary: r) auto

lemma ranks_of_kept: "fmlookup r x = Some v \<Longrightarrow> fmlookup (ranks_of ids l r) x = Some v"
  by (induction l arbitrary: r) auto

lemma fcard_dom_add: "fmlookup r p = None \<Longrightarrow> fcard (finsert p (fmdom r)) = Suc (fcard (fmdom r))"
  by (simp add: fcard_finsert_disjoint fmdom_notI)

lemma ranks_of_new: "fmlookup r x = None \<Longrightarrow> fmlookup (ranks_of ids l r) x = Some v \<Longrightarrow> fcard (fmdom r) \<le> v"
proof (induction l arbitrary: r)
  case (Cons p l)
  let ?r = "if p |\<in>| ids \<and> fmlookup r p = None then fmupd p (fcard (fmdom r)) r else r"
  show ?case
  proof (cases "fmlookup ?r x")
    case None
    with Cons.IH [of ?r] Cons.prems(2) have "fcard (fmdom ?r) \<le> v"
      by simp
    then show ?thesis
      by (cases "fmlookup r p = None") (auto simp: fcard_dom_add split: if_splits)
  next
    case (Some w)
    with Cons.prems ranks_of_kept [OF Some, of ids l] show ?thesis
      by (auto split: if_splits)
  qed
qed simp

lemma ranks_of_order:
  assumes "fmlookup r x = None" and "fmlookup r y = None" and "fmlookup (ranks_of ids l r) x = Some v" and "fmlookup (ranks_of ids l r) y = Some w"
    and "pos l x < pos l y"
  shows "v < w"
  using assms
proof (induction l arbitrary: r)
  case (Cons p l)
  let ?r = "if p |\<in>| ids \<and> fmlookup r p = None then fmupd p (fcard (fmdom r)) r else r"
  have y: "y \<noteq> p"
    using Cons.prems(5) by (auto simp: pos_Cons)
  show ?case
  proof (cases "x = p")
    case True
    have "x |\<in>| ids"
      using Cons.prems(1,3) ranks_of_None [of ids "p # l" r x] by simp
    with True Cons.prems(1) have r: "?r = fmupd x (fcard (fmdom r)) r"
      by simp
    have "v = fcard (fmdom r)"
      using Cons.prems(3) ranks_of_kept [of ?r x "fcard (fmdom r)" ids l] r by simp
    moreover have "fcard (fmdom ?r) \<le> w"
      by (rule ranks_of_new [of ?r y ids l]) (use Cons.prems y True in simp_all)
    ultimately show ?thesis
      using Cons.prems(1) unfolding r by (simp add: fcard_dom_add)
  next
    case False
    show ?thesis
      by (rule Cons.IH [of ?r]) (use Cons.prems y False in \<open>auto simp: pos_Cons split: if_splits\<close>)
  qed
qed (simp add: pos_def)

lemma pos_less_length: "x \<in> set l \<Longrightarrow> pos l x < length l \<and> l ! pos l x = x"
  by (induction l) (auto simp: pos_Cons)

lemma ranks_of_order_iff:
  assumes "fmlookup (ranks_of ids l fmempty) x = Some v" and "fmlookup (ranks_of ids l fmempty) y = Some w"
  shows "v < w \<longleftrightarrow> pos l x < pos l y" and "v = w \<Longrightarrow> x = y"
proof -
  have "x \<in> set l" "y \<in> set l"
    using assms ranks_of_None [of ids l fmempty x] ranks_of_None [of ids l fmempty y] by auto
  then have eq: "x = y" if "pos l x = pos l y"
    using that pos_less_length by metis
  have "pos l x < pos l y \<Longrightarrow> v < w" "pos l y < pos l x \<Longrightarrow> w < v"
    using ranks_of_order [OF _ _ assms] ranks_of_order [OF _ _ assms(2,1)] by simp_all
  with eq assms show "v < w \<longleftrightarrow> pos l x < pos l y" "v = w \<Longrightarrow> x = y"
    by (metis less_irrefl linorder_neqE_nat not_less_iff_gr_or_eq option.inject)+
qed

lemma map_of_map_key: "map_of (map (\<lambda>(i, l). (i, f i l)) kvs) i = map_option (f i) (map_of kvs i)"
  by (induction kvs) auto

lemma choices_proposal_lists: "choices (proposal_lists R proposers) p = acceptable R p {||} (prefs_of proposers p)"
  by (simp add: choices_def proposal_lists_def collect_map_map_of rev_map map_of_map_key prefs_of_def split: option.split)

lemma rank_acceptor_rank:
  "rank (acceptor_rank proposers acceptors) a p = fmlookup (ranks_of (fset_of_list (map fst proposers)) (prefs_of acceptors a) fmempty) p"
  by (simp add: rank_def acceptor_rank_def collect_map_map_of rev_map map_of_map_key prefs_of_def split: option.split)

lemma rank_None_iff:
  assumes "a \<in> set (prefs_of proposers p)"
  shows "rank (acceptor_rank proposers acceptors) a p = None \<longleftrightarrow> p \<notin> set (prefs_of acceptors a)"
proof -
  obtain l where "map_of (rev proposers) p = Some l"
    using assms by (cases "map_of (rev proposers) p") (auto simp: prefs_of_def)
  then have "(p, l) \<in> set proposers"
    using map_of_SomeD [of "rev proposers" p l] by simp
  then have "p \<in> fst ` set proposers"
    by (rule rev_image_eqI) simp
  then have "p |\<in>| fset_of_list (map fst proposers)"
    by (simp only: fset_of_list_elem set_map)
  then show ?thesis
    by (simp only: rank_acceptor_rank ranks_of_None) simp
qed

interpretation gs: deferred_acceptance "acceptor_rank proposers acceptors" "proposal_lists (acceptor_rank proposers acceptors) proposers"
  for proposers acceptors :: "preferences list"
proof
  show "distinct (choices (proposal_lists (acceptor_rank proposers acceptors) proposers) p)" for p
    by (simp add: choices_proposal_lists distinct_acceptable)
  show "rank (acceptor_rank proposers acceptors) a p \<noteq> None" if "a \<in> set (choices (proposal_lists (acceptor_rank proposers acceptors) proposers) p)" for a p
    using that by (simp add: choices_proposal_lists set_acceptable)
  show "p = q" if "rank (acceptor_rank proposers acceptors) a p = Some r" "rank (acceptor_rank proposers acceptors) a q = Some r" for a p q r
    using ranks_of_order_iff(2) that by (simp add: rank_acceptor_rank)
qed

lemma mutual_choices: "a \<in> set (choices (proposal_lists (acceptor_rank proposers acceptors) proposers) p) \<longleftrightarrow> mutual proposers acceptors p a"
  using rank_None_iff [of a proposers p acceptors] by (auto simp: choices_proposal_lists set_acceptable mutual_def simp del: not_None_eq)

lemma choices_order:
  assumes "mutual proposers acceptors p a" and "mutual proposers acceptors p b"
  shows "pos (choices (proposal_lists (acceptor_rank proposers acceptors) proposers) p) a <
      pos (choices (proposal_lists (acceptor_rank proposers acceptors) proposers) p) b \<longleftrightarrow>
    pos (prefs_of proposers p) a < pos (prefs_of proposers p) b"
  using assms pos_acceptable by (simp add: choices_proposal_lists flip: mutual_choices)

lemma rank_order:
  assumes "mutual proposers acceptors p a" and "mutual proposers acceptors q a"
  shows "rank_less (rank (acceptor_rank proposers acceptors) a p) (rank (acceptor_rank proposers acceptors) a q) \<longleftrightarrow>
    pos (prefs_of acceptors a) p < pos (prefs_of acceptors a) q"
proof -
  obtain v w where "rank (acceptor_rank proposers acceptors) a p = Some v" "rank (acceptor_rank proposers acceptors) a q = Some w"
    using assms rank_None_iff unfolding mutual_def by blast
  then show ?thesis
    using ranks_of_order_iff(1) by (simp add: rank_acceptor_rank)
qed

lemma table_stable_iff:
  "table_stable (acceptor_rank proposers acceptors) (proposal_lists (acceptor_rank proposers acceptors) proposers) M \<longleftrightarrow> stable proposers acceptors M"
proof (cases "\<forall>p a. (p, a) \<in> M \<longrightarrow> mutual proposers acceptors p a")
  case True
  then have "(\<forall>b. (p, b) \<in> M \<longrightarrow> pos (choices (proposal_lists (acceptor_rank proposers acceptors) proposers) p) a <
        pos (choices (proposal_lists (acceptor_rank proposers acceptors) proposers) p) b) \<longleftrightarrow>
      (\<forall>b. (p, b) \<in> M \<longrightarrow> pos (prefs_of proposers p) a < pos (prefs_of proposers p) b)"
    "(\<forall>q. (q, a) \<in> M \<longrightarrow> rank_less (rank (acceptor_rank proposers acceptors) a p) (rank (acceptor_rank proposers acceptors) a q)) \<longleftrightarrow>
      (\<forall>q. (q, a) \<in> M \<longrightarrow> pos (prefs_of acceptors a) p < pos (prefs_of acceptors a) q)" if "mutual proposers acceptors p a" for p a
    using that choices_order rank_order by blast+
  then show ?thesis
    unfolding table_stable_def stable_def mutual_choices by blast
next
  case False
  then show ?thesis
    by (auto simp: table_stable_def stable_def mutual_choices)
qed

lemma set_stable_matching:
  "set (stable_matching proposers acceptors) =
     held_pairs (matching_loop (acceptor_rank proposers acceptors) (proposal_lists (acceptor_rank proposers acceptors) proposers)
       fmempty fmempty (sorted_list_of_fset (fmdom (proposal_lists (acceptor_rank proposers acceptors) proposers))))"
  by (force simp: stable_matching_def Let_def held_pairs_def sorted_list_of_fmap_def fmlookup_dom_iff image_iff)

text \<open>C29.
  Deferred acceptance finds a stable matching, and the best one for the proposers: the result pairs each member at most
  once and only members that list each other, no proposer and acceptor would both rather have each other, and in no other
  stable matching does a proposer get a partner it prefers. The pairs come sorted by proposer.\<close>

theorem stable_matching_optimal:
  "stable proposers acceptors (set (stable_matching proposers acceptors)) \<and> sorted (stable_matching proposers acceptors) \<and>
   (\<forall>M p b. stable proposers acceptors M \<longrightarrow> (p, b) \<in> M \<longrightarrow>
     (\<exists>a. (p, a) \<in> set (stable_matching proposers acceptors) \<and> pos (prefs_of proposers p) a \<le> pos (prefs_of proposers p) b))"
proof (intro conjI allI impI)
  let ?S = "set (stable_matching proposers acceptors)"
  show stable: "stable proposers acceptors ?S"
    using gs.loop_result(1) [of proposers acceptors] by (simp add: set_stable_matching table_stable_iff)
  show "sorted (stable_matching proposers acceptors)"
    by (simp add: stable_matching_def Let_def)
  fix M p b
  assume M: "stable proposers acceptors M" "(p, b) \<in> M"
  then obtain a where a: "(p, a) \<in> ?S" "pos (choices (proposal_lists (acceptor_rank proposers acceptors) proposers) p) a \<le>
      pos (choices (proposal_lists (acceptor_rank proposers acceptors) proposers) p) b"
    using gs.loop_result(2) [of proposers acceptors M p b] by (auto simp: set_stable_matching table_stable_iff)
  moreover have "mutual proposers acceptors p a" "mutual proposers acceptors p b"
    using stable M a(1) unfolding stable_def by blast+
  ultimately show "\<exists>a. (p, a) \<in> ?S \<and> pos (prefs_of proposers p) a \<le> pos (prefs_of proposers p) b"
    using choices_order [of proposers acceptors p b a] by (auto simp: not_less)
qed

theorem stable_matching_optimal_witness:
  "stable_matching [(1, [10, 11]), (2, [11, 10])] [(10, [2, 1]), (11, [1, 2])] = [(1, 10), (2, 11)] \<and>
   stable [(1, [10, 11]), (2, [11, 10])] [(10, [2, 1]), (11, [1, 2])] {(1, 10), (2, 11)}"
proof -
  have "stable_matching [(1, [10, 11]), (2, [11, 10])] [(10, [2, 1]), (11, [1, 2])] = [(1, 10), (2, 11)]"
    by code_simp
  with stable_matching_optimal [of "[(1, [10, 11]), (2, [11, 10])]" "[(10, [2, 1]), (11, [1, 2])]"] show ?thesis
    by simp
qed

end
