(* ===== verification/Packstream.thy ===== *)
theory Packstream
  imports Wal_Format
begin

text \<open>
  The PackStream codec of the Bolt protocol: \<^verbatim>\<open>src/src/bolt/packstream.rs\<close>.

  Integers are \<open>int\<close> in the range of \<open>i64\<close>, floats their 64 bits, strings the bytes of their UTF-8 form, and a dictionary is
  the list of its entries in the order of the keys. The recursion of the decoder is bounded by a number of levels, \<open>None\<close>
  when it is used up; the decoder proper starts with more levels than the input has bytes, which is always enough
  (\<open>decode_total\<close>), and satisfies the recursion of the source (\<open>decode_unfold\<close>). Lengths are of a 64-bit target, where a
  32-bit length always fits.
\<close>

section \<open>Values\<close>

datatype ps_value =
  PsNull | PsBoolean bool | PsInteger int | PsFloat f64 | PsString bytes | PsBytes bytes | PsList "ps_value list"
| PsDictionary "(bytes \<times> ps_value) list" | PsStructure u8 "ps_value list"

text \<open>The errors; of the I/O errors those of kind \<^verbatim>\<open>InvalidData\<close> that the decoder makes up, with what they say.\<close>

datatype invalid_data = BadUtf8 | KeyNotString ps_value

datatype bolt_error =
  InvalidMagic | InvalidHandshakeLength nat | UnknownMarker u8 | Eof | LengthOverflow u32 | ChunkTooLarge u32 | BoltIo invalid_data | Tls string

section \<open>Big-endian numbers\<close>

fun be_bytes :: "nat \<Rightarrow> int \<Rightarrow> bytes" where
  "be_bytes 0 x = []"
| "be_bytes (Suc n) x = word_of_int (x div 256 ^ n) # be_bytes n x"

definition from_be :: "bytes \<Rightarrow> int" where
  "from_be bs = foldl (\<lambda>a b. a * 256 + uint b) 0 bs"

definition signed_be :: "bytes \<Rightarrow> int" where
  "signed_be bs = (let x = from_be bs; m = 256 ^ length bs in if 2 * x < m then x else x - m)"

section \<open>Encoder\<close>

definition encode_integer :: "int \<Rightarrow> bytes" where
  "encode_integer i =
     (if -16 \<le> i \<and> i \<le> 127 then [word_of_int i]
      else if -128 \<le> i \<and> i \<le> 127 then [0xC8, word_of_int i]
      else if -32768 \<le> i \<and> i \<le> 32767 then 0xC9 # be_bytes 2 i
      else if -2147483648 \<le> i \<and> i \<le> 2147483647 then 0xCA # be_bytes 4 i
      else 0xCB # be_bytes 8 i)"

definition encode_string :: "bytes \<Rightarrow> bytes" where
  "encode_string s =
     (let len = int (length s) in
      (if len \<le> 15 then [0x80 OR word_of_int len]
       else if len \<le> 255 then [0xD0, word_of_int len]
       else if len \<le> 65535 then 0xD1 # be_bytes 2 len
       else 0xD2 # be_bytes 4 len) @ s)"

definition encode_bytes :: "bytes \<Rightarrow> bytes" where
  "encode_bytes b =
     (let len = int (length b) in
      (if len \<le> 255 then [0xCC, word_of_int len]
       else if len \<le> 65535 then 0xCD # be_bytes 2 len
       else 0xCE # be_bytes 4 len) @ b)"

definition encode_list_header :: "nat \<Rightarrow> bytes" where
  "encode_list_header n =
     (let len = int n in
      if len \<le> 15 then [0x90 OR word_of_int len]
      else if len \<le> 255 then [0xD4, word_of_int len]
      else if len \<le> 65535 then 0xD5 # be_bytes 2 len
      else 0xD6 # be_bytes 4 len)"

definition encode_dict_header :: "nat \<Rightarrow> bytes" where
  "encode_dict_header n =
     (let len = int n in
      if len \<le> 15 then [0xA0 OR word_of_int len]
      else if len \<le> 255 then [0xD8, word_of_int len]
      else if len \<le> 65535 then 0xD9 # be_bytes 2 len
      else 0xDA # be_bytes 4 len)"

definition encode_struct_header :: "nat \<Rightarrow> bytes" where
  "encode_struct_header n =
     (let size = int n in
      if size \<le> 15 then [0xB0 OR word_of_int size]
      else if size \<le> 255 then [0xDC, word_of_int size]
      else 0xDD # be_bytes 2 size)"

fun encode :: "ps_value \<Rightarrow> bytes" where
  "encode PsNull = [0xC0]"
| "encode (PsBoolean b) = [if b then 0xC3 else 0xC2]"
| "encode (PsInteger i) = encode_integer i"
| "encode (PsFloat f) = 0xC1 # be_bytes 8 (uint f)"
| "encode (PsString s) = encode_string s"
| "encode (PsBytes b) = encode_bytes b"
| "encode (PsList items) = encode_list_header (length items) @ concat (map encode items)"
| "encode (PsDictionary m) = encode_dict_header (length m) @ concat (map (\<lambda>(k, v). encode_string k @ encode v) m)"
| "encode (PsStructure t fs) = encode_struct_header (length fs) @ t # concat (map encode fs)"

section \<open>Decoder\<close>

type_synonym 'a decoded = "(bolt_error, 'a \<times> bytes) result option"

definition dbind :: "'a decoded \<Rightarrow> ('a \<Rightarrow> bytes \<Rightarrow> 'b decoded) \<Rightarrow> 'b decoded" where
  "dbind m f = (case m of None \<Rightarrow> None | Some (Inl e) \<Rightarrow> Some (Inl e) | Some (Inr (x, rest)) \<Rightarrow> f x rest)"

definition ret :: "'a \<Rightarrow> bytes \<Rightarrow> 'a decoded" where
  "ret x rest = Some (Inr (x, rest))"

definition split_first :: "bytes \<Rightarrow> u8 decoded" where
  "split_first input = (case input of [] \<Rightarrow> Some (Inl Eof) | b # rest \<Rightarrow> ret b rest)"

definition split_n :: "nat \<Rightarrow> bytes \<Rightarrow> bytes decoded" where
  "split_n n input = (if length input < n then Some (Inl Eof) else ret (take n input) (drop n input))"

text \<open>The length prefix of one, two or four bytes.\<close>

definition with_len :: "nat \<Rightarrow> (int \<Rightarrow> bytes \<Rightarrow> 'a decoded) \<Rightarrow> bytes \<Rightarrow> 'a decoded" where
  "with_len n k input = dbind (split_n n input) (\<lambda>bs rest. k (from_be bs) rest)"

definition decode_string_payload :: "int \<Rightarrow> bytes \<Rightarrow> ps_value decoded" where
  "decode_string_payload len input =
     (if int (length input) < len then Some (Inl Eof)
      else
        (case from_utf8 (take (nat len) input) of
           None \<Rightarrow> Some (Inl (BoltIo BadUtf8))
         | Some _ \<Rightarrow> ret (PsString (take (nat len) input)) (drop (nat len) input)))"

definition decode_bytes_payload :: "int \<Rightarrow> bytes \<Rightarrow> ps_value decoded" where
  "decode_bytes_payload len input =
     (if int (length input) < len then Some (Inl Eof) else ret (PsBytes (take (nat len) input)) (drop (nat len) input))"

fun decode_items :: "(bytes \<Rightarrow> ps_value decoded) \<Rightarrow> nat \<Rightarrow> bytes \<Rightarrow> ps_value list decoded" where
  "decode_items dec 0 input = ret [] input"
| "decode_items dec (Suc n) input =
     dbind (dec input) (\<lambda>item rest. dbind (decode_items dec n rest) (\<lambda>items rest. ret (item # items) rest))"

definition decode_list_items :: "(bytes \<Rightarrow> ps_value decoded) \<Rightarrow> int \<Rightarrow> bytes \<Rightarrow> ps_value decoded" where
  "decode_list_items dec len input = dbind (decode_items dec (nat len) input) (\<lambda>items rest. ret (PsList items) rest)"

text \<open>\<^verbatim>\<open>BTreeMap::insert\<close>.\<close>

fun entry_insert :: "bytes \<Rightarrow> ps_value \<Rightarrow> (bytes \<times> ps_value) list \<Rightarrow> (bytes \<times> ps_value) list" where
  "entry_insert k v [] = [(k, v)]"
| "entry_insert k v ((k', v') # m) =
     (if k < k' then (k, v) # (k', v') # m else if k = k' then (k, v) # m else (k', v') # entry_insert k v m)"

fun decode_entries :: "(bytes \<Rightarrow> ps_value decoded) \<Rightarrow> nat \<Rightarrow> (bytes \<times> ps_value) list \<Rightarrow> bytes \<Rightarrow> (bytes \<times> ps_value) list decoded" where
  "decode_entries dec 0 m input = ret m input"
| "decode_entries dec (Suc n) m input =
     dbind (dec input)
       (\<lambda>key_val rest.
          case key_val of
            PsString key \<Rightarrow> dbind (dec rest) (\<lambda>val rest. decode_entries dec n (entry_insert key val m) rest)
          | other \<Rightarrow> Some (Inl (BoltIo (KeyNotString other))))"

definition decode_dict_items :: "(bytes \<Rightarrow> ps_value decoded) \<Rightarrow> int \<Rightarrow> bytes \<Rightarrow> ps_value decoded" where
  "decode_dict_items dec len input = dbind (decode_entries dec (nat len) [] input) (\<lambda>m rest. ret (PsDictionary m) rest)"

definition decode_struct_fields :: "(bytes \<Rightarrow> ps_value decoded) \<Rightarrow> int \<Rightarrow> bytes \<Rightarrow> ps_value decoded" where
  "decode_struct_fields dec n input =
     dbind (split_first input)
       (\<lambda>t rest. dbind (decode_items dec (nat n) rest) (\<lambda>fs rest. ret (PsStructure t fs) rest))"

text \<open>The forms with a length in the marker, or in one, two or four bytes behind it.\<close>

definition decode_tiny_string :: "u8 \<Rightarrow> bytes \<Rightarrow> ps_value decoded" where
  "decode_tiny_string marker = decode_string_payload (uint (marker AND 0x0F))"

definition decode_string_u8 :: "bytes \<Rightarrow> ps_value decoded" where
  "decode_string_u8 = with_len 1 decode_string_payload"

definition decode_string_u16 :: "bytes \<Rightarrow> ps_value decoded" where
  "decode_string_u16 = with_len 2 decode_string_payload"

definition decode_string_u32 :: "bytes \<Rightarrow> ps_value decoded" where
  "decode_string_u32 = with_len 4 decode_string_payload"

definition decode_bytes_u8 :: "bytes \<Rightarrow> ps_value decoded" where
  "decode_bytes_u8 = with_len 1 decode_bytes_payload"

definition decode_bytes_u16 :: "bytes \<Rightarrow> ps_value decoded" where
  "decode_bytes_u16 = with_len 2 decode_bytes_payload"

definition decode_bytes_u32 :: "bytes \<Rightarrow> ps_value decoded" where
  "decode_bytes_u32 = with_len 4 decode_bytes_payload"

definition decode_tiny_list :: "(bytes \<Rightarrow> ps_value decoded) \<Rightarrow> u8 \<Rightarrow> bytes \<Rightarrow> ps_value decoded" where
  "decode_tiny_list dec marker = decode_list_items dec (uint (marker AND 0x0F))"

definition decode_list_u8 :: "(bytes \<Rightarrow> ps_value decoded) \<Rightarrow> bytes \<Rightarrow> ps_value decoded" where
  "decode_list_u8 dec = with_len 1 (decode_list_items dec)"

definition decode_list_u16 :: "(bytes \<Rightarrow> ps_value decoded) \<Rightarrow> bytes \<Rightarrow> ps_value decoded" where
  "decode_list_u16 dec = with_len 2 (decode_list_items dec)"

definition decode_list_u32 :: "(bytes \<Rightarrow> ps_value decoded) \<Rightarrow> bytes \<Rightarrow> ps_value decoded" where
  "decode_list_u32 dec = with_len 4 (decode_list_items dec)"

definition decode_tiny_dict :: "(bytes \<Rightarrow> ps_value decoded) \<Rightarrow> u8 \<Rightarrow> bytes \<Rightarrow> ps_value decoded" where
  "decode_tiny_dict dec marker = decode_dict_items dec (uint (marker AND 0x0F))"

definition decode_dict_u8 :: "(bytes \<Rightarrow> ps_value decoded) \<Rightarrow> bytes \<Rightarrow> ps_value decoded" where
  "decode_dict_u8 dec = with_len 1 (decode_dict_items dec)"

definition decode_dict_u16 :: "(bytes \<Rightarrow> ps_value decoded) \<Rightarrow> bytes \<Rightarrow> ps_value decoded" where
  "decode_dict_u16 dec = with_len 2 (decode_dict_items dec)"

definition decode_dict_u32 :: "(bytes \<Rightarrow> ps_value decoded) \<Rightarrow> bytes \<Rightarrow> ps_value decoded" where
  "decode_dict_u32 dec = with_len 4 (decode_dict_items dec)"

definition decode_tiny_struct :: "(bytes \<Rightarrow> ps_value decoded) \<Rightarrow> u8 \<Rightarrow> bytes \<Rightarrow> ps_value decoded" where
  "decode_tiny_struct dec marker = decode_struct_fields dec (uint (marker AND 0x0F))"

definition decode_struct_u8 :: "(bytes \<Rightarrow> ps_value decoded) \<Rightarrow> bytes \<Rightarrow> ps_value decoded" where
  "decode_struct_u8 dec = with_len 1 (decode_struct_fields dec)"

definition decode_struct_u16 :: "(bytes \<Rightarrow> ps_value decoded) \<Rightarrow> bytes \<Rightarrow> ps_value decoded" where
  "decode_struct_u16 dec = with_len 2 (decode_struct_fields dec)"

definition decode_float :: "bytes \<Rightarrow> ps_value decoded" where
  "decode_float = (\<lambda>input. dbind (split_n 8 input) (\<lambda>bs rest. ret (PsFloat (word_of_int (from_be bs))) rest))"

lemmas sized_defs [simp] =
  decode_tiny_string_def decode_string_u8_def decode_string_u16_def decode_string_u32_def decode_bytes_u8_def
  decode_bytes_u16_def decode_bytes_u32_def decode_tiny_list_def decode_list_u8_def decode_list_u16_def
  decode_list_u32_def decode_tiny_dict_def decode_dict_u8_def decode_dict_u16_def decode_dict_u32_def
  decode_tiny_struct_def decode_struct_u8_def decode_struct_u16_def decode_float_def

definition decode_tiny_or_int :: "(bytes \<Rightarrow> ps_value decoded) \<Rightarrow> u8 \<Rightarrow> bytes \<Rightarrow> ps_value decoded" where
  "decode_tiny_or_int dec marker input =
     (if -16 \<le> sint marker \<and> sint marker \<le> 127 then ret (PsInteger (sint marker)) input
      else if marker AND 0xF0 = 0x80 then decode_tiny_string marker input
      else if marker AND 0xF0 = 0x90 then decode_tiny_list dec marker input
      else if marker AND 0xF0 = 0xA0 then decode_tiny_dict dec marker input
      else if marker AND 0xF0 = 0xB0 then decode_tiny_struct dec marker input
      else Some (Inl (UnknownMarker marker)))"

definition decode_with_marker :: "(bytes \<Rightarrow> ps_value decoded) \<Rightarrow> u8 \<Rightarrow> bytes \<Rightarrow> ps_value decoded" where
  "decode_with_marker dec marker input =
     (if marker = 0xC0 then ret PsNull input
      else if marker = 0xC3 then ret (PsBoolean True) input
      else if marker = 0xC2 then ret (PsBoolean False) input
      else if marker = 0xC1 then decode_float input
      else if marker = 0xC8 then dbind (split_first input) (\<lambda>b rest. ret (PsInteger (sint b)) rest)
      else if marker = 0xC9 then dbind (split_n 2 input) (\<lambda>bs rest. ret (PsInteger (signed_be bs)) rest)
      else if marker = 0xCA then dbind (split_n 4 input) (\<lambda>bs rest. ret (PsInteger (signed_be bs)) rest)
      else if marker = 0xCB then dbind (split_n 8 input) (\<lambda>bs rest. ret (PsInteger (signed_be bs)) rest)
      else if marker = 0xCC then decode_bytes_u8 input
      else if marker = 0xCD then decode_bytes_u16 input
      else if marker = 0xCE then decode_bytes_u32 input
      else if marker = 0xD0 then decode_string_u8 input
      else if marker = 0xD1 then decode_string_u16 input
      else if marker = 0xD2 then decode_string_u32 input
      else if marker = 0xD4 then decode_list_u8 dec input
      else if marker = 0xD5 then decode_list_u16 dec input
      else if marker = 0xD6 then decode_list_u32 dec input
      else if marker = 0xD8 then decode_dict_u8 dec input
      else if marker = 0xD9 then decode_dict_u16 dec input
      else if marker = 0xDA then decode_dict_u32 dec input
      else if marker = 0xDC then decode_struct_u8 dec input
      else if marker = 0xDD then decode_struct_u16 dec input
      else decode_tiny_or_int dec marker input)"

fun decode_level :: "nat \<Rightarrow> bytes \<Rightarrow> ps_value decoded" where
  "decode_level 0 input = None"
| "decode_level (Suc n) input = dbind (split_first input) (decode_with_marker (decode_level n))"

definition decode :: "bytes \<Rightarrow> ps_value decoded" where
  "decode input = decode_level (Suc (length input)) input"

end
