(* ===== verification/Packstream_Laws.thy ===== *)
theory Packstream_Laws
  imports Packstream "HOL-Library.Sublist"
begin

text \<open>
  What the PackStream codec promises: what is encoded is decoded, with whatever follows left over; every input is answered,
  by a value of the right form with the rest of the input or by an error.
\<close>

section \<open>Numbers\<close>

lemma length_be_bytes [simp]: "length (be_bytes n x) = n"
  by (induction n) auto

lemma from_be_bytes: "from_be (be_bytes n x) = x mod 256 ^ n"
proof -
  have "foldl (\<lambda>a b. a * 256 + uint b) a (be_bytes n x) = a * 256 ^ n + x mod 256 ^ n" for a
  proof (induction n arbitrary: a)
    case (Suc n)
    have "x mod 256 ^ Suc n = 256 ^ n * (x div 256 ^ n mod 256) + x mod 256 ^ n"
      using zmod_zmult2_eq [of 256 x "256 ^ n"] by (simp add: mult.commute)
    with Suc show ?case
      by (simp add: uint_word_of_int algebra_simps)
  qed simp
  then show ?thesis
    by (simp add: from_be_def)
qed

lemma signed_be_bytes:
  assumes "- (256 ^ n) \<le> 2 * i" and "2 * i < 256 ^ n"
  shows "signed_be (be_bytes n i) = i"
proof (cases "0 \<le> i")
  case True
  with assms(2) show ?thesis
    by (simp add: signed_be_def from_be_bytes Let_def)
next
  case False
  have "i mod 256 ^ n = (i + 256 ^ n) mod 256 ^ n"
    by simp
  also have "\<dots> = i + 256 ^ n"
    using assms False by (intro mod_pos_pos_trivial) simp_all
  finally show ?thesis
    using assms False by (simp add: signed_be_def from_be_bytes Let_def)
qed

lemma be_bytes_1: "be_bytes (Suc 0) x = [word_of_int x]"
  by simp

lemma sint_tiny: "- 128 \<le> i \<Longrightarrow> i \<le> 127 \<Longrightarrow> sint (word_of_int i :: u8) = i"
  by (simp add: signed_of_int signed_take_bit_int_eq_self)

section \<open>Headers\<close>

lemma split_n_append: "length bs = n \<Longrightarrow> split_n n (bs @ rest) = ret bs rest"
  by (simp add: split_n_def)

lemma dbind_ret [simp]: "dbind (ret x rest) f = f x rest"
  by (simp add: dbind_def ret_def)

lemma with_len_be: "0 \<le> len \<Longrightarrow> len < 256 ^ n \<Longrightarrow> with_len n k (be_bytes n len @ rest) = k len rest"
  by (simp add: with_len_def split_n_append from_be_bytes)

lemma with_len_one: "0 \<le> len \<Longrightarrow> len \<le> 255 \<Longrightarrow> with_len (Suc 0) k (word_of_int len # rest) = k len rest"
  using with_len_be [of len "Suc 0" k rest] by simp

lemma split_first_Cons [simp]: "split_first (b # rest) = ret b rest"
  by (simp add: split_first_def)

lemma sint_u8: "sint (w :: u8) = (if uint w < 128 then uint w else uint w - 256)"
proof -
  have range: "0 \<le> uint w" "uint w < 256"
    using uint_lt2p [of w] by simp_all
  have eq: "word_of_int (uint w - 256) = w"
    by (simp add: word_of_int_minus)
  show ?thesis
  proof (cases "uint w < 128")
    case True
    with range sint_tiny [of "uint w"] show ?thesis
      by (simp add: order.trans [of _ 0])
  next
    case False
    with range sint_tiny [of "uint w - 256", unfolded eq] show ?thesis
      by simp
  qed
qed

text \<open>A tiny marker: a type in the high half of the byte and a length in the low half.\<close>

lemma tiny_word:
  assumes "0 \<le> (n::int)" and "n \<le> 15" and "m \<in> {0x80, 0x90, 0xA0, 0xB0 :: u8}"
  shows "(m OR word_of_int n) AND 0xF0 = m" and "uint ((m OR word_of_int n) AND 0x0F) = n"
    and "0x80 \<le> m OR word_of_int n" and "m OR word_of_int n < 0xC0"
proof -
  have "n \<in> {0, 1, 2, 3, 4, 5, 6, 7, 8, 9, 10, 11, 12, 13, 14, 15}"
    using assms(1,2) by (simp; presburger)
  then show "(m OR word_of_int n) AND 0xF0 = m" "uint ((m OR word_of_int n) AND 0x0F) = n"
      "0x80 \<le> m OR word_of_int n" "m OR word_of_int n < 0xC0"
    using assms(3) by (elim insertE emptyE; simp)+
qed

lemma low_marker:
  assumes "0x80 \<le> marker" and "marker < 0xC0"
  shows "decode_with_marker dec marker = decode_tiny_or_int dec marker" and "\<not> - 16 \<le> sint marker"
proof -
  have "uint marker < 192" "128 \<le> uint marker"
    using assms by (simp_all add: word_less_def word_le_def)
  then show "\<not> - 16 \<le> sint marker"
    by (simp add: sint_u8)
  have "marker \<notin> {0xC0, 0xC3, 0xC2, 0xC1, 0xC8, 0xC9, 0xCA, 0xCB, 0xCC, 0xCD, 0xCE, 0xD0, 0xD1, 0xD2, 0xD4, 0xD5, 0xD6, 0xD8, 0xD9, 0xDA, 0xDC, 0xDD}"
    using assms(2) by (intro notI, elim insertE emptyE) simp_all
  then show "decode_with_marker dec marker = decode_tiny_or_int dec marker"
    by (simp add: decode_with_marker_def fun_eq_iff)
qed

lemma tiny_markers:
  assumes "0 \<le> (n::int)" and "n \<le> 15"
  shows "decode_with_marker dec (0x80 OR word_of_int n) input = decode_string_payload n input"
    and "decode_with_marker dec (0x90 OR word_of_int n) input = decode_list_items dec n input"
    and "decode_with_marker dec (0xA0 OR word_of_int n) input = decode_dict_items dec n input"
    and "decode_with_marker dec (0xB0 OR word_of_int n) input = decode_struct_fields dec n input"
  using low_marker [OF tiny_word(3,4) [OF assms]] tiny_word(1,2) [OF assms] by (simp_all add: decode_tiny_or_int_def)

definition decode_head :: "(bytes \<Rightarrow> ps_value decoded) \<Rightarrow> bytes \<Rightarrow> ps_value decoded" where
  "decode_head dec input = dbind (split_first input) (decode_with_marker dec)"

lemma decode_head_Cons [simp]: "decode_head dec (marker # rest) = decode_with_marker dec marker rest"
  by (simp add: decode_head_def)

lemma decode_level_Suc: "decode_level (Suc n) = decode_head (decode_level n)"
  by (simp add: decode_head_def fun_eq_iff)

text \<open>The payload of a header is decoded with the length that was encoded.\<close>

lemma long_markers:
  "decode_with_marker dec 0xCC = with_len 1 decode_bytes_payload" "decode_with_marker dec 0xCD = with_len 2 decode_bytes_payload"
  "decode_with_marker dec 0xCE = with_len 4 decode_bytes_payload" "decode_with_marker dec 0xD0 = with_len 1 decode_string_payload"
  "decode_with_marker dec 0xD1 = with_len 2 decode_string_payload" "decode_with_marker dec 0xD2 = with_len 4 decode_string_payload"
  "decode_with_marker dec 0xD4 = with_len 1 (decode_list_items dec)" "decode_with_marker dec 0xD5 = with_len 2 (decode_list_items dec)"
  "decode_with_marker dec 0xD6 = with_len 4 (decode_list_items dec)" "decode_with_marker dec 0xD8 = with_len 1 (decode_dict_items dec)"
  "decode_with_marker dec 0xD9 = with_len 2 (decode_dict_items dec)" "decode_with_marker dec 0xDA = with_len 4 (decode_dict_items dec)"
  "decode_with_marker dec 0xDC = with_len 1 (decode_struct_fields dec)" "decode_with_marker dec 0xDD = with_len 2 (decode_struct_fields dec)"
  by (simp_all add: decode_with_marker_def fun_eq_iff)

lemmas header_simps = Let_def tiny_markers [of "int n" for n, simplified] long_markers with_len_one [of "int n" for n, simplified] with_len_be [of _ 2, simplified] with_len_be [of _ 4, simplified]

lemma string_header:
  assumes "length s < 2 ^ 32"
  shows "decode_head dec (encode_string s @ rest) = decode_string_payload (int (length s)) (s @ rest)"
  using assms by (simp add: encode_string_def header_simps del: be_bytes.simps)

lemma bytes_header:
  assumes "length s < 2 ^ 32"
  shows "decode_head dec (encode_bytes s @ rest) = decode_bytes_payload (int (length s)) (s @ rest)"
  using assms by (simp add: encode_bytes_def header_simps del: be_bytes.simps)

lemma list_header:
  assumes "n < 2 ^ 32"
  shows "decode_head dec (encode_list_header n @ rest) = decode_list_items dec (int n) rest"
  using assms by (simp add: encode_list_header_def header_simps del: be_bytes.simps)

lemma dict_header:
  assumes "n < 2 ^ 32"
  shows "decode_head dec (encode_dict_header n @ rest) = decode_dict_items dec (int n) rest"
  using assms by (simp add: encode_dict_header_def header_simps del: be_bytes.simps)

lemma struct_header:
  assumes "n < 2 ^ 16"
  shows "decode_head dec (encode_struct_header n @ rest) = decode_struct_fields dec (int n) rest"
  using assms by (simp add: encode_struct_header_def header_simps del: be_bytes.simps)

lemma integer_roundtrip:
  assumes "in_i64 i"
  shows "decode_head dec (encode_integer i @ rest) = ret (PsInteger i) rest"
proof -
  consider "- 16 \<le> i" "i \<le> 127" | "- 128 \<le> i" "i < - 16" | "\<not> (- 128 \<le> i \<and> i \<le> 127)"
    by linarith
  then show ?thesis
  proof cases
    case 1
    then have sint: "sint (word_of_int i :: u8) = i"
      by (simp add: sint_tiny)
    have "(word_of_int i :: u8) \<notin> {0xC0, 0xC3, 0xC2, 0xC1, 0xC8, 0xC9, 0xCA, 0xCB, 0xCC, 0xCD, 0xCE, 0xD0, 0xD1, 0xD2, 0xD4, 0xD5, 0xD6, 0xD8, 0xD9, 0xDA, 0xDC, 0xDD}"
      by (intro notI, elim insertE emptyE; use 1 sint in \<open>simp add: sint_u8\<close>)
    with 1 sint show ?thesis
      by (simp add: encode_integer_def decode_with_marker_def decode_tiny_or_int_def)
  next
    case 2
    then show ?thesis
      by (simp add: encode_integer_def decode_with_marker_def sint_tiny)
  next
    case 3
    then have "signed_be (be_bytes 2 i) = i" if "- 32768 \<le> i" "i \<le> 32767"
      using that by (intro signed_be_bytes) simp_all
    moreover have "signed_be (be_bytes 4 i) = i" if "- 2147483648 \<le> i" "i \<le> 2147483647"
      using that by (intro signed_be_bytes) simp_all
    moreover have "signed_be (be_bytes 8 i) = i"
      using assms by (intro signed_be_bytes) (simp_all add: in_i64_def)
    moreover have "encode_integer i =
        (if - 32768 \<le> i \<and> i \<le> 32767 then 0xC9 # be_bytes 2 i else if - 2147483648 \<le> i \<and> i \<le> 2147483647 then 0xCA # be_bytes 4 i
         else 0xCB # be_bytes 8 i)"
      using 3 by (auto simp: encode_integer_def simp del: be_bytes.simps)
    ultimately show ?thesis
      by (simp add: decode_with_marker_def split_n_append del: be_bytes.simps)
  qed
qed

section \<open>Values of the right form\<close>

text \<open>
  A value the Rust type can hold and the format can carry: integers of 64 bits, strings of valid UTF-8, dictionaries in the
  order of their keys, lengths below \<open>2\<^sup>3\<^sup>2\<close> and at most \<open>2\<^sup>1\<^sup>6 - 1\<close> fields.
\<close>

definition ps_string :: "bytes \<Rightarrow> bool" where
  "ps_string s \<longleftrightarrow> from_utf8 s \<noteq> None \<and> length s < 2 ^ 32"

fun ps_ok :: "ps_value \<Rightarrow> bool" where
  "ps_ok (PsInteger i) \<longleftrightarrow> in_i64 i"
| "ps_ok (PsString s) \<longleftrightarrow> ps_string s"
| "ps_ok (PsBytes b) \<longleftrightarrow> length b < 2 ^ 32"
| "ps_ok (PsList items) \<longleftrightarrow> length items < 2 ^ 32 \<and> (\<forall>v \<in> set items. ps_ok v)"
| "ps_ok (PsDictionary m) \<longleftrightarrow> length m < 2 ^ 32 \<and> sorted_wrt (<) (map fst m) \<and> (\<forall>(k, v) \<in> set m. ps_string k \<and> ps_ok v)"
| "ps_ok (PsStructure t fs) \<longleftrightarrow> length fs < 2 ^ 16 \<and> (\<forall>v \<in> set fs. ps_ok v)"
| "ps_ok _ \<longleftrightarrow> True"

section \<open>What is encoded is decoded\<close>

lemma items_roundtrip:
  assumes "\<And>v rest. v \<in> set vs \<Longrightarrow> dec (encode v @ rest) = ret v rest"
  shows "decode_items dec (length vs) (concat (map encode vs) @ rest) = ret vs rest"
  using assms by (induction vs) simp_all

lemma entry_insert_last: "(\<And>k'. k' \<in> fst ` set m \<Longrightarrow> k' < k) \<Longrightarrow> entry_insert k v m = m @ [(k, v)]"
  by (induction m) (force simp: less_le_not_le)+

lemma entries_roundtrip:
  assumes "\<And>k v rest. (k, v) \<in> set m \<Longrightarrow> dec (encode_string k @ rest) = ret (PsString k) rest \<and> dec (encode v @ rest) = ret v rest"
    and "sorted_wrt (<) (map fst (m0 @ m))"
  shows "decode_entries dec (length m) m0 (concat (map (\<lambda>(k, v). encode_string k @ encode v) m) @ rest) = ret (m0 @ m) rest"
  using assms
proof (induction m arbitrary: m0)
  case (Cons kv m)
  obtain k v where kv: "kv = (k, v)"
    by fastforce
  have "entry_insert k v m0 = m0 @ [(k, v)]"
    using Cons.prems(2) by (intro entry_insert_last) (auto simp: kv sorted_wrt_append)
  moreover have "dec (encode_string k @ r) = ret (PsString k) r" "dec (encode v @ r) = ret v r" for r
    using Cons.prems(1) [of k v r] kv by simp_all
  moreover have "decode_entries dec (length m) (m0 @ [(k, v)]) (concat (map (\<lambda>(k, v). encode_string k @ encode v) m) @ rest) =
      ret ((m0 @ [(k, v)]) @ m) rest"
    by (rule Cons.IH) (use Cons.prems kv in auto)
  ultimately show ?case
    by (simp add: kv)
qed simp

lemma length_encode_pos: "0 < length (encode v)"
  by (cases v) (simp_all add: encode_integer_def encode_string_def encode_bytes_def encode_list_header_def encode_dict_header_def
      encode_struct_header_def Let_def)

lemma header_length:
  "0 < length (encode_list_header n)" "0 < length (encode_dict_header n)" "0 < length (encode_struct_header n)"
  by (simp_all add: encode_list_header_def encode_dict_header_def encode_struct_header_def Let_def)

lemma encode_item_length: "v \<in> set vs \<Longrightarrow> length (encode v) \<le> length (concat (map encode vs))"
  by (induction vs) auto

lemma encode_entry_length:
  "(k, v) \<in> set m \<Longrightarrow> length (encode_string k) + length (encode v) \<le> length (concat (map (\<lambda>(k, v). encode_string k @ encode v) m))"
  by (induction m) auto

lemma payload_roundtrip:
  "ps_string s \<Longrightarrow> decode_string_payload (int (length s)) (s @ rest) = ret (PsString s) rest"
  "decode_bytes_payload (int (length s)) (s @ rest) = ret (PsBytes s) rest"
  by (auto simp: decode_string_payload_def decode_bytes_payload_def ps_string_def)

lemma decode_level_roundtrip: "ps_ok v \<Longrightarrow> length (encode v) \<le> n \<Longrightarrow> decode_level n (encode v @ rest) = ret v rest"
proof (induction n arbitrary: v rest)
  case 0
  then show ?case
    using length_encode_pos [of v] by simp
next
  case (Suc n)
  have string: "decode_level n (encode_string k @ rest) = ret (PsString k) rest" if "ps_string k" "length (encode_string k) \<le> n" for k rest
    using Suc.IH [of "PsString k"] that by simp
  show ?case
    unfolding decode_level_Suc
  proof (cases v)
    case (PsFloat f)
    then show "decode_head (decode_level n) (encode v @ rest) = ret v rest"
      using uint_lt2p [of f] by (simp add: decode_with_marker_def split_n_append from_be_bytes del: be_bytes.simps)
  next
    case (PsList items)
    then have "length (encode x) \<le> n" "ps_ok x" if "x \<in> set items" for x
      using Suc.prems encode_item_length [OF that] header_length(1) [of "length items"] that by (auto simp del: length_greater_0_conv)
    then have "decode_items (decode_level n) (length items) (concat (map encode items) @ rest) = ret items rest"
      by (intro items_roundtrip Suc.IH)
    with Suc.prems(1) show "decode_head (decode_level n) (encode v @ rest) = ret v rest"
      by (simp add: PsList list_header decode_list_items_def)
  next
    case (PsDictionary m)
    have "decode_entries (decode_level n) (length m) [] (concat (map (\<lambda>(k, v). encode_string k @ encode v) m) @ rest) = ret ([] @ m) rest"
    proof (rule entries_roundtrip)
      fix k v rest
      assume kv: "(k, v) \<in> set m"
      then have "length (encode_string k) \<le> n" "length (encode v) \<le> n" "ps_string k" "ps_ok v"
        using Suc.prems encode_entry_length [OF kv] header_length(2) [of "length m"] by (auto simp: PsDictionary simp del: length_greater_0_conv)
      then show "decode_level n (encode_string k @ rest) = ret (PsString k) rest \<and> decode_level n (encode v @ rest) = ret v rest"
        using string Suc.IH by blast
    qed (use Suc.prems PsDictionary in simp)
    with Suc.prems(1) show "decode_head (decode_level n) (encode v @ rest) = ret v rest"
      by (simp add: PsDictionary dict_header decode_dict_items_def)
  next
    case (PsStructure t fs)
    then have "length (encode x) \<le> n" "ps_ok x" if "x \<in> set fs" for x
      using Suc.prems encode_item_length [OF that] header_length(3) [of "length fs"] that by (auto simp del: length_greater_0_conv)
    then have "decode_items (decode_level n) (length fs) (concat (map encode fs) @ rest) = ret fs rest"
      by (intro items_roundtrip Suc.IH)
    with Suc.prems(1) show "decode_head (decode_level n) (encode v @ rest) = ret v rest"
      by (simp add: PsStructure struct_header decode_struct_fields_def)
  qed (use Suc.prems in \<open>auto simp: decode_with_marker_def integer_roundtrip string_header bytes_header payload_roundtrip ps_string_def\<close>)
qed

text \<open>Shown too.
  What PackStream encodes it decodes: the decoder gives back every value of the right form, of any nesting, and leaves
  whatever follows it in the input.\<close>

theorem packstream_roundtrip:
  assumes "ps_ok v"
  shows "decode (encode v @ rest) = Some (Inr (v, rest))"
  using decode_level_roundtrip [OF assms, of "Suc (length (encode v @ rest))" rest] by (simp add: decode_def ret_def)

section \<open>Every input is answered\<close>

definition answers :: "('a \<Rightarrow> bool) \<Rightarrow> bytes \<Rightarrow> 'a decoded \<Rightarrow> bool" where
  "answers P input d \<longleftrightarrow> (case d of None \<Rightarrow> False | Some (Inl e) \<Rightarrow> True | Some (Inr (x, rest)) \<Rightarrow> P x \<and> suffix rest input)"

lemma answers_ret [simp]: "answers P input (ret x rest) \<longleftrightarrow> P x \<and> suffix rest input"
  by (simp add: answers_def ret_def)

lemma answers_error [simp]: "answers P input (Some (Inl e))"
  by (simp add: answers_def)

lemma answers_bind:
  assumes "answers P input m" and "\<And>x rest. P x \<Longrightarrow> suffix rest input \<Longrightarrow> answers Q rest (f x rest)"
  shows "answers Q input (dbind m f)"
proof (cases "m = None \<or> (\<exists>e. m = Some (Inl e))")
  case False
  then obtain x rest where m: "m = Some (Inr (x, rest))"
    by (metis option.exhaust sumE surj_pair)
  with assms have "answers Q rest (f x rest)" "suffix rest input"
    by (simp_all add: answers_def)
  then show ?thesis
    by (auto simp: m dbind_def answers_def split: option.splits sum.splits dest: suffix_order.trans)
qed (use assms in \<open>auto simp: answers_def dbind_def\<close>)

lemma answers_mono: "answers P input d \<Longrightarrow> (\<And>x. P x \<Longrightarrow> Q x) \<Longrightarrow> answers Q input d"
  by (auto simp: answers_def split: option.splits sum.splits)

lemma from_be_range: "0 \<le> from_be bs \<and> from_be bs < 256 ^ length bs"
proof (induction bs rule: rev_induct)
  case (snoc b bs)
  have "uint b < 256" "0 \<le> uint b"
    using uint_lt2p [of b] by simp_all
  with snoc show ?case
    by (simp add: from_be_def)
qed (simp add: from_be_def)

lemma signed_be_range: "- (256 ^ length bs) \<le> 2 * signed_be bs \<and> 2 * signed_be bs < 256 ^ length bs"
  using from_be_range [of bs] by (auto simp: signed_be_def Let_def)

lemma answers_split_first: "answers (\<lambda>_. True) input (split_first input)"
  by (auto simp: split_first_def suffix_ConsI split: list.split)

lemma answers_split_n: "answers (\<lambda>bs. length bs = n) input (split_n n input)"
  by (simp add: split_n_def suffix_drop)

lemma answers_with_len:
  assumes "\<And>len rest. 0 \<le> len \<Longrightarrow> len < 256 ^ n \<Longrightarrow> suffix rest input \<Longrightarrow> answers P rest (k len rest)"
  shows "answers P input (with_len n k input)"
  unfolding with_len_def by (rule answers_bind [OF answers_split_n]) (use assms from_be_range in blast)

lemma answers_payload:
  assumes "0 \<le> len" and "len < 2 ^ 32"
  shows "answers ps_ok input (decode_string_payload len input)" and "answers ps_ok input (decode_bytes_payload len input)"
  using assms by (auto simp: decode_string_payload_def decode_bytes_payload_def ps_string_def suffix_drop nat_less_iff min_def split: option.split)

lemma answers_items:
  assumes "\<And>i. suffix i input \<Longrightarrow> answers ps_ok i (dec i)"
  shows "answers (\<lambda>vs. length vs = n \<and> (\<forall>v \<in> set vs. ps_ok v)) input (decode_items dec n input)"
  using assms
proof (induction n arbitrary: input)
  case (Suc n)
  show ?case
    unfolding decode_items.simps
  proof (rule answers_bind [OF Suc.prems [OF suffix_order.refl]])
    fix v rest
    assume v: "ps_ok v" "suffix rest input"
    then have "answers (\<lambda>vs. length vs = n \<and> (\<forall>v \<in> set vs. ps_ok v)) rest (decode_items dec n rest)"
      using Suc by (meson suffix_order.trans)
    then show "answers (\<lambda>vs. length vs = Suc n \<and> (\<forall>v \<in> set vs. ps_ok v)) rest (dbind (decode_items dec n rest) (\<lambda>items rest. ret (v # items) rest))"
      by (rule answers_bind) (use v in simp)
  qed
qed simp

lemma entry_insert_set: "set (entry_insert k v m) \<subseteq> insert (k, v) (set m)" "length (entry_insert k v m) \<le> Suc (length m)"
  by (induction m) (auto split: if_splits)

lemma entry_insert_keys: "x \<in> fst ` set (entry_insert k v m) \<longleftrightarrow> x = k \<or> x \<in> fst ` set m"
  by (induction m) force+

lemma entry_insert_sorted: "sorted_wrt (<) (map fst m) \<Longrightarrow> sorted_wrt (<) (map fst (entry_insert k v m))"
proof (induction m)
  case (Cons kv m)
  obtain k' v' where kv: "kv = (k', v')"
    by fastforce
  have m: "\<And>x. x \<in> fst ` set m \<Longrightarrow> k' < x" "sorted_wrt (<) (map fst m)"
    using Cons.prems by (auto simp: kv)
  consider "k < k'" | "k = k'" | "k' < k"
    by (rule linorder_cases)
  then show ?case
  proof cases
    case 1
    then show ?thesis
      using m by (auto simp: kv intro: order.strict_trans)
  next
    case 3
    then have "k' < x" if "x \<in> fst ` set (entry_insert k v m)" for x
      using that m(1) by (auto simp: entry_insert_keys)
    moreover have "\<not> k < k'" "k \<noteq> k'"
      using 3 by auto
    ultimately show ?thesis
      using Cons.IH [OF m(2)] by (simp add: kv)
  qed (use m kv in simp)
qed simp

lemma answers_entries:
  assumes "\<And>i. suffix i input \<Longrightarrow> answers ps_ok i (dec i)" and "sorted_wrt (<) (map fst m)" and "\<forall>(k, v) \<in> set m. ps_string k \<and> ps_ok v"
  shows "answers (\<lambda>m'. length m' \<le> length m + n \<and> sorted_wrt (<) (map fst m') \<and> (\<forall>(k, v) \<in> set m'. ps_string k \<and> ps_ok v)) input
    (decode_entries dec n m input)"
  using assms
proof (induction n arbitrary: m input)
  case (Suc n)
  show ?case
    unfolding decode_entries.simps
  proof (rule answers_bind [OF Suc.prems(1) [OF suffix_order.refl]], goal_cases)
    case (1 key rest)
    show ?case
    proof (cases key)
      case (PsString k)
      have "answers (\<lambda>m'. length m' \<le> length m + Suc n \<and> sorted_wrt (<) (map fst m') \<and> (\<forall>(k, v) \<in> set m'. ps_string k \<and> ps_ok v)) rest'
          (decode_entries dec n (entry_insert k v m) rest')" if "ps_ok v" "suffix rest' rest" for v rest'
      proof (rule answers_mono [OF Suc.IH])
        show "answers ps_ok i (dec i)" if "suffix i rest'" for i
          using Suc.prems(1) 1(2) \<open>suffix rest' rest\<close> that by (meson suffix_order.trans)
        show "\<forall>(k, v) \<in> set (entry_insert k v m). ps_string k \<and> ps_ok v"
          using entry_insert_set(1) [of k v m] Suc.prems(3) 1(1) PsString that by auto
      qed (use Suc.prems(2) entry_insert_sorted entry_insert_set(2) [of k v m] in auto)
      then show ?thesis
        unfolding PsString ps_value.case using Suc.prems(1) [OF 1(2)] by (rule answers_bind [rotated])
    qed simp_all
  qed
qed simp

lemma answers_containers:
  assumes "\<And>i. suffix i input \<Longrightarrow> answers ps_ok i (dec i)" and "0 \<le> len" and "len < 2 ^ 32"
  shows "answers ps_ok input (decode_list_items dec len input)" and "answers ps_ok input (decode_dict_items dec len input)"
    and "len < 2 ^ 16 \<Longrightarrow> answers ps_ok input (decode_struct_fields dec len input)"
proof -
  show "answers ps_ok input (decode_list_items dec len input)"
    unfolding decode_list_items_def using assms(2,3) by (intro answers_bind [OF answers_items [OF assms(1)]]) (auto simp: nat_less_iff)
  show "answers ps_ok input (decode_dict_items dec len input)"
    unfolding decode_dict_items_def using assms(2,3) by (intro answers_bind [OF answers_entries [OF assms(1)]]) auto
  assume len: "len < 2 ^ 16"
  show "answers ps_ok input (decode_struct_fields dec len input)"
    unfolding decode_struct_fields_def
  proof (rule answers_bind [OF answers_split_first])
    fix t rest
    assume "suffix rest input"
    then have "answers ps_ok i (dec i)" if "suffix i rest" for i
      using assms(1) that by (meson suffix_order.trans)
    from answers_items [OF this]
    show "answers ps_ok rest (dbind (decode_items dec (nat len) rest) (\<lambda>fs rest. ret (PsStructure t fs) rest))"
      by (rule answers_bind) (use len assms(2) in \<open>auto simp: nat_less_iff\<close>)
  qed
qed

lemma answers_split_integer: "n \<le> 8 \<Longrightarrow> answers ps_ok input (dbind (split_n n input) (\<lambda>bs rest. ret (PsInteger (signed_be bs)) rest))"
proof (rule answers_bind [OF answers_split_n])
  fix bs rest :: bytes
  assume "n \<le> 8" "length bs = n"
  then have "(256::int) ^ length bs \<le> 256 ^ 8"
    by (intro power_increasing) simp_all
  with signed_be_range [of bs] show "answers ps_ok rest (ret (PsInteger (signed_be bs)) rest)"
    by (simp add: in_i64_def)
qed

lemma sint_u8_i64: "in_i64 (sint (b :: u8))"
  using uint_lt2p [of b] by (auto simp: sint_u8 in_i64_def intro: order.trans [of _ 0])

lemma tiny_length: "0 \<le> uint (marker AND 0x0F :: u8)" "uint (marker AND 0x0F :: u8) < 2 ^ 16"
proof -
  show "0 \<le> uint (marker AND 0x0F :: u8)"
    by simp
  have "uint (marker AND 0x0F :: u8) < 256"
    using uint_lt2p [of "marker AND 0x0F"] by simp
  then show "uint (marker AND 0x0F :: u8) < 2 ^ 16"
    by simp
qed

lemma answers_with_marker:
  assumes dec: "\<And>i. suffix i input \<Longrightarrow> answers ps_ok i (dec i)"
  shows "answers ps_ok input (decode_with_marker dec marker input)"
proof -
  have sub: "answers ps_ok i (dec i)" if "suffix i rest" "suffix rest input" for i rest
    using dec that by (meson suffix_order.trans)
  have long: "answers ps_ok input (with_len n decode_bytes_payload input)" "answers ps_ok input (with_len n decode_string_payload input)"
    "answers ps_ok input (with_len n (decode_list_items dec) input)" "answers ps_ok input (with_len n (decode_dict_items dec) input)"
    if "n \<in> {1, 2, 4}" for n
    by (rule answers_with_len, use that in \<open>auto intro!: answers_payload answers_containers sub\<close>)+
  have struct: "answers ps_ok input (with_len n (decode_struct_fields dec) input)" if "n \<in> {1, 2}" for n
    by (rule answers_with_len, use that in \<open>auto intro!: answers_containers sub\<close>)
  have float: "answers ps_ok input (dbind (split_n 8 input) (\<lambda>bs rest. ret (PsFloat (word_of_int (from_be bs))) rest))"
    by (rule answers_bind [OF answers_split_n]) simp
  have int8: "answers ps_ok input (dbind (split_first input) (\<lambda>b rest. ret (PsInteger (sint b)) rest))"
    by (rule answers_bind [OF answers_split_first]) (simp add: sint_u8_i64)
  have tiny: "answers ps_ok input (decode_tiny_or_int dec marker input)"
    using tiny_length [of marker] answers_payload [of "uint (marker AND 0x0F)" input] answers_containers [OF dec, of input "uint (marker AND 0x0F)"]
    by (simp add: decode_tiny_or_int_def sint_u8_i64)
  show ?thesis
    unfolding decode_with_marker_def
    using tiny float int8 answers_split_integer [of 2 input] answers_split_integer [of 4 input] answers_split_integer [of 8 input]
      long [of 1] long [of 2] long [of 4] struct [of 1] struct [of 2] by simp
qed

lemma decode_level_answers: "length input < n \<Longrightarrow> answers ps_ok input (decode_level n input)"
proof (induction n arbitrary: input)
  case (Suc n)
  show ?case
  proof (cases input)
    case (Cons marker rest)
    have "answers ps_ok rest (decode_with_marker (decode_level n) marker rest)"
      by (rule answers_with_marker, rule Suc.IH) (use Suc.prems Cons in \<open>auto dest: suffix_length_le\<close>)
    then show ?thesis
      by (auto simp: Cons answers_def split: option.splits sum.splits intro: suffix_ConsI)
  qed (simp add: decode_level_Suc decode_head_def split_first_def dbind_def)
qed simp

text \<open>The bound on the levels does not show: the decoder satisfies the recursion it is written with.\<close>

definition below :: "(bytes \<Rightarrow> 'a decoded) \<Rightarrow> (bytes \<Rightarrow> 'a decoded) \<Rightarrow> bool" where
  "below d d' \<longleftrightarrow> (\<forall>i. d i = None \<or> d i = d' i)"

lemma below_bind: "below d d' \<Longrightarrow> (\<And>x. below (f x) (f' x)) \<Longrightarrow> below (\<lambda>i. dbind (d i) f) (\<lambda>i. dbind (d' i) f')"
  unfolding below_def
proof
  fix i
  assume d: "\<forall>i. d i = None \<or> d i = d' i" and f: "\<And>x. \<forall>i. f x i = None \<or> f x i = f' x i"
  show "dbind (d i) f = None \<or> dbind (d i) f = dbind (d' i) f'"
  proof (cases "d i = None \<or> (\<exists>e. d i = Some (Inl e))")
    case False
    then obtain x rest where i: "d i = Some (Inr (x, rest))"
      by (metis option.exhaust sumE surj_pair)
    then have "d' i = Some (Inr (x, rest))"
      using d [rule_format, of i] by simp
    with i f [rule_format, of x rest] show ?thesis
      by (simp add: dbind_def)
  qed (use d [rule_format, of i] in \<open>auto simp: dbind_def\<close>)
qed

lemma below_refl: "below d d"
  by (simp add: below_def)

lemma below_if: "(c \<Longrightarrow> below d d') \<Longrightarrow> (\<not> c \<Longrightarrow> below e e') \<Longrightarrow> below (\<lambda>i. if c then d i else e i) (\<lambda>i. if c then d' i else e' i)"
  by (cases c) simp_all

lemma below_items: "below dec dec' \<Longrightarrow> below (decode_items dec n) (decode_items dec' n)"
proof (induction n)
  case (Suc n)
  have "decode_items d (Suc n) = (\<lambda>i. dbind (d i) (\<lambda>item i. dbind (decode_items d n i) (\<lambda>items rest. ret (item # items) rest)))" for d
    by (rule ext) simp
  then show ?case
    using Suc.IH [OF Suc.prems] Suc.prems by (simp only:) (intro below_bind below_refl)
qed (simp add: below_def)

lemma below_entries: "below dec dec' \<Longrightarrow> below (decode_entries dec n m) (decode_entries dec' n m)"
proof (induction n arbitrary: m)
  case (Suc n)
  define entry where
    "entry d key = (\<lambda>i. case key of PsString k \<Rightarrow> dbind (d i) (\<lambda>val rest. decode_entries d n (entry_insert k val m) rest)
       | other \<Rightarrow> Some (Inl (BoltIo (KeyNotString other))))" for d key
  have "below (entry dec key) (entry dec' key)" for key
    using Suc by (cases key) (simp_all add: entry_def below_refl below_bind)
  moreover have "decode_entries d (Suc n) m = (\<lambda>i. dbind (d i) (entry d))" for d
    by (rule ext) (simp add: entry_def [abs_def])
  ultimately show ?case
    using Suc.prems by (simp only:) (intro below_bind)
qed (simp add: below_def)

lemma below_containers:
  assumes "below dec dec'"
  shows "below (decode_list_items dec len) (decode_list_items dec' len)" and "below (decode_dict_items dec len) (decode_dict_items dec' len)"
    and "below (decode_struct_fields dec len) (decode_struct_fields dec' len)"
  unfolding decode_list_items_def [abs_def] decode_dict_items_def [abs_def] decode_struct_fields_def [abs_def]
  by (intro below_bind below_items below_entries below_refl assms)+

lemma below_with_len: "(\<And>len. below (k len) (k' len)) \<Longrightarrow> below (with_len n k) (with_len n k')"
  unfolding with_len_def [abs_def] by (intro below_bind below_refl)

lemma below_with_marker:
  assumes "below dec dec'"
  shows "below (decode_with_marker dec marker) (decode_with_marker dec' marker)"
  unfolding decode_with_marker_def [abs_def] decode_tiny_or_int_def [abs_def] sized_defs
  by (intro below_if below_refl below_with_len below_containers assms)

lemma below_level: "n \<le> m \<Longrightarrow> below (decode_level n) (decode_level m)"
proof (induction n arbitrary: m)
  case (Suc n)
  then obtain m' where m: "m = Suc m'" "n \<le> m'"
    by (cases m) auto
  then show ?case
    using Suc.IH [of m'] unfolding m decode_level_Suc decode_head_def [abs_def] by (intro below_bind below_refl below_with_marker)
qed (simp add: below_def)

lemma belowD: "below d d' \<Longrightarrow> d i \<noteq> None \<Longrightarrow> d' i = d i"
  unfolding below_def by metis

lemma answers_not_None: "answers P input d \<Longrightarrow> d \<noteq> None"
  by (cases d) (simp_all add: answers_def)

lemma decode_level_enough:
  assumes "length input < n"
  shows "decode_level n input = decode input"
proof -
  have "below (decode_level (Suc (length input))) (decode_level n)"
    using assms by (intro below_level) simp
  moreover have "decode_level (Suc (length input)) input \<noteq> None"
    by (rule answers_not_None [OF decode_level_answers]) simp
  ultimately show ?thesis
    unfolding decode_def by (rule belowD)
qed

lemma decode_unfold: "decode input = dbind (split_first input) (decode_with_marker decode)"
proof (cases input)
  case (Cons marker rest)
  have "below (decode_level (length input)) decode"
    unfolding below_def
  proof
    fix i
    show "decode_level (length input) i = None \<or> decode_level (length input) i = decode i"
    proof (cases "length i < length input")
      case False
      then have "below (decode_level (length input)) (decode_level (Suc (length i)))"
        by (intro below_level) simp
      then show ?thesis
        unfolding below_def decode_def by blast
    qed (simp add: decode_level_enough)
  qed
  then have "below (decode_with_marker (decode_level (length input)) marker) (decode_with_marker decode marker)"
    by (rule below_with_marker)
  moreover have "decode_with_marker (decode_level (length input)) marker rest \<noteq> None"
    using decode_level_answers [of input "Suc (length input)"] by (simp add: Cons answers_def split: option.splits)
  ultimately have "decode_with_marker decode marker rest = decode_with_marker (decode_level (length input)) marker rest"
    by (rule belowD)
  then show ?thesis
    by (simp add: decode_def Cons)
qed (simp add: decode_def split_first_def dbind_def)


section \<open>Examples\<close>

definition ex_message :: ps_value where
  "ex_message =
     PsStructure 0x10
       [PsString [0x4D, 0xC3, 0xA9], PsDictionary [([0x61], PsInteger (- 70000)), ([0x62], PsList [PsNull, PsBoolean True, PsFloat 5])],
        PsBytes [1, 2]]"

lemma ex_message_ok: "ps_ok ex_message"
  by (simp add: ex_message_def ps_string_def in_i64_def utf8_cont_def)

theorem packstream_roundtrip_witness: "decode (encode ex_message @ [7, 8]) = Some (Inr (ex_message, [7, 8]))"
  by (rule packstream_roundtrip [OF ex_message_ok])


text \<open>Shown too.
  A structure of \<open>2\<^sup>1\<^sup>6\<close> fields does not survive. The encoder has no larger header than the one with a 16-bit size and writes
  the size into it without a check, so that the decoder finds a structure without fields and takes the fields for what
  follows.\<close>

theorem oversized_structure_lost:
  "decode (encode (PsStructure t (replicate 65536 PsNull))) = Some (Inr (PsStructure t [], replicate 65536 0xC0))"
proof -
  have "be_bytes 2 65536 = [0, 0]"
    by code_simp
  then have "encode_struct_header 65536 = [0xDD, 0, 0]"
    by (simp add: encode_struct_header_def Let_def)
  moreover have "concat (map encode (replicate n PsNull)) = replicate n 0xC0" for n
    by (induction n) simp_all
  ultimately have "encode (PsStructure t (replicate 65536 PsNull)) = [0xDD, 0, 0] @ t # replicate 65536 0xC0"
    by (simp only: encode.simps length_replicate)
  moreover have "decode ([0xDD, 0, 0] @ t # rest) = Some (Inr (PsStructure t [], rest))" for rest
    by (subst decode_unfold) (simp add: long_markers with_len_def split_n_def from_be_def decode_struct_fields_def, simp add: ret_def)
  ultimately show ?thesis
    by (simp only:)
qed

end
