(* ===== verification/Bolt_Wire.thy ===== *)
theory Bolt_Wire
  imports Packstream_Laws
begin

text \<open>
  The transport of the Bolt protocol: the chunked framing of messages (\<^verbatim>\<open>src/src/bolt/chunked.rs\<close>) and the handshake that
  selects a version (\<^verbatim>\<open>src/src/bolt/handshake.rs\<close>).

  A reader is the list of the bytes it will deliver; that a read may return fewer bytes than asked for, or be interrupted,
  is hidden by the loops around it and by \<^verbatim>\<open>read_exact\<close>.
\<close>

section \<open>Chunks\<close>

definition MAX_CHUNK_SIZE :: nat where
  "MAX_CHUNK_SIZE = 65535"

function chunks :: "nat \<Rightarrow> 'a list \<Rightarrow> 'a list list" where
  "chunks n xs = (if xs = [] \<or> n = 0 then [] else take n xs # chunks n (drop n xs))"
  by pat_completeness auto
termination
  by (relation "measure (\<lambda>(n, xs). length xs)") auto

declare chunks.simps [simp del]

definition write_message :: "bytes \<Rightarrow> bytes" where
  "write_message payload = concat (map (\<lambda>chunk. be_bytes 2 (int (length chunk)) @ chunk) (chunks MAX_CHUNK_SIZE payload)) @ [0, 0]"

function read_message_from :: "bytes \<Rightarrow> bytes \<Rightarrow> (bolt_error, bytes \<times> bytes) result" where
  "read_message_from payload input =
     (if length input < 2 then Inl Eof
      else
        (let len = nat (from_be (take 2 input)) in
         if len = 0 then Inr (payload, drop 2 input)
         else if length input < 2 + len then Inl Eof
         else read_message_from (payload @ take len (drop 2 input)) (drop (2 + len) input)))"
  by pat_completeness auto
termination
  by (relation "measure (\<lambda>(payload, input). length input)") auto

declare read_message_from.simps [simp del]

definition read_message :: "bytes \<Rightarrow> (bolt_error, bytes \<times> bytes) result" where
  "read_message input = read_message_from [] input"

lemma chunks_concat: "0 < n \<Longrightarrow> concat (chunks n xs) = xs"
  by (induction n xs rule: chunks.induct) (subst chunks.simps, auto)

lemma chunks_length: "chunk \<in> set (chunks n xs) \<Longrightarrow> 0 < length chunk \<and> length chunk \<le> n"
proof (induction n xs rule: chunks.induct)
  case (1 n xs)
  then show ?case
    by (auto simp: chunks.simps [of n xs] split: if_splits)
qed

lemma read_chunk:
  assumes "0 < length chunk" and "length chunk \<le> 65535"
  shows "read_message_from payload ((be_bytes 2 (int (length chunk)) @ chunk) @ rest) = read_message_from (payload @ chunk) rest"
  using assms by (subst read_message_from.simps) (simp add: from_be_bytes Let_def del: be_bytes.simps)

lemma read_chunks:
  assumes "\<And>chunk. chunk \<in> set cs \<Longrightarrow> 0 < length chunk \<and> length chunk \<le> 65535"
  shows "read_message_from payload (concat (map (\<lambda>chunk. be_bytes 2 (int (length chunk)) @ chunk) cs) @ rest) = read_message_from (payload @ concat cs) rest"
  using assms
proof (induction cs arbitrary: payload)
  case (Cons chunk cs)
  then show ?case
    using read_chunk [of chunk payload] by (simp del: be_bytes.simps)
qed simp

lemma message_roundtrip: "read_message (write_message payload @ rest) = Inr (payload, rest)"
proof -
  have "read_message_from [] (concat (map (\<lambda>chunk. be_bytes 2 (int (length chunk)) @ chunk) (chunks MAX_CHUNK_SIZE payload)) @ [0, 0] @ rest) =
      read_message_from ([] @ concat (chunks MAX_CHUNK_SIZE payload)) ([0, 0] @ rest)"
    by (rule read_chunks) (use chunks_length [of _ MAX_CHUNK_SIZE payload] in \<open>simp add: MAX_CHUNK_SIZE_def\<close>)
  also have "\<dots> = Inr (payload, rest)"
    by (subst read_message_from.simps) (simp add: from_be_def chunks_concat MAX_CHUNK_SIZE_def)
  finally show ?thesis
    by (simp add: read_message_def write_message_def)
qed

text \<open>C30.
  A message survives the wire: what is encoded and framed by one side is unframed and decoded by the other, however many
  chunks it takes, and the next message begins where it ends.\<close>

theorem bolt_message_roundtrip:
  assumes "ps_ok v"
  shows "\<exists>payload. read_message (write_message (encode v) @ next_message) = Inr (payload, next_message) \<and> decode payload = Some (Inr (v, []))"
proof (intro exI conjI)
  show "read_message (write_message (encode v) @ next_message) = Inr (encode v, next_message)"
    by (rule message_roundtrip)
  show "decode (encode v) = Some (Inr (v, []))"
    using decode_level_roundtrip [OF assms, of "Suc (length (encode v))" "[]"] by (simp add: decode_def ret_def)
qed

theorem bolt_message_roundtrip_witness:
  "\<exists>payload. read_message (write_message (encode ex_message) @ [1]) = Inr (payload, [1]) \<and> decode payload = Some (Inr (ex_message, []))"
  by (rule bolt_message_roundtrip [OF ex_message_ok])

section \<open>Handshake\<close>

record bolt_version =
  bv_major :: u8
  bv_minor :: u8

definition bolt_none :: bolt_version where
  "bolt_none = \<lparr>bv_major = 0, bv_minor = 0\<rparr>"

definition version_of_bytes :: "bytes \<Rightarrow> bolt_version" where
  "version_of_bytes bs = \<lparr>bv_major = bs ! 3, bv_minor = bs ! 2\<rparr>"

definition version_to_bytes :: "bolt_version \<Rightarrow> bytes" where
  "version_to_bytes v = [0, 0, bv_minor v, bv_major v]"

definition version_is_none :: "bolt_version \<Rightarrow> bool" where
  "version_is_none v \<longleftrightarrow> bv_major v = 0 \<and> bv_minor v = 0"

record client_handshake =
  hs_versions :: "bolt_version list"
  hs_ranges :: "u8 list"

definition supported_versions :: "bolt_version list" where
  "supported_versions = map (\<lambda>(a, b). \<lparr>bv_major = a, bv_minor = b\<rparr>) [(5, 4), (5, 3), (5, 2), (5, 1), (5, 0), (4, 4), (4, 3)]"

definition u8_saturating_sub :: "u8 \<Rightarrow> u8 \<Rightarrow> u8" where
  "u8_saturating_sub a b = (if a < b then 0 else a - b)"

definition covers :: "bolt_version \<Rightarrow> u8 \<Rightarrow> bolt_version \<Rightarrow> bool" where
  "covers proposed below_it v \<longleftrightarrow> bv_major v = bv_major proposed \<and> bv_minor v \<le> bv_minor proposed \<and> u8_saturating_sub (bv_minor proposed) below_it \<le> bv_minor v"

fun find_map :: "('a \<Rightarrow> 'b option) \<Rightarrow> 'a list \<Rightarrow> 'b option" where
  "find_map f [] = None"
| "find_map f (x # xs) = (case f x of None \<Rightarrow> find_map f xs | Some y \<Rightarrow> Some y)"

definition handshake_select :: "client_handshake \<Rightarrow> bolt_version option" where
  "handshake_select h =
     find_map (\<lambda>(proposed, below_it). List.find (covers proposed below_it) supported_versions)
       (filter (\<lambda>(proposed, below_it). \<not> version_is_none proposed) (zip (hs_versions h) (hs_ranges h)))"

definition parse_client_handshake :: "bytes \<Rightarrow> (bolt_error, client_handshake) result" where
  "parse_client_handshake bs =
     (if length bs \<noteq> 20 then Inl (InvalidHandshakeLength (length bs))
      else if take 4 bs \<noteq> [0x60, 0x60, 0xB0, 0x17] then Inl InvalidMagic
      else
        Inr \<lparr>hs_versions = map (\<lambda>i. version_of_bytes (take 4 (drop (4 + i * 4) bs))) [0, 1, 2, 3],
             hs_ranges = map (\<lambda>i. bs ! (4 + i * 4 + 1)) [0, 1, 2, 3]\<rparr>)"

fun select_version :: "bolt_version list \<Rightarrow> bolt_version option" where
  "select_version [] = None"
| "select_version (proposal # rest) =
     (if version_is_none proposal then select_version rest
      else if proposal \<in> set supported_versions then Some proposal
      else select_version rest)"

lemma find_map_first:
  "find_map f xs = Some y \<Longrightarrow> \<exists>us x vs. xs = us @ x # vs \<and> (\<forall>u \<in> set us. f u = None) \<and> f x = Some y"
proof (induction xs)
  case (Cons z xs)
  show ?case
  proof (cases "f z")
    case None
    with Cons obtain us x vs where "xs = us @ x # vs" "\<forall>u \<in> set us. f u = None" "f x = Some y"
      by auto
    with None show ?thesis
      by (intro exI [of _ "z # us"] exI [of _ x] exI [of _ vs]) simp
  next
    case (Some y')
    with Cons.prems show ?thesis
      by (intro exI [of _ "[]"] exI [of _ z] exI [of _ xs]) simp
  qed
qed simp

lemma supported_find_highest:
  assumes "List.find P supported_versions = Some v" and "w \<in> set supported_versions" and "P w"
  shows "bv_major w < bv_major v \<or> bv_major w = bv_major v \<and> bv_minor w \<le> bv_minor v"
  using assms by (auto simp: supported_versions_def split: if_splits)

text \<open>Shown too.
  The handshake agrees on the highest version the server speaks within the first proposal of the client that covers any
  such version.\<close>

theorem handshake_selects_highest:
  assumes "handshake_select h = Some v"
  shows "v \<in> set supported_versions \<and>
    (\<exists>us p r vs. filter (\<lambda>(p, r). \<not> version_is_none p) (zip (hs_versions h) (hs_ranges h)) = us @ (p, r) # vs \<and> covers p r v \<and>
      (\<forall>(p', r') \<in> set us. \<forall>w \<in> set supported_versions. \<not> covers p' r' w) \<and>
      (\<forall>w \<in> set supported_versions. covers p r w \<longrightarrow> bv_minor w \<le> bv_minor v))"
proof -
  obtain us p r vs where split: "filter (\<lambda>(p, r). \<not> version_is_none p) (zip (hs_versions h) (hs_ranges h)) = us @ (p, r) # vs"
    and before: "\<forall>u \<in> set us. (case u of (p, r) \<Rightarrow> List.find (covers p r) supported_versions) = None"
    and found: "List.find (covers p r) supported_versions = Some v"
    using find_map_first [OF assms [unfolded handshake_select_def]] by auto
  have v: "v \<in> set supported_versions" "covers p r v"
    using found by (auto simp: find_Some_iff)
  moreover have "\<not> covers p' r' w" if "(p', r') \<in> set us" "w \<in> set supported_versions" for p' r' w
    using before that by (force simp: find_None_iff)
  moreover have "bv_minor w \<le> bv_minor v" if "w \<in> set supported_versions" "covers p r w" for w
    using supported_find_highest [OF found that] v(2) that(2) by (auto simp: covers_def)
  ultimately show ?thesis
    using split by blast
qed

end
