(* ===== verification/Privileges.thy ===== *)
theory Privileges
  imports Drevo_Prelude "HOL-Library.Char_ord" "HOL-Library.List_Lexorder"
begin

text \<open>
  Access control: the privileges of \<^verbatim>\<open>src/drevo-auth/src/privileges/model.rs\<close>, the decision of \<^verbatim>\<open>decide.rs\<close>, the cached checks of a
  session in \<^verbatim>\<open>context.rs\<close> and the built-in roles of \<^verbatim>\<open>builtin.rs\<close>.

  Names are strings of bytes, the UTF-8 form of the Rust strings. The cache of a session is shared state behind a lock; a
  check returns its answer and the session with the cache as it leaves it.
\<close>

section \<open>Privileges\<close>

datatype access = Grant | Deny

datatype action =
  ActTraverse | ActRead | ActMatch | ActCreate | ActDelete | ActSetLabel | ActRemoveLabel | ActSetProperty | ActMerge | ActWrite | ActAllGraph
| ActAccess | ActStart | ActStop | ActIndexManagement | ActConstraintManagement | ActNameManagement | ActTransactionManagement | ActAllDatabase
| ActUserManagement | ActRoleManagement | ActPrivilegeManagement | ActDatabaseManagement | ActExecuteProcedure | ActExecuteFunction
| ActExecuteAdminProcedures | ActAllDbms

datatype level = GraphLevel | DatabaseLevel | DbmsLevel

definition all_actions :: "action list" where
  "all_actions =
     [ActTraverse, ActRead, ActMatch, ActCreate, ActDelete, ActSetLabel, ActRemoveLabel, ActSetProperty, ActMerge, ActWrite, ActAllGraph,
      ActAccess, ActStart, ActStop, ActIndexManagement, ActConstraintManagement, ActNameManagement, ActTransactionManagement, ActAllDatabase,
      ActUserManagement, ActRoleManagement, ActPrivilegeManagement, ActDatabaseManagement, ActExecuteProcedure, ActExecuteFunction,
      ActExecuteAdminProcedures, ActAllDbms]"

definition action_level :: "action \<Rightarrow> level" where
  "action_level a =
     (if a \<in> {ActTraverse, ActRead, ActMatch, ActCreate, ActDelete, ActSetLabel, ActRemoveLabel, ActSetProperty, ActMerge, ActWrite, ActAllGraph}
      then GraphLevel
      else if a \<in> {ActAccess, ActStart, ActStop, ActIndexManagement, ActConstraintManagement, ActNameManagement, ActTransactionManagement,
        ActAllDatabase}
      then DatabaseLevel
      else DbmsLevel)"

fun action_name :: "action \<Rightarrow> string" where
  "action_name ActTraverse = ''traverse''"
| "action_name ActRead = ''read''"
| "action_name ActMatch = ''match''"
| "action_name ActCreate = ''create_element''"
| "action_name ActDelete = ''delete_element''"
| "action_name ActSetLabel = ''set_label''"
| "action_name ActRemoveLabel = ''remove_label''"
| "action_name ActSetProperty = ''set_property''"
| "action_name ActMerge = ''merge''"
| "action_name ActWrite = ''write''"
| "action_name ActAllGraph = ''graph_actions''"
| "action_name ActAccess = ''access''"
| "action_name ActStart = ''start_database''"
| "action_name ActStop = ''stop_database''"
| "action_name ActIndexManagement = ''index''"
| "action_name ActConstraintManagement = ''constraint''"
| "action_name ActNameManagement = ''token''"
| "action_name ActTransactionManagement = ''transaction_management''"
| "action_name ActAllDatabase = ''database_actions''"
| "action_name ActUserManagement = ''user_management''"
| "action_name ActRoleManagement = ''role_management''"
| "action_name ActPrivilegeManagement = ''privilege_management''"
| "action_name ActDatabaseManagement = ''database_management''"
| "action_name ActExecuteProcedure = ''execute''"
| "action_name ActExecuteFunction = ''execute_function''"
| "action_name ActExecuteAdminProcedures = ''execute_admin''"
| "action_name ActAllDbms = ''dbms_actions''"

datatype priv_target = TargetAll | TargetHome | TargetNamed string

datatype pattern = PatAll | PatName string

datatype segment =
  SegGraph | SegNode pattern | SegRelationship pattern | SegDatabase | SegUser pattern | SegProcedure pattern | SegFunction pattern

datatype resource = ResGraph | ResDatabase | ResAllProperties | ResProperty string | ResAllLabels | ResLabel string

record privilege =
  pr_action :: action
  pr_target :: "priv_target option"
  pr_segment :: segment
  pr_resource :: resource

section \<open>Patterns\<close>

definition pattern_matches :: "pattern \<Rightarrow> string \<Rightarrow> bool" where
  "pattern_matches p name = (case p of PatAll \<Rightarrow> True | PatName n \<Rightarrow> n = name)"

text \<open>
  The loop of \<^verbatim>\<open>glob_matches\<close> with its indices: into the glob, into the name, of the last star and of the place in the name
  where that star was tried.
\<close>

partial_function (option) glob_loop :: "string \<Rightarrow> string \<Rightarrow> nat \<Rightarrow> nat \<Rightarrow> nat option \<Rightarrow> nat \<Rightarrow> bool option" where
  "glob_loop glob name g n star mark =
     (if n < length name then
        if g < length glob \<and> (glob ! g = CHR ''?'' \<or> glob ! g = name ! n) then glob_loop glob name (g + 1) (n + 1) star mark
        else if g < length glob \<and> glob ! g = CHR ''*'' then glob_loop glob name (g + 1) n (Some g) n
        else (case star of None \<Rightarrow> Some False | Some s \<Rightarrow> glob_loop glob name (s + 1) (mark + 1) star (mark + 1))
      else Some (list_all (\<lambda>c. c = CHR ''*'') (drop g glob)))"

declare glob_loop.simps [code]

definition glob_matches :: "string \<Rightarrow> string \<Rightarrow> bool option" where
  "glob_matches glob name = glob_loop glob name 0 0 None 0"

definition matches_glob :: "pattern \<Rightarrow> string \<Rightarrow> bool" where
  "matches_glob p name = (case p of PatAll \<Rightarrow> True | PatName glob \<Rightarrow> glob_matches glob name = Some True)"

section \<open>Decisions\<close>

datatype element = NoElement | NodeElement "string list" | RelationshipElement string

record request =
  rq_action :: action
  rq_database :: string
  rq_home :: string
  rq_element :: element
  rq_name :: "string option"

datatype decision = Granted | Denied | NotGranted

datatype implied = Wholly | ByResource

definition implies :: "action \<Rightarrow> access \<Rightarrow> resource \<Rightarrow> action \<Rightarrow> implied option" where
  "implies held access resource wanted =
     (if held = wanted then Some ByResource
      else
        (let finds = (access = Grant \<or> resource = ResAllProperties) in
         if held = ActAllGraph \<and> action_level wanted = GraphLevel then Some Wholly
         else if held = ActWrite \<and> wanted \<in> {ActCreate, ActDelete, ActSetLabel, ActRemoveLabel, ActSetProperty} then Some Wholly
         else if held = ActMatch \<and> wanted = ActRead then Some ByResource
         else if held \<in> {ActMatch, ActMerge} \<and> wanted = ActTraverse \<and> finds then Some Wholly
         else if held = ActMerge \<and> wanted \<in> {ActMatch, ActRead, ActSetProperty} then Some ByResource
         else if held = ActMerge \<and> wanted = ActCreate then Some Wholly
         else if held = ActAllDatabase \<and> action_level wanted = DatabaseLevel then Some Wholly
         else if held = ActAllDbms \<and> action_level wanted = DbmsLevel then Some Wholly
         else None))"

definition target_covers :: "priv_target option \<Rightarrow> request \<Rightarrow> bool" where
  "target_covers target r =
     (case target of
        None \<Rightarrow> True
      | Some TargetAll \<Rightarrow> True
      | Some TargetHome \<Rightarrow> rq_home r \<noteq> [] \<and> rq_database r = rq_home r
      | Some (TargetNamed name) \<Rightarrow> name = rq_database r)"

fun segment_covers :: "segment \<Rightarrow> request \<Rightarrow> bool" where
  "segment_covers SegGraph r \<longleftrightarrow> True"
| "segment_covers SegDatabase r \<longleftrightarrow> True"
| "segment_covers (SegNode p) r \<longleftrightarrow>
     (case rq_element r of NodeElement labels \<Rightarrow> (case p of PatAll \<Rightarrow> True | PatName label \<Rightarrow> label \<in> set labels) | _ \<Rightarrow> False)"
| "segment_covers (SegRelationship p) r \<longleftrightarrow> (case rq_element r of RelationshipElement t \<Rightarrow> pattern_matches p t | _ \<Rightarrow> False)"
| "segment_covers (SegUser p) r \<longleftrightarrow> (case rq_name r of None \<Rightarrow> True | Some n \<Rightarrow> pattern_matches p n)"
| "segment_covers (SegProcedure p) r \<longleftrightarrow> (case rq_name r of None \<Rightarrow> False | Some n \<Rightarrow> matches_glob p n)"
| "segment_covers (SegFunction p) r \<longleftrightarrow> (case rq_name r of None \<Rightarrow> False | Some n \<Rightarrow> matches_glob p n)"

definition resource_covers :: "resource \<Rightarrow> request \<Rightarrow> bool" where
  "resource_covers resource r =
     (case resource of ResProperty p \<Rightarrow> rq_name r = Some p | ResLabel p \<Rightarrow> rq_name r = Some p | _ \<Rightarrow> True)"

definition priv_covers :: "access \<Rightarrow> privilege \<Rightarrow> request \<Rightarrow> bool" where
  "priv_covers access p r =
     (case implies (pr_action p) access (pr_resource p) (rq_action r) of
        None \<Rightarrow> False
      | Some imp \<Rightarrow>
          target_covers (pr_target p) r \<and> segment_covers (pr_segment p) r \<and> (imp = Wholly \<or> resource_covers (pr_resource p) r))"

fun decide_loop :: "bool \<Rightarrow> (access \<times> privilege) list \<Rightarrow> request \<Rightarrow> decision" where
  "decide_loop granted [] r = (if granted then Granted else NotGranted)"
| "decide_loop granted ((access, p) # held) r =
     (if priv_covers access p r then (case access of Deny \<Rightarrow> Denied | Grant \<Rightarrow> decide_loop True held r)
      else decide_loop granted held r)"

definition decide :: "(access \<times> privilege) list \<Rightarrow> request \<Rightarrow> decision" where
  "decide held r = decide_loop False held r"

definition is_allowed :: "decision \<Rightarrow> bool" where
  "is_allowed d \<longleftrightarrow> d = Granted"

section \<open>The context of a session\<close>

definition CACHE_LIMIT :: int where
  "CACHE_LIMIT = 16384"

record compiled =
  c_held :: "(access \<times> privilege) list"
  c_home :: string
  c_reads_all :: bool
  c_writes_all :: bool
  c_cache :: "(string, bool) fmap"

type_synonym security_context = "compiled option"

definition unrestricted :: security_context where
  "unrestricted = None"

definition graph_deny :: "(access \<times> privilege) list \<Rightarrow> bool" where
  "graph_deny held \<longleftrightarrow> list_ex (\<lambda>(a, p). a = Deny \<and> action_level (pr_action p) = GraphLevel) held"

definition grants_everywhere :: "(access \<times> privilege) list \<Rightarrow> (privilege \<Rightarrow> bool) \<Rightarrow> bool" where
  "grants_everywhere held pred \<longleftrightarrow> list_ex (\<lambda>(a, p). a = Grant \<and> pr_target p \<in> {None, Some TargetAll} \<and> pred p) held"

definition reads_segment :: "(access \<times> privilege) list \<Rightarrow> segment \<Rightarrow> bool" where
  "reads_segment held seg \<longleftrightarrow>
     grants_everywhere held
       (\<lambda>p. pr_action p = ActAllGraph \<or> pr_action p \<in> {ActMatch, ActMerge} \<and> pr_resource p = ResAllProperties \<and> pr_segment p = seg)"

definition context_new :: "(access \<times> privilege) list \<Rightarrow> string \<Rightarrow> security_context" where
  "context_new held home =
     Some \<lparr>c_held = held, c_home = home,
       c_reads_all = (\<not> graph_deny held \<and> reads_segment held (SegNode PatAll) \<and> reads_segment held (SegRelationship PatAll)),
       c_writes_all = (\<not> graph_deny held \<and> grants_everywhere held (\<lambda>p. pr_action p \<in> {ActWrite, ActAllGraph})),
       c_cache = fmempty\<rparr>"

definition cache_key :: "action \<Rightarrow> string \<Rightarrow> element \<Rightarrow> string option \<Rightarrow> string" where
  "cache_key action database element name =
     action_name action @ CHR 0x00 # database @ CHR 0x00 #
     (case element of
        NoElement \<Rightarrow> ''-''
      | NodeElement labels \<Rightarrow> CHR ''n'' # concat (map (\<lambda>l. CHR 0x01 # l) (sort labels))
      | RelationshipElement t \<Rightarrow> CHR ''r'' # t) @
     CHR 0x00 # (case name of None \<Rightarrow> [] | Some n \<Rightarrow> n)"

definition check :: "security_context \<Rightarrow> action \<Rightarrow> string \<Rightarrow> element \<Rightarrow> string option \<Rightarrow> bool \<times> security_context" where
  "check ctx action database element name =
     (case ctx of
        None \<Rightarrow> (True, None)
      | Some c \<Rightarrow>
          (let key = cache_key action database element name in
           case fmlookup (c_cache c) key of
             Some hit \<Rightarrow> (hit, Some c)
           | None \<Rightarrow>
               (let r = \<lparr>rq_action = action, rq_database = database, rq_home = c_home c, rq_element = element, rq_name = name\<rparr>;
                    allowed = is_allowed (decide (c_held c) r);
                    cache = (if CACHE_LIMIT \<le> int (fcard (fmdom (c_cache c))) then fmempty else c_cache c)
                in (allowed, Some (c\<lparr>c_cache := fmupd key allowed cache\<rparr>)))))"

definition can_database :: "security_context \<Rightarrow> action \<Rightarrow> string \<Rightarrow> bool \<times> security_context" where
  "can_database ctx action database = check ctx action database NoElement None"

definition can_access :: "security_context \<Rightarrow> string \<Rightarrow> bool \<times> security_context" where
  "can_access ctx database = can_database ctx ActAccess database"

definition reads_everything :: "security_context \<Rightarrow> string \<Rightarrow> bool \<times> security_context" where
  "reads_everything ctx database =
     (case ctx of None \<Rightarrow> (True, None) | Some c \<Rightarrow> if c_reads_all c then can_access ctx database else (False, ctx))"

definition writes_everything :: "security_context \<Rightarrow> string \<Rightarrow> bool \<times> security_context" where
  "writes_everything ctx database =
     (case ctx of None \<Rightarrow> (True, None) | Some c \<Rightarrow> if c_writes_all c then can_access ctx database else (False, ctx))"

definition can_traverse_node :: "security_context \<Rightarrow> string \<Rightarrow> string list \<Rightarrow> bool \<times> security_context" where
  "can_traverse_node ctx database labels = check ctx ActTraverse database (NodeElement labels) None"

definition can_traverse_relationship :: "security_context \<Rightarrow> string \<Rightarrow> string \<Rightarrow> bool \<times> security_context" where
  "can_traverse_relationship ctx database rel_type = check ctx ActTraverse database (RelationshipElement rel_type) None"

definition can_read_property :: "security_context \<Rightarrow> string \<Rightarrow> element \<Rightarrow> string \<Rightarrow> bool \<times> security_context" where
  "can_read_property ctx database element key = check ctx ActRead database element (Some key)"

definition can_write :: "security_context \<Rightarrow> action \<Rightarrow> string \<Rightarrow> element \<Rightarrow> string option \<Rightarrow> bool \<times> security_context" where
  "can_write ctx action database element name = check ctx action database element name"

definition can_manage_transactions :: "security_context \<Rightarrow> string \<Rightarrow> string \<Rightarrow> bool \<times> security_context" where
  "can_manage_transactions ctx database user = check ctx ActTransactionManagement database NoElement (Some user)"

definition can_execute_procedure :: "security_context \<Rightarrow> string \<Rightarrow> bool \<times> security_context" where
  "can_execute_procedure ctx name = check ctx ActExecuteProcedure [] NoElement (Some name)"

definition can_execute_function :: "security_context \<Rightarrow> string \<Rightarrow> bool \<times> security_context" where
  "can_execute_function ctx name = check ctx ActExecuteFunction [] NoElement (Some name)"

definition has_dbms :: "security_context \<Rightarrow> action \<Rightarrow> bool \<times> security_context" where
  "has_dbms ctx action = check ctx action [] NoElement None"

section \<open>Built-in roles\<close>

definition role_graph :: "action \<Rightarrow> segment \<Rightarrow> resource \<Rightarrow> privilege" where
  "role_graph a s r = \<lparr>pr_action = a, pr_target = Some TargetAll, pr_segment = s, pr_resource = r\<rparr>"

definition role_database :: "action \<Rightarrow> priv_target \<Rightarrow> segment \<Rightarrow> privilege" where
  "role_database a t s = \<lparr>pr_action = a, pr_target = Some t, pr_segment = s, pr_resource = ResDatabase\<rparr>"

definition role_dbms :: "action \<Rightarrow> segment \<Rightarrow> privilege" where
  "role_dbms a s = \<lparr>pr_action = a, pr_target = None, pr_segment = s, pr_resource = ResDatabase\<rparr>"

definition builtin_privileges :: "string \<Rightarrow> privilege list option" where
  "builtin_privileges role =
     (let public =
            [role_database ActAccess TargetHome SegDatabase, role_dbms ActExecuteProcedure (SegProcedure PatAll),
             role_dbms ActExecuteFunction (SegFunction PatAll)];
          reader =
            [role_database ActAccess TargetAll SegDatabase, role_graph ActMatch (SegNode PatAll) ResAllProperties,
             role_graph ActMatch (SegRelationship PatAll) ResAllProperties];
          editor = reader @ [role_graph ActWrite SegGraph ResGraph];
          publisher = editor @ [role_database ActNameManagement TargetAll SegDatabase];
          architect =
            publisher @ [role_database ActIndexManagement TargetAll SegDatabase, role_database ActConstraintManagement TargetAll SegDatabase];
          admin =
            architect @ [role_database ActStart TargetAll SegDatabase, role_database ActStop TargetAll SegDatabase,
              role_database ActTransactionManagement TargetAll (SegUser PatAll), role_dbms ActAllDbms SegDatabase]
      in if role = ''PUBLIC'' then Some public
         else if role = ''reader'' then Some reader
         else if role = ''editor'' then Some editor
         else if role = ''publisher'' then Some publisher
         else if role = ''architect'' then Some architect
         else if role = ''admin'' then Some admin
         else None)"

end
