(* ===== verification/Privileges_Laws.thy ===== *)
theory Privileges_Laws
  imports Privileges
begin

text \<open>
  What access control promises: a deny wins over every grant, the cached answers of a session are the decisions on its privileges, the
  shortcuts \<^verbatim>\<open>reads_everything\<close> and \<^verbatim>\<open>writes_everything\<close> skip only checks that would pass, and the loop of
  \<^verbatim>\<open>glob_matches\<close> returns and agrees with the usual reading of the wildcards.

  \<^verbatim>\<open>memo\<close> is the contract of a cache of answers under a key; the session's cache interprets it.
\<close>

section \<open>Definitions used by the statements\<close>

text \<open>A check as its four arguments, the request it asks, and a session that makes a sequence of checks.\<close>

type_synonym query = "action \<times> string \<times> element \<times> string option"

fun query_request :: "string \<Rightarrow> query \<Rightarrow> request" where
  "query_request home (a, d, e, n) = \<lparr>rq_action = a, rq_database = d, rq_home = home, rq_element = e, rq_name = n\<rparr>"

fun query_key :: "query \<Rightarrow> string" where
  "query_key (a, d, e, n) = cache_key a d e n"

fun check_query :: "security_context \<Rightarrow> query \<Rightarrow> bool \<times> security_context" where
  "check_query ctx (a, d, e, n) = check ctx a d e n"

fun check_all :: "security_context \<Rightarrow> query list \<Rightarrow> bool list \<times> security_context" where
  "check_all ctx [] = ([], ctx)"
| "check_all ctx (q # qs) =
     (let (b, ctx1) = check_query ctx q; (bs, ctx2) = check_all ctx1 qs in (b # bs, ctx2))"

text \<open>What a user may do, read off the privileges: some grant covers it and no deny does.\<close>

definition permitted :: "(access \<times> privilege) list \<Rightarrow> request \<Rightarrow> bool" where
  "permitted held r \<longleftrightarrow> (\<exists>p. (Grant, p) \<in> set held \<and> priv_covers Grant p r) \<and> \<not> (\<exists>p. (Deny, p) \<in> set held \<and> priv_covers Deny p r)"

text \<open>Names that hold neither of the two characters the cache key separates its fields with.\<close>

definition plain_name :: "string \<Rightarrow> bool" where
  "plain_name s \<longleftrightarrow> CHR 0x00 \<notin> set s \<and> CHR 0x01 \<notin> set s"

fun plain_element :: "element \<Rightarrow> bool" where
  "plain_element NoElement \<longleftrightarrow> True"
| "plain_element (NodeElement labels) \<longleftrightarrow> list_all plain_name labels"
| "plain_element (RelationshipElement t) \<longleftrightarrow> plain_name t"

fun plain_query :: "query \<Rightarrow> bool" where
  "plain_query (a, d, e, n) \<longleftrightarrow> plain_name d \<and> plain_element e \<and> n \<noteq> Some []"

text \<open>Privileges as the commands build them: \<^verbatim>\<open>WRITE\<close> and \<^verbatim>\<open>ALL GRAPH PRIVILEGES\<close> take no segment.\<close>

definition whole_graph_writes :: "(access \<times> privilege) list \<Rightarrow> bool" where
  "whole_graph_writes held \<longleftrightarrow> list_all (\<lambda>(a, p). pr_action p \<in> {ActWrite, ActAllGraph} \<longrightarrow> pr_segment p = SegGraph) held"

text \<open>The wildcards as usually read: a star stands for any run of characters, a question mark for any one.\<close>

fun glob_spec :: "string \<Rightarrow> string \<Rightarrow> bool" where
  "glob_spec [] name \<longleftrightarrow> name = []"
| "glob_spec (c # g) name \<longleftrightarrow>
     (if c = CHR ''*'' then list_ex (\<lambda>k. glob_spec g (drop k name)) [0..<Suc (length name)]
      else (case name of [] \<Rightarrow> False | d # rest \<Rightarrow> (c = CHR ''?'' \<or> c = d) \<and> glob_spec g rest))"

section \<open>A deny wins\<close>

lemma decide_loop_exact:
  "decide_loop granted held r =
     (if \<exists>p. (Deny, p) \<in> set held \<and> priv_covers Deny p r then Denied
      else if granted \<or> (\<exists>p. (Grant, p) \<in> set held \<and> priv_covers Grant p r) then Granted else NotGranted)"
proof (induction granted held r rule: decide_loop.induct)
  case (2 granted access p held r)
  then show ?case by (cases access) auto
qed simp

lemma decide_permitted: "is_allowed (decide held r) \<longleftrightarrow> permitted held r"
  by (simp add: decide_def decide_loop_exact is_allowed_def permitted_def)

section \<open>Memoised answers\<close>

locale memo =
  fixes key :: "'q \<Rightarrow> 'k" and answer :: "'q \<Rightarrow> 'b" and plain :: "'q \<Rightarrow> bool"
  assumes key_decides: "plain q \<Longrightarrow> plain q' \<Longrightarrow> key q = key q' \<Longrightarrow> answer q = answer q'"
begin

definition exact :: "('k, 'b) fmap \<Rightarrow> bool" where
  "exact cache \<longleftrightarrow> (\<forall>q b. plain q \<longrightarrow> fmlookup cache (key q) = Some b \<longrightarrow> b = answer q)"

lemma exact_empty: "exact fmempty"
  by (simp add: exact_def)

lemma exact_hit: "exact cache \<Longrightarrow> plain q \<Longrightarrow> fmlookup cache (key q) = Some b \<Longrightarrow> b = answer q"
  by (simp add: exact_def)

lemma exact_insert: "exact cache \<Longrightarrow> plain q \<Longrightarrow> exact (fmupd (key q) (answer q) cache)"
  by (auto simp: exact_def dest: key_decides split: if_splits)

end

section \<open>The key of a check\<close>

lemma split_at_separator:
  "z \<notin> set xs \<Longrightarrow> z \<notin> set xs' \<Longrightarrow> xs @ z # ys = xs' @ z # ys' \<longleftrightarrow> xs = xs' \<and> ys = ys'"
  by (induction xs arbitrary: xs') (case_tac xs'; force)+

lemma labels_key_inject:
  "list_all plain_name ls \<Longrightarrow> list_all plain_name ls' \<Longrightarrow>
     concat (map (\<lambda>l. CHR 0x01 # l) ls) = concat (map (\<lambda>l. CHR 0x01 # l) ls') \<Longrightarrow> ls = ls'"
proof (induction ls arbitrary: ls')
  case Nil
  then show ?case by (cases ls') auto
next
  case (Cons l ls)
  let ?enc = "\<lambda>ls. concat (map (\<lambda>l. CHR 0x01 # l) ls)"
  have run: "takeWhile (\<lambda>c. c \<noteq> CHR 0x01) (l @ ?enc ls) = l" if "plain_name l" for l ls
    using that by (cases ls) (auto simp: plain_name_def takeWhile_append)
  from Cons.prems obtain l' ks where ls': "ls' = l' # ks" by (cases ls') auto
  with Cons.prems have eq: "l @ ?enc ls = l' @ ?enc ks" and "plain_name l" "plain_name l'" by auto
  then have "l = l'" using run[of l ls] run[of l' ks] by simp
  with eq Cons ls' show ?case by auto
qed

lemma all_actions_all: "a \<in> set all_actions"
  by (cases a) (simp_all add: all_actions_def)

lemma action_name_inject: "action_name a = action_name b \<longleftrightarrow> a = b"
proof -
  have "distinct (map action_name all_actions)" by code_simp
  then show ?thesis using all_actions_all[of a] all_actions_all[of b] by (auto simp: distinct_map dest: inj_onD)
qed

lemma action_name_plain: "CHR 0x00 \<notin> set (action_name a)"
  by (cases a) auto

text \<open>Two elements that no privilege tells apart: nodes are compared by their labels in any order.\<close>

fun same_element :: "element \<Rightarrow> element \<Rightarrow> bool" where
  "same_element (NodeElement ls) (NodeElement ls') \<longleftrightarrow> sort ls = sort ls'"
| "same_element e e' \<longleftrightarrow> e = e'"

definition element_key :: "element \<Rightarrow> string" where
  "element_key e =
     (case e of
        NoElement \<Rightarrow> ''-''
      | NodeElement labels \<Rightarrow> CHR ''n'' # concat (map (\<lambda>l. CHR 0x01 # l) (sort labels))
      | RelationshipElement t \<Rightarrow> CHR ''r'' # t)"

lemma element_key_plain: "plain_element e \<Longrightarrow> CHR 0x00 \<notin> set (element_key e)"
  by (cases e) (auto simp: element_key_def plain_name_def list_all_iff)

lemma element_key_inject:
  "plain_element e \<Longrightarrow> plain_element e' \<Longrightarrow> element_key e = element_key e' \<Longrightarrow> same_element e e'"
  by (cases e; cases e') (auto simp: element_key_def list_all_iff intro!: labels_key_inject)

lemma query_key_inject:
  assumes "plain_query (a, d, e, n)" and "plain_query (a', d', e', n')" and "query_key (a, d, e, n) = query_key (a', d', e', n')"
  shows "a = a' \<and> d = d' \<and> same_element e e' \<and> n = n'"
proof -
  have key: "query_key (a, d, e, n) =
      action_name a @ CHR 0x00 # d @ CHR 0x00 # element_key e @ CHR 0x00 # (case n of None \<Rightarrow> [] | Some n \<Rightarrow> n)" for a d e n
    by (simp add: cache_key_def element_key_def)
  show ?thesis
    using assms unfolding key
    by (simp add: split_at_separator action_name_plain action_name_inject element_key_plain element_key_inject plain_name_def
          split: option.splits)
qed

lemma same_element_covers:
  assumes "same_element e e'"
  shows "segment_covers s (r\<lparr>rq_element := e\<rparr>) = segment_covers s (r\<lparr>rq_element := e'\<rparr>)"
  using assms by (cases s; cases e; cases e') (auto split: pattern.splits dest: arg_cong[where f = set])

lemma same_element_permitted:
  assumes "same_element e e'"
  shows "permitted held (query_request home (a, d, e, n)) = permitted held (query_request home (a, d, e', n))"
proof -
  have "segment_covers s (query_request home (a, d, e, n)) = segment_covers s (query_request home (a, d, e', n))" for s
    using same_element_covers[OF assms, of s "query_request home (a, d, e, n)"] by simp
  moreover have "target_covers t (query_request home (a, d, e, n)) = target_covers t (query_request home (a, d, e', n))"
      and "resource_covers x (query_request home (a, d, e, n)) = resource_covers x (query_request home (a, d, e', n))" for t x
    by (simp_all add: target_covers_def resource_covers_def split: option.splits priv_target.splits resource.splits)
  ultimately show ?thesis by (simp add: permitted_def priv_covers_def cong: option.case_cong)
qed

interpretation sc: memo query_key "\<lambda>q. permitted held (query_request home q)" plain_query for held home
proof
  fix q q' :: query
  assume prems: "plain_query q" "plain_query q'" "query_key q = query_key q'"
  obtain a d e n a' d' e' n' where q: "q = (a, d, e, n)" "q' = (a', d', e', n')" by (cases q; cases q')
  have "a = a' \<and> d = d' \<and> same_element e e' \<and> n = n'" using query_key_inject prems unfolding q by blast
  then show "permitted held (query_request home q) = permitted held (query_request home q')"
    unfolding q using same_element_permitted[of e e' held home a d n] by simp
qed

lemma check_query_exact:
  assumes "sc.exact held home (c_cache c)" and "c_held c = held" and "c_home c = home" and "plain_query q"
  obtains c' where "check_query (Some c) q = (permitted held (query_request home q), Some c')"
    and "sc.exact held home (c_cache c')" and "c_held c' = held" and "c_home c' = home"
proof -
  obtain a d e n where q: "q = (a, d, e, n)" by (cases q)
  show thesis
  proof (cases "fmlookup (c_cache c) (query_key q)")
    case None
    let ?c = "c\<lparr>c_cache := fmupd (query_key q) (permitted held (query_request home q))
      (if CACHE_LIMIT \<le> int (fcard (fmdom (c_cache c))) then fmempty else c_cache c)\<rparr>"
    have "check_query (Some c) q = (permitted held (query_request home q), Some ?c)"
      using None assms(2,3) by (simp add: q check_def Let_def decide_permitted)
    moreover have "sc.exact held home (c_cache ?c)"
      using assms(1,4) sc.exact_empty sc.exact_insert by simp
    ultimately show thesis using assms(2,3) that by simp
  next
    case (Some b)
    then have "b = permitted held (query_request home q)" using assms(1,4) sc.exact_hit by blast
    then have "check_query (Some c) q = (permitted held (query_request home q), Some c)"
      using Some by (simp add: q check_def)
    then show thesis using assms that by blast
  qed
qed

lemma check_all_exact:
  assumes "sc.exact held home (c_cache c)" and "c_held c = held" and "c_home c = home" and "list_all plain_query qs"
  shows "fst (check_all (Some c) qs) = map (\<lambda>q. permitted held (query_request home q)) qs"
  using assms
proof (induction qs arbitrary: c)
  case (Cons q qs)
  obtain c' where step: "check_query (Some c) q = (permitted held (query_request home q), Some c')"
    and c': "sc.exact held home (c_cache c')" "c_held c' = held" "c_home c' = home"
    using check_query_exact[OF Cons.prems(1-3), of q] Cons.prems(4) by auto
  show ?case
    using Cons.IH[OF c'] Cons.prems(4) step by (cases "check_all (Some c') qs") simp
qed simp

section \<open>Skipped checks\<close>

lemma no_graph_deny:
  assumes "\<not> graph_deny held" and "action_level (rq_action r) = GraphLevel" and "(Deny, p) \<in> set held"
  shows "\<not> priv_covers Deny p r"
proof -
  have "action_level (pr_action p) \<noteq> GraphLevel"
    using assms(1,3) by (auto simp: graph_deny_def list_ex_iff)
  then have "implies (pr_action p) Deny (pr_resource p) (rq_action r) = None"
    using assms(2) by (cases "pr_action p") (auto simp: implies_def action_level_def Let_def)
  then show ?thesis by (simp add: priv_covers_def)
qed

lemma everywhere_covers: "pr_target p \<in> {None, Some TargetAll} \<Longrightarrow> target_covers (pr_target p) r"
  by (auto simp: target_covers_def)

lemma reads_segment_covers:
  assumes "reads_segment held seg" and "whole_graph_writes held" and "segment_covers seg r"
    and "rq_action r \<in> {ActTraverse, ActRead}"
  obtains p where "(Grant, p) \<in> set held" and "priv_covers Grant p r"
proof -
  obtain p where p: "(Grant, p) \<in> set held" "pr_target p \<in> {None, Some TargetAll}"
    and kind: "pr_action p = ActAllGraph \<or> pr_action p \<in> {ActMatch, ActMerge} \<and> pr_resource p = ResAllProperties \<and> pr_segment p = seg"
    using assms(1) by (auto simp: reads_segment_def grants_everywhere_def list_ex_iff)
  have "pr_action p = ActAllGraph \<Longrightarrow> pr_segment p = SegGraph"
    using assms(2) p(1) by (auto simp: whole_graph_writes_def list_all_iff)
  then have "priv_covers Grant p r"
    using kind assms(3,4) everywhere_covers[OF p(2), of r]
    by (auto simp: priv_covers_def implies_def action_level_def resource_covers_def)
  with p that show thesis by blast
qed

lemma writes_all_covers:
  assumes "grants_everywhere held (\<lambda>p. pr_action p \<in> {ActWrite, ActAllGraph})" and "whole_graph_writes held"
    and "rq_action r \<in> {ActCreate, ActDelete, ActSetLabel, ActRemoveLabel, ActSetProperty}"
  obtains p where "(Grant, p) \<in> set held" and "priv_covers Grant p r"
proof -
  obtain p where p: "(Grant, p) \<in> set held" "pr_target p \<in> {None, Some TargetAll}" and kind: "pr_action p \<in> {ActWrite, ActAllGraph}"
    using assms(1) by (auto simp: grants_everywhere_def list_ex_iff)
  have "pr_segment p = SegGraph"
    using assms(2) p(1) kind by (auto simp: whole_graph_writes_def list_all_iff)
  moreover have "implies (pr_action p) Grant (pr_resource p) (rq_action r) = Some Wholly"
    using kind assms(3) by (elim insertE emptyE) (simp_all add: implies_def action_level_def)
  ultimately have "priv_covers Grant p r"
    using everywhere_covers[OF p(2), of r] by (simp add: priv_covers_def)
  with p that show thesis by blast
qed

section \<open>Wildcards\<close>

lemma glob_spec_star: "glob_spec (CHR ''*'' # g) name \<longleftrightarrow> (\<exists>k \<le> length name. glob_spec g (drop k name))"
  by (force simp: list_ex_iff less_Suc_eq_le simp del: upt_Suc)

text \<open>A run of the glob without stars against a stretch of the name of the same length.\<close>

definition run_matches :: "string \<Rightarrow> string \<Rightarrow> bool" where
  "run_matches = list_all2 (\<lambda>c d. c \<noteq> CHR ''*'' \<and> (c = CHR ''?'' \<or> c = d))"

lemma run_matches_append: "run_matches run stretch \<Longrightarrow> glob_spec (run @ g) (stretch @ name) = glob_spec g name"
  unfolding run_matches_def by (induction rule: list_all2_induct) auto

lemma glob_spec_run:
  "CHR ''*'' \<notin> set run \<Longrightarrow> glob_spec (run @ g) name \<Longrightarrow> length run \<le> length name \<and> glob_spec g (drop (length run) name)"
  by (induction run arbitrary: name) (auto split: list.splits)

lemma run_matches_no_star: "run_matches run stretch \<Longrightarrow> CHR ''*'' \<notin> set run"
  unfolding run_matches_def by (induction rule: list_all2_induct) auto

text \<open>Reaching the next star: whatever the earlier star could still skip, the later one can skip too.\<close>

lemma later_star_suffices:
  assumes run: "run_matches run stretch"
  shows "(\<exists>k \<le> length (stretch @ rest). glob_spec (run @ CHR ''*'' # g) (drop k (stretch @ rest))) \<longleftrightarrow>
         (\<exists>k \<le> length rest. glob_spec g (drop k rest))" (is "?l \<longleftrightarrow> ?r")
proof
  have len: "length run = length stretch" using run by (auto simp: run_matches_def dest: list_all2_lengthD)
  define whole where "whole = stretch @ rest"
  assume ?l
  then obtain k where k: "k \<le> length whole" "glob_spec (run @ CHR ''*'' # g) (drop k whole)" unfolding whole_def by blast
  have "length run \<le> length whole - k" "glob_spec (CHR ''*'' # g) (drop (k + length run) whole)"
    using glob_spec_run[OF run_matches_no_star[OF run] k(2)] by (simp_all add: add.commute)
  then obtain j where "k + length run + j \<le> length whole" "glob_spec g (drop (k + length run + j) whole)"
    using k(1) unfolding glob_spec_star by (auto simp: add.commute add.left_commute le_diff_conv2)
  then show ?r unfolding whole_def using len by (intro exI[of _ "k + j"]) (simp add: add.commute add.left_commute)
next
  assume ?r
  then have "glob_spec (run @ CHR ''*'' # g) (stretch @ rest)" unfolding run_matches_append[OF run] glob_spec_star .
  then show ?l by (intro exI[of _ 0]) simp
qed

lemma glob_spec_empty: "glob_spec g [] \<longleftrightarrow> list_all (\<lambda>c. c = CHR ''*'') g"
  by (induction g) auto

lemma glob_loop_done:
  "n = length name \<Longrightarrow> glob_loop glob name g n star mark = Some (list_all (\<lambda>c. c = CHR ''*'') (drop g glob))"
  by (subst glob_loop.simps) simp

lemma glob_loop_step:
  "n = length before \<Longrightarrow> g = length past \<Longrightarrow> c = CHR ''?'' \<or> c = d \<Longrightarrow>
     glob_loop (past @ c # gs) (before @ d # ns) g n star mark = glob_loop (past @ c # gs) (before @ d # ns) (g + 1) (n + 1) star mark"
  by (subst glob_loop.simps) simp

lemma glob_loop_star:
  "n = length before \<Longrightarrow> g = length past \<Longrightarrow> d \<noteq> CHR ''*'' \<Longrightarrow>
     glob_loop (past @ CHR ''*'' # gs) (before @ d # ns) g n star mark =
     glob_loop (past @ CHR ''*'' # gs) (before @ d # ns) (g + 1) n (Some g) n"
  by (subst glob_loop.simps) simp

lemma glob_loop_stuck:
  "n = length before \<Longrightarrow> g = length past \<Longrightarrow> (case gs of [] \<Rightarrow> True | c # _ \<Rightarrow> c \<noteq> CHR ''?'' \<and> c \<noteq> d \<and> c \<noteq> CHR ''*'') \<Longrightarrow>
     glob_loop (past @ gs) (before @ d # ns) g n star mark =
     (case star of None \<Rightarrow> Some False | Some s \<Rightarrow> glob_loop (past @ gs) (before @ d # ns) (s + 1) (mark + 1) star (mark + 1))"
  by (subst glob_loop.simps) (auto split: list.splits)

lemma exhausted_only_in_place:
  assumes run: "run_matches run stretch"
  shows "(\<exists>k \<le> length stretch. glob_spec (run @ gs) (drop k stretch)) \<longleftrightarrow> glob_spec gs []"
proof -
  have "k = 0" if "glob_spec (run @ gs) (drop k stretch)" "k \<le> length stretch" for k
    using glob_spec_run[OF run_matches_no_star[OF run] that(1)] that(2) list_all2_lengthD[OF run[unfolded run_matches_def]] by auto
  then show ?thesis using run_matches_append[OF run, of gs "[]"] by (metis append.right_neutral drop0 le0)
qed

lemma first_place_fails:
  "\<not> glob_spec g (x # rest) \<Longrightarrow>
     (\<exists>k \<le> length (x # rest). glob_spec g (drop k (x # rest))) = (\<exists>k \<le> length rest. glob_spec g (drop k rest))"
  by (metis Suc_le_mono drop0 drop_Suc_Cons length_Cons not0_implies_Suc)

text \<open>What the loop returns once it has passed a star: the text before the star and the stretches it has tried no longer matter.\<close>

lemma glob_loop_after_star:
  assumes "run_matches run stretch" and "CHR ''*'' \<notin> set (skipped @ stretch @ ns)"
  shows "glob_loop (pre @ CHR ''*'' # run @ gs) (skipped @ stretch @ ns) (length pre + 1 + length run) (length skipped + length stretch)
       (Some (length pre)) (length skipped) =
     Some (\<exists>k \<le> length (stretch @ ns). glob_spec (run @ gs) (drop k (stretch @ ns)))"
  using assms
proof (induction "(pre, run, gs, skipped, stretch, ns)" arbitrary: pre run gs skipped stretch ns
    rule: wf_induct_rule[OF wf_measures[of "[\<lambda>(pre, run, gs, skipped, stretch, ns). length run + length gs,
      \<lambda>(pre, run, gs, skipped, stretch, ns). length stretch + length ns, \<lambda>(pre, run, gs, skipped, stretch, ns). length gs]"]])
  case (1 pre run gs skipped stretch ns)
  note run = 1(2)
  let ?glob = "pre @ CHR ''*'' # run @ gs" and ?name = "skipped @ stretch @ ns"
  have blocked: "glob_spec (run @ gs) (stretch @ ns) = glob_spec gs ns" by (rule run_matches_append[OF run])
  show ?case
  proof (cases ns)
    case Nil
    then show ?thesis using exhausted_only_in_place[OF run, of gs] by (simp add: glob_loop_done glob_spec_empty)
  next
    case (Cons d ns')
    then have d: "d \<noteq> CHR ''*''" using 1(3) by auto
    consider (same) c gs' where "gs = c # gs'" "c = CHR ''?'' \<or> c = d" | (star) gs' where "gs = CHR ''*'' # gs'"
      | (stuck) "case gs of [] \<Rightarrow> True | c # _ \<Rightarrow> c \<noteq> CHR ''?'' \<and> c \<noteq> d \<and> c \<noteq> CHR ''*''"
      by (cases gs) auto
    then show ?thesis
    proof cases
      case same
      then have "run_matches (run @ [c]) (stretch @ [d])"
        using run d by (auto simp: run_matches_def list_all2_appendI)
      from 1(1)[OF _ this, where pre = pre and gs = gs' and skipped = skipped and ns = ns'] same Cons 1(3)
      show ?thesis using glob_loop_step[of "length skipped + length stretch" "skipped @ stretch" _ "pre @ CHR ''*'' # run" c d gs' ns'] by simp
    next
      case star
      have "run_matches [] []" by (simp add: run_matches_def)
      from 1(1)[OF _ this, where pre = "pre @ CHR ''*'' # run" and gs = gs' and skipped = "skipped @ stretch" and ns = ns] star Cons 1(3)
      show ?thesis
        using glob_loop_star[of "length skipped + length stretch" "skipped @ stretch" _ "pre @ CHR ''*'' # run" d gs' ns'] d
          later_star_suffices[OF run, of ns gs'] by simp
    next
      case stuck
      obtain x rest where x: "stretch @ ns = x # rest" using Cons by (cases "stretch @ ns") auto
      have shorter: "length rest < length stretch + length ns" using x by (metis length_Cons length_append lessI)
      have "run_matches [] []" by (simp add: run_matches_def)
      from 1(1)[OF _ this, where pre = pre and gs = "run @ gs" and skipped = "skipped @ [x]" and ns = rest] 1(3)
      have "glob_loop ?glob ?name (length pre + 1) (length skipped + 1) (Some (length pre)) (length skipped + 1) =
          Some (\<exists>k \<le> length rest. glob_spec (run @ gs) (drop k rest))"
        using x shorter by simp
      moreover have "\<not> glob_spec (run @ gs) (x # rest)"
        using blocked stuck Cons x by (cases gs) auto
      note first_place_fails[OF this]
      ultimately show ?thesis
        using glob_loop_stuck[of "length skipped + length stretch" "skipped @ stretch" _ "pre @ CHR ''*'' # run" d gs ns', OF _ _ stuck] Cons x
        by simp
    qed
  qed
qed

lemma glob_loop_before_star:
  assumes "CHR ''*'' \<notin> set (before @ ns)"
  shows "glob_loop (past @ gs) (before @ ns) (length past) (length before) None 0 = Some (glob_spec gs ns)"
  using assms
proof (induction gs arbitrary: past before ns)
  case Nil
  then show ?case
    by (cases ns) (simp_all add: glob_loop_done glob_loop_stuck[of "length before" before "length past" past _ "[]", simplified])
next
  case (Cons c gs)
  show ?case
  proof (cases ns)
    case Nil
    then show ?thesis by (simp add: glob_loop_done glob_spec_empty del: glob_spec.simps)
  next
    case ns: (Cons d ns')
    consider (same) "c \<noteq> CHR ''*''" "c = CHR ''?'' \<or> c = d" | (star) "c = CHR ''*''" | (stuck) "c \<noteq> CHR ''?'' \<and> c \<noteq> d \<and> c \<noteq> CHR ''*''"
      by blast
    then show ?thesis
    proof cases
      case same
      then show ?thesis
        using Cons.IH[of "before @ [d]" ns' "past @ [c]"] Cons.prems ns glob_loop_step[of "length before" before _ past c d gs ns'] by simp
    next
      case star
      have "run_matches [] []" by (simp add: run_matches_def)
      from glob_loop_after_star[OF this, of before ns past gs] star ns Cons.prems show ?thesis
        using glob_loop_star[of "length before" before "length past" past d gs ns' None 0] unfolding star glob_spec_star by auto
    next
      case stuck
      then show ?thesis using ns glob_loop_stuck[of "length before" before _ past d "c # gs" ns' None 0] by simp
    qed
  qed
qed

section \<open>Sessions\<close>

lemma check_query_keeps:
  obtains cache where "snd (check_query (Some c) q) = Some (c\<lparr>c_cache := cache\<rparr>)"
proof -
  obtain a d e n where q: "q = (a, d, e, n)" by (cases q)
  show thesis
  proof (cases "fmlookup (c_cache c) (query_key q)")
    case None
    then show thesis using that by (simp add: q check_def Let_def)
  next
    case (Some b)
    then show thesis using that[of "c_cache c"] by (simp add: q check_def)
  qed
qed

lemma check_all_keeps:
  obtains cache where "snd (check_all (Some c) qs) = Some (c\<lparr>c_cache := cache\<rparr>)"
proof (induction qs arbitrary: c thesis)
  case Nil
  show ?case using Nil[of "c_cache c"] by simp
next
  case (Cons q qs)
  obtain cache where step: "snd (check_query (Some c) q) = Some (c\<lparr>c_cache := cache\<rparr>)" by (rule check_query_keeps)
  obtain cache' where "snd (check_all (Some (c\<lparr>c_cache := cache\<rparr>)) qs) = Some (c\<lparr>c_cache := cache, c_cache := cache'\<rparr>)"
    by (rule Cons.IH)
  then show ?case using step Cons.prems[of cache'] by (simp add: split_beta)
qed


definition sample_held :: "(access \<times> privilege) list" where
  "sample_held =
     [(Grant, role_graph ActMatch (SegNode PatAll) ResAllProperties),
      (Deny, \<lparr>pr_action = ActRead, pr_target = Some TargetAll, pr_segment = SegNode (PatName ''Employee''), pr_resource = ResProperty ''salary''\<rparr>)]"


text \<open>C26. Skipping is safe: when \<^verbatim>\<open>reads_everything\<close> answers yes for a database, at any time in a session, finding every node and
  relationship of it and reading every property is permitted; when \<^verbatim>\<open>writes_everything\<close> does, every kind of write to every
  element is. Hypothesis: the segments of \<^verbatim>\<open>WRITE\<close> and \<^verbatim>\<open>ALL GRAPH PRIVILEGES\<close> are the whole graph, as the commands build them.
\<close>

theorem skipped_checks_pass:
  assumes "whole_graph_writes held" and "e \<noteq> NoElement"
    and "a \<in> {ActTraverse, ActRead} \<and> fst (reads_everything (snd (check_all (context_new held home) qs)) db) \<or>
         a \<in> {ActCreate, ActDelete, ActSetLabel, ActRemoveLabel, ActSetProperty} \<and>
         fst (writes_everything (snd (check_all (context_new held home) qs)) db)"
  shows "permitted held (query_request home (a, db, e, n))"
proof -
  let ?r = "query_request home (a, db, e, n)"
  obtain c where c: "context_new held home = Some c" by (simp add: context_new_def)
  obtain cache where "snd (check_all (Some c) qs) = Some (c\<lparr>c_cache := cache\<rparr>)" by (rule check_all_keeps)
  with assms(3) have flags: "a \<in> {ActTraverse, ActRead} \<and> c_reads_all c \<or>
      a \<in> {ActCreate, ActDelete, ActSetLabel, ActRemoveLabel, ActSetProperty} \<and> c_writes_all c"
    by (auto simp: c reads_everything_def writes_everything_def split: if_splits)
  then have "\<not> graph_deny held" using c by (auto simp: context_new_def)
  moreover have "action_level (rq_action ?r) = GraphLevel" using flags by (auto simp: action_level_def)
  moreover obtain p where "(Grant, p) \<in> set held" "priv_covers Grant p ?r"
  proof (cases "c_reads_all c \<and> a \<in> {ActTraverse, ActRead}")
    case True
    then have "reads_segment held (SegNode PatAll)" "reads_segment held (SegRelationship PatAll)"
      using c by (auto simp: context_new_def)
    moreover have "segment_covers (SegNode PatAll) ?r \<or> segment_covers (SegRelationship PatAll) ?r"
      using assms(2) by (cases e) (auto simp: pattern_matches_def)
    ultimately obtain seg where "reads_segment held seg" "segment_covers seg ?r" by blast
    moreover have "rq_action ?r \<in> {ActTraverse, ActRead}" using True by auto
    ultimately show thesis using reads_segment_covers[OF _ assms(1)] that by blast
  next
    case False
    then have "grants_everywhere held (\<lambda>p. pr_action p \<in> {ActWrite, ActAllGraph})" using flags c by (auto simp: context_new_def)
    then show thesis using that False flags assms(1) writes_all_covers[of held ?r] by auto
  qed
  ultimately show ?thesis using no_graph_deny unfolding permitted_def by blast
qed

theorem skipped_checks_pass_witness:
  "permitted (map (Pair Grant) (the (builtin_privileges ''editor''))) (query_request ''hr'' (ActSetLabel, ''hr'', NodeElement [''A''], Some ''B''))"
proof (rule skipped_checks_pass[where qs = "[]"])
  show "whole_graph_writes (map (Pair Grant) (the (builtin_privileges ''editor'')))" by code_simp
  show "NodeElement [''A''] \<noteq> NoElement" by simp
  show "ActSetLabel \<in> {ActTraverse, ActRead} \<and>
      fst (reads_everything (snd (check_all (context_new (map (Pair Grant) (the (builtin_privileges ''editor''))) ''hr'') [])) ''hr'') \<or>
      ActSetLabel \<in> {ActCreate, ActDelete, ActSetLabel, ActRemoveLabel, ActSetProperty} \<and>
      fst (writes_everything (snd (check_all (context_new (map (Pair Grant) (the (builtin_privileges ''editor''))) ''hr'') [])) ''hr'')"
    by code_simp
qed

text \<open>Shown too. Wildcards: the loop of \<^verbatim>\<open>glob_matches\<close>, which returns to the last star when it is stuck, ends on every glob and every name, and on
  names without a star it answers as the usual reading of the wildcards: a star stands for any run of characters, a question mark for any one.
\<close>

theorem glob_matches_exact:
  assumes "CHR ''*'' \<notin> set name"
  shows "glob_matches glob name = Some (glob_spec glob name)"
  using glob_loop_before_star[of "[]" name "[]" glob] assms by (simp add: glob_matches_def)

theorem glob_matches_exact_witness: "glob_matches ''db.*.l?st'' ''db.a.labels.list'' = Some (glob_spec ''db.*.l?st'' ''db.a.labels.list'')"
  by (rule glob_matches_exact) simp

text \<open>Shown too. A name that starts with a star is missed by the glob that covers every name: the loop reads the star of the glob as the literal character.
\<close>

theorem literal_star_missed: "glob_matches ''*'' ''*x'' = Some False \<and> glob_spec ''*'' ''*x''"
  by code_simp

definition denied_a :: "(access \<times> privilege) list" where
  "denied_a =
     [(Grant, role_graph ActTraverse (SegNode PatAll) ResGraph), (Deny, role_graph ActTraverse (SegNode (PatName ''A'')) ResGraph)]"

text \<open>Shown too. Two nodes share a cache key when a label holds the separator: after a permitted check of a node with the one label, the session
  answers yes for the node with the two labels, which is denied.
\<close>

theorem cached_grant_passes_deny:
  "fst (check_all (context_new denied_a [])
     [(ActTraverse, ''g'', NodeElement [[CHR ''A'', CHR 0x01, CHR ''B'']], None), (ActTraverse, ''g'', NodeElement [''A'', ''B''], None)]) =
     [True, True] \<and>
   \<not> is_allowed (decide denied_a (query_request [] (ActTraverse, ''g'', NodeElement [''A'', ''B''], None)))"
  by code_simp

text \<open>Shown too. The built-in roles from reader to admin each hold every privilege of the one before; reader does not hold the procedures of
  PUBLIC.
\<close>

theorem builtin_roles_grow:
  "set (the (builtin_privileges ''reader'')) \<subseteq> set (the (builtin_privileges ''editor'')) \<and>
   set (the (builtin_privileges ''editor'')) \<subseteq> set (the (builtin_privileges ''publisher'')) \<and>
   set (the (builtin_privileges ''publisher'')) \<subseteq> set (the (builtin_privileges ''architect'')) \<and>
   set (the (builtin_privileges ''architect'')) \<subseteq> set (the (builtin_privileges ''admin'')) \<and>
   fst (can_execute_procedure (context_new (map (Pair Grant) (the (builtin_privileges ''PUBLIC''))) []) ''db.labels'') \<and>
   \<not> fst (can_execute_procedure (context_new (map (Pair Grant) (the (builtin_privileges ''reader''))) []) ''db.labels'')"
  by code_simp

end
