(* ===== verification/Adjacency.thy ===== *)
theory Adjacency
  imports Drevo_Prelude
begin

text \<open>
  The snapshot the graph algorithms run on: \<^verbatim>\<open>AdjacencyList\<close> of \<^verbatim>\<open>src/src/algorithms/mod.rs\<close>, its construction from nodes and
  weighted edges in compressed-sparse-row layout.

  Indices and lengths (\<open>usize\<close>) are natural numbers. The weights are floating-point numbers the definitions only pass on: widening one to
  \<open>f64\<close> and clamping it at zero is the argument \<open>clamp\<close>, of which nothing is assumed. An index out of range panics in the code: the operation is \<open>None\<close> then.
\<close>

section \<open>The model\<close>

record 'w adjacency_list =
  al_nodes :: "u64 list"
  al_offsets :: "nat list"
  al_edges :: "(nat \<times> 'w) list"

fun index_nodes :: "u64 list \<Rightarrow> u64 list \<Rightarrow> (u64, nat) fmap \<Rightarrow> u64 list \<times> (u64, nat) fmap" where
  "index_nodes [] ns index = (ns, index)"
| "index_nodes (i # ids) ns index =
     (case fmlookup index i of
        None \<Rightarrow> index_nodes ids (ns @ [i]) (fmupd i (length ns) index)
      | Some _ \<Rightarrow> index_nodes ids ns index)"

fun bucket_edges ::
    "('s \<Rightarrow> 'w) \<Rightarrow> (u64, nat) fmap \<Rightarrow> (u64 \<times> u64 \<times> 's) list \<Rightarrow> (nat \<times> 'w) list list \<Rightarrow> (nat \<times> 'w) list list" where
  "bucket_edges clamp index [] buckets = buckets"
| "bucket_edges clamp index ((source, dest, weight) # es) buckets =
     (case (fmlookup index source, fmlookup index dest) of
        (Some i, Some j) \<Rightarrow> bucket_edges clamp index es (buckets[i := buckets ! i @ [(j, clamp weight)]])
      | _ \<Rightarrow> bucket_edges clamp index es buckets)"

fun flatten_buckets :: "(nat \<times> 'w) list list \<Rightarrow> nat list \<Rightarrow> (nat \<times> 'w) list \<Rightarrow> nat list \<times> (nat \<times> 'w) list" where
  "flatten_buckets [] offsets flat = (offsets, flat)"
| "flatten_buckets (b # bs) offsets flat = flatten_buckets bs (offsets @ [length (flat @ b)]) (flat @ b)"

definition from_parts :: "('s \<Rightarrow> 'w) \<Rightarrow> u64 list \<Rightarrow> (u64 \<times> u64 \<times> 's) list \<Rightarrow> 'w adjacency_list" where
  "from_parts clamp node_ids es =
     (let (ns, index) = index_nodes node_ids [] fmempty;
          buckets = bucket_edges clamp index es (replicate (length ns) []);
          (offsets, flat) = flatten_buckets buckets [0] []
      in \<lparr>al_nodes = ns, al_offsets = offsets, al_edges = flat\<rparr>)"

definition node_count :: "'w adjacency_list \<Rightarrow> nat" where
  "node_count G = length (al_nodes G)"

definition id_at :: "'w adjacency_list \<Rightarrow> nat \<Rightarrow> u64 option" where
  "id_at G i = (if i < length (al_nodes G) then Some (al_nodes G ! i) else None)"

definition out_edges :: "'w adjacency_list \<Rightarrow> nat \<Rightarrow> (nat \<times> 'w) list option" where
  "out_edges G i =
     (if i + 1 < length (al_offsets G)
      then let start = al_offsets G ! i; stop = al_offsets G ! (i + 1) in
        (if start \<le> stop \<and> stop \<le> length (al_edges G) then Some (take (stop - start) (drop start (al_edges G))) else None)
      else None)"

section \<open>What a snapshot holds\<close>

text \<open>The edges between nodes of the graph, by id; the code drops the others.\<close>

definition kept_edges :: "u64 list \<Rightarrow> (u64 \<times> u64 \<times> 's) list \<Rightarrow> (u64 \<times> u64) set" where
  "kept_edges ids es = {(a, b). a \<in> set ids \<and> b \<in> set ids \<and> (\<exists>w. (a, b, w) \<in> set es)}"

definition index_ok :: "u64 list \<Rightarrow> (u64, nat) fmap \<Rightarrow> bool" where
  "index_ok ns index \<longleftrightarrow> distinct ns \<and> (\<forall>i k. fmlookup index i = Some k \<longleftrightarrow> k < length ns \<and> ns ! k = i)"

lemma index_ok_Nil: "index_ok [] fmempty"
  by (simp add: index_ok_def)

lemma index_ok_None: "index_ok ns index \<Longrightarrow> fmlookup index i = None \<longleftrightarrow> i \<notin> set ns"
  by (metis (no_types, lifting) in_set_conv_nth index_ok_def not_None_eq nth_mem)

lemma index_ok_push:
  assumes ok: "index_ok ns index" and new: "fmlookup index i = None"
  shows "index_ok (ns @ [i]) (fmupd i (length ns) index)"
proof -
  have i: "i \<notin> set ns" using index_ok_None[OF ok] new by simp
  have lookup: "fmlookup index a = Some k \<longleftrightarrow> k < length ns \<and> ns ! k = a" for a k using ok by (simp add: index_ok_def)
  have "fmlookup (fmupd i (length ns) index) a = Some k \<longleftrightarrow> k < length (ns @ [i]) \<and> (ns @ [i]) ! k = a" for a k
  proof (cases "a = i")
    case True
    with i show ?thesis by (auto simp: nth_append less_Suc_eq dest: nth_mem)
  next
    case False
    then show ?thesis by (auto simp: nth_append lookup less_Suc_eq)
  qed
  then show ?thesis using i ok by (simp add: index_ok_def)
qed

lemma index_nodes_ok:
  "index_ok ns index \<Longrightarrow> index_nodes ids ns index = (ns', index') \<Longrightarrow> index_ok ns' index' \<and> set ns' = set ns \<union> set ids"
proof (induction ids arbitrary: ns index)
  case (Cons i ids)
  show ?case
  proof (cases "fmlookup index i")
    case None
    with Cons.IH[OF index_ok_push[OF Cons.prems(1) None]] Cons.prems(2) show ?thesis by auto
  next
    case (Some k)
    with Cons.prems(1) have "i \<in> set ns" by (metis index_ok_None option.distinct(1))
    with Some Cons.IH[OF Cons.prems(1)] Cons.prems(2) show ?thesis by auto
  qed
qed simp

lemma bucket_edges_length [simp]: "length (bucket_edges clamp index es buckets) = length buckets"
  by (induction clamp index es buckets rule: bucket_edges.induct) (auto split: option.splits)

lemma bucket_edges_member:
  "(\<And>i k. fmlookup index i = Some k \<Longrightarrow> k < length buckets) \<Longrightarrow>
     j \<in> fst ` set (bucket_edges clamp index es buckets ! i) \<longleftrightarrow>
     j \<in> fst ` set (buckets ! i) \<or> list_ex (\<lambda>(a, b, w). fmlookup index a = Some i \<and> fmlookup index b = Some j) es"
proof (induction es arbitrary: buckets)
  case (Cons e es)
  obtain source dest weight where e: "e = (source, dest, weight)" by (cases e)
  show ?case
  proof (cases "fmlookup index source")
    case None
    with Cons.IH[OF Cons.prems] show ?thesis by (simp add: e)
  next
    case source: (Some k)
    show ?thesis
    proof (cases "fmlookup index dest")
      case None
      with Cons.IH[OF Cons.prems] source show ?thesis by (simp add: e)
    next
      case (Some l)
      let ?buckets = "buckets[k := buckets ! k @ [(l, clamp weight)]]"
      have "k < length buckets" using source Cons.prems by blast
      then have "j \<in> fst ` set (?buckets ! i) \<longleftrightarrow> j \<in> fst ` set (buckets ! i) \<or> k = i \<and> l = j"
        by (cases "k = i") auto
      with Cons.IH[of ?buckets] Cons.prems source Some show ?thesis by (simp add: e disj_ac)
    qed
  qed
qed simp

text \<open>The offsets delimit the buckets.\<close>

lemma flatten_buckets_eq:
  "flatten_buckets bs offsets flat =
     (offsets @ map (\<lambda>k. length (flat @ concat (take (Suc k) bs))) [0..<length bs], flat @ concat bs)"
proof (induction bs arbitrary: offsets flat)
  case (Cons b bs)
  have "[0..<length (b # bs)] = 0 # map Suc [0..<length bs]"
    by (simp add: map_Suc_upt upt_conv_Cons del: upt_Suc)
  then show ?case using Cons by (simp del: upt_Suc)
qed simp

lemma flatten_offsets:
  assumes "i \<le> length bs"
  shows "fst (flatten_buckets bs [0] []) ! i = length (concat (take i bs))"
  using assms by (cases i) (simp_all add: flatten_buckets_eq nth_append)

lemma slice_of_concat:
  "i < length bs \<Longrightarrow> take (length (concat (take (Suc i) bs)) - length (concat (take i bs))) (drop (length (concat (take i bs))) (concat bs)) = bs ! i"
proof -
  assume i: "i < length bs"
  have "concat bs = concat (take i bs) @ bs ! i @ concat (drop (Suc i) bs)"
    using id_take_nth_drop[OF i] by (metis concat.simps(2) concat_append)
  moreover have "length (concat (take (Suc i) bs)) = length (concat (take i bs)) + length (bs ! i)"
    using i by (simp add: take_Suc_conv_app_nth)
  ultimately show ?thesis by simp
qed

lemma length_concat_take_mono: "i \<le> j \<Longrightarrow> length (concat (take i bs)) \<le> length (concat (take j bs))"
  by (metis concat_append le_add1 length_append min.absorb1 take_add take_take le_Suc_ex)

lemma out_edges_flattened:
  assumes "al_offsets G = fst (flatten_buckets bs [0] [])" and "al_edges G = snd (flatten_buckets bs [0] [])" and "i < length bs"
  shows "out_edges G i = Some (bs ! i)"
proof -
  have len: "length (al_offsets G) = Suc (length bs)" by (simp add: assms(1) flatten_buckets_eq)
  have "al_offsets G ! i = length (concat (take i bs))" "al_offsets G ! (i + 1) = length (concat (take (Suc i) bs))"
    using assms(3) flatten_offsets[of i bs] flatten_offsets[of "Suc i" bs] by (simp_all add: assms(1))
  moreover have "length (concat (take (Suc i) bs)) \<le> length (concat bs)"
    using length_concat_take_mono[of "Suc i" "length bs" bs] assms(3) by simp
  moreover have "al_edges G = concat bs" by (simp add: assms(2) flatten_buckets_eq)
  ultimately show ?thesis
    using assms(3) len length_concat_take_mono[of i "Suc i" bs] slice_of_concat[OF assms(3)] by (simp add: out_edges_def Let_def)
qed

text \<open>A snapshot, as the algorithms see it: distinct ids, and rows that list the kept edges by index.\<close>

definition snapshot_of :: "u64 list \<Rightarrow> (u64 \<times> u64 \<times> 's) list \<Rightarrow> 'w adjacency_list \<Rightarrow> bool" where
  "snapshot_of ids es G \<longleftrightarrow>
     distinct (al_nodes G) \<and> set (al_nodes G) = set ids \<and>
     (\<forall>i < node_count G. \<exists>row. out_edges G i = Some row \<and>
        fst ` set row = {j. j < node_count G \<and> (al_nodes G ! i, al_nodes G ! j) \<in> kept_edges ids es})"

lemma from_parts_snapshot: "snapshot_of ids es (from_parts clamp ids es)"
proof -
  obtain ns index where idx: "index_nodes ids [] fmempty = (ns, index)" by (cases "index_nodes ids [] fmempty")
  then have ok: "index_ok ns index" and ns: "set ns = set ids" using index_nodes_ok[OF index_ok_Nil] by auto
  let ?bs = "bucket_edges clamp index es (replicate (length ns) [])" and ?G = "from_parts clamp ids es"
  have G: "al_nodes ?G = ns" "al_offsets ?G = fst (flatten_buckets ?bs [0] [])" "al_edges ?G = snd (flatten_buckets ?bs [0] [])"
    by (simp_all add: from_parts_def idx split_beta Let_def)
  have lookup: "fmlookup index a = Some k \<longleftrightarrow> k < length ns \<and> ns ! k = a" for a k using ok by (simp add: index_ok_def)
  have row: "out_edges ?G i = Some (?bs ! i)" if "i < length ns" for i
    using out_edges_flattened[OF G(2,3)] that by simp
  have "fst ` set (?bs ! i) = {j. j < length ns \<and> (ns ! i, ns ! j) \<in> kept_edges ids es}" if i: "i < length ns" for i
  proof (rule set_eqI)
    fix j
    have "j \<in> fst ` set (?bs ! i) \<longleftrightarrow> list_ex (\<lambda>(a, b, w). fmlookup index a = Some i \<and> fmlookup index b = Some j) es"
      using i by (subst bucket_edges_member) (auto simp: lookup)
    also have "\<dots> \<longleftrightarrow> j < length ns \<and> (\<exists>w. (ns ! i, ns ! j, w) \<in> set es)"
      using i by (fastforce simp: lookup list_ex_iff)
    finally show "j \<in> fst ` set (?bs ! i) \<longleftrightarrow> j \<in> {j. j < length ns \<and> (ns ! i, ns ! j) \<in> kept_edges ids es}"
      using i nth_mem[of i ns] nth_mem[of j ns] unfolding kept_edges_def ns[symmetric] by auto
  qed
  then show ?thesis
    using row ok ns by (simp add: snapshot_of_def node_count_def G(1) index_ok_def)
qed

end
