(* ===== verification/Wcc.thy ===== *)
theory Wcc
  imports Adjacency
begin

text \<open>
  Weakly connected components: \<^verbatim>\<open>src/src/algorithms/wcc.rs\<close>, a union-find with path halving and union by size over a snapshot, and the
  numbering of the components by their smallest node id.

  \<open>None\<close> stands for an index out of range, where the code panics, and for a search of a root that does not end; the theorems show
  that neither happens. The map from roots to smallest ids is read in an arbitrary order and sorted by distinct ids, so the order in which
  it is read does not matter.
\<close>

section \<open>The model\<close>

record wcc_result =
  wr_components :: "(u64 \<times> nat) list"
  wr_component_count :: nat

record union_find =
  uf_parent :: "nat list"
  uf_size :: "nat list"

definition uf_new :: "nat \<Rightarrow> union_find" where
  "uf_new n = \<lparr>uf_parent = [0..<n], uf_size = replicate n 1\<rparr>"

partial_function (option) find_root :: "nat list \<Rightarrow> nat \<Rightarrow> (nat \<times> nat list) option" where
  "find_root parent x =
     (if x < length parent then
        (let p = parent ! x in
         if p = x then Some (x, parent)
         else if p < length parent then find_root (parent[x := parent ! p]) (parent ! p) else None)
      else None)"

declare find_root.simps [code]

definition uf_find :: "union_find \<Rightarrow> nat \<Rightarrow> (nat \<times> union_find) option" where
  "uf_find uf x = map_option (\<lambda>(r, parent). (r, uf\<lparr>uf_parent := parent\<rparr>)) (find_root (uf_parent uf) x)"

definition uf_link :: "union_find \<Rightarrow> nat \<Rightarrow> nat \<Rightarrow> union_find option" where
  "uf_link uf ra rb =
     (if ra = rb then Some uf
      else if ra < length (uf_size uf) \<and> rb < length (uf_size uf) then
        (let (ra, rb) = (if uf_size uf ! ra < uf_size uf ! rb then (rb, ra) else (ra, rb)) in
         if rb < length (uf_parent uf)
         then Some (uf\<lparr>uf_parent := (uf_parent uf)[rb := ra], uf_size := (uf_size uf)[ra := uf_size uf ! ra + uf_size uf ! rb]\<rparr>)
         else None)
      else None)"

definition uf_union :: "union_find \<Rightarrow> nat \<Rightarrow> nat \<Rightarrow> union_find option" where
  "uf_union uf a b =
     (case uf_find uf a of
        None \<Rightarrow> None
      | Some (ra, uf1) \<Rightarrow> (case uf_find uf1 b of None \<Rightarrow> None | Some (rb, uf2) \<Rightarrow> uf_link uf2 ra rb))"

fun union_row :: "union_find \<Rightarrow> nat \<Rightarrow> (nat \<times> 'w) list \<Rightarrow> union_find option" where
  "union_row uf i [] = Some uf"
| "union_row uf i ((j, w) # row) = (case uf_union uf i j of None \<Rightarrow> None | Some uf' \<Rightarrow> union_row uf' i row)"

fun union_rows :: "'w adjacency_list \<Rightarrow> union_find \<Rightarrow> nat list \<Rightarrow> union_find option" where
  "union_rows G uf [] = Some uf"
| "union_rows G uf (i # is) =
     (case out_edges G i of
        None \<Rightarrow> None
      | Some row \<Rightarrow> (case union_row uf i row of None \<Rightarrow> None | Some uf' \<Rightarrow> union_rows G uf' is))"

definition note_min :: "(nat, u64) fmap \<Rightarrow> nat \<Rightarrow> u64 \<Rightarrow> (nat, u64) fmap" where
  "note_min root_min root node =
     (case fmlookup root_min root of
        None \<Rightarrow> fmupd root node root_min
      | Some m \<Rightarrow> if node < m then fmupd root node root_min else root_min)"

fun root_minima :: "'w adjacency_list \<Rightarrow> union_find \<Rightarrow> (nat, u64) fmap \<Rightarrow> nat list \<Rightarrow> ((nat, u64) fmap \<times> union_find) option" where
  "root_minima G uf root_min [] = Some (root_min, uf)"
| "root_minima G uf root_min (i # is) =
     (case (uf_find uf i, id_at G i) of
        (Some (root, uf'), Some node) \<Rightarrow> root_minima G uf' (note_min root_min root node) is
      | _ \<Rightarrow> None)"

definition label_roots :: "(nat \<times> u64) list \<Rightarrow> (nat, nat) fmap" where
  "label_roots roots = fold (\<lambda>(rank, root, _). fmupd root rank) (enumerate 0 roots) fmempty"

fun label_nodes :: "'w adjacency_list \<Rightarrow> (nat, nat) fmap \<Rightarrow> union_find \<Rightarrow> nat list \<Rightarrow> (u64 \<times> nat) list option" where
  "label_nodes G label uf [] = Some []"
| "label_nodes G label uf (i # is) =
     (case (uf_find uf i, id_at G i) of
        (Some (root, uf'), Some node) \<Rightarrow>
          (case (fmlookup label root, label_nodes G label uf' is) of
             (Some c, Some rest) \<Rightarrow> Some ((node, c) # rest)
           | _ \<Rightarrow> None)
      | _ \<Rightarrow> None)"

definition wcc :: "'w adjacency_list \<Rightarrow> wcc_result option" where
  "wcc G =
     (let n = node_count G in
      if n = 0 then Some \<lparr>wr_components = [], wr_component_count = 0\<rparr>
      else
        (case union_rows G (uf_new n) [0..<n] of
           None \<Rightarrow> None
         | Some uf \<Rightarrow>
             (case root_minima G uf fmempty [0..<n] of
                None \<Rightarrow> None
              | Some (root_min, uf') \<Rightarrow>
                  (let roots = sort_key snd (sorted_list_of_fmap root_min) in
                   case label_nodes G (label_roots roots) uf' [0..<n] of
                     None \<Rightarrow> None
                   | Some components \<Rightarrow> Some \<lparr>wr_components = sort_key fst components, wr_component_count = length roots\<rparr>))))"

section \<open>Finding the root\<close>

text \<open>
  The parents agree with a function to the roots, and a rank grows along them. The function does not change while paths are halved, and a
  union changes it on one class.
\<close>

definition ranked :: "nat \<Rightarrow> (nat \<Rightarrow> nat) \<Rightarrow> (nat \<Rightarrow> nat) \<Rightarrow> nat list \<Rightarrow> bool" where
  "ranked n root rank parent \<longleftrightarrow> length parent = n \<and>
     (\<forall>x < n. parent ! x < n \<and> root (parent ! x) = root x \<and> (if parent ! x = x then root x = x else rank x < rank (parent ! x)))"

definition uf_ok :: "nat \<Rightarrow> (nat \<Rightarrow> nat) \<Rightarrow> union_find \<Rightarrow> bool" where
  "uf_ok n root uf \<longleftrightarrow> length (uf_size uf) = n \<and> (\<exists>rank. ranked n root rank (uf_parent uf))"

lemma rankedD:
  assumes "ranked n root rank parent" and "x < n"
  shows "parent ! x < n" and "root (parent ! x) = root x" and "if parent ! x = x then root x = x else rank x < rank (parent ! x)"
  using assms by (auto simp: ranked_def)

lemma ranked_halve:
  assumes ok: "ranked n root rank parent" and x: "x < n" "parent ! x \<noteq> x"
  shows "ranked n root rank (parent[x := parent ! (parent ! x)])" and "rank x < rank (parent ! (parent ! x))"
proof -
  let ?p = "parent ! x" and ?q = "parent ! (parent ! x)"
  have p: "?p < n" "root ?p = root x" "rank x < rank ?p" and q: "?q < n" "root ?q = root ?p" "?q = ?p \<or> rank ?p < rank ?q"
    using rankedD[OF ok x(1)] rankedD[OF ok, of "parent ! x"] x(2) by (auto split: if_splits)
  then show grow: "rank x < rank ?q" by auto
  then have "?q \<noteq> x" by auto
  with ok x p q grow show "ranked n root rank (parent[x := ?q])"
    unfolding ranked_def by (auto simp: nth_list_update)
qed

lemma find_root_ok:
  assumes "ranked n root rank parent" and "x < n"
  shows "\<exists>parent'. find_root parent x = Some (root x, parent') \<and> ranked n root rank parent' \<and> root x < n \<and> parent' ! root x = root x \<and>
    (\<forall>r < n. parent ! r = r \<longrightarrow> parent' ! r = r)"
  using assms
proof (induction "Max (rank ` {..<n}) - rank x" arbitrary: parent x rule: less_induct)
  case less
  note ok = less.prems(1) and x = less.prems(2)
  let ?p = "parent ! x" and ?q = "parent ! (parent ! x)"
  have len: "length parent = n" and p: "?p < n" "root ?p = root x" using ok x by (auto simp: ranked_def)
  show ?case
  proof (cases "?p = x")
    case True
    then have "root x = x" using ok x by (auto simp: ranked_def)
    with True x len ok show ?thesis by (subst find_root.simps) auto
  next
    case False
    note halved = ranked_halve[OF ok x False]
    have q: "?q < n" "root ?q = root x" using ok p by (auto simp: ranked_def)
    have "rank ?q \<le> Max (rank ` {..<n})" using q(1) by (intro Max_ge) auto
    then have "Max (rank ` {..<n}) - rank ?q < Max (rank ` {..<n}) - rank x" using halved(2) by simp
    from less.hyps[OF this halved(1) q(1)] q(2) obtain parent' where
      "find_root (parent[x := ?q]) ?q = Some (root x, parent')" "ranked n root rank parent'" "root x < n" "parent' ! root x = root x"
      "\<forall>r < n. parent[x := ?q] ! r = r \<longrightarrow> parent' ! r = r" by auto
    moreover have "parent[x := ?q] ! r = r" if "parent ! r = r" for r using that False by (cases "r = x") auto
    moreover have "find_root parent x = find_root (parent[x := ?q]) ?q"
      using False x p len by (subst find_root.simps) (simp add: Let_def)
    ultimately show ?thesis by metis
  qed
qed

lemma uf_find_ok:
  assumes "uf_ok n root uf" and "x < n"
  obtains uf' where "uf_find uf x = Some (root x, uf')" and "uf_ok n root uf'" and "root x < n" and "uf_parent uf' ! root x = root x"
    and "\<And>r. r < n \<Longrightarrow> uf_parent uf ! r = r \<Longrightarrow> uf_parent uf' ! r = r"
proof -
  obtain rank where "ranked n root rank (uf_parent uf)" "length (uf_size uf) = n" using assms(1) by (auto simp: uf_ok_def)
  moreover obtain parent' where "find_root (uf_parent uf) x = Some (root x, parent')" "ranked n root rank parent'" "root x < n"
      "parent' ! root x = root x" "\<forall>r < n. uf_parent uf ! r = r \<longrightarrow> parent' ! r = r"
    using find_root_ok[OF calculation(1) assms(2)] by blast
  ultimately show thesis by (intro that[of "uf\<lparr>uf_parent := parent'\<rparr>"]) (auto simp: uf_find_def uf_ok_def)
qed

section \<open>Joining classes\<close>

lemma ranked_link:
  assumes ok: "ranked n root rank parent" and roots: "ra < n" "rb < n" "parent ! ra = ra" "parent ! rb = rb" "ra \<noteq> rb"
  shows "ranked n (\<lambda>x. if root x = rb then ra else root x) (rank(ra := max (rank ra) (Suc (rank rb)))) (parent[rb := ra])"
proof -
  let ?root = "\<lambda>x. if root x = rb then ra else root x" and ?rank = "rank(ra := max (rank ra) (Suc (rank rb)))" and ?p = "parent[rb := ra]"
  have fixed: "root ra = ra" "root rb = rb" using rankedD(3)[OF ok] roots by auto
  have len: "length parent = n" using ok by (simp add: ranked_def)
  have "?p ! x < n \<and> ?root (?p ! x) = ?root x \<and> (if ?p ! x = x then ?root x = x else ?rank x < ?rank (?p ! x))" if x: "x < n" for x
  proof (cases "x = rb")
    case True
    then show ?thesis using roots fixed len by simp
  next
    case False
    have "x = ra \<Longrightarrow> parent ! x = x" using roots by simp
    then show ?thesis using False rankedD[OF ok x] roots by (auto simp: less_max_iff_disj split: if_splits)
  qed
  then show ?thesis unfolding ranked_def length_list_update using len by blast
qed

lemma uf_link_ok:
  assumes ok: "uf_ok n root uf" and roots: "ra < n" "rb < n" "uf_parent uf ! ra = ra" "uf_parent uf ! rb = rb"
  obtains root' uf' where "uf_link uf ra rb = Some uf'" and "uf_ok n root' uf'"
    and "\<And>x y. root' x = root' y \<longleftrightarrow> root x = root y \<or> {root x, root y} = {ra, rb}"
proof (cases "ra = rb")
  case True
  show thesis by (rule that[of uf root]) (use ok True in \<open>auto simp: uf_link_def\<close>)
next
  case False
  obtain rank where rank: "ranked n root rank (uf_parent uf)" and len: "length (uf_size uf) = n" using ok by (auto simp: uf_ok_def)
  then have plen: "length (uf_parent uf) = n" by (simp add: ranked_def)
  define big where "big = (if uf_size uf ! ra < uf_size uf ! rb then rb else ra)"
  define small where "small = (if uf_size uf ! ra < uf_size uf ! rb then ra else rb)"
  have both: "big < n" "small < n" "uf_parent uf ! big = big" "uf_parent uf ! small = small" "big \<noteq> small" "{ra, rb} = {big, small}"
    using roots False by (auto simp: big_def small_def)
  let ?uf = "uf\<lparr>uf_parent := (uf_parent uf)[small := big], uf_size := (uf_size uf)[big := uf_size uf ! big + uf_size uf ! small]\<rparr>"
  have "uf_link uf ra rb = Some ?uf"
    using False roots len plen by (simp add: uf_link_def big_def small_def)
  moreover have "uf_ok n (\<lambda>x. if root x = small then big else root x) ?uf"
    using ranked_link[OF rank both(1-5)] len by (auto simp: uf_ok_def)
  moreover have "(if root x = small then big else root x) = (if root y = small then big else root y) \<longleftrightarrow>
      root x = root y \<or> {root x, root y} = {ra, rb}" for x y
    using both(5) unfolding both(6) by (auto simp: doubleton_eq_iff)
  ultimately show thesis using that by blast
qed

text \<open>The classes are those of the links made so far.\<close>

definition joined :: "(nat \<times> nat) set \<Rightarrow> (nat \<times> nat) set" where
  "joined E = (E \<union> E\<inverse>)\<^sup>*"

definition classes_ok :: "nat \<Rightarrow> (nat \<times> nat) set \<Rightarrow> (nat \<Rightarrow> nat) \<Rightarrow> bool" where
  "classes_ok n E root \<longleftrightarrow> (\<forall>x < n. \<forall>y < n. root x = root y \<longleftrightarrow> (x, y) \<in> joined E)"

lemma joined_insert:
  "(x, y) \<in> joined (insert (a, b) E) \<longleftrightarrow>
     (x, y) \<in> joined E \<or> (x, a) \<in> joined E \<and> (b, y) \<in> joined E \<or> (x, b) \<in> joined E \<and> (a, y) \<in> joined E"
proof -
  have both: "insert (a, b) E \<union> (insert (a, b) E)\<inverse> = insert (a, b) (insert (b, a) (E \<union> E\<inverse>))" by auto
  show ?thesis unfolding joined_def both rtrancl_insert by (blast intro: rtrancl_trans)
qed

lemma classes_ok_insert:
  assumes "classes_ok n E root" and "a < n" "b < n" and "\<And>x y. root' x = root' y \<longleftrightarrow> root x = root y \<or> {root x, root y} = {root a, root b}"
  shows "classes_ok n (insert (a, b) E) root'"
proof -
  have conn: "(x, y) \<in> joined E \<longleftrightarrow> root x = root y" if "x < n" "y < n" for x y using assms(1) that by (simp add: classes_ok_def)
  show ?thesis
    using assms(2,3) unfolding classes_ok_def assms(4) joined_insert by (auto simp: conn doubleton_eq_iff)
qed

lemma uf_union_ok:
  assumes "uf_ok n root uf" and "classes_ok n E root" and ab: "a < n" "b < n"
  obtains root' uf' where "uf_union uf a b = Some uf'" and "uf_ok n root' uf'" and "classes_ok n (insert (a, b) E) root'"
proof -
  obtain uf1 where 1: "uf_find uf a = Some (root a, uf1)" "uf_ok n root uf1" "root a < n" "uf_parent uf1 ! root a = root a"
    by (rule uf_find_ok[OF assms(1) ab(1)])
  obtain uf2 where 2: "uf_find uf1 b = Some (root b, uf2)" "uf_ok n root uf2" "root b < n" "uf_parent uf2 ! root b = root b"
      "\<And>r. r < n \<Longrightarrow> uf_parent uf1 ! r = r \<Longrightarrow> uf_parent uf2 ! r = r"
    by (rule uf_find_ok[OF 1(2) ab(2)]) blast
  obtain root' uf' where 3: "uf_link uf2 (root a) (root b) = Some uf'" "uf_ok n root' uf'"
      "\<And>x y. root' x = root' y \<longleftrightarrow> root x = root y \<or> {root x, root y} = {root a, root b}"
    by (rule uf_link_ok[OF 2(2) 1(3) 2(3) 2(5)[OF 1(3,4)] 2(4)]) (rule that)
  have "uf_union uf a b = Some uf'" using 1(1) 2(1) 3(1) by (simp add: uf_union_def)
  with 3(2) classes_ok_insert[OF assms(2) ab 3(3)] that show thesis by blast
qed

lemma union_row_ok:
  assumes "uf_ok n root uf" and "classes_ok n E root" and "i < n" and "fst ` set row \<subseteq> {..<n}"
  obtains root' uf' where "union_row uf i row = Some uf'" and "uf_ok n root' uf'" and "classes_ok n (E \<union> {i} \<times> fst ` set row) root'"
  using assms
proof (induction row arbitrary: uf root E thesis)
  case (Cons e row)
  obtain j w where e: "e = (j, w)" by (cases e)
  with Cons.prems(5) have "j < n" "fst ` set row \<subseteq> {..<n}" by auto
  obtain root' uf' where step: "uf_union uf i j = Some uf'" "uf_ok n root' uf'" "classes_ok n (insert (i, j) E) root'"
    by (rule uf_union_ok[OF Cons.prems(2,3,4) \<open>j < n\<close>])
  obtain root'' uf'' where "union_row uf' i row = Some uf''" "uf_ok n root'' uf''"
      "classes_ok n (insert (i, j) E \<union> {i} \<times> fst ` set row) root''"
    by (rule Cons.IH[OF _ step(2,3) Cons.prems(4) \<open>fst ` set row \<subseteq> {..<n}\<close>])
  moreover have "insert (i, j) E \<union> {i} \<times> fst ` set row = E \<union> {i} \<times> fst ` set (e # row)" by (auto simp: e)
  ultimately show ?case using Cons.prems(1)[of uf'' root''] step(1) by (simp add: e)
qed auto

lemma union_rows_ok:
  assumes "uf_ok n root uf" and "classes_ok n E root" and "set is \<subseteq> {..<n}"
    and "\<And>i. i < n \<Longrightarrow> \<exists>row. out_edges G i = Some row \<and> fst ` set row = L i" and "\<And>i. i < n \<Longrightarrow> L i \<subseteq> {..<n}"
  obtains root' uf' where "union_rows G uf is = Some uf'" and "uf_ok n root' uf'" and "classes_ok n (E \<union> Sigma (set is) L) root'"
  using assms(1-3)
proof (induction "is" arbitrary: uf root E thesis)
  case (Cons i "is")
  then have i: "i < n" "set is \<subseteq> {..<n}" by auto
  obtain row where row: "out_edges G i = Some row" "fst ` set row = L i" using assms(4)[OF i(1)] by (elim exE conjE)
  then have bound: "fst ` set row \<subseteq> {..<n}" using assms(5)[OF i(1)] by simp
  obtain root' uf' where step: "union_row uf i row = Some uf'" "uf_ok n root' uf'" "classes_ok n (E \<union> {i} \<times> fst ` set row) root'"
    by (rule union_row_ok[OF Cons.prems(2,3) i(1) bound])
  obtain root'' uf'' where "union_rows G uf' is = Some uf''" "uf_ok n root'' uf''"
      "classes_ok n (E \<union> {i} \<times> fst ` set row \<union> Sigma (set is) L) root''"
    by (rule Cons.IH[OF _ step(2,3) i(2)])
  moreover have "E \<union> {i} \<times> fst ` set row \<union> Sigma (set is) L = E \<union> Sigma (set (i # is)) L" using row(2) by auto
  ultimately show ?case using Cons.prems(1)[of uf'' root''] step(1) row(1) by simp
qed auto

lemma uf_new_ok: "uf_ok n (\<lambda>x. x) (uf_new n)"
  by (simp add: uf_ok_def uf_new_def ranked_def)

lemma classes_ok_empty: "classes_ok n {} (\<lambda>x. x)"
  by (simp add: classes_ok_def joined_def)

section \<open>Numbering the components\<close>

definition minima_ok :: "(nat \<Rightarrow> nat) \<Rightarrow> u64 list \<Rightarrow> nat set \<Rightarrow> (nat, u64) fmap \<Rightarrow> bool" where
  "minima_ok root ns I root_min \<longleftrightarrow>
     (\<forall>r. fmlookup root_min r = (if r \<in> root ` I then Some (Min ((!) ns ` {i \<in> I. root i = r})) else None))"

lemma note_min_ok:
  assumes "minima_ok root ns I root_min" and "finite I"
  shows "minima_ok root ns (insert i I) (note_min root_min (root i) (ns ! i))"
  unfolding minima_ok_def
proof
  fix r
  have old: "fmlookup root_min r = (if r \<in> root ` I then Some (Min ((!) ns ` {i \<in> I. root i = r})) else None)"
    using assms(1) by (simp add: minima_ok_def)
  show "fmlookup (note_min root_min (root i) (ns ! i)) r =
      (if r \<in> root ` insert i I then Some (Min ((!) ns ` {k \<in> insert i I. root k = r})) else None)"
  proof (cases "r = root i")
    case False
    then have "{k \<in> insert i I. root k = r} = {k \<in> I. root k = r}" by auto
    with False old show ?thesis by (simp add: note_min_def split: option.splits)
  next
    case True
    then have set: "{k \<in> insert i I. root k = r} = insert i {k \<in> I. root k = r}" by auto
    show ?thesis
    proof (cases "r \<in> root ` I")
      case False
      then have empty: "{k \<in> I. root k = r} = {}" by auto
      show ?thesis unfolding set empty using False old True by (simp add: note_min_def)
    next
      case in_I: True
      then have "(!) ns ` {k \<in> I. root k = r} \<noteq> {}" "finite ((!) ns ` {k \<in> I. root k = r})" using assms(2) by auto
      then have "Min ((!) ns ` insert i {k \<in> I. root k = r}) = min (ns ! i) (Min ((!) ns ` {k \<in> I. root k = r}))" by simp
      with in_I old show ?thesis unfolding set using True by (auto simp: note_min_def min_def)
    qed
  qed
qed

lemma root_minima_ok:
  assumes "uf_ok (node_count G) root uf" and "minima_ok root (al_nodes G) I root_min" and "finite I" and "set is \<subseteq> {..<node_count G}"
  obtains root_min' uf' where "root_minima G uf root_min is = Some (root_min', uf')" and "uf_ok (node_count G) root uf'"
    and "minima_ok root (al_nodes G) (I \<union> set is) root_min'"
  using assms
proof (induction "is" arbitrary: uf root_min I thesis)
  case (Cons i "is")
  then have i: "i < node_count G" "set is \<subseteq> {..<node_count G}" by auto
  obtain uf' where step: "uf_find uf i = Some (root i, uf')" "uf_ok (node_count G) root uf'"
    by (rule uf_find_ok[OF Cons.prems(2) i(1)])
  obtain root_min' uf'' where "root_minima G uf' (note_min root_min (root i) (al_nodes G ! i)) is = Some (root_min', uf'')"
      "uf_ok (node_count G) root uf''" "minima_ok root (al_nodes G) (insert i I \<union> set is) root_min'"
    by (rule Cons.IH[OF _ step(2) note_min_ok[OF Cons.prems(3,4)] _ i(2)]) (use Cons.prems(4) in auto)
  moreover have "id_at G i = Some (al_nodes G ! i)" using i(1) by (simp add: id_at_def node_count_def)
  ultimately show ?case using Cons.prems(1)[of root_min' uf''] step(1) by simp
qed auto

lemma label_nodes_ok:
  assumes "uf_ok (node_count G) root uf" and "set is \<subseteq> {..<node_count G}" and "\<And>i. i \<in> set is \<Longrightarrow> fmlookup label (root i) = Some (L i)"
  shows "label_nodes G label uf is = Some (map (\<lambda>i. (al_nodes G ! i, L i)) is)"
  using assms
proof (induction "is" arbitrary: uf)
  case (Cons i "is")
  then have i: "i < node_count G" by auto
  obtain uf' where step: "uf_find uf i = Some (root i, uf')" "uf_ok (node_count G) root uf'"
    by (rule uf_find_ok[OF Cons.prems(1) i])
  moreover have "id_at G i = Some (al_nodes G ! i)" using i by (simp add: id_at_def node_count_def)
  ultimately show ?case using Cons.IH[OF step(2)] Cons.prems(2,3) by simp
qed simp

lemma label_roots_lookup:
  assumes "distinct (map fst roots)" and "k < length roots"
  shows "fmlookup (label_roots roots) (fst (roots ! k)) = Some k"
proof -
  have "fmlookup (fold (\<lambda>(rank, root, _). fmupd root rank) (enumerate m roots) label) (fst (roots ! k)) = Some (m + k)" for m label
    using assms
  proof (induction roots arbitrary: m k label)
    case (Cons r roots)
    have untouched: "fmlookup (fold (\<lambda>(rank, root, _). fmupd root rank) (enumerate m rs) label) x = fmlookup label x"
      if "x \<notin> fst ` set rs" for m rs label x
      using that by (induction rs arbitrary: m label) (auto split: prod.splits)
    show ?case
    proof (cases k)
      case 0
      then show ?thesis using Cons.prems untouched[of "fst r" roots] by (auto split: prod.splits)
    next
      case (Suc j)
      then show ?thesis using Cons.prems Cons.IH[of j "Suc m"] by (auto split: prod.splits)
    qed
  qed simp
  then show ?thesis by (simp add: label_roots_def)
qed

text \<open>Roots sorted by distinct values are labelled in the order of the values.\<close>

definition labels_ok :: "(nat, u64) fmap \<Rightarrow> (nat \<times> u64) list \<Rightarrow> (nat \<Rightarrow> nat) \<Rightarrow> bool" where
  "labels_ok root_min roots lab \<longleftrightarrow>
     lab ` {r. r |\<in>| fmdom root_min} = {..<length roots} \<and>
     (\<forall>r m. fmlookup root_min r = Some m \<longrightarrow> fmlookup (label_roots roots) r = Some (lab r)) \<and>
     (\<forall>r m s k. fmlookup root_min r = Some m \<longrightarrow> fmlookup root_min s = Some k \<longrightarrow> (lab r < lab s \<longleftrightarrow> m < k))"

lemma label_roots_ok:
  assumes "\<And>r s m. fmlookup root_min r = Some m \<Longrightarrow> fmlookup root_min s = Some m \<Longrightarrow> r = s"
  obtains lab where "labels_ok root_min (sort_key snd (sorted_list_of_fmap root_min)) lab"
proof -
  define roots where "roots = sort_key snd (sorted_list_of_fmap root_min)"
  have "distinct (map fst (sorted_list_of_fmap root_min))" by (simp add: sorted_list_of_fmap_def comp_def sorted_list_of_fset.rep_eq)
  then have fst: "distinct (map fst roots)" by (simp add: roots_def distinct_map distinct_sort inj_on_def)
  have mem: "(r, m) \<in> set roots \<longleftrightarrow> fmlookup root_min r = Some m" for r m
    by (auto simp: roots_def sorted_list_of_fmap_def image_iff fmdom_notI fmdomI)
  have "inj_on snd (set roots)" using assms by (auto simp: inj_on_def mem)
  then have "distinct (map snd roots)" using fst by (auto simp: distinct_map)
  then have strict: "sorted_wrt (<) (map snd roots)" by (simp add: roots_def strict_sorted_iff)
  define lab where "lab r = the (fmlookup (label_roots roots) r)" for r
  have at: "\<exists>k < length roots. roots ! k = (r, m) \<and> lab r = k \<and> fmlookup (label_roots roots) r = Some (lab r)"
    if looked: "fmlookup root_min r = Some m" for r m
  proof -
    obtain k where k: "k < length roots" "roots ! k = (r, m)" using looked unfolding mem[symmetric] in_set_conv_nth by blast
    with label_roots_lookup[OF fst k(1)] show ?thesis by (simp add: lab_def)
  qed
  have onto: "\<exists>r. r |\<in>| fmdom root_min \<and> lab r = k" if "k < length roots" for k
  proof -
    have "fmlookup root_min (fst (roots ! k)) = Some (snd (roots ! k))" using that mem[of "fst (roots ! k)" "snd (roots ! k)"] by simp
    moreover have "lab (fst (roots ! k)) = k" using label_roots_lookup[OF fst that] by (simp add: lab_def)
    ultimately show ?thesis by (auto intro: fmdomI)
  qed
  have order: "lab r < lab s \<longleftrightarrow> m < k" if looked: "fmlookup root_min r = Some m" "fmlookup root_min s = Some k" for r s m k
  proof -
    obtain i j where "i < length roots" "roots ! i = (r, m)" "lab r = i" "j < length roots" "roots ! j = (s, k)" "lab s = j"
      using at[OF looked(1)] at[OF looked(2)] by blast
    then show ?thesis
      using sorted_wrt_nth_less[OF strict, of i j] sorted_wrt_nth_less[OF strict, of j i]
      by (cases i j rule: linorder_cases) auto
  qed
  have "lab r < length roots" if "r |\<in>| fmdom root_min" for r
    using that at unfolding fmlookup_dom_iff by blast
  then have "lab ` {r. r |\<in>| fmdom root_min} = {..<length roots}" using onto by blast
  with at order show thesis using that[of lab] unfolding labels_ok_def roots_def[symmetric] by blast
qed

lemma labels_ok_inject:
  assumes "labels_ok root_min roots lab" and "\<And>r s m. fmlookup root_min r = Some m \<Longrightarrow> fmlookup root_min s = Some m \<Longrightarrow> r = s"
    and "fmlookup root_min r = Some m" and "fmlookup root_min s = Some k"
  shows "lab r = lab s \<longleftrightarrow> r = s"
proof
  have "lab r < lab s \<longleftrightarrow> m < k" "lab s < lab r \<longleftrightarrow> k < m" using assms(1,3,4) unfolding labels_ok_def by blast+
  moreover assume "lab r = lab s"
  ultimately have "m = k" by simp
  with assms(2-4) show "r = s" by blast
qed simp

section \<open>From indices to node ids\<close>

definition weakly_connected :: "u64 list \<Rightarrow> (u64 \<times> u64 \<times> 's) list \<Rightarrow> (u64 \<times> u64) set" where
  "weakly_connected ids es = (kept_edges ids es \<union> (kept_edges ids es)\<inverse>)\<^sup>*"

lemma joined_ids:
  assumes "distinct ns" and "K \<subseteq> set ns \<times> set ns" and "i < length ns" and "j < length ns"
  shows "(i, j) \<in> joined (Sigma {..<length ns} (\<lambda>i. {j. j < length ns \<and> (ns ! i, ns ! j) \<in> K})) \<longleftrightarrow> (ns ! i, ns ! j) \<in> (K \<union> K\<inverse>)\<^sup>*"
proof
  let ?E = "Sigma {..<length ns} (\<lambda>i. {j. j < length ns \<and> (ns ! i, ns ! j) \<in> K})"
  assume "(i, j) \<in> joined ?E"
  then show "(ns ! i, ns ! j) \<in> (K \<union> K\<inverse>)\<^sup>*"
    unfolding joined_def by (induction rule: rtrancl_induct) (auto intro: rtrancl_into_rtrancl)
next
  let ?E = "Sigma {..<length ns} (\<lambda>i. {j. j < length ns \<and> (ns ! i, ns ! j) \<in> K})"
  have "\<exists>k < length ns. y = ns ! k \<and> (i, k) \<in> joined ?E" if "(ns ! i, y) \<in> (K \<union> K\<inverse>)\<^sup>*" for y
    using that
  proof (induction rule: rtrancl_induct)
    case base
    show ?case using assms(3) by (auto simp: joined_def)
  next
    case (step y z)
    then obtain k where k: "k < length ns" "y = ns ! k" "(i, k) \<in> joined ?E" by blast
    have "z \<in> set ns" using step.hyps(2) assms(2) by auto
    then obtain l where l: "l < length ns" "z = ns ! l" by (metis in_set_conv_nth)
    then have "(k, l) \<in> ?E \<union> ?E\<inverse>" using step.hyps(2) k by auto
    with k(3) have "(i, l) \<in> joined ?E" unfolding joined_def by (rule rtrancl_into_rtrancl)
    with l show ?case by blast
  qed
  moreover assume "(ns ! i, ns ! j) \<in> (K \<union> K\<inverse>)\<^sup>*"
  ultimately obtain k where "k < length ns" "ns ! j = ns ! k" "(i, k) \<in> joined ?E" by blast
  with assms(1,4) show "(i, j) \<in> joined ?E" by (simp add: nth_eq_iff_index_eq)
qed

text \<open>What the answer of \<^verbatim>\<open>wcc\<close> has to be, given the nodes and the edges.\<close>

definition wcc_spec :: "u64 set \<Rightarrow> (u64 \<times> u64) set \<Rightarrow> wcc_result \<Rightarrow> bool" where
  "wcc_spec V conn r \<longleftrightarrow>
     map fst (wr_components r) = sorted_list_of_set V \<and> snd ` set (wr_components r) = {..<wr_component_count r} \<and>
     (\<forall>x c y d. (x, c) \<in> set (wr_components r) \<longrightarrow> (y, d) \<in> set (wr_components r) \<longrightarrow>
        (c = d \<longleftrightarrow> (x, y) \<in> conn) \<and> (c < d \<longleftrightarrow> Min {z \<in> V. (z, x) \<in> conn} < Min {z \<in> V. (z, y) \<in> conn}))"

lemma map_fst_sort_key: "distinct (map fst xs) \<Longrightarrow> map fst (sort_key fst xs) = sorted_list_of_set (fst ` set xs)"
  by (rule sorted_distinct_set_unique) (auto simp: distinct_map distinct_sort)

text \<open>After the unions, two indices have the same root exactly when their nodes are connected.\<close>

lemma unions_connect:
  assumes G: "snapshot_of ids es G"
  obtains root uf where "union_rows G (uf_new (node_count G)) [0..<node_count G] = Some uf" and "uf_ok (node_count G) root uf"
    and "\<And>i j. i < node_count G \<Longrightarrow> j < node_count G \<Longrightarrow>
      root i = root j \<longleftrightarrow> (al_nodes G ! i, al_nodes G ! j) \<in> weakly_connected ids es"
proof -
  define ns n where "ns = al_nodes G" and "n = node_count G"
  let ?L = "\<lambda>i. {j. j < n \<and> (ns ! i, ns ! j) \<in> kept_edges ids es}"
  have ns: "distinct ns" "set ns = set ids" "n = length ns" and rows: "\<And>i. i < n \<Longrightarrow> \<exists>row. out_edges G i = Some row \<and> fst ` set row = ?L i"
    using G by (auto simp: snapshot_of_def ns_def n_def node_count_def)
  have bounds: "set [0..<n] \<subseteq> {..<n}" "?L i \<subseteq> {..<n}" for i by auto
  obtain root uf where uf: "union_rows G (uf_new n) [0..<n] = Some uf" "uf_ok n root uf" "classes_ok n ({} \<union> Sigma (set [0..<n]) ?L) root"
    by (rule union_rows_ok[OF uf_new_ok classes_ok_empty bounds(1) rows bounds(2)])
  have "root i = root j \<longleftrightarrow> (ns ! i, ns ! j) \<in> weakly_connected ids es" if "i < n" "j < n" for i j
  proof -
    have "kept_edges ids es \<subseteq> set ns \<times> set ns" by (auto simp: kept_edges_def ns(2))
    from joined_ids[OF ns(1) this, of i j] uf(3) that show ?thesis
      by (simp add: classes_ok_def weakly_connected_def ns(3) atLeast0LessThan)
  qed
  with uf(1,2) that show thesis unfolding ns_def n_def by blast
qed

text \<open>The smallest id of a class tells the classes apart.\<close>

lemma minima_of_classes:
  assumes ns: "set ns = V" and conn: "\<And>i j. i < length ns \<Longrightarrow> j < length ns \<Longrightarrow> root i = root j \<longleftrightarrow> (ns ! i, ns ! j) \<in> conn"
    and min: "minima_ok root ns {..<length ns} root_min"
  shows "a < length ns \<Longrightarrow> fmlookup root_min (root a) = Some (Min {z \<in> V. (z, ns ! a) \<in> conn})"
    and "{r. r |\<in>| fmdom root_min} = root ` {..<length ns}"
    and "fmlookup root_min r = Some m \<Longrightarrow> fmlookup root_min s = Some m \<Longrightarrow> r = s"
proof -
  have members: "(!) ns ` {i \<in> {..<length ns}. root i = root a} = {z \<in> V. (z, ns ! a) \<in> conn}" if "a < length ns" for a
    using that conn[OF _ that] unfolding ns[symmetric] by (fastforce simp: in_set_conv_nth image_iff)
  then show lookup: "fmlookup root_min (root a) = Some (Min {z \<in> V. (z, ns ! a) \<in> conn})" if "a < length ns" for a
    using min that by (simp add: minima_ok_def)
  show dom: "{r. r |\<in>| fmdom root_min} = root ` {..<length ns}"
    using min by (auto simp: minima_ok_def fmlookup_dom_iff split: if_splits)
  assume r: "fmlookup root_min r = Some m" and s: "fmlookup root_min s = Some m"
  obtain a b where ab: "a < length ns" "r = root a" "b < length ns" "s = root b" using r s dom by (blast dest: fmdomI)
  have member: "\<exists>k < length ns. ns ! k = m \<and> root k = root c" if "c < length ns" "fmlookup root_min (root c) = Some m" for c
  proof -
    have "finite ((!) ns ` {i \<in> {..<length ns}. root i = root c})" "(!) ns ` {i \<in> {..<length ns}. root i = root c} \<noteq> {}" using that(1) by auto
    from Min_in[OF this] have "m \<in> (!) ns ` {i \<in> {..<length ns}. root i = root c}"
      using lookup[OF that(1)] that(2) unfolding members[OF that(1)] by simp
    then show ?thesis by auto
  qed
  obtain k l where "k < length ns" "ns ! k = m" "root k = r" "l < length ns" "ns ! l = m" "root l = s"
    using member[of a] member[of b] ab r s by blast
  then show "r = s" using conn[of k l] conn[of l l] by auto
qed

lemma wcc_of_snapshot:
  assumes G: "snapshot_of ids es G"
  shows "\<exists>r. wcc G = Some r \<and> wcc_spec (set ids) (weakly_connected ids es) r"
proof (cases "node_count G = 0")
  case True
  then have "set ids = {}" using G by (auto simp: snapshot_of_def node_count_def)
  then show ?thesis by (simp add: wcc_def True wcc_spec_def)
next
  case False
  let ?ns = "al_nodes G" and ?n = "node_count G" and ?conn = "weakly_connected ids es"
  have ns: "distinct ?ns" "set ?ns = set ids" "length ?ns = ?n" using G by (auto simp: snapshot_of_def node_count_def)
  obtain root uf where uf: "union_rows G (uf_new ?n) [0..<?n] = Some uf" "uf_ok ?n root uf"
      "\<And>i j. i < ?n \<Longrightarrow> j < ?n \<Longrightarrow> root i = root j \<longleftrightarrow> (?ns ! i, ?ns ! j) \<in> ?conn"
    by (rule unions_connect[OF G]) (rule that)
  have "minima_ok root ?ns {} fmempty" "set [0..<?n] \<subseteq> {..<?n}" by (auto simp: minima_ok_def)
  then obtain root_min uf' where min: "root_minima G uf fmempty [0..<?n] = Some (root_min, uf')" "uf_ok ?n root uf'"
      "minima_ok root ?ns ({} \<union> set [0..<?n]) root_min"
    by (rule root_minima_ok[OF uf(2) _ finite.emptyI]) (rule that)
  then have "minima_ok root ?ns {..<length ?ns} root_min" by (simp add: ns(3) atLeast0LessThan)
  note minima = minima_of_classes[OF ns(2) uf(3)[unfolded ns(3)[symmetric]] this]
  obtain lab where lab: "labels_ok root_min (sort_key snd (sorted_list_of_fmap root_min)) lab"
    using minima(3) by (rule label_roots_ok)
  let ?components = "map (\<lambda>i. (?ns ! i, lab (root i))) [0..<?n]"
  let ?r = "\<lparr>wr_components = sort_key fst ?components, wr_component_count = length (sort_key snd (sorted_list_of_fmap root_min))\<rparr>"
  have "label_nodes G (label_roots (sort_key snd (sorted_list_of_fmap root_min))) uf' [0..<?n] = Some ?components"
    using lab minima(1) by (intro label_nodes_ok[OF min(2)]) (auto simp: labels_ok_def ns(3))
  then have "wcc G = Some ?r" using False uf(1) min(1) by (simp add: wcc_def Let_def)
  moreover have "map fst (sort_key fst ?components) = sorted_list_of_set (set ids)"
  proof -
    have fst: "map fst ?components = ?ns" by (simp add: comp_def ns(3)[symmetric] map_nth)
    then have "fst ` set ?components = set ids" using ns(2) by (metis image_set)
    with map_fst_sort_key[of ?components] fst ns(1) show ?thesis by (simp only:)
  qed
  moreover have "snd ` set (wr_components ?r) = {..<wr_component_count ?r}"
    using lab minima(2) by (auto simp: labels_ok_def ns(3) image_image atLeast0LessThan)
  moreover have "(lab (root i) = lab (root j) \<longleftrightarrow> (?ns ! i, ?ns ! j) \<in> ?conn) \<and>
      (lab (root i) < lab (root j) \<longleftrightarrow> Min {z \<in> set ids. (z, ?ns ! i) \<in> ?conn} < Min {z \<in> set ids. (z, ?ns ! j) \<in> ?conn})"
    if "i < ?n" "j < ?n" for i j
  proof -
    note found = minima(1)[of i] minima(1)[of j]
    have "lab (root i) = lab (root j) \<longleftrightarrow> root i = root j"
      using labels_ok_inject[OF lab minima(3)] found that by (simp add: ns(3))
    then show ?thesis using lab found uf(3)[OF that] that by (simp add: labels_ok_def ns(3))
  qed
  ultimately show ?thesis unfolding wcc_spec_def by auto
qed

end
