(* ===== verification/Native_Wcc.thy ===== *)
theory Native_Wcc
  imports Wcc Native_Promises
begin

text \<open>
  The weakly connected components of the engine's graph: \<^verbatim>\<open>wcc_native\<close> of \<^verbatim>\<open>src/src/algorithms/mod.rs\<close>, which takes one snapshot of the
  live state, builds the adjacency list and runs the algorithm on it.
\<close>

section \<open>The model\<close>

definition native_adjacency :: "(f32 \<Rightarrow> 'w) \<Rightarrow> 'j native_graph \<Rightarrow> 'w adjacency_list" where
  "native_adjacency clamp G =
     (let snap = live G;
          node_ids = map n_id (all_nodes snap);
          es = map (\<lambda>e. (e_from e, e_to e, e_weight e)) (all_edges snap)
      in from_parts clamp node_ids es)"

definition wcc_native :: "(f32 \<Rightarrow> 'w) \<Rightarrow> 'j native_graph \<Rightarrow> wcc_result option" where
  "wcc_native clamp G = wcc (native_adjacency clamp G)"

section \<open>Components of the live graph\<close>

text \<open>Nodes joined by a path of relationships, whatever their direction.\<close>

definition linked :: "'j inner \<Rightarrow> (u64 \<times> u64) set" where
  "linked g =
     (let E = {(e_from e, e_to e) |e i. fmlookup (edges g) i = Some e \<and> e_from e |\<in>| fmdom (nodes g) \<and> e_to e |\<in>| fmdom (nodes g)}
      in (E \<union> E\<inverse>)\<^sup>*)"

lemma set_fm_values: "set (fm_values m) = {v. \<exists>k. fmlookup m k = Some v}"
  by (auto simp: sorted_list_of_fmap_def sorted_list_of_fset.rep_eq image_iff fmlookup_dom_iff) (metis option.sel fmdomI)

lemma set_all_nodes: "set (all_nodes g) = {n. \<exists>i. fmlookup (nodes g) i = Some n}"
  unfolding all_nodes_def set_sort set_fm_values ..

lemma set_all_edges: "set (all_edges g) = {e. \<exists>i. fmlookup (edges g) i = Some e}"
  unfolding all_edges_def set_sort set_fm_values ..

lemma all_node_ids:
  assumes "graph_inv J g"
  shows "set (map n_id (all_nodes g)) = fset (fmdom (nodes g))"
proof -
  have "n_id n = i" if "fmlookup (nodes g) i = Some n" for i n using assms that by (auto simp: graph_inv_def nodes_inv_def)
  then show ?thesis by (force simp: set_all_nodes fmlookup_dom_iff)
qed

lemma weakly_connected_linked:
  assumes "graph_inv J g"
  shows "weakly_connected (map n_id (all_nodes g)) (map (\<lambda>e. (e_from e, e_to e, e_weight e)) (all_edges g)) = linked g"
proof -
  have "kept_edges (map n_id (all_nodes g)) (map (\<lambda>e. (e_from e, e_to e, e_weight e)) (all_edges g)) =
      {(e_from e, e_to e) |e i. fmlookup (edges g) i = Some e \<and> e_from e |\<in>| fmdom (nodes g) \<and> e_to e |\<in>| fmdom (nodes g)}"
    unfolding kept_edges_def all_node_ids[OF assms] by (force simp: set_all_edges)
  then show ?thesis by (simp add: weakly_connected_def linked_def Let_def)
qed

text \<open>C28. Components of the engine: after any calls of clients, the weakly connected components of the live graph are computed, every node of the graph
  is listed once in the order of the ids, two nodes get the same number exactly when a path of relationships joins them, and the numbers
  count the components from 0 in the order of their smallest node id, so the answer depends on the graph alone.\<close>

theorem wcc_native_exact:
  assumes "reachable J G"
  shows "\<exists>r. wcc_native clamp G = Some r \<and> wcc_spec (fset (fmdom (nodes (live G)))) (linked (live G)) r"
proof -
  have inv: "graph_inv J (live G)" using engine_reachable_inv[OF assms] by (auto simp: engine_inv_def)
  let ?ids = "map n_id (all_nodes (live G))" and ?es = "map (\<lambda>e. (e_from e, e_to e, e_weight e)) (all_edges (live G))"
  have "\<exists>r. wcc (from_parts clamp ?ids ?es) = Some r \<and> wcc_spec (set ?ids) (weakly_connected ?ids ?es) r"
    by (rule wcc_of_snapshot[OF from_parts_snapshot])
  then show ?thesis
    unfolding wcc_native_def native_adjacency_def Let_def all_node_ids[OF inv] weakly_connected_linked[OF inv] .
qed

theorem wcc_native_exact_witness:
  "\<exists>r. wcc_native (\<lambda>w. w) (ex_engine 1) = Some r \<and> wcc_spec (fset (fmdom (nodes (live (ex_engine 1))))) (linked (live (ex_engine 1))) r"
  using wcc_native_exact[OF ex_engine_reachable(1), of "\<lambda>w. w"] .

text \<open>The numbering on a small graph with a self-loop, an edge to a missing node and the nodes in no particular order.\<close>

lemma wcc_example:
  "wcc (from_parts (\<lambda>w. w) [5, 3, 2, 3] [(3, 2, ()), (5, 5, ()), (2, 9, ())]) =
     Some \<lparr>wr_components = [(2, 0), (3, 0), (5, 1)], wr_component_count = 2\<rparr>"
  by code_simp

end
