(* ===== verification/Spec2Isabelle.thy ===== *)
theory Spec2Isabelle
  imports Mvcc_Isolation Mvcc_Gc Lww Dense_Map Csr Delta_Findings Group_Durable
    Sequences Levenshtein Stable_Matching Bolt_Wire Privileges_Laws Native_Wcc
begin

text \<open>
  A verification development for \<^verbatim>\<open>drevo\<close>, an embedded graph database written in Rust.

  \<^bold>\<open>The program.\<close> The engine (\<^verbatim>\<open>src/drevo-core/src/native.rs\<close>) keeps a graph of nodes and relationships in memory, with indexes and
  adjacency lists derived from the two tables. Writes reach it one by one or as transactions with optimistic conflict detection; each
  acknowledged write is appended to a write-ahead log by group commit (\<^verbatim>\<open>wal_format.rs\<close>), published in a change feed that replicas
  tail, and stamped by a hybrid logical clock (\<^verbatim>\<open>hlc.rs\<close>) for replicas that exchange deltas (\<^verbatim>\<open>delta.rs\<close>). Opening a database
  replays the log. Beside the engine stand a multi-version key store (\<^verbatim>\<open>src/src/mvcc\<close>), named sequences, graph algorithms, the
  access control of \<^verbatim>\<open>src/drevo-auth\<close>, and the query language and the servers, of which Bolt's wire format is treated here.

  \<^bold>\<open>Shared ground.\<close> \<open>Drevo_Prelude\<close> holds the machine types (words for Rust integers, with saturating and checked operations written
  out), results as sums, and facts on lists, words and finite maps in the collections the components use. \<open>Key_Map\<close> states the
  interface of a map as the locale \<open>key_map\<close>; \<open>Dense_Map\<close> (\<^verbatim>\<open>dense_map.rs\<close>), \<open>Properties\<close> (\<^verbatim>\<open>properties.rs\<close>) and the
  library's finite maps interpret it, which is why the tables of the engine are finite maps. \<open>Id_Set\<close> (\<^verbatim>\<open>id_set.rs\<close>) interprets
  \<open>posting_set\<close> with the compact sets and with ordinary sets. \<open>Csr\<close> (\<^verbatim>\<open>csr.rs\<close>) builds the compressed adjacency of the
  algorithms and shows that a row lists exactly the neighbours.

  \<^bold>\<open>Graph state.\<close> \<open>Native_Model\<close> has the records (\<^verbatim>\<open>model.rs\<close>, \<^verbatim>\<open>labels.rs\<close>, \<^verbatim>\<open>Inner\<close>) and the log operations;
  \<open>Native_Inner\<close> the operations of \<^verbatim>\<open>impl Inner\<close>, in the order of the code: interning, indexing, node and relationship writes with
  their errors, the cascading delete, constraints, replay (\<^verbatim>\<open>apply_wal_op\<close>) and compaction (\<^verbatim>\<open>to_wal_ops\<close>). \<open>Native_Index\<close>
  says what each derived structure holds as a function of the tables and that every way the code changes it keeps it so; \<open>Native_Graph\<close> and
  \<open>Native_Ops\<close> assemble the invariant \<open>graph_inv\<close> and show that every operation keeps it; \<open>Native_Props\<close> draws the promises: runs of
  live writes stay consistent, neighbours and indexed lookups read as a scan of the tables would, uniqueness constraints hold. \<open>Native_Spec\<close>
  is the abstract specification: the durable state without indexes, on which a log operation is a few map updates. Replay refines
  it, a compacted log rebuilds the same durable state, and batches with disjoint conflict sets commute (\<open>Conflict\<close>: \<^verbatim>\<open>conflict.rs\<close>).

  \<^bold>\<open>Engine.\<close> \<open>Native_Engine\<close> models \<^verbatim>\<open>NativeGraph\<close>: direct writes, transactions with their working copies, snapshot and
  serializable commits, two-phase commit, the feed, cursors, settings. \<open>Native_Tx\<close> states its invariant over a trace of commits,
  \<open>Native_Run\<close> the calls a client can make and, with \<open>Native_Commit\<close>, that each keeps it. \<open>Native_Promises\<close> and \<open>Native_Fence\<close>
  conclude: a committed transaction has the effect of running against the current state, a failed one has none, the log rebuilds
  the state, the feed can be tailed from any cursor, and a prepared transaction commits. \<open>Native_Findings\<close> evaluates runs that end where
  the documentation says they cannot.

  \<^bold>\<open>Log on disk.\<close> \<open>Wal_Compact\<close> and \<open>Wal_Format\<close> model the record encodings, headers, framing with CRC-32 computed bit by bit,
  encryption envelope and the chunked reader; \<open>Wal_Recovery\<close> shows that replay does not depend on how the file is cut into reads,
  \<open>Wal_Durable\<close> that what was written is read back up to a torn tail and that a corrupt record is refused. \<open>Group_Commit\<close> is the
  queue of writers as a step relation, one step for each critical section, with failing and short file writes as nondeterministic
  outcomes; \<open>Group_Durable\<close> shows by rule induction that acknowledged records survive a crash at any moment, that the feed follows the
  log, and that every writer returns: a writer that has not is never stuck, and each step uses up work.

  \<^bold>\<open>Replication.\<close> \<open>Hlc\<close> models the clock with its saturating steps; \<open>Lww\<close> the registers, maps and sets of \<^verbatim>\<open>lww.rs\<close> with
  the locale \<open>crdt_merge\<close> of a convergent merge, interpreted on each. \<open>Native_Delta\<close> has version vectors, \<^verbatim>\<open>delta_since\<close> and
  \<^verbatim>\<open>apply_delta\<close>; \<open>Native_Sync\<close> and \<open>Native_Merge\<close> show that merging treats each node as a last-writer-wins register and that two
  replicas which exchange deltas agree on every node; \<open>Delta_Findings\<close> shows where relationships and committed transactions do not.

  \<^bold>\<open>Multi-version store.\<close> \<open>Mvcc_Txn\<close> models ids, statuses and snapshots (\<^verbatim>\<open>transaction.rs\<close>), with visibility as the locale
  \<open>snapshot_visibility\<close>; \<open>Mvcc_Store\<close> versions, chains and vacuum; \<open>Mvcc_World\<close> every interleaving of these operations as a step
  relation, under which the view of a registered snapshot does not change; \<open>Mvcc_Writers\<close> conflict checks; \<open>Mvcc_Isolation\<close> the
  retry loop and the isolation levels; \<open>Mvcc_Gc\<close> the vacuum worker.

  \<^bold>\<open>Around the engine.\<close> \<open>Sequences\<close> (\<^verbatim>\<open>sequence.rs\<close>): no value is handed out twice, over failing file writes and
  restarts. \<open>Levenshtein\<close>: the one-row table equals the least number of edits. \<open>Stable_Matching\<close>: deferred acceptance, shown stable and
  optimal for proposers in the locale \<open>deferred_acceptance\<close>, which the tables of the code interpret. \<open>Packstream\<close> and
  \<open>Packstream_Laws\<close>: Bolt's value codec, its round trip and a decoder that answers every input. \<open>Bolt_Wire\<close>: chunked messages and the
  version handshake. \<open>Adjacency\<close>, \<open>Wcc\<close> and \<open>Native_Wcc\<close> (\<^verbatim>\<open>src/src/algorithms\<close>): the adjacency list of a
  snapshot, the union-find with path halving, and that the components of every reachable engine state are exact.
  \<open>Privileges\<close> and \<open>Privileges_Laws\<close>: a deny wins, a session's cache (the locale \<open>memo\<close>) changes no answer, skipped
  checks would have passed, the wildcard loop ends and is exact.

  \<^bold>\<open>Parameters.\<close> Code of other packages is an argument: \<open>json_lib\<close> (JSON values) and \<open>wal_lib\<close> (serializers, compression, cipher),
  whose laws are the named hypotheses \<open>lib_ok\<close> and \<open>json_ok\<close>; the time of day and fresh uuids are arguments of the calls; the outcome
  of each file operation is an argument or a step.

  \<^bold>\<open>Bounds.\<close> Counters are words. \<open>room\<close>, \<open>fits\<close> and \<open>sync_room\<close> say that the counters a call takes from (64-bit ids and commit numbers,
  32-bit kinds, timestamps) are not exhausted; from a fresh database the first exhaustion needs \<open>2 ^ 32\<close> relationship kinds or \<open>2 ^ 64\<close>
  writes. \<open>fits_window\<close> is the limit above which compressed records are written and not read back. The PackStream decoder
  counts the levels it may still descend: a value takes at least one byte, so more levels than the input has bytes are always enough, and
  \<open>decode\<close> starts with them. Loops
  whose end is not structural (the wildcard match, the search of a root, the chunked reader, the retry loop, deferred acceptance) are shown to return.

  \<^bold>\<open>Not modelled.\<close> The Cypher parser, planner and executor, whose semantics is that of a whole query language; HTTP, gRPC and Bolt
  sessions, streaming, replicas' network threads, which are I/O around the operations above; vector search, text ranking and
  the remaining graph algorithms, mostly floating-point; dump and backup, which import and export through the engine's
  writes; password hashing, tokens, audit and sealed files, which call cryptographic libraries; observability; the Python and
  WebAssembly bindings. Memory allocation, lock poisoning and threads other than through the step relations are left out.
\<close>

end
